(* ===== verification/Tunio_Prelude.thy ===== *)
theory Tunio_Prelude
  imports Main "HOL-Library.Word"
begin

text \<open>
  Shared vocabulary of the development: the machine types of the C++ sources, byte order
  conversion, raw memory loads and stores, slices of byte arrays, \<^verbatim>\<open>size_t\<close>
  subtraction with its wrap-around, and \<^verbatim>\<open>std::map\<close> as a strictly sorted
  association list, the loop that collects a buffer sequence, and the interface (locale
  \<open>in_order_channel\<close>) of a receiver that delivers a stream in order.

  Conventions. \<^verbatim>\<open>uint8_t\<close>, \<^verbatim>\<open>uint16_t\<close>,
  \<^verbatim>\<open>uint32_t\<close>, \<^verbatim>\<open>uint64_t\<close> are words of that width.
  \<^verbatim>\<open>size_t\<close> is \<open>nat\<close>; a subtraction that could wrap is written
  \<open>size_sub\<close>, and the theorems show where it does not. Memory is a \<open>byte list\<close>.
  The host is little-endian, as every platform the sources support is.
\<close>

unbundle bit_operations_syntax

section \<open>Machine types\<close>

type_synonym byte = "8 word"
type_synonym u16 = "16 word"
type_synonym u32 = "32 word"
type_synonym u64 = "64 word"

named_theorems net_simps \<open>byte order and memory layout\<close>
named_theorems seq_simps \<open>sequence number arithmetic\<close>
named_theorems inv_intros \<open>operations that keep a component invariant\<close>

definition size_max :: nat where
  "size_max = 2 ^ 64"

definition size_sub :: "nat \<Rightarrow> nat \<Rightarrow> nat" where
  "size_sub a b = (if b \<le> a then a - b else (a + size_max - b mod size_max) mod size_max)"

lemma size_sub_exact [simp]: "b \<le> a \<Longrightarrow> size_sub a b = a - b"
  by (simp add: size_sub_def)

lemma size_sub_add [simp]: "size_sub (a + b) a = b" "size_sub (b + a) a = b"
  by simp_all

section \<open>Byte order\<close>

text \<open>
  \<open>be16 a b\<close> is \<^verbatim>\<open>(a << 8) | b\<close>, the big-endian reading of two bytes;
  \<open>le16\<close> is what a little-endian host loads from them. \<^verbatim>\<open>htons\<close> and
  \<^verbatim>\<open>ntohs\<close> exchange the bytes of a value.
\<close>

definition be16 :: "byte \<Rightarrow> byte \<Rightarrow> u16" where
  "be16 a b = push_bit 8 (ucast a) OR ucast b"

definition be32 :: "byte \<Rightarrow> byte \<Rightarrow> byte \<Rightarrow> byte \<Rightarrow> u32" where
  "be32 a b c d = push_bit 24 (ucast a) OR push_bit 16 (ucast b) OR push_bit 8 (ucast c) OR ucast d"

definition le16 :: "byte \<Rightarrow> byte \<Rightarrow> u16" where
  "le16 a b = be16 b a"

definition le32 :: "byte \<Rightarrow> byte \<Rightarrow> byte \<Rightarrow> byte \<Rightarrow> u32" where
  "le32 a b c d = be32 d c b a"

text \<open>\<^verbatim>\<open>static_cast<uint8_t>(x >> 8)\<close> and \<^verbatim>\<open>static_cast<uint8_t>(x & 0xff)\<close>.\<close>

definition hi8 :: "u16 \<Rightarrow> byte" where
  "hi8 x = ucast (drop_bit 8 x)"

definition lo8 :: "u16 \<Rightarrow> byte" where
  "lo8 x = ucast (x AND 0xff)"

definition ntohs :: "u16 \<Rightarrow> u16" where
  "ntohs x = be16 (ucast x) (ucast (drop_bit 8 x))"

abbreviation htons :: "u16 \<Rightarrow> u16" where
  "htons \<equiv> ntohs"

definition ntohl :: "u32 \<Rightarrow> u32" where
  "ntohl x = be32 (ucast x) (ucast (drop_bit 8 x)) (ucast (drop_bit 16 x)) (ucast (drop_bit 24 x))"

abbreviation htonl :: "u32 \<Rightarrow> u32" where
  "htonl \<equiv> ntohl"

text \<open>The bytes a little-endian host writes for a 16 or 32 bit value.\<close>

definition st16 :: "u16 \<Rightarrow> byte list" where
  "st16 x = [ucast x, ucast (drop_bit 8 x)]"

definition st32 :: "u32 \<Rightarrow> byte list" where
  "st32 x = [ucast x, ucast (drop_bit 8 x), ucast (drop_bit 16 x), ucast (drop_bit 24 x)]"

lemma length_st16 [simp]: "length (st16 x) = 2"
  by (simp add: st16_def)

lemma length_st32 [simp]: "length (st32 x) = 4"
  by (simp add: st32_def)

lemma byte_bit_bound: "bit (a::byte) n \<Longrightarrow> n < 8"
  using bit_imp_le_length by fastforce

lemma be16_bytes [simp]:
  "(ucast (be16 a b) :: byte) = b"
  "(ucast (drop_bit 8 (be16 a b)) :: byte) = a"
  by (rule bit_word_eqI, auto simp: be16_def bit_simps dest: byte_bit_bound)+

lemma be32_bytes [simp]:
  "(ucast (be32 a b c d) :: byte) = d"
  "(ucast (drop_bit 8 (be32 a b c d)) :: byte) = c"
  "(ucast (drop_bit 16 (be32 a b c d)) :: byte) = b"
  "(ucast (drop_bit 24 (be32 a b c d)) :: byte) = a"
  by (rule bit_word_eqI, auto simp: be32_def bit_simps dest: byte_bit_bound)+

lemma be16_of_bytes [simp]: "be16 (ucast (drop_bit 8 x)) (ucast x) = x"
  by (rule bit_word_eqI) (auto simp: be16_def bit_simps)

lemma be32_of_bytes [simp]:
  "be32 (ucast (drop_bit 24 x)) (ucast (drop_bit 16 x)) (ucast (drop_bit 8 x)) (ucast x) = x"
proof (rule bit_word_eqI)
  fix n
  assume n: "n < LENGTH(32)"
  consider "n < 8" | "8 \<le> n" "n < 16" | "16 \<le> n" "n < 24" | "24 \<le> n" by linarith
  then show "bit (be32 (ucast (drop_bit 24 x)) (ucast (drop_bit 16 x)) (ucast (drop_bit 8 x)) (ucast x)) n
    \<longleftrightarrow> bit x n"
    using n by cases (auto simp: be32_def bit_simps)
qed

lemma lo8_ucast: "lo8 x = ucast x"
proof -
  have "(0xff :: u16) = mask 8" by (simp add: mask_eq_exp_minus_1)
  show ?thesis unfolding lo8_def \<open>0xff = mask 8\<close>
    by (rule bit_word_eqI) (simp add: bit_simps del: mask_numeral)
qed

lemma be16_hi_lo [simp]: "be16 (hi8 x) (lo8 x) = x"
  by (simp add: hi8_def lo8_ucast)

lemma hi8_be16 [simp]: "hi8 (be16 a b) = a" and lo8_be16 [simp]: "lo8 (be16 a b) = b"
  by (simp_all add: hi8_def lo8_ucast)

lemma ntohs_ntohs [simp]: "ntohs (ntohs x) = x"
  by (simp add: ntohs_def)

lemma ntohl_ntohl [simp]: "ntohl (ntohl x) = x"
  by (simp add: ntohl_def)

lemma ntohs_le16 [net_simps]: "ntohs (le16 a b) = be16 a b"
  by (simp add: ntohs_def le16_def)

lemma ntohl_le32 [net_simps]: "ntohl (le32 a b c d) = be32 a b c d"
  by (simp add: ntohl_def le32_def)

lemma st16_ntohs [net_simps]: "st16 (ntohs x) = [hi8 x, lo8 x]"
  by (simp add: st16_def ntohs_def hi8_def lo8_ucast)

lemma unat_be16: "unat (be16 a b) = unat a * 256 + unat b"
proof -
  have "be16 a b = push_bit 8 (ucast a) + ucast b" unfolding be16_def
    by (rule disjunctive_add[symmetric]) (auto simp: bit_simps dest: byte_bit_bound)
  moreover have "push_bit 8 (ucast a :: u16) = ucast a * 256" by (simp add: push_bit_eq_mult)
  moreover have "unat (ucast a * 256 + ucast b :: u16) = unat a * 256 + unat b"
  proof -
    have "unat a < 256" "unat b < 256" using unsigned_less[of a] unsigned_less[of b] by simp_all
    then show ?thesis by (simp add: unat_word_ariths unsigned_ucast_eq take_bit_eq_mod)
  qed
  ultimately show ?thesis by simp
qed

lemma unat_u16_less: "unat (x :: u16) < 65536"
  using unsigned_less[of x] by simp

lemma unat_byte_less: "unat (x :: byte) < 256"
  using unsigned_less[of x] by simp

lemma unat_u32_less: "unat (x :: u32) < 4294967296"
  using unsigned_less[of x] by simp

section \<open>Slices of memory\<close>

text \<open>\<open>subl i n xs\<close> is the \<open>n\<close> elements from index \<open>i\<close>; \<open>blit xs i ys\<close> is
  \<^verbatim>\<open>memcpy(xs + i, ys, |ys|)\<close> into a block that holds \<open>i + |ys|\<close> elements.\<close>

definition subl :: "nat \<Rightarrow> nat \<Rightarrow> 'a list \<Rightarrow> 'a list" where
  "subl i n xs = take n (drop i xs)"

definition blit :: "'a list \<Rightarrow> nat \<Rightarrow> 'a list \<Rightarrow> 'a list" where
  "blit xs i ys = take i xs @ ys @ drop (i + length ys) xs"

lemma length_subl [simp]: "i + n \<le> length xs \<Longrightarrow> length (subl i n xs) = n"
  by (simp add: subl_def)

lemma length_blit [simp]: "i + length ys \<le> length xs \<Longrightarrow> length (blit xs i ys) = length xs"
  by (simp add: blit_def)

lemma subl_blit_same [simp]:
  "i + length ys \<le> length xs \<Longrightarrow> subl i (length ys) (blit xs i ys) = ys"
  by (simp add: subl_def blit_def)

lemma subl_0_all [simp]: "subl 0 (length xs) xs = xs"
  by (simp add: subl_def)

lemma subl_blit_covered:
  assumes "i + n \<le> length xs" and "length ys = n"
  shows "subl i n (blit xs i ys) = ys"
  using assms subl_blit_same[of i ys xs] by simp

lemma nth_subl [simp]: "j < n \<Longrightarrow> i + n \<le> length xs \<Longrightarrow> subl i n xs ! j = xs ! (i + j)"
  by (simp add: subl_def)

lemma nth_blit:
  "i + length ys \<le> length xs \<Longrightarrow> j < length xs \<Longrightarrow>
   blit xs i ys ! j = (if i \<le> j \<and> j < i + length ys then ys ! (j - i) else xs ! j)"
  by (auto simp: blit_def nth_append)

lemma subl_blit_inside:
  assumes "i + length bs \<le> n" "k + n \<le> length xs"
  shows "subl k n (blit xs (k + i) bs) = blit (subl k n xs) i bs"
  using assms by (intro nth_equalityI) (auto simp: nth_blit)

lemma subl_blit_outside:
  "i + length bs \<le> length xs \<Longrightarrow> k + n \<le> length xs \<Longrightarrow> k + n \<le> i \<or> i + length bs \<le> k \<Longrightarrow>
   subl k n (blit xs i bs) = subl k n xs"
  by (intro nth_equalityI) (auto simp: nth_blit)

lemma blit_id: "subl i (length ys) xs = ys \<Longrightarrow> blit xs i ys = xs"
  unfolding blit_def subl_def by (metis add.commute append_take_drop_id drop_drop)

lemma blit_id2: "subl i 2 xs = [a, b] \<Longrightarrow> blit xs i [a, b] = xs"
  using blit_id[of i "[a, b]" xs] by (simp add: numeral_2_eq_2)

lemma subl_append: "subl i a xs @ subl (i + a) b xs = subl i (a + b) xs"
  by (simp add: subl_def take_add add.commute)

text \<open>
  Scatter: the loop that copies the first \<open>n\<close> bytes of \<open>src\<close> into a buffer sequence
  whose buffers have the given sizes. The result lists what each buffer received;
  \<^verbatim>\<open>copied\<close> is the second component.
\<close>

fun scatter :: "nat list \<Rightarrow> nat \<Rightarrow> byte list \<Rightarrow> nat \<Rightarrow> byte list list \<times> nat" where
  "scatter [] n src copied = ([], copied)"
| "scatter (sz # szs) n src copied =
     (if copied \<ge> n then ([], copied)
      else (let take_n = min sz (n - copied);
                (rest, c) = scatter szs n src (copied + take_n)
            in (subl copied take_n src # rest, c)))"

lemma scatter_copied:
  "copied \<le> n \<Longrightarrow> snd (scatter szs n src copied) = min n (copied + sum_list szs)"
proof (induction szs arbitrary: copied)
  case Nil
  then show ?case by simp
next
  case (Cons sz szs)
  show ?case
  proof (cases "copied = n")
    case True
    then show ?thesis by simp
  next
    case False
    with Cons.prems have "copied + min sz (n - copied) \<le> n" by simp
    from Cons.IH[OF this] False Cons.prems show ?thesis
      by (auto simp: Let_def split: prod.splits)
  qed
qed

lemma scatter_data:
  assumes "copied \<le> n" "n \<le> length src"
  shows "concat (fst (scatter szs n src copied)) =
    subl copied (snd (scatter szs n src copied) - copied) src"
  using assms
proof (induction szs arbitrary: copied)
  case Nil
  then show ?case by (simp add: subl_def)
next
  case (Cons sz szs)
  show ?case
  proof (cases "copied = n")
    case True
    then show ?thesis by (simp add: subl_def)
  next
    case False
    define t where "t = min sz (n - copied)"
    have le: "copied + t \<le> n" using Cons.prems by (simp add: t_def)
    let ?c = "snd (scatter szs n src (copied + t))"
    have c: "copied + t \<le> ?c" using scatter_copied[OF le, of szs src] le by simp
    have "concat (fst (scatter (sz # szs) n src copied)) =
        subl copied t src @ concat (fst (scatter szs n src (copied + t)))"
      using False Cons.prems by (simp add: t_def Let_def split: prod.splits)
    also have "concat (fst (scatter szs n src (copied + t))) = subl (copied + t) (?c - (copied + t)) src"
      using Cons.IH[OF le Cons.prems(2)] .
    also have "subl copied t src @ subl (copied + t) (?c - (copied + t)) src = subl copied (?c - copied) src"
      using c by (simp add: subl_append)
    finally show ?thesis using False Cons.prems by (simp add: t_def Let_def split: prod.splits)
  qed
qed

lemma drop_subl: "drop i (subl p l xs) = subl (p + i) (l - i) xs"
  by (simp add: subl_def drop_take add.commute)

lemma take_subl: "take i (subl p l xs) = subl p (min i l) xs"
  by (simp add: subl_def)

section \<open>Ordered maps\<close>

text \<open>
  \<^verbatim>\<open>std::map\<close>: a list of key/value pairs with strictly increasing keys. An iterator
  is the key it points at (\<open>None\<close> is \<^verbatim>\<open>end()\<close>); \<^verbatim>\<open>++it\<close> is \<open>om_next\<close>,
  the next greater key, which stays meaningful when other nodes are inserted or erased meanwhile.
  \<^verbatim>\<open>emplace\<close> and \<^verbatim>\<open>insert\<close> keep the old value when the key is present.
\<close>

type_synonym ('k, 'v) omap = "('k \<times> 'v) list"

definition om_wf :: "('k::linorder, 'v) omap \<Rightarrow> bool" where
  "om_wf m \<longleftrightarrow> sorted_wrt (<) (map fst m)"

fun om_emplace :: "'k::linorder \<Rightarrow> 'v \<Rightarrow> ('k, 'v) omap \<Rightarrow> ('k, 'v) omap" where
  "om_emplace k v [] = [(k, v)]"
| "om_emplace k v ((k', v') # m) =
     (if k < k' then (k, v) # (k', v') # m
      else if k = k' then (k', v') # m
      else (k', v') # om_emplace k v m)"

definition om_erase :: "'k \<Rightarrow> ('k, 'v) omap \<Rightarrow> ('k, 'v) omap" where
  "om_erase k m = filter (\<lambda>p. fst p \<noteq> k) m"

definition om_put :: "'k \<Rightarrow> 'v \<Rightarrow> ('k, 'v) omap \<Rightarrow> ('k, 'v) omap" where
  "om_put k v m = map (\<lambda>p. if fst p = k then (k, v) else p) m"

definition om_begin :: "('k, 'v) omap \<Rightarrow> 'k option" where
  "om_begin m = (case m of [] \<Rightarrow> None | p # _ \<Rightarrow> Some (fst p))"

definition om_next :: "'k::linorder \<Rightarrow> ('k, 'v) omap \<Rightarrow> 'k option" where
  "om_next k m = map_option fst (find (\<lambda>p. k < fst p) m)"

lemma om_wf_Nil [simp]: "om_wf []"
  by (simp add: om_wf_def)

lemma om_wf_Cons: "om_wf (p # m) \<longleftrightarrow> (\<forall>q\<in>set m. fst p < fst q) \<and> om_wf m"
  by (auto simp: om_wf_def)

lemma om_wf_distinct: "om_wf m \<Longrightarrow> distinct (map fst m)"
  by (induction m) (fastforce simp: om_wf_Cons)+

lemma om_wf_distinct_list: "om_wf m \<Longrightarrow> distinct m"
  using om_wf_distinct distinct_map by blast

lemma om_unique: "om_wf m \<Longrightarrow> (k, v) \<in> set m \<Longrightarrow> (k, v') \<in> set m \<Longrightarrow> v = v'"
  by (metis om_wf_distinct eq_key_imp_eq_value)

lemma om_get_iff: "om_wf m \<Longrightarrow> map_of m k = Some v \<longleftrightarrow> (k, v) \<in> set m"
  by (simp add: om_wf_distinct)

lemma om_emplace_set:
  "k \<notin> fst ` set m \<Longrightarrow> set (om_emplace k v m) = insert (k, v) (set m)"
  by (induction m) (auto split: if_splits)

lemma om_emplace_present: "om_wf m \<Longrightarrow> k \<in> fst ` set m \<Longrightarrow> om_emplace k v m = m"
  by (induction m) (force simp: om_wf_Cons)+

lemma om_emplace_subset: "set (om_emplace k v m) \<subseteq> insert (k, v) (set m)"
  by (induction m) (auto split: if_splits)

lemma om_emplace_wf [intro, simp]: "om_wf m \<Longrightarrow> om_wf (om_emplace k v m)"
proof (induction m)
  case (Cons p m)
  then show ?case using om_emplace_subset[of k v m] by (cases p) (fastforce simp: om_wf_Cons)
qed (simp add: om_wf_def)

lemma om_erase_set [simp]: "set (om_erase k m) = {p \<in> set m. fst p \<noteq> k}"
  by (simp add: om_erase_def)

lemma om_erase_wf [intro, simp]: "om_wf m \<Longrightarrow> om_wf (om_erase k m)"
  by (induction m) (auto simp: om_wf_Cons om_erase_def)

lemma om_put_set:
  "(k, v) \<in> set m \<Longrightarrow> set (om_put k v' m) = insert (k, v') {p \<in> set m. fst p \<noteq> k}"
  by (force simp: om_put_def)

lemma om_put_keys [simp]: "map fst (om_put k v m) = map fst m"
  by (induction m) (auto simp: om_put_def)

lemma om_put_wf [intro, simp]: "om_wf m \<Longrightarrow> om_wf (om_put k v m)"
  by (simp add: om_wf_def)

lemma om_begin_None: "om_begin m = None \<longleftrightarrow> m = []"
  by (auto simp: om_begin_def split: list.splits)

lemma om_begin_least: "om_wf m \<Longrightarrow> om_begin m = Some k \<Longrightarrow> p \<in> set m \<Longrightarrow> k \<le> fst p"
  by (cases m) (auto simp: om_begin_def om_wf_Cons)

lemma om_begin_mem: "om_begin m = Some k \<Longrightarrow> k \<in> fst ` set m"
  by (cases m) (auto simp: om_begin_def)

lemma om_next_greater: "om_next k m = Some k' \<Longrightarrow> k < k'"
  by (induction m) (auto simp: om_next_def split: if_splits)

lemma om_next_mem: "om_next k m = Some k' \<Longrightarrow> k' \<in> fst ` set m"
  by (induction m) (auto simp: om_next_def split: if_splits)

lemma om_next_None: "om_next k m = None \<longleftrightarrow> (\<forall>p\<in>set m. fst p \<le> k)"
  by (auto simp: om_next_def find_None_iff not_less)

lemma om_next_least: "om_wf m \<Longrightarrow> om_next k m = Some k' \<Longrightarrow> p \<in> set m \<Longrightarrow> k < fst p \<Longrightarrow> k' \<le> fst p"
proof (induction m)
  case (Cons q m)
  then show ?case by (cases "k < fst q") (auto simp: om_next_def om_wf_Cons)
qed simp

lemma om_erase_absent: "k \<notin> fst ` set m \<Longrightarrow> om_erase k m = m"
  by (induction m) (auto simp: om_erase_def)

text \<open>Sums over the nodes of a map, as the byte counters of the caches keep them.\<close>

definition om_sum :: "('v \<Rightarrow> nat) \<Rightarrow> ('k, 'v) omap \<Rightarrow> nat" where
  "om_sum g m = sum_list (map (g \<circ> snd) m)"

lemma om_sum_simps [simp]: "om_sum g [] = 0" "om_sum g (p # m) = g (snd p) + om_sum g m"
  by (simp_all add: om_sum_def)

lemma om_sum_emplace: "k \<notin> fst ` set m \<Longrightarrow> om_sum g (om_emplace k v m) = om_sum g m + g v"
  by (induction m) auto

lemma om_sum_erase:
  "om_wf m \<Longrightarrow> (k, v) \<in> set m \<Longrightarrow> om_sum g (om_erase k m) + g v = om_sum g m"
proof (induction m)
  case (Cons p m)
  show ?case
  proof (cases "fst p = k")
    case True
    with Cons.prems have "k \<notin> fst ` set m" by (auto simp: om_wf_Cons)
    moreover from this have "p = (k, v)" using Cons.prems(2) by (auto simp: rev_image_eqI)
    ultimately show ?thesis using om_erase_absent[of k m] by (auto simp: om_erase_def)
  next
    case False
    with Cons.prems Cons.IH show ?thesis by (auto simp: om_erase_def om_wf_Cons)
  qed
qed simp

lemma om_sum_put:
  "om_wf m \<Longrightarrow> (k, v) \<in> set m \<Longrightarrow> om_sum g (om_put k v' m) + g v = om_sum g m + g v'"
proof (induction m)
  case (Cons p m)
  show ?case
  proof (cases "fst p = k")
    case True
    with Cons.prems have k: "k \<notin> fst ` set m" by (auto simp: om_wf_Cons)
    then have "om_put k v' m = m" by (induction m) (auto simp: om_put_def)
    moreover have "p = (k, v)" using Cons.prems(2) k by (auto simp: rev_image_eqI)
    ultimately show ?thesis by (simp add: om_put_def)
  next
    case False
    with Cons.prems Cons.IH show ?thesis by (auto simp: om_put_def om_wf_Cons)
  qed
qed simp

lemma om_length_erase: "om_wf m \<Longrightarrow> k \<in> fst ` set m \<Longrightarrow> length (om_erase k m) < length m"
  by (force simp: om_erase_def intro: length_filter_less)

section \<open>Sums over an index range with one changed summand\<close>

lemma sum_one_changed:
  fixes f g :: "nat \<Rightarrow> nat"
  assumes "k < n" "\<And>q. q < n \<Longrightarrow> q \<noteq> k \<Longrightarrow> f q = g q"
  shows "(\<Sum>q<n. f q) + g k = (\<Sum>q<n. g q) + f k"
proof -
  have "(\<Sum>q\<in>{..<n} - {k}. f q) = (\<Sum>q\<in>{..<n} - {k}. g q)"
    using assms(2) by (intro sum.cong) auto
  thus ?thesis using assms(1) by (simp add: sum.remove [of "{..<n}" k])
qed

section \<open>Buffer sequences\<close>

text \<open>The loop over a buffer sequence: the buffers, and the sum of their sizes.\<close>

definition collect :: "('b \<Rightarrow> nat) \<Rightarrow> 'b list \<Rightarrow> 'b list \<times> nat" where
  "collect bsize bs = fold (\<lambda>b (sq, tot). (sq @ [b], tot + bsize b)) bs ([], 0)"

lemma collect_eq [simp]: "collect bsize bs = (bs, sum_list (map bsize bs))"
proof -
  have "fold (\<lambda>b (sq, tot). (sq @ [b], tot + bsize b)) bs (xs, n) = (xs @ bs, n + sum_list (map bsize bs))" for xs n
    by (induction bs arbitrary: xs n) simp_all
  thus ?thesis by (simp add: collect_def)
qed

section \<open>In-order channels\<close>

text \<open>The observations \<open>obs\<close> made along a run of \<open>step\<close>.\<close>

fun observe :: "('ev \<Rightarrow> 's \<Rightarrow> 'a list) \<Rightarrow> ('ev \<Rightarrow> 's \<Rightarrow> 's) \<Rightarrow> 'ev list \<Rightarrow> 's \<Rightarrow> 'a list" where
  "observe obs step [] s = []"
| "observe obs step (ev # evs) s = obs ev s @ observe obs step evs (step ev s)"

text \<open>
  A channel that hands on what it accepts in the order of acceptance: \<open>sent\<close> is what has left it,
  \<open>waiting\<close> what it still holds, \<open>arrives\<close> what an event makes it accept.
\<close>

locale in_order_channel =
  fixes inv :: "'s \<Rightarrow> bool" and step :: "'ev \<Rightarrow> 's \<Rightarrow> 's" and ok :: "'ev \<Rightarrow> bool"
    and arrives :: "'ev \<Rightarrow> 's \<Rightarrow> 'a list" and sent :: "'s \<Rightarrow> 'a list" and waiting :: "'s \<Rightarrow> 'a list"
  assumes inv_step: "inv s \<Longrightarrow> ok ev \<Longrightarrow> inv (step ev s)"
    and order: "inv s \<Longrightarrow> ok ev \<Longrightarrow> sent (step ev s) @ waiting (step ev s) = sent s @ waiting s @ arrives ev s"
begin

lemma run_order:
  assumes "inv s" "list_all ok evs"
  shows "sent (fold step evs s) @ waiting (fold step evs s) = sent s @ waiting s @ observe arrives step evs s"
  using assms
proof (induction evs arbitrary: s)
  case (Cons ev evs)
  thus ?case using inv_step [of s ev] order [of s ev] by simp
qed simp

end

end
