(* ===== verification/Ip_Headers.thy ===== *)
theory Ip_Headers
  imports Tunio_Prelude
begin

text \<open>
  The packed packet headers of \<^verbatim>\<open>include/tunio/ip_packet.hpp\<close> and the engine-internal
  pieces of \<^verbatim>\<open>include/tunio/detail/ip_headers.hpp\<close>: protocol numbers, TCP flags,
  \<^verbatim>\<open>ip_packet_info\<close> and the circular sequence number comparison of RFC 1982. A header
  record holds the raw field values as the struct does after \<^verbatim>\<open>memcpy\<close>, that is in
  network byte order; \<open>load_*\<close> and \<open>store_*\<close> are that \<^verbatim>\<open>memcpy\<close> in both
  directions, and \<^verbatim>\<open>ntohs\<close>/\<^verbatim>\<open>ntohl\<close> are applied where the source applies them.
\<close>

section \<open>Protocol numbers and flags\<close>

definition ip_protocol_icmp :: byte where "ip_protocol_icmp = 1"
definition ip_protocol_tcp :: byte where "ip_protocol_tcp = 6"
definition ip_protocol_udp :: byte where "ip_protocol_udp = 17"
definition ip_protocol_icmpv6 :: byte where "ip_protocol_icmpv6 = 58"

lemmas protocol_defs =
  ip_protocol_icmp_def ip_protocol_tcp_def ip_protocol_udp_def ip_protocol_icmpv6_def

definition TCP_FIN :: byte where "TCP_FIN = 0x01"
definition TCP_SYN :: byte where "TCP_SYN = 0x02"
definition TCP_RST :: byte where "TCP_RST = 0x04"
definition TCP_PSH :: byte where "TCP_PSH = 0x08"
definition TCP_ACK :: byte where "TCP_ACK = 0x10"
definition TCP_URG :: byte where "TCP_URG = 0x20"

lemmas tcp_flag_defs = TCP_FIN_def TCP_SYN_def TCP_RST_def TCP_PSH_def TCP_ACK_def TCP_URG_def

text \<open>\<^verbatim>\<open>flags & TCP_X\<close> used as a condition.\<close>

definition has_flag :: "byte \<Rightarrow> byte \<Rightarrow> bool" where
  "has_flag flags x \<longleftrightarrow> flags AND x \<noteq> 0"

section \<open>Headers\<close>

record ipv4_header =
  ip4_version_ihl :: byte
  ip4_tos :: byte
  ip4_total_len :: u16
  ip4_id :: u16
  ip4_frag_off :: u16
  ip4_ttl :: byte
  ip4_protocol :: byte
  ip4_checksum :: u16
  ip4_src_ip :: u32
  ip4_dst_ip :: u32

definition ip4_version :: "ipv4_header \<Rightarrow> byte" where
  "ip4_version h = drop_bit 4 (ip4_version_ihl h)"

definition ip4_ihl :: "ipv4_header \<Rightarrow> byte" where
  "ip4_ihl h = ip4_version_ihl h AND 0x0f"

definition ip4_header_len :: "ipv4_header \<Rightarrow> nat" where
  "ip4_header_len h = unat (ip4_ihl h) * 4"

record ipv6_header =
  ip6_vtc_flow :: u32
  ip6_payload_len :: u16
  ip6_next_header :: byte
  ip6_hop_limit :: byte
  ip6_src_ip :: "byte list"
  ip6_dst_ip :: "byte list"

record tcp_header =
  th_src_port :: u16
  th_dst_port :: u16
  th_seq :: u32
  th_ack :: u32
  th_data_offset :: byte
  th_flags :: byte
  th_window :: u16
  th_checksum :: u16
  th_urgent :: u16

definition th_header_len :: "tcp_header \<Rightarrow> nat" where
  "th_header_len th = unat (drop_bit 4 (th_data_offset th)) * 4"

record udp_header =
  uh_src_port :: u16
  uh_dst_port :: u16
  uh_length :: u16
  uh_checksum :: u16

text \<open>\<^verbatim>\<open>sizeof\<close> of the packed structs.\<close>

abbreviation (input) sizeof_ipv4_header :: nat where "sizeof_ipv4_header \<equiv> 20"
abbreviation (input) sizeof_ipv6_header :: nat where "sizeof_ipv6_header \<equiv> 40"
abbreviation (input) sizeof_tcp_header :: nat where "sizeof_tcp_header \<equiv> 20"
abbreviation (input) sizeof_udp_header :: nat where "sizeof_udp_header \<equiv> 8"

definition ld16 :: "byte list \<Rightarrow> nat \<Rightarrow> u16" where
  "ld16 bs i = le16 (bs ! i) (bs ! (i + 1))"

definition ld32 :: "byte list \<Rightarrow> nat \<Rightarrow> u32" where
  "ld32 bs i = le32 (bs ! i) (bs ! (i + 1)) (bs ! (i + 2)) (bs ! (i + 3))"

definition load_ipv4_header :: "byte list \<Rightarrow> ipv4_header" where
  "load_ipv4_header bs =
     \<lparr>ip4_version_ihl = bs ! 0, ip4_tos = bs ! 1, ip4_total_len = ld16 bs 2, ip4_id = ld16 bs 4,
      ip4_frag_off = ld16 bs 6, ip4_ttl = bs ! 8, ip4_protocol = bs ! 9, ip4_checksum = ld16 bs 10,
      ip4_src_ip = ld32 bs 12, ip4_dst_ip = ld32 bs 16\<rparr>"

definition store_ipv4_header :: "ipv4_header \<Rightarrow> byte list" where
  "store_ipv4_header h =
     [ip4_version_ihl h, ip4_tos h] @ st16 (ip4_total_len h) @ st16 (ip4_id h) @
     st16 (ip4_frag_off h) @ [ip4_ttl h, ip4_protocol h] @ st16 (ip4_checksum h) @
     st32 (ip4_src_ip h) @ st32 (ip4_dst_ip h)"

definition load_ipv6_header :: "byte list \<Rightarrow> ipv6_header" where
  "load_ipv6_header bs =
     \<lparr>ip6_vtc_flow = ld32 bs 0, ip6_payload_len = ld16 bs 4, ip6_next_header = bs ! 6,
      ip6_hop_limit = bs ! 7, ip6_src_ip = subl 8 16 bs, ip6_dst_ip = subl 24 16 bs\<rparr>"

definition store_ipv6_header :: "ipv6_header \<Rightarrow> byte list" where
  "store_ipv6_header h =
     st32 (ip6_vtc_flow h) @ st16 (ip6_payload_len h) @ [ip6_next_header h, ip6_hop_limit h] @
     ip6_src_ip h @ ip6_dst_ip h"

definition load_tcp_header :: "byte list \<Rightarrow> tcp_header" where
  "load_tcp_header bs =
     \<lparr>th_src_port = ld16 bs 0, th_dst_port = ld16 bs 2, th_seq = ld32 bs 4, th_ack = ld32 bs 8,
      th_data_offset = bs ! 12, th_flags = bs ! 13, th_window = ld16 bs 14,
      th_checksum = ld16 bs 16, th_urgent = ld16 bs 18\<rparr>"

definition store_tcp_header :: "tcp_header \<Rightarrow> byte list" where
  "store_tcp_header th =
     st16 (th_src_port th) @ st16 (th_dst_port th) @ st32 (th_seq th) @ st32 (th_ack th) @
     [th_data_offset th, th_flags th] @ st16 (th_window th) @ st16 (th_checksum th) @
     st16 (th_urgent th)"

definition load_udp_header :: "byte list \<Rightarrow> udp_header" where
  "load_udp_header bs =
     \<lparr>uh_src_port = ld16 bs 0, uh_dst_port = ld16 bs 2, uh_length = ld16 bs 4,
      uh_checksum = ld16 bs 6\<rparr>"

definition store_udp_header :: "udp_header \<Rightarrow> byte list" where
  "store_udp_header uh =
     st16 (uh_src_port uh) @ st16 (uh_dst_port uh) @ st16 (uh_length uh) @ st16 (uh_checksum uh)"

lemma length_store_headers [simp]:
  "length (store_ipv4_header h4) = 20"
  "length (store_tcp_header th) = 20"
  "length (store_udp_header uh) = 8"
  by (simp_all add: store_ipv4_header_def store_tcp_header_def store_udp_header_def)

lemma length_store_ipv6_header [simp]:
  "length (ip6_src_ip h) = 16 \<Longrightarrow> length (ip6_dst_ip h) = 16 \<Longrightarrow> length (store_ipv6_header h) = 40"
  by (simp add: store_ipv6_header_def)

lemma ntohs_ld16 [net_simps]: "ntohs (ld16 bs i) = be16 (bs ! i) (bs ! (i + 1))"
  by (simp add: ld16_def ntohs_le16)

lemma ntohl_ld32 [net_simps]:
  "ntohl (ld32 bs i) = be32 (bs ! i) (bs ! (i + 1)) (bs ! (i + 2)) (bs ! (i + 3))"
  by (simp add: ld32_def ntohl_le32)

lemma ld16_st16 [simp]: "le16 (ucast x) (ucast (drop_bit 8 x)) = x"
  by (simp add: le16_def)

lemma ld32_st32 [simp]:
  "le32 (ucast x) (ucast (drop_bit 8 x)) (ucast (drop_bit 16 x)) (ucast (drop_bit 24 x)) = x"
  by (simp add: le32_def)

lemmas load_store_defs = st16_def st32_def ld16_def ld32_def

lemma load_store_ipv4_header: "load_ipv4_header (store_ipv4_header h @ rest) = h"
  by (simp add: load_ipv4_header_def store_ipv4_header_def load_store_defs)

lemma load_store_tcp_header: "load_tcp_header (store_tcp_header h @ rest) = h"
  by (simp add: load_tcp_header_def store_tcp_header_def load_store_defs)

lemma load_store_udp_header: "load_udp_header (store_udp_header h @ rest) = h"
  by (simp add: load_udp_header_def store_udp_header_def load_store_defs)

lemma load_store_ipv6_header:
  "length (ip6_src_ip h) = 16 \<Longrightarrow> length (ip6_dst_ip h) = 16 \<Longrightarrow>
   load_ipv6_header (store_ipv6_header h @ rest) = h"
  by (simp add: load_ipv6_header_def store_ipv6_header_def load_store_defs subl_def)

section \<open>Engine-internal pieces\<close>

record ip_packet_info =
  pi_family :: byte
  pi_protocol :: byte
  pi_src_ip :: "byte list"
  pi_dst_ip :: "byte list"

definition seq_gt :: "u32 \<Rightarrow> u32 \<Rightarrow> bool" where
  "seq_gt a b \<longleftrightarrow> sint (a - b) > 0"

definition seq_ge :: "u32 \<Rightarrow> u32 \<Rightarrow> bool" where
  "seq_ge a b \<longleftrightarrow> a = b \<or> seq_gt a b"

text \<open>The forward distance from \<open>b\<close> to \<open>a\<close>, the view in which the comparisons are plain.\<close>

definition seq_dist :: "u32 \<Rightarrow> u32 \<Rightarrow> nat" where
  "seq_dist a b = unat (a - b)"

lemma sint_u32: "sint (w :: u32) = (if uint w < 2 ^ 31 then uint w else uint w - 2 ^ 32)"
proof -
  have r: "- (2 ^ 31) \<le> sint w" "sint w < 2 ^ 31" using sint_ge[of w] sint_lt[of w] by simp_all
  have u: "uint w = sint w mod 2 ^ 32" using uint_sint[of w] by (simp add: take_bit_eq_mod)
  show ?thesis
  proof (cases "0 \<le> sint w")
    case True
    then have "sint w mod 2 ^ 32 = sint w" using r by simp
    then show ?thesis using u r by simp
  next
    case False
    then have "sint w mod 2 ^ 32 = sint w + 2 ^ 32" using r
      by (subst mod_add_self2[symmetric], subst mod_pos_pos_trivial) auto
    then show ?thesis using u r False by simp
  qed
qed

lemma seq_gt_dist [seq_simps]: "seq_gt a b \<longleftrightarrow> 0 < seq_dist a b \<and> seq_dist a b < 2 ^ 31"
proof -
  define u where "u = uint (a - b)"
  have "0 \<le> u" "u < 2 ^ 32" "seq_dist a b = nat u"
    using uint_lt2p[of "a - b"] by (simp_all add: seq_dist_def u_def)
  then show ?thesis unfolding seq_gt_def sint_u32 u_def[symmetric] by auto
qed

lemma seq_dist_zero [simp]: "seq_dist a b = 0 \<longleftrightarrow> a = b"
  by (simp add: seq_dist_def unat_eq_0)

lemma seq_ge_dist [seq_simps]: "seq_ge a b \<longleftrightarrow> seq_dist a b < 2 ^ 31"
  by (auto simp: seq_ge_def seq_gt_dist simp flip: seq_dist_zero)

lemma seq_dist_self [simp]: "seq_dist a a = 0"
  by simp

lemma seq_dist_less: "seq_dist a b < 2 ^ 32"
  using unsigned_less[of "a - b"] by (simp add: seq_dist_def)

lemma seq_dist_add: "seq_dist a b + n < 2 ^ 32 \<Longrightarrow> seq_dist (a + of_nat n) b = seq_dist a b + n"
proof -
  assume n: "seq_dist a b + n < 2 ^ 32"
  have "a + of_nat n - b = (a - b) + of_nat n" by (simp add: algebra_simps)
  moreover have "unat ((a - b) + of_nat n) = unat (a - b) + n"
    using n by (simp add: seq_dist_def unat_word_ariths unat_of_nat)
  ultimately show ?thesis by (simp only: seq_dist_def)
qed

lemma seq_dist_shift: "n \<le> seq_dist a b \<Longrightarrow> seq_dist a (b + of_nat n) = seq_dist a b - n"
proof -
  assume n: "n \<le> seq_dist a b"
  have lt: "n < 2 ^ 32" using n seq_dist_less[of a b] by linarith
  have "a - (b + of_nat n) = (a - b) - of_nat n" by (simp add: algebra_simps)
  moreover have "unat ((a - b) - of_nat n) = unat (a - b) - n"
    using n lt by (subst unat_sub) (auto simp: seq_dist_def unat_of_nat word_le_nat_alt)
  ultimately show ?thesis by (simp only: seq_dist_def)
qed

lemma seq_dist_cancel: "b + of_nat (seq_dist a b) = a"
  by (simp add: seq_dist_def)

end
