(* ===== verification/Checksum.thy ===== *)
theory Checksum
  imports Ip_Headers
begin

text \<open>
  The Internet checksum of \<^verbatim>\<open>src/ip_packet.cpp\<close> (RFC 1071): the scalar sum, its SSE2
  variant, the folding loop, the IPv4 header checksum, the TCP/UDP/ICMPv6 pseudo-header
  checksum, and \<^verbatim>\<open>build_ip_header\<close>. The reference is \<open>be_sum\<close>, the exact sum
  of the big-endian 16 bit words, and \<open>ones_reduce\<close>, its one's complement reduction. The
  locale \<open>ones_checksum\<close> states the contract every checksum routine meets; from it follow
  once and for all that a message carrying its own checksum verifies to zero.
\<close>

section \<open>The routines\<close>

text \<open>The scalar loop: pairs of bytes, then the odd last byte padded with zero.\<close>

fun checksum_sum :: "byte list \<Rightarrow> u32 \<Rightarrow> u32" where
  "checksum_sum (a # b # rest) acc = checksum_sum rest (acc + ucast (be16 a b))"
| "checksum_sum [a] acc = acc + ucast (be16 a 0)"
| "checksum_sum [] acc = acc"

text \<open>
  The SSE2 path. A 128 bit register is a list of eight 16 bit lanes, an accumulator a list of
  four 32 bit lanes; \<open>mm_swap\<close> is
  \<^verbatim>\<open>_mm_or_si128(_mm_slli_epi16(_mm_and_si128(v, mask), 8), _mm_srli_epi16(v, 8))\<close>, and
  \<^verbatim>\<open>_mm_unpacklo/hi_epi16\<close> with zero widen the low and high four lanes.
\<close>

fun mm_loadu :: "byte list \<Rightarrow> u16 list" where
  "mm_loadu (a # b # rest) = le16 a b # mm_loadu rest"
| "mm_loadu _ = []"

definition mm_swap :: "u16 \<Rightarrow> u16" where
  "mm_swap v = push_bit 8 (v AND 0x00ff) OR drop_bit 8 v"

definition mm_add_epi32 :: "u32 list \<Rightarrow> u32 list \<Rightarrow> u32 list" where
  "mm_add_epi32 x y = map2 (+) x y"

definition mm_unpacklo_zero :: "u16 list \<Rightarrow> u32 list" where
  "mm_unpacklo_zero v = map ucast (take 4 v)"

definition mm_unpackhi_zero :: "u16 list \<Rightarrow> u32 list" where
  "mm_unpackhi_zero v = map ucast (drop 4 v)"

function sse2_loop :: "byte list \<Rightarrow> u32 list \<Rightarrow> u32 list \<Rightarrow> byte list \<times> u32 list \<times> u32 list" where
  "sse2_loop data acc0 acc1 =
     (if length data < 32 then (data, acc0, acc1)
      else let w0 = map mm_swap (mm_loadu (take 16 data));
               w1 = map mm_swap (mm_loadu (take 16 (drop 16 data)));
               acc0 = mm_add_epi32 acc0 (mm_unpacklo_zero w0);
               acc1 = mm_add_epi32 acc1 (mm_unpackhi_zero w0);
               acc0 = mm_add_epi32 acc0 (mm_unpacklo_zero w1);
               acc1 = mm_add_epi32 acc1 (mm_unpackhi_zero w1)
           in sse2_loop (drop 32 data) acc0 acc1)"
  by pat_completeness auto
termination
  by (relation "measure (\<lambda>(data, _, _). length data)") auto

declare sse2_loop.simps [simp del]

definition checksum_sum_sse2 :: "byte list \<Rightarrow> u32 \<Rightarrow> u32" where
  "checksum_sum_sse2 data acc =
     (let (rest, acc0, acc1) = sse2_loop data (replicate 4 0) (replicate 4 0)
      in checksum_sum rest (acc + sum_list (acc0 @ acc1)))"

function checksum_fold_loop :: "u32 \<Rightarrow> u32" where
  "checksum_fold_loop acc =
     (if drop_bit 16 acc \<noteq> 0 then checksum_fold_loop ((acc AND 0xffff) + drop_bit 16 acc) else acc)"
  by pat_completeness auto

lemma unat_drop16: "unat (drop_bit 16 (s :: u32)) = unat s div 65536"
  unfolding unat_drop_bit_eq by (simp add: drop_bit_eq_div)

lemma unat_and16: "unat ((s :: u32) AND 0xffff) = unat s mod 65536"
proof -
  have "(0xffff :: u32) = mask 16" by (simp add: mask_eq_exp_minus_1)
  then have "s AND 0xffff = take_bit 16 s" by (simp add: take_bit_eq_mask del: mask_numeral)
  then have "unat (s AND 0xffff) = take_bit 16 (unat s)" by (simp only: unsigned_take_bit_eq)
  then show ?thesis by (simp add: take_bit_eq_mod)
qed

lemma fold_step: "unat ((s AND 0xffff) + drop_bit 16 (s :: u32)) = unat s mod 65536 + unat s div 65536"
proof -
  have "unat s mod 65536 + unat s div 65536 < 4294967296" using unat_u32_less[of s] by arith
  then show ?thesis by (simp add: unat_word_ariths unat_and16 unat_drop16)
qed

termination checksum_fold_loop
proof (relation "measure unat")
  fix s :: u32
  assume "drop_bit 16 s \<noteq> 0"
  then have "0 < unat s div 65536" by (metis unat_drop16 unat_eq_0 gr0I)
  moreover have "unat s = 65536 * (unat s div 65536) + unat s mod 65536" by simp
  ultimately have "unat s mod 65536 + unat s div 65536 < unat s" by linarith
  then show "((s AND 0xffff) + drop_bit 16 s, s) \<in> measure unat" by (simp only: in_measure fold_step)
qed simp

declare checksum_fold_loop.simps [simp del]

definition checksum_fold :: "u32 \<Rightarrow> u16" where
  "checksum_fold acc = ucast (NOT (checksum_fold_loop acc))"

definition ip_checksum :: "byte list \<Rightarrow> u16" where
  "ip_checksum data = checksum_fold (checksum_sum data 0)"

text \<open>The header loop skips the checksum field (index 10) and has no odd tail.\<close>

fun ipv4_sum_loop :: "nat \<Rightarrow> byte list \<Rightarrow> u32 \<Rightarrow> u32" where
  "ipv4_sum_loop i (a # b # rest) acc =
     ipv4_sum_loop (i + 2) rest (acc + ucast (if i = 10 then 0 else be16 a b))"
| "ipv4_sum_loop i _ acc = acc"

definition ipv4_checksum :: "byte list \<Rightarrow> nat \<Rightarrow> u16" where
  "ipv4_checksum ip hlen = checksum_fold (ipv4_sum_loop 0 (take hlen ip) 0)"

definition verify_ipv4_checksum :: "byte list \<Rightarrow> nat \<Rightarrow> u16" where
  "verify_ipv4_checksum ip hlen = checksum_fold (checksum_sum (take hlen ip) 0)"

fun addr_sum_loop :: "byte list \<Rightarrow> u32 \<Rightarrow> u32" where
  "addr_sum_loop (a # b # rest) acc = addr_sum_loop rest (acc + ucast (be16 a b))"
| "addr_sum_loop _ acc = acc"

definition tcp_udp_checksum :: "nat \<Rightarrow> byte list \<Rightarrow> byte list \<Rightarrow> byte \<Rightarrow> byte list \<Rightarrow> u16" where
  "tcp_udp_checksum family src_ip dst_ip protocol segment =
     (let addr_len = (if family = 6 then 16 else 4);
          acc = addr_sum_loop (take addr_len src_ip) 0;
          acc = addr_sum_loop (take addr_len dst_ip) acc;
          acc = acc + ucast protocol;
          acc = acc + ucast (of_nat (length segment) :: u16);
          acc = acc + checksum_sum segment 0
      in checksum_fold acc)"

definition tcp_udp_checksum_v4 :: "u32 \<Rightarrow> u32 \<Rightarrow> byte \<Rightarrow> byte list \<Rightarrow> u16" where
  "tcp_udp_checksum_v4 src_ip dst_ip protocol segment =
     tcp_udp_checksum 4 (st32 src_ip) (st32 dst_ip) protocol segment"

definition ip_header_size :: "nat \<Rightarrow> nat" where
  "ip_header_size family = (if family = 6 then 40 else 20)"

text \<open>
  \<open>build_ip_header\<close> fills the header at the front of \<open>buf\<close> and returns the buffer and the
  header length.
\<close>

definition build_ip_header ::
  "byte list \<Rightarrow> nat \<Rightarrow> byte list \<Rightarrow> byte list \<Rightarrow> byte \<Rightarrow> nat \<Rightarrow> u16 \<Rightarrow> byte \<Rightarrow> byte list \<times> nat" where
  "build_ip_header buf family src_ip dst_ip protocol total_len ip_id ttl =
     (if family = 4 then
        let h = \<lparr>ip4_version_ihl = 0x45, ip4_tos = 0,
                 ip4_total_len = htons (of_nat total_len), ip4_id = htons ip_id,
                 ip4_frag_off = htons 0x4000, ip4_ttl = ttl, ip4_protocol = protocol,
                 ip4_checksum = 0, ip4_src_ip = ld32 src_ip 0, ip4_dst_ip = ld32 dst_ip 0\<rparr>;
            buf = blit buf 0 (store_ipv4_header h);
            buf = blit buf 10 (st16 (htons (ipv4_checksum buf 20)))
        in (buf, 20)
      else
        let h = \<lparr>ip6_vtc_flow = htonl 0x60000000,
                 ip6_payload_len = htons (of_nat (if total_len > 40 then total_len - 40 else 0)),
                 ip6_next_header = protocol, ip6_hop_limit = ttl,
                 ip6_src_ip = subl 0 16 src_ip, ip6_dst_ip = subl 0 16 dst_ip\<rparr>
        in (blit buf 0 (store_ipv6_header h), 40))"

section \<open>The reference: exact sums and one's complement reduction\<close>

fun be_sum :: "byte list \<Rightarrow> nat" where
  "be_sum (a # b # rest) = unat (be16 a b) + be_sum rest"
| "be_sum [a] = unat (be16 a 0)"
| "be_sum [] = 0"

definition ones_reduce :: "nat \<Rightarrow> nat" where
  "ones_reduce n = (if n = 0 then 0 else (n - 1) mod 65535 + 1)"

lemma be_sum_append: "even (length xs) \<Longrightarrow> be_sum (xs @ ys) = be_sum xs + be_sum ys"
  by (induction xs rule: be_sum.induct) auto

lemma be_sum_bound: "be_sum xs \<le> 65535 * ((length xs + 1) div 2)"
proof (induction xs rule: be_sum.induct)
  case (1 a b rest)
  then show ?case using unat_u16_less[of "be16 a b"] by simp
next
  case (2 a)
  then show ?case using unat_u16_less[of "be16 a 0"] by simp
qed simp

lemma unat_ucast_u16 [simp]: "unat (ucast (x :: u16) :: u32) = unat x"
  by (simp add: unsigned_ucast_eq take_bit_nat_eq_self_iff less_trans[OF unat_u16_less])

lemma unat_ucast_byte [simp]: "unat (ucast (x :: byte) :: u32) = unat x"
  by (simp add: unsigned_ucast_eq take_bit_nat_eq_self_iff less_trans[OF unat_byte_less])

lemma checksum_sum_shift: "checksum_sum xs s = s + checksum_sum xs 0"
proof (induction xs arbitrary: s rule: be_sum.induct)
  case (1 a b rest)
  show ?case by (simp add: 1[of "s + ucast (be16 a b)"] 1[of "ucast (be16 a b)"] add.assoc)
qed simp_all

lemma checksum_sum_exact: "unat (checksum_sum xs s) = (unat s + be_sum xs) mod 2 ^ 32"
proof (induction xs s rule: checksum_sum.induct)
  case (1 a b rest s)
  then show ?case by (simp add: unat_word_ariths mod_simps add.assoc)
next
  case (2 a s)
  then show ?case by (simp add: unat_word_ariths)
next
  case (3 s)
  then show ?case using unat_u32_less[of s] by simp
qed


lemma ones_reduce_range: "ones_reduce n \<le> 65535"
  using mod_less_divisor[of 65535 "n - 1"] by (auto simp: ones_reduce_def)

lemma ones_reduce_zero [simp]: "ones_reduce n = 0 \<longleftrightarrow> n = 0"
  by (simp add: ones_reduce_def)

lemma ones_reduce_small: "n < 65536 \<Longrightarrow> ones_reduce n = n"
  by (auto simp: ones_reduce_def)

lemma ones_reduce_mod: "ones_reduce n mod 65535 = n mod 65535"
  by (cases n) (auto simp: ones_reduce_def mod_Suc)

lemma ones_reduce_cong:
  "n mod 65535 = m mod 65535 \<Longrightarrow> (n = 0 \<longleftrightarrow> m = 0) \<Longrightarrow> ones_reduce n = ones_reduce m"
proof -
  assume c: "n mod 65535 = m mod 65535" and z: "n = 0 \<longleftrightarrow> m = 0"
  have step: "(k - 1) mod 65535 = (k + 65534) mod 65535" if "k \<noteq> 0" for k :: nat
    using that mod_add_self2[of "k - 1" 65535] by (simp add: add.commute)
  have "(n + 65534) mod 65535 = (m + 65534) mod 65535" using c by (rule mod_add_cong) simp
  then show ?thesis using z step[of n] step[of m] by (simp add: ones_reduce_def)
qed

lemma ones_reduce_max: "ones_reduce n = 65535 \<longleftrightarrow> 0 < n \<and> 65535 dvd n"
proof
  assume r: "ones_reduce n = 65535"
  then have "n mod 65535 = 0" using ones_reduce_mod[of n] by simp
  moreover have "n \<noteq> 0" using r ones_reduce_zero[of n] by force
  ultimately show "0 < n \<and> 65535 dvd n" by auto
next
  assume n: "0 < n \<and> 65535 dvd n"
  then have "ones_reduce n mod 65535 = 0" using ones_reduce_mod[of n] by simp
  then have "65535 dvd ones_reduce n" by (simp add: dvd_eq_mod_eq_0)
  moreover have "0 < ones_reduce n" using n by (metis gr0I ones_reduce_zero)
  ultimately show "ones_reduce n = 65535" using ones_reduce_range[of n] dvd_imp_le by fastforce
qed

lemma ones_reduce_fold: "ones_reduce (n mod 65536 + n div 65536) = ones_reduce n"
proof (rule ones_reduce_cong)
  have n: "n = 65536 * (n div 65536) + n mod 65536" by simp
  have "n = (n mod 65536 + n div 65536) + 65535 * (n div 65536)"
    by (subst n) simp
  then show "(n mod 65536 + n div 65536) mod 65535 = n mod 65535" by (metis mod_mult_self2)
  show "n mod 65536 + n div 65536 = 0 \<longleftrightarrow> n = 0" using n by (metis add_eq_0_iff_both_eq_0 mult_0_right div_0 mod_0)
qed

lemma checksum_fold_loop_exact: "unat (checksum_fold_loop s) = ones_reduce (unat s)"
proof (induction s rule: checksum_fold_loop.induct)
  case (1 s)
  show ?case
  proof (cases "drop_bit 16 s = 0")
    case True
    then have "unat s div 65536 = 0" by (metis unat_drop16 unat_0)
    then show ?thesis using True by (simp add: checksum_fold_loop.simps[of s] ones_reduce_small div_eq_0_iff)
  next
    case False
    with 1 show ?thesis by (simp add: checksum_fold_loop.simps[of s] fold_step ones_reduce_fold)
  qed
qed

text \<open>The folding loop computes the complement of the one's complement reduction.\<close>

lemma checksum_fold_exact: "unat (checksum_fold s) = 65535 - ones_reduce (unat s)"
proof -
  let ?l = "checksum_fold_loop s"
  have l: "unat ?l \<le> 65535" using ones_reduce_range by (simp add: checksum_fold_loop_exact)
  have "NOT ?l = - 1 - ?l" by (simp add: not_eq_complement)
  then have "unat (NOT ?l) = 4294967295 - unat ?l"
    by (simp only:) (subst unat_sub, simp_all add: unsigned_minus_1_eq_mask mask_eq_exp_minus_1)
  moreover have "unat (ucast (NOT ?l) :: u16) = unat (NOT ?l) mod 65536"
    by (simp add: unsigned_ucast_eq take_bit_eq_mod)
  moreover have "(4294967295 - unat ?l) mod 65536 = 65535 - unat ?l"
  proof -
    have "4294967295 - unat ?l = 65535 * 65536 + (65535 - unat ?l)" using l by simp
    then show ?thesis by (simp only: mod_mult_self3) simp
  qed
  ultimately show ?thesis by (simp add: checksum_fold_def checksum_fold_loop_exact)
qed

section \<open>The vectorised sum\<close>

lemma mm_swap_le16 [simp]: "mm_swap (le16 a b) = be16 a b"
proof -
  have "(0x00ff :: u16) = mask 8" by (simp add: mask_eq_exp_minus_1)
  show ?thesis unfolding mm_swap_def \<open>0x00ff = mask 8\<close>
    by (rule bit_word_eqI) (auto simp: le16_def be16_def bit_simps simp del: mask_numeral dest: byte_bit_bound)
qed

lemma length_mm_loadu: "length (mm_loadu xs) = length xs div 2"
  by (induction xs rule: mm_loadu.induct) auto

lemma checksum_sum_lanes:
  "even (length xs) \<Longrightarrow>
   checksum_sum (xs @ ys) s = checksum_sum ys (s + sum_list (map ucast (map mm_swap (mm_loadu xs))))"
  by (induction xs arbitrary: s rule: mm_loadu.induct) (auto simp: add.assoc)

lemma sum_list_mm_add [simp]:
  "length x = length y \<Longrightarrow> sum_list (mm_add_epi32 x y) = sum_list x + sum_list y"
  by (induction x y rule: list_induct2) (auto simp: mm_add_epi32_def algebra_simps)

lemma length_mm_add [simp]: "length x = length y \<Longrightarrow> length (mm_add_epi32 x y) = length x"
  by (simp add: mm_add_epi32_def)

lemma mm_unpack_sum:
  "sum_list (mm_unpacklo_zero v) + sum_list (mm_unpackhi_zero v) = sum_list (map ucast v)"
  unfolding mm_unpacklo_zero_def mm_unpackhi_zero_def
  by (metis append_take_drop_id map_append sum_list_append)

lemma sse2_block:
  assumes "length d0 = 16" "length d1 = 16"
    and "w0 = map mm_swap (mm_loadu d0)" "w1 = map mm_swap (mm_loadu d1)"
  shows "checksum_sum (d0 @ d1 @ rest) s = checksum_sum rest
    (s + (sum_list (mm_unpacklo_zero w0) + sum_list (mm_unpackhi_zero w0)) +
     (sum_list (mm_unpacklo_zero w1) + sum_list (mm_unpackhi_zero w1)))"
  using assms by (simp add: checksum_sum_lanes mm_unpack_sum)

lemma sse2_loop_sum:
  assumes "length acc0 = 4" "length acc1 = 4" "sse2_loop data acc0 acc1 = (rest, a0, a1)"
  shows "checksum_sum rest (s + (sum_list a0 + sum_list a1)) =
         checksum_sum data (s + (sum_list acc0 + sum_list acc1))"
  using assms
proof (induction data acc0 acc1 arbitrary: s rule: sse2_loop.induct)
  case (1 data acc0 acc1)
  show ?case
  proof (cases "length data < 32")
    case True
    with 1 show ?thesis by (simp add: sse2_loop.simps[of data])
  next
    case False
    define w0 where "w0 = map mm_swap (mm_loadu (take 16 data))"
    define w1 where "w1 = map mm_swap (mm_loadu (take 16 (drop 16 data)))"
    define b0 where "b0 = mm_add_epi32 (mm_add_epi32 acc0 (mm_unpacklo_zero w0)) (mm_unpacklo_zero w1)"
    define b1 where "b1 = mm_add_epi32 (mm_add_epi32 acc1 (mm_unpackhi_zero w0)) (mm_unpackhi_zero w1)"
    have len: "length (mm_unpacklo_zero w0) = 4" "length (mm_unpackhi_zero w0) = 4"
      "length (mm_unpacklo_zero w1) = 4" "length (mm_unpackhi_zero w1) = 4"
      using False by (simp_all add: w0_def w1_def mm_unpacklo_zero_def mm_unpackhi_zero_def length_mm_loadu)
    have step: "sse2_loop data acc0 acc1 = sse2_loop (drop 32 data) b0 b1"
      using False by (simp add: sse2_loop.simps[of data] Let_def w0_def w1_def b0_def b1_def)
    have split: "data = take 16 data @ take 16 (drop 16 data) @ drop 32 data"
      using append_take_drop_id[of 16 "drop 16 data"] append_take_drop_id[of 16 data] by simp
    have "checksum_sum rest (s + (sum_list a0 + sum_list a1)) =
        checksum_sum (drop 32 data) (s + (sum_list b0 + sum_list b1))"
      using "1.IH"[OF False refl refl refl refl refl refl, folded w0_def w1_def, folded b0_def b1_def]
        1 step len by (simp add: b0_def b1_def)
    also have "\<dots> = checksum_sum data (s + (sum_list acc0 + sum_list acc1))"
      by (subst (2) split, subst sse2_block[OF _ _ w0_def w1_def])
        (use False 1 len in \<open>simp_all add: b0_def b1_def algebra_simps\<close>)
    finally show ?thesis .
  qed
qed

text \<open>
  C39. The SSE2 checksum loop used on x86 computes, for every input and every initial value,
  exactly the 32 bit sum of the portable scalar loop, wrap-around included.
\<close>

theorem checksum_sse2_equals_scalar: "checksum_sum_sse2 data acc = checksum_sum data acc"
proof (cases "sse2_loop data (replicate 4 0) (replicate 4 0)")
  case (fields rest a0 a1)
  then show ?thesis
    using sse2_loop_sum[OF _ _ fields, of acc] by (simp add: checksum_sum_sse2_def sum_list_replicate)
qed

section \<open>Exact values of the routines\<close>

definition even_part :: "byte list \<Rightarrow> byte list" where
  "even_part xs = take (2 * (length xs div 2)) xs"

lemma even_part_simps [simp]:
  "even_part (a # b # xs) = a # b # even_part xs" "even_part [a] = []" "even_part [] = []"
  by (simp_all add: even_part_def)

lemma even_part_even: "even (length xs) \<Longrightarrow> even_part xs = xs"
  by (simp add: even_part_def)

lemma addr_sum_exact: "unat (addr_sum_loop xs s) = (unat s + be_sum (even_part xs)) mod 2 ^ 32"
proof (induction xs s rule: addr_sum_loop.induct)
  case (1 a b rest s)
  then show ?case by (simp add: unat_word_ariths mod_simps add.assoc)
qed (simp_all add: unat_u32_less)

lemma ipv4_sum_skip:
  "i + length ys \<le> 10 \<Longrightarrow> even (length ys) \<Longrightarrow>
   ipv4_sum_loop i (ys @ zs) s = ipv4_sum_loop (i + length ys) zs (checksum_sum ys s)"
  by (induction ys s arbitrary: i rule: checksum_sum.induct) auto

lemma ipv4_sum_tail: "10 < i \<Longrightarrow> even (length zs) \<Longrightarrow> ipv4_sum_loop i zs s = checksum_sum zs s"
  by (induction i zs s rule: ipv4_sum_loop.induct) auto

lemma checksum_sum_append: "even (length xs) \<Longrightarrow> checksum_sum (xs @ ys) s = checksum_sum ys (checksum_sum xs s)"
  by (induction xs s rule: checksum_sum.induct) auto

text \<open>Skipping the checksum field is the same as reading it as zero.\<close>

lemma ipv4_sum_zeroed:
  assumes "even (length xs)" "12 \<le> length xs"
  shows "ipv4_sum_loop 0 xs s = checksum_sum (blit xs 10 [0, 0]) s"
proof -
  define ys zs where "ys = take 10 xs" and "zs = drop 12 xs"
  have ys: "length ys = 10" and zs: "even (length zs)" using assms by (simp_all add: ys_def zs_def)
  have "drop 10 xs = [xs ! 10, xs ! 11] @ zs"
    using assms by (simp add: zs_def Cons_nth_drop_Suc[symmetric] numeral_eq_Suc)
  then have xs: "xs = ys @ [xs ! 10, xs ! 11] @ zs"
    by (metis append_take_drop_id ys_def)
  have "ipv4_sum_loop 0 xs s = ipv4_sum_loop 10 ([xs ! 10, xs ! 11] @ zs) (checksum_sum ys s)"
    by (subst xs, subst ipv4_sum_skip) (simp_all add: ys)
  also have "\<dots> = checksum_sum zs (checksum_sum ys s + ucast (0 :: u16))"
    using zs by (simp add: ipv4_sum_tail)
  also have "\<dots> = checksum_sum (blit xs 10 [0, 0]) s"
    using assms by (simp add: blit_def checksum_sum_append ys_def zs_def be16_def)
  finally show ?thesis .
qed

lemma be_sum_blit:
  assumes "even i" "i + 2 \<le> length bs"
  shows "be_sum (blit bs i [a, b]) = be_sum (blit bs i [0, 0]) + unat (be16 a b)"
  using assms by (simp add: blit_def be_sum_append be16_def)

section \<open>The contract of a checksum routine\<close>

text \<open>
  \<open>csum\<close> is a checksum over a message together with a fixed contribution \<open>base n\<close> that may
  depend on the message length \<open>n\<close> (the pseudo header). Inside the locale: when it is zero,
  and that a message verifies once its checksum has been written into a field that was zero.
\<close>

locale ones_checksum =
  fixes csum :: "byte list \<Rightarrow> u16" and base :: "nat \<Rightarrow> nat"
  assumes csum_exact:
    "length bs \<le> 65535 \<Longrightarrow> unat (csum bs) = 65535 - ones_reduce (base (length bs) + be_sum bs)"
begin

lemma zero_iff:
  assumes "length bs \<le> 65535"
  shows "csum bs = 0 \<longleftrightarrow> 0 < base (length bs) + be_sum bs \<and> 65535 dvd base (length bs) + be_sum bs"
proof -
  have "csum bs = 0 \<longleftrightarrow> unat (csum bs) = 0" by (simp only: unat_eq_0)
  also have "\<dots> \<longleftrightarrow> ones_reduce (base (length bs) + be_sum bs) = 65535"
    unfolding csum_exact[OF assms] using ones_reduce_range[of "base (length bs) + be_sum bs"] by linarith
  finally show ?thesis by (simp only: ones_reduce_max)
qed

lemma filled_verifies:
  assumes i: "even i" "i + 2 \<le> length bs" and len: "length bs \<le> 65535"
    and z: "subl i 2 bs = [0, 0]"
    and c: "c = csum bs \<or> (csum bs = 0 \<and> c = 0xffff)"
  shows "csum (blit bs i [hi8 c, lo8 c]) = 0"
proof -
  have bs: "blit bs i [0, 0] = bs"
    using z by (rule blit_id2)
  let ?t = "base (length bs) + be_sum bs"
  have fill: "be_sum (blit bs i [hi8 c, lo8 c]) = be_sum bs + unat c"
    using be_sum_blit[OF i] bs by simp
  have "0 < ?t + unat c \<and> 65535 dvd ?t + unat c"
  proof (cases "csum bs = 0 \<and> c = 0xffff")
    case True
    then show ?thesis using zero_iff[OF len] by (simp add: dvd_add)
  next
    case False
    then have c': "unat c = 65535 - ones_reduce ?t" using c csum_exact[OF len] by auto
    have "(?t + unat c) mod 65535 = (ones_reduce ?t + unat c) mod 65535"
      by (metis mod_add_left_eq ones_reduce_mod)
    also have "\<dots> = 0" using c' ones_reduce_range[of ?t] by simp
    finally have "65535 dvd ?t + unat c" by (simp add: dvd_eq_mod_eq_0)
    moreover have "0 < ?t + unat c" using c' by (cases "?t = 0") (simp_all add: ones_reduce_def)
    ultimately show ?thesis by blast
  qed
  then show ?thesis using i len fill by (simp add: zero_iff add.assoc)
qed

end

lemma be_sum_length_bound: "length bs \<le> 65535 \<Longrightarrow> be_sum bs \<le> 65535 * 32768"
  using be_sum_bound[of bs] by (rule order_trans) simp

interpretation plain_csum: ones_checksum ip_checksum "\<lambda>_. 0"
proof
  fix bs :: "byte list"
  assume "length bs \<le> 65535"
  then have "be_sum bs < 2 ^ 32" using be_sum_length_bound[of bs] by simp
  then show "unat (ip_checksum bs) = 65535 - ones_reduce (0 + be_sum bs)"
    by (simp add: ip_checksum_def checksum_fold_exact checksum_sum_exact)
qed

text \<open>The contribution of the pseudo header: both addresses, the protocol and the length.\<close>

definition pseudo_base :: "nat \<Rightarrow> byte list \<Rightarrow> byte list \<Rightarrow> byte \<Rightarrow> nat \<Rightarrow> nat" where
  "pseudo_base family src_ip dst_ip protocol n =
     be_sum (even_part (take (if family = 6 then 16 else 4) src_ip)) +
     be_sum (even_part (take (if family = 6 then 16 else 4) dst_ip)) + unat protocol + n"

lemma pseudo_addr_bound: "be_sum (even_part (take (if family = 6 then 16 else 4) a)) \<le> 65535 * 8"
  using be_sum_bound[of "even_part (take (if family = 6 then 16 else 4) a)"]
  by (rule order_trans) (auto simp: even_part_def)

lemma tcp_udp_checksum_exact:
  assumes "length bs \<le> 65535"
  shows "unat (tcp_udp_checksum family src_ip dst_ip protocol bs) =
    65535 - ones_reduce (pseudo_base family src_ip dst_ip protocol (length bs) + be_sum bs)"
proof -
  define al where "al = (if family = 6 then 16 else (4::nat))"
  have len: "unat (of_nat (length bs) :: u16) = length bs"
    using assms by (simp add: unat_of_nat)
  have b: "be_sum (even_part (take al src_ip)) \<le> 65535 * 8" "be_sum (even_part (take al dst_ip)) \<le> 65535 * 8"
    "be_sum bs \<le> 65535 * 32768" "unat protocol < 256"
    using pseudo_addr_bound be_sum_length_bound[OF assms] unat_byte_less unfolding al_def by blast+
  have "unat (addr_sum_loop (take al dst_ip) (addr_sum_loop (take al src_ip) 0) + ucast protocol +
      ucast (of_nat (length bs) :: u16) + checksum_sum bs 0) =
      pseudo_base family src_ip dst_ip protocol (length bs) + be_sum bs"
    using b assms
    by (simp add: unat_word_ariths addr_sum_exact checksum_sum_exact len pseudo_base_def mod_simps
        flip: al_def)
  then show ?thesis by (simp add: tcp_udp_checksum_def Let_def checksum_fold_exact flip: al_def)
qed

interpretation pseudo_csum: ones_checksum
  "tcp_udp_checksum family src_ip dst_ip protocol" "pseudo_base family src_ip dst_ip protocol"
  for family src_ip dst_ip protocol
  by unfold_locales (rule tcp_udp_checksum_exact)

section \<open>Headers that verify\<close>

text \<open>The header bytes \<^verbatim>\<open>build_ip_header\<close> writes, which do not depend on what the buffer held.\<close>

definition ipv4_bytes :: "byte list \<Rightarrow> byte list \<Rightarrow> byte \<Rightarrow> nat \<Rightarrow> u16 \<Rightarrow> byte \<Rightarrow> u16 \<Rightarrow> byte list" where
  "ipv4_bytes src_ip dst_ip protocol total_len ip_id ttl csum = store_ipv4_header
     \<lparr>ip4_version_ihl = 0x45, ip4_tos = 0, ip4_total_len = htons (of_nat total_len),
      ip4_id = htons ip_id, ip4_frag_off = htons 0x4000, ip4_ttl = ttl, ip4_protocol = protocol,
      ip4_checksum = htons csum, ip4_src_ip = ld32 src_ip 0, ip4_dst_ip = ld32 dst_ip 0\<rparr>"

lemma ntohs_0 [simp]: "ntohs 0 = 0"
  by (simp add: ntohs_def be16_def)

lemma length_ipv4_bytes [simp]: "length (ipv4_bytes s d p t i l c) = 20"
  by (simp add: ipv4_bytes_def)

lemma ipv4_bytes_fill:
  "blit (ipv4_bytes s d p t i l 0) 10 (st16 (htons c)) = ipv4_bytes s d p t i l c"
  by (simp add: ipv4_bytes_def store_ipv4_header_def blit_def st16_def)

lemma ipv4_bytes_csum_field: "subl 10 2 (ipv4_bytes s d p t i l 0) = [0, 0]"
  by (simp add: ipv4_bytes_def store_ipv4_header_def subl_def st16_def)

lemma blit_append_left:
  "i + length ys \<le> length xs \<Longrightarrow> blit (xs @ zs) i ys = blit xs i ys @ zs"
  by (simp add: blit_def)

lemma ipv4_checksum_zeroed:
  "length h = 20 \<Longrightarrow> subl 10 2 h = [0, 0] \<Longrightarrow> ipv4_checksum (h @ rest) 20 = ip_checksum h"
  by (simp add: ipv4_checksum_def ip_checksum_def ipv4_sum_zeroed blit_id2)

lemma build_ipv4_header_bytes:
  assumes "20 \<le> length buf"
  shows "build_ip_header buf 4 src_ip dst_ip protocol total_len ip_id ttl =
    (ipv4_bytes src_ip dst_ip protocol total_len ip_id ttl
       (ip_checksum (ipv4_bytes src_ip dst_ip protocol total_len ip_id ttl 0)) @ drop 20 buf, 20)"
proof -
  let ?h = "ipv4_bytes src_ip dst_ip protocol total_len ip_id ttl 0"
  have "blit buf 0 ?h = ?h @ drop 20 buf" by (simp add: blit_def)
  then show ?thesis
    by (simp add: build_ip_header_def Let_def ipv4_checksum_zeroed[OF _ ipv4_bytes_csum_field]
        blit_append_left ipv4_bytes_fill flip: ipv4_bytes_def[of _ _ _ _ _ _ 0, simplified])
qed

lemma build_ipv6_header_bytes:
  "family \<noteq> 4 \<Longrightarrow> build_ip_header buf family src_ip dst_ip protocol total_len ip_id ttl =
    (blit buf 0 (store_ipv6_header
       \<lparr>ip6_vtc_flow = htonl 0x60000000,
        ip6_payload_len = htons (of_nat (if total_len > 40 then total_len - 40 else 0)),
        ip6_next_header = protocol, ip6_hop_limit = ttl,
        ip6_src_ip = subl 0 16 src_ip, ip6_dst_ip = subl 0 16 dst_ip\<rparr>), 40)"
  by (simp add: build_ip_header_def)

text \<open>
  Every IPv4 header the engine emits verifies at the receiver: whatever the buffer held
  before, the 20 bytes written by \<^verbatim>\<open>build_ip_header\<close> pass
  \<^verbatim>\<open>verify_ipv4_checksum\<close>, for every choice of addresses, protocol, length, id and TTL.
\<close>

theorem built_ipv4_header_verifies:
  assumes "20 \<le> length buf"
  shows "verify_ipv4_checksum (fst (build_ip_header buf 4 src_ip dst_ip protocol total_len ip_id ttl)) 20 = 0"
proof -
  let ?h = "ipv4_bytes src_ip dst_ip protocol total_len ip_id ttl"
  have "ip_checksum (blit (?h 0) 10 [hi8 (ip_checksum (?h 0)), lo8 (ip_checksum (?h 0))]) = 0"
    by (rule plain_csum.filled_verifies) (simp_all add: ipv4_bytes_csum_field)
  then have "ip_checksum (?h (ip_checksum (?h 0))) = 0"
    using ipv4_bytes_fill[of src_ip dst_ip protocol total_len ip_id ttl "ip_checksum (?h 0)"]
    by (simp add: st16_ntohs)
  then show ?thesis
    by (simp add: build_ipv4_header_bytes[OF assms] verify_ipv4_checksum_def ip_checksum_def)
qed

theorem built_ipv4_header_verifies_witness:
  "(20 :: nat) \<le> length (replicate 24 (7 :: byte)) \<and>
   verify_ipv4_checksum
     (fst (build_ip_header (replicate 24 7) 4 [10, 0, 0, 1] [10, 0, 0, 2] 6 40 1 64)) 20 = 0"
  using built_ipv4_header_verifies[of "replicate 24 7" "[10, 0, 0, 1]" "[10, 0, 0, 2]" 6 40 1 64] by simp

text \<open>
  A transport segment that carries the checksum computed over it with a zero checksum field
  verifies to zero under the same pseudo header, for IPv4 and IPv6, for TCP, UDP and ICMPv6
  alike; a computed zero may also be sent as \<open>0xffff\<close> (the UDP rule).
\<close>

theorem transport_checksum_round_trip:
  assumes "even i" "i + 2 \<le> length seg" "length seg \<le> 65535" "subl i 2 seg = [0, 0]"
    and "c = tcp_udp_checksum family src_ip dst_ip protocol seg \<or>
         (tcp_udp_checksum family src_ip dst_ip protocol seg = 0 \<and> c = 0xffff)"
  shows "tcp_udp_checksum family src_ip dst_ip protocol (blit seg i [hi8 c, lo8 c]) = 0"
  using assms by (rule pseudo_csum.filled_verifies)

theorem transport_checksum_round_trip_witness:
  "tcp_udp_checksum 4 [10, 0, 0, 1] [10, 0, 0, 2] 17
     (blit [0, 53, 0, 53, 0, 9, 0, 0, 65] 6
       [hi8 (tcp_udp_checksum 4 [10, 0, 0, 1] [10, 0, 0, 2] 17 [0, 53, 0, 53, 0, 9, 0, 0, 65]),
        lo8 (tcp_udp_checksum 4 [10, 0, 0, 1] [10, 0, 0, 2] 17 [0, 53, 0, 53, 0, 9, 0, 0, 65])]) = 0"
  by (rule transport_checksum_round_trip) (simp_all add: subl_def)

text \<open>
  Any corruption of one aligned 16 bit word of a valid segment is detected, except the
  exchange of the two representations of zero, \<open>0x0000\<close> and \<open>0xffff\<close>.
\<close>

theorem transport_checksum_detects_word_error:
  assumes len: "even i" "i + 2 \<le> length seg" "length seg \<le> 65535"
    and valid: "tcp_udp_checksum family src_ip dst_ip protocol seg = 0"
    and diff: "w \<noteq> be16 (seg ! i) (seg ! (i + 1))"
    and zeros: "\<not> (w = 0 \<and> be16 (seg ! i) (seg ! (i + 1)) = 0xffff)"
      "\<not> (w = 0xffff \<and> be16 (seg ! i) (seg ! (i + 1)) = 0)"
  shows "tcp_udp_checksum family src_ip dst_ip protocol (blit seg i [hi8 w, lo8 w]) \<noteq> 0"
proof
  let ?o = "be16 (seg ! i) (seg ! (i + 1))"
  let ?t = "\<lambda>bs. pseudo_base family src_ip dst_ip protocol (length seg) + be_sum bs"
  assume "tcp_udp_checksum family src_ip dst_ip protocol (blit seg i [hi8 w, lo8 w]) = 0"
  then have d1: "65535 dvd ?t (blit seg i [hi8 w, lo8 w])"
    using len pseudo_csum.zero_iff[of "blit seg i [hi8 w, lo8 w]" family src_ip dst_ip protocol] by simp
  have d2: "65535 dvd ?t seg" using valid len pseudo_csum.zero_iff by blast
  have "subl i 2 seg = [seg ! i, seg ! (i + 1)]"
    using len by (simp add: subl_def numeral_2_eq_2 take_Suc_conv_app_nth)
  then have seg: "blit seg i [seg ! i, seg ! (i + 1)] = seg" by (rule blit_id2)
  have s1: "be_sum (blit seg i [hi8 w, lo8 w]) = be_sum (blit seg i [0, 0]) + unat w"
    by (simp only: be_sum_blit[OF len(1,2), of "hi8 w" "lo8 w"] be16_hi_lo)
  have s2: "be_sum seg = be_sum (blit seg i [0, 0]) + unat ?o"
    using be_sum_blit[OF len(1,2), of "seg ! i" "seg ! (i + 1)"] by (simp only: seg)
  have "int 65535 dvd int (?t (blit seg i [hi8 w, lo8 w])) - int (?t seg)"
    using d1 d2 by (intro dvd_diff) (simp_all only: int_dvd_int_iff)
  then have dvd: "int 65535 dvd int (unat w) - int (unat ?o)" by (simp only: s1 s2) simp
  have ne: "unat w \<noteq> unat ?o" using diff by (metis unsigned_word_eqI)
  have le: "\<bar>int (unat w) - int (unat ?o)\<bar> \<le> 65535" "0 < \<bar>int (unat w) - int (unat ?o)\<bar>"
    using unat_u16_less[of w] unat_u16_less[of ?o] ne by linarith+
  have "int 65535 dvd \<bar>int (unat w) - int (unat ?o)\<bar>" using dvd by (simp only: dvd_abs_iff)
  then have "int 65535 \<le> \<bar>int (unat w) - int (unat ?o)\<bar>" using le(2) by (rule zdvd_imp_le)
  then have "\<bar>int (unat w) - int (unat ?o)\<bar> = 65535" using le(1) by linarith
  then have "(unat w = 0 \<and> unat ?o = 65535) \<or> (unat w = 65535 \<and> unat ?o = 0)"
    using unat_u16_less[of w] unat_u16_less[of ?o] by linarith
  moreover have "x = 0" if "unat x = 0" for x :: u16 using that by (simp add: unat_eq_0)
  moreover have "x = 0xffff" if "unat x = 65535" for x :: u16
    using that by (intro word_unat_eq_iff[THEN iffD2]) simp
  ultimately show False using zeros by blast
qed

theorem transport_checksum_detects_word_error_witness:
  "tcp_udp_checksum 4 [0, 0, 0, 0] [0, 0, 0, 0] 17 [0xff, 0xec] = 0 \<and>
   tcp_udp_checksum 4 [0, 0, 0, 0] [0, 0, 0, 0] 17 (blit [0xff, 0xec] 0 [hi8 1, lo8 1]) \<noteq> 0"
proof -
  have v: "tcp_udp_checksum 4 [0, 0, 0, 0] [0, 0, 0, 0] 17 [0xff, 0xec] = 0" by code_simp
  have "be16 0xff 0xec = 0xffec" by code_simp
  then have "tcp_udp_checksum 4 [0, 0, 0, 0] [0, 0, 0, 0] 17 (blit [0xff, 0xec] 0 [hi8 1, lo8 1]) \<noteq> 0"
    by (intro transport_checksum_detects_word_error v) simp_all
  with v show ?thesis by blast
qed

end
