(* ===== verification/Packet_Buffer.thy ===== *)
theory Packet_Buffer
  imports Tunio_Prelude
begin

text \<open>
  \<^verbatim>\<open>include/tunio/packet_buffer.hpp\<close>: the packet buffer with headroom. The storage is a
  block of bytes; \<open>mem\<close> stands for the indeterminate contents of freshly allocated memory.
  A \<^verbatim>\<open>throw\<close> is the left side of a sum. The invariant \<open>pb_wf\<close> is what every
  member function keeps; under it no \<^verbatim>\<open>size_t\<close> difference wraps. \<close>

datatype cpp_exception = Invalid_argument | Length_error | Logic_error

record packet_buffer =
  pb_storage :: "byte list"
  pb_capacity :: nat
  pb_headroom :: nat
  pb_data_offset :: nat
  pb_data_size :: nat

definition packet_buffer_new :: "(nat \<Rightarrow> byte) \<Rightarrow> nat \<Rightarrow> nat \<Rightarrow> cpp_exception + packet_buffer" where
  "packet_buffer_new mem capacity headroom =
     (if capacity = 0 \<or> headroom \<ge> capacity then Inl Invalid_argument
      else Inr \<lparr>pb_storage = map mem [0..<capacity], pb_capacity = capacity,
                pb_headroom = headroom, pb_data_offset = headroom, pb_data_size = 0\<rparr>)"

text \<open>The bytes in \<^verbatim>\<open>[data(), data() + size())\<close>, and a store at \<^verbatim>\<open>data() + i\<close>.\<close>

definition pb_bytes :: "packet_buffer \<Rightarrow> byte list" where
  "pb_bytes b = subl (pb_data_offset b) (pb_data_size b) (pb_storage b)"

definition pb_from_data :: "packet_buffer \<Rightarrow> byte list" where
  "pb_from_data b = drop (pb_data_offset b) (pb_storage b)"

definition pb_poke :: "packet_buffer \<Rightarrow> nat \<Rightarrow> byte list \<Rightarrow> packet_buffer" where
  "pb_poke b i bs = b\<lparr>pb_storage := blit (pb_storage b) (pb_data_offset b + i) bs\<rparr>"

definition pb_writable_size :: "packet_buffer \<Rightarrow> nat" where
  "pb_writable_size b = size_sub (size_sub (pb_capacity b) (pb_data_offset b)) (pb_data_size b)"

definition pb_reset :: "packet_buffer \<Rightarrow> packet_buffer" where
  "pb_reset b = b\<lparr>pb_data_offset := pb_headroom b, pb_data_size := 0\<rparr>"

definition pb_commit :: "nat \<Rightarrow> packet_buffer \<Rightarrow> cpp_exception + packet_buffer" where
  "pb_commit len b =
     (if len > size_sub (size_sub (pb_capacity b) (pb_data_offset b)) (pb_data_size b)
      then Inl Length_error else Inr (b\<lparr>pb_data_size := pb_data_size b + len\<rparr>))"

definition pb_resize :: "nat \<Rightarrow> packet_buffer \<Rightarrow> cpp_exception + packet_buffer" where
  "pb_resize len b =
     (if len > size_sub (pb_capacity b) (pb_data_offset b)
      then Inl Length_error else Inr (b\<lparr>pb_data_size := len\<rparr>))"

section \<open>Invariant\<close>

definition pb_wf :: "packet_buffer \<Rightarrow> bool" where
  "pb_wf b \<longleftrightarrow> length (pb_storage b) = pb_capacity b \<and> pb_headroom b < pb_capacity b \<and>
     pb_data_offset b = pb_headroom b \<and> pb_data_offset b + pb_data_size b \<le> pb_capacity b"

lemma pb_new_wf [inv_intros]: "packet_buffer_new mem c h = Inr b \<Longrightarrow> pb_wf b"
  by (auto simp: packet_buffer_new_def pb_wf_def split: if_splits)

lemma pb_reset_wf [inv_intros]: "pb_wf b \<Longrightarrow> pb_wf (pb_reset b)"
  by (simp add: pb_reset_def pb_wf_def)

lemma pb_commit_wf [inv_intros]: "pb_wf b \<Longrightarrow> pb_commit n b = Inr b' \<Longrightarrow> pb_wf b'"
  by (auto simp: pb_commit_def pb_wf_def split: if_splits)

lemma pb_resize_wf [inv_intros]: "pb_wf b \<Longrightarrow> pb_resize n b = Inr b' \<Longrightarrow> pb_wf b'"
  by (auto simp: pb_resize_def pb_wf_def split: if_splits)

lemma pb_poke_wf [inv_intros]:
  "pb_wf b \<Longrightarrow> pb_data_offset b + i + length bs \<le> pb_capacity b \<Longrightarrow> pb_wf (pb_poke b i bs)"
  by (simp add: pb_poke_def pb_wf_def)

lemma length_pb_bytes [simp]: "pb_wf b \<Longrightarrow> length (pb_bytes b) = pb_data_size b"
  by (simp add: pb_bytes_def pb_wf_def)

lemma pb_writable_exact:
  "pb_wf b \<Longrightarrow> pb_writable_size b = pb_capacity b - pb_headroom b - pb_data_size b"
  by (auto simp: pb_writable_size_def pb_wf_def)

lemma pb_commit_ok:
  "pb_wf b \<Longrightarrow> n \<le> pb_writable_size b \<Longrightarrow> pb_commit n b = Inr (b\<lparr>pb_data_size := pb_data_size b + n\<rparr>)"
  by (simp add: pb_commit_def pb_writable_size_def)

lemma pb_resize_ok:
  "pb_wf b \<Longrightarrow> n + pb_headroom b \<le> pb_capacity b \<Longrightarrow> pb_resize n b = Inr (b\<lparr>pb_data_size := n\<rparr>)"
  by (auto simp: pb_resize_def pb_wf_def)

lemma pb_reset_bytes [simp]: "pb_bytes (pb_reset b) = []"
  by (simp add: pb_bytes_def pb_reset_def subl_def)

lemma pb_bytes_poke:
  "pb_wf b \<Longrightarrow> i + length bs \<le> pb_data_size b \<Longrightarrow> pb_bytes (pb_poke b i bs) = blit (pb_bytes b) i bs"
  by (simp add: pb_bytes_def pb_poke_def pb_wf_def subl_blit_inside)

section \<open>Sequences of member calls\<close>

text \<open>A call that throws leaves the buffer as it was (strong exception guarantee).\<close>

datatype pb_call = Call_reset | Call_commit nat | Call_resize nat

fun pb_call_step :: "packet_buffer \<Rightarrow> pb_call \<Rightarrow> packet_buffer" where
  "pb_call_step b Call_reset = pb_reset b"
| "pb_call_step b (Call_commit n) = (case pb_commit n b of Inl _ \<Rightarrow> b | Inr b' \<Rightarrow> b')"
| "pb_call_step b (Call_resize n) = (case pb_resize n b of Inl _ \<Rightarrow> b | Inr b' \<Rightarrow> b')"

lemma pb_call_step_wf [inv_intros]: "pb_wf b \<Longrightarrow> pb_wf (pb_call_step b c)"
  by (cases c) (auto intro: inv_intros split: sum.splits)

lemma pb_calls_wf: "pb_wf b \<Longrightarrow> pb_wf (foldl pb_call_step b cs)"
  by (induction cs arbitrary: b) (auto intro: pb_call_step_wf)

lemma pb_call_step_frame:
  "pb_storage (pb_call_step b c) = pb_storage b \<and> pb_capacity (pb_call_step b c) = pb_capacity b \<and>
   pb_headroom (pb_call_step b c) = pb_headroom b"
  by (cases c) (auto simp: pb_reset_def pb_commit_def pb_resize_def split: sum.splits if_splits)

text \<open>
  After construction and any sequence of \<^verbatim>\<open>reset\<close>, \<^verbatim>\<open>commit\<close> and
  \<^verbatim>\<open>resize\<close> calls, throwing ones included, the data region lies inside the allocation
  (\<open>headroom + size \<le> capacity\<close>), the writable size is the exact remaining space (no
  \<^verbatim>\<open>size_t\<close> wrap-around), and a further \<^verbatim>\<open>commit(n)\<close> throws
  \<^verbatim>\<open>length_error\<close> exactly when \<open>n\<close> does not fit.
\<close>

theorem packet_buffer_in_bounds:
  assumes "packet_buffer_new mem capacity headroom = Inr b0" and "b = foldl pb_call_step b0 calls"
  shows "pb_data_offset b = headroom \<and> headroom + pb_data_size b \<le> length (pb_storage b) \<and>
    pb_writable_size b = capacity - headroom - pb_data_size b \<and>
    (pb_commit n b = Inl Length_error \<longleftrightarrow> headroom + pb_data_size b + n > capacity)"
proof -
  have b0: "pb_wf b0" "pb_capacity b0 = capacity" "pb_headroom b0 = headroom"
    using assms(1) by (auto simp: packet_buffer_new_def pb_wf_def split: if_splits)
  have "pb_capacity (foldl pb_call_step b0 calls) = pb_capacity b0 \<and>
        pb_headroom (foldl pb_call_step b0 calls) = pb_headroom b0"
    by (induction calls arbitrary: b0) (auto simp: pb_call_step_frame)
  then have b: "pb_wf b" "pb_capacity b = capacity" "pb_headroom b = headroom"
    using b0 assms(2) by (auto intro: pb_calls_wf)
  then show ?thesis
    by (auto simp: pb_wf_def pb_writable_exact pb_commit_def)
qed

theorem packet_buffer_in_bounds_witness:
  "\<exists>b0. packet_buffer_new (\<lambda>_. 0) 16 4 = Inr b0 \<and>
     pb_data_offset (foldl pb_call_step b0 [Call_commit 10, Call_commit 9, Call_resize 3]) = 4"
proof -
  define b0 where "b0 = \<lparr>pb_storage = map (\<lambda>_. 0 :: byte) [0..<16], pb_capacity = 16, pb_headroom = 4,
    pb_data_offset = 4, pb_data_size = 0\<rparr>"
  have "packet_buffer_new (\<lambda>_. 0) 16 4 = Inr b0" by (simp add: packet_buffer_new_def b0_def)
  from packet_buffer_in_bounds[OF this refl] this show ?thesis by blast
qed

end
