(* ===== verification/Engine_Config.thy ===== *)
theory Engine_Config
  imports Ip_Headers
begin

text \<open>
  \<^verbatim>\<open>include/tunio/tun_config.hpp\<close>: the five-tuple and UDP session keys with their hash
  functions, the engine configuration and the statistics counters, and
  \<^verbatim>\<open>buffer_accountant\<close> of \<^verbatim>\<open>tcp_engine.hpp\<close>, the global buffer budget
  that the TCP and UDP engines share. The locale \<open>budget\<close> is the contract of the accountant.
  Durations and time points of the steady clock are \<open>int\<close>, in milliseconds.
\<close>

section \<open>Keys\<close>

record five_tuple =
  ft_src_ip :: "byte list"
  ft_dst_ip :: "byte list"
  ft_src_port :: u16
  ft_dst_port :: u16
  ft_protocol :: byte
  ft_family :: byte

text \<open>\<^verbatim>\<open>std::array<uint8_t, 16>{}\<close> with \<open>n\<close> bytes copied over its front.\<close>

definition addr16 :: "nat \<Rightarrow> byte list \<Rightarrow> byte list" where
  "addr16 n a = blit (replicate 16 0) 0 (subl 0 n a)"

definition make_five_tuple ::
  "byte list \<Rightarrow> byte list \<Rightarrow> u16 \<Rightarrow> u16 \<Rightarrow> byte \<Rightarrow> byte \<Rightarrow> five_tuple" where
  "make_five_tuple src_ip dst_ip src_port dst_port protocol family =
     (let n = (if family = 6 then 16 else 4) in
      \<lparr>ft_src_ip = addr16 n src_ip, ft_dst_ip = addr16 n dst_ip, ft_src_port = src_port,
       ft_dst_port = dst_port, ft_protocol = protocol, ft_family = family\<rparr>)"

record udp_session_key =
  uk_src_ip :: "byte list"
  uk_src_port :: u16
  uk_family :: byte

definition make_udp_session_key :: "byte list \<Rightarrow> u16 \<Rightarrow> byte \<Rightarrow> udp_session_key" where
  "make_udp_session_key src_ip src_port family =
     (let n = (if family = 6 then 16 else 4) in
      \<lparr>uk_src_ip = addr16 n src_ip, uk_src_port = src_port, uk_family = family\<rparr>)"

text \<open>The 64 bit word a little-endian host loads from eight bytes, and the mixing loop.\<close>

definition le64 :: "byte list \<Rightarrow> u64" where
  "le64 bs = word_of_nat (foldr (\<lambda>b acc. unat b + 256 * acc) bs 0)"

definition fnv_basis :: u64 where "fnv_basis = 1469598103934665603"
definition fnv_prime :: u64 where "fnv_prime = 1099511628211"

definition fnv_mix :: "u64 \<Rightarrow> u64 \<Rightarrow> u64" where
  "fnv_mix x h = (h XOR x) * fnv_prime"

definition five_tuple_words :: "five_tuple \<Rightarrow> u64 list" where
  "five_tuple_words k =
     [le64 (subl 0 8 (ft_src_ip k)), le64 (subl 8 8 (ft_src_ip k)),
      le64 (subl 0 8 (ft_dst_ip k)), le64 (subl 8 8 (ft_dst_ip k)),
      ucast (ft_src_port k) OR push_bit 16 (ucast (ft_dst_port k)),
      ucast (ft_protocol k) OR push_bit 8 (ucast (ft_family k))]"

definition hash_five_tuple :: "five_tuple \<Rightarrow> u64" where
  "hash_five_tuple k = fold fnv_mix (five_tuple_words k) fnv_basis"

definition hash_udp_session_key :: "udp_session_key \<Rightarrow> u64" where
  "hash_udp_session_key k = fold fnv_mix
     [le64 (subl 0 8 (uk_src_ip k)), le64 (subl 8 8 (uk_src_ip k)),
      ucast (uk_src_port k) OR push_bit 16 (ucast (uk_family k))] fnv_basis"

lemma addr16_inj:
  "n \<le> 16 \<Longrightarrow> n \<le> length a \<Longrightarrow> n \<le> length b \<Longrightarrow> addr16 n a = addr16 n b \<longleftrightarrow> take n a = take n b"
  by (auto simp: addr16_def blit_def subl_def)

lemma fnv_mix_cancel: "fnv_mix x h = fnv_mix y h' \<longleftrightarrow> h XOR x = h' XOR y"
proof -
  have unit: "fnv_prime * 14886173955864302971 = 1" by (simp add: fnv_prime_def)
  show ?thesis
  proof
    assume "fnv_mix x h = fnv_mix y h'"
    then have "(h XOR x) * (fnv_prime * 14886173955864302971) = (h' XOR y) * (fnv_prime * 14886173955864302971)"
      by (simp add: fnv_mix_def flip: mult.assoc)
    then show "h XOR x = h' XOR y" by (simp only: unit mult_1_right)
  qed (simp add: fnv_mix_def)
qed

lemma xor_cancel_left: "(h :: u64) XOR x = h XOR y \<longleftrightarrow> x = y"
proof
  assume "h XOR x = h XOR y"
  then have "h XOR (h XOR x) = h XOR (h XOR y)" by simp
  then show "x = y" by (simp flip: xor.assoc)
qed simp

lemma xor_cancel_right: "(h :: u64) XOR x = h' XOR x \<longleftrightarrow> h = h'"
  by (simp add: xor.commute[of _ x] xor_cancel_left)

lemma fold_fnv_inj: "fold fnv_mix ws h = fold fnv_mix ws h' \<longleftrightarrow> h = h'"
  by (induction ws arbitrary: h h') (auto simp: fnv_mix_cancel xor_cancel_right)

lemma fold_fnv_one_word:
  "fold fnv_mix (us @ x # vs) h = fold fnv_mix (us @ y # vs) h \<longleftrightarrow> x = y"
  by (simp add: fold_fnv_inj fnv_mix_cancel xor_cancel_left)

text \<open>
  Five-tuples built from packets of one family compare equal exactly when the protocol, both
  ports and the significant address bytes (4 for IPv4, 16 for IPv6) agree: a flow is identified
  by nothing more and nothing less, whatever follows the address in the source memory.
\<close>

theorem five_tuple_identity:
  assumes "n = (if fam = 6 then 16 else 4)"
    and "n \<le> length s1" "n \<le> length s2" "n \<le> length d1" "n \<le> length d2"
  shows "(make_five_tuple s1 d1 sp1 dp1 p1 fam = make_five_tuple s2 d2 sp2 dp2 p2 fam) \<longleftrightarrow>
      take n s1 = take n s2 \<and> take n d1 = take n d2 \<and> sp1 = sp2 \<and> dp1 = dp2 \<and> p1 = p2"
proof -
  have n: "n \<le> 16" using assms(1) by simp
  show ?thesis
    unfolding assms(1)[symmetric] make_five_tuple_def Let_def
    using addr16_inj[OF n assms(2,3)] addr16_inj[OF n assms(4,5)] by auto
qed

theorem five_tuple_identity_witness:
  "(make_five_tuple [10, 0, 0, 1, 9] [10, 0, 0, 2, 9] 80 443 6 4 =
    make_five_tuple [10, 0, 0, 1, 8] [10, 0, 0, 2, 8] 80 443 6 4)"
  using five_tuple_identity[of 4 4 "[10, 0, 0, 1, 9]" "[10, 0, 0, 1, 8]" "[10, 0, 0, 2, 9]" "[10, 0, 0, 2, 8]"
      80 443 6 80 443 6] by simp

text \<open>
  The flow hash separates ports: two flows between the same hosts that differ only in their
  ports never have the same hash value, because each mixing round (xor, multiplication by an odd
  constant modulo \<open>2 ^ 64\<close>) is invertible.
\<close>

theorem five_tuple_hash_separates_ports:
  assumes ne: "(sp1, dp1) \<noteq> (sp2, dp2)"
  shows "hash_five_tuple (make_five_tuple s d sp1 dp1 p fam) \<noteq>
         hash_five_tuple (make_five_tuple s d sp2 dp2 p fam)"
proof -
  let ?w = "\<lambda>a b. ucast (a :: u16) OR push_bit 16 (ucast (b :: u16)) :: u64"
  have "(sp1, dp1) = (sp2, dp2)" if "?w sp1 dp1 = ?w sp2 dp2"
  proof -
    have "(ucast (?w a b) :: u16) = a" "(ucast (drop_bit 16 (?w a b)) :: u16) = b" for a b
      by (rule bit_word_eqI, auto simp: bit_simps dest: bit_imp_le_length)+
    then show ?thesis using that by metis
  qed
  then have "?w sp1 dp1 \<noteq> ?w sp2 dp2" using ne by blast
  then show ?thesis
    using fold_fnv_one_word[of "take 4 (five_tuple_words (make_five_tuple s d sp1 dp1 p fam))"
        "?w sp1 dp1" "drop 5 (five_tuple_words (make_five_tuple s d sp1 dp1 p fam))" fnv_basis "?w sp2 dp2"]
    by (simp add: hash_five_tuple_def five_tuple_words_def make_five_tuple_def Let_def)
qed

theorem five_tuple_hash_separates_ports_witness:
  "hash_five_tuple (make_five_tuple [10, 0, 0, 1] [10, 0, 0, 2] 80 443 6 4) \<noteq>
   hash_five_tuple (make_five_tuple [10, 0, 0, 1] [10, 0, 0, 2] 81 443 6 4)"
  by (rule five_tuple_hash_separates_ports) simp

section \<open>Configuration and counters\<close>

record tun_config =
  mtu :: nat
  max_tcp_flows :: nat
  max_udp_flows :: nat
  max_rx_queue_per_flow :: nat
  tcp_ooo_max_segments :: nat
  max_total_buffer :: nat
  udp_idle_timeout :: int
  tcp_time_wait_timeout :: int
  tcp_accept_timeout :: int
  tcp_syn_timeout :: int
  tcp_close_timeout :: int
  tcp_persist_timeout :: int
  tcp_persist_max_probes :: int
  tcp_rto_timeout :: int
  tcp_rto_max_retransmits :: int

definition default_config :: tun_config where
  "default_config = \<lparr>mtu = 1500, max_tcp_flows = 65536, max_udp_flows = 65536,
     max_rx_queue_per_flow = 8 * 1024 * 1024, tcp_ooo_max_segments = 4096,
     max_total_buffer = 512 * 1024 * 1024, udp_idle_timeout = 30000,
     tcp_time_wait_timeout = 10000, tcp_accept_timeout = 30000, tcp_syn_timeout = 30000,
     tcp_close_timeout = 30000, tcp_persist_timeout = 5000, tcp_persist_max_probes = 15,
     tcp_rto_timeout = 200, tcp_rto_max_retransmits = 8\<rparr>"

record engine_stats =
  rx_packets :: u64
  tx_packets :: u64
  rx_dropped :: u64
  rx_ooo :: u64
  tcp_connections :: u64
  udp_sessions :: u64
  icmp_replies :: u64
  tx_dropped :: u64

section \<open>The buffer accountant\<close>

record buffer_accountant =
  acc_limit :: nat
  acc_used :: nat

definition acct_reserve :: "nat \<Rightarrow> buffer_accountant \<Rightarrow> bool \<times> buffer_accountant" where
  "acct_reserve n a =
     (if n > acc_limit a \<or> acc_used a > size_sub (acc_limit a) n then (False, a)
      else (True, a\<lparr>acc_used := acc_used a + n\<rparr>))"

definition acct_release :: "nat \<Rightarrow> buffer_accountant \<Rightarrow> buffer_accountant" where
  "acct_release n a = a\<lparr>acc_used := size_sub (acc_used a) n\<rparr>"

text \<open>
  The contract: \<open>used\<close> stays within \<open>limit\<close>; a reservation either takes exactly what it asks
  for or changes nothing, and it is refused only when the budget does not suffice; releasing what
  was reserved restores the budget.
\<close>

locale budget =
  fixes reserve :: "nat \<Rightarrow> 'b \<Rightarrow> bool \<times> 'b" and release :: "nat \<Rightarrow> 'b \<Rightarrow> 'b"
    and used :: "'b \<Rightarrow> nat" and limit :: "'b \<Rightarrow> nat"
  assumes reserve_ok: "fst (reserve n b) \<longleftrightarrow> used b + n \<le> limit b"
    and reserve_used: "used (snd (reserve n b)) = (if used b + n \<le> limit b then used b + n else used b)"
    and reserve_refused: "\<not> fst (reserve n b) \<Longrightarrow> snd (reserve n b) = b"
    and release_used: "n \<le> used b \<Longrightarrow> used (release n b) = used b - n"
    and limit_frame: "limit (snd (reserve n b)) = limit b" "limit (release n b) = limit b"
begin

lemma within_limit:
  "used b \<le> limit b \<Longrightarrow> used (snd (reserve n b)) \<le> limit (snd (reserve n b))"
  by (simp add: reserve_used limit_frame)

lemma release_within_limit:
  "used b \<le> limit b \<Longrightarrow> n \<le> used b \<Longrightarrow> used (release n b) \<le> limit (release n b)"
  by (simp add: release_used limit_frame)

text \<open>Giving back a reservation in parts: the invariant of a queue that charges and refunds.\<close>

lemma reserve_release:
  "fst (reserve n b) \<Longrightarrow> m \<le> n \<Longrightarrow> used (release m (snd (reserve n b))) = used b + (n - m)"
  by (subst release_used) (auto simp: reserve_used reserve_ok)

end

interpretation acct: budget acct_reserve acct_release acc_used acc_limit
  by unfold_locales (auto simp: acct_reserve_def acct_release_def)

end
