(* ===== verification/Queue_Writer.thy ===== *)
theory Queue_Writer
  imports Packet_Buffer Engine_Config
begin

text \<open>
  \<^verbatim>\<open>include/tunio/detail/tun_queue_writer.hpp\<close>: the serialised device write queues, one
  write chain per device queue, the send buffer pool and the IP id counter, together with the
  environment (\<open>env\<close>) in which the protocol engines run: the shared statistics, accountant and
  writer objects, the completions posted to executors, the write operations started on the device
  and the current time. Completion handlers are named by numbers; a completion is recorded with
  its arguments when the code posts it.
\<close>

section \<open>Error codes, completions, environment\<close>

datatype error_code =
    EC_ok | EC_eof | EC_connection_reset | EC_operation_aborted | EC_bad_descriptor
  | EC_no_buffer_space | EC_try_again | EC_message_size | EC_address_family_not_supported
  | EC_invalid_argument | EC_other nat

record udp_endpoint =
  ep_v6 :: bool
  ep_addr :: "byte list"
  ep_port :: u16

text \<open>
  The handler attached to a queued device write: the suspended write coroutine of a TCP flow, the
  wrapper of a UDP send (user handler and byte count), or the fragment aggregator of a fragmented
  UDP send.
\<close>

datatype write_cb = Cb_write_loop nat | Cb_udp_single nat nat | Cb_udp_frag nat

datatype completion =
    Done_read nat error_code nat "byte list list"
  | Done_write nat error_code nat
  | Done_recv nat error_code nat "byte list list" "udp_endpoint option"
  | Done_send nat error_code nat
  | Done_tcp_accept nat error_code "nat option"
  | Done_udp_accept nat error_code "nat option"
  | Done_dev write_cb error_code nat

record wq_entry =
  we_buf :: packet_buffer
  we_handler :: "write_cb option"
  we_queue :: nat
  we_retries_left :: nat

record queue_state =
  qs_queue :: "wq_entry list"
  qs_current :: "wq_entry option"

record tun_queue_writer =
  qw_queue_count :: nat
  qw_states :: "queue_state list"
  qw_pool :: "packet_buffer list"
  qw_queued_total :: nat
  qw_cancelled :: bool
  qw_ip_id :: u16

record env =
  e_stats :: engine_stats
  e_account :: buffer_accountant
  e_writer :: tun_queue_writer
  e_posted :: "completion list"
  e_dev_writes :: "(nat \<times> byte list) list"
  e_now :: int
  e_mem :: "nat \<Rightarrow> byte"

text \<open>The environment when the engines start: zero counters, nothing posted, nothing written.\<close>

definition env_new :: "tun_queue_writer \<Rightarrow> nat \<Rightarrow> (nat \<Rightarrow> byte) \<Rightarrow> env" where
  "env_new w limit mem =
     \<lparr>e_stats = \<lparr>rx_packets = 0, tx_packets = 0, rx_dropped = 0, rx_ooo = 0, tcp_connections = 0,
        udp_sessions = 0, icmp_replies = 0, tx_dropped = 0\<rparr>,
      e_account = \<lparr>acc_limit = limit, acc_used = 0\<rparr>, e_writer = w, e_posted = [],
      e_dev_writes = [], e_now = 0, e_mem = mem\<rparr>"

definition post_completion_on :: "completion \<Rightarrow> env \<Rightarrow> env" where
  "post_completion_on c e = e\<lparr>e_posted := e_posted e @ [c]\<rparr>"

definition add_tx_dropped :: "env \<Rightarrow> env" where
  "add_tx_dropped e = e\<lparr>e_stats := (e_stats e)\<lparr>tx_dropped := tx_dropped (e_stats e) + 1\<rparr>\<rparr>"

definition add_tx_packets :: "env \<Rightarrow> env" where
  "add_tx_packets e = e\<lparr>e_stats := (e_stats e)\<lparr>tx_packets := tx_packets (e_stats e) + 1\<rparr>\<rparr>"

definition add_rx_dropped :: "env \<Rightarrow> env" where
  "add_rx_dropped e = e\<lparr>e_stats := (e_stats e)\<lparr>rx_dropped := rx_dropped (e_stats e) + 1\<rparr>\<rparr>"

section \<open>Queue selection\<close>

definition fnv1a_mix :: "byte list \<Rightarrow> u64 \<Rightarrow> u64" where
  "fnv1a_mix d h = fold (\<lambda>b h. (h XOR ucast b) * fnv_prime) d h"

definition pick_tx_queue :: "packet_buffer \<Rightarrow> nat \<Rightarrow> nat" where
  "pick_tx_queue buf queue_count =
     (if queue_count \<le> 1 then 0
      else let p = pb_bytes buf; len = pb_data_size buf in
      if len < 20 then 0
      else if drop_bit 4 (p ! 0) = 4 then
        let ihl = unat (p ! 0 AND 0x0f) * 4;
            total = unat (be16 (p ! 2) (p ! 3));
            proto = p ! 9;
            h = fnv1a_mix (subl 12 4 p) fnv_basis;
            h = fnv1a_mix (subl 16 4 p) h;
            h = fnv1a_mix (subl 9 1 p) h;
            h = (if ihl \<ge> 20 \<and> total \<ge> ihl \<and> len \<ge> total \<and> (proto = 6 \<or> proto = 17) \<and> total - ihl \<ge> 4
                 then fnv1a_mix (subl ihl 4 p) h else h)
        in unat h mod queue_count
      else if drop_bit 4 (p ! 0) = 6 then
        if len < 40 then 0
        else let total = 40 + unat (be16 (p ! 4) (p ! 5));
            proto = p ! 6;
            h = fnv1a_mix (subl 8 16 p) fnv_basis;
            h = fnv1a_mix (subl 24 16 p) h;
            h = fnv1a_mix (subl 6 1 p) h;
            h = (if total \<ge> 40 \<and> len \<ge> total \<and> (proto = 6 \<or> proto = 17) \<and> total - 40 \<ge> 4
                 then fnv1a_mix (subl 40 4 p) h else h)
        in unat h mod queue_count
      else 0)"

section \<open>The writer\<close>

definition k_write_retry_limit :: nat where "k_write_retry_limit = 4096"
definition k_queue_max_entries :: nat where "k_queue_max_entries = 16384"
definition k_pool_max :: nat where "k_pool_max = 64"

definition tun_queue_writer_new :: "nat \<Rightarrow> tun_queue_writer" where
  "tun_queue_writer_new queue_count =
     \<lparr>qw_queue_count = queue_count,
      qw_states = replicate (max 1 queue_count) \<lparr>qs_queue = [], qs_current = None\<rparr>,
      qw_pool = [], qw_queued_total = 0, qw_cancelled = False, qw_ip_id = 0\<rparr>"

text \<open>\<open>acquire\<close> drops pooled buffers from the back until one fits.\<close>

fun pool_take :: "nat \<Rightarrow> nat \<Rightarrow> packet_buffer list \<Rightarrow> packet_buffer option \<times> packet_buffer list" where
  "pool_take capacity headroom [] = (None, [])"
| "pool_take capacity headroom (b # rest) =
     (if pb_capacity b \<ge> capacity \<and> pb_headroom b = headroom then (Some b, rest)
      else pool_take capacity headroom rest)"

definition acquire :: "nat \<Rightarrow> nat \<Rightarrow> env \<Rightarrow> (cpp_exception + packet_buffer) \<times> env" where
  "acquire capacity headroom e =
     (let w = e_writer e; (found, rest) = pool_take capacity headroom (rev (qw_pool w));
          e' = e\<lparr>e_writer := w\<lparr>qw_pool := rev rest\<rparr>\<rparr>
      in case found of
           Some b \<Rightarrow> (Inr b, e')
         | None \<Rightarrow> (packet_buffer_new (e_mem e) capacity headroom, e'))"

definition recycle :: "packet_buffer \<Rightarrow> env \<Rightarrow> env" where
  "recycle buf e =
     (let w = e_writer e; buf = pb_reset buf in
      if length (qw_pool w) < k_pool_max
      then e\<lparr>e_writer := w\<lparr>qw_pool := qw_pool w @ [buf]\<rparr>\<rparr> else e)"

definition alloc_ip_id :: "env \<Rightarrow> u16 \<times> env" where
  "alloc_ip_id e =
     (let w = e_writer e; i = qw_ip_id w + 1 in (i, e\<lparr>e_writer := w\<lparr>qw_ip_id := i\<rparr>\<rparr>))"

definition is_transient_write_error :: "error_code \<Rightarrow> bool" where
  "is_transient_write_error ec \<longleftrightarrow> ec = EC_no_buffer_space \<or> ec = EC_try_again"

definition lane :: "nat \<Rightarrow> env \<Rightarrow> queue_state" where
  "lane q e = qw_states (e_writer e) ! q"

definition set_lane :: "nat \<Rightarrow> queue_state \<Rightarrow> env \<Rightarrow> env" where
  "set_lane q st e = e\<lparr>e_writer := (e_writer e)\<lparr>qw_states := (qw_states (e_writer e))[q := st]\<rparr>\<rparr>"

definition set_queued_total :: "nat \<Rightarrow> env \<Rightarrow> env" where
  "set_queued_total n e = e\<lparr>e_writer := (e_writer e)\<lparr>qw_queued_total := n\<rparr>\<rparr>"

text \<open>\<open>start_write\<close> hands the current entry to \<^verbatim>\<open>async_write_packet\<close> of the device.\<close>

definition start_write :: "nat \<Rightarrow> env \<Rightarrow> env" where
  "start_write q e =
     (case qs_current (lane q e) of
        None \<Rightarrow> e
      | Some cur \<Rightarrow> e\<lparr>e_dev_writes := e_dev_writes e @ [(we_queue cur, pb_bytes (we_buf cur))]\<rparr>)"

definition pump :: "nat \<Rightarrow> env \<Rightarrow> env" where
  "pump q e =
     (let st = lane q e in
      case (qs_current st, qs_queue st) of
        (None, x # xs) \<Rightarrow>
          if qw_cancelled (e_writer e) then e
          else start_write q (set_queued_total (size_sub (qw_queued_total (e_writer e)) 1)
                 (set_lane q (st\<lparr>qs_current := Some x, qs_queue := xs\<rparr>) e))
      | _ \<Rightarrow> e)"

definition enqueue :: "packet_buffer \<Rightarrow> write_cb option \<Rightarrow> env \<Rightarrow> env" where
  "enqueue buf h e =
     (let q = pick_tx_queue buf (qw_queue_count (e_writer e)); st = lane q e;
          x = \<lparr>we_buf = buf, we_handler = h, we_queue = q, we_retries_left = k_write_retry_limit\<rparr>
      in pump q (set_queued_total (qw_queued_total (e_writer e) + 1)
           (set_lane q (st\<lparr>qs_queue := qs_queue st @ [x]\<rparr>) e)))"

definition async_write_and_forget :: "packet_buffer \<Rightarrow> env \<Rightarrow> env" where
  "async_write_and_forget buf e =
     (if qw_cancelled (e_writer e) \<or> qw_queued_total (e_writer e) \<ge> k_queue_max_entries
      then add_tx_dropped e else enqueue buf None e)"

definition async_write :: "packet_buffer \<Rightarrow> write_cb \<Rightarrow> env \<Rightarrow> env" where
  "async_write buf h e =
     (if qw_cancelled (e_writer e) \<or> qw_queued_total (e_writer e) \<ge> k_queue_max_entries
      then post_completion_on
             (Done_dev h (if qw_cancelled (e_writer e) then EC_operation_aborted else EC_no_buffer_space) 0)
             (add_tx_dropped e)
      else enqueue buf (Some h) e)"

definition post_dev :: "write_cb option \<Rightarrow> error_code \<Rightarrow> nat \<Rightarrow> env \<Rightarrow> env" where
  "post_dev h ec n e = (case h of None \<Rightarrow> e | Some h \<Rightarrow> post_completion_on (Done_dev h ec n) e)"

text \<open>The completion of a device write on chain \<open>q\<close>.\<close>

definition on_write_done :: "error_code \<Rightarrow> nat \<Rightarrow> nat \<Rightarrow> env \<Rightarrow> env" where
  "on_write_done ec n q e =
     (let st = lane q e in
      case qs_current st of
        None \<Rightarrow> e
      | Some cur \<Rightarrow>
          if \<not> qw_cancelled (e_writer e) \<and> is_transient_write_error ec \<and> we_retries_left cur > 0
          then start_write q
                 (set_lane q (st\<lparr>qs_current := Some (cur\<lparr>we_retries_left := we_retries_left cur - 1\<rparr>)\<rparr>) e)
          else
            let e = (if ec \<noteq> EC_ok then add_tx_dropped e else add_tx_packets e);
                e = (if qw_cancelled (e_writer e)
                     then post_dev (we_handler cur) EC_operation_aborted 0 e
                     else post_dev (we_handler cur) ec n e);
                e = recycle (we_buf cur) e;
                e = set_lane q (st\<lparr>qs_current := None\<rparr>) e
            in pump q e)"

fun cancel_entries :: "wq_entry list \<Rightarrow> env \<Rightarrow> env" where
  "cancel_entries [] e = e"
| "cancel_entries (x # xs) e =
     cancel_entries xs
       (post_dev (we_handler x) EC_operation_aborted 0
         (recycle (we_buf x)
           (add_tx_dropped
             (set_queued_total (size_sub (qw_queued_total (e_writer e)) 1) e))))"

fun cancel_lanes :: "nat list \<Rightarrow> env \<Rightarrow> env" where
  "cancel_lanes [] e = e"
| "cancel_lanes (q # qs) e =
     (let st = lane q e in
      cancel_lanes qs (cancel_entries (qs_queue st) (set_lane q (st\<lparr>qs_queue := []\<rparr>) e)))"

definition cancel_all :: "env \<Rightarrow> env" where
  "cancel_all e =
     (let e = e\<lparr>e_writer := (e_writer e)\<lparr>qw_cancelled := True\<rparr>\<rparr>
      in cancel_lanes [0..<length (qw_states (e_writer e))] e)"

section \<open>Write chains as FIFO queues\<close>

text \<open>\<open>lane_entries q e\<close> is chain \<open>q\<close> as the device sees it: the write in flight, then the waiting ones.\<close>

definition n_lanes :: "env \<Rightarrow> nat" where
  "n_lanes e = length (qw_states (e_writer e))"

definition st_entries :: "queue_state \<Rightarrow> wq_entry list" where
  "st_entries st = (case qs_current st of None \<Rightarrow> [] | Some x \<Rightarrow> [x]) @ qs_queue st"

definition lane_entries :: "nat \<Rightarrow> env \<Rightarrow> wq_entry list" where
  "lane_entries q e = st_entries (lane q e)"

definition pending_writes :: "env \<Rightarrow> nat" where
  "pending_writes e = (\<Sum>q<n_lanes e. length (lane_entries q e))"

definition waiting_writes :: "env \<Rightarrow> nat" where
  "waiting_writes e = (\<Sum>q<n_lanes e. length (qs_queue (lane q e)))"

lemma lane_set_lane [simp]:
  "lane q' (set_lane q st e) = (if q' = q \<and> q < n_lanes e then st else lane q' e)"
  by (cases "q < n_lanes e") (auto simp: lane_def set_lane_def n_lanes_def nth_list_update list_update_beyond)

lemma lane_frames [simp]:
  "lane q (set_queued_total n e) = lane q e" "lane q (add_tx_dropped e) = lane q e"
  "lane q (add_tx_packets e) = lane q e" "lane q (post_completion_on c e) = lane q e"
  "lane q (recycle b e) = lane q e" "lane q (start_write q' e) = lane q e" "lane q (post_dev h ec n e) = lane q e"
  by (auto simp: lane_def set_queued_total_def add_tx_dropped_def add_tx_packets_def
      post_completion_on_def recycle_def start_write_def post_dev_def Let_def split: option.splits)

lemma n_lanes_frames [simp]:
  "n_lanes (set_lane q st e) = n_lanes e" "n_lanes (set_queued_total n e) = n_lanes e"
  "n_lanes (add_tx_dropped e) = n_lanes e" "n_lanes (add_tx_packets e) = n_lanes e"
  "n_lanes (post_completion_on c e) = n_lanes e" "n_lanes (recycle b e) = n_lanes e"
  "n_lanes (start_write q' e) = n_lanes e" "n_lanes (post_dev h ec n e) = n_lanes e"
  by (auto simp: n_lanes_def set_lane_def set_queued_total_def add_tx_dropped_def add_tx_packets_def
      post_completion_on_def recycle_def start_write_def post_dev_def Let_def split: option.splits)

lemma writer_flag_frames [simp]:
  "qw_cancelled (e_writer (set_lane q st e)) = qw_cancelled (e_writer e)"
  "qw_cancelled (e_writer (set_queued_total n e)) = qw_cancelled (e_writer e)"
  "qw_cancelled (e_writer (add_tx_dropped e)) = qw_cancelled (e_writer e)"
  "qw_cancelled (e_writer (add_tx_packets e)) = qw_cancelled (e_writer e)"
  "qw_cancelled (e_writer (post_dev h ec n e)) = qw_cancelled (e_writer e)"
  "qw_cancelled (e_writer (recycle b e)) = qw_cancelled (e_writer e)"
  "qw_cancelled (e_writer (start_write q e)) = qw_cancelled (e_writer e)"
  "qw_cancelled (e_writer (post_completion_on c e)) = qw_cancelled (e_writer e)"
  by (auto simp: set_lane_def set_queued_total_def add_tx_dropped_def add_tx_packets_def
      post_completion_on_def recycle_def start_write_def post_dev_def Let_def split: option.splits)

lemma writer_total_frames [simp]:
  "qw_queued_total (e_writer (set_lane q st e)) = qw_queued_total (e_writer e)"
  "qw_queued_total (e_writer (set_queued_total n e)) = n"
  "qw_queued_total (e_writer (add_tx_dropped e)) = qw_queued_total (e_writer e)"
  "qw_queued_total (e_writer (add_tx_packets e)) = qw_queued_total (e_writer e)"
  "qw_queued_total (e_writer (post_dev h ec n e)) = qw_queued_total (e_writer e)"
  "qw_queued_total (e_writer (recycle b e)) = qw_queued_total (e_writer e)"
  "qw_queued_total (e_writer (start_write q e)) = qw_queued_total (e_writer e)"
  "qw_queued_total (e_writer (post_completion_on c e)) = qw_queued_total (e_writer e)"
  by (auto simp: set_lane_def set_queued_total_def add_tx_dropped_def add_tx_packets_def
      post_completion_on_def recycle_def start_write_def post_dev_def Let_def split: option.splits)

lemma writer_count_frames [simp]:
  "qw_queue_count (e_writer (set_lane q st e)) = qw_queue_count (e_writer e)"
  "qw_queue_count (e_writer (set_queued_total n e)) = qw_queue_count (e_writer e)"
  "qw_queue_count (e_writer (add_tx_dropped e)) = qw_queue_count (e_writer e)"
  "qw_queue_count (e_writer (add_tx_packets e)) = qw_queue_count (e_writer e)"
  "qw_queue_count (e_writer (post_dev h ec n e)) = qw_queue_count (e_writer e)"
  "qw_queue_count (e_writer (recycle b e)) = qw_queue_count (e_writer e)"
  "qw_queue_count (e_writer (start_write q e)) = qw_queue_count (e_writer e)"
  "qw_queue_count (e_writer (post_completion_on c e)) = qw_queue_count (e_writer e)"
  by (auto simp: set_lane_def set_queued_total_def add_tx_dropped_def add_tx_packets_def
      post_completion_on_def recycle_def start_write_def post_dev_def Let_def split: option.splits)

lemma pool_frames [simp]:
  "qw_pool (e_writer (set_lane q st e)) = qw_pool (e_writer e)"
  "qw_pool (e_writer (set_queued_total n e)) = qw_pool (e_writer e)"
  "qw_pool (e_writer (add_tx_dropped e)) = qw_pool (e_writer e)"
  "qw_pool (e_writer (add_tx_packets e)) = qw_pool (e_writer e)"
  "qw_pool (e_writer (post_dev h ec n e)) = qw_pool (e_writer e)"
  "qw_pool (e_writer (start_write q e)) = qw_pool (e_writer e)"
  "qw_pool (e_writer (post_completion_on c e)) = qw_pool (e_writer e)"
  by (auto simp: set_lane_def set_queued_total_def add_tx_dropped_def add_tx_packets_def
      post_completion_on_def start_write_def post_dev_def Let_def split: option.splits)

definition handled :: "env \<Rightarrow> u64" where
  "handled e = tx_packets (e_stats e) + tx_dropped (e_stats e)"

lemma handled_frames [simp]:
  "handled (set_lane q st e) = handled e" "handled (set_queued_total n e) = handled e"
  "handled (add_tx_dropped e) = handled e + 1" "handled (add_tx_packets e) = handled e + 1"
  "handled (post_dev h ec n e) = handled e" "handled (recycle b e) = handled e"
  "handled (start_write q e) = handled e" "handled (post_completion_on c e) = handled e"
  by (auto simp: handled_def set_lane_def set_queued_total_def add_tx_dropped_def add_tx_packets_def
      post_completion_on_def recycle_def start_write_def post_dev_def Let_def split: option.splits)

lemma pump_lanes:
  assumes "q < n_lanes e"
  shows "lane_entries q' (pump q e) = lane_entries q' e" "n_lanes (pump q e) = n_lanes e"
    "handled (pump q e) = handled e" "qw_pool (e_writer (pump q e)) = qw_pool (e_writer e)"
    "qw_cancelled (e_writer (pump q e)) = qw_cancelled (e_writer e)"
    "qw_queue_count (e_writer (pump q e)) = qw_queue_count (e_writer e)"
  using assms
  by (auto simp: pump_def Let_def lane_entries_def st_entries_def split: option.splits list.splits)


lemma waiting_set_lane:
  assumes "q < n_lanes e"
  shows "waiting_writes (set_lane q st e) + length (qs_queue (lane q e))
       = waiting_writes e + length (qs_queue st)"
  using sum_one_changed [of q "n_lanes e" "\<lambda>q'. length (qs_queue (lane q' (set_lane q st e)))"
      "\<lambda>q'. length (qs_queue (lane q' e))"] assms
  by (simp add: waiting_writes_def)

lemma pending_set_lane:
  assumes "q < n_lanes e"
  shows "pending_writes (set_lane q st e) + length (st_entries (lane q e))
       = pending_writes e + length (st_entries st)"
  using sum_one_changed [of q "n_lanes e" "\<lambda>q'. length (lane_entries q' (set_lane q st e))"
      "\<lambda>q'. length (lane_entries q' e)"] assms
  by (simp add: pending_writes_def lane_entries_def)

lemma count_frames [simp]:
  "waiting_writes (set_queued_total n e) = waiting_writes e" "pending_writes (set_queued_total n e) = pending_writes e"
  "waiting_writes (add_tx_dropped e) = waiting_writes e" "pending_writes (add_tx_dropped e) = pending_writes e"
  "waiting_writes (add_tx_packets e) = waiting_writes e" "pending_writes (add_tx_packets e) = pending_writes e"
  "waiting_writes (post_dev h ec k e) = waiting_writes e" "pending_writes (post_dev h ec k e) = pending_writes e"
  "waiting_writes (post_completion_on c e) = waiting_writes e" "pending_writes (post_completion_on c e) = pending_writes e"
  "waiting_writes (recycle b e) = waiting_writes e" "pending_writes (recycle b e) = pending_writes e"
  "waiting_writes (start_write q e) = waiting_writes e" "pending_writes (start_write q e) = pending_writes e"
  by (simp_all add: waiting_writes_def pending_writes_def lane_entries_def)

lemma waiting_ge: "q < n_lanes e \<Longrightarrow> length (qs_queue (lane q e)) \<le> waiting_writes e"
  unfolding waiting_writes_def by (rule member_le_sum) auto

lemma pump_pending [simp]: "q < n_lanes e \<Longrightarrow> pending_writes (pump q e) = pending_writes e"
  by (simp add: pending_writes_def pump_lanes)

section \<open>The writer invariant\<close>

definition lane_wf :: "bool \<Rightarrow> nat \<Rightarrow> queue_state \<Rightarrow> bool" where
  "lane_wf cancelled q st \<longleftrightarrow>
     (qs_current st = None \<longrightarrow> qs_queue st = []) \<and> (cancelled \<longrightarrow> qs_queue st = []) \<and>
     (\<forall>x\<in>set (st_entries st). we_queue x = q \<and> we_retries_left x \<le> k_write_retry_limit)"

definition writer_shape :: "env \<Rightarrow> bool" where
  "writer_shape e \<longleftrightarrow> n_lanes e = max 1 (qw_queue_count (e_writer e)) \<and>
     qw_queued_total (e_writer e) = waiting_writes e \<and> waiting_writes e \<le> k_queue_max_entries \<and>
     length (qw_pool (e_writer e)) \<le> k_pool_max"

definition writer_inv :: "env \<Rightarrow> bool" where
  "writer_inv e \<longleftrightarrow> writer_shape e \<and>
     (\<forall>q<n_lanes e. lane_wf (qw_cancelled (e_writer e)) q (lane q e))"

lemma pick_tx_queue_less: "pick_tx_queue b n < max 1 n"
  by (auto simp: pick_tx_queue_def Let_def)

lemma pool_recycle [simp]:
  "length (qw_pool (e_writer e)) \<le> k_pool_max \<Longrightarrow> length (qw_pool (e_writer (recycle b e))) \<le> k_pool_max"
  by (auto simp: recycle_def Let_def)

lemma lane_pump:
  assumes "q < n_lanes e"
  shows "lane q' (pump q e) =
     (if q' = q \<and> qs_current (lane q e) = None \<and> qs_queue (lane q e) \<noteq> [] \<and> \<not> qw_cancelled (e_writer e)
      then (lane q e)\<lparr>qs_current := Some (hd (qs_queue (lane q e))), qs_queue := tl (qs_queue (lane q e))\<rparr>
      else lane q' e)"
  using assms by (auto simp: pump_def Let_def split: option.splits list.splits)

lemma waiting_take:
  assumes "q < n_lanes e" "qs_queue (lane q e) = x # xs"
  shows "Suc (waiting_writes (set_lane q ((lane q e)\<lparr>qs_current := Some x, qs_queue := xs\<rparr>) e)) = waiting_writes e"
  using waiting_set_lane [OF assms(1), of "(lane q e)\<lparr>qs_current := Some x, qs_queue := xs\<rparr>"] assms(2) by simp

lemma pump_total:
  assumes "q < n_lanes e" "qw_queued_total (e_writer e) = waiting_writes e"
  shows "qw_queued_total (e_writer (pump q e)) = waiting_writes (pump q e)"
  using assms(2) waiting_take [OF assms(1)]
  by (auto simp: pump_def Let_def split: option.splits list.splits)

lemma pump_waiting:
  assumes "q < n_lanes e"
  shows "waiting_writes (pump q e) =
     (if qs_current (lane q e) = None \<and> qs_queue (lane q e) \<noteq> [] \<and> \<not> qw_cancelled (e_writer e)
      then waiting_writes e - 1 else waiting_writes e)"
  using waiting_take [OF assms]
  by (auto simp: pump_def Let_def split: option.splits list.splits)

lemma enqueue_inv:
  assumes "writer_inv e" "\<not> qw_cancelled (e_writer e)" "qw_queued_total (e_writer e) < k_queue_max_entries"
  shows "writer_inv (enqueue b h e)"
proof -
  define q where "q = pick_tx_queue b (qw_queue_count (e_writer e))"
  define x where "x = \<lparr>we_buf = b, we_handler = h, we_queue = q, we_retries_left = k_write_retry_limit\<rparr>"
  define st where "st = (lane q e)\<lparr>qs_queue := qs_queue (lane q e) @ [x]\<rparr>"
  define e1 where "e1 = set_queued_total (qw_queued_total (e_writer e) + 1) (set_lane q st e)"
  have q: "q < n_lanes e" "q < n_lanes e1"
    using assms(1) pick_tx_queue_less by (auto simp: q_def e1_def writer_inv_def writer_shape_def)
  have w: "waiting_writes e1 = waiting_writes e + 1"
    using waiting_set_lane [OF q(1), of st] by (simp add: e1_def st_def)
  have t: "qw_queued_total (e_writer e1) = waiting_writes e1"
    using w assms(1) by (simp add: e1_def writer_inv_def writer_shape_def)
  have l: "lane q' e1 = (if q' = q then st else lane q' e)" for q'
    using q by (simp add: e1_def)
  have wf: "lane_wf False q' (lane q' e)" if "q' < n_lanes e" for q'
    using that assms by (simp add: writer_inv_def)
  have eq: "enqueue b h e = pump q e1"
    by (simp add: enqueue_def Let_def e1_def st_def x_def q_def)
  have "writer_shape (pump q e1)"
    using assms q w pump_total [OF q(2) t]
    by (auto simp: writer_shape_def writer_inv_def pump_lanes pump_waiting) (auto simp: e1_def)
  moreover have "lane_wf False q' (lane q' (pump q e1))" if "q' < n_lanes e" for q'
    using wf [OF that] q l that assms(2)
    by (auto simp: lane_pump l lane_wf_def st_def st_entries_def x_def e1_def hd_append
        split: option.splits if_splits)
  ultimately show ?thesis using assms(2) q by (simp add: eq writer_inv_def pump_lanes) (simp add: e1_def)
qed

text \<open>A completion that ends the write in flight, before the chain is pumped again.\<close>

definition finish_write :: "error_code \<Rightarrow> nat \<Rightarrow> nat \<Rightarrow> wq_entry \<Rightarrow> env \<Rightarrow> env" where
  "finish_write ec n q cur e =
     set_lane q ((lane q e)\<lparr>qs_current := None\<rparr>)
       (recycle (we_buf cur)
         ((if qw_cancelled (e_writer e) then post_dev (we_handler cur) EC_operation_aborted 0
           else post_dev (we_handler cur) ec n)
           (if ec \<noteq> EC_ok then add_tx_dropped e else add_tx_packets e)))"

lemma on_write_done_split:
  "on_write_done ec n q e =
     (case qs_current (lane q e) of
        None \<Rightarrow> e
      | Some cur \<Rightarrow>
          if \<not> qw_cancelled (e_writer e) \<and> is_transient_write_error ec \<and> we_retries_left cur > 0
          then start_write q (set_lane q ((lane q e)\<lparr>qs_current := Some (cur\<lparr>we_retries_left := we_retries_left cur - 1\<rparr>)\<rparr>) e)
          else pump q (finish_write ec n q cur e))"
  by (simp add: on_write_done_def finish_write_def Let_def split: option.splits)

lemma finish_write_frames [simp]:
  "n_lanes (finish_write ec n q cur e) = n_lanes e"
  "qw_cancelled (e_writer (finish_write ec n q cur e)) = qw_cancelled (e_writer e)"
  "qw_queue_count (e_writer (finish_write ec n q cur e)) = qw_queue_count (e_writer e)"
  "qw_queued_total (e_writer (finish_write ec n q cur e)) = qw_queued_total (e_writer e)"
  "handled (finish_write ec n q cur e) = handled e + 1"
  "q < n_lanes e \<Longrightarrow> lane q' (finish_write ec n q cur e) =
     (if q' = q then (lane q e)\<lparr>qs_current := None\<rparr> else lane q' e)"
  "length (qw_pool (e_writer e)) \<le> k_pool_max \<Longrightarrow>
     length (qw_pool (e_writer (finish_write ec n q cur e))) \<le> k_pool_max"
  by (simp_all add: finish_write_def)

lemma finish_write_counts:
  assumes "q < n_lanes e" "qs_current (lane q e) = Some cur"
  shows "waiting_writes (finish_write ec n q cur e) = waiting_writes e"
    and "Suc (pending_writes (finish_write ec n q cur e)) = pending_writes e"
proof -
  define e1 where "e1 = recycle (we_buf cur)
         ((if qw_cancelled (e_writer e) then post_dev (we_handler cur) EC_operation_aborted 0
           else post_dev (we_handler cur) ec n)
           (if ec \<noteq> EC_ok then add_tx_dropped e else add_tx_packets e))"
  have e1: "n_lanes e1 = n_lanes e" "lane q' e1 = lane q' e" "waiting_writes e1 = waiting_writes e"
    "pending_writes e1 = pending_writes e" for q'
    by (simp_all add: e1_def)
  have eq: "finish_write ec n q cur e = set_lane q ((lane q e)\<lparr>qs_current := None\<rparr>) e1"
    by (simp add: finish_write_def e1_def)
  show "waiting_writes (finish_write ec n q cur e) = waiting_writes e"
    using waiting_set_lane [of q e1 "(lane q e)\<lparr>qs_current := None\<rparr>"] assms e1 by (simp add: eq)
  show "Suc (pending_writes (finish_write ec n q cur e)) = pending_writes e"
    using pending_set_lane [of q e1 "(lane q e)\<lparr>qs_current := None\<rparr>"] assms e1
    by (simp add: eq st_entries_def)
qed

lemma on_write_done_inv:
  assumes "writer_inv e" "q < n_lanes e"
  shows "writer_inv (on_write_done ec n q e)"
proof (cases "qs_current (lane q e)")
  case None
  thus ?thesis using assms by (simp add: on_write_done_split)
next
  case (Some cur)
  let ?retry = "\<not> qw_cancelled (e_writer e) \<and> is_transient_write_error ec \<and> we_retries_left cur > 0"
  let ?e1 = "finish_write ec n q cur e"
  note c = finish_write_counts [OF assms(2) Some, of ec n]
  have t: "qw_queued_total (e_writer ?e1) = waiting_writes ?e1"
    using assms c by (simp add: writer_inv_def writer_shape_def)
  have wf: "lane_wf (qw_cancelled (e_writer e)) q' (lane q' e)" if "q' < n_lanes e" for q'
    using that assms by (simp add: writer_inv_def)
  have pumped: "writer_inv (pump q ?e1)"
  proof -
    have "writer_shape (pump q ?e1)"
      using assms pump_total [OF _ t, of q] c
      by (auto simp: writer_shape_def writer_inv_def pump_lanes pump_waiting)
    moreover have "lane_wf (qw_cancelled (e_writer e)) q' (lane q' (pump q ?e1))" if "q' < n_lanes e" for q'
      using wf [OF that] assms(2) that Some
      by (auto simp: lane_pump lane_wf_def st_entries_def list.set_sel split: option.splits if_splits)
    ultimately show ?thesis using assms by (simp add: writer_inv_def pump_lanes)
  qed
  define st where "st = (lane q e)\<lparr>qs_current := Some (cur\<lparr>we_retries_left := we_retries_left cur - 1\<rparr>)\<rparr>"
  have "waiting_writes (set_lane q st e) = waiting_writes e"
    using waiting_set_lane [OF assms(2), of st] by (simp add: st_def)
  moreover have "lane_wf (qw_cancelled (e_writer e)) q st"
    using wf [OF assms(2)] Some by (auto simp: lane_wf_def st_entries_def st_def)
  ultimately have "writer_inv (start_write q (set_lane q st e))"
    using assms by (simp add: writer_inv_def writer_shape_def)
  thus ?thesis using pumped Some by (simp add: on_write_done_split st_def)
qed

lemma cancel_entries_frames [simp]:
  "n_lanes (cancel_entries xs e) = n_lanes e" "lane q (cancel_entries xs e) = lane q e"
  "qw_cancelled (e_writer (cancel_entries xs e)) = qw_cancelled (e_writer e)"
  "qw_queue_count (e_writer (cancel_entries xs e)) = qw_queue_count (e_writer e)"
  "waiting_writes (cancel_entries xs e) = waiting_writes e"
  "pending_writes (cancel_entries xs e) = pending_writes e"
  "handled (cancel_entries xs e) = handled e + of_nat (length xs)"
  "length (qw_pool (e_writer e)) \<le> k_pool_max \<Longrightarrow> length (qw_pool (e_writer (cancel_entries xs e))) \<le> k_pool_max"
  by (induction xs arbitrary: e) (simp_all add: ac_simps)

lemma cancel_entries_total:
  "length xs \<le> qw_queued_total (e_writer e) \<Longrightarrow>
   qw_queued_total (e_writer (cancel_entries xs e)) = qw_queued_total (e_writer e) - length xs"
  by (induction xs arbitrary: e) simp_all

text \<open>Cancelling the chains \<open>qs\<close> empties their waiting lists, leaves the others, and accounts for every removed write.\<close>

definition clear_lane :: "nat \<Rightarrow> env \<Rightarrow> env" where
  "clear_lane q e = cancel_entries (qs_queue (lane q e)) (set_lane q ((lane q e)\<lparr>qs_queue := []\<rparr>) e)"

lemma cancel_lanes_Cons: "cancel_lanes (q # qs) e = cancel_lanes qs (clear_lane q e)"
  by (simp add: clear_lane_def Let_def)

lemma clear_lane:
  assumes "q < n_lanes e"
  shows "n_lanes (clear_lane q e) = n_lanes e"
    and "lane q' (clear_lane q e) = (if q' = q then (lane q e)\<lparr>qs_queue := []\<rparr> else lane q' e)"
    and "qw_cancelled (e_writer (clear_lane q e)) = qw_cancelled (e_writer e)"
    and "qw_queue_count (e_writer (clear_lane q e)) = qw_queue_count (e_writer e)"
    and "handled (clear_lane q e) + of_nat (pending_writes (clear_lane q e)) = handled e + of_nat (pending_writes e)"
    and "qw_queued_total (e_writer e) = waiting_writes e \<Longrightarrow>
         qw_queued_total (e_writer (clear_lane q e)) = waiting_writes (clear_lane q e)"
    and "waiting_writes (clear_lane q e) \<le> waiting_writes e"
    and "length (qw_pool (e_writer e)) \<le> k_pool_max \<Longrightarrow> length (qw_pool (e_writer (clear_lane q e))) \<le> k_pool_max"
proof -
  define st where "st = (lane q e)\<lparr>qs_queue := []\<rparr>"
  have eq: "clear_lane q e = cancel_entries (qs_queue (lane q e)) (set_lane q st e)"
    by (simp add: clear_lane_def st_def)
  have w: "waiting_writes (set_lane q st e) + length (qs_queue (lane q e)) = waiting_writes e"
    using waiting_set_lane [OF assms, of st] by (simp add: st_def)
  have p: "pending_writes e = pending_writes (set_lane q st e) + length (qs_queue (lane q e))"
    using pending_set_lane [OF assms, of st] by (simp add: st_def st_entries_def split: option.splits)
  show "n_lanes (clear_lane q e) = n_lanes e"
    "lane q' (clear_lane q e) = (if q' = q then (lane q e)\<lparr>qs_queue := []\<rparr> else lane q' e)"
    "qw_cancelled (e_writer (clear_lane q e)) = qw_cancelled (e_writer e)"
    "qw_queue_count (e_writer (clear_lane q e)) = qw_queue_count (e_writer e)"
    using assms by (simp_all add: eq st_def)
  show "handled (clear_lane q e) + of_nat (pending_writes (clear_lane q e)) = handled e + of_nat (pending_writes e)"
    unfolding p by (simp add: eq ac_simps)
  show "waiting_writes (clear_lane q e) \<le> waiting_writes e" using w by (simp add: eq)
  show "qw_queued_total (e_writer (clear_lane q e)) = waiting_writes (clear_lane q e)"
    if "qw_queued_total (e_writer e) = waiting_writes e"
    using w that by (simp add: eq cancel_entries_total)
  show "length (qw_pool (e_writer (clear_lane q e))) \<le> k_pool_max" if "length (qw_pool (e_writer e)) \<le> k_pool_max"
    using that by (simp add: eq)
qed

lemma cancel_lanes:
  assumes "\<forall>q\<in>set qs. q < n_lanes e" "writer_shape e"
  shows "writer_shape (cancel_lanes qs e) \<and> n_lanes (cancel_lanes qs e) = n_lanes e \<and>
     (\<forall>q. lane q (cancel_lanes qs e) = (if q \<in> set qs then (lane q e)\<lparr>qs_queue := []\<rparr> else lane q e)) \<and>
     qw_cancelled (e_writer (cancel_lanes qs e)) = qw_cancelled (e_writer e) \<and>
     handled (cancel_lanes qs e) + of_nat (pending_writes (cancel_lanes qs e)) = handled e + of_nat (pending_writes e)"
  using assms
proof (induction qs arbitrary: e)
  case (Cons q qs)
  have q: "q < n_lanes e" using Cons.prems by simp
  note c = clear_lane [OF q]
  have "writer_shape (clear_lane q e)"
    using Cons.prems(2) c(1) c(4) c(6) c(7) c(8) by (simp add: writer_shape_def)
  moreover have "\<forall>x\<in>set qs. x < n_lanes (clear_lane q e)" using Cons.prems c by simp
  ultimately show ?case
    using Cons.IH [of "clear_lane q e"] c(1,2,3,5) unfolding cancel_lanes_Cons by auto
qed simp

lemma cancel_all_effect:
  assumes "writer_inv e"
  shows "writer_inv (cancel_all e)" "n_lanes (cancel_all e) = n_lanes e"
    "handled (cancel_all e) + of_nat (pending_writes (cancel_all e)) = handled e + of_nat (pending_writes e)"
    "qw_cancelled (e_writer (cancel_all e))"
proof -
  define e1 where "e1 = e\<lparr>e_writer := (e_writer e)\<lparr>qw_cancelled := True\<rparr>\<rparr>"
  have l: "n_lanes e1 = n_lanes e" "lane q e1 = lane q e" for q
    by (simp_all add: e1_def n_lanes_def lane_def)
  hence f: "writer_shape e1 = writer_shape e" "handled e1 = handled e" "pending_writes e1 = pending_writes e"
    "qw_cancelled (e_writer e1)"
    by (simp_all add: writer_shape_def waiting_writes_def pending_writes_def lane_entries_def handled_def e1_def n_lanes_def)
  have c: "cancel_all e = cancel_lanes [0..<n_lanes e1] e1"
    by (simp add: cancel_all_def e1_def n_lanes_def)
  have wf: "lane_wf (qw_cancelled (e_writer e)) q (lane q e)" if "q < n_lanes e" for q
    using that assms by (simp add: writer_inv_def)
  have "writer_shape e1" using assms f by (simp add: writer_inv_def)
  note r = cancel_lanes [of "[0..<n_lanes e1]" e1, OF _ this]
  have "lane_wf True q (lane q (cancel_all e))" if "q < n_lanes e" for q
    using wf [OF that] r that l by (auto simp: c lane_wf_def st_entries_def split: option.splits)
  thus "writer_inv (cancel_all e)" using r l f(4) by (simp add: c writer_inv_def)
  show "n_lanes (cancel_all e) = n_lanes e" "qw_cancelled (e_writer (cancel_all e))"
    "handled (cancel_all e) + of_nat (pending_writes (cancel_all e)) = handled e + of_nat (pending_writes e)"
    using r l f by (simp_all add: c)
qed

section \<open>Runs of the writer\<close>

text \<open>What can happen to a writer: a submission with or without handler, the completion of the
  write in flight on a queue, a buffer request, and the final cancellation.\<close>

datatype writer_event =
    Submit packet_buffer "write_cb option"
  | Dev_done error_code nat nat
  | Acquire_buf nat nat
  | Cancel_writes

fun writer_step :: "writer_event \<Rightarrow> env \<Rightarrow> env" where
  "writer_step (Submit b None) e = async_write_and_forget b e"
| "writer_step (Submit b (Some h)) e = async_write b h e"
| "writer_step (Dev_done ec n q) e = (if q < n_lanes e then on_write_done ec n q e else e)"
| "writer_step (Acquire_buf cap hr) e = snd (acquire cap hr e)"
| "writer_step Cancel_writes e = cancel_all e"

definition writer_run :: "writer_event list \<Rightarrow> env \<Rightarrow> env" where
  "writer_run evs e = fold writer_step evs e"

fun is_submit :: "writer_event \<Rightarrow> bool" where
  "is_submit (Submit b h) = True"
| "is_submit _ = False"

lemma pool_take_length: "pool_take c h xs = (r, ys) \<Longrightarrow> length ys \<le> length xs"
  by (induction xs) (auto split: if_splits)

lemma acquire_frames [simp]:
  "lane q (snd (acquire c h e)) = lane q e" "n_lanes (snd (acquire c h e)) = n_lanes e"
  "qw_cancelled (e_writer (snd (acquire c h e))) = qw_cancelled (e_writer e)"
  "qw_queue_count (e_writer (snd (acquire c h e))) = qw_queue_count (e_writer e)"
  "qw_queued_total (e_writer (snd (acquire c h e))) = qw_queued_total (e_writer e)"
  "e_stats (snd (acquire c h e)) = e_stats e" "e_account (snd (acquire c h e)) = e_account e"
  "e_posted (snd (acquire c h e)) = e_posted e" "e_dev_writes (snd (acquire c h e)) = e_dev_writes e"
  "e_now (snd (acquire c h e)) = e_now e" "e_mem (snd (acquire c h e)) = e_mem e"
  by (auto simp: acquire_def Let_def lane_def n_lanes_def split: prod.splits option.splits)

lemma acquire_pool: "length (qw_pool (e_writer (snd (acquire c h e)))) \<le> length (qw_pool (e_writer e))"
  using pool_take_length [of c h "rev (qw_pool (e_writer e))"]
  by (auto simp: acquire_def Let_def split: prod.splits option.splits)

lemma async_write_inv [inv_intros]:
  assumes "writer_inv e"
  shows "writer_inv (async_write b h e)" "writer_inv (async_write_and_forget b e)"
  using assms enqueue_inv [OF assms]
  by (auto simp: async_write_def async_write_and_forget_def writer_inv_def writer_shape_def)

lemma writer_step_inv: "writer_inv e \<Longrightarrow> writer_inv (writer_step ev e)"
proof (induction ev e rule: writer_step.induct)
  case (4 cap hr e)
  thus ?case using acquire_pool [of cap hr e]
    by (auto simp: writer_inv_def writer_shape_def waiting_writes_def)
qed (auto simp: async_write_inv on_write_done_inv cancel_all_effect)

lemma writer_run_inv: "writer_inv e \<Longrightarrow> writer_inv (writer_run evs e)"
  by (induction evs arbitrary: e) (simp_all add: writer_run_def writer_step_inv)

lemma fresh_writer_inv: "e_writer e = tun_queue_writer_new n \<Longrightarrow> writer_inv e \<and> pending_writes e = 0"
  by (simp add: writer_inv_def writer_shape_def n_lanes_def lane_def waiting_writes_def lane_wf_def
      pending_writes_def lane_entries_def st_entries_def tun_queue_writer_new_def)

lemma enqueue_counts:
  assumes "writer_inv e"
  shows "pending_writes (enqueue b h e) = pending_writes e + 1" "handled (enqueue b h e) = handled e"
proof -
  define q where "q = pick_tx_queue b (qw_queue_count (e_writer e))"
  have q: "q < n_lanes e"
    using assms pick_tx_queue_less by (simp add: q_def writer_inv_def writer_shape_def)
  show "pending_writes (enqueue b h e) = pending_writes e + 1" "handled (enqueue b h e) = handled e"
    using q pending_set_lane [OF q, of "(lane q e)\<lparr>qs_queue := qs_queue (lane q e) @
        [\<lparr>we_buf = b, we_handler = h, we_queue = q, we_retries_left = k_write_retry_limit\<rparr>]\<rparr>"]
    by (simp_all add: enqueue_def Let_def flip: q_def) (simp_all add: pump_lanes st_entries_def)
qed

lemma on_write_done_counts:
  assumes "q < n_lanes e"
  shows "handled (on_write_done ec n q e) + of_nat (pending_writes (on_write_done ec n q e))
       = handled e + of_nat (pending_writes e)"
proof (cases "qs_current (lane q e)")
  case (Some cur)
  define st where "st = (lane q e)\<lparr>qs_current := Some (cur\<lparr>we_retries_left := we_retries_left cur - Suc 0\<rparr>)\<rparr>"
  have "pending_writes (set_lane q st e) = pending_writes e"
    using pending_set_lane [OF assms, of st] Some by (simp add: st_def st_entries_def)
  moreover have "handled (finish_write ec n q cur e) + of_nat (pending_writes (finish_write ec n q cur e))
       = handled e + of_nat (pending_writes e)"
    unfolding finish_write_counts(2) [OF assms Some, of ec n, symmetric] by simp
  ultimately show ?thesis using assms Some
    by (simp add: on_write_done_split pump_lanes flip: st_def)
qed (simp add: on_write_done_split)

lemma writer_step_counts:
  assumes "writer_inv e"
  shows "handled (writer_step ev e) + of_nat (pending_writes (writer_step ev e))
       = handled e + of_nat (pending_writes e) + (if is_submit ev then 1 else 0)"
proof (cases ev)
  case (Submit b h)
  thus ?thesis using enqueue_counts [OF assms]
    by (cases h) (simp_all add: async_write_def async_write_and_forget_def)
next
  case (Acquire_buf c h)
  thus ?thesis
    by (simp add: handled_def pending_writes_def lane_entries_def)
qed (simp_all add: on_write_done_counts cancel_all_effect assms)

text \<open>
  C4. The writer never leaves its invariant: starting from a fresh writer, any sequence of
  submissions, device completions (including transient errors and retries), buffer requests and
  cancellation keeps one chain per device queue, no more than 16384 waiting writes, exactly counted
  by \<open>queued_total\<close>, at most 64 pooled buffers, no idle chain with waiting writes (the pump never
  stalls), and no waiting write after cancellation.
\<close>

theorem writer_invariant_reachable:
  assumes "e_writer e = tun_queue_writer_new n"
  shows "writer_inv (writer_run evs e)"
  using assms fresh_writer_inv writer_run_inv by blast

text \<open>
  C5. No packet is lost or counted twice: from a fresh writer, after any sequence of events, every
  submitted packet is either still in a chain or has been counted exactly once as transmitted or
  dropped (the counters are 64 bit, so this is an equation between words).
\<close>

theorem writer_conserves_packets:
  assumes "e_writer e = tun_queue_writer_new n"
  shows "handled (writer_run evs e) + of_nat (pending_writes (writer_run evs e))
       = handled e + of_nat (length (filter is_submit evs))"
proof -
  have "handled (writer_run evs e) + of_nat (pending_writes (writer_run evs e))
       = handled e + of_nat (pending_writes e) + of_nat (length (filter is_submit evs))"
    if "writer_inv e" for e
    using that
  proof (induction evs arbitrary: e)
    case (Cons ev evs)
    thus ?case using writer_step_counts [OF Cons.prems, of ev] writer_step_inv [OF Cons.prems, of ev]
      by (simp add: writer_run_def ac_simps)
  qed (simp add: writer_run_def)
  thus ?thesis using fresh_writer_inv [OF assms] by simp
qed

section \<open>Order of transmission\<close>

definition dev_writes :: "nat \<Rightarrow> env \<Rightarrow> byte list list" where
  "dev_writes q e = map snd (filter (\<lambda>w. fst w = q) (e_dev_writes e))"

definition waiting_bytes :: "nat \<Rightarrow> env \<Rightarrow> byte list list" where
  "waiting_bytes q e = map (\<lambda>x. pb_bytes (we_buf x)) (qs_queue (lane q e))"

fun accepted_bytes :: "nat \<Rightarrow> writer_event \<Rightarrow> env \<Rightarrow> byte list list" where
  "accepted_bytes q (Submit b h) e =
     (if \<not> qw_cancelled (e_writer e) \<and> qw_queued_total (e_writer e) < k_queue_max_entries \<and>
         pick_tx_queue b (qw_queue_count (e_writer e)) = q
      then [pb_bytes b] else [])"
| "accepted_bytes q _ e = []"

fun smooth_event :: "writer_event \<Rightarrow> bool" where
  "smooth_event (Dev_done ec n q) = (\<not> is_transient_write_error ec)"
| "smooth_event Cancel_writes = False"
| "smooth_event _ = True"

lemma dev_writes_frames [simp]:
  "dev_writes q (set_lane q' st e) = dev_writes q e" "dev_writes q (set_queued_total n e) = dev_writes q e"
  "dev_writes q (add_tx_dropped e) = dev_writes q e" "dev_writes q (add_tx_packets e) = dev_writes q e"
  "dev_writes q (post_completion_on c e) = dev_writes q e" "dev_writes q (recycle b e) = dev_writes q e"
  "dev_writes q (post_dev h ec n e) = dev_writes q e"
  "dev_writes q (start_write q' e) = dev_writes q e @
     (case qs_current (lane q' e) of None \<Rightarrow> [] | Some x \<Rightarrow> if we_queue x = q then [pb_bytes (we_buf x)] else [])"
  by (auto simp: dev_writes_def set_lane_def set_queued_total_def add_tx_dropped_def add_tx_packets_def
      post_completion_on_def recycle_def start_write_def post_dev_def Let_def split: option.splits)

lemma pump_order:
  assumes "q < n_lanes e" "\<forall>x\<in>set (qs_queue (lane q e)). we_queue x = q"
  shows "dev_writes q' (pump q e) @ waiting_bytes q' (pump q e) = dev_writes q' e @ waiting_bytes q' e"
  using assms by (auto simp: pump_def Let_def waiting_bytes_def split: option.splits list.splits)

lemma writer_inv_lane: "writer_inv e \<Longrightarrow> q < n_lanes e \<Longrightarrow> x \<in> set (qs_queue (lane q e)) \<Longrightarrow> we_queue x = q"
  by (auto simp: writer_inv_def lane_wf_def st_entries_def)

lemma enqueue_order:
  assumes "writer_inv e" "q = pick_tx_queue b (qw_queue_count (e_writer e))"
  shows "dev_writes q' (enqueue b h e) @ waiting_bytes q' (enqueue b h e)
       = dev_writes q' e @ waiting_bytes q' e @ (if q' = q then [pb_bytes b] else [])"
proof -
  define x where "x = \<lparr>we_buf = b, we_handler = h, we_queue = q, we_retries_left = k_write_retry_limit\<rparr>"
  define e1 where "e1 = set_queued_total (qw_queued_total (e_writer e) + 1)
     (set_lane q ((lane q e)\<lparr>qs_queue := qs_queue (lane q e) @ [x]\<rparr>) e)"
  have q: "q < n_lanes e"
    using assms pick_tx_queue_less by (simp add: writer_inv_def writer_shape_def)
  have "dev_writes q' (pump q e1) @ waiting_bytes q' (pump q e1) = dev_writes q' e1 @ waiting_bytes q' e1"
    by (rule pump_order) (use q writer_inv_lane [OF assms(1) q] in \<open>auto simp: e1_def x_def\<close>)
  moreover have "enqueue b h e = pump q e1"
    by (simp add: enqueue_def Let_def e1_def x_def assms(2))
  ultimately show ?thesis using q by (simp add: e1_def waiting_bytes_def x_def)
qed

lemma on_write_done_order:
  assumes "writer_inv e" "q < n_lanes e" "\<not> is_transient_write_error ec"
  shows "dev_writes q' (on_write_done ec n q e) @ waiting_bytes q' (on_write_done ec n q e)
       = dev_writes q' e @ waiting_bytes q' e"
proof (cases "qs_current (lane q e)")
  case (Some cur)
  have "dev_writes q' (pump q (finish_write ec n q cur e)) @ waiting_bytes q' (pump q (finish_write ec n q cur e))
      = dev_writes q' (finish_write ec n q cur e) @ waiting_bytes q' (finish_write ec n q cur e)"
    by (rule pump_order) (use assms writer_inv_lane [OF assms(1,2)] in auto)
  also have "\<dots> = dev_writes q' e @ waiting_bytes q' e"
    using assms(2) by (simp add: waiting_bytes_def) (simp add: finish_write_def)
  finally show ?thesis using Some assms(3) by (simp add: on_write_done_split)
qed (simp add: on_write_done_split)

lemma writer_step_order:
  assumes "writer_inv e" "smooth_event ev"
  shows "dev_writes q (writer_step ev e) @ waiting_bytes q (writer_step ev e)
       = dev_writes q e @ waiting_bytes q e @ accepted_bytes q ev e"
proof (cases ev)
  case (Submit b h)
  thus ?thesis using enqueue_order [OF assms(1) refl, of q b]
    by (cases h) (auto simp: async_write_def async_write_and_forget_def waiting_bytes_def)
next
  case (Acquire_buf c h)
  thus ?thesis by (simp add: waiting_bytes_def dev_writes_def)
qed (use assms in \<open>simp_all add: on_write_done_order\<close>)

interpretation tx_chain: in_order_channel writer_inv writer_step smooth_event
    "accepted_bytes q" "dev_writes q" "waiting_bytes q" for q
  by unfold_locales (simp_all add: writer_step_inv writer_step_order)

text \<open>
  While the device reports no transient error and nothing is cancelled, what was written to device queue
  \<open>q\<close>, followed by what still waits on it, is exactly what was accepted for it.
\<close>

lemma smooth_transmission_order:
  assumes "e_writer e = tun_queue_writer_new n" "e_dev_writes e = []" "q < max 1 n" "list_all smooth_event evs"
  shows "dev_writes q (writer_run evs e) @ waiting_bytes q (writer_run evs e)
       = observe (accepted_bytes q) writer_step evs e"
  using tx_chain.run_order [of e evs q] fresh_writer_inv [OF assms(1)] assms
  by (simp add: writer_run_def) (simp add: dev_writes_def waiting_bytes_def lane_def tun_queue_writer_new_def)

text \<open>
  The same without restriction: retries and cancellation included. A device queue is described by its
  \<open>attempts\<close>: the packets taken from the queue, each with the number of its retries. A packet is written
  once and then once for each retry, with no other packet of the queue in between.
\<close>

definition attempt_writes :: "(byte list \<times> nat) list \<Rightarrow> byte list list" where
  "attempt_writes as = concat (map (\<lambda>(p, k). replicate (Suc k) p) as)"

lemma attempt_writes_simps [simp]:
  "attempt_writes [] = []" "attempt_writes (as @ [(p, 0)]) = attempt_writes as @ [p]"
  "as \<noteq> [] \<Longrightarrow> attempt_writes (butlast as @ [(fst (last as), Suc (snd (last as)))]) = attempt_writes as @ [fst (last as)]"
proof -
  show "attempt_writes (butlast as @ [(fst (last as), Suc (snd (last as)))]) = attempt_writes as @ [fst (last as)]" if "as \<noteq> []"
    using append_butlast_last_id [OF that] unfolding attempt_writes_def
    by (cases as rule: rev_cases) (auto simp: replicate_append_same)
qed (simp_all add: attempt_writes_def)

text \<open>\<open>chain_ok\<close>: of the packets \<open>acc\<close> accepted, some were taken, the others still wait or were dropped by a cancellation.\<close>

definition chain_ok :: "nat \<Rightarrow> byte list list \<Rightarrow> nat \<Rightarrow> env \<Rightarrow> (byte list \<times> nat) list \<Rightarrow> byte list list \<Rightarrow> bool" where
  "chain_ok q acc m e as dropped \<longleftrightarrow>
     dev_writes q e = attempt_writes as \<and> acc = map fst as @ waiting_bytes q e @ dropped \<and>
     (qw_cancelled (e_writer e) \<or> dropped = []) \<and>
     sum_list (map snd as) \<le> m \<and> (\<forall>a\<in>set as. snd a \<le> k_write_retry_limit) \<and>
     (case qs_current (lane q e) of None \<Rightarrow> True
      | Some cur \<Rightarrow> as \<noteq> [] \<and> fst (last as) = pb_bytes (we_buf cur) \<and> snd (last as) + we_retries_left cur \<le> k_write_retry_limit)"

definition entries_ok :: "nat \<Rightarrow> env \<Rightarrow> bool" where
  "entries_ok q e \<longleftrightarrow> (\<forall>x\<in>set (qs_queue (lane q e)). we_queue x = q \<and> we_retries_left x \<le> k_write_retry_limit)"

lemma writer_inv_entries: "writer_inv e \<Longrightarrow> q < n_lanes e \<Longrightarrow> entries_ok q e"
  "writer_inv e \<Longrightarrow> q < n_lanes e \<Longrightarrow> qs_current (lane q e) = Some x \<Longrightarrow> we_queue x = q"
  by (auto simp: writer_inv_def lane_wf_def st_entries_def entries_ok_def)

lemma chain_ok_pump:
  assumes "chain_ok q acc m e as dr" "q' < n_lanes e" "entries_ok q' e"
  shows "\<exists>as. chain_ok q acc m (pump q' e) as dr"
proof (cases "qs_current (lane q' e) = None \<and> qs_queue (lane q' e) \<noteq> [] \<and> \<not> qw_cancelled (e_writer e)")
  case True
  then obtain x xs where x: "qs_current (lane q' e) = None" "qs_queue (lane q' e) = x # xs" "\<not> qw_cancelled (e_writer e)"
    by (cases "qs_queue (lane q' e)") auto
  have ok: "we_queue x = q'" "we_retries_left x \<le> k_write_retry_limit" using assms(3) x(2) by (auto simp: entries_ok_def)
  show ?thesis
  proof (cases "q' = q")
    case True
    have "chain_ok q acc m (pump q' e) (as @ [(pb_bytes (we_buf x), 0)]) dr"
      using assms x ok True by (auto simp: chain_ok_def pump_def Let_def waiting_bytes_def)
    thus ?thesis by blast
  next
    case False
    thus ?thesis using assms x ok by (auto simp: chain_ok_def pump_def Let_def waiting_bytes_def)
  qed
next
  case False
  hence "pump q' e = e" by (auto simp: pump_def Let_def split: option.splits list.splits)
  thus ?thesis using assms(1) by auto
qed

lemma chain_ok_enqueue:
  assumes ok: "chain_ok q acc m e as dr" and inv: "writer_inv e" and c: "\<not> qw_cancelled (e_writer e)"
  shows "\<exists>as dr. chain_ok q (acc @ (if pick_tx_queue b (qw_queue_count (e_writer e)) = q then [pb_bytes b] else [])) m (enqueue b h e) as dr"
proof -
  define q' where "q' = pick_tx_queue b (qw_queue_count (e_writer e))"
  define x where "x = \<lparr>we_buf = b, we_handler = h, we_queue = q', we_retries_left = k_write_retry_limit\<rparr>"
  define e1 where "e1 = set_queued_total (qw_queued_total (e_writer e) + 1)
     (set_lane q' ((lane q' e)\<lparr>qs_queue := qs_queue (lane q' e) @ [x]\<rparr>) e)"
  have q: "q' < n_lanes e" using inv pick_tx_queue_less by (simp add: q'_def writer_inv_def writer_shape_def)
  have "entries_ok q' e1" using writer_inv_entries(1) [OF inv q] q by (auto simp: entries_ok_def e1_def x_def)
  moreover have "chain_ok q (acc @ (if q' = q then [pb_bytes b] else [])) m e1 as []"
    using ok q c by (auto simp: chain_ok_def e1_def waiting_bytes_def x_def split: option.splits)
  moreover have "q' < n_lanes e1" using q by (simp add: e1_def)
  moreover have "enqueue b h e = pump q' e1" by (simp add: enqueue_def Let_def e1_def x_def q'_def)
  ultimately show ?thesis using chain_ok_pump unfolding q'_def by metis
qed

lemma chain_ok_done:
  assumes ok: "chain_ok q acc m e as dr" and inv: "writer_inv e" and q': "q' < n_lanes e"
  shows "\<exists>as. chain_ok q acc (m + of_bool (q' = q \<and> is_transient_write_error ec)) (on_write_done ec n q' e) as dr"
proof (cases "qs_current (lane q' e)")
  case None
  have "chain_ok q acc (m + of_bool (q' = q \<and> is_transient_write_error ec)) e as dr"
    using ok by (auto simp: chain_ok_def)
  thus ?thesis using None by (auto simp: on_write_done_split)
next
  case (Some cur)
  have wq: "we_queue cur = q'" using writer_inv_entries(2) [OF inv q' Some] .
  show ?thesis
  proof (cases "\<not> qw_cancelled (e_writer e) \<and> is_transient_write_error ec \<and> we_retries_left cur > 0")
    case True
    define st where "st = (lane q' e)\<lparr>qs_current := Some (cur\<lparr>we_retries_left := we_retries_left cur - 1\<rparr>)\<rparr>"
    have e: "on_write_done ec n q' e = start_write q' (set_lane q' st e)" using True Some by (simp add: on_write_done_split st_def)
    show ?thesis
    proof (cases "q' = q")
      case False
      thus ?thesis using ok q' wq by (auto simp: e chain_ok_def waiting_bytes_def st_def intro!: exI [of _ as])
    next
      case True': True
      let ?as = "butlast as @ [(fst (last as), Suc (snd (last as)))]"
      have a: "as \<noteq> []" "fst (last as) = pb_bytes (we_buf cur)" "snd (last as) + we_retries_left cur \<le> k_write_retry_limit"
        using ok Some True' by (auto simp: chain_ok_def)
      have s: "sum_list (map snd ?as) = Suc (sum_list (map snd as))" "map fst ?as = map fst as" "set ?as \<subseteq> set as \<union> {(fst (last as), Suc (snd (last as)))}"
        using a(1) by (cases as rule: rev_cases; auto)+
      have "\<forall>x\<in>set ?as. snd x \<le> k_write_retry_limit" using ok s(3) a(3) True unfolding chain_ok_def by auto
      moreover have "waiting_bytes q (start_write q' (set_lane q' st e)) = waiting_bytes q e" using q' True' by (simp add: waiting_bytes_def st_def)
      moreover have "dev_writes q (start_write q' (set_lane q' st e)) = attempt_writes ?as"
        using ok q' True' wq attempt_writes_simps(3) [OF a(1)] unfolding a(2) by (simp add: chain_ok_def st_def)
      ultimately have "chain_ok q acc (Suc m) (start_write q' (set_lane q' st e)) ?as dr"
        using ok q' True True' a s(1,2) by (simp add: chain_ok_def st_def)
      thus ?thesis using True True' unfolding e by auto
    qed
  next
    case False
    let ?e1 = "finish_write ec n q' cur e"
    have "entries_ok q' ?e1" using writer_inv_entries(1) [OF inv q'] q' by (simp add: entries_ok_def)
    moreover have "dev_writes q ?e1 = dev_writes q e" by (simp add: finish_write_def)
    hence "chain_ok q acc (m + of_bool (q' = q \<and> is_transient_write_error ec)) ?e1 as dr"
      using ok q' by (auto simp: chain_ok_def waiting_bytes_def)
    moreover have "on_write_done ec n q' e = pump q' ?e1" using False Some by (auto simp: on_write_done_split)
    ultimately show ?thesis using chain_ok_pump [of q acc _ ?e1 as dr q'] q' by simp
  qed
qed

lemma dev_writes_cancel: "dev_writes q (cancel_all e) = dev_writes q e"
proof -
  have "dev_writes q (cancel_entries xs e) = dev_writes q e" for xs e by (induction xs arbitrary: e) simp_all
  hence "dev_writes q (cancel_lanes qs e) = dev_writes q e" for qs e by (induction qs arbitrary: e) (simp_all add: Let_def)
  moreover have "dev_writes q (e\<lparr>e_writer := w\<rparr>) = dev_writes q e" for w by (simp add: dev_writes_def)
  ultimately show ?thesis by (simp add: cancel_all_def Let_def)
qed

lemma cancel_all_lane:
  assumes "writer_inv e" "q < n_lanes e"
  shows "lane q (cancel_all e) = (lane q e)\<lparr>qs_queue := []\<rparr>"
proof -
  let ?e = "e\<lparr>e_writer := (e_writer e)\<lparr>qw_cancelled := True\<rparr>\<rparr>"
  have "n_lanes ?e = n_lanes e" "lane q ?e = lane q e" for q by (simp_all add: n_lanes_def lane_def)
  moreover have "waiting_writes ?e = waiting_writes e" by (simp add: waiting_writes_def n_lanes_def lane_def)
  ultimately show ?thesis
    using cancel_lanes [of "[0..<length (qw_states (e_writer ?e))]" ?e] assms
    by (simp add: cancel_all_def Let_def writer_inv_def writer_shape_def) (simp add: n_lanes_def)
qed

text \<open>The transient errors that the device reports for queue \<open>q\<close>: each allows one retry.\<close>

fun transient_on :: "nat \<Rightarrow> writer_event \<Rightarrow> bool" where
  "transient_on q (Dev_done ec n q') = (q' = q \<and> is_transient_write_error ec)"
| "transient_on q _ = False"

lemma chain_ok_step:
  assumes ok: "chain_ok q acc m e as dr" and inv: "writer_inv e" and q: "q < n_lanes e"
  shows "\<exists>as dr. chain_ok q (acc @ accepted_bytes q ev e) (m + of_bool (transient_on q ev)) (writer_step ev e) as dr"
proof (cases ev)
  case (Submit b h)
  have r: "chain_ok q acc m (add_tx_dropped e) as dr" "chain_ok q acc m (post_completion_on c (add_tx_dropped e)) as dr" for c
    using ok by (simp_all add: chain_ok_def waiting_bytes_def)
  show ?thesis
  proof (cases "qw_cancelled (e_writer e) \<or> qw_queued_total (e_writer e) \<ge> k_queue_max_entries")
    case True
    hence "accepted_bytes q ev e = []" "\<not> transient_on q ev" using Submit by auto
    moreover have "chain_ok q acc m (writer_step ev e) as dr"
      using r True Submit by (cases h) (simp_all add: async_write_def async_write_and_forget_def)
    ultimately show ?thesis by auto
  next
    case False
    have "accepted_bytes q ev e = (if pick_tx_queue b (qw_queue_count (e_writer e)) = q then [pb_bytes b] else [])"
      "writer_step ev e = enqueue b h e" "\<not> transient_on q ev"
      using False Submit by (cases h; simp add: async_write_def async_write_and_forget_def)+
    thus ?thesis using chain_ok_enqueue [OF ok inv, of b h] False by simp
  qed
next
  case (Dev_done ec n q')
  show ?thesis
  proof (cases "q' < n_lanes e")
    case True
    have s: "accepted_bytes q ev e = []" "transient_on q ev = (q' = q \<and> is_transient_write_error ec)"
      "writer_step ev e = on_write_done ec n q' e"
      using Dev_done True by simp_all
    show ?thesis using chain_ok_done [OF ok inv True, of ec n] unfolding s append_Nil2 by blast
  next
    case False
    thus ?thesis using ok q Dev_done by auto
  qed
next
  case (Acquire_buf c h)
  thus ?thesis using ok by (auto simp: chain_ok_def waiting_bytes_def dev_writes_def)
next
  case Cancel_writes
  have "chain_ok q acc m (cancel_all e) as (waiting_bytes q e @ dr)"
    using ok cancel_all_lane [OF inv q] cancel_all_effect(4) [OF inv]
    by (auto simp: chain_ok_def dev_writes_cancel waiting_bytes_def split: option.splits)
  thus ?thesis using Cancel_writes by auto
qed

lemma writer_step_lanes: "writer_inv e \<Longrightarrow> n_lanes (writer_step ev e) = n_lanes e"
proof (cases ev)
  assume inv: "writer_inv e"
  case (Submit b h)
  have "pick_tx_queue b (qw_queue_count (e_writer e)) < n_lanes e"
    using inv pick_tx_queue_less by (simp add: writer_inv_def writer_shape_def)
  thus ?thesis using Submit by (cases h) (simp_all add: async_write_def async_write_and_forget_def enqueue_def Let_def pump_lanes)
next
  assume inv: "writer_inv e"
  case (Dev_done ec n q)
  thus ?thesis by (auto simp: on_write_done_split pump_lanes split: option.splits)
qed (simp_all add: cancel_all_effect)

lemma chain_ok_run:
  "chain_ok q acc m e as dr \<Longrightarrow> writer_inv e \<Longrightarrow> q < n_lanes e \<Longrightarrow>
     \<exists>as dr. chain_ok q (acc @ observe (accepted_bytes q) writer_step evs e) (m + length (filter (transient_on q) evs)) (writer_run evs e) as dr"
proof (induction evs arbitrary: acc m e as dr)
  case (Cons ev evs)
  obtain as' dr' where "chain_ok q (acc @ accepted_bytes q ev e) (m + of_bool (transient_on q ev)) (writer_step ev e) as' dr'"
    using chain_ok_step [OF Cons.prems] by blast
  from Cons.IH [OF this writer_step_inv [OF Cons.prems(2)]] Cons.prems(2,3)
  have "\<exists>as dr. chain_ok q ((acc @ accepted_bytes q ev e) @ observe (accepted_bytes q) writer_step evs (writer_step ev e))
      (m + of_bool (transient_on q ev) + length (filter (transient_on q) evs)) (writer_run evs (writer_step ev e)) as dr"
    by (simp add: writer_step_lanes)
  moreover have "m + of_bool (transient_on q ev) + length (filter (transient_on q) evs) = m + length (filter (transient_on q) (ev # evs))"
    by simp
  ultimately show ?case unfolding writer_run_def fold_simps(2) comp_def observe.simps append_assoc by simp
qed (auto simp: writer_run_def)

text \<open>
  C6. Packets of one device queue are never reordered, whatever happens: under any sequence of
  submissions, device completions (successes, transient errors with their retries, hard errors) and
  cancellations, the packets accepted for queue \<open>q\<close> are, in the order of their submission, those taken
  from the queue, those still waiting, and those dropped by a cancellation (none without one). The device
  was handed the taken packets in this order, each once and then again for each of its retries, all
  attempts of a packet before the next packet; a packet is retried at most 4096 times, and every retry is
  owed to a transient error reported for this queue. (The flow hash is a function of the packet's
  addresses, protocol and ports, so one flow uses one queue.)
\<close>

theorem transmission_order_preserved:
  assumes "e_writer e = tun_queue_writer_new n" "e_dev_writes e = []" "q < max 1 n"
  shows "\<exists>attempts dropped.
    dev_writes q (writer_run evs e) = attempt_writes attempts \<and>
    observe (accepted_bytes q) writer_step evs e = map fst attempts @ waiting_bytes q (writer_run evs e) @ dropped \<and>
    (qw_cancelled (e_writer (writer_run evs e)) \<or> dropped = []) \<and>
    (\<forall>a\<in>set attempts. snd a \<le> k_write_retry_limit) \<and>
    sum_list (map snd attempts) \<le> length (filter (transient_on q) evs)"
proof -
  have "chain_ok q [] 0 e [] []" "q < n_lanes e"
    using assms by (auto simp: chain_ok_def dev_writes_def waiting_bytes_def lane_def tun_queue_writer_new_def n_lanes_def)
  from chain_ok_run [OF this(1) _ this(2), of evs] fresh_writer_inv [OF assms(1)] show ?thesis by (auto simp: chain_ok_def)
qed

section \<open>Witnesses\<close>

definition sample_packet :: "byte list \<Rightarrow> packet_buffer" where
  "sample_packet bs = \<lparr>pb_storage = bs, pb_capacity = length bs, pb_headroom = 0, pb_data_offset = 0,
     pb_data_size = length bs\<rparr>"

definition sample_env :: env where
  "sample_env = env_new (tun_queue_writer_new 1) 65536 (\<lambda>_. 0)"

definition sample_events :: "writer_event list" where
  "sample_events = [Submit (sample_packet [1]) None, Submit (sample_packet [2]) (Some (Cb_write_loop 7)),
     Dev_done EC_ok 1 0]"

theorem writer_invariant_reachable_witness:
  "e_writer sample_env = tun_queue_writer_new 1 \<and> writer_inv (writer_run sample_events sample_env)"
  using writer_invariant_reachable [of sample_env 1 sample_events] by (simp add: sample_env_def env_new_def)

theorem writer_conserves_packets_witness:
  "handled (writer_run sample_events sample_env) + of_nat (pending_writes (writer_run sample_events sample_env)) = 2"
  using writer_conserves_packets [of sample_env 1 sample_events]
  by (simp add: sample_env_def env_new_def sample_events_def handled_def)

definition retry_events :: "writer_event list" where
  "retry_events = [Submit (sample_packet [1]) None, Submit (sample_packet [2]) (Some (Cb_write_loop 7)),
     Dev_done EC_try_again 0 0, Dev_done EC_ok 1 0, Cancel_writes, Submit (sample_packet [3]) None]"

theorem transmission_order_preserved_witness:
  "\<exists>attempts dropped. dev_writes 0 (writer_run retry_events sample_env) = attempt_writes attempts \<and>
     observe (accepted_bytes 0) writer_step retry_events sample_env
       = map fst attempts @ waiting_bytes 0 (writer_run retry_events sample_env) @ dropped \<and>
     sum_list (map snd attempts) \<le> 1"
proof -
  have "length (filter (transient_on 0) retry_events) = 1"
    by (simp add: retry_events_def is_transient_write_error_def)
  with transmission_order_preserved [of sample_env 1 0 retry_events] show ?thesis
    by (simp add: sample_env_def env_new_def) blast
qed

end
