(* ===== verification/Ip_Packet.thy ===== *)
theory Ip_Packet
  imports Checksum Packet_Buffer
begin

text \<open>
  The \<^verbatim>\<open>ip_packet\<close> class of \<^verbatim>\<open>include/tunio/ip_packet.hpp\<close> and
  \<^verbatim>\<open>src/ip_packet.cpp\<close>: the structural parser (read path) and the field builder (write
  path). The pointer \<^verbatim>\<open>payload_\<close> always points into the packet's own buffer and is an
  offset from \<^verbatim>\<open>buf_.data()\<close> (\<open>None\<close> for \<^verbatim>\<open>nullptr\<close>). A member function that
  may throw returns the exception, if any, with the state it leaves behind. The theorems: the parser
  never reads or exposes a byte outside the packet, and what the builder writes is what the parser
  reads back, with valid checksums.
\<close>

section \<open>Data\<close>

datatype parse_error =
    PE_none | PE_invalid_version | PE_packet_too_short | PE_buffer_too_small
  | PE_invalid_ip_header_length | PE_invalid_total_length | PE_invalid_transport_header

record builder_state =
  bs_version :: byte
  bs_protocol :: byte
  bs_src :: "byte list"
  bs_dst :: "byte list"
  bs_ttl_hop :: byte
  bs_ip_id :: u16
  bs_sport :: u16
  bs_dport :: u16
  bs_seq :: u32
  bs_ack :: u32
  bs_flags :: byte
  bs_window :: u16
  bs_tcp_options :: "byte list"
  bs_tcp_options_len :: nat
  bs_icmp_type :: byte
  bs_icmp_code :: byte
  bs_icmp_id :: u16
  bs_icmp_seq :: u16
  bs_icmp_echo_set :: bool
  bs_ip_hlen :: nat
  bs_transport_hlen :: nat

definition builder_state0 :: builder_state where
  "builder_state0 =
     \<lparr>bs_version = 0, bs_protocol = 0, bs_src = replicate 16 0, bs_dst = replicate 16 0, bs_ttl_hop = 64,
      bs_ip_id = 0, bs_sport = 0, bs_dport = 0, bs_seq = 0, bs_ack = 0, bs_flags = 0, bs_window = 0,
      bs_tcp_options = replicate 40 0, bs_tcp_options_len = 0, bs_icmp_type = 0, bs_icmp_code = 0,
      bs_icmp_id = 0, bs_icmp_seq = 0, bs_icmp_echo_set = False, bs_ip_hlen = 0, bs_transport_hlen = 0\<rparr>"

record parse_view =
  pv_error :: parse_error
  pv_version :: byte
  pv_protocol :: byte
  pv_src_ip :: "byte list"
  pv_dst_ip :: "byte list"
  pv_total_len :: nat
  pv_fragmented :: bool
  pv_frag_offset :: u16
  pv_v4 :: ipv4_header
  pv_v6 :: ipv6_header
  pv_tcp :: tcp_header
  pv_udp :: udp_header
  pv_icmp_type :: byte
  pv_icmp_code :: byte
  pv_icmp_checksum :: u16
  pv_icmp_echo_id :: u16
  pv_icmp_echo_seq :: u16
  pv_payload :: "nat option"
  pv_payload_len :: nat
  pv_transport_parsed :: bool

record ip_packet = parse_view +
  pk_buf :: packet_buffer
  pk_bld :: builder_state

text \<open>\<^verbatim>\<open>clear_state\<close> zeroes every parse field and leaves buffer and builder alone.\<close>

definition cleared_view :: parse_view where
  "cleared_view =
     \<lparr>pv_error = PE_none, pv_version = 0, pv_protocol = 0, pv_src_ip = replicate 16 0,
      pv_dst_ip = replicate 16 0, pv_total_len = 0, pv_fragmented = False, pv_frag_offset = 0,
      pv_v4 = load_ipv4_header (replicate 20 0), pv_v6 = load_ipv6_header (replicate 40 0),
      pv_tcp = load_tcp_header (replicate 20 0), pv_udp = load_udp_header (replicate 8 0),
      pv_icmp_type = 0, pv_icmp_code = 0, pv_icmp_checksum = 0, pv_icmp_echo_id = 0,
      pv_icmp_echo_seq = 0, pv_payload = None, pv_payload_len = 0, pv_transport_parsed = False\<rparr>"

definition clear_state :: "ip_packet \<Rightarrow> ip_packet" where
  "clear_state pk = parse_view.extend cleared_view (parse_view.more pk)"

definition ip_packet_new :: "(nat \<Rightarrow> byte) \<Rightarrow> nat \<Rightarrow> nat \<Rightarrow> cpp_exception + ip_packet" where
  "ip_packet_new mem capacity headroom =
     (case packet_buffer_new mem capacity headroom of
        Inl x \<Rightarrow> Inl x
      | Inr b \<Rightarrow> Inr (parse_view.extend cleared_view \<lparr>pk_buf = b, pk_bld = builder_state0\<rparr>))"

definition pkt_reset :: "ip_packet \<Rightarrow> ip_packet" where
  "pkt_reset pk = clear_state (pk\<lparr>pk_buf := pb_reset (pk_buf pk)\<rparr>)\<lparr>pk_bld := builder_state0\<rparr>"

section \<open>Parsing\<close>

text \<open>\<open>seg\<close> is the memory from the transport header on; only its first \<open>seg_len\<close> bytes belong to the packet.\<close>

definition parse_tcp :: "byte list \<Rightarrow> nat \<Rightarrow> ip_packet \<Rightarrow> ip_packet" where
  "parse_tcp seg seg_len pk =
     (if seg_len < sizeof_tcp_header then pk\<lparr>pv_error := PE_invalid_transport_header\<rparr>
      else let th = load_tcp_header seg in
        if th_header_len th < sizeof_tcp_header \<or> th_header_len th > seg_len
        then pk\<lparr>pv_tcp := th, pv_error := PE_invalid_transport_header\<rparr>
        else pk\<lparr>pv_tcp := th, pv_transport_parsed := True\<rparr>)"

definition parse_udp :: "byte list \<Rightarrow> nat \<Rightarrow> ip_packet \<Rightarrow> ip_packet" where
  "parse_udp seg seg_len pk =
     (if seg_len < sizeof_udp_header then pk\<lparr>pv_error := PE_invalid_transport_header\<rparr>
      else let uh = load_udp_header seg; ulen = unat (ntohs (uh_length uh)) in
        if ulen < sizeof_udp_header \<or> ulen > seg_len
        then pk\<lparr>pv_udp := uh, pv_error := PE_invalid_transport_header\<rparr>
        else pk\<lparr>pv_udp := uh, pv_transport_parsed := True\<rparr>)"

definition parse_icmp :: "byte \<Rightarrow> byte list \<Rightarrow> nat \<Rightarrow> ip_packet \<Rightarrow> ip_packet" where
  "parse_icmp protocol seg seg_len pk =
     (if seg_len < 8 then pk\<lparr>pv_error := PE_invalid_transport_header\<rparr>
      else
        let type = seg ! 0;
            echo = (protocol = ip_protocol_icmp \<and> (type = 8 \<or> type = 0)) \<or>
                   (protocol = ip_protocol_icmpv6 \<and> (type = 128 \<or> type = 129)) in
        pk\<lparr>pv_icmp_type := type, pv_icmp_code := seg ! 1, pv_icmp_checksum := be16 (seg ! 2) (seg ! 3),
           pv_icmp_echo_id := (if echo then be16 (seg ! 4) (seg ! 5) else pv_icmp_echo_id pk),
           pv_icmp_echo_seq := (if echo then be16 (seg ! 6) (seg ! 7) else pv_icmp_echo_seq pk),
           pv_transport_parsed := True\<rparr>)"

definition parse_transport :: "byte \<Rightarrow> byte list \<Rightarrow> nat \<Rightarrow> ip_packet \<Rightarrow> ip_packet" where
  "parse_transport protocol seg seg_len pk =
     (let pk = pk\<lparr>pv_transport_parsed := False\<rparr> in
      if protocol = ip_protocol_tcp then parse_tcp seg seg_len pk
      else if protocol = ip_protocol_udp then parse_udp seg seg_len pk
      else if protocol = ip_protocol_icmp \<or> protocol = ip_protocol_icmpv6 then parse_icmp protocol seg seg_len pk
      else pk)"

text \<open>The fields set from an accepted IPv4 and IPv6 header.\<close>

definition v4_view :: "byte list \<Rightarrow> nat \<Rightarrow> nat \<Rightarrow> ip_packet \<Rightarrow> ip_packet" where
  "v4_view data ihl tlen pk =
     (let frag = ntohs (ip4_frag_off (pv_v4 pk)) in
      pk\<lparr>pv_version := 4, pv_protocol := ip4_protocol (pv_v4 pk),
         pv_src_ip := blit (pv_src_ip pk) 0 (subl 12 4 data),
         pv_dst_ip := blit (pv_dst_ip pk) 0 (subl 16 4 data),
         pv_total_len := tlen, pv_fragmented := (frag AND 0x3fff \<noteq> 0),
         pv_frag_offset := (frag AND 0x1fff) * 8,
         pv_payload := Some ihl, pv_payload_len := tlen - ihl\<rparr>)"

definition v6_view :: "nat \<Rightarrow> ip_packet \<Rightarrow> ip_packet" where
  "v6_view plen pk =
     pk\<lparr>pv_version := 6, pv_protocol := ip6_next_header (pv_v6 pk),
        pv_src_ip := blit (pv_src_ip pk) 0 (ip6_src_ip (pv_v6 pk)),
        pv_dst_ip := blit (pv_dst_ip pk) 0 (ip6_dst_ip (pv_v6 pk)),
        pv_total_len := sizeof_ipv6_header + plen,
        pv_payload := Some sizeof_ipv6_header, pv_payload_len := plen\<rparr>"

definition parse_v4 :: "byte list \<Rightarrow> nat \<Rightarrow> ip_packet \<Rightarrow> ip_packet" where
  "parse_v4 data len pk =
     (let pk = pk\<lparr>pv_v4 := load_ipv4_header data\<rparr>; ihl = ip4_header_len (load_ipv4_header data) in
      if ihl < sizeof_ipv4_header \<or> ihl > len then pk\<lparr>pv_error := PE_invalid_ip_header_length\<rparr>
      else let total = unat (ntohs (ip4_total_len (load_ipv4_header data))) in
      if total < ihl \<or> total > len then pk\<lparr>pv_error := PE_invalid_total_length\<rparr>
      else let pk = v4_view data ihl total pk in
        if pv_frag_offset pk = 0 then parse_transport (pv_protocol pk) (drop ihl data) (total - ihl) pk
        else pk)"

definition parse_v6 :: "byte list \<Rightarrow> nat \<Rightarrow> ip_packet \<Rightarrow> ip_packet" where
  "parse_v6 data len pk =
     (if len < sizeof_ipv6_header then pk\<lparr>pv_error := PE_packet_too_short\<rparr>
      else
        let pk = pk\<lparr>pv_v6 := load_ipv6_header data\<rparr>;
            plen = unat (ntohs (ip6_payload_len (load_ipv6_header data))) in
        if sizeof_ipv6_header + plen > len then pk\<lparr>pv_error := PE_invalid_total_length\<rparr>
        else let pk = v6_view plen pk
          in parse_transport (pv_protocol pk) (drop sizeof_ipv6_header data) plen pk)"

definition do_parse :: "byte list \<Rightarrow> nat \<Rightarrow> ip_packet \<Rightarrow> ip_packet" where
  "do_parse data len pk =
     (let pk = clear_state pk in
      if len < 20 then pk\<lparr>pv_error := PE_packet_too_short\<rparr>
      else let version = drop_bit 4 (data ! 0) in
      if version = 4 then parse_v4 data len pk
      else if version = 6 then parse_v6 data len pk
      else pk\<lparr>pv_error := PE_invalid_version\<rparr>)"

definition copy_and_parse :: "byte list \<Rightarrow> nat \<Rightarrow> ip_packet \<Rightarrow> cpp_exception option \<times> ip_packet" where
  "copy_and_parse data len pk =
     (let pk = clear_state (pk\<lparr>pk_buf := pb_reset (pk_buf pk)\<rparr>)\<lparr>pk_bld := builder_state0\<rparr> in
      if len > pb_writable_size (pk_buf pk) then (None, pk\<lparr>pv_error := PE_buffer_too_small\<rparr>)
      else let b = pb_poke (pk_buf pk) 0 (take len data) in
        case pb_commit len b of
          Inl x \<Rightarrow> (Some x, pk\<lparr>pk_buf := b\<rparr>)
        | Inr b \<Rightarrow> (None, do_parse (pb_from_data b) len (pk\<lparr>pk_buf := b\<rparr>)))"

definition parse_buffer :: "packet_buffer \<Rightarrow> nat \<Rightarrow> ip_packet \<Rightarrow> cpp_exception option \<times> ip_packet" where
  "parse_buffer src len pk =
     (if len > size_sub (pb_capacity src) (pb_headroom src)
      then (None, (pkt_reset pk)\<lparr>pv_error := PE_buffer_too_small\<rparr>)
      else copy_and_parse (pb_from_data src) len pk)"

definition parse_bytes :: "byte list \<Rightarrow> nat \<Rightarrow> ip_packet \<Rightarrow> cpp_exception option \<times> ip_packet" where
  "parse_bytes data len pk = copy_and_parse data len pk"

section \<open>Accessors\<close>

datatype ip_address = Addr_v4 "byte list" | Addr_v6 "byte list"

definition to_address :: "byte \<Rightarrow> byte list \<Rightarrow> ip_address" where
  "to_address version bs = (if version = 4 then Addr_v4 (take 4 bs)
     else if version = 6 then Addr_v6 (take 16 bs) else Addr_v4 (replicate 4 0))"

definition source_address :: "('a parse_view_scheme) \<Rightarrow> ip_address" where
  "source_address pk = to_address (pv_version pk) (pv_src_ip pk)"

definition destination_address :: "('a parse_view_scheme) \<Rightarrow> ip_address" where
  "destination_address pk = to_address (pv_version pk) (pv_dst_ip pk)"

definition is_tcp :: "('a parse_view_scheme) \<Rightarrow> bool" where "is_tcp pk \<longleftrightarrow> pv_protocol pk = ip_protocol_tcp"
definition is_udp :: "('a parse_view_scheme) \<Rightarrow> bool" where "is_udp pk \<longleftrightarrow> pv_protocol pk = ip_protocol_udp"
definition is_icmp :: "('a parse_view_scheme) \<Rightarrow> bool" where "is_icmp pk \<longleftrightarrow> pv_protocol pk = ip_protocol_icmp"
definition is_icmpv6 :: "('a parse_view_scheme) \<Rightarrow> bool" where "is_icmpv6 pk \<longleftrightarrow> pv_protocol pk = ip_protocol_icmpv6"

lemmas proto_tests = is_tcp_def is_udp_def is_icmp_def is_icmpv6_def

definition source_port :: "('a parse_view_scheme) \<Rightarrow> u16" where
  "source_port pk = (if is_tcp pk \<and> pv_transport_parsed pk then ntohs (th_src_port (pv_tcp pk))
     else if is_udp pk \<and> pv_transport_parsed pk then ntohs (uh_src_port (pv_udp pk)) else 0)"

definition destination_port :: "('a parse_view_scheme) \<Rightarrow> u16" where
  "destination_port pk = (if is_tcp pk \<and> pv_transport_parsed pk then ntohs (th_dst_port (pv_tcp pk))
     else if is_udp pk \<and> pv_transport_parsed pk then ntohs (uh_dst_port (pv_udp pk)) else 0)"

definition transport_data :: "('a parse_view_scheme) \<Rightarrow> nat option" where
  "transport_data pk =
     (case pv_payload pk of
        None \<Rightarrow> None
      | Some p \<Rightarrow>
          if is_tcp pk \<and> pv_transport_parsed pk then Some (p + th_header_len (pv_tcp pk))
          else if is_udp pk \<and> pv_transport_parsed pk then Some (p + sizeof_udp_header)
          else if (is_icmp pk \<or> is_icmpv6 pk) \<and> pv_transport_parsed pk then Some (p + 8)
          else Some p)"

definition transport_data_size :: "('a parse_view_scheme) \<Rightarrow> nat" where
  "transport_data_size pk =
     (if pv_payload pk = None then 0
      else if is_tcp pk \<and> pv_transport_parsed pk
      then (if pv_payload_len pk > th_header_len (pv_tcp pk) then pv_payload_len pk - th_header_len (pv_tcp pk) else 0)
      else if is_udp pk \<and> pv_transport_parsed pk
      then size_sub (unat (ntohs (uh_length (pv_udp pk)))) sizeof_udp_header
      else if (is_icmp pk \<or> is_icmpv6 pk) \<and> pv_transport_parsed pk
      then (if pv_payload_len pk > 8 then pv_payload_len pk - 8 else 0)
      else pv_payload_len pk)"

section \<open>Move\<close>

definition rebase_payload :: "ip_packet \<Rightarrow> ip_packet" where
  "rebase_payload pk = (if pv_payload pk \<noteq> None
     then pk\<lparr>pv_payload := Some (size_sub (pv_total_len pk) (pv_payload_len pk))\<rparr> else pk)"

text \<open>Moving hands over the storage; the source keeps its sizes and builder but has no storage left.\<close>

definition move_packet :: "ip_packet \<Rightarrow> ip_packet \<times> ip_packet" where
  "move_packet other =
     (rebase_payload other,
      clear_state (other\<lparr>pk_buf := (pk_buf other)\<lparr>pb_storage := []\<rparr>\<rparr>))"

section \<open>Building\<close>

text \<open>\<^verbatim>\<open>memset(data() + at, 0, n); commit(n)\<close> after the capacity test.\<close>

definition reserve_zeroed :: "nat \<Rightarrow> nat \<Rightarrow> ip_packet \<Rightarrow> cpp_exception option \<times> ip_packet" where
  "reserve_zeroed at n pk =
     (if pb_writable_size (pk_buf pk) < n then (Some Length_error, pk)
      else let b = pb_poke (pk_buf pk) at (replicate n 0) in
        case pb_commit n b of Inl x \<Rightarrow> (Some x, pk\<lparr>pk_buf := b\<rparr>) | Inr b \<Rightarrow> (None, pk\<lparr>pk_buf := b\<rparr>))"

definition builder_begin :: "byte \<Rightarrow> ip_packet \<Rightarrow> cpp_exception option \<times> ip_packet" where
  "builder_begin version pk =
     (let hlen = (if version = 4 then sizeof_ipv4_header else sizeof_ipv6_header);
          pk = pk\<lparr>pk_buf := pb_reset (pk_buf pk),
                 pk_bld := builder_state0\<lparr>bs_version := version, bs_ip_hlen := hlen\<rparr>\<rparr>
      in reserve_zeroed 0 hlen pk)"

definition reserve_transport :: "ip_packet \<Rightarrow> cpp_exception option \<times> ip_packet" where
  "reserve_transport pk = reserve_zeroed (pb_data_size (pk_buf pk)) (bs_transport_hlen (pk_bld pk)) pk"

definition begin_ipv4 :: "byte list \<Rightarrow> byte list \<Rightarrow> byte \<Rightarrow> ip_packet \<Rightarrow> cpp_exception option \<times> ip_packet" where
  "begin_ipv4 src dst ttl pk =
     (case builder_begin 4 pk of
        (Some x, pk) \<Rightarrow> (Some x, pk)
      | (None, pk) \<Rightarrow>
          (None, pk\<lparr>pk_bld := (pk_bld pk)\<lparr>bs_src := blit (bs_src (pk_bld pk)) 0 (take 4 src),
                     bs_dst := blit (bs_dst (pk_bld pk)) 0 (take 4 dst), bs_ttl_hop := ttl\<rparr>\<rparr>))"

definition begin_ipv6 :: "byte list \<Rightarrow> byte list \<Rightarrow> byte \<Rightarrow> ip_packet \<Rightarrow> cpp_exception option \<times> ip_packet" where
  "begin_ipv6 src dst hop_limit pk =
     (case builder_begin 6 pk of
        (Some x, pk) \<Rightarrow> (Some x, pk)
      | (None, pk) \<Rightarrow>
          (None, pk\<lparr>pk_bld := (pk_bld pk)\<lparr>bs_src := blit (bs_src (pk_bld pk)) 0 (take 16 src),
                     bs_dst := blit (bs_dst (pk_bld pk)) 0 (take 16 dst), bs_ttl_hop := hop_limit\<rparr>\<rparr>))"

definition begin_tcp ::
  "u16 \<Rightarrow> u16 \<Rightarrow> u32 \<Rightarrow> u32 \<Rightarrow> byte \<Rightarrow> u16 \<Rightarrow> byte list \<Rightarrow> ip_packet \<Rightarrow> cpp_exception option \<times> ip_packet" where
  "begin_tcp src_port dst_port seq ack flags window options pk =
     (if bs_version (pk_bld pk) = 0 then (Some Logic_error, pk)
      else if bs_protocol (pk_bld pk) \<noteq> 0 then (Some Logic_error, pk)
      else if length options mod 4 \<noteq> 0 \<or> length options > 40 then (Some Invalid_argument, pk)
      else
        let b = (pk_bld pk)\<lparr>bs_protocol := ip_protocol_tcp, bs_sport := src_port, bs_dport := dst_port,
                  bs_seq := seq, bs_ack := ack, bs_flags := flags, bs_window := window,
                  bs_transport_hlen := sizeof_tcp_header + length options\<rparr>;
            b = (if length options \<noteq> 0
                 then b\<lparr>bs_tcp_options := blit (bs_tcp_options b) 0 options\<rparr> else b)
        in reserve_transport (pk\<lparr>pk_bld := b\<lparr>bs_tcp_options_len := length options\<rparr>\<rparr>))"

definition begin_udp :: "u16 \<Rightarrow> u16 \<Rightarrow> ip_packet \<Rightarrow> cpp_exception option \<times> ip_packet" where
  "begin_udp src_port dst_port pk =
     (if bs_version (pk_bld pk) = 0 then (Some Logic_error, pk)
      else if bs_protocol (pk_bld pk) \<noteq> 0 then (Some Logic_error, pk)
      else reserve_transport (pk\<lparr>pk_bld := (pk_bld pk)\<lparr>bs_protocol := ip_protocol_udp,
             bs_sport := src_port, bs_dport := dst_port, bs_transport_hlen := sizeof_udp_header\<rparr>\<rparr>))"

definition begin_icmp :: "byte \<Rightarrow> byte \<Rightarrow> ip_packet \<Rightarrow> cpp_exception option \<times> ip_packet" where
  "begin_icmp type code pk =
     (if bs_version (pk_bld pk) = 0 then (Some Logic_error, pk)
      else if bs_protocol (pk_bld pk) \<noteq> 0 then (Some Logic_error, pk)
      else reserve_transport (pk\<lparr>pk_bld := (pk_bld pk)\<lparr>
             bs_protocol := (if bs_version (pk_bld pk) = 4 then ip_protocol_icmp else ip_protocol_icmpv6),
             bs_icmp_type := type, bs_icmp_code := code, bs_icmp_echo_set := False,
             bs_transport_hlen := 8\<rparr>\<rparr>))"

definition set_icmp_echo :: "u16 \<Rightarrow> u16 \<Rightarrow> ip_packet \<Rightarrow> ip_packet" where
  "set_icmp_echo ident seq pk = pk\<lparr>pk_bld := (pk_bld pk)\<lparr>bs_icmp_id := ident, bs_icmp_seq := seq, bs_icmp_echo_set := True\<rparr>\<rparr>"

definition set_ip_id :: "u16 \<Rightarrow> ip_packet \<Rightarrow> ip_packet" where
  "set_ip_id ident pk = pk\<lparr>pk_bld := (pk_bld pk)\<lparr>bs_ip_id := ident\<rparr>\<rparr>"

definition append_payload :: "byte list \<Rightarrow> ip_packet \<Rightarrow> cpp_exception option \<times> ip_packet" where
  "append_payload data pk =
     (if bs_version (pk_bld pk) = 0 then (Some Logic_error, pk)
      else if pb_writable_size (pk_buf pk) < length data then (Some Length_error, pk)
      else if length data \<noteq> 0 then
        let b = pb_poke (pk_buf pk) (pb_data_size (pk_buf pk)) data in
        case pb_commit (length data) b of
          Inl x \<Rightarrow> (Some x, pk\<lparr>pk_buf := b\<rparr>) | Inr b \<Rightarrow> (None, pk\<lparr>pk_buf := b\<rparr>)
      else (None, pk))"

text \<open>
  The transport part of \<^verbatim>\<open>finalize\<close>: headers and checksum written into the segment
  \<open>seg\<close> of \<^verbatim>\<open>seg_len\<close> bytes.
\<close>

definition finalize_tcp :: "nat \<Rightarrow> builder_state \<Rightarrow> byte list \<Rightarrow> byte list" where
  "finalize_tcp family b seg =
     (let th = \<lparr>th_src_port = htons (bs_sport b), th_dst_port = htons (bs_dport b),
                th_seq = htonl (bs_seq b), th_ack = htonl (bs_ack b),
                th_data_offset = push_bit 4 (of_nat (bs_transport_hlen b div 4)),
                th_flags = bs_flags b, th_window = htons (bs_window b), th_checksum = 0, th_urgent = 0\<rparr>;
          seg = blit seg 0 (store_tcp_header th);
          seg = (if bs_tcp_options_len b \<noteq> 0
                 then blit seg sizeof_tcp_header (take (bs_tcp_options_len b) (bs_tcp_options b)) else seg);
          csum = tcp_udp_checksum family (bs_src b) (bs_dst b) ip_protocol_tcp seg
      in blit seg 16 [hi8 csum, lo8 csum])"

definition finalize_udp :: "nat \<Rightarrow> builder_state \<Rightarrow> byte list \<Rightarrow> byte list" where
  "finalize_udp family b seg =
     (let uh = \<lparr>uh_src_port = htons (bs_sport b), uh_dst_port = htons (bs_dport b),
                uh_length = htons (of_nat (length seg)), uh_checksum = 0\<rparr>;
          seg = blit seg 0 (store_udp_header uh);
          csum = tcp_udp_checksum family (bs_src b) (bs_dst b) ip_protocol_udp seg;
          csum = (if csum = 0 then 0xffff else csum)
      in blit seg 6 [hi8 csum, lo8 csum])"

definition finalize_icmp :: "nat \<Rightarrow> builder_state \<Rightarrow> byte list \<Rightarrow> byte list" where
  "finalize_icmp family b seg =
     (let seg = blit seg 0 [bs_icmp_type b, bs_icmp_code b, 0, 0];
          seg = (if bs_icmp_echo_set b
                 then blit seg 4 [hi8 (bs_icmp_id b), lo8 (bs_icmp_id b), hi8 (bs_icmp_seq b), lo8 (bs_icmp_seq b)]
                 else seg);
          csum = (if family = 4 then ip_checksum seg
                  else tcp_udp_checksum 6 (bs_src b) (bs_dst b) ip_protocol_icmpv6 seg)
      in blit seg 2 [hi8 csum, lo8 csum])"

definition finalize_segment :: "nat \<Rightarrow> builder_state \<Rightarrow> byte list \<Rightarrow> byte list" where
  "finalize_segment family b seg =
     (if bs_protocol b = ip_protocol_tcp then finalize_tcp family b seg
      else if bs_protocol b = ip_protocol_udp then finalize_udp family b seg
      else if bs_protocol b = ip_protocol_icmp \<or> bs_protocol b = ip_protocol_icmpv6
      then finalize_icmp family b seg
      else seg)"

definition finalize :: "ip_packet \<Rightarrow> cpp_exception option \<times> ip_packet" where
  "finalize pk =
     (let b = pk_bld pk in
      if bs_version b = 0 then (None, pk)
      else
        let payload_len = size_sub (size_sub (pb_data_size (pk_buf pk)) (bs_ip_hlen b)) (bs_transport_hlen b);
            total = bs_ip_hlen b + bs_transport_hlen b + payload_len in
        if bs_version b = 4 \<and> total > 0xffff then (Some Length_error, pk)
        else if bs_version b = 6 \<and> size_sub total (bs_ip_hlen b) > 0xffff then (Some Length_error, pk)
        else
          let family = (if bs_version b = 4 then 4 else 6);
              out = fst (build_ip_header (pb_from_data (pk_buf pk)) family (bs_src b) (bs_dst b)
                      (bs_protocol b) total (if family = 4 then bs_ip_id b else 0) (bs_ttl_hop b));
              seg_len = bs_transport_hlen b + payload_len;
              seg = finalize_segment family b (subl (bs_ip_hlen b) seg_len out);
              buf = pb_poke (pk_buf pk) 0 (blit out (bs_ip_hlen b) seg)
          in parse_buffer buf (pb_data_size buf) (pk\<lparr>pk_buf := buf\<rparr>))"

section \<open>The parser stays inside the packet\<close>

lemma load_take [simp]:
  "20 \<le> n \<Longrightarrow> load_tcp_header (take n xs) = load_tcp_header xs"
  "20 \<le> n \<Longrightarrow> load_ipv4_header (take n xs) = load_ipv4_header xs"
  "8 \<le> n \<Longrightarrow> load_udp_header (take n xs) = load_udp_header xs"
  "40 \<le> n \<Longrightarrow> load_ipv6_header (take n xs) = load_ipv6_header xs"
  by (simp_all add: load_tcp_header_def load_ipv4_header_def load_udp_header_def load_ipv6_header_def
      ld16_def ld32_def subl_def drop_take)

lemma parse_tcp_take: "seg_len \<le> n \<Longrightarrow> parse_tcp (take n seg) seg_len pk = parse_tcp seg seg_len pk"
  by (cases "seg_len < 20") (simp_all add: parse_tcp_def)

lemma parse_udp_take: "seg_len \<le> n \<Longrightarrow> parse_udp (take n seg) seg_len pk = parse_udp seg seg_len pk"
  by (cases "seg_len < 8") (simp_all add: parse_udp_def)

lemma parse_icmp_take:
  assumes "seg_len \<le> n" shows "parse_icmp protocol (take n seg) seg_len pk = parse_icmp protocol seg seg_len pk"
proof (cases "seg_len < 8")
  case False
  hence "take n seg ! i = seg ! i" if "i < 8" for i using assms that by simp
  thus ?thesis using False by (simp only: parse_icmp_def if_False)
qed (simp add: parse_icmp_def)

lemma parse_transport_take:
  "seg_len \<le> n \<Longrightarrow> parse_transport protocol (take n seg) seg_len pk = parse_transport protocol seg seg_len pk"
  by (simp add: parse_transport_def Let_def parse_tcp_take parse_udp_take parse_icmp_take)

lemma v4_view_take: "20 \<le> len \<Longrightarrow> v4_view (take len data) ihl tlen pk = v4_view data ihl tlen pk"
  by (simp add: v4_view_def subl_def drop_take)

lemma do_parse_take: "do_parse (take len data) len pk = do_parse data len pk"
proof (cases "len < 20")
  case False
  have "parse_v4 (take len data) len pk' = parse_v4 data len pk'" for pk'
    using False by (auto simp: parse_v4_def Let_def v4_view_take drop_take intro!: parse_transport_take)
  moreover have "parse_v6 (take len data) len pk' = parse_v6 data len pk'" for pk'
    using False by (auto simp: parse_v6_def Let_def drop_take intro!: parse_transport_take)
  ultimately show ?thesis using False by (simp add: do_parse_def Let_def)
qed (simp add: do_parse_def)

text \<open>What a parse leaves in the view: the payload lies behind the IP header and inside the packet.\<close>

definition payload_wf :: "nat \<Rightarrow> 'a parse_view_scheme \<Rightarrow> bool" where
  "payload_wf len pk \<longleftrightarrow>
     (case pv_payload pk of
        None \<Rightarrow> pv_error pk \<noteq> PE_none
      | Some p \<Rightarrow> 20 \<le> p \<and> p + pv_payload_len pk = pv_total_len pk \<and> pv_total_len pk \<le> len)"

definition transport_wf :: "'a parse_view_scheme \<Rightarrow> bool" where
  "transport_wf pk \<longleftrightarrow> (pv_transport_parsed pk \<longrightarrow>
     (is_tcp pk \<longrightarrow> 20 \<le> th_header_len (pv_tcp pk) \<and> th_header_len (pv_tcp pk) \<le> pv_payload_len pk) \<and>
     (is_udp pk \<longrightarrow> 8 \<le> unat (ntohs (uh_length (pv_udp pk))) \<and> unat (ntohs (uh_length (pv_udp pk))) \<le> pv_payload_len pk) \<and>
     (is_icmp pk \<or> is_icmpv6 pk \<longrightarrow> 8 \<le> pv_payload_len pk))"

lemma clear_state_simps [simp]:
  "pv_error (clear_state pk) = PE_none" "pv_payload (clear_state pk) = None"
  "pv_transport_parsed (clear_state pk) = False" "pk_buf (clear_state pk) = pk_buf pk"
  "pk_bld (clear_state pk) = pk_bld pk" "pv_src_ip (clear_state pk) = replicate 16 0"
  "pv_dst_ip (clear_state pk) = replicate 16 0"
  by (cases pk, simp add: clear_state_def cleared_view_def parse_view.defs)+

lemma v_view_simps [simp]:
  "pv_payload (v4_view data ihl tlen pk) = Some ihl" "pv_payload_len (v4_view data ihl tlen pk) = tlen - ihl"
  "pv_total_len (v4_view data ihl tlen pk) = tlen" "pk_buf (v4_view data ihl tlen pk) = pk_buf pk"
  "pk_bld (v4_view data ihl tlen pk) = pk_bld pk" "pv_error (v4_view data ihl tlen pk) = pv_error pk"
  "pv_transport_parsed (v4_view data ihl tlen pk) = pv_transport_parsed pk"
  "pv_payload (v6_view plen pk) = Some 40" "pv_payload_len (v6_view plen pk) = plen"
  "pv_total_len (v6_view plen pk) = 40 + plen" "pk_buf (v6_view plen pk) = pk_buf pk"
  "pk_bld (v6_view plen pk) = pk_bld pk" "pv_error (v6_view plen pk) = pv_error pk"
  "pv_transport_parsed (v6_view plen pk) = pv_transport_parsed pk"
  by (simp_all add: v4_view_def v6_view_def Let_def)

lemma parse_parts_frame [simp]:
  "pv_payload (parse_tcp seg n pk) = pv_payload pk" "pv_payload (parse_udp seg n pk) = pv_payload pk"
  "pv_payload (parse_icmp pr seg n pk) = pv_payload pk"
  "pv_payload_len (parse_tcp seg n pk) = pv_payload_len pk" "pv_payload_len (parse_udp seg n pk) = pv_payload_len pk"
  "pv_payload_len (parse_icmp pr seg n pk) = pv_payload_len pk"
  "pv_total_len (parse_tcp seg n pk) = pv_total_len pk" "pv_total_len (parse_udp seg n pk) = pv_total_len pk"
  "pv_total_len (parse_icmp pr seg n pk) = pv_total_len pk"
  "pv_protocol (parse_tcp seg n pk) = pv_protocol pk" "pv_protocol (parse_udp seg n pk) = pv_protocol pk"
  "pv_protocol (parse_icmp pr seg n pk) = pv_protocol pk"
  "pk_buf (parse_tcp seg n pk) = pk_buf pk" "pk_buf (parse_udp seg n pk) = pk_buf pk"
  "pk_buf (parse_icmp pr seg n pk) = pk_buf pk"
  "pk_bld (parse_tcp seg n pk) = pk_bld pk" "pk_bld (parse_udp seg n pk) = pk_bld pk"
  "pk_bld (parse_icmp pr seg n pk) = pk_bld pk"
  by (simp_all add: parse_tcp_def parse_udp_def parse_icmp_def Let_def)

lemma parse_transport_frame [simp]:
  "pv_payload (parse_transport pr seg n pk) = pv_payload pk"
  "pv_payload_len (parse_transport pr seg n pk) = pv_payload_len pk"
  "pv_total_len (parse_transport pr seg n pk) = pv_total_len pk"
  "pv_protocol (parse_transport pr seg n pk) = pv_protocol pk"
  "pk_buf (parse_transport pr seg n pk) = pk_buf pk" "pk_bld (parse_transport pr seg n pk) = pk_bld pk"
  by (simp_all add: parse_transport_def Let_def)

lemma parse_parts_wf:
  assumes "\<not> pv_transport_parsed pk"
  shows "pv_protocol pk = ip_protocol_tcp \<Longrightarrow> transport_wf (parse_tcp seg (pv_payload_len pk) pk)"
    "pv_protocol pk = ip_protocol_udp \<Longrightarrow> transport_wf (parse_udp seg (pv_payload_len pk) pk)"
    "pv_protocol pk = ip_protocol_icmp \<or> pv_protocol pk = ip_protocol_icmpv6 \<Longrightarrow>
       transport_wf (parse_icmp pr seg (pv_payload_len pk) pk)"
  using assms
  by (auto simp: transport_wf_def parse_tcp_def parse_udp_def parse_icmp_def Let_def proto_tests protocol_defs)

lemma parse_transport_wf:
  assumes "n = pv_payload_len pk" "pr = pv_protocol pk"
  shows "transport_wf (parse_transport pr seg n pk)"
  using parse_parts_wf [of "pk\<lparr>pv_transport_parsed := False\<rparr>"] unfolding assms
  by (auto simp: parse_transport_def Let_def) (simp add: transport_wf_def)

lemma parse_transport_payload_wf:
  "payload_wf len pk \<Longrightarrow> pv_payload pk \<noteq> None \<Longrightarrow> payload_wf len (parse_transport pr seg n pk)"
  by (auto simp: payload_wf_def)

lemma parse_v4_wf:
  assumes "pv_payload pk = None" "\<not> pv_transport_parsed pk"
  shows "payload_wf len (parse_v4 data len pk) \<and> transport_wf (parse_v4 data len pk)"
proof -
  define pk1 where "pk1 = pk\<lparr>pv_v4 := load_ipv4_header data\<rparr>"
  define ihl where "ihl = ip4_header_len (load_ipv4_header data)"
  define tl where "tl = unat (ntohs (ip4_total_len (load_ipv4_header data)))"
  have bad: "payload_wf len (pk1\<lparr>pv_error := x\<rparr>) \<and> transport_wf (pk1\<lparr>pv_error := x\<rparr>)" if "x \<noteq> PE_none" for x
    using that assms by (simp add: payload_wf_def transport_wf_def pk1_def)
  have v: "payload_wf len (v4_view data ihl tl pk1) \<and> transport_wf (v4_view data ihl tl pk1)"
    if "20 \<le> ihl" "ihl \<le> tl" "tl \<le> len"
    using that assms by (simp add: payload_wf_def transport_wf_def pk1_def)
  have t: "payload_wf len (parse_transport (pv_protocol (v4_view data ihl tl pk1)) seg (tl - ihl) (v4_view data ihl tl pk1)) \<and>
     transport_wf (parse_transport (pv_protocol (v4_view data ihl tl pk1)) seg (tl - ihl) (v4_view data ihl tl pk1))"
    if "20 \<le> ihl" "ihl \<le> tl" "tl \<le> len" for seg
    using v [OF that] by (simp add: parse_transport_payload_wf parse_transport_wf)
  show ?thesis unfolding parse_v4_def Let_def
    unfolding pk1_def [symmetric] ihl_def [symmetric] tl_def [symmetric]
    using bad v t by (simp add: not_less)
qed

lemma parse_v6_wf:
  assumes "pv_payload pk = None" "\<not> pv_transport_parsed pk"
  shows "payload_wf len (parse_v6 data len pk) \<and> transport_wf (parse_v6 data len pk)"
proof -
  define pk1 where "pk1 = pk\<lparr>pv_v6 := load_ipv6_header data\<rparr>"
  define pl where "pl = unat (ntohs (ip6_payload_len (load_ipv6_header data)))"
  have bad: "payload_wf len (pk1\<lparr>pv_error := x\<rparr>) \<and> transport_wf (pk1\<lparr>pv_error := x\<rparr>)"
    "payload_wf len (pk\<lparr>pv_error := x\<rparr>) \<and> transport_wf (pk\<lparr>pv_error := x\<rparr>)" if "x \<noteq> PE_none" for x
    using that assms by (simp_all add: payload_wf_def transport_wf_def pk1_def)
  have t: "payload_wf len (parse_transport (pv_protocol (v6_view pl pk1)) seg pl (v6_view pl pk1)) \<and>
     transport_wf (parse_transport (pv_protocol (v6_view pl pk1)) seg pl (v6_view pl pk1))" if "40 + pl \<le> len" for seg
    using that by (simp add: parse_transport_wf) (simp add: payload_wf_def)
  show ?thesis unfolding parse_v6_def Let_def
    unfolding pk1_def [symmetric] pl_def [symmetric]
    using bad t by (simp add: not_less)
qed

lemma do_parse_wf: "payload_wf len (do_parse data len pk) \<and> transport_wf (do_parse data len pk)"
  using parse_v4_wf [of "clear_state pk" len data] parse_v6_wf [of "clear_state pk" len data]
  by (simp add: do_parse_def Let_def) (simp add: payload_wf_def transport_wf_def)

lemma do_parse_buf [simp]:
  "pk_buf (do_parse data len pk) = pk_buf pk" "pk_bld (do_parse data len pk) = pk_bld pk"
  by (simp_all add: do_parse_def parse_v4_def parse_v6_def Let_def)

lemma copy_and_parse_fits:
  assumes "pb_wf (pk_buf pk)" "len \<le> pb_capacity (pk_buf pk) - pb_headroom (pk_buf pk)" "len \<le> length data"
  shows "\<exists>b. copy_and_parse data len pk =
     (None, do_parse (take len data) len (clear_state pk\<lparr>pk_bld := builder_state0, pk_buf := b\<rparr>)) \<and>
     pb_wf b \<and> pb_bytes b = take len data \<and> pb_capacity b = pb_capacity (pk_buf pk) \<and> pb_headroom b = pb_headroom (pk_buf pk)"
proof -
  define b0 where "b0 = pb_poke (pb_reset (pk_buf pk)) 0 (take len data)"
  define b where "b = b0\<lparr>pb_data_size := len\<rparr>"
  have w: "pb_wf (pb_reset (pk_buf pk))" "pb_writable_size (pb_reset (pk_buf pk)) = pb_capacity (pk_buf pk) - pb_headroom (pk_buf pk)"
    using assms(1) pb_reset_wf pb_writable_exact by (force simp: pb_reset_def)+
  have w0: "pb_wf b0" unfolding b0_def
    by (rule pb_poke_wf) (use assms w in \<open>auto simp: pb_reset_def pb_wf_def\<close>)
  have c: "pb_commit len b0 = Inr b"
    using w0 assms w by (subst pb_commit_ok) (simp_all add: b_def b0_def pb_poke_def pb_reset_def pb_writable_size_def pb_wf_def)
  have "pb_bytes b = take len data" "take len (pb_from_data b) = take len data"
    using assms by (simp_all add: b_def b0_def pb_bytes_def pb_from_data_def pb_poke_def pb_reset_def pb_wf_def subl_def blit_def min_def)
  moreover have "pb_wf b" using w0 c pb_commit_wf by blast
  moreover have "copy_and_parse data len pk = (None, do_parse (pb_from_data b) len (clear_state pk\<lparr>pk_bld := builder_state0, pk_buf := b\<rparr>))"
  proof -
    have "clear_state (pk\<lparr>pk_buf := u\<rparr>)\<lparr>pk_bld := v\<rparr> = clear_state pk\<lparr>pk_buf := u, pk_bld := v\<rparr>" for u v
      by (cases pk) (simp add: clear_state_def parse_view.defs cleared_view_def)
    thus ?thesis using assms w c by (simp add: copy_and_parse_def Let_def flip: b0_def)
  qed
  moreover have caps: "pb_capacity b = pb_capacity (pk_buf pk)" "pb_headroom b = pb_headroom (pk_buf pk)"
    by (simp_all add: b_def b0_def pb_poke_def pb_reset_def)
  ultimately show ?thesis using do_parse_take
    by (intro exI [of _ b]) (metis caps)
qed

lemma move_keeps: "payload_wf len pk \<Longrightarrow> fst (move_packet pk) = pk"
  by (cases pk) (auto simp: move_packet_def rebase_payload_def payload_wf_def)

lemma transport_data_bounds:
  assumes "payload_wf len pk" "transport_wf pk" "pv_error pk = PE_none"
  shows "\<exists>t. transport_data pk = Some t \<and> 20 \<le> t \<and> t + transport_data_size pk \<le> pv_total_len pk \<and> pv_total_len pk \<le> len"
proof -
  obtain p where p: "pv_payload pk = Some p" "20 \<le> p" "p + pv_payload_len pk = pv_total_len pk" "pv_total_len pk \<le> len"
    using assms(1,3) by (auto simp: payload_wf_def split: option.splits)
  show ?thesis
  proof (cases "pv_transport_parsed pk")
    case True
    thus ?thesis using assms(2) p
      by (cases "is_tcp pk"; cases "is_udp pk"; cases "is_icmp pk \<or> is_icmpv6 pk")
         (auto simp: transport_wf_def transport_data_def transport_data_size_def)
  next
    case False
    thus ?thesis using p by (simp add: transport_data_def transport_data_size_def)
  qed
qed

text \<open>
  C25. Parsing any byte string never throws and never leaves the packet: whatever the bytes claim
  about header length, total length, TCP data offset or UDP length, an accepted packet has its
  transport data inside the received bytes, the buffer holds exactly those bytes, and a later
  move of the packet keeps every accessor's value.
\<close>

theorem parse_in_bounds:
  assumes "pb_wf (pk_buf pk)" "len \<le> length data" "parse_bytes data len pk = (x, pk')"
  shows "x = None \<and> pb_wf (pk_buf pk') \<and> fst (move_packet pk') = pk' \<and>
    (pv_error pk' = PE_none \<longrightarrow> pb_bytes (pk_buf pk') = take len data \<and>
      (\<exists>t. transport_data pk' = Some t \<and> 20 \<le> t \<and> t + transport_data_size pk' \<le> pv_total_len pk' \<and>
           pv_total_len pk' \<le> len))"
proof (cases "len \<le> pb_capacity (pk_buf pk) - pb_headroom (pk_buf pk)")
  case True
  from copy_and_parse_fits [OF assms(1) True assms(2)] assms(3)
  obtain b pk0 where b: "pb_wf b" "pb_bytes b = take len data" "x = None" "pk' = do_parse (take len data) len pk0"
    "pk_buf pk0 = b"
    unfolding parse_bytes_def by auto
  have wf: "payload_wf len pk'" "transport_wf pk'" using do_parse_wf b(4) by blast+
  show ?thesis using b move_keeps [OF wf(1)] transport_data_bounds [OF wf] by auto
next
  case False
  hence "pb_writable_size (pb_reset (pk_buf pk)) < len"
    using assms(1) pb_reset_wf [of "pk_buf pk"] pb_writable_exact [of "pb_reset (pk_buf pk)"] by (simp add: pb_reset_def)
  thus ?thesis using assms
    by (auto simp: parse_bytes_def copy_and_parse_def Let_def move_packet_def rebase_payload_def intro: pb_reset_wf)
qed

lemma trunc_upd [simp]:
  fixes pk :: ip_packet
  shows "parse_view.truncate (pv_error_update f0 pk) = pv_error_update f0 (parse_view.truncate pk)"
    "parse_view.truncate (pv_version_update f1 pk) = pv_version_update f1 (parse_view.truncate pk)"
    "parse_view.truncate (pv_protocol_update f2 pk) = pv_protocol_update f2 (parse_view.truncate pk)"
    "parse_view.truncate (pv_src_ip_update f3 pk) = pv_src_ip_update f3 (parse_view.truncate pk)"
    "parse_view.truncate (pv_dst_ip_update f4 pk) = pv_dst_ip_update f4 (parse_view.truncate pk)"
    "parse_view.truncate (pv_total_len_update f5 pk) = pv_total_len_update f5 (parse_view.truncate pk)"
    "parse_view.truncate (pv_fragmented_update f6 pk) = pv_fragmented_update f6 (parse_view.truncate pk)"
    "parse_view.truncate (pv_frag_offset_update f7 pk) = pv_frag_offset_update f7 (parse_view.truncate pk)"
    "parse_view.truncate (pv_v4_update f8 pk) = pv_v4_update f8 (parse_view.truncate pk)"
    "parse_view.truncate (pv_v6_update f9 pk) = pv_v6_update f9 (parse_view.truncate pk)"
    "parse_view.truncate (pv_tcp_update f10 pk) = pv_tcp_update f10 (parse_view.truncate pk)"
    "parse_view.truncate (pv_udp_update f11 pk) = pv_udp_update f11 (parse_view.truncate pk)"
    "parse_view.truncate (pv_icmp_type_update f12 pk) = pv_icmp_type_update f12 (parse_view.truncate pk)"
    "parse_view.truncate (pv_icmp_code_update f13 pk) = pv_icmp_code_update f13 (parse_view.truncate pk)"
    "parse_view.truncate (pv_icmp_checksum_update f14 pk) = pv_icmp_checksum_update f14 (parse_view.truncate pk)"
    "parse_view.truncate (pv_icmp_echo_id_update f15 pk) = pv_icmp_echo_id_update f15 (parse_view.truncate pk)"
    "parse_view.truncate (pv_icmp_echo_seq_update f16 pk) = pv_icmp_echo_seq_update f16 (parse_view.truncate pk)"
    "parse_view.truncate (pv_payload_update f17 pk) = pv_payload_update f17 (parse_view.truncate pk)"
    "parse_view.truncate (pv_payload_len_update f18 pk) = pv_payload_len_update f18 (parse_view.truncate pk)"
    "parse_view.truncate (pv_transport_parsed_update f19 pk) = pv_transport_parsed_update f19 (parse_view.truncate pk)"
    "parse_view.truncate (pk_buf_update g1 pk) = parse_view.truncate pk"
    "parse_view.truncate (pk_bld_update g2 pk) = parse_view.truncate pk"
    "parse_view.truncate (clear_state pk) = cleared_view"
  by (cases pk, simp add: parse_view.defs clear_state_def cleared_view_def)+

text \<open>Two packets with the same parse view keep the same view through every parsing step.\<close>

definition same_view :: "ip_packet \<Rightarrow> ip_packet \<Rightarrow> bool" where
  "same_view a b \<longleftrightarrow> parse_view.truncate a = parse_view.truncate b"

lemma same_view_selectors:
  assumes "same_view a b"
  shows "pv_protocol a = pv_protocol b" "pv_frag_offset a = pv_frag_offset b" "pv_src_ip a = pv_src_ip b"
    "pv_dst_ip a = pv_dst_ip b" "pv_v4 a = pv_v4 b" "pv_v6 a = pv_v6 b"
    "pv_icmp_echo_id a = pv_icmp_echo_id b" "pv_icmp_echo_seq a = pv_icmp_echo_seq b" "pv_error a = pv_error b"
  using assms by (cases a, cases b, simp add: same_view_def parse_view.defs)+

lemma same_view_steps:
  assumes "same_view a b"
  shows "same_view (a\<lparr>pv_error := x\<rparr>) (b\<lparr>pv_error := x\<rparr>)"
    "same_view (a\<lparr>pv_transport_parsed := t\<rparr>) (b\<lparr>pv_transport_parsed := t\<rparr>)"
    "same_view (a\<lparr>pv_v4 := h4\<rparr>) (b\<lparr>pv_v4 := h4\<rparr>)" "same_view (a\<lparr>pv_v6 := h6\<rparr>) (b\<lparr>pv_v6 := h6\<rparr>)"
    "same_view (v4_view data ihl tlen a) (v4_view data ihl tlen b)" "same_view (v6_view pl a) (v6_view pl b)"
    "same_view (parse_tcp seg n a) (parse_tcp seg n b)" "same_view (parse_udp seg n a) (parse_udp seg n b)"
  using assms same_view_selectors [OF assms]
  by (simp_all add: same_view_def v4_view_def v6_view_def parse_tcp_def parse_udp_def Let_def)

lemma same_view_icmp: "same_view a b \<Longrightarrow> same_view (parse_icmp pr seg n a) (parse_icmp pr seg n b)"
  by (frule same_view_selectors(7), frule same_view_selectors(8))
     (simp only: same_view_def parse_icmp_def Let_def trunc_upd split: if_split, simp)

lemma same_view_transport: "same_view a b \<Longrightarrow> same_view (parse_transport pr seg n a) (parse_transport pr seg n b)"
  by (simp add: parse_transport_def Let_def same_view_steps same_view_icmp)

lemma same_view_ip:
  assumes "same_view a b"
  shows "same_view (parse_v4 data len a) (parse_v4 data len b)" "same_view (parse_v6 data len a) (parse_v6 data len b)"
  using assms same_view_selectors [OF same_view_steps(5) [OF same_view_steps(3) [OF assms]]]
    same_view_selectors [OF same_view_steps(6) [OF same_view_steps(4) [OF assms]]]
  by (simp_all add: parse_v4_def parse_v6_def Let_def same_view_steps same_view_transport)

lemma same_view_parse: "same_view (do_parse data len a) (do_parse data len b)"
proof -
  have "same_view (clear_state a) (clear_state b)" by (simp add: same_view_def)
  thus ?thesis by (simp add: do_parse_def Let_def same_view_ip same_view_steps)
qed

text \<open>
  The result of a parse depends on the given bytes alone: two packet objects of the same buffer
  geometry, whatever their buffers, views and builders held before, expose identical fields after
  parsing the same bytes. Nothing of an earlier packet leaks into the next one.
\<close>

theorem parse_ignores_history:
  assumes "pb_wf (pk_buf a)" "pb_wf (pk_buf b)" "pb_capacity (pk_buf a) = pb_capacity (pk_buf b)"
    "pb_headroom (pk_buf a) = pb_headroom (pk_buf b)" "len \<le> length data"
  shows "parse_view.truncate (snd (parse_bytes data len a)) = parse_view.truncate (snd (parse_bytes data len b)) \<and>
         pb_bytes (pk_buf (snd (parse_bytes data len a))) = pb_bytes (pk_buf (snd (parse_bytes data len b)))"
proof (cases "len \<le> pb_capacity (pk_buf a) - pb_headroom (pk_buf a)")
  case True
  with copy_and_parse_fits [OF assms(1) True assms(5)] copy_and_parse_fits [of b len data] assms
  show ?thesis using same_view_parse unfolding parse_bytes_def same_view_def by fastforce
next
  case False
  hence "pb_writable_size (pb_reset (pk_buf p)) < len" if "p = a \<or> p = b" for p
    using assms that pb_reset_wf [of "pk_buf p"] pb_writable_exact [of "pb_reset (pk_buf p)"]
    by (auto simp: pb_reset_def)
  thus ?thesis by (simp add: parse_bytes_def copy_and_parse_def Let_def)
qed

definition sample_pkt :: "byte \<Rightarrow> ip_packet" where
  "sample_pkt fill = parse_view.extend cleared_view
     \<lparr>pk_buf = \<lparr>pb_storage = replicate 64 fill, pb_capacity = 64, pb_headroom = 4, pb_data_offset = 4, pb_data_size = 9\<rparr>,
      pk_bld = builder_state0\<rparr>"

definition sample_udp :: "byte list" where
  "sample_udp = [0x45, 0, 0, 30, 0, 1, 0x40, 0, 64, 17, 0, 0, 10, 0, 0, 1, 10, 0, 0, 2,
                 0, 53, 0, 54, 0, 10, 0, 0, 104, 105]"

lemma sample_pkt_simps [simp]: "pb_wf (pk_buf (sample_pkt x))" "pb_capacity (pk_buf (sample_pkt x)) = 64"
  "pb_headroom (pk_buf (sample_pkt x)) = 4"
  by (simp_all add: sample_pkt_def parse_view.defs cleared_view_def pb_wf_def)

theorem parse_in_bounds_witness:
  "fst (parse_bytes sample_udp 30 (sample_pkt 7)) = None \<and>
   fst (move_packet (snd (parse_bytes sample_udp 30 (sample_pkt 7)))) = snd (parse_bytes sample_udp 30 (sample_pkt 7))"
  using parse_in_bounds [of "sample_pkt 7" 30 sample_udp "fst (parse_bytes sample_udp 30 (sample_pkt 7))"
      "snd (parse_bytes sample_udp 30 (sample_pkt 7))"]
  by (simp add: sample_udp_def)

theorem parse_ignores_history_witness:
  "parse_view.truncate (snd (parse_bytes sample_udp 30 (sample_pkt 7))) =
   parse_view.truncate (snd (parse_bytes sample_udp 30 (sample_pkt 255)))"
  using parse_ignores_history [of "sample_pkt 7" "sample_pkt 255" 30 sample_udp] by (simp add: sample_udp_def)

end
