(* ===== verification/Tcp_Flow.thy ===== *)
theory Tcp_Flow
  imports Queue_Writer Ip_Packet
begin

text \<open>
  The data of the TCP engine (\<^verbatim>\<open>include/tunio/detail/tcp_engine.hpp\<close>) and its send
  helpers (\<^verbatim>\<open>src/tcp_engine.cpp\<close>): the control block of a flow, the engine's tables,
  window computation, segment construction and acknowledgements. Handlers run on the engine's
  strand one at a time, each on one flow; \<open>tcp_ctx\<close> is what such a handler works on: the flow
  (\<open>cf\<close>), the rest of the engine (\<open>ce\<close>) and the fault it ran into, if any (\<open>cx\<close>).
  Flow objects live in a store and are named by numbers, as \<^verbatim>\<open>shared_ptr\<close>s to them are
  shared by the flow table, the accept queue and the application. Times are milliseconds.
\<close>

section \<open>Flows\<close>

datatype tcp_state =
    CLOSED | SYN_RCVD | SYN_ACK_SENT | ESTABLISHED | FIN_WAIT_1 | FIN_WAIT_2 | CLOSE_WAIT | LAST_ACK | TIME_WAIT

definition fixed_rcv_wnd :: u32 where "fixed_rcv_wnd = 1048576"
definition k_rcv_wnd_scale :: byte where "k_rcv_wnd_scale = 7"
definition k_delayed_ack_timeout :: int where "k_delayed_ack_timeout = 40"

record ooo_segment =
  og_data :: "byte list"
  og_fin :: bool

text \<open>A pending read: the sizes of the user's buffers, their sum and the handler.\<close>

record read_op =
  ro_buffers :: "nat list"
  ro_total :: nat
  ro_handler :: nat

record write_op =
  wo_buffers :: "byte list list"
  wo_total :: nat
  wo_offset :: nat
  wo_buf_index :: nat
  wo_buf_off :: nat
  wo_start_seq :: u32
  wo_implicit_accept :: bool
  wo_handler :: nat

text \<open>
  The send coroutine: the point at which it is suspended, what has resumed it, and its locals.
  The write channel has no buffer, so a \<^verbatim>\<open>try_send\<close> reaches only a coroutine that waits on it.
\<close>

datatype wl_point = WL_start | WL_handshake | WL_persist | WL_device | WL_rto

datatype wl_resume = R_signal | R_timer | R_device error_code

record write_coro =
  wl_point :: wl_point
  wl_resume :: "wl_resume option"
  wl_deadline :: int
  wl_persist_interval :: int
  wl_persist_probes :: int
  wl_rto :: int
  wl_retransmits :: int
  wl_last_una :: u32

record tcp_flow =
  fl_id :: nat
  fl_key :: five_tuple
  snd_nxt :: u32
  snd_una :: u32
  rcv_nxt :: u32
  iss :: u32
  irs :: u32
  fl_state :: tcp_state
  peer_wnd :: u32
  snd_wnd_scale :: byte
  rcv_wnd_scale :: byte
  wscale_ok :: bool
  last_wnd_advertised :: u32
  fin_sent :: bool
  fin_received :: bool
  fin_pending :: bool
  fl_rst :: bool
  app_closed :: bool
  rx_shutdown :: bool
  accepted :: bool
  pending_accept :: bool
  probe_in_flight :: bool
  created_at :: int
  destroy_at :: int
  close_started_at :: int
  ack_pending :: bool
  ack_timer :: "int option"
  rx_data :: "byte list"
  rx_head :: nat
  rx_bytes :: nat
  ooo_cache :: "(u32, ooo_segment) omap"
  ooo_bytes :: nat
  ooo_count :: nat
  active_read :: "read_op option"
  active_write :: "write_op option"
  write_ch :: "bool option"
  fl_coro :: "write_coro option"

definition tcp_flow0 :: tcp_flow where
  "tcp_flow0 = \<lparr>fl_id = 0, fl_key = make_five_tuple (replicate 16 0) (replicate 16 0) 0 0 0 4,
     snd_nxt = 0, snd_una = 0, rcv_nxt = 0, iss = 0, irs = 0, fl_state = CLOSED, peer_wnd = 0,
     snd_wnd_scale = 0, rcv_wnd_scale = 0, wscale_ok = False, last_wnd_advertised = 0,
     fin_sent = False, fin_received = False, fin_pending = False, fl_rst = False, app_closed = False,
     rx_shutdown = False, accepted = False, pending_accept = False, probe_in_flight = False,
     created_at = 0, destroy_at = 0, close_started_at = 0, ack_pending = False, ack_timer = None,
     rx_data = [], rx_head = 0, rx_bytes = 0, ooo_cache = [], ooo_bytes = 0, ooo_count = 0,
     active_read = None, active_write = None, write_ch = None, fl_coro = None\<rparr>"

section \<open>Engine\<close>

record tcp_engine =
  te_cfg :: tun_config
  te_mss4 :: nat
  te_mss6 :: nat
  te_flows :: "(five_tuple \<times> nat) list"
  te_pending_accepts :: "nat list"
  te_pending_flows :: "nat list"
  te_store :: "nat \<Rightarrow> tcp_flow"
  te_next_id :: nat
  te_sweep :: "int option"
  te_env :: env

definition tcp_engine_new :: "tun_config \<Rightarrow> env \<Rightarrow> tcp_engine" where
  "tcp_engine_new cfg e =
     \<lparr>te_cfg = cfg, te_mss4 = (if mtu cfg > 40 then mtu cfg - 40 else 536),
      te_mss6 = (if mtu cfg > 60 then mtu cfg - 60 else 1220), te_flows = [], te_pending_accepts = [],
      te_pending_flows = [], te_store = (\<lambda>_. tcp_flow0), te_next_id = 0, te_sweep = None, te_env = e\<rparr>"

text \<open>How a handler can go wrong: an exception leaves it, or it dereferences an empty \<^verbatim>\<open>optional\<close>.\<close>

datatype fault = Thrown cpp_exception | Undefined_deref

record tcp_ctx =
  cf :: tcp_flow
  ce :: tcp_engine
  cx :: "fault option"

definition mss :: "tcp_engine \<Rightarrow> nat \<Rightarrow> nat" where
  "mss eng family = (if family = 6 then te_mss6 eng else te_mss4 eng)"

abbreviation fl_family :: "tcp_flow \<Rightarrow> nat" where
  "fl_family f \<equiv> unat (ft_family (fl_key f))"

definition upf :: "(tcp_flow \<Rightarrow> tcp_flow) \<Rightarrow> tcp_ctx \<Rightarrow> tcp_ctx" where
  "upf g s = s\<lparr>cf := g (cf s)\<rparr>"

definition on_env :: "(env \<Rightarrow> env) \<Rightarrow> tcp_ctx \<Rightarrow> tcp_ctx" where
  "on_env g s = s\<lparr>ce := (ce s)\<lparr>te_env := g (te_env (ce s))\<rparr>\<rparr>"

abbreviation cenv :: "tcp_ctx \<Rightarrow> env" where "cenv s \<equiv> te_env (ce s)"
abbreviation ccfg :: "tcp_ctx \<Rightarrow> tun_config" where "ccfg s \<equiv> te_cfg (ce s)"
abbreviation cnow :: "tcp_ctx \<Rightarrow> int" where "cnow s \<equiv> e_now (cenv s)"

definition account_release :: "nat \<Rightarrow> tcp_ctx \<Rightarrow> tcp_ctx" where
  "account_release n s = on_env (\<lambda>e. e\<lparr>e_account := acct_release n (e_account e)\<rparr>) s"

definition account_reserve :: "nat \<Rightarrow> tcp_ctx \<Rightarrow> bool \<times> tcp_ctx" where
  "account_reserve n s =
     (let (ok, a) = acct_reserve n (e_account (cenv s)) in (ok, on_env (\<lambda>e. e\<lparr>e_account := a\<rparr>) s))"

definition post_ctx :: "completion \<Rightarrow> tcp_ctx \<Rightarrow> tcp_ctx" where
  "post_ctx c s = on_env (post_completion_on c) s"

definition rx_dropped_inc :: "tcp_ctx \<Rightarrow> tcp_ctx" where
  "rx_dropped_inc s = on_env add_rx_dropped s"

definition rx_ooo_inc :: "tcp_ctx \<Rightarrow> tcp_ctx" where
  "rx_ooo_inc s = on_env (\<lambda>e. e\<lparr>e_stats := (e_stats e)\<lparr>rx_ooo := rx_ooo (e_stats e) + 1\<rparr>\<rparr>) s"

lemma ctx_simps [simp]:
  "cf (upf g s) = g (cf s)" "ce (upf g s) = ce s" "cx (upf g s) = cx s"
  "cf (on_env h s) = cf s" "ce (on_env h s) = (ce s)\<lparr>te_env := h (cenv s)\<rparr>" "cx (on_env h s) = cx s"
  by (simp_all add: upf_def on_env_def)

lemma account_reserve_cases:
  assumes "account_reserve n s = (ok, s')"
  shows "ok \<longleftrightarrow> acc_used (e_account (cenv s)) + n \<le> acc_limit (e_account (cenv s))"
    "s' = on_env (\<lambda>e. e\<lparr>e_account := (e_account (cenv s))\<lparr>acc_used := acc_used (e_account (cenv s)) + (if ok then n else 0)\<rparr>\<rparr>) s"
  using assms by (auto simp: account_reserve_def acct_reserve_def Let_def on_env_def split: if_splits)

section \<open>Receive window\<close>

definition current_wnd :: "tcp_ctx \<Rightarrow> u32" where
  "current_wnd s =
     (let f = cf s; queued = of_nat (rx_bytes f + ooo_bytes f) :: u32; wnd = fixed_rcv_wnd;
          wnd = (if max_rx_queue_per_flow (ccfg s) > unat queued
                 then min wnd (of_nat (max_rx_queue_per_flow (ccfg s) - unat queued)) else 0);
          a = e_account (cenv s);
          wnd = (if acc_limit a \<noteq> 0
                 then min wnd (of_nat (if acc_limit a > acc_used a then acc_limit a - acc_used a else 0))
                 else wnd)
      in if unat wnd < mss (ce s) (fl_family f) then 0 else wnd)"

section \<open>Segments\<close>

definition segment_options :: "tcp_ctx \<Rightarrow> byte list" where
  "segment_options s =
     (let m = mss (ce s) (fl_family (cf s)) in
      [2, 4, of_nat (m div 256), of_nat (m mod 256)] @
      (if wscale_ok (cf s) then [3, 3, k_rcv_wnd_scale, 1] else [1, 1, 1, 1]))"

definition build_segment ::
  "u32 \<Rightarrow> byte \<Rightarrow> byte list \<Rightarrow> bool \<Rightarrow> tcp_ctx \<Rightarrow> (cpp_exception + packet_buffer) \<times> tcp_ctx" where
  "build_segment seq flags payload with_mss s =
     (let f = cf s; family = fl_family f; ip_hdr_len = ip_header_size family;
          tcp_hdr_len = (if with_mss then 28 else 20); len = length payload;
          total = ip_hdr_len + tcp_hdr_len + len;
          (r, e) = acquire (mtu (ccfg s) + 64) 64 (cenv s);
          s = on_env (\<lambda>_. e) s
      in case r of
        Inl x \<Rightarrow> (Inl x, s)
      | Inr pkt \<Rightarrow> (case pb_resize total pkt of
          Inl x \<Rightarrow> (Inl x, s)
        | Inr pkt \<Rightarrow>
          let (ip_id, e) = alloc_ip_id (cenv s);
              s = on_env (\<lambda>_. e) s;
              base = fst (build_ip_header (pb_from_data pkt) family (ft_dst_ip (fl_key f)) (ft_src_ip (fl_key f))
                       ip_protocol_tcp total ip_id 64);
              scale = (if fl_state f = SYN_ACK_SENT then 0 else rcv_wnd_scale f);
              wnd = current_wnd s;
              s = upf (\<lambda>f. f\<lparr>last_wnd_advertised := wnd\<rparr>) s;
              scaled = drop_bit (unat scale) wnd;
              th = \<lparr>th_src_port = ft_dst_port (fl_key f), th_dst_port = ft_src_port (fl_key f),
                    th_seq = htonl seq, th_ack = htonl (rcv_nxt f),
                    th_data_offset = push_bit 4 (if with_mss then 7 else 5), th_flags = flags,
                    th_window = htons (if scaled > 65535 then 65535 else ucast scaled),
                    th_checksum = 0, th_urgent = 0\<rparr>;
              base = blit base ip_hdr_len (store_tcp_header th);
              base = (if with_mss then blit base (ip_hdr_len + 20) (segment_options s) else base);
              base = (if len > 0 then blit base (ip_hdr_len + tcp_hdr_len) payload else base);
              csum = tcp_udp_checksum family (ft_dst_ip (fl_key f)) (ft_src_ip (fl_key f)) ip_protocol_tcp
                       (subl ip_hdr_len (tcp_hdr_len + len) base);
              base = blit base (ip_hdr_len + 16) (st16 (htons csum))
          in (Inr (pb_poke pkt 0 base), s)))"

definition send_segment :: "u32 \<Rightarrow> byte \<Rightarrow> byte list \<Rightarrow> bool \<Rightarrow> tcp_ctx \<Rightarrow> tcp_ctx" where
  "send_segment seq flags payload with_mss s =
     (if fl_state (cf s) = CLOSED then s
      else
        let s = upf (\<lambda>f. f\<lparr>ack_pending := False\<rparr>) s;
            (r, s) = build_segment seq flags payload with_mss s
        in case r of
             Inl x \<Rightarrow> s\<lparr>cx := Some (Thrown x)\<rparr>
           | Inr pkt \<Rightarrow> on_env (async_write_and_forget pkt) s)"

definition send_ack :: "tcp_ctx \<Rightarrow> tcp_ctx" where
  "send_ack s = send_segment (snd_nxt (cf s)) TCP_ACK [] False s"

definition note_data_ack :: "tcp_ctx \<Rightarrow> tcp_ctx" where
  "note_data_ack s =
     (if ack_pending (cf s) then send_ack s
      else upf (\<lambda>f. f\<lparr>ack_pending := True, ack_timer := Some (cnow s + k_delayed_ack_timeout)\<rparr>) s)"

text \<open>The wait handler of the delayed acknowledgement timer.\<close>

definition on_ack_timer :: "tcp_ctx \<Rightarrow> tcp_ctx" where
  "on_ack_timer s =
     (let s = upf (\<lambda>f. f\<lparr>ack_timer := None\<rparr>) s in
      if fl_state (cf s) = CLOSED \<or> \<not> ack_pending (cf s) then s else send_ack s)"

definition flush_pending_ack :: "tcp_ctx \<Rightarrow> tcp_ctx" where
  "flush_pending_ack s = (if \<not> ack_pending (cf s) then s else send_ack s)"

definition notify_window_updated :: "tcp_ctx \<Rightarrow> tcp_ctx" where
  "notify_window_updated s =
     (if fl_state (cf s) = CLOSED then s
      else
        let wnd = current_wnd s; mss_bytes = mss (ce s) (fl_family (cf s));
            was_zero = (last_wnd_advertised (cf s) = 0);
            s = (if (was_zero \<and> unat wnd \<ge> mss_bytes) \<or>
                    (\<not> was_zero \<and> unat wnd > unat (last_wnd_advertised (cf s)) + mss_bytes)
                 then send_ack s else s)
        in upf (\<lambda>f. f\<lparr>last_wnd_advertised := wnd\<rparr>) s)"

text \<open>\<open>signal_write\<close> wakes the send coroutine if it waits on the open channel.\<close>

definition coro_on_channel :: "write_coro \<Rightarrow> bool" where
  "coro_on_channel c \<longleftrightarrow> wl_point c \<in> {WL_handshake, WL_persist, WL_rto} \<and> wl_resume c = None"

definition wake_coro :: "tcp_flow \<Rightarrow> tcp_flow" where
  "wake_coro f = (case fl_coro f of
     Some c \<Rightarrow> if coro_on_channel c then f\<lparr>fl_coro := Some (c\<lparr>wl_resume := Some R_signal\<rparr>)\<rparr> else f
   | None \<Rightarrow> f)"

definition signal_write :: "tcp_ctx \<Rightarrow> tcp_ctx" where
  "signal_write s = (if write_ch (cf s) = Some True then upf wake_coro s else s)"

definition close_write_ch :: "tcp_ctx \<Rightarrow> tcp_ctx" where
  "close_write_ch s = (if write_ch (cf s) \<noteq> None
     then upf (\<lambda>f. wake_coro (f\<lparr>write_ch := Some False\<rparr>)) s else s)"

section \<open>What sending leaves alone\<close>

text \<open>
  \<open>sends s s'\<close>: a handler step that only emits segments. It changes the pending-acknowledgement mark
  and the last advertised window of the flow and, in the environment, the writer, the device writes
  and the transmit counters.
\<close>

definition env_sends :: "env \<Rightarrow> env \<Rightarrow> bool" where
  "env_sends e e' \<longleftrightarrow> e_posted e' = e_posted e \<and> e_account e' = e_account e \<and> e_now e' = e_now e \<and>
     e_mem e' = e_mem e \<and> rx_packets (e_stats e') = rx_packets (e_stats e) \<and>
     rx_dropped (e_stats e') = rx_dropped (e_stats e) \<and> rx_ooo (e_stats e') = rx_ooo (e_stats e) \<and>
     tcp_connections (e_stats e') = tcp_connections (e_stats e) \<and>
     udp_sessions (e_stats e') = udp_sessions (e_stats e) \<and> icmp_replies (e_stats e') = icmp_replies (e_stats e)"

definition sends :: "tcp_ctx \<Rightarrow> tcp_ctx \<Rightarrow> bool" where
  "sends s s' \<longleftrightarrow>
     cf s' = (cf s)\<lparr>last_wnd_advertised := last_wnd_advertised (cf s'), ack_pending := ack_pending (cf s')\<rparr> \<and>
     ce s' = (ce s)\<lparr>te_env := cenv s'\<rparr> \<and> env_sends (cenv s) (cenv s')"

lemma env_sends_refl [simp]: "env_sends e e"
  by (simp add: env_sends_def)

lemma env_sends_trans: "env_sends a b \<Longrightarrow> env_sends b c \<Longrightarrow> env_sends a c"
  by (simp add: env_sends_def)

lemma sends_refl [simp]: "sends s s"
  by (simp add: sends_def)

lemma sends_trans:
  assumes "sends a b" "sends b c" shows "sends a c"
proof -
  have "cf c = (cf a)\<lparr>last_wnd_advertised := last_wnd_advertised (cf c), ack_pending := ack_pending (cf c)\<rparr>"
    using assms by (cases "cf a"; cases "cf b"; cases "cf c") (simp add: sends_def)
  moreover have "ce c = (ce a)\<lparr>te_env := cenv c\<rparr>"
    using assms by (cases "ce a"; cases "ce b"; cases "ce c") (simp add: sends_def)
  ultimately show ?thesis using assms env_sends_trans unfolding sends_def by blast
qed

lemma enqueue_sends: "env_sends e (enqueue b h e)"
  by (simp add: env_sends_def enqueue_def pump_def start_write_def set_queued_total_def set_lane_def Let_def
      split: option.splits list.splits)

lemma async_write_and_forget_sends: "env_sends e (async_write_and_forget b e)"
  by (simp add: async_write_and_forget_def enqueue_sends) (simp add: env_sends_def add_tx_dropped_def)

lemma acquire_sends: "env_sends e (snd (acquire c h e))"
  by (simp add: env_sends_def)

lemma alloc_ip_id_sends: "env_sends e (snd (alloc_ip_id e))"
  by (simp add: env_sends_def alloc_ip_id_def Let_def)

lemma on_env_sends: "env_sends (cenv s) (g (cenv s)) \<Longrightarrow> sends s (on_env g s)"
  by (cases "cf s"; cases "ce s") (simp add: sends_def on_env_def)

lemma upf_wnd_sends: "sends s (upf (\<lambda>f. f\<lparr>last_wnd_advertised := w\<rparr>) s)"
  by (cases "cf s"; cases "ce s") (simp add: sends_def upf_def)

lemma upf_ack_sends: "sends s (upf (\<lambda>f. f\<lparr>ack_pending := w\<rparr>) s)"
  by (cases "cf s"; cases "ce s") (simp add: sends_def upf_def)

lemma cx_sends: "sends s s' \<Longrightarrow> sends s (s'\<lparr>cx := x\<rparr>)"
  by (simp add: sends_def)

lemmas sends_intros = on_env_sends upf_wnd_sends upf_ack_sends cx_sends async_write_and_forget_sends

lemma build_segment_sends: "sends s (snd (build_segment seq flags payload with_mss s))"
proof -
  obtain r e where a: "acquire (mtu (ccfg s) + 64) 64 (cenv s) = (r, e)" by fastforce
  have s1: "sends s (on_env (\<lambda>_. e) s)"
    using acquire_sends [of "cenv s" "mtu (ccfg s) + 64" 64] a by (intro on_env_sends) simp
  have s2: "sends s (upf (\<lambda>f. f\<lparr>last_wnd_advertised := w\<rparr>) (on_env (\<lambda>_. snd (alloc_ip_id e)) (on_env (\<lambda>_. e) s)))" for w
    by (rule sends_trans [OF s1 sends_trans [OF on_env_sends upf_wnd_sends]])
       (use alloc_ip_id_sends [of e] in \<open>simp add: on_env_def\<close>)
  have e: "cenv (on_env (\<lambda>_. e) s) = e" by (simp add: on_env_def)
  show ?thesis using s1 s2 unfolding build_segment_def Let_def a prod.case e
    by (auto split: sum.splits prod.splits)
qed

lemma send_segment_sends: "sends s (send_segment seq flags payload with_mss s)"
proof -
  let ?s = "upf (\<lambda>f. f\<lparr>ack_pending := False\<rparr>) s"
  obtain r s' where b: "build_segment seq flags payload with_mss ?s = (r, s')" by fastforce
  have "sends s s'" using sends_trans [OF upf_ack_sends build_segment_sends] b by (metis snd_conv)
  moreover have "sends s' (on_env (async_write_and_forget p) s')" for p
    by (intro sends_intros)
  ultimately show ?thesis using sends_trans
    by (auto simp: send_segment_def b cx_sends split: sum.splits)
qed

lemma send_ack_sends: "sends s (send_ack s)"
  by (simp add: send_ack_def send_segment_sends)

lemma notify_window_updated_sends: "sends s (notify_window_updated s)"
  using sends_trans [OF send_ack_sends upf_wnd_sends] upf_wnd_sends
  by (simp add: notify_window_updated_def Let_def)

lemma flush_pending_ack_sends: "sends s (flush_pending_ack s)"
  by (simp add: flush_pending_ack_def send_ack_sends)

lemma sends_flow:
  assumes "sends s s'"
  shows "fl_id (cf s') = fl_id (cf s)"
    "fl_key (cf s') = fl_key (cf s)"
    "snd_nxt (cf s') = snd_nxt (cf s)"
    "snd_una (cf s') = snd_una (cf s)"
    "rcv_nxt (cf s') = rcv_nxt (cf s)"
    "iss (cf s') = iss (cf s)"
    "irs (cf s') = irs (cf s)"
    "fl_state (cf s') = fl_state (cf s)"
    "peer_wnd (cf s') = peer_wnd (cf s)"
    "snd_wnd_scale (cf s') = snd_wnd_scale (cf s)"
    "rcv_wnd_scale (cf s') = rcv_wnd_scale (cf s)"
    "wscale_ok (cf s') = wscale_ok (cf s)"
    "fin_sent (cf s') = fin_sent (cf s)"
    "fin_received (cf s') = fin_received (cf s)"
    "fin_pending (cf s') = fin_pending (cf s)"
    "fl_rst (cf s') = fl_rst (cf s)"
    "app_closed (cf s') = app_closed (cf s)"
    "rx_shutdown (cf s') = rx_shutdown (cf s)"
    "accepted (cf s') = accepted (cf s)"
    "pending_accept (cf s') = pending_accept (cf s)"
    "probe_in_flight (cf s') = probe_in_flight (cf s)"
    "created_at (cf s') = created_at (cf s)"
    "destroy_at (cf s') = destroy_at (cf s)"
    "close_started_at (cf s') = close_started_at (cf s)"
    "ack_timer (cf s') = ack_timer (cf s)"
    "rx_data (cf s') = rx_data (cf s)"
    "rx_head (cf s') = rx_head (cf s)"
    "rx_bytes (cf s') = rx_bytes (cf s)"
    "ooo_cache (cf s') = ooo_cache (cf s)"
    "ooo_bytes (cf s') = ooo_bytes (cf s)"
    "ooo_count (cf s') = ooo_count (cf s)"
    "active_read (cf s') = active_read (cf s)"
    "active_write (cf s') = active_write (cf s)"
    "write_ch (cf s') = write_ch (cf s)"
    "fl_coro (cf s') = fl_coro (cf s)"
  by (use assms in \<open>cases "cf s", cases "cf s'", simp add: sends_def\<close>)+

lemma sends_engine:
  assumes "sends s s'"
  shows "te_cfg (ce s') = te_cfg (ce s)"
    "te_mss4 (ce s') = te_mss4 (ce s)"
    "te_mss6 (ce s') = te_mss6 (ce s)"
    "te_flows (ce s') = te_flows (ce s)"
    "te_pending_accepts (ce s') = te_pending_accepts (ce s)"
    "te_pending_flows (ce s') = te_pending_flows (ce s)"
    "te_store (ce s') = te_store (ce s)"
    "te_next_id (ce s') = te_next_id (ce s)"
    "te_sweep (ce s') = te_sweep (ce s)"
    "e_posted (cenv s') = e_posted (cenv s)" "e_account (cenv s') = e_account (cenv s)" "e_now (cenv s') = e_now (cenv s)"
    "tcp_connections (e_stats (cenv s')) = tcp_connections (e_stats (cenv s))"
  by (use assms in \<open>cases "ce s", cases "ce s'", simp add: sends_def env_sends_def\<close>)+

lemmas send_frames [simp] =
  sends_flow [OF send_segment_sends] sends_engine [OF send_segment_sends]
  sends_flow [OF send_ack_sends] sends_engine [OF send_ack_sends]
  sends_flow [OF notify_window_updated_sends] sends_engine [OF notify_window_updated_sends]
  sends_flow [OF flush_pending_ack_sends] sends_engine [OF flush_pending_ack_sends]

end
