(* ===== verification/Tcp_Ooo.thy ===== *)
theory Tcp_Ooo
  imports Tcp_Flow
begin

text \<open>
  The out-of-order cache of a flow (\<^verbatim>\<open>tcp_engine::ooo_append\<close> in
  \<^verbatim>\<open>src/tcp_engine.cpp\<close>): scanning for overlap, trimming the old segments around the new
  one, insertion and merging with neighbours, with the limits and the accounting. The loops run over
  the map with an iterator, as in the source. The invariant \<open>cache_ok\<close> ties the cache to the peer's
  byte stream: every cached segment holds the bytes of the stream at its position, segments do not
  overlap, and all lie in the half of the sequence space ahead of the receive position.
\<close>

type_synonym ooo_map = "(u32, ooo_segment) omap"

section \<open>Operations\<close>

definition ooo_offset :: "u32 \<Rightarrow> u32 \<Rightarrow> int" where
  "ooo_offset seq v = sint (v - seq)"

abbreviation og_len :: "ooo_segment \<Rightarrow> nat" where "og_len g \<equiv> length (og_data g)"

text \<open>The scan for a segment that carries only a FIN.\<close>

datatype fin_scan = Fin_reject | Fin_mark u32 | Fin_new

fun ooo_fin_scan :: "u32 \<Rightarrow> ooo_map \<Rightarrow> fin_scan" where
  "ooo_fin_scan seq [] = Fin_new"
| "ooo_fin_scan seq ((k, g) # m) =
     (let start = ooo_offset seq k; stop = start + int (og_len g) in
      if stop = 0 then (if og_fin g then Fin_reject else Fin_mark k)
      else if start \<le> 0 \<and> stop > 0 then Fin_reject
      else ooo_fin_scan seq m)"

record ooo_scan =
  sc_overlap :: nat
  sc_fin_covered :: bool
  sc_touches :: bool
  sc_fin_extension :: "u32 option"

definition ooo_scan_step :: "u32 \<Rightarrow> nat \<Rightarrow> u32 \<times> ooo_segment \<Rightarrow> ooo_scan \<Rightarrow> ooo_scan" where
  "ooo_scan_step seq len p c =
     (let start = ooo_offset seq (fst p); stop = start + int (og_len (snd p));
          lo = max start 0; hi = min stop (int len);
          c = (if lo < hi then c\<lparr>sc_overlap := sc_overlap c + nat (hi - lo)\<rparr> else c);
          c = (if start \<le> int len \<and> stop \<ge> 0 then c\<lparr>sc_touches := True\<rparr> else c)
      in if stop = int len then
           if og_fin (snd p) then c\<lparr>sc_fin_covered := True\<rparr> else c\<lparr>sc_fin_extension := Some (fst p)\<rparr>
         else c)"

definition ooo_scan_all :: "u32 \<Rightarrow> nat \<Rightarrow> ooo_map \<Rightarrow> ooo_scan" where
  "ooo_scan_all seq len m = fold (ooo_scan_step seq len) m
     \<lparr>sc_overlap = 0, sc_fin_covered = False, sc_touches = False, sc_fin_extension = None\<rparr>"

text \<open>One iteration of the trimming loop at the node with key \<open>k\<close>: the new iterator and the new map.\<close>

definition ooo_trim_step :: "u32 \<Rightarrow> nat \<Rightarrow> u32 \<Rightarrow> ooo_segment \<Rightarrow> ooo_map \<Rightarrow> u32 option \<times> ooo_map" where
  "ooo_trim_step seq len k g m =
     (let start = ooo_offset seq k; old_len = int (og_len g); stop = start + old_len;
          lo = max start 0; hi = min stop (int len);
          data_overlap = lo < hi;
          fin_inside = old_len = 0 \<and> og_fin g \<and> start \<ge> 0 \<and> start < int len
      in if \<not> data_overlap \<and> \<not> fin_inside then (om_next k m, m)
         else if start < 0 \<and> stop > int len then
           let right = \<lparr>og_data = drop (nat (int len - start)) (og_data g), og_fin = og_fin g\<rparr>;
               m = om_put k \<lparr>og_data = take (nat (- start)) (og_data g), og_fin = False\<rparr> m;
               m = om_emplace (seq + of_nat len) right m
           in (om_next k m, m)
         else if start < 0 then
           let m = om_put k \<lparr>og_data = take (nat (- start)) (og_data g), og_fin = False\<rparr> m
           in (om_next k m, m)
         else if stop > int len then
           (om_next k m,
            om_emplace (seq + of_nat len) \<lparr>og_data = drop (nat (int len - start)) (og_data g), og_fin = og_fin g\<rparr> (om_erase k m))
         else (om_next k m, om_erase k m))"

function ooo_trim :: "u32 \<Rightarrow> nat \<Rightarrow> u32 option \<Rightarrow> ooo_map \<Rightarrow> ooo_map" where
  "ooo_trim seq len None m = m"
| "ooo_trim seq len (Some k) m =
     (case map_of m k of
        None \<Rightarrow> m
      | Some g \<Rightarrow> ooo_trim seq len (fst (ooo_trim_step seq len k g m)) (snd (ooo_trim_step seq len k g m)))"
  by pat_completeness auto

lemma trim_step_next: "fst (ooo_trim_step seq len k g m) = Some k' \<Longrightarrow> k < k'"
  by (auto simp: ooo_trim_step_def Let_def dest: om_next_greater split: if_splits)

termination ooo_trim
proof (relation "measure (\<lambda>(seq, len, c, m). case c of None \<Rightarrow> 0 | Some k \<Rightarrow> 2 ^ 32 - unat k)")
  fix seq :: u32 and len k and m :: ooo_map and g
  show "((seq, len, fst (ooo_trim_step seq len k g m), snd (ooo_trim_step seq len k g m)), seq, len, Some k, m)
      \<in> measure (\<lambda>(seq, len, c, m). case c of None \<Rightarrow> 0 | Some k \<Rightarrow> 2 ^ 32 - unat k)"
  proof (cases "ooo_trim_step seq len k g m")
    case (Pair c m')
    thus ?thesis using trim_step_next [of seq len k g m] unat_u32_less [of k]
      by (cases c) (auto simp: word_less_nat_alt)
  qed
qed simp

text \<open>Merging the node \<open>cur\<close> with its neighbours.\<close>

definition ooo_pred :: "u32 \<Rightarrow> ooo_map \<Rightarrow> (u32 \<times> ooo_segment) option" where
  "ooo_pred cur m = find (\<lambda>p. fst p \<noteq> cur \<and> \<not> og_fin (snd p) \<and> fst p + of_nat (og_len (snd p)) = cur) m"

definition ooo_succ :: "u32 \<Rightarrow> ooo_segment \<Rightarrow> ooo_map \<Rightarrow> (u32 \<times> ooo_segment) option" where
  "ooo_succ cur g m = find (\<lambda>p. fst p \<noteq> cur \<and> fst p = cur + of_nat (og_len g)) m"

function ooo_merge :: "u32 \<Rightarrow> ooo_map \<Rightarrow> ooo_map" where
  "ooo_merge cur m =
     (case map_of m cur of
        None \<Rightarrow> m
      | Some g \<Rightarrow>
          (case ooo_pred cur m of
             Some (k, h) \<Rightarrow>
               ooo_merge k (om_erase cur (om_put k \<lparr>og_data = og_data h @ og_data g, og_fin = og_fin g\<rparr> m))
           | None \<Rightarrow>
               (case ooo_succ cur g m of
                  None \<Rightarrow> m
                | Some (k, h) \<Rightarrow>
                    if og_fin g then
                      if og_data h = [] \<and> og_fin h then ooo_merge cur (om_erase k m) else m
                    else ooo_merge cur
                      (om_erase k (om_put cur \<lparr>og_data = og_data g @ og_data h, og_fin = og_fin h\<rparr> m)))))"
  by pat_completeness auto

lemma om_erase_length: "length (om_erase k m) = length (filter (\<lambda>x. x \<noteq> k) (map fst m))"
  by (simp add: om_erase_def filter_map o_def)

lemma om_length_erase_put:
  assumes "k \<in> fst ` set m"
  shows "length (om_erase k m) < length m" "length (om_erase k (om_put k' v m)) < length m"
proof -
  have "length (filter (\<lambda>x. x \<noteq> k) (map fst m)) < length (map fst m)"
    using assms by (intro length_filter_less [of k]) auto
  thus "length (om_erase k m) < length m" "length (om_erase k (om_put k' v m)) < length m"
    unfolding om_erase_length om_put_keys by simp_all
qed

lemma find_SomeD: "find P xs = Some x \<Longrightarrow> x \<in> set xs \<and> P x"
  by (induction xs) (auto split: if_splits)

lemma ooo_pred_SomeD: "ooo_pred cur m = Some (k, h) \<Longrightarrow>
    (k, h) \<in> set m \<and> k \<noteq> cur \<and> \<not> og_fin h \<and> k + of_nat (og_len h) = cur"
  by (auto simp: ooo_pred_def dest!: find_SomeD)

lemma ooo_succ_SomeD: "ooo_succ cur g m = Some (k, h) \<Longrightarrow> (k, h) \<in> set m \<and> k \<noteq> cur \<and> k = cur + of_nat (og_len g)"
  by (auto simp: ooo_succ_def dest!: find_SomeD)

termination ooo_merge
  by (relation "measure (\<lambda>(cur, m). length m)")
     (auto intro!: om_length_erase_put dest!: map_of_SomeD ooo_pred_SomeD ooo_succ_SomeD intro: rev_image_eqI)

declare ooo_merge.simps [simp del]

definition mark_fin :: "u32 \<Rightarrow> tcp_ctx \<Rightarrow> tcp_ctx" where
  "mark_fin k s = upf (\<lambda>f. f\<lparr>ooo_cache := map (\<lambda>p. if fst p = k then (k, (snd p)\<lparr>og_fin := True\<rparr>) else p) (ooo_cache f)\<rparr>) s"

definition ooo_append_fin :: "u32 \<Rightarrow> tcp_ctx \<Rightarrow> bool \<times> tcp_ctx" where
  "ooo_append_fin seq s =
     (case ooo_fin_scan seq (ooo_cache (cf s)) of
        Fin_reject \<Rightarrow> (False, s)
      | Fin_mark k \<Rightarrow> (True, mark_fin k s)
      | Fin_new \<Rightarrow>
          if length (ooo_cache (cf s)) \<ge> tcp_ooo_max_segments (ccfg s) then (False, rx_dropped_inc s)
          else let m = om_emplace seq \<lparr>og_data = [], og_fin = True\<rparr> (ooo_cache (cf s)) in
            (True, upf (\<lambda>f. f\<lparr>ooo_cache := m, ooo_count := length m\<rparr>) s))"

definition ooo_insert :: "u32 \<Rightarrow> byte list \<Rightarrow> bool \<Rightarrow> ooo_map \<Rightarrow> ooo_map" where
  "ooo_insert seq data fin m =
     ooo_merge seq (om_emplace seq \<lparr>og_data = data, og_fin = fin\<rparr> (ooo_trim seq (length data) (om_begin m) m))"

definition ooo_append :: "u32 \<Rightarrow> byte list \<Rightarrow> bool \<Rightarrow> tcp_ctx \<Rightarrow> bool \<times> tcp_ctx" where
  "ooo_append seq data fin s =
     (let f = cf s; len = length data in
      if len = 0 then (if \<not> fin then (False, s) else ooo_append_fin seq s)
      else
        let sc = ooo_scan_all seq len (ooo_cache f); net_add = size_sub len (sc_overlap sc) in
        if net_add = 0 then
          if \<not> fin \<or> sc_fin_covered sc then (False, s)
          else (case sc_fin_extension sc of None \<Rightarrow> (False, s) | Some k \<Rightarrow> (True, mark_fin k s))
        else if (length (ooo_cache f) \<ge> tcp_ooo_max_segments (ccfg s) \<and> \<not> sc_touches sc) \<or>
                rx_bytes f + ooo_bytes f + net_add > max_rx_queue_per_flow (ccfg s)
        then (False, rx_dropped_inc s)
        else
          let (ok, s) = account_reserve net_add s in
          if \<not> ok then (False, rx_dropped_inc s)
          else let m = ooo_insert seq data (fin \<or> sc_fin_covered sc) (ooo_cache f) in
            (True, upf (\<lambda>f. f\<lparr>ooo_cache := m, ooo_bytes := ooo_bytes f + net_add, ooo_count := length m\<rparr>) s))"

section \<open>Positions\<close>

lemma offset_dist:
  assumes "seq_dist a r < 2 ^ 31" "seq_dist b r < 2 ^ 31"
  shows "ooo_offset b a = int (seq_dist a r) - int (seq_dist b r)"
proof -
  define A B where "A = uint (a - r)" and "B = uint (b - r)"
  have AB: "A = int (seq_dist a r)" "B = int (seq_dist b r)" by (simp_all add: A_def B_def seq_dist_def)
  have r: "0 \<le> A" "A < 2 ^ 31" "0 \<le> B" "B < 2 ^ 31" using assms by (simp_all add: AB)
  have u: "uint (a - b) = (A - B) mod 2 ^ 32"
    using uint_word_ariths(2) [of "a - r" "b - r"] by (simp add: A_def B_def)
  show ?thesis
  proof (cases "B \<le> A")
    case True
    hence "uint (a - b) = A - B" using u r by simp
    thus ?thesis using True r by (simp add: ooo_offset_def sint_u32 AB)
  next
    case False
    hence "(A - B) mod 2 ^ 32 = A - B + 2 ^ 32" using r
      by (subst mod_add_self2 [symmetric], subst mod_pos_pos_trivial) auto
    thus ?thesis using u False r by (simp add: ooo_offset_def sint_u32 AB)
  qed
qed

lemma seq_dist_inj: "seq_dist a r = seq_dist b r \<longleftrightarrow> a = b"
  by (metis seq_dist_cancel)

section \<open>The cache and the peer's stream\<close>

text \<open>
  \<open>S\<close> is the byte stream the peer sends, \<open>N\<close> the number of its bytes received in order, \<open>r\<close> the
  sequence number of byte \<open>N\<close>. \<open>seg_ok S p g\<close>: the segment \<open>g\<close> is a piece of \<open>S\<close> at position \<open>p\<close>,
  and carries FIN only at the end of \<open>S\<close>.
\<close>

definition seg_ok :: "byte list \<Rightarrow> nat \<Rightarrow> ooo_segment \<Rightarrow> bool" where
  "seg_ok S p g \<longleftrightarrow> p + og_len g \<le> length S \<and> og_data g = subl p (og_len g) S \<and>
     (og_fin g \<longrightarrow> p + og_len g = length S) \<and> (og_data g = [] \<longrightarrow> og_fin g)"

abbreviation lo_of :: "u32 \<Rightarrow> u32 \<times> ooo_segment \<Rightarrow> nat" where "lo_of r p \<equiv> seq_dist (fst p) r"
abbreviation hi_of :: "u32 \<Rightarrow> u32 \<times> ooo_segment \<Rightarrow> nat" where "hi_of r p \<equiv> seq_dist (fst p) r + og_len (snd p)"

definition apart :: "u32 \<Rightarrow> u32 \<times> ooo_segment \<Rightarrow> u32 \<times> ooo_segment \<Rightarrow> bool" where
  "apart r p q \<longleftrightarrow> fst p \<noteq> fst q \<and> (hi_of r p \<le> lo_of r q \<or> hi_of r q \<le> lo_of r p)"

definition entry_ok :: "byte list \<Rightarrow> nat \<Rightarrow> u32 \<Rightarrow> u32 \<times> ooo_segment \<Rightarrow> bool" where
  "entry_ok S N r p \<longleftrightarrow> hi_of r p + 1 < 2 ^ 31 \<and> seg_ok S (N + lo_of r p) (snd p)"

definition cache_ok :: "byte list \<Rightarrow> nat \<Rightarrow> u32 \<Rightarrow> ooo_map \<Rightarrow> bool" where
  "cache_ok S N r m \<longleftrightarrow> om_wf m \<and> (\<forall>p\<in>set m. entry_ok S N r p) \<and>
     (\<forall>p\<in>set m. \<forall>q\<in>set m. p \<noteq> q \<longrightarrow> apart r p q)"

definition cache_bytes :: "ooo_map \<Rightarrow> nat" where
  "cache_bytes m = (\<Sum>p\<in>set m. og_len (snd p))"

lemma apart_sym: "apart r p q \<longleftrightarrow> apart r q p"
  by (auto simp: apart_def)

lemma cache_okD:
  assumes "cache_ok S N r m" "(k, g) \<in> set m"
  shows "seq_dist k r + og_len g + 1 < 2 ^ 31" "seg_ok S (N + seq_dist k r) g" "map_of m k = Some g"
  using assms om_get_iff by (fastforce simp: cache_ok_def entry_ok_def)+

text \<open>Replacing some entries \<open>A\<close> of a cache by entries \<open>Q\<close> that lie inside the space of \<open>A\<close>.\<close>

lemma cache_ok_replace:
  assumes m: "cache_ok S N r m" and wf: "om_wf m'" and set: "set m' = (set m - A) \<union> Q"
    and ok: "\<And>q. q \<in> Q \<Longrightarrow> entry_ok S N r q"
    and out: "\<And>q p. q \<in> Q \<Longrightarrow> p \<in> set m - A \<Longrightarrow> apart r q p"
    and ins: "\<And>q q'. q \<in> Q \<Longrightarrow> q' \<in> Q \<Longrightarrow> q \<noteq> q' \<Longrightarrow> apart r q q'"
  shows "cache_ok S N r m'"
  unfolding cache_ok_def set
  using m wf ok out ins apart_sym by (auto simp: cache_ok_def) blast+

lemma cache_ok_subset: "cache_ok S N r m \<Longrightarrow> om_wf m' \<Longrightarrow> set m' \<subseteq> set m \<Longrightarrow> cache_ok S N r m'"
  unfolding cache_ok_def by blast

lemma sum_replace:
  fixes f :: "'a \<Rightarrow> nat"
  assumes "finite M" "A \<subseteq> M" "finite Q" "Q \<inter> (M - A) = {}"
  shows "(\<Sum>p\<in>(M - A) \<union> Q. f p) + (\<Sum>p\<in>A. f p) = (\<Sum>p\<in>M. f p) + (\<Sum>p\<in>Q. f p)"
proof -
  have "(\<Sum>p\<in>(M - A) \<union> Q. f p) = (\<Sum>p\<in>M - A. f p) + (\<Sum>p\<in>Q. f p)"
    using assms by (subst sum.union_disjoint) auto
  moreover have "(\<Sum>p\<in>M. f p) = (\<Sum>p\<in>M - A. f p) + (\<Sum>p\<in>A. f p)"
    using assms by (simp add: sum.subset_diff)
  ultimately show ?thesis by simp
qed

lemma apart_disjoint: "(\<And>q p. q \<in> Q \<Longrightarrow> p \<in> B \<Longrightarrow> apart r q p) \<Longrightarrow> Q \<inter> B = {}"
  by (auto simp: apart_def)

section \<open>Trimming\<close>

text \<open>\<open>clear r x n p\<close>: the entry starts and ends outside the positions \<open>[x, x + n)\<close> of the new segment.\<close>

definition clear :: "u32 \<Rightarrow> nat \<Rightarrow> nat \<Rightarrow> u32 \<times> ooo_segment \<Rightarrow> bool" where
  "clear r x n p \<longleftrightarrow> (lo_of r p < x \<and> hi_of r p \<le> x) \<or> x + n \<le> lo_of r p"

definition ovl :: "u32 \<Rightarrow> nat \<Rightarrow> nat \<Rightarrow> u32 \<times> ooo_segment \<Rightarrow> nat" where
  "ovl r x n p = min (hi_of r p) (x + n) - max (lo_of r p) x"

definition left_piece :: "u32 \<Rightarrow> nat \<Rightarrow> u32 \<times> ooo_segment \<Rightarrow> u32 \<times> ooo_segment" where
  "left_piece r x p = (fst p, \<lparr>og_data = take (x - lo_of r p) (og_data (snd p)), og_fin = False\<rparr>)"

definition right_piece :: "u32 \<Rightarrow> u32 \<Rightarrow> nat \<Rightarrow> u32 \<times> ooo_segment \<Rightarrow> u32 \<times> ooo_segment" where
  "right_piece r seq n p =
     (seq + of_nat n, \<lparr>og_data = drop (seq_dist seq r + n - lo_of r p) (og_data (snd p)), og_fin = og_fin (snd p)\<rparr>)"

definition pieces :: "u32 \<Rightarrow> u32 \<Rightarrow> nat \<Rightarrow> u32 \<times> ooo_segment \<Rightarrow> (u32 \<times> ooo_segment) set" where
  "pieces r seq n p =
     (let x = seq_dist seq r in
      if clear r x n p then {p}
      else (if lo_of r p < x then {left_piece r x p} else {}) \<union>
           (if x + n < hi_of r p then {right_piece r seq n p} else {}))"

lemma left_piece_pos:
  assumes "entry_ok S N r p" "lo_of r p < x" "x \<le> hi_of r p"
  shows "lo_of r (left_piece r x p) = lo_of r p" "hi_of r (left_piece r x p) = x" "entry_ok S N r (left_piece r x p)"
proof -
  have l: "length (take (x - lo_of r p) (og_data (snd p))) = x - lo_of r p" using assms(3) by simp
  show "lo_of r (left_piece r x p) = lo_of r p" "hi_of r (left_piece r x p) = x"
    using assms l by (simp_all add: left_piece_def)
  show "entry_ok S N r (left_piece r x p)"
    using assms l unfolding entry_ok_def seg_ok_def left_piece_def
    by (auto simp: subl_def min_def) (metis (no_types, lifting) take_take min.absorb1 add_diff_cancel_left' diff_le_mono)
qed

lemma right_piece_pos:
  assumes "entry_ok S N r p" "x = seq_dist seq r" "x + n < hi_of r p" "lo_of r p < x + n"
  shows "lo_of r (right_piece r seq n p) = x + n" "hi_of r (right_piece r seq n p) = hi_of r p"
    "entry_ok S N r (right_piece r seq n p)"
proof -
  have d: "seq_dist (seq + of_nat n) r = x + n"
    using assms by (subst seq_dist_add) (auto simp: entry_ok_def)
  show p: "lo_of r (right_piece r seq n p) = x + n" "hi_of r (right_piece r seq n p) = hi_of r p"
    using assms d by (simp_all add: right_piece_def)
  have "og_data (snd p) = subl (N + lo_of r p) (og_len (snd p)) S" using assms(1) by (simp add: entry_ok_def seg_ok_def)
  from arg_cong [OF this, of "drop (x + n - lo_of r p)"]
  have "drop (x + n - lo_of r p) (og_data (snd p)) = subl (N + (x + n)) (hi_of r p - (x + n)) S"
    using assms(4) by (simp add: drop_subl add.commute add.left_commute)
  thus "entry_ok S N r (right_piece r seq n p)"
    using assms d p unfolding entry_ok_def seg_ok_def right_piece_def by (auto simp: assms(2))
qed

lemma pieces_props:
  assumes "entry_ok S N r p" "x = seq_dist seq r" "q \<in> pieces r seq n p" "0 < n"
  shows "entry_ok S N r q" "clear r x n q" "lo_of r p \<le> lo_of r q" "hi_of r q \<le> hi_of r p"
    "q = p \<or> (fst q = fst p \<and> hi_of r q = x) \<or> (lo_of r q = x + n \<and> lo_of r p < x + n \<and> lo_of r q < hi_of r p)"
proof -
  consider "q = p" "clear r x n p" | "\<not> clear r x n p" "lo_of r p < x" "q = left_piece r x p"
    | "\<not> clear r x n p" "x + n < hi_of r p" "q = right_piece r seq n p"
    using assms(2,3) by (auto simp: pieces_def Let_def split: if_splits)
  hence "entry_ok S N r q \<and> clear r x n q \<and> lo_of r p \<le> lo_of r q \<and> hi_of r q \<le> hi_of r p \<and>
      (q = p \<or> fst q = fst p \<and> hi_of r q = x \<or> lo_of r q = x + n \<and> lo_of r p < x + n \<and> lo_of r q < hi_of r p)"
  proof cases
    case 1
    thus ?thesis using assms by simp
  next
    case 2
    thus ?thesis using left_piece_pos [OF assms(1) 2(2)] by (auto simp: clear_def left_piece_def)
  next
    case 3
    thus ?thesis using right_piece_pos [OF assms(1,2) 3(2)] by (auto simp: clear_def)
  qed
  thus "entry_ok S N r q" "clear r x n q" "lo_of r p \<le> lo_of r q" "hi_of r q \<le> hi_of r p"
    "q = p \<or> (fst q = fst p \<and> hi_of r q = x) \<or> (lo_of r q = x + n \<and> lo_of r p < x + n \<and> lo_of r q < hi_of r p)"
    by blast+
qed

lemma clear_ovl: "clear r x n q \<Longrightarrow> ovl r x n q = 0"
  by (auto simp: clear_def ovl_def)

lemma pieces_sums:
  assumes "entry_ok S N r p" "x = seq_dist seq r" "0 < n"
  shows "finite (pieces r seq n p)" "(\<Sum>q\<in>pieces r seq n p. og_len (snd q)) + ovl r x n p = og_len (snd p)"
    "(\<Sum>q\<in>pieces r seq n p. ovl r x n q) = 0"
proof -
  show f: "finite (pieces r seq n p)" by (simp add: pieces_def Let_def)
  show "(\<Sum>q\<in>pieces r seq n p. ovl r x n q) = 0"
    using pieces_props(2) [OF assms(1,2) _ assms(3)] clear_ovl by (intro sum.neutral) blast
  show "(\<Sum>q\<in>pieces r seq n p. og_len (snd q)) + ovl r x n p = og_len (snd p)"
  proof (cases "clear r x n p")
    case True
    thus ?thesis using assms(2) by (auto simp: pieces_def ovl_def clear_def)
  next
    case False
    have l: "og_len (snd (left_piece r x p)) = x - lo_of r p" if "lo_of r p < x"
      using left_piece_pos(1,2) [OF assms(1) that] False that by (auto simp: clear_def)
    have rr: "og_len (snd (right_piece r seq n p)) = hi_of r p - (x + n)" if "x + n < hi_of r p"
      using right_piece_pos(1,2) [OF assms(1,2) that] False that by (auto simp: clear_def)
    have "left_piece r x p \<noteq> right_piece r seq n p" if "lo_of r p < x" "x + n < hi_of r p"
      using left_piece_pos(1) [OF assms(1) that(1)] right_piece_pos(1) [OF assms(1,2) that(2)] that by auto
    thus ?thesis using False l rr by (auto simp: pieces_def ovl_def clear_def assms(2) [symmetric])
  qed
qed

lemma om_others: "om_wf m \<Longrightarrow> (k, g) \<in> set m \<Longrightarrow> {p \<in> set m. fst p \<noteq> k} = set m - {(k, g)}"
  using om_unique by fastforce

lemma cursor_new:
  assumes "om_wf m" "c = om_next k m"
  shows "(\<forall>k'. c = Some k' \<longrightarrow> k' \<in> fst ` set m) \<and> (\<forall>q\<in>set m. (\<forall>k'. c = Some k' \<longrightarrow> fst q < k') \<longrightarrow> fst q \<le> k)"
proof (cases c)
  case None
  thus ?thesis using assms(2) om_next_None [of k m] by auto
next
  case (Some a)
  hence a: "om_next k m = Some a" using assms(2) by simp
  show ?thesis using Some om_next_mem [OF a] om_next_least [OF assms(1) a] by (auto simp: not_le [symmetric])
qed

lemma cursor_old:
  assumes "om_wf m" "c = om_next k m" "set m' = (set m - {(k, g)}) \<union> Q"
  shows "(\<forall>k'. c = Some k' \<longrightarrow> k' \<in> fst ` set m') \<and>
    (\<forall>q\<in>set m'. (\<forall>k'. c = Some k' \<longrightarrow> fst q < k') \<longrightarrow> fst q \<le> k \<or> q \<in> Q)"
proof -
  have "k' \<in> fst ` set m'" if "c = Some k'" for k'
    using om_next_mem [of k m k'] om_next_greater [of k m k'] that assms(2,3) by (force simp: image_iff)
  thus ?thesis using cursor_new [OF assms(1,2)] assms(3) by auto
qed

text \<open>One trimming step replaces the visited entry by its pieces.\<close>

lemma trim_step_set:
  assumes m: "cache_ok S N r m" and p: "(k, g) \<in> set m" and x: "x = seq_dist seq r" "x + n < 2 ^ 31" "0 < n"
    and st: "ooo_trim_step seq n k g m = (c, m')"
  shows "om_wf m' \<and> set m' = (set m - {(k, g)}) \<union> pieces r seq n (k, g) \<and>
    (\<forall>k'. c = Some k' \<longrightarrow> k' \<in> fst ` set m') \<and>
    (\<forall>q\<in>set m'. (\<forall>k'. c = Some k' \<longrightarrow> fst q < k') \<longrightarrow> fst q \<le> k \<or> q \<in> pieces r seq n (k, g))"
proof -
  let ?p = "(k, g)"
  define lo hi where "lo = seq_dist k r" and "hi = seq_dist k r + og_len g"
  have e: "entry_ok S N r ?p" and w: "hi < 2 ^ 31" and wf: "om_wf m"
    using m p by (auto simp: cache_ok_def entry_ok_def hi_def)
  have off: "ooo_offset seq k = int lo - int x"
    using offset_dist [of k r seq] w x by (simp add: lo_def hi_def)
  have zero: "og_data g = [] \<Longrightarrow> og_fin g" using e by (simp add: entry_ok_def seg_ok_def)
  have conflict: "(\<not> max (int lo - int x) 0 < min (int hi - int x) (int n) \<and>
      \<not> (int (og_len g) = 0 \<and> og_fin g \<and> int lo - int x \<ge> 0 \<and> int lo - int x < int n)) = clear r x n ?p"
    using zero x(3) by (cases "og_data g") (auto simp: clear_def lo_def hi_def)
  have hi': "int lo - int x + int (og_len g) = int hi - int x" by (simp add: lo_def hi_def)
  have fresh: "seq + of_nat n \<notin> fst ` (set m - {?p})" if "lo < x + n" "x + n < hi"
  proof
    assume "seq + of_nat n \<in> fst ` (set m - {?p})"
    then obtain q where q: "q \<in> set m" "q \<noteq> ?p" "fst q = seq + of_nat n"
      by (elim imageE) (metis Diff_iff singletonI)
    have "lo_of r q = x + n" unfolding q(3) using x by (subst seq_dist_add) auto
    moreover have "apart r ?p q" using m p q by (auto simp: cache_ok_def)
    ultimately show False using that by (auto simp: apart_def lo_def hi_def)
  qed
  have lp: "left_piece r x ?p = (k, \<lparr>og_data = take (nat (- (int lo - int x))) (og_data g), og_fin = False\<rparr>)" if "lo < x"
    using that by (simp add: left_piece_def lo_def nat_diff_distrib flip: of_nat_diff)
  have rp: "right_piece r seq n ?p = (seq + of_nat n, \<lparr>og_data = drop (nat (int n - (int lo - int x))) (og_data g), og_fin = og_fin g\<rparr>)"
    if "lo \<le> x + n"
  proof -
    have "nat (int n - (int lo - int x)) = x + n - lo" using that by simp
    thus ?thesis by (simp only: right_piece_def fst_conv snd_conv lo_def x(1))
  qed
  have nk: "seq + of_nat n \<noteq> k" if "lo < x + n"
    using seq_dist_add [of seq r n] x that by (auto simp: lo_def)
  consider (clear) "clear r x n ?p" | (split) "\<not> clear r x n ?p" "lo < x" "x + n < hi"
    | (left) "\<not> clear r x n ?p" "lo < x" "\<not> x + n < hi" | (right) "\<not> clear r x n ?p" "\<not> lo < x" "x + n < hi"
    | (gone) "\<not> clear r x n ?p" "\<not> lo < x" "\<not> x + n < hi" by blast
  thus ?thesis
  proof cases
    case clear
    hence "c = om_next k m" "m' = m" "pieces r seq n ?p = {?p}"
      using st conflict unfolding ooo_trim_step_def Let_def off hi' by (auto simp: pieces_def x(1))
    thus ?thesis using cursor_new [OF wf] wf p by (auto simp: insert_absorb)
  next
    case split
    define m1 where "m1 = om_put k (snd (left_piece r x ?p)) m"
    have m1: "om_wf m1" "set m1 = insert (left_piece r x ?p) (set m - {?p})"
      using wf om_put_set [OF p, of "snd (left_piece r x ?p)"] om_others [OF wf p]
      by (simp_all add: m1_def left_piece_def)
    have "fst ` set m1 = insert k (fst ` (set m - {?p}))" using m1(2) by (simp add: left_piece_def)
    hence "seq + of_nat n \<notin> fst ` set m1" using fresh nk split x(3) by auto
    hence s': "set (om_emplace (seq + of_nat n) (snd (right_piece r seq n ?p)) m1) = (set m - {?p}) \<union> pieces r seq n ?p"
      using split m1(2) by (subst om_emplace_set) (auto simp: pieces_def Let_def x(1) [symmetric] right_piece_def lo_def hi_def)
    have m': "m' = om_emplace (seq + of_nat n) (snd (right_piece r seq n ?p)) m1" "c = om_next k m'"
      using st conflict split lp rp x unfolding ooo_trim_step_def Let_def off hi' m1_def by auto
    show ?thesis using cursor_new [of m' c k] m' m1(1) s' by auto
  next
    case left
    have m': "m' = om_put k (snd (left_piece r x ?p)) m" "c = om_next k m'"
      using st conflict left lp unfolding ooo_trim_step_def Let_def off hi' by auto
    have s': "set m' = (set m - {?p}) \<union> pieces r seq n ?p"
      using m'(1) om_put_set [OF p, of "snd (left_piece r x ?p)"] om_others [OF wf p] left
      by (simp add: pieces_def Let_def x(1) [symmetric] lo_def hi_def) (simp add: left_piece_def)
    show ?thesis using cursor_new [of m' c k] m' wf s' by auto
  next
    case right
    have m': "m' = om_emplace (seq + of_nat n) (snd (right_piece r seq n ?p)) (om_erase k m)" "c = om_next k m"
      using st conflict right rp unfolding ooo_trim_step_def Let_def off hi' by (auto simp: clear_def lo_def hi_def)
    have "lo < x + n" using right by (auto simp: clear_def lo_def hi_def)
    hence "seq + of_nat n \<notin> fst ` set (om_erase k m)"
      using fresh right om_others [OF wf p] by auto
    hence s': "set m' = (set m - {?p}) \<union> pieces r seq n ?p"
      using m'(1) right om_others [OF wf p]
      by (simp add: om_emplace_set pieces_def Let_def x(1) [symmetric] lo_def hi_def) (simp add: right_piece_def)
    show ?thesis using cursor_old [OF wf m'(2) s'] m' wf s' by auto
  next
    case gone
    have m': "m' = om_erase k m" "c = om_next k m"
      using st conflict gone unfolding ooo_trim_step_def Let_def off hi' by auto
    have s': "set m' = (set m - {?p}) \<union> pieces r seq n ?p"
      using m'(1) gone om_others [OF wf p] by (simp add: pieces_def Let_def x(1) [symmetric] lo_def hi_def)
    have "om_wf m'" using m'(1) wf by simp
    thus ?thesis using cursor_old [OF wf m'(2) s'] s' by blast
  qed
qed

lemma pieces_apart:
  assumes "entry_ok S N r p" "x = seq_dist seq r" "0 < n" "q \<in> pieces r seq n p"
  shows "apart r p t \<Longrightarrow> apart r q t" "q' \<in> pieces r seq n p \<Longrightarrow> q \<noteq> q' \<Longrightarrow> apart r q q'"
proof -
  note P = pieces_props [OF assms(1,2) _ assms(3)]
  show "apart r q t" if "apart r p t"
    using P(3-5) [OF assms(4)] that by (auto simp: apart_def)
  show "apart r q q'" if "q' \<in> pieces r seq n p" "q \<noteq> q'"
  proof -
    have nc: "\<not> clear r x n p" using assms(2,4) that by (auto simp: pieces_def)
    have "lo_of r p < x \<and> x + n < hi_of r p \<and> (q = left_piece r x p \<and> q' = right_piece r seq n p \<or>
        q' = left_piece r x p \<and> q = right_piece r seq n p)"
      using assms(2,4) that nc by (auto simp: pieces_def Let_def split: if_splits)
    thus ?thesis using left_piece_pos(1,2) [OF assms(1), of x] right_piece_pos(1,2) [OF assms(1,2), of n]
      by (auto simp: apart_def)
  qed
qed

definition ov_sum :: "u32 \<Rightarrow> nat \<Rightarrow> nat \<Rightarrow> ooo_map \<Rightarrow> nat" where
  "ov_sum r x n m = (\<Sum>p\<in>set m. ovl r x n p)"

lemma trim_step_ok:
  assumes m: "cache_ok S N r m" and p: "(k, g) \<in> set m" and x: "x = seq_dist seq r" "x + n < 2 ^ 31" "0 < n"
    and st: "ooo_trim_step seq n k g m = (c, m')"
    and before: "\<forall>q\<in>set m. fst q < k \<longrightarrow> clear r x n q"
  shows "cache_ok S N r m'" "\<forall>k'. c = Some k' \<longrightarrow> k' \<in> fst ` set m'"
    "\<forall>q\<in>set m'. (\<forall>k'. c = Some k' \<longrightarrow> fst q < k') \<longrightarrow> clear r x n q"
    "cache_bytes m' + ov_sum r x n m = cache_bytes m + ov_sum r x n m'"
proof -
  let ?p = "(k, g)" and ?Q = "pieces r seq n (k, g)"
  have e: "entry_ok S N r ?p" and wf: "om_wf m" using m p by (auto simp: cache_ok_def)
  note T = trim_step_set [OF m p x st]
  have out: "apart r q t" if "q \<in> ?Q" "t \<in> set m - {?p}" for q t
    using m p that(2) by (intro pieces_apart(1) [OF e x(1,3) that(1)]) (auto simp: cache_ok_def)
  show "cache_ok S N r m'"
    using T out pieces_props(1) [OF e x(1) _ x(3)] pieces_apart(2) [OF e x(1,3)]
    by (intro cache_ok_replace [OF m, of m' "{?p}" ?Q]) auto
  show "\<forall>k'. c = Some k' \<longrightarrow> k' \<in> fst ` set m'" using T by blast
  show "\<forall>q\<in>set m'. (\<forall>k'. c = Some k' \<longrightarrow> fst q < k') \<longrightarrow> clear r x n q"
  proof (intro ballI impI)
    fix q assume q: "q \<in> set m'" "\<forall>k'. c = Some k' \<longrightarrow> fst q < k'"
    show "clear r x n q"
    proof (cases "q \<in> ?Q")
      case True
      thus ?thesis using pieces_props(2) [OF e x(1) _ x(3)] by blast
    next
      case False
      hence "q \<in> set m" "q \<noteq> ?p" "fst q \<le> k" using T q by auto
      moreover from this have "fst q \<noteq> k" using om_unique [OF wf p] by (metis prod.collapse)
      ultimately show ?thesis using before by auto
    qed
  qed
  have d: "?Q \<inter> (set m - {?p}) = {}" using out by (rule apart_disjoint)
  have "cache_bytes m' + og_len g = cache_bytes m + (\<Sum>q\<in>?Q. og_len (snd q))"
    using sum_replace [of "set m" "{?p}" ?Q "\<lambda>q. og_len (snd q)"] p d pieces_sums(1) [OF e x(1,3)] T
    by (simp add: cache_bytes_def)
  moreover have "ov_sum r x n m' + ovl r x n ?p = ov_sum r x n m"
    using sum_replace [of "set m" "{?p}" ?Q "ovl r x n"] p d pieces_sums [OF e x(1,3)] T
    by (simp add: ov_sum_def)
  ultimately show "cache_bytes m' + ov_sum r x n m = cache_bytes m + ov_sum r x n m'"
    using pieces_sums(2) [OF e x(1,3)] by simp
qed

lemma trim_ok:
  assumes "x = seq_dist seq r" "x + n < 2 ^ 31" "0 < n" "cache_ok S N r m"
    "\<forall>k. c = Some k \<longrightarrow> k \<in> fst ` set m"
    "\<forall>q\<in>set m. (\<forall>k. c = Some k \<longrightarrow> fst q < k) \<longrightarrow> clear r x n q"
  shows "cache_ok S N r (ooo_trim seq n c m) \<and> (\<forall>q\<in>set (ooo_trim seq n c m). clear r x n q) \<and>
    cache_bytes (ooo_trim seq n c m) + ov_sum r x n m = cache_bytes m"
  using assms
proof (induction seq n c m rule: ooo_trim.induct)
  case (1 seq n m)
  hence "ov_sum r x n m = 0" by (simp add: ov_sum_def clear_ovl)
  with 1 show ?case by simp
next
  case (2 seq n k m)
  obtain g where g: "(k, g) \<in> set m" using "2.prems"(5) by auto
  hence mg: "map_of m k = Some g" using cache_okD(3) [OF "2.prems"(4)] by blast
  obtain c m' where st: "ooo_trim_step seq n k g m = (c, m')" by fastforce
  note S = trim_step_ok [OF "2.prems"(4) g "2.prems"(1-3) st]
  have "\<forall>q\<in>set m. fst q < k \<longrightarrow> clear r x n q" using "2.prems"(6) by auto
  with "2.IH" [OF mg] "2.prems"(1-3) S show ?case by (simp add: st mg)
qed

section \<open>Merging\<close>

lemma join_ok:
  assumes m: "cache_ok S N r m" and a: "(a, h) \<in> set m" and b: "(b, g) \<in> set m" and ab: "a \<noteq> b"
    and fin: "\<not> og_fin h" and adj: "a + of_nat (og_len h) = b"
    and m': "om_wf m'" "set m' = (set m - {(a, h), (b, g)}) \<union> {(a, \<lparr>og_data = og_data h @ og_data g, og_fin = og_fin g\<rparr>)}"
  shows "cache_ok S N r m' \<and> cache_bytes m' = cache_bytes m"
proof -
  let ?n = "(a, \<lparr>og_data = og_data h @ og_data g, og_fin = og_fin g\<rparr>)" and ?A = "{(a, h), (b, g)}"
  have e: "entry_ok S N r (a, h)" "entry_ok S N r (b, g)" using m a b by (auto simp: cache_ok_def)
  have pos: "seq_dist b r = seq_dist a r + og_len h"
    using seq_dist_add [of a r "og_len h"] e(1) adj by (auto simp: entry_ok_def)
  have "subl p l S @ subl (p + l) l' S = subl p (l + l') S" for p l l'
    by (simp add: subl_append)
  hence ok: "entry_ok S N r ?n"
    using e pos fin unfolding entry_ok_def seg_ok_def
    by (auto simp: add.assoc) (metis add.assoc)+
  have out: "apart r ?n t" if t: "t \<in> set m - ?A" for t
  proof -
    have "apart r (a, h) t" "apart r (b, g) t" using m a b t by (auto simp: cache_ok_def)
    moreover from this have "lo_of r t \<noteq> seq_dist b r" using seq_dist_inj by (auto simp: apart_def)
    ultimately show ?thesis using pos by (auto simp: apart_def)
  qed
  have "cache_ok S N r m'"
    using m' ok out by (intro cache_ok_replace [OF m, of m' ?A "{?n}"]) auto
  moreover have d: "{?n} \<inter> (set m - ?A) = {}" by (rule apart_disjoint [of _ _ r]) (use out in blast)
  moreover have "cache_bytes m' + (og_len h + og_len g) = cache_bytes m + (og_len h + og_len g)"
    using sum_replace [of "set m" ?A "{?n}" "\<lambda>q. og_len (snd q)"] a b ab m'(2) d
    by (simp add: cache_bytes_def)
  ultimately show ?thesis by simp
qed

lemma put_erase_set:
  assumes "om_wf m" "(a, h) \<in> set m" "(b, g) \<in> set m" "a \<noteq> b"
  shows "set (om_erase b (om_put a v m)) = (set m - {(a, h), (b, g)}) \<union> {(a, v)}"
  using om_put_set [OF assms(2), of v] om_others [OF assms(1,2)] om_others [OF assms(1,3)] assms(4) by auto

lemma merge_ok:
  assumes "cache_ok S N r m"
  shows "cache_ok S N r (ooo_merge cur m) \<and> cache_bytes (ooo_merge cur m) = cache_bytes m"
  using assms
proof (induction cur m rule: ooo_merge.induct)
  case (1 cur m)
  note m = "1.prems"
  have wf: "om_wf m" using m by (simp add: cache_ok_def)
  show ?case
  proof (cases "map_of m cur")
    case None
    thus ?thesis using m by (simp add: ooo_merge.simps)
  next
    case (Some g)
    have g: "(cur, g) \<in> set m" using Some by (rule map_of_SomeD)
    show ?thesis
    proof (cases "ooo_pred cur m")
      case (Some p)
      obtain k h where p: "p = (k, h)" by fastforce
      note P = ooo_pred_SomeD [OF Some [unfolded p]]
      let ?v = "\<lparr>og_data = og_data h @ og_data g, og_fin = og_fin g\<rparr>"
      let ?m = "om_erase cur (om_put k ?v m)"
      have "set ?m = (set m - {(k, h), (cur, g)}) \<union> {(k, ?v)}"
        using P by (intro put_erase_set [OF wf P [THEN conjunct1] g]) blast
      hence j: "cache_ok S N r ?m \<and> cache_bytes ?m = cache_bytes m"
        using P wf by (intro join_ok [OF m, of k h cur g]) (auto simp: g)
      show ?thesis using "1.IH"(3) [OF \<open>map_of m cur = Some g\<close> Some [unfolded p] refl] j
        by (subst (1 2) ooo_merge.simps) (simp add: \<open>map_of m cur = Some g\<close> Some p)
    next
      case None
      note np = None
      show ?thesis
      proof (cases "ooo_succ cur g m")
        case None
        thus ?thesis using m np by (subst (1 2) ooo_merge.simps) (simp add: \<open>map_of m cur = Some g\<close>)
      next
        case (Some p)
        obtain k h where p: "p = (k, h)" by fastforce
        note P = ooo_succ_SomeD [OF Some [unfolded p]]
        note u = ooo_merge.simps [of cur m, unfolded \<open>map_of m cur = Some g\<close> np Some p option.case prod.case]
        show ?thesis
        proof (cases "og_fin g")
          case True
          show ?thesis
          proof (cases "og_data h = [] \<and> og_fin h")
            case e: True
            have s': "set (om_erase k m) = set m - {(k, h)}" using om_others [OF wf P [THEN conjunct1]] by simp
            have c: "cache_ok S N r (om_erase k m)"
              using cache_ok_subset [OF m, of "om_erase k m"] wf s' by auto
            moreover have "cache_bytes (om_erase k m) = cache_bytes m"
              unfolding cache_bytes_def s' using P e by (intro sum.mono_neutral_left) auto
            ultimately show ?thesis
              using "1.IH"(1) [OF \<open>map_of m cur = Some g\<close> np Some [unfolded p] refl True e c] u True e by simp
          next
            case False
            thus ?thesis using u True m by auto
          qed
        next
          case False
          let ?v = "\<lparr>og_data = og_data g @ og_data h, og_fin = og_fin h\<rparr>"
          let ?m = "om_erase k (om_put cur ?v m)"
          have "set ?m = (set m - {(cur, g), (k, h)}) \<union> {(cur, ?v)}"
            using P by (intro put_erase_set [OF wf g P [THEN conjunct1]]) blast
          moreover have "cur \<noteq> k" "cur + of_nat (og_len g) = k" "om_wf ?m" using P wf by auto
          ultimately have j: "cache_ok S N r ?m \<and> cache_bytes ?m = cache_bytes m"
            by (intro join_ok [OF m g P [THEN conjunct1] _ False])
          have "ooo_merge cur m = ooo_merge cur ?m" unfolding u using False by simp
          thus ?thesis using "1.IH"(2) [OF \<open>map_of m cur = Some g\<close> np Some [unfolded p] refl False] j by metis
        qed
      qed
    qed
  qed
qed

section \<open>The scan\<close>

lemma ovl_offset:
  assumes "lo_of r p < 2 ^ 31" "x = seq_dist seq r" "x < 2 ^ 31"
  shows "nat (min (ooo_offset seq (fst p) + int (og_len (snd p))) (int n) - max (ooo_offset seq (fst p)) 0) = ovl r x n p"
  using offset_dist [OF assms(1)] assms(2,3) by (simp add: ovl_def)

lemma scan_fold:
  assumes "\<forall>p\<in>set m. lo_of r p < 2 ^ 31" "x = seq_dist seq r" "x < 2 ^ 31"
  shows "sc_overlap (fold (ooo_scan_step seq n) m c) = sc_overlap c + sum_list (map (ovl r x n) m)"
  using assms(1)
proof (induction m arbitrary: c)
  case (Cons p m)
  have "sc_overlap (ooo_scan_step seq n p c) = sc_overlap c + ovl r x n p"
    using ovl_offset [of p r x seq n] Cons.prems assms(2,3) unfolding ooo_scan_step_def Let_def by (auto split: if_splits)
  thus ?case using Cons by simp
qed simp

lemma scan_fin:
  assumes "\<forall>p\<in>set m. lo_of r p < 2 ^ 31" "x = seq_dist seq r" "x < 2 ^ 31"
  shows "sc_fin_covered (fold (ooo_scan_step seq n) m c) \<Longrightarrow>
      sc_fin_covered c \<or> (\<exists>p\<in>set m. og_fin (snd p) \<and> hi_of r p = x + n)"
    "sc_fin_extension (fold (ooo_scan_step seq n) m c) = Some k \<Longrightarrow>
      sc_fin_extension c = Some k \<or> (\<exists>p\<in>set m. fst p = k \<and> \<not> og_fin (snd p) \<and> hi_of r p = x + n)"
proof -
  have st: "(sc_fin_covered (ooo_scan_step seq n p c) \<longrightarrow> sc_fin_covered c \<or> og_fin (snd p) \<and> hi_of r p = x + n) \<and>
      (sc_fin_extension (ooo_scan_step seq n p c) = Some k \<longrightarrow>
       sc_fin_extension c = Some k \<or> fst p = k \<and> \<not> og_fin (snd p) \<and> hi_of r p = x + n)"
    if "lo_of r p < 2 ^ 31" for p c
    using offset_dist [OF that, of seq] assms(2,3) unfolding ooo_scan_step_def Let_def
    by (auto split: if_splits)
  show "sc_fin_covered c \<or> (\<exists>p\<in>set m. og_fin (snd p) \<and> hi_of r p = x + n)"
    if "sc_fin_covered (fold (ooo_scan_step seq n) m c)" for c
    using assms(1) that
  proof (induction m arbitrary: c)
    case (Cons p m)
    thus ?case using st [of p c] Cons.IH [of "ooo_scan_step seq n p c"] by auto
  qed simp
  show "sc_fin_extension c = Some k \<or> (\<exists>p\<in>set m. fst p = k \<and> \<not> og_fin (snd p) \<and> hi_of r p = x + n)"
    if "sc_fin_extension (fold (ooo_scan_step seq n) m c) = Some k" for c
    using assms(1) that
  proof (induction m arbitrary: c)
    case (Cons p m)
    thus ?case using st [of p c] Cons.IH [of "ooo_scan_step seq n p c"] by auto
  qed simp
qed

lemma ov_sum_le:
  assumes "cache_ok S N r m"
  shows "ov_sum r x n m \<le> n"
proof -
  define I where "I p = {lo_of r p..<hi_of r p} \<inter> {x..<x + n}" for p
  have "ovl r x n p = card (I p)" for p
    by (simp add: ovl_def I_def min_def max_def)
  moreover have "I p \<inter> I q = {}" if "p \<in> set m" "q \<in> set m" "p \<noteq> q" for p q
    using assms that unfolding cache_ok_def apart_def I_def by fastforce
  ultimately have "ov_sum r x n m = card (\<Union>p\<in>set m. I p)"
    unfolding ov_sum_def by (subst card_UN_disjoint) (auto simp: I_def)
  also have "\<dots> \<le> card {x..<x + n}" by (rule card_mono) (auto simp: I_def)
  finally show ?thesis by simp
qed

lemma scan_overlap:
  assumes "cache_ok S N r m" "x = seq_dist seq r" "x < 2 ^ 31"
  shows "sc_overlap (ooo_scan_all seq n m) = ov_sum r x n m"
proof -
  have "\<forall>p\<in>set m. lo_of r p < 2 ^ 31" using assms(1) by (auto simp: cache_ok_def entry_ok_def)
  thus ?thesis using scan_fold [OF _ assms(2,3), of m n] assms(1)
    by (simp add: ooo_scan_all_def ov_sum_def cache_ok_def om_wf_distinct_list sum_list_distinct_conv_sum_set)
qed

section \<open>Appending a segment\<close>

lemma insert_ok:
  assumes m: "cache_ok S N r m" and x: "x = seq_dist seq r" "x + length data + 1 < 2 ^ 31" "data \<noteq> []"
    and ok: "seg_ok S (N + x) \<lparr>og_data = data, og_fin = fin\<rparr>"
  shows "cache_ok S N r (ooo_insert seq data fin m) \<and>
    cache_bytes (ooo_insert seq data fin m) + ov_sum r x (length data) m = cache_bytes m + length data"
proof -
  let ?n = "length data" and ?v = "\<lparr>og_data = data, og_fin = fin\<rparr>"
  define t where "t = ooo_trim seq ?n (om_begin m) m"
  have wf: "om_wf m" using m by (simp add: cache_ok_def)
  have b: "\<forall>k. om_begin m = Some k \<longrightarrow> k \<in> fst ` set m"
    "\<forall>q\<in>set m. (\<forall>k. om_begin m = Some k \<longrightarrow> fst q < k) \<longrightarrow> clear r x ?n q"
    using om_begin_mem [of m] om_begin_least [OF wf] om_begin_None [of m] by (fastforce simp: not_le [symmetric])+
  have t: "cache_ok S N r t" "\<forall>q\<in>set t. clear r x ?n q" "cache_bytes t + ov_sum r x ?n m = cache_bytes m"
    using trim_ok [OF x(1) _ _ m b] x(2,3) by (simp_all add: t_def)
  have new: "seq \<notin> fst ` set t" using t(2) x by (auto simp: clear_def)
  have out: "apart r (seq, ?v) p" if "p \<in> set t" for p
    using t(2) that x seq_dist_inj by (auto simp: apart_def clear_def)
  have e: "entry_ok S N r (seq, ?v)" using ok x by (simp add: entry_ok_def)
  have set: "set (om_emplace seq ?v t) = (set t - {}) \<union> {(seq, ?v)}" using new by (simp add: om_emplace_set)
  have "cache_ok S N r (om_emplace seq ?v t)"
    by (rule cache_ok_replace [OF t(1) _ set]) (use t(1) e out in \<open>auto simp: cache_ok_def\<close>)
  moreover have "cache_bytes (om_emplace seq ?v t) = cache_bytes t + ?n"
  proof -
    have "(seq, ?v) \<notin> set t" using new by (metis fst_conv image_eqI)
    thus ?thesis using set by (simp add: cache_bytes_def)
  qed
  ultimately show ?thesis using merge_ok [of S N r "om_emplace seq ?v t" seq] t(3)
    by (simp add: ooo_insert_def flip: t_def)
qed

lemma mark_ok:
  assumes m: "cache_ok S N r m" and fin: "\<And>g. (k, g) \<in> set m \<Longrightarrow> N + seq_dist k r + og_len g = length S"
    and "m' = map (\<lambda>p. if fst p = k then (k, (snd p)\<lparr>og_fin := True\<rparr>) else p) m"
  shows "cache_ok S N r m' \<and> cache_bytes m' = cache_bytes m"
proof -
  define h where "h = (\<lambda>p :: u32 \<times> ooo_segment. if fst p = k then (k, (snd p)\<lparr>og_fin := True\<rparr>) else p)"
  have m': "m' = map h m" using assms(3) by (simp add: h_def)
  have f: "fst (h p) = fst p" "og_data (snd (h p)) = og_data (snd p)" for p :: "u32 \<times> ooo_segment" by (auto simp: h_def)
  have inj: "inj_on h (set m)"
    using m om_unique [of m] unfolding cache_ok_def by (intro inj_onI) (metis f(1) prod.collapse)
  have wf: "om_wf m'" using m by (auto simp: m' cache_ok_def om_wf_def f o_def cong: map_cong)
  have "entry_ok S N r (h p)" if "p \<in> set m" for p
  proof (cases "fst p = k")
    case True
    thus ?thesis using m fin [of "snd p"] that by (cases p) (auto simp: cache_ok_def entry_ok_def seg_ok_def h_def)
  next
    case False
    thus ?thesis using m that by (simp add: cache_ok_def h_def)
  qed
  moreover have "apart r (h p) (h q)" if "p \<in> set m" "q \<in> set m" "h p \<noteq> h q" for p q
    using m that unfolding cache_ok_def apart_def f by metis
  ultimately have "cache_ok S N r m'" using wf unfolding cache_ok_def m' by auto
  moreover have "cache_bytes m' = cache_bytes m"
    unfolding cache_bytes_def m' set_map using inj by (simp add: sum.reindex f o_def)
  ultimately show ?thesis by simp
qed

lemma fin_scan_cases:
  assumes "\<forall>p\<in>set m. lo_of r p < 2 ^ 31" "x = seq_dist seq r" "x < 2 ^ 31"
  shows "ooo_fin_scan seq m = Fin_mark k \<Longrightarrow> \<exists>g. (k, g) \<in> set m \<and> seq_dist k r + og_len g = x"
    "ooo_fin_scan seq m = Fin_new \<Longrightarrow> p \<in> set m \<Longrightarrow> x < lo_of r p \<or> (lo_of r p < x \<and> hi_of r p \<le> x)"
  using assms(1)
proof (induction m)
  case (Cons q m)
  obtain k' g where q: "q = (k', g)" by fastforce
  note off = offset_dist [of k' r seq]
  { case 1 thus ?case using Cons.IH(1) off assms(2,3) by (auto simp: q Let_def split: if_splits) }
  { case 2 thus ?case using Cons.IH(2) off assms(2,3) by (auto simp: q Let_def split: if_splits) }
qed simp_all

lemma append_fin_ok:
  assumes m: "cache_ok S N r m" and x: "x = seq_dist seq r" "x + 1 < 2 ^ 31" "N + x = length S"
  shows "ooo_fin_scan seq m = Fin_mark k \<Longrightarrow>
      m' = map (\<lambda>p. if fst p = k then (k, (snd p)\<lparr>og_fin := True\<rparr>) else p) m \<Longrightarrow>
      cache_ok S N r m' \<and> cache_bytes m' = cache_bytes m"
    "ooo_fin_scan seq m = Fin_new \<Longrightarrow> m' = om_emplace seq \<lparr>og_data = [], og_fin = True\<rparr> m \<Longrightarrow>
      cache_ok S N r m' \<and> cache_bytes m' = cache_bytes m"
proof -
  have lo: "\<forall>p\<in>set m. lo_of r p < 2 ^ 31" using m by (auto simp: cache_ok_def entry_ok_def)
  have x2: "x < 2 ^ 31" using x(2) by simp
  { assume "ooo_fin_scan seq m = Fin_mark k" and m': "m' = map (\<lambda>p. if fst p = k then (k, (snd p)\<lparr>og_fin := True\<rparr>) else p) m"
    then obtain g where g: "(k, g) \<in> set m" "seq_dist k r + og_len g = x" using fin_scan_cases(1) [OF lo x(1) x2] by blast
    have "N + seq_dist k r + og_len g' = length S" if "(k, g') \<in> set m" for g'
      using om_unique [OF _ g(1) that] m g(2) x(3) by (auto simp: cache_ok_def)
    thus "cache_ok S N r m' \<and> cache_bytes m' = cache_bytes m" using mark_ok [OF m _ m'] by blast }
  { assume "ooo_fin_scan seq m = Fin_new" and m': "m' = om_emplace seq \<lparr>og_data = [], og_fin = True\<rparr> m"
    let ?v = "\<lparr>og_data = [], og_fin = True\<rparr>"
    have c: "x < lo_of r p \<or> (lo_of r p < x \<and> hi_of r p \<le> x)" if "p \<in> set m" for p
      using fin_scan_cases(2) [OF lo x(1) x2 \<open>ooo_fin_scan seq m = Fin_new\<close> that] .
    have "seq \<notin> fst ` set m" using c x(1) by fastforce
    hence set: "set m' = (set m - {}) \<union> {(seq, ?v)}" "(seq, ?v) \<notin> set m"
      by (auto simp: m' om_emplace_set rev_image_eqI)
    have "apart r (seq, ?v) p" if "p \<in> set m" for p
      using c [OF that] x(1) by (auto simp: apart_def)
    hence "cache_ok S N r m'"
      by (intro cache_ok_replace [OF m _ set(1)]) (use m x in \<open>auto simp: cache_ok_def m' entry_ok_def seg_ok_def subl_def\<close>)
    moreover have "cache_bytes m' = cache_bytes m" unfolding cache_bytes_def set(1) using set(2) by simp
    ultimately show "cache_ok S N r m' \<and> cache_bytes m' = cache_bytes m" by simp }
qed

text \<open>
  What \<open>ooo_append\<close> may change: the cache and its counters, the accountant and the drop counter.
\<close>

definition caches :: "tcp_ctx \<Rightarrow> tcp_ctx \<Rightarrow> bool" where
  "caches s s' \<longleftrightarrow>
     cf s' = (cf s)\<lparr>ooo_cache := ooo_cache (cf s'), ooo_bytes := ooo_bytes (cf s'), ooo_count := ooo_count (cf s')\<rparr> \<and>
     ce s' = (ce s)\<lparr>te_env := cenv s'\<rparr> \<and> cx s' = cx s \<and>
     e_posted (cenv s') = e_posted (cenv s) \<and> e_now (cenv s') = e_now (cenv s) \<and>
     tcp_connections (e_stats (cenv s')) = tcp_connections (e_stats (cenv s)) \<and>
     acc_limit (e_account (cenv s')) = acc_limit (e_account (cenv s))"

lemma rx_dropped_inc_simps [simp]:
  "cf (rx_dropped_inc s) = cf s" "cx (rx_dropped_inc s) = cx s" "e_posted (cenv (rx_dropped_inc s)) = e_posted (cenv s)"
  "e_account (cenv (rx_dropped_inc s)) = e_account (cenv s)" "e_now (cenv (rx_dropped_inc s)) = e_now (cenv s)"
  "tcp_connections (e_stats (cenv (rx_dropped_inc s))) = tcp_connections (e_stats (cenv s))"
  "te_cfg (ce (rx_dropped_inc s)) = te_cfg (ce s)"
  by (simp_all add: rx_dropped_inc_def add_rx_dropped_def)

lemma caches_refl [simp]: "caches s s"
  by (simp add: caches_def)

lemma caches_drop [simp]: "caches s (rx_dropped_inc s)"
  by (simp add: caches_def rx_dropped_inc_def add_rx_dropped_def)

lemma caches_trans:
  assumes "caches a b" "caches b c" shows "caches a c"
proof -
  have "cf c = (cf a)\<lparr>ooo_cache := ooo_cache (cf c), ooo_bytes := ooo_bytes (cf c), ooo_count := ooo_count (cf c)\<rparr>"
    using assms by (cases "cf a"; cases "cf b"; cases "cf c") (simp add: caches_def)
  moreover have "ce c = (ce a)\<lparr>te_env := cenv c\<rparr>"
    using assms by (cases "ce a"; cases "ce b"; cases "ce c") (simp add: caches_def)
  ultimately show ?thesis using assms by (auto simp: caches_def)
qed

lemma ooo_append_caches: "ooo_append seq data fin s = (ok, s') \<Longrightarrow> caches s s'"
proof -
  have u: "caches s (upf (\<lambda>f. f\<lparr>ooo_cache := m, ooo_bytes := b f, ooo_count := c f\<rparr>) s)" for m b c s
    by (simp add: caches_def)
  have u': "caches s (mark_fin k s)" "caches s (upf (\<lambda>f. f\<lparr>ooo_cache := m, ooo_count := c\<rparr>) s)" for k m c
    by (simp_all add: caches_def mark_fin_def)
  have r: "caches s s1" if "account_reserve n s = (b, s1)" for n b s1
    using account_reserve_cases(2) [OF that] by (simp add: caches_def)
  assume a: "ooo_append seq data fin s = (ok, s')"
  show ?thesis
  proof (cases "data = []")
    case True
    thus ?thesis using a u'
      by (auto simp: ooo_append_def ooo_append_fin_def Let_def split: if_splits fin_scan.splits)
  next
    case False
    thus ?thesis using a u' caches_trans [OF r caches_drop] caches_trans [OF r u]
      by (auto simp: ooo_append_def Let_def split: if_splits option.splits prod.splits)
  qed
qed

lemma ooo_append_ok:
  assumes m: "cache_ok S N r (ooo_cache (cf s))" and b: "ooo_bytes (cf s) = cache_bytes (ooo_cache (cf s))"
    and x: "x = seq_dist seq r" "x + length data + 1 < 2 ^ 31"
    and ok: "data \<noteq> [] \<or> fin \<Longrightarrow> seg_ok S (N + x) \<lparr>og_data = data, og_fin = fin\<rparr>"
    and a: "ooo_append seq data fin s = (res, s')"
  shows "cache_ok S N r (ooo_cache (cf s')) \<and> ooo_bytes (cf s') = cache_bytes (ooo_cache (cf s')) \<and>
    acc_used (e_account (cenv s')) + ooo_bytes (cf s) = acc_used (e_account (cenv s)) + ooo_bytes (cf s') \<and>
    (res \<longrightarrow> rx_bytes (cf s) + ooo_bytes (cf s') \<le> max (max_rx_queue_per_flow (ccfg s)) (rx_bytes (cf s) + ooo_bytes (cf s))) \<and>
    (\<not> res \<longrightarrow> cf s' = cf s)"
proof (cases "data = []")
  case True
  show ?thesis
  proof (cases fin)
    case fin: True
    hence "N + x = length S" using ok True by (simp add: seg_ok_def)
    note F = append_fin_ok [OF m x(1) _ this]
    show ?thesis
    proof (cases "ooo_fin_scan seq (ooo_cache (cf s))")
      case (Fin_mark k)
      thus ?thesis using a F(1) [of k, OF _ Fin_mark refl] x True fin m b
        by (auto simp: ooo_append_def ooo_append_fin_def mark_fin_def)
    qed (use a F(2) [OF _ _ refl] x True fin m b in \<open>auto simp: ooo_append_def ooo_append_fin_def Let_def split: if_splits\<close>)
  qed (use a True m b in \<open>simp add: ooo_append_def\<close>)
next
  case False
  define n sc net where "n = length data" and "sc = ooo_scan_all seq n (ooo_cache (cf s))" and "net = size_sub n (sc_overlap sc)"
  have lo: "\<forall>p\<in>set (ooo_cache (cf s)). lo_of r p < 2 ^ 31" using m by (auto simp: cache_ok_def entry_ok_def)
  have ov: "sc_overlap sc = ov_sum r x n (ooo_cache (cf s))" "ov_sum r x n (ooo_cache (cf s)) \<le> n"
    using scan_overlap [OF m x(1)] x ov_sum_le [OF m] by (simp_all add: sc_def)
  have S: "seg_ok S (N + x) \<lparr>og_data = data, og_fin = fin\<rparr>" using ok False by simp
  note F = scan_fin [OF lo x(1), of n "\<lparr>sc_overlap = 0, sc_fin_covered = False, sc_touches = False, sc_fin_extension = None\<rparr>", folded ooo_scan_all_def]
  have covered: "N + x + n = length S" if "sc_fin_covered sc"
    using F(1) that x m unfolding sc_def cache_ok_def entry_ok_def seg_ok_def by fastforce
  have S': "seg_ok S (N + x) \<lparr>og_data = data, og_fin = fin \<or> sc_fin_covered sc\<rparr>"
    using S covered by (auto simp: seg_ok_def n_def)
  have u: "ooo_append seq data fin s =
     (if net = 0 then
        if \<not> fin \<or> sc_fin_covered sc then (False, s)
        else (case sc_fin_extension sc of None \<Rightarrow> (False, s) | Some k \<Rightarrow> (True, mark_fin k s))
      else if (length (ooo_cache (cf s)) \<ge> tcp_ooo_max_segments (ccfg s) \<and> \<not> sc_touches sc) \<or>
              rx_bytes (cf s) + ooo_bytes (cf s) + net > max_rx_queue_per_flow (ccfg s)
      then (False, rx_dropped_inc s)
      else
        let (ok, s1) = account_reserve net s in
        if \<not> ok then (False, rx_dropped_inc s1)
        else let m = ooo_insert seq data (fin \<or> sc_fin_covered sc) (ooo_cache (cf s)) in
          (True, upf (\<lambda>f. f\<lparr>ooo_cache := m, ooo_bytes := ooo_bytes f + net, ooo_count := length m\<rparr>) s1))"
    using False unfolding ooo_append_def Let_def n_def sc_def net_def by simp
  show ?thesis
  proof (cases "net = 0")
    case True
    show ?thesis
    proof (cases "fin \<and> \<not> sc_fin_covered sc \<and> sc_fin_extension sc \<noteq> None")
      case e: True
      then obtain k where k: "sc_fin_extension sc = Some k" by auto
      then obtain g where g: "(k, g) \<in> set (ooo_cache (cf s))" "seq_dist k r + og_len g = x + n"
        using F(2) [of k] x by (auto simp: sc_def)
      have "N + seq_dist k r + og_len g' = length S" if "(k, g') \<in> set (ooo_cache (cf s))" for g'
        using om_unique [OF _ g(1) that] m g(2) S e by (auto simp: cache_ok_def seg_ok_def n_def)
      note M = mark_ok [OF m this refl]
      have "res" "s' = mark_fin k s" using a [unfolded u] e True k by simp_all
      thus ?thesis using M b by (simp add: mark_fin_def)
    next
      case e: False
      hence "\<not> res \<and> s' = s" using a [unfolded u] True
        by (auto split: if_splits option.splits)
      thus ?thesis using m b by simp
    qed
  next
    case nz: False
    have net: "net = n - ov_sum r x n (ooo_cache (cf s))" using ov by (simp add: net_def)
    obtain rv s1 where rv: "account_reserve net s = (rv, s1)" by fastforce
    note R = account_reserve_cases [OF rv]
    show ?thesis
    proof (cases "(length (ooo_cache (cf s)) \<ge> tcp_ooo_max_segments (ccfg s) \<and> \<not> sc_touches sc) \<or>
                rx_bytes (cf s) + ooo_bytes (cf s) + net > max_rx_queue_per_flow (ccfg s) \<or> \<not> rv")
      case True
      hence "\<not> res \<and> (s' = rx_dropped_inc s \<or> (s' = rx_dropped_inc s1 \<and> \<not> rv))" using a [unfolded u] nz rv
        by (auto simp: Let_def split: if_splits)
      thus ?thesis using m b R by auto
    next
      case ins: False
      let ?m = "ooo_insert seq data (fin \<or> sc_fin_covered sc) (ooo_cache (cf s))"
      have "res \<and> s' = upf (\<lambda>f. f\<lparr>ooo_cache := ?m, ooo_bytes := ooo_bytes f + net, ooo_count := length ?m\<rparr>) s1"
        using a [unfolded u] nz rv ins by (auto simp: Let_def split: if_splits)
      moreover have "cache_ok S N r ?m \<and> cache_bytes ?m = cache_bytes (ooo_cache (cf s)) + net"
        using insert_ok [OF m x False S'] net ov(2) unfolding n_def by linarith
      ultimately show ?thesis using b R ins by auto
    qed
  qed
qed

end
