(* ===== verification/Tcp_Receive.thy ===== *)
theory Tcp_Receive
  imports Tcp_Ooo
begin

text \<open>
  The receive path of the TCP engine (\<^verbatim>\<open>src/tcp_engine.cpp\<close>): in-order delivery to a
  pending read or the receive queue (\<^verbatim>\<open>deliver_data\<close>, \<^verbatim>\<open>flush_reads\<close>), draining the
  out-of-order cache (\<^verbatim>\<open>flush_ooo\<close>), FIN processing (\<^verbatim>\<open>handle_fin\<close>) and the dispatch
  on the segment's position (\<^verbatim>\<open>handle_data\<close>), with the facts about what each of them feeds to
  the application. The stream invariant and its preservation are in \<open>Tcp_Stream\<close>, the integrity of the
  whole stream over every run in \<open>Tcp_Integrity\<close>.
\<close>

section \<open>Delivery\<close>

text \<open>\<^verbatim>\<open>flush_reads\<close> in three parts: complete the pending read, compact the buffer, report EOF.\<close>

definition flush_read_data :: "tcp_ctx \<Rightarrow> tcp_ctx" where
  "flush_read_data s =
     (case active_read (cf s) of
        Some op \<Rightarrow>
          if rx_bytes (cf s) > 0 then
            let n = min (ro_total op) (rx_bytes (cf s));
                (chunks, copied) = scatter (ro_buffers op) n (drop (rx_head (cf s)) (rx_data (cf s))) 0;
                s = upf (\<lambda>f. f\<lparr>active_read := None, rx_head := rx_head f + copied,
                              rx_bytes := size_sub (rx_bytes f) copied\<rparr>) s;
                s = account_release copied s;
                s = post_ctx (Done_read (ro_handler op) EC_ok copied chunks) s;
                s = notify_window_updated s
            in flush_pending_ack s
          else s
      | None \<Rightarrow> s)"

definition compact_rx :: "tcp_ctx \<Rightarrow> tcp_ctx" where
  "compact_rx s =
     (if rx_head (cf s) > 0 \<and> rx_head (cf s) * 2 \<ge> length (rx_data (cf s))
      then upf (\<lambda>f. f\<lparr>rx_data := drop (rx_head f) (rx_data f), rx_head := 0\<rparr>) s else s)"

definition flush_eof :: "tcp_ctx \<Rightarrow> tcp_ctx" where
  "flush_eof s =
     (case active_read (cf s) of
        Some op \<Rightarrow>
          if rx_bytes (cf s) = 0 \<and> fin_received (cf s)
          then post_ctx (Done_read (ro_handler op) EC_eof 0 []) (upf (\<lambda>f. f\<lparr>active_read := None\<rparr>) s)
          else s
      | None \<Rightarrow> s)"

definition flush_reads :: "tcp_ctx \<Rightarrow> tcp_ctx" where
  "flush_reads s = flush_eof (compact_rx (flush_read_data s))"

text \<open>Delivery into a waiting read while the receive buffer is empty.\<close>

definition direct_take :: "read_op \<Rightarrow> byte list \<Rightarrow> tcp_ctx \<Rightarrow> tcp_ctx" where
  "direct_take op data s =
     (let len = length data; n = min (ro_total op) len;
          chunks = fst (scatter (ro_buffers op) n data 0);
          s = upf (\<lambda>f. f\<lparr>active_read := None, rcv_nxt := rcv_nxt f + of_nat len\<rparr>) s;
          s = account_release n s;
          s = (if n < len
               then upf (\<lambda>f. f\<lparr>rx_data := rx_data f @ drop n data, rx_bytes := rx_bytes f + (len - n)\<rparr>) s
               else s)
      in post_ctx (Done_read (ro_handler op) EC_ok n chunks) s)"

definition deliver_direct :: "read_op \<Rightarrow> byte list \<Rightarrow> tcp_ctx \<Rightarrow> tcp_ctx" where
  "deliver_direct op data s =
     (let n = min (ro_total op) (length data); s = direct_take op data s
      in if fl_state (cf s) = CLOSED then s
         else send_ack (if n < length data then flush_reads s else s))"

definition deliver_queued :: "byte list \<Rightarrow> tcp_ctx \<Rightarrow> tcp_ctx" where
  "deliver_queued data s =
     flush_reads (note_data_ack
       (upf (\<lambda>f. f\<lparr>rx_data := rx_data f @ data, rx_bytes := rx_bytes f + length data,
                   rcv_nxt := rcv_nxt f + of_nat (length data)\<rparr>) s))"

definition deliver_data :: "byte list \<Rightarrow> tcp_ctx \<Rightarrow> tcp_ctx" where
  "deliver_data data s =
     (let len = length data in
      if len = 0 then s
      else if rx_shutdown (cf s) then send_ack (upf (\<lambda>f. f\<lparr>rcv_nxt := rcv_nxt f + of_nat len\<rparr>) s)
      else if rx_bytes (cf s) + len > max_rx_queue_per_flow (ccfg s) then rx_dropped_inc s
      else
        let (ok, s) = account_reserve len s in
        if \<not> ok then rx_dropped_inc s
        else case (rx_data (cf s), active_read (cf s)) of
            ([], Some op) \<Rightarrow> deliver_direct op data s
          | _ \<Rightarrow> deliver_queued data s)"

section \<open>FIN\<close>

definition fin_state :: "tcp_ctx \<Rightarrow> tcp_ctx" where
  "fin_state s =
     (case fl_state (cf s) of
        ESTABLISHED \<Rightarrow> upf (\<lambda>f. f\<lparr>fl_state := CLOSE_WAIT\<rparr>) s
      | FIN_WAIT_2 \<Rightarrow> upf (\<lambda>f. f\<lparr>fl_state := TIME_WAIT, destroy_at := cnow s + tcp_time_wait_timeout (ccfg s)\<rparr>) s
      | _ \<Rightarrow> s)"

definition handle_fin :: "u32 \<Rightarrow> tcp_ctx \<Rightarrow> tcp_ctx" where
  "handle_fin fin_seq s =
     (if fin_seq = rcv_nxt (cf s) then
        let s = (if \<not> fin_received (cf s)
                 then upf (\<lambda>f. f\<lparr>rcv_nxt := rcv_nxt f + 1, fin_received := True\<rparr>) s else s)
        in flush_reads (fin_state (send_ack s))
      else if fin_received (cf s) \<and> fin_seq = rcv_nxt (cf s) - 1 then send_ack s
      else s)"

section \<open>Frames\<close>

lemma simple_ctx_simps [simp]:
  "cf (account_release n s) = cf s" "cx (account_release n s) = cx s" "cf (post_ctx c s) = cf s" "cx (post_ctx c s) = cx s"
  "ce (account_release n s) = (ce s)\<lparr>te_env := (cenv s)\<lparr>e_account := acct_release n (e_account (cenv s))\<rparr>\<rparr>"
  "ce (post_ctx c s) = (ce s)\<lparr>te_env := (cenv s)\<lparr>e_posted := e_posted (cenv s) @ [c]\<rparr>\<rparr>"
  by (simp_all add: account_release_def post_ctx_def post_completion_on_def)

text \<open>
  \<open>reads s s'\<close>: a step that completes reads and emits segments. It keeps the
  send positions, the cache, the connection state, the tables and the limits.
\<close>

definition reads :: "tcp_ctx \<Rightarrow> tcp_ctx \<Rightarrow> bool" where
  "reads s s' \<longleftrightarrow>
     fl_id (cf s') = fl_id (cf s) \<and> fl_key (cf s') = fl_key (cf s) \<and> fl_state (cf s') = fl_state (cf s) \<and>
     snd_nxt (cf s') = snd_nxt (cf s) \<and> snd_una (cf s') = snd_una (cf s) \<and>
     fin_received (cf s') = fin_received (cf s) \<and> fin_sent (cf s') = fin_sent (cf s) \<and>
     rx_shutdown (cf s') = rx_shutdown (cf s) \<and> app_closed (cf s') = app_closed (cf s) \<and> fl_rst (cf s') = fl_rst (cf s) \<and>
     ooo_cache (cf s') = ooo_cache (cf s) \<and> ooo_bytes (cf s') = ooo_bytes (cf s) \<and> ooo_count (cf s') = ooo_count (cf s) \<and>
     active_write (cf s') = active_write (cf s) \<and> accepted (cf s') = accepted (cf s) \<and>
     pending_accept (cf s') = pending_accept (cf s) \<and> created_at (cf s') = created_at (cf s) \<and>
     ce s' = (ce s)\<lparr>te_env := cenv s'\<rparr> \<and> e_now (cenv s') = e_now (cenv s) \<and>
     tcp_connections (e_stats (cenv s')) = tcp_connections (e_stats (cenv s)) \<and>
     acc_limit (e_account (cenv s')) = acc_limit (e_account (cenv s))"

lemma reads_refl [simp]: "reads s s"
  by (simp add: reads_def)

lemma reads_trans:
  assumes "reads a b" "reads b c" shows "reads a c"
proof -
  have "ce c = (ce a)\<lparr>te_env := cenv c\<rparr>"
    using assms by (cases "ce a"; cases "ce b"; cases "ce c") (simp add: reads_def)
  thus ?thesis using assms unfolding reads_def by simp
qed

lemma sends_reads: "sends s s' \<Longrightarrow> reads s s'"
  unfolding reads_def by (simp add: sends_flow sends_engine)

lemma basic_reads:
  "reads s (account_release n s)" "reads s (post_ctx c s)" "reads s (rx_dropped_inc s)"
  "reads s (upf (\<lambda>f. f\<lparr>active_read := a, rx_head := h f, rx_bytes := b f\<rparr>) s)"
  "reads s (upf (\<lambda>f. f\<lparr>rx_data := d f, rx_head := n\<rparr>) s)" "reads s (upf (\<lambda>f. f\<lparr>active_read := a\<rparr>) s)"
  "reads s (upf (\<lambda>f. f\<lparr>active_read := a, rcv_nxt := r f\<rparr>) s)"
  "reads s (upf (\<lambda>f. f\<lparr>rx_data := d f, rx_bytes := b f\<rparr>) s)" "reads s (upf (\<lambda>f. f\<lparr>rcv_nxt := r f\<rparr>) s)"
  "reads s (upf (\<lambda>f. f\<lparr>rx_data := d f, rx_bytes := b f, rcv_nxt := r f\<rparr>) s)"
  "reads s (upf (\<lambda>f. f\<lparr>ack_pending := p, ack_timer := t\<rparr>) s)"
  by (simp_all add: reads_def acct_release_def rx_dropped_inc_def add_rx_dropped_def)

lemma flush_read_data_reads: "reads s (flush_read_data s)"
  unfolding flush_read_data_def Let_def
  by (auto split: option.splits prod.splits
      intro!: reads_trans [OF _ sends_reads [OF flush_pending_ack_sends]]
        reads_trans [OF _ sends_reads [OF notify_window_updated_sends]]
        reads_trans [OF _ basic_reads(2)] reads_trans [OF _ basic_reads(1)] basic_reads)

lemma flush_reads_reads: "reads s (flush_reads s)"
proof -
  have "reads t (compact_rx t)" for t by (simp add: compact_rx_def basic_reads)
  moreover have "reads t (flush_eof t)" for t
    by (auto simp: flush_eof_def intro: reads_trans [OF basic_reads(6) basic_reads(2)] split: option.splits)
  ultimately show ?thesis unfolding flush_reads_def using flush_read_data_reads reads_trans by blast
qed

lemma note_data_ack_reads: "reads s (note_data_ack s)"
  by (simp add: note_data_ack_def basic_reads sends_reads send_ack_sends)

lemma direct_take_reads: "reads s (direct_take op data s)"
  unfolding direct_take_def Let_def
  by (auto intro!: reads_trans [OF _ basic_reads(2)] reads_trans [OF _ basic_reads(8)] reads_trans [OF _ basic_reads(1)] basic_reads)

lemma deliver_direct_reads: "reads s (deliver_direct op data s)"
  unfolding deliver_direct_def Let_def
  by (auto intro!: reads_trans [OF _ sends_reads [OF send_ack_sends]] reads_trans [OF _ flush_reads_reads] direct_take_reads)

lemma deliver_queued_reads: "reads s (deliver_queued data s)"
  unfolding deliver_queued_def
  by (rule reads_trans [OF reads_trans [OF basic_reads(10) note_data_ack_reads] flush_reads_reads])

lemma account_reserve_reads: "account_reserve n s = (ok, s') \<Longrightarrow> reads s s'"
  by (drule account_reserve_cases(2)) (simp add: reads_def)

lemma deliver_data_reads: "reads s (deliver_data data s)"
proof -
  obtain ok s1 where r: "account_reserve (length data) s = (ok, s1)" by fastforce
  note R = account_reserve_reads [OF r]
  have "reads s (send_ack (upf (\<lambda>f. f\<lparr>rcv_nxt := rcv_nxt f + of_nat (length data)\<rparr>) s))"
    by (rule reads_trans [OF basic_reads(9) sends_reads [OF send_ack_sends]])
  thus ?thesis unfolding deliver_data_def Let_def r
    using reads_trans [OF R basic_reads(3)] reads_trans [OF R deliver_direct_reads] reads_trans [OF R deliver_queued_reads]
    by (auto simp: basic_reads split: list.splits option.splits)
qed

lemma readsD:
  assumes "reads s s'"
  shows "ooo_cache (cf s') = ooo_cache (cf s)" "ooo_bytes (cf s') = ooo_bytes (cf s)" "ooo_count (cf s') = ooo_count (cf s)"
    "fl_state (cf s') = fl_state (cf s)" "fin_received (cf s') = fin_received (cf s)" "rx_shutdown (cf s') = rx_shutdown (cf s)"
    "te_cfg (ce s') = te_cfg (ce s)" "acc_limit (e_account (cenv s')) = acc_limit (e_account (cenv s))"
    "fl_key (cf s') = fl_key (cf s)" "fl_id (cf s') = fl_id (cf s)"
  using assms by (simp_all add: reads_def) (metis tcp_engine.select_convs(1) tcp_engine.surjective tcp_engine.update_convs(10))

lemmas reads_frames [simp] =
  readsD [OF flush_reads_reads] readsD [OF deliver_data_reads]

lemma handle_fin_cache [simp]:
  "ooo_cache (cf (handle_fin q s)) = ooo_cache (cf s)" "ooo_bytes (cf (handle_fin q s)) = ooo_bytes (cf s)"
  "ooo_count (cf (handle_fin q s)) = ooo_count (cf s)" "te_cfg (ce (handle_fin q s)) = te_cfg (ce s)"
  "rx_shutdown (cf (handle_fin q s)) = rx_shutdown (cf s)"
  by (simp_all add: handle_fin_def fin_state_def Let_def split: tcp_state.splits)

section \<open>Draining the out-of-order cache\<close>

text \<open>
  The clean-up loop of \<open>flush_ooo\<close>: a passed segment may carry the FIN that is now due, and is then
  uncharged and erased. The result is (returned early, something pruned, state).
\<close>

definition prune_fin :: "u32 \<Rightarrow> ooo_segment \<Rightarrow> tcp_ctx \<Rightarrow> tcp_ctx" where
  "prune_fin k g s =
     (let end = k + of_nat (og_len g) in
      if og_fin g \<and> end = rcv_nxt (cf s) then handle_fin end s else s)"

definition uncache :: "u32 \<Rightarrow> nat \<Rightarrow> tcp_ctx \<Rightarrow> tcp_ctx" where
  "uncache k len s = upf (\<lambda>f. f\<lparr>ooo_cache := om_erase k (ooo_cache f)\<rparr>)
     (if len > 0 then account_release len (upf (\<lambda>f. f\<lparr>ooo_bytes := size_sub (ooo_bytes f) len\<rparr>) s) else s)"

function flush_prune :: "u32 option \<Rightarrow> bool \<Rightarrow> tcp_ctx \<Rightarrow> bool \<times> bool \<times> tcp_ctx" where
  "flush_prune None pruned s = (False, pruned, s)"
| "flush_prune (Some k) pruned s =
     (case map_of (ooo_cache (cf s)) k of
        None \<Rightarrow> (False, pruned, s)
      | Some g \<Rightarrow>
          if \<not> seq_ge (rcv_nxt (cf s)) (k + of_nat (og_len g))
          then flush_prune (om_next k (ooo_cache (cf s))) pruned s
          else if fl_state (cf (prune_fin k g s)) = CLOSED then (True, pruned, prune_fin k g s)
          else flush_prune (om_next k (ooo_cache (cf s))) True (uncache k (og_len g) (prune_fin k g s)))"
  by pat_completeness auto

lemma om_next_measure:
  assumes "om_next (k :: u32) m = c"
  shows "(case c of None \<Rightarrow> 0 | Some k' \<Rightarrow> 2 ^ 32 - unat k') < 2 ^ 32 - unat k"
  using om_next_greater [of k m] assms unat_u32_less [of k] by (cases c) (auto simp: word_less_nat_alt)

termination flush_prune
  by (relation "measure (\<lambda>(c, p, s). case c of None \<Rightarrow> 0 | Some k \<Rightarrow> 2 ^ 32 - unat k)")
     (use om_next_measure [OF refl] in \<open>force+\<close>)

definition ooo_candidate :: "u32 \<Rightarrow> ooo_map \<Rightarrow> (u32 \<times> ooo_segment) option" where
  "ooo_candidate nxt m =
     find (\<lambda>p. fst p = nxt \<or> (seq_gt nxt (fst p) \<and> seq_gt (fst p + of_nat (og_len (snd p))) nxt)) m"

text \<open>One cached segment taken out and delivered.\<close>

definition ooo_take :: "u32 \<Rightarrow> ooo_segment \<Rightarrow> tcp_ctx \<Rightarrow> tcp_ctx" where
  "ooo_take seg_seq seg s =
     (let len = og_len seg;
          s = upf (\<lambda>f. f\<lparr>ooo_cache := om_erase seg_seq (ooo_cache f), ooo_bytes := size_sub (ooo_bytes f) len,
                        ooo_count := size_sub (ooo_count f) 1\<rparr>) s;
          s = account_release len s;
          s = notify_window_updated s;
          skip = (if seg_seq = rcv_nxt (cf s) then 0 else unat (rcv_nxt (cf s) - seg_seq));
          s = (if skip < len then deliver_data (drop skip (og_data seg)) s else s);
          seg_end = seg_seq + of_nat len
      in if og_fin seg \<and> seg_end = rcv_nxt (cf s) then handle_fin seg_end s else s)"

lemma ooo_take_cache [simp]: "ooo_cache (cf (ooo_take k g s)) = om_erase k (ooo_cache (cf s))"
  by (simp add: ooo_take_def Let_def)

lemma ooo_candidate_SomeD: "ooo_candidate nxt m = Some (k, g) \<Longrightarrow> (k, g) \<in> set m \<and>
    (k = nxt \<or> (seq_gt nxt k \<and> seq_gt (k + of_nat (og_len g)) nxt))"
  by (auto simp: ooo_candidate_def dest!: find_SomeD)

function flush_drain :: "bool \<Rightarrow> tcp_ctx \<Rightarrow> bool \<times> bool \<times> tcp_ctx" where
  "flush_drain delivered s =
     (case ooo_candidate (rcv_nxt (cf s)) (ooo_cache (cf s)) of
        None \<Rightarrow> (False, delivered, s)
      | Some (k, g) \<Rightarrow>
          let s = ooo_take k g s in
          if fl_state (cf s) = CLOSED then (True, delivered, s) else flush_drain True s)"
  by pat_completeness auto

termination flush_drain
  by (relation "measure (\<lambda>(d, s). length (ooo_cache (cf s)))")
     (auto intro!: om_length_erase_put dest!: ooo_candidate_SomeD intro: rev_image_eqI)

declare flush_drain.simps [simp del]

definition flush_ooo :: "tcp_ctx \<Rightarrow> tcp_ctx" where
  "flush_ooo s =
     (let (returned, pruned, s) = flush_prune (om_begin (ooo_cache (cf s))) False s in
      if returned then s
      else
        let s = upf (\<lambda>f. f\<lparr>ooo_count := length (ooo_cache f)\<rparr>) s;
            (returned, delivered, s) = flush_drain False s in
        if returned then s
        else if delivered \<and> fl_state (cf s) \<noteq> CLOSED then send_ack s
        else if pruned \<and> fl_state (cf s) \<noteq> CLOSED then notify_window_updated s
        else s)"

definition handle_data :: "u32 \<Rightarrow> byte list \<Rightarrow> byte \<Rightarrow> tcp_ctx \<Rightarrow> tcp_ctx" where
  "handle_data seq data flags s =
     (if seq = rcv_nxt (cf s) then flush_ooo (deliver_data data s)
      else if seq_gt seq (rcv_nxt (cf s)) then
        let (ok, s) = ooo_append seq data (has_flag flags TCP_FIN) s in
        if ok then rx_ooo_inc s else send_ack s
      else
        let seg_end = seq + of_nat (length data) in
        if seq_gt seg_end (rcv_nxt (cf s)) then
          let skip = unat (rcv_nxt (cf s) - seq) in flush_ooo (deliver_data (drop skip data) s)
        else send_ack (rx_dropped_inc s))"

lemma flush_reads_rcv [simp]: "rcv_nxt (cf (flush_reads s)) = rcv_nxt (cf s)"
proof -
  have "rcv_nxt (cf (flush_eof t)) = rcv_nxt (cf t)" "rcv_nxt (cf (compact_rx t)) = rcv_nxt (cf t)" for t
    by (simp_all add: flush_eof_def compact_rx_def split: option.splits)
  moreover have "rcv_nxt (cf (flush_read_data s)) = rcv_nxt (cf s)"
    by (simp add: flush_read_data_def Let_def split: option.splits prod.splits)
  ultimately show ?thesis by (simp add: flush_reads_def)
qed

section \<open>What the application reads\<close>

definition rx_queue :: "tcp_flow \<Rightarrow> byte list" where
  "rx_queue f = drop (rx_head f) (rx_data f)"

fun read_bytes :: "completion \<Rightarrow> byte list" where
  "read_bytes (Done_read h ec n chunks) = concat chunks"
| "read_bytes _ = []"

definition read_log :: "completion list \<Rightarrow> byte list" where
  "read_log cs = concat (map read_bytes cs)"

definition charge :: "tcp_flow \<Rightarrow> nat" where
  "charge f = rx_bytes f + ooo_bytes f"

abbreviation used :: "tcp_ctx \<Rightarrow> nat" where "used s \<equiv> acc_used (e_account (cenv s))"

text \<open>
  The receive buffer is consistent, a pending read asks for what its buffers hold, and what the flow
  holds is charged to the accountant.
\<close>

definition rx_good :: "tcp_ctx \<Rightarrow> bool" where
  "rx_good s \<longleftrightarrow> rx_head (cf s) + rx_bytes (cf s) = length (rx_data (cf s)) \<and>
     (\<forall>op. active_read (cf s) = Some op \<longrightarrow> ro_total op = sum_list (ro_buffers op)) \<and>
     charge (cf s) \<le> used s"

text \<open>
  \<open>feeds s d s'\<close>: from \<open>s\<close> to \<open>s'\<close> the bytes \<open>d\<close> have been added to the incoming stream; completed
  reads took bytes from the front, the rest is queued, and the charge moved with it.
\<close>

definition feeds :: "tcp_ctx \<Rightarrow> byte list \<Rightarrow> tcp_ctx \<Rightarrow> bool" where
  "feeds s d s' \<longleftrightarrow> (rx_good s \<longrightarrow> rx_good s' \<and>
     (\<exists>new. e_posted (cenv s') = e_posted (cenv s) @ new \<and>
        rx_queue (cf s) @ d = read_log new @ rx_queue (cf s')) \<and>
     used s' + charge (cf s) = used s + charge (cf s'))"

lemma read_log_simps [simp]: "read_log [] = []" "read_log (c # cs) = read_bytes c @ read_log cs"
  "read_log (cs @ cs') = read_log cs @ read_log cs'"
  by (simp_all add: read_log_def)

lemma feeds_refl [simp]: "feeds s [] s"
  by (simp add: feeds_def)

lemma feeds_trans:
  assumes "feeds a d b" "feeds b d' c" shows "feeds a (d @ d') c"
  unfolding feeds_def
proof (intro impI conjI)
  assume "rx_good a"
  then obtain n1 n2 where n: "rx_good b" "rx_good c"
    "e_posted (cenv b) = e_posted (cenv a) @ n1" "rx_queue (cf a) @ d = read_log n1 @ rx_queue (cf b)"
    "e_posted (cenv c) = e_posted (cenv b) @ n2" "rx_queue (cf b) @ d' = read_log n2 @ rx_queue (cf c)"
    "used b + charge (cf a) = used a + charge (cf b)" "used c + charge (cf b) = used b + charge (cf c)"
    using assms unfolding feeds_def by blast
  show "rx_good c" by (rule n)
  have "rx_queue (cf a) @ d @ d' = read_log n1 @ rx_queue (cf b) @ d'" using n(4) by (metis append.assoc)
  also have "\<dots> = read_log n1 @ read_log n2 @ rx_queue (cf c)" using n(6) by simp
  finally show "\<exists>new. e_posted (cenv c) = e_posted (cenv a) @ new \<and> rx_queue (cf a) @ d @ d' = read_log new @ rx_queue (cf c)"
    using n(3,5) by (intro exI [of _ "n1 @ n2"]) simp
  show "used c + charge (cf a) = used a + charge (cf c)" using n(7,8) by linarith
qed

lemmas feeds_trans0 = feeds_trans [where d = "[]", simplified]
lemmas feeds_0trans = feeds_trans [where d' = "[]", simplified]

lemma sends_feeds: "sends s s' \<Longrightarrow> feeds s [] s'"
  by (simp add: feeds_def rx_good_def charge_def rx_queue_def sends_flow sends_engine)

lemma feeds_upf: "(\<And>f. rx_queue (g f) = rx_queue f \<and> charge (g f) = charge f \<and>
    (rx_head f + rx_bytes f = length (rx_data f) \<longrightarrow> rx_head (g f) + rx_bytes (g f) = length (rx_data (g f))) \<and>
    (active_read (g f) = active_read f \<or> active_read (g f) = None)) \<Longrightarrow> feeds s [] (upf g s)"
  by (auto simp: feeds_def rx_good_def) (metis option.distinct(1))

lemma flush_read_data_feeds: "feeds s [] (flush_read_data s)"
proof (cases "active_read (cf s) = None \<or> rx_bytes (cf s) = 0")
  case True
  thus ?thesis by (auto simp: flush_read_data_def split: option.splits)
next
  case False
  then obtain op where op: "active_read (cf s) = Some op" "rx_bytes (cf s) > 0" by auto
  define n where "n = min (ro_total op) (rx_bytes (cf s))"
  obtain chunks c where sc: "scatter (ro_buffers op) n (rx_queue (cf s)) 0 = (chunks, c)" by fastforce
  define s1 where "s1 = post_ctx (Done_read (ro_handler op) EC_ok c chunks) (account_release c
    (upf (\<lambda>f. f\<lparr>active_read := None, rx_head := rx_head f + c, rx_bytes := size_sub (rx_bytes f) c\<rparr>) s))"
  have s': "flush_read_data s = flush_pending_ack (notify_window_updated s1)"
    using op sc by (simp add: flush_read_data_def s1_def n_def rx_queue_def)
  have "feeds s [] s1" unfolding feeds_def
  proof
    assume g: "rx_good s"
    have l: "length (rx_queue (cf s)) = rx_bytes (cf s)" "n \<le> rx_bytes (cf s)" using g by (auto simp: rx_good_def rx_queue_def n_def)
    have c: "c \<le> n" "c \<le> rx_bytes (cf s)" "c \<le> used s"
      using scatter_copied [of 0 n "ro_buffers op" "rx_queue (cf s)"] sc l g by (auto simp: rx_good_def charge_def)
    have d: "concat chunks = take c (rx_queue (cf s))"
      using scatter_data [of 0 n "rx_queue (cf s)" "ro_buffers op"] sc l by (simp add: subl_def)
    have q: "rx_queue (cf s1) = drop c (rx_queue (cf s))"
      "e_posted (cenv s1) = e_posted (cenv s) @ [Done_read (ro_handler op) EC_ok c chunks]"
      "rx_head (cf s1) = rx_head (cf s) + c" "rx_bytes (cf s1) = rx_bytes (cf s) - c" "rx_data (cf s1) = rx_data (cf s)"
      "active_read (cf s1) = None" "ooo_bytes (cf s1) = ooo_bytes (cf s)" "used s1 = used s - c"
      using c by (simp_all add: s1_def rx_queue_def acct_release_def add.commute)
    show "rx_good s1 \<and> (\<exists>new. e_posted (cenv s1) = e_posted (cenv s) @ new \<and>
        rx_queue (cf s) @ [] = read_log new @ rx_queue (cf s1)) \<and> used s1 + charge (cf s) = used s + charge (cf s1)"
      using g c d q by (simp add: rx_good_def charge_def) linarith
  qed
  thus ?thesis unfolding s'
    using feeds_0trans feeds_trans0 sends_feeds [OF flush_pending_ack_sends] sends_feeds [OF notify_window_updated_sends] by blast
qed

lemma flush_reads_feeds: "feeds s [] (flush_reads s)"
proof -
  have "feeds t [] (compact_rx t)" for t
    by (auto simp: compact_rx_def feeds_def rx_good_def rx_queue_def charge_def)
  moreover have "feeds t [] (flush_eof t)" for t
    by (auto simp: flush_eof_def feeds_def rx_good_def rx_queue_def charge_def split: option.splits)
  ultimately show ?thesis unfolding flush_reads_def using flush_read_data_feeds feeds_trans0 by blast
qed

text \<open>After a successful reservation the charge is ahead of the queues by the reserved amount.\<close>

lemma direct_take_feeds:
  assumes g: "rx_good s0" and s: "s = on_env (\<lambda>e. e\<lparr>e_account := (e_account e)\<lparr>acc_used := used s0 + length data\<rparr>\<rparr>) s0"
    and op: "rx_data (cf s) = []" "active_read (cf s) = Some op"
  shows "feeds s0 data (direct_take op data s) \<and> rcv_nxt (cf (direct_take op data s)) = rcv_nxt (cf s0) + of_nat (length data)"
proof -
  define n where "n = min (ro_total op) (length data)"
  define chunks where "chunks = fst (scatter (ro_buffers op) n data 0)"
  have tot: "ro_total op = sum_list (ro_buffers op)" using g op s by (simp add: rx_good_def)
  have rx: "rx_head (cf s0) = 0" "rx_bytes (cf s0) = 0" "rx_data (cf s0) = []" using g op s by (auto simp: rx_good_def)
  have "snd (scatter (ro_buffers op) n data 0) = n"
    using scatter_copied [of 0 n "ro_buffers op" data] tot by (simp add: n_def)
  hence d: "concat chunks = take n data"
    using scatter_data [of 0 n data "ro_buffers op"] by (simp add: chunks_def subl_def n_def)
  have n: "n \<le> length data" by (simp add: n_def)
  define s1 where "s1 = direct_take op data s"
  have s1: "s1 = post_ctx (Done_read (ro_handler op) EC_ok n chunks)
      (if n < length data
       then upf (\<lambda>f. f\<lparr>rx_data := rx_data f @ drop n data, rx_bytes := rx_bytes f + (length data - n)\<rparr>)
         (account_release n (upf (\<lambda>f. f\<lparr>active_read := None, rcv_nxt := rcv_nxt f + of_nat (length data)\<rparr>) s))
       else account_release n (upf (\<lambda>f. f\<lparr>active_read := None, rcv_nxt := rcv_nxt f + of_nat (length data)\<rparr>) s))"
    unfolding s1_def direct_take_def Let_def n_def chunks_def by (rule refl)
  have q: "rx_head (cf s1) = 0 \<and> rx_bytes (cf s1) = length data - n \<and> rx_data (cf s1) = drop n data \<and>
    active_read (cf s1) = None \<and> ooo_bytes (cf s1) = ooo_bytes (cf s0) \<and> rcv_nxt (cf s1) = rcv_nxt (cf s0) + of_nat (length data)"
    using rx n unfolding s1 s by (cases "n < length data") simp_all
  have p: "e_posted (cenv s1) = e_posted (cenv s0) @ [Done_read (ro_handler op) EC_ok n chunks] \<and> used s1 = used s0 + length data - n"
    using n unfolding s1 s by (cases "n < length data") (simp_all add: acct_release_def)
  have "rx_queue (cf s0) = []" "rx_queue (cf s1) = drop n data" using q rx by (simp_all add: rx_queue_def)
  hence "feeds s0 data s1" unfolding feeds_def
    using g rx n q p d by (simp add: rx_good_def charge_def) linarith
  thus ?thesis using q by (simp add: s1_def)
qed

lemma deliver_direct_feeds:
  assumes "rx_good s0" "s = on_env (\<lambda>e. e\<lparr>e_account := (e_account e)\<lparr>acc_used := used s0 + length data\<rparr>\<rparr>) s0"
    "rx_data (cf s) = []" "active_read (cf s) = Some op"
  shows "feeds s0 data (deliver_direct op data s) \<and> rcv_nxt (cf (deliver_direct op data s)) = rcv_nxt (cf s0) + of_nat (length data)"
proof -
  have f: "feeds s0 data (direct_take op data s)" using direct_take_feeds [OF assms] by simp
  show ?thesis unfolding deliver_direct_def Let_def
    using direct_take_feeds [OF assms] feeds_0trans [OF feeds_0trans [OF f flush_reads_feeds] sends_feeds [OF send_ack_sends]]
      feeds_0trans [OF f sends_feeds [OF send_ack_sends]] by simp
qed

lemma deliver_queued_feeds:
  assumes g: "rx_good s0" and s: "s = on_env (\<lambda>e. e\<lparr>e_account := (e_account e)\<lparr>acc_used := used s0 + length data\<rparr>\<rparr>) s0"
  shows "feeds s0 data (deliver_queued data s) \<and> rcv_nxt (cf (deliver_queued data s)) = rcv_nxt (cf s0) + of_nat (length data)"
proof -
  define s1 where "s1 = upf (\<lambda>f. f\<lparr>rx_data := rx_data f @ data, rx_bytes := rx_bytes f + length data,
                   rcv_nxt := rcv_nxt f + of_nat (length data)\<rparr>) s"
  have q: "rx_head (cf s1) = rx_head (cf s0) \<and> rx_bytes (cf s1) = rx_bytes (cf s0) + length data \<and>
    rx_data (cf s1) = rx_data (cf s0) @ data \<and> active_read (cf s1) = active_read (cf s0) \<and> ooo_bytes (cf s1) = ooo_bytes (cf s0) \<and>
    rcv_nxt (cf s1) = rcv_nxt (cf s0) + of_nat (length data) \<and> e_posted (cenv s1) = e_posted (cenv s0) \<and> used s1 = used s0 + length data"
    by (simp add: s1_def s)
  hence "rx_queue (cf s1) = rx_queue (cf s0) @ data" using g by (simp add: rx_queue_def rx_good_def)
  hence f: "feeds s0 data s1" unfolding feeds_def using g q by (simp add: rx_good_def charge_def)
  have n: "feeds s1 [] (note_data_ack s1)" "rcv_nxt (cf (note_data_ack s1)) = rcv_nxt (cf s1)"
    using sends_feeds [OF send_ack_sends, of s1]
    by (auto simp: note_data_ack_def feeds_def rx_good_def charge_def rx_queue_def)
  show ?thesis using feeds_0trans [OF feeds_0trans [OF f n(1)] flush_reads_feeds] n(2) q
    by (simp add: deliver_queued_def flip: s1_def)
qed

lemma deliver_data_feeds:
  assumes g: "rx_good s" and "\<not> rx_shutdown (cf s)"
  shows "(feeds s [] (deliver_data data s) \<and> rcv_nxt (cf (deliver_data data s)) = rcv_nxt (cf s)) \<or>
    (feeds s data (deliver_data data s) \<and> rcv_nxt (cf (deliver_data data s)) = rcv_nxt (cf s) + of_nat (length data))"
proof -
  have drop: "feeds t [] (rx_dropped_inc t)" for t
    by (simp add: feeds_def rx_good_def)
  obtain ok s1 where r: "account_reserve (length data) s = (ok, s1)" by fastforce
  note R = account_reserve_cases [OF r]
  have same: "\<not> ok \<Longrightarrow> s1 = s" using R(2) by (simp add: on_env_def)
  have s1: "ok \<Longrightarrow> s1 = on_env (\<lambda>e. e\<lparr>e_account := (e_account e)\<lparr>acc_used := used s + length data\<rparr>\<rparr>) s"
    using R(2) by (simp add: on_env_def)
  show ?thesis unfolding deliver_data_def Let_def r prod.case
    using assms(2) drop same deliver_direct_feeds [OF g s1] deliver_queued_feeds [OF g s1]
    by (auto split: list.splits option.splits)
qed

section \<open>Draining keeps to the stream\<close>

lemma seq_window:
  assumes "seq_dist a r < 2 ^ 31" "seq_dist b r < 2 ^ 31"
  shows "seq_gt a b \<longleftrightarrow> seq_dist b r < seq_dist a r" "seq_ge a b \<longleftrightarrow> seq_dist b r \<le> seq_dist a r"
  using offset_dist [OF assms] seq_dist_inj [of a r b]
  by (auto simp: seq_gt_def seq_ge_def ooo_offset_def order.order_iff_strict)

text \<open>
  While the cache is drained the positions refer to the receive position \<open>r\<close> at the start; \<open>y\<close> bytes
  have been accepted since then.
\<close>

definition rcv_at :: "byte list \<Rightarrow> nat \<Rightarrow> u32 \<Rightarrow> nat \<Rightarrow> tcp_flow \<Rightarrow> bool" where
  "rcv_at S N r y f \<longleftrightarrow> N + y \<le> length S \<and> y + 1 < 2 ^ 31 \<and>
     rcv_nxt f = r + of_nat (y + (if fin_received f then 1 else 0)) \<and> (fin_received f \<longrightarrow> N + y = length S)"

definition drain_inv :: "byte list \<Rightarrow> nat \<Rightarrow> u32 \<Rightarrow> nat \<Rightarrow> tcp_ctx \<Rightarrow> bool" where
  "drain_inv S N r y s \<longleftrightarrow> rcv_at S N r y (cf s) \<and> cache_ok S N r (ooo_cache (cf s)) \<and>
     ooo_bytes (cf s) = cache_bytes (ooo_cache (cf s)) \<and> rx_good s \<and> \<not> rx_shutdown (cf s) \<and> fl_state (cf s) \<noteq> CLOSED"

lemma rcv_at_dist:
  assumes "rcv_at S N r y f" shows "seq_dist (rcv_nxt f) r = y + (if fin_received f then 1 else 0)"
  using assms seq_dist_add [of r r "y + (if fin_received f then 1 else 0)"] by (auto simp: rcv_at_def)

lemma entry_end:
  assumes "cache_ok S N r m" "(k, g) \<in> set m"
  shows "seq_dist (k + of_nat (og_len g)) r = seq_dist k r + og_len g" "N + seq_dist k r + og_len g \<le> length S"
    "og_fin g \<Longrightarrow> N + seq_dist k r + og_len g = length S" "seq_dist k r + og_len g + 1 < 2 ^ 31"
  using cache_okD [OF assms] seq_dist_add [of k r "og_len g"] by (auto simp: seg_ok_def)

lemma fin_state_simps [simp]:
  "rcv_nxt (cf (fin_state s)) = rcv_nxt (cf s)" "fin_received (cf (fin_state s)) = fin_received (cf s)"
  "cenv (fin_state s) = cenv s" "rx_data (cf (fin_state s)) = rx_data (cf s)" "rx_head (cf (fin_state s)) = rx_head (cf s)"
  "rx_bytes (cf (fin_state s)) = rx_bytes (cf s)" "ooo_bytes (cf (fin_state s)) = ooo_bytes (cf s)"
  "active_read (cf (fin_state s)) = active_read (cf s)"
  "fl_state (cf (fin_state s)) = CLOSED \<longleftrightarrow> fl_state (cf s) = CLOSED"
  by (simp_all add: fin_state_def split: tcp_state.splits)

lemma handle_fin_accept:
  assumes "q = rcv_nxt (cf s)" "\<not> fin_received (cf s)"
  shows "feeds s [] (handle_fin q s)" "rcv_nxt (cf (handle_fin q s)) = rcv_nxt (cf s) + 1"
    "fin_received (cf (handle_fin q s))" "fl_state (cf (handle_fin q s)) = CLOSED \<longleftrightarrow> fl_state (cf s) = CLOSED"
proof -
  define s1 where "s1 = upf (\<lambda>f. f\<lparr>rcv_nxt := rcv_nxt f + 1, fin_received := True\<rparr>) s"
  have e: "handle_fin q s = flush_reads (fin_state (send_ack s1))"
    using assms by (simp add: handle_fin_def s1_def)
  have f1: "feeds s [] s1" unfolding s1_def by (rule feeds_upf) (simp add: charge_def rx_queue_def)
  have f2: "feeds t [] (fin_state t)" for t by (simp add: feeds_def rx_good_def charge_def rx_queue_def)
  show "feeds s [] (handle_fin q s)" unfolding e
    by (rule feeds_trans0 [OF feeds_trans0 [OF feeds_trans0 [OF f1 sends_feeds [OF send_ack_sends]] f2] flush_reads_feeds])
  show "rcv_nxt (cf (handle_fin q s)) = rcv_nxt (cf s) + 1" "fin_received (cf (handle_fin q s))"
    "fl_state (cf (handle_fin q s)) = CLOSED \<longleftrightarrow> fl_state (cf s) = CLOSED"
    unfolding e by (simp_all add: s1_def)
qed

lemma cache_remove:
  assumes "cache_ok S N r m" "(k, g) \<in> set m"
  shows "cache_ok S N r (om_erase k m)" "cache_bytes (om_erase k m) = cache_bytes m - og_len g" "og_len g \<le> cache_bytes m"
    "set (om_erase k m) = set m - {(k, g)}"
proof -
  have wf: "om_wf m" using assms(1) by (simp add: cache_ok_def)
  show set: "set (om_erase k m) = set m - {(k, g)}" using om_others [OF wf assms(2)] by simp
  show "cache_ok S N r (om_erase k m)" using cache_ok_subset [OF assms(1)] wf set by simp
  have "cache_bytes m = og_len g + (\<Sum>p\<in>set m - {(k, g)}. og_len (snd p))"
    unfolding cache_bytes_def using sum.remove [OF _ assms(2), of "\<lambda>p. og_len (snd p)"] by simp
  thus "cache_bytes (om_erase k m) = cache_bytes m - og_len g" "og_len g \<le> cache_bytes m"
    unfolding cache_bytes_def set by simp_all
qed

lemma uncache_drain:
  assumes "drain_inv S N r y s" "(k, g) \<in> set (ooo_cache (cf s))"
  shows "drain_inv S N r y (uncache k (og_len g) s)" "feeds s [] (uncache k (og_len g) s)"
    "ooo_cache (cf (uncache k (og_len g) s)) = om_erase k (ooo_cache (cf s))"
    "rcv_nxt (cf (uncache k (og_len g) s)) = rcv_nxt (cf s)" "fin_received (cf (uncache k (og_len g) s)) = fin_received (cf s)"
proof -
  let ?t = "uncache k (og_len g) s"
  have c: "cache_ok S N r (ooo_cache (cf s))" and b: "ooo_bytes (cf s) = cache_bytes (ooo_cache (cf s))" and gd: "rx_good s"
    using assms(1) by (auto simp: drain_inv_def)
  note R = cache_remove [OF c assms(2)]
  have f: "rx_head (cf ?t) = rx_head (cf s)" "rx_bytes (cf ?t) = rx_bytes (cf s)" "rx_data (cf ?t) = rx_data (cf s)"
    "active_read (cf ?t) = active_read (cf s)" "ooo_bytes (cf ?t) = ooo_bytes (cf s) - og_len g" "used ?t = used s - og_len g"
    "e_posted (cenv ?t) = e_posted (cenv s)" "rx_shutdown (cf ?t) = rx_shutdown (cf s)" "fl_state (cf ?t) = fl_state (cf s)"
    using b R(3) gd by (simp_all add: uncache_def acct_release_def rx_good_def charge_def)
  show g: "ooo_cache (cf ?t) = om_erase k (ooo_cache (cf s))" "rcv_nxt (cf ?t) = rcv_nxt (cf s)" "fin_received (cf ?t) = fin_received (cf s)"
    by (simp_all add: uncache_def)
  show fe: "feeds s [] ?t" unfolding feeds_def
    using f b R(3) by (simp add: rx_good_def charge_def rx_queue_def) linarith
  show "drain_inv S N r y ?t"
    using assms(1) f g R fe unfolding drain_inv_def by (simp add: rcv_at_def feeds_def)
qed

lemma flush_prune_drain:
  assumes "drain_inv S N r y s" "\<forall>k. c = Some k \<longrightarrow> k \<in> fst ` set (ooo_cache (cf s))"
    "\<forall>q\<in>set (ooo_cache (cf s)). (\<forall>k. c = Some k \<longrightarrow> fst q < k) \<longrightarrow> y < hi_of r q"
    "flush_prune c pruned s = (ret, pruned', s')"
  shows "\<not> ret \<and> drain_inv S N r y s' \<and> feeds s [] s' \<and> (\<forall>q\<in>set (ooo_cache (cf s')). y < hi_of r q)"
  using assms
proof (induction c pruned s arbitrary: ret pruned' s' rule: flush_prune.induct)
  case (1 pruned s)
  thus ?case by simp
next
  case (2 k pruned s)
  let ?m = "ooo_cache (cf s)"
  obtain g where g: "(k, g) \<in> set ?m" using "2.prems"(2) by auto
  have c: "cache_ok S N r ?m" and wf: "om_wf ?m" and at: "rcv_at S N r y (cf s)"
    using "2.prems"(1) by (auto simp: drain_inv_def cache_ok_def)
  have mg: "map_of ?m k = Some g" using cache_okD(3) [OF c g] .
  define e where "e = k + of_nat (og_len g)"
  note E = entry_end [OF c g, folded e_def]
  have ge: "seq_ge (rcv_nxt (cf s)) e \<longleftrightarrow> seq_dist k r + og_len g \<le> y + (if fin_received (cf s) then 1 else 0)"
    using seq_window(2) [of "rcv_nxt (cf s)" r e] rcv_at_dist [OF at] at E by (auto simp: rcv_at_def)
  note cur = cursor_new [OF wf refl, of k] and curo = cursor_old [OF wf refl, of "om_erase k ?m" k g "{}"]
  show ?case
  proof (cases "seq_ge (rcv_nxt (cf s)) e")
    case False
    hence hy: "y < seq_dist k r + og_len g" using ge by auto
    have "flush_prune (Some k) pruned s = flush_prune (om_next k ?m) pruned s"
      using False mg by (simp add: e_def)
    moreover have "\<forall>q\<in>set ?m. (\<forall>k'. om_next k ?m = Some k' \<longrightarrow> fst q < k') \<longrightarrow> y < hi_of r q"
    proof (intro ballI impI)
      fix q assume q: "q \<in> set ?m" "\<forall>k'. om_next k ?m = Some k' \<longrightarrow> fst q < k'"
      hence "fst q \<le> k" using cur by blast
      thus "y < hi_of r q" using "2.prems"(3) q(1) hy om_unique [OF wf g] by (cases "fst q = k") (metis prod.collapse fst_conv snd_conv, simp)
    qed
    ultimately show ?thesis
      using "2.IH"(1) [OF mg False [unfolded e_def] "2.prems"(1)] cur "2.prems"(4) by (metis (no_types, lifting))
  next
    case True
    define s1 where "s1 = prune_fin k g s"
    have s1: "drain_inv S N r y s1 \<and> feeds s [] s1 \<and> ooo_cache (cf s1) = ?m"
    proof (cases "og_fin g \<and> e = rcv_nxt (cf s)")
      case F: True
      have nf: "\<not> fin_received (cf s)" and y: "seq_dist k r + og_len g = y"
        using E(1-3) F rcv_at_dist [OF at] at by (auto simp: rcv_at_def split: if_splits)
      have eq: "e = rcv_nxt (cf s)" using F by simp
      note H = handle_fin_accept [OF eq nf]
      have "s1 = handle_fin e s" using F by (simp add: s1_def prune_fin_def e_def)
      thus ?thesis using H nf "2.prems"(1) E(3) F y unfolding drain_inv_def
        by (auto simp: rcv_at_def feeds_def add.assoc)
    next
      case False
      hence "s1 = s" unfolding s1_def prune_fin_def Let_def e_def by (rule if_not_P)
      thus ?thesis using "2.prems"(1) by simp
    qed
    hence g1: "(k, g) \<in> set (ooo_cache (cf s1))" and d1: "drain_inv S N r y s1" using g by auto
    let ?u = "uncache k (og_len g) s1"
    note U = uncache_drain [OF d1 g1]
    have nc: "fl_state (cf s1) \<noteq> CLOSED" using d1 by (simp add: drain_inv_def)
    have eq: "flush_prune (Some k) pruned s = flush_prune (om_next k ?m) True ?u"
      using True mg nc by (simp add: e_def s1_def)
    have set: "set (ooo_cache (cf ?u)) = set ?m - {(k, g)} \<union> {}"
      using U(3) s1 cache_remove(4) [OF c g] by simp
    have pre: "\<forall>k'. om_next k ?m = Some k' \<longrightarrow> k' \<in> fst ` set (ooo_cache (cf ?u))"
      "\<forall>q\<in>set (ooo_cache (cf ?u)). (\<forall>k'. om_next k ?m = Some k' \<longrightarrow> fst q < k') \<longrightarrow> y < hi_of r q"
    proof -
      note C = cursor_old [OF wf refl set]
      show "\<forall>k'. om_next k ?m = Some k' \<longrightarrow> k' \<in> fst ` set (ooo_cache (cf ?u))" using C by blast
      show "\<forall>q\<in>set (ooo_cache (cf ?u)). (\<forall>k'. om_next k ?m = Some k' \<longrightarrow> fst q < k') \<longrightarrow> y < hi_of r q"
      proof (intro ballI impI)
        fix q assume q: "q \<in> set (ooo_cache (cf ?u))" "\<forall>k'. om_next k ?m = Some k' \<longrightarrow> fst q < k'"
        hence "fst q \<le> k" "q \<in> set ?m" "q \<noteq> (k, g)" using C set by auto
        moreover from this have "fst q \<noteq> k" using om_unique [OF wf g] by (metis prod.collapse)
        ultimately show "y < hi_of r q" using "2.prems"(3) by auto
      qed
    qed
    show ?thesis
      using "2.IH"(2) [OF mg, unfolded not_not, OF True [unfolded e_def] nc [unfolded s1_def], folded s1_def, OF U(1) pre]
        "2.prems"(4) eq s1 U(2) feeds_trans0 by metis
  qed
qed

text \<open>Entries that the receive position has not passed.\<close>

definition not_passed :: "u32 \<Rightarrow> nat \<Rightarrow> ooo_map \<Rightarrow> bool" where
  "not_passed r y m \<longleftrightarrow> (\<forall>q\<in>set m. y < hi_of r q \<or> y \<le> lo_of r q)"

lemma candidate_pos:
  assumes d: "drain_inv S N r y s" and np: "not_passed r y (ooo_cache (cf s))" and g: "(k, g) \<in> set (ooo_cache (cf s))"
  shows "(k = rcv_nxt (cf s) \<or> (seq_gt (rcv_nxt (cf s)) k \<and> seq_gt (k + of_nat (og_len g)) (rcv_nxt (cf s)))) \<longleftrightarrow>
    \<not> fin_received (cf s) \<and> (seq_dist k r = y \<or> (seq_dist k r < y \<and> y < seq_dist k r + og_len g))"
proof -
  have at: "rcv_at S N r y (cf s)" and c: "cache_ok S N r (ooo_cache (cf s))" using d by (auto simp: drain_inv_def)
  define R where "R = y + (if fin_received (cf s) then 1 else 0)"
  note E = entry_end [OF c g]
  have R: "seq_dist (rcv_nxt (cf s)) r = R" "R < 2 ^ 31" using rcv_at_dist [OF at] at by (auto simp: rcv_at_def R_def)
  have "k = rcv_nxt (cf s) \<longleftrightarrow> seq_dist k r = R" using R seq_dist_inj by metis
  moreover have "seq_gt (rcv_nxt (cf s)) k \<longleftrightarrow> seq_dist k r < R"
    using seq_window(1) [of "rcv_nxt (cf s)" r k] R E by simp
  moreover have "seq_gt (k + of_nat (og_len g)) (rcv_nxt (cf s)) \<longleftrightarrow> R < seq_dist k r + og_len g"
    using seq_window(1) [of "k + of_nat (og_len g)" r "rcv_nxt (cf s)"] R E by simp
  moreover have "fin_received (cf s) \<Longrightarrow> seq_dist k r + og_len g \<le> y" using at E(2) by (auto simp: rcv_at_def)
  ultimately show ?thesis using np g by (auto simp: not_passed_def R_def)
qed

lemma drain_progress:
  assumes d: "drain_inv S N r y s" "\<not> fin_received (cf s)" and f: "feeds s (subl (N + y) n S) s'" and fr: "reads s s'"
    and rn: "rcv_nxt (cf s') = rcv_nxt (cf s) + of_nat n" and n: "N + y + n \<le> length S" "y + n + 1 < 2 ^ 31"
  shows "drain_inv S N r (y + n) s'"
proof -
  have "rx_good s'" using f d by (auto simp: drain_inv_def feeds_def)
  thus ?thesis using d n rn readsD [OF fr] by (simp add: drain_inv_def rcv_at_def add.assoc)
qed

lemma ooo_take_drain:
  assumes d: "drain_inv S N r y s" and nf: "\<not> fin_received (cf s)" and np: "not_passed r y (ooo_cache (cf s))"
    and g: "(k, g) \<in> set (ooo_cache (cf s))" and pos: "seq_dist k r = y \<or> (seq_dist k r < y \<and> y < seq_dist k r + og_len g)"
  shows "\<exists>y'. (y' = y \<or> y' = seq_dist k r + og_len g) \<and> y \<le> y' \<and> drain_inv S N r y' (ooo_take k g s) \<and>
    feeds s (subl (N + y) (y' - y) S) (ooo_take k g s)"
proof -
  define lo hi where "lo = seq_dist k r" and "hi = seq_dist k r + og_len g"
  have at: "rcv_at S N r y (cf s)" and c: "cache_ok S N r (ooo_cache (cf s))" and b: "ooo_bytes (cf s) = cache_bytes (ooo_cache (cf s))"
    and gd: "rx_good s" using d by (auto simp: drain_inv_def)
  note E = entry_end [OF c g] and R = cache_remove [OF c g]
  define s1 where "s1 = account_release (og_len g) (upf (\<lambda>f. f\<lparr>ooo_cache := om_erase k (ooo_cache f), ooo_bytes := size_sub (ooo_bytes f) (og_len g),
                        ooo_count := size_sub (ooo_count f) 1\<rparr>) s)"
  define s2 where "s2 = notify_window_updated s1"
  have f1: "rx_head (cf s1) = rx_head (cf s)" "rx_bytes (cf s1) = rx_bytes (cf s)" "rx_data (cf s1) = rx_data (cf s)"
    "active_read (cf s1) = active_read (cf s)" "ooo_bytes (cf s1) = ooo_bytes (cf s) - og_len g" "used s1 = used s - og_len g"
    "e_posted (cenv s1) = e_posted (cenv s)" "rx_shutdown (cf s1) = rx_shutdown (cf s)" "fl_state (cf s1) = fl_state (cf s)"
    "ooo_cache (cf s1) = om_erase k (ooo_cache (cf s))" "rcv_nxt (cf s1) = rcv_nxt (cf s)" "fin_received (cf s1) = fin_received (cf s)"
    using b R(3) gd by (simp_all add: s1_def acct_release_def rx_good_def charge_def)
  have fe1: "feeds s [] s1" unfolding feeds_def
    using f1 b R(3) by (simp add: rx_good_def charge_def rx_queue_def) linarith
  have fe2: "feeds s [] s2" unfolding s2_def by (rule feeds_trans0 [OF fe1 sends_feeds [OF notify_window_updated_sends]])
  have d2: "drain_inv S N r y s2"
    using d f1 R fe2 b by (simp add: drain_inv_def rcv_at_def feeds_def s2_def)
  have nf2: "\<not> fin_received (cf s2)" using nf f1 by (simp add: s2_def)
  have rcv: "rcv_nxt (cf s2) = r + of_nat y" using at nf f1 by (simp add: s2_def rcv_at_def)
  define skip where "skip = (if k = rcv_nxt (cf s2) then 0 else unat (rcv_nxt (cf s2) - k))"
  have skip: "skip = y - lo"
  proof -
    have k: "r + of_nat lo = k" using seq_dist_cancel [of r k] by (simp add: lo_def)
    have ly: "lo \<le> y" "y < 2 ^ 32" using pos at by (auto simp: lo_def rcv_at_def)
    have "rcv_nxt (cf s2) - (r + of_nat lo) = of_nat (y - lo)" using rcv ly(1) by (simp add: of_nat_diff)
    hence "unat (rcv_nxt (cf s2) - k) = y - lo" using ly(2) unfolding k by (simp add: unat_of_nat)
    moreover have "k = rcv_nxt (cf s2) \<Longrightarrow> y - lo = 0" using calculation by simp
    ultimately show ?thesis by (auto simp: skip_def)
  qed
  define s3 where "s3 = (if skip < og_len g then deliver_data (drop skip (og_data g)) s2 else s2)"
  have t: "ooo_take k g s = (if og_fin g \<and> k + of_nat (og_len g) = rcv_nxt (cf s3) then handle_fin (k + of_nat (og_len g)) s3 else s3)"
    unfolding ooo_take_def Let_def s1_def [symmetric] s2_def [symmetric] skip_def [symmetric] s3_def [symmetric] by (rule refl)
  have data: "drop skip (og_data g) = subl (N + y) (hi - y) S"
  proof -
    have "og_data g = subl (N + lo) (og_len g) S" using cache_okD(2) [OF c g] by (simp add: seg_ok_def lo_def)
    from arg_cong [OF this, of "drop skip"] show ?thesis using pos skip by (auto simp: drop_subl lo_def hi_def add.commute)
  qed
  have "\<exists>y'. (y' = y \<or> y' = hi) \<and> y \<le> y' \<and> drain_inv S N r y' s3 \<and> \<not> fin_received (cf s3) \<and> feeds s (subl (N + y) (y' - y) S) s3"
  proof (cases "skip < og_len g")
    case True
    hence hy: "y < hi" "length (drop skip (og_data g)) = hi - y" using pos skip by (auto simp: lo_def hi_def)
    have s3: "s3 = deliver_data (drop skip (og_data g)) s2" using True by (simp add: s3_def)
    have gd2: "rx_good s2" "\<not> rx_shutdown (cf s2)" using d2 by (auto simp: drain_inv_def)
    have nf3: "\<not> fin_received (cf s3)" using nf2 by (simp add: s3)
    note P = drain_progress [OF d2 nf2 _ deliver_data_reads, of _ "drop skip (og_data g)", folded s3]
    from deliver_data_feeds [OF gd2, of "drop skip (og_data g)", folded s3] show ?thesis
    proof
      assume a: "feeds s2 [] s3 \<and> rcv_nxt (cf s3) = rcv_nxt (cf s2)"
      hence "drain_inv S N r y s3" using P [of 0] at by (simp add: subl_def rcv_at_def)
      thus ?thesis using a feeds_trans0 [OF fe2] nf3 by (intro exI [of _ y]) (auto simp: subl_def)
    next
      assume a: "feeds s2 (drop skip (og_data g)) s3 \<and> rcv_nxt (cf s3) = rcv_nxt (cf s2) + of_nat (length (drop skip (og_data g)))"
      hence "drain_inv S N r hi s3" using P [of "hi - y"] hy E data by (simp add: hi_def)
      thus ?thesis using a feeds_trans0 [OF fe2] nf3 hy data by (intro exI [of _ hi]) auto
    qed
  next
    case False
    thus ?thesis using d2 nf2 fe2 by (intro exI [of _ y]) (simp add: s3_def subl_def)
  qed
  then obtain y' where y': "y' = y \<or> y' = hi" "y \<le> y'" "drain_inv S N r y' s3" "\<not> fin_received (cf s3)" "feeds s (subl (N + y) (y' - y) S) s3"
    by blast
  have "drain_inv S N r y' (ooo_take k g s) \<and> feeds s (subl (N + y) (y' - y) S) (ooo_take k g s)"
  proof (cases "og_fin g \<and> k + of_nat (og_len g) = rcv_nxt (cf s3)")
    case True
    have at3: "rcv_at S N r y' (cf s3)" using y'(3) by (simp add: drain_inv_def)
    have "hi = y'" using True E(1) rcv_at_dist [OF at3] y'(4) by (simp add: hi_def)
    hence L: "N + y' = length S" using E(3) True by (simp add: hi_def)
    have e: "k + of_nat (og_len g) = rcv_nxt (cf s3)" using True by simp
    note H = handle_fin_accept [OF e y'(4)]
    have "drain_inv S N r y' (handle_fin (k + of_nat (og_len g)) s3)"
      using y'(3,4) H L unfolding drain_inv_def by (auto simp: rcv_at_def feeds_def add.assoc)
    thus ?thesis using feeds_0trans [OF y'(5) H(1)] True t by simp
  next
    case False
    thus ?thesis using y' t by auto
  qed
  thus ?thesis using y' by (auto simp: hi_def)
qed

end
