(* ===== verification/Tcp_Stream.thy ===== *)
theory Tcp_Stream
  imports Tcp_Receive
begin

text \<open>
  Stream integrity of the TCP receive path. The payload part of \<^verbatim>\<open>tcp_engine::handle_segment\<close>
  (data, then FIN) and the steps of an application read are run in any order; the theorems show that
  the bytes handed to completed reads, followed by the bytes still queued, are always a prefix of the
  stream the peer sent, whatever the order, duplication, overlap or loss of segments, and that every
  byte the flow holds is charged to the buffer accountant.
\<close>

section \<open>Draining the cache\<close>

lemma cache_apart: "cache_ok S N r m \<Longrightarrow> p \<in> set m \<Longrightarrow> q \<in> set m \<Longrightarrow> p \<noteq> q \<Longrightarrow> apart r p q"
  by (simp add: cache_ok_def)

lemma taken_not_passed:
  assumes c: "cache_ok S N r m" and np: "not_passed r y m" and g: "(k, g) \<in> set m" and pos: "seq_dist k r \<le> y"
    and y': "y' = y \<or> y' = seq_dist k r + og_len g"
  shows "not_passed r y' (om_erase k m)"
  unfolding not_passed_def cache_remove(4) [OF c g]
proof
  fix q assume q: "q \<in> set m - {(k, g)}"
  hence n: "y < hi_of r q \<or> y \<le> lo_of r q" using np by (simp add: not_passed_def)
  have "apart r (k, g) q" using cache_apart [OF c g, of q] q by auto
  hence "fst q \<noteq> k" "seq_dist k r + og_len g \<le> lo_of r q \<or> hi_of r q \<le> seq_dist k r" by (auto simp: apart_def)
  moreover from this have "lo_of r q \<noteq> seq_dist k r" using seq_dist_inj by metis
  ultimately show "y' < hi_of r q \<or> y' \<le> lo_of r q" using n y' pos by auto
qed

lemma flush_drain_ok:
  assumes "drain_inv S N r y s" "not_passed r y (ooo_cache (cf s))" "flush_drain d s = (ret, d', s')"
  shows "\<not> ret \<and> (\<exists>y'\<ge>y. drain_inv S N r y' s' \<and> feeds s (subl (N + y) (y' - y) S) s' \<and>
    (\<forall>q\<in>set (ooo_cache (cf s')). y' \<le> lo_of r q))"
  using assms
proof (induction d s arbitrary: y ret d' s' rule: flush_drain.induct)
  case (1 d s)
  let ?m = "ooo_cache (cf s)"
  have c: "cache_ok S N r ?m" using "1.prems"(1) by (simp add: drain_inv_def)
  show ?case
  proof (cases "ooo_candidate (rcv_nxt (cf s)) ?m")
    case None
    hence s': "\<not> ret" "s' = s" using "1.prems"(3) by (auto simp: flush_drain.simps)
    have "y \<le> lo_of r (k, g)" if q: "(k, g) \<in> set ?m" for k g
    proof -
      have "\<not> (k = rcv_nxt (cf s) \<or> (seq_gt (rcv_nxt (cf s)) k \<and> seq_gt (k + of_nat (og_len g)) (rcv_nxt (cf s))))"
        using None q by (auto simp: ooo_candidate_def find_None_iff)
      hence "fin_received (cf s) \<or> \<not> (seq_dist k r = y \<or> (seq_dist k r < y \<and> y < seq_dist k r + og_len g))"
        using candidate_pos [OF "1.prems"(1,2) q] by simp
      moreover have "y < seq_dist k r + og_len g \<or> y \<le> seq_dist k r"
        using "1.prems"(2) q by (auto simp: not_passed_def)
      moreover have "fin_received (cf s) \<Longrightarrow> seq_dist k r + og_len g \<le> y"
        using "1.prems"(1) entry_end(2) [OF c q] by (auto simp: drain_inv_def rcv_at_def)
      ultimately show ?thesis by auto
    qed
    thus ?thesis using s' "1.prems"(1) by (auto simp: subl_def)
  next
    case (Some p)
    then obtain k g where p: "ooo_candidate (rcv_nxt (cf s)) ?m = Some (k, g)" by (cases p) auto
    note C = ooo_candidate_SomeD [OF p]
    have g: "(k, g) \<in> set ?m" using C by simp
    have nf: "\<not> fin_received (cf s)" and pos: "seq_dist k r = y \<or> (seq_dist k r < y \<and> y < seq_dist k r + og_len g)"
      using C candidate_pos [OF "1.prems"(1,2) g] by auto
    define t where "t = ooo_take k g s"
    obtain z where z: "z = y \<or> z = seq_dist k r + og_len g" "y \<le> z" "drain_inv S N r z t" "feeds s (subl (N + y) (z - y) S) t"
      using ooo_take_drain [OF "1.prems"(1) nf "1.prems"(2) g pos] unfolding t_def by blast
    have nc: "fl_state (cf t) \<noteq> CLOSED" using z(3) by (simp add: drain_inv_def)
    have "not_passed r z (ooo_cache (cf t))"
      using taken_not_passed [OF c "1.prems"(2) g _ z(1)] pos by (auto simp: t_def)
    moreover have "flush_drain True t = (ret, d', s')"
      using "1.prems"(3) p nc by (simp add: flush_drain.simps [of d] t_def)
    ultimately obtain y' where y': "\<not> ret" "z \<le> y'" "drain_inv S N r y' s'" "feeds t (subl (N + z) (y' - z) S) s'"
      "\<forall>q\<in>set (ooo_cache (cf s')). y' \<le> lo_of r q"
      using "1.IH" [OF p refl t_def nc z(3)] by blast
    have "subl (N + y) (z - y) S @ subl (N + z) (y' - z) S = subl (N + y) (y' - y) S"
      using subl_append [of "N + y" "z - y" S "y' - z"] z(2) y'(2) by simp
    hence "feeds s (subl (N + y) (y' - y) S) s'" using feeds_trans [OF z(4) y'(4)] by simp
    thus ?thesis using y' z(2) by (meson order_trans)
  qed
qed

text \<open>Counting the positions from the new receive position.\<close>

lemma drain_rebase:
  assumes d: "drain_inv S N r y s" and lo: "\<forall>q\<in>set (ooo_cache (cf s)). y \<le> lo_of r q"
  shows "drain_inv S (N + y) (r + of_nat y) 0 s"
proof -
  let ?m = "ooo_cache (cf s)" and ?r = "r + of_nat y"
  have c: "cache_ok S N r ?m" using d by (simp add: drain_inv_def)
  have sh: "lo_of ?r q = lo_of r q - y" "y \<le> lo_of r q" if "q \<in> set ?m" for q using lo that seq_dist_shift by blast+
  have "cache_ok S (N + y) ?r ?m" unfolding cache_ok_def
  proof (intro conjI ballI impI)
    show "om_wf ?m" using c by (simp add: cache_ok_def)
    fix p assume p: "p \<in> set ?m"
    show "entry_ok S (N + y) ?r p"
      using c p sh [OF p] by (auto simp: cache_ok_def entry_ok_def)
    fix q assume q: "q \<in> set ?m" "p \<noteq> q"
    have "apart r p q" by (rule cache_apart [OF c p q])
    thus "apart ?r p q" using sh [OF p] sh [OF q(1)] by (auto simp: apart_def)
  qed
  thus ?thesis using d by (auto simp: drain_inv_def rcv_at_def)
qed

lemma om_begin_in: "om_wf m \<Longrightarrow> om_begin m = Some k \<Longrightarrow> k \<in> fst ` set m"
  by (auto simp: om_begin_def split: list.splits)

lemma flush_ooo_ok:
  assumes d: "drain_inv S N r y s"
  shows "\<exists>y'\<ge>y. drain_inv S (N + y') (r + of_nat y') 0 (flush_ooo s) \<and> feeds s (subl (N + y) (y' - y) S) (flush_ooo s)"
proof -
  obtain ret pr s1 where p: "flush_prune (om_begin (ooo_cache (cf s))) False s = (ret, pr, s1)" by (metis prod_cases3)
  have wf: "om_wf (ooo_cache (cf s))" using d by (simp add: drain_inv_def cache_ok_def)
  have "\<not> ret \<and> drain_inv S N r y s1 \<and> feeds s [] s1 \<and> (\<forall>q\<in>set (ooo_cache (cf s1)). y < hi_of r q)"
  proof (rule flush_prune_drain [OF d _ _ p])
    show "\<forall>k. om_begin (ooo_cache (cf s)) = Some k \<longrightarrow> k \<in> fst ` set (ooo_cache (cf s))" using om_begin_in [OF wf] by blast
    show "\<forall>q\<in>set (ooo_cache (cf s)). (\<forall>k. om_begin (ooo_cache (cf s)) = Some k \<longrightarrow> fst q < k) \<longrightarrow> y < hi_of r q"
    proof (intro ballI impI)
      fix q assume q: "q \<in> set (ooo_cache (cf s))" "\<forall>k. om_begin (ooo_cache (cf s)) = Some k \<longrightarrow> fst q < k"
      obtain k where k: "om_begin (ooo_cache (cf s)) = Some k" using q(1) by (cases "ooo_cache (cf s)") (auto simp: om_begin_def)
      hence "k \<le> fst q" using om_begin_least [OF wf k] q(1) by auto
      thus "y < hi_of r q" using q(2) k by auto
    qed
  qed
  hence p1: "\<not> ret" "drain_inv S N r y s1" "feeds s [] s1" "\<forall>q\<in>set (ooo_cache (cf s1)). y < hi_of r q" by auto
  define s2 where "s2 = upf (\<lambda>f. f\<lparr>ooo_count := length (ooo_cache f)\<rparr>) s1"
  have f2: "feeds s1 [] s2" unfolding s2_def by (rule feeds_upf) (simp add: rx_queue_def charge_def)
  have d2: "drain_inv S N r y s2" using p1(2) by (auto simp: s2_def drain_inv_def rcv_at_def rx_good_def charge_def)
  have np: "not_passed r y (ooo_cache (cf s2))" using p1(4) by (simp add: s2_def not_passed_def)
  obtain ret' dl s3 where f: "flush_drain False s2 = (ret', dl, s3)" by (metis prod_cases3)
  obtain y' where y': "\<not> ret'" "y \<le> y'" "drain_inv S N r y' s3" "feeds s2 (subl (N + y) (y' - y) S) s3"
    "\<forall>q\<in>set (ooo_cache (cf s3)). y' \<le> lo_of r q"
    using flush_drain_ok [OF d2 np f] by blast
  define s4 where "s4 = flush_ooo s"
  have s4: "s4 = (if dl \<and> fl_state (cf s3) \<noteq> CLOSED then send_ack s3
    else if pr \<and> fl_state (cf s3) \<noteq> CLOSED then notify_window_updated s3 else s3)"
    using p1(1) y'(1) p f by (simp add: s4_def flush_ooo_def Let_def flip: s2_def)
  hence sn: "sends s3 s4" by (simp add: send_ack_sends notify_window_updated_sends)
  have fe: "feeds s (subl (N + y) (y' - y) S) s4"
    using feeds_trans0 [OF feeds_trans0 [OF p1(3) f2] y'(4)] feeds_0trans sends_feeds [OF sn] by blast
  have "drain_inv S N r y' s4"
    using y'(3) sends_feeds [OF sn] sends_flow [OF sn] by (auto simp: drain_inv_def rcv_at_def feeds_def)
  from drain_rebase [OF this] have "drain_inv S (N + y') (r + of_nat y') 0 s4" using y'(5) sends_flow [OF sn] by simp
  thus ?thesis using fe y'(2) by (auto simp: s4_def)
qed

section \<open>Segments of the peer's stream\<close>

text \<open>
  \<open>rx_inv S b N s\<close>: the peer sends the bytes \<open>S\<close> numbered from \<open>b\<close>, and the flow has taken in exactly
  the first \<open>N\<close> of them; its cache holds pieces of the rest.
\<close>

definition rx_inv :: "byte list \<Rightarrow> u32 \<Rightarrow> nat \<Rightarrow> tcp_ctx \<Rightarrow> bool" where
  "rx_inv S b N s \<longleftrightarrow> drain_inv S N (b + of_nat N) 0 s"

text \<open>
  \<open>piece S N n l flags\<close>: the segment holds the \<open>l\<close> bytes of the stream from position \<open>n\<close>, has FIN only
  at the end of the stream, and lies in the half of the sequence space around the receive position \<open>N\<close>
  (a sender with a window of at most \<open>2 ^ 30\<close> bytes never leaves it, RFC 7323).
\<close>

definition piece :: "byte list \<Rightarrow> nat \<Rightarrow> nat \<Rightarrow> nat \<Rightarrow> byte \<Rightarrow> bool" where
  "piece S N n l flags \<longleftrightarrow> n + l \<le> length S \<and> (has_flag flags TCP_FIN \<longrightarrow> n + l = length S) \<and>
     n + l + 1 < N + 2 ^ 31 \<and> N + 1 < n + 2 ^ 31"

lemma position_dist: "N \<le> n \<Longrightarrow> n < N + 2 ^ 32 \<Longrightarrow> seq_dist (b + of_nat n) (b + of_nat N) = n - N"
proof -
  assume a: "N \<le> n" "n < N + 2 ^ 32"
  have "(b + of_nat n) - (b + of_nat N) = (of_nat (n - N) :: u32)" using a(1) by (simp add: of_nat_diff)
  thus ?thesis using a(2) by (simp add: seq_dist_def unat_of_nat)
qed

lemma position_order:
  fixes b :: u32
  assumes "N < n + 2 ^ 31" "n < N + 2 ^ 31"
  shows "b + of_nat n = b + of_nat N \<longleftrightarrow> n = N" "seq_gt (b + of_nat n) (b + of_nat N) \<longleftrightarrow> N < n"
proof -
  let ?r = "b + of_nat (min n N)"
  have d: "seq_dist (b + of_nat n) ?r = n - min n N" "seq_dist (b + of_nat N) ?r = N - min n N"
    using assms by (intro position_dist; simp)+
  show "b + of_nat n = b + of_nat N \<longleftrightarrow> n = N"
    using seq_dist_inj [of "b + of_nat n" ?r "b + of_nat N"] unfolding d by auto
  show "seq_gt (b + of_nat n) (b + of_nat N) \<longleftrightarrow> N < n"
    using assms by (subst seq_window(1) [of _ ?r]) (auto simp: d)
qed

text \<open>A frame for steps that leave the received stream alone.\<close>

lemma rx_inv_idle:
  assumes "rx_inv S b N s" "feeds s [] s'" "rcv_nxt (cf s') = rcv_nxt (cf s)" "fin_received (cf s') = fin_received (cf s)"
    "ooo_cache (cf s') = ooo_cache (cf s)" "ooo_bytes (cf s') = ooo_bytes (cf s)" "rx_shutdown (cf s') = rx_shutdown (cf s)"
    "fl_state (cf s') \<noteq> CLOSED"
  shows "rx_inv S b N s'"
  using assms unfolding rx_inv_def drain_inv_def by (simp add: rcv_at_def feeds_def)

lemma rx_inv_sends: "rx_inv S b N s \<Longrightarrow> sends s s' \<Longrightarrow> rx_inv S b N s'"
  by (rule rx_inv_idle [of S b N s]) (auto simp: sends_feeds sends_flow rx_inv_def drain_inv_def)

lemma rx_ooo_inc_idle [simp]:
  "cf (rx_ooo_inc s) = cf s" "e_posted (cenv (rx_ooo_inc s)) = e_posted (cenv s)" "e_account (cenv (rx_ooo_inc s)) = e_account (cenv s)"
  by (simp_all add: rx_ooo_inc_def)

lemma ooo_append_feeds:
  assumes i: "rx_inv S b N s" and nf: "\<not> fin_received (cf s)"
    and p: "N \<le> n" "n + length data + 1 < N + 2 ^ 31"
    and ok: "data \<noteq> [] \<or> fin \<Longrightarrow> seg_ok S n \<lparr>og_data = data, og_fin = fin\<rparr>"
    and a: "ooo_append (b + of_nat n) data fin s = (res, s')"
  shows "rx_inv S b N s' \<and> feeds s [] s'"
proof -
  let ?r = "b + of_nat N"
  have d: "drain_inv S N ?r 0 s" using i by (simp add: rx_inv_def)
  have x: "n - N = seq_dist (b + of_nat n) ?r" using p position_dist [of N n b] by simp
  note C = ooo_append_caches [OF a, unfolded caches_def]
  have O: "cache_ok S N ?r (ooo_cache (cf s')) \<and> ooo_bytes (cf s') = cache_bytes (ooo_cache (cf s')) \<and>
      used s' + ooo_bytes (cf s) = used s + ooo_bytes (cf s')"
    using ooo_append_ok [OF _ _ x _ _ a, of S] d p ok by (auto simp: drain_inv_def)
  have f: "rx_head (cf s') = rx_head (cf s)" "rx_bytes (cf s') = rx_bytes (cf s)" "rx_data (cf s') = rx_data (cf s)"
    "active_read (cf s') = active_read (cf s)" "rx_shutdown (cf s') = rx_shutdown (cf s)" "fl_state (cf s') = fl_state (cf s)"
    "rcv_nxt (cf s') = rcv_nxt (cf s)" "fin_received (cf s') = fin_received (cf s)"
    by (use C in \<open>cases "cf s", cases "cf s'", simp\<close>)+
  have fe: "feeds s [] s'" unfolding feeds_def
    using f O C by (auto simp: rx_good_def charge_def rx_queue_def)
  thus ?thesis using d O f unfolding rx_inv_def drain_inv_def by (auto simp: rcv_at_def feeds_def)
qed

lemma deliver_flush_ok:
  assumes i: "rx_inv S b N s" and nf: "\<not> fin_received (cf s)" and m: "N + m \<le> length S" "m + 1 < 2 ^ 31"
  shows "\<exists>N'\<ge>N. rx_inv S b N' (flush_ooo (deliver_data (subl N m S) s)) \<and>
    feeds s (subl N (N' - N) S) (flush_ooo (deliver_data (subl N m S) s))"
proof -
  let ?r = "b + of_nat N"
  define t where "t = deliver_data (subl N m S) s"
  have d: "drain_inv S N ?r 0 s" using i by (simp add: rx_inv_def)
  hence g: "rx_good s" "\<not> rx_shutdown (cf s)" by (auto simp: drain_inv_def)
  have l: "length (subl N m S) = m" using m by simp
  have "\<exists>y. drain_inv S N ?r y t \<and> feeds s (subl N y S) t"
    using deliver_data_feeds [OF g, of "subl N m S", folded t_def, unfolded l]
  proof
    assume a: "feeds s [] t \<and> rcv_nxt (cf t) = rcv_nxt (cf s)"
    thus ?thesis using drain_progress [OF d nf _ _ _, of 0 t] deliver_data_reads [of s "subl N m S", folded t_def] m
      by (intro exI [of _ 0]) (simp add: subl_def)
  next
    assume a: "feeds s (subl N m S) t \<and> rcv_nxt (cf t) = rcv_nxt (cf s) + of_nat m"
    thus ?thesis using drain_progress [OF d nf, of m t] deliver_data_reads [of s "subl N m S", folded t_def] m
      by (intro exI [of _ m]) simp
  qed
  then obtain y where y: "drain_inv S N ?r y t" "feeds s (subl N y S) t" by blast
  obtain y' where y': "y \<le> y'" "drain_inv S (N + y') (?r + of_nat y') 0 (flush_ooo t)"
      "feeds t (subl (N + y) (y' - y) S) (flush_ooo t)"
    using flush_ooo_ok [OF y(1)] by blast
  have "subl N y S @ subl (N + y) (y' - y) S = subl N y' S" using y'(1) by (simp add: subl_append)
  hence "feeds s (subl N y' S) (flush_ooo t)" using feeds_trans [OF y(2) y'(3)] by simp
  thus ?thesis using y'(2) by (intro exI [of _ "N + y'"]) (simp add: rx_inv_def t_def add.assoc)
qed

lemma rx_inv_pos:
  assumes "rx_inv S b N s"
  shows "rcv_nxt (cf s) = b + of_nat (N + (if fin_received (cf s) then 1 else 0))" "N \<le> length S"
    "fin_received (cf s) \<Longrightarrow> N = length S"
  using assms by (auto simp: rx_inv_def drain_inv_def rcv_at_def)

lemma rx_inv_dropped: "rx_inv S b N s \<Longrightarrow> rx_inv S b N (send_ack (rx_dropped_inc s)) \<and> feeds s [] (send_ack (rx_dropped_inc s))"
proof -
  assume i: "rx_inv S b N s"
  have f: "feeds s [] (rx_dropped_inc s)" by (simp add: feeds_def rx_good_def)
  have "rx_inv S b N (rx_dropped_inc s)"
    by (rule rx_inv_idle [OF i f]) (use i in \<open>simp_all add: rx_inv_def drain_inv_def\<close>)
  thus ?thesis using rx_inv_sends [OF _ send_ack_sends] feeds_trans0 [OF f sends_feeds [OF send_ack_sends]] by blast
qed

lemma ooo_append_result_ok:
  assumes i: "rx_inv S b N s" and nf: "\<not> fin_received (cf s)" and p: "N \<le> n" "n + length data + 1 < N + 2 ^ 31"
    and ok: "seg_ok S n \<lparr>og_data = data, og_fin = fin\<rparr>"
    and s': "s' = (let (ok, t) = ooo_append (b + of_nat n) data fin s in if ok then rx_ooo_inc t else send_ack t)"
  shows "rx_inv S b N s' \<and> feeds s [] s'"
proof -
  obtain res t where a: "ooo_append (b + of_nat n) data fin s = (res, t)" by fastforce
  have t: "rx_inv S b N t" "feeds s [] t" using ooo_append_feeds [OF i nf p ok a] by simp_all
  have f: "feeds t [] (rx_ooo_inc t)" by (simp add: feeds_def rx_good_def)
  have o: "rx_inv S b N (rx_ooo_inc t)"
    by (rule rx_inv_idle [OF t(1) f]) (use t(1) in \<open>simp_all add: rx_inv_def drain_inv_def\<close>)
  show ?thesis using t f o rx_inv_sends [OF t(1) send_ack_sends] feeds_trans0 [OF t(2)] sends_feeds [OF send_ack_sends]
    unfolding s' a by auto
qed

lemma handle_data_ok:
  assumes i: "rx_inv S b N s" and p: "piece S N n l flags" "0 < l"
  shows "\<exists>N'\<ge>N. rx_inv S b N' (handle_data (b + of_nat n) (subl n l S) flags s) \<and>
    feeds s (subl N (N' - N) S) (handle_data (b + of_nat n) (subl n l S) flags s)"
proof -
  define R where "R = N + (if fin_received (cf s) then 1 else 0)"
  define s' where "s' = handle_data (b + of_nat n) (subl n l S) flags s"
  have R: "rcv_nxt (cf s) = b + of_nat R" using rx_inv_pos(1) [OF i] by (simp add: R_def)
  have l: "length (subl n l S) = l" using p by (simp add: piece_def)
  have w: "R < n + 2 ^ 31" "n < R + 2 ^ 31" "R < n + l + 2 ^ 31" "n + l < R + 2 ^ 31"
    using p by (auto simp: piece_def R_def)
  have fin: "fin_received (cf s) \<Longrightarrow> n < N \<and> n + l \<le> N" using rx_inv_pos(3) [OF i] p by (auto simp: piece_def)
  have e: "b + of_nat n + of_nat l = b + of_nat (n + l)" by (simp add: add.assoc)
  have u: "s' = (if n = R then flush_ooo (deliver_data (subl n l S) s)
     else if R < n then let (ok, t) = ooo_append (b + of_nat n) (subl n l S) (has_flag flags TCP_FIN) s in
        if ok then rx_ooo_inc t else send_ack t
     else if R < n + l then flush_ooo (deliver_data (drop (unat (rcv_nxt (cf s) - (b + of_nat n))) (subl n l S)) s)
     else send_ack (rx_dropped_inc s))"
    unfolding s'_def handle_data_def Let_def l e R position_order [OF w(1,2)] position_order(2) [OF w(3,4)] by (rule refl)
  have "\<exists>N'\<ge>N. rx_inv S b N' s' \<and> feeds s (subl N (N' - N) S) s'"
  proof (cases "n + l \<le> R")
    case True
    hence "s' = send_ack (rx_dropped_inc s)" using u p(2) by simp
    thus ?thesis using rx_inv_dropped [OF i] by (intro exI [of _ N]) (simp add: subl_def)
  next
    case False
    hence nf: "\<not> fin_received (cf s)" and RN: "R = N" using fin by (auto simp: R_def)
    consider "n = N" | "N < n" | "n < N" by linarith
    thus ?thesis
    proof cases
      case 1
      thus ?thesis using deliver_flush_ok [OF i nf, of l] u p RN by (simp add: piece_def)
    next
      case 2
      have "seg_ok S n \<lparr>og_data = subl n l S, og_fin = has_flag flags TCP_FIN\<rparr>"
        using p l unfolding seg_ok_def piece_def by (simp add: l) (metis length_0_conv l not_less_zero)
      note A = ooo_append_result_ok [OF i nf _ _ this, unfolded l]
      have "rx_inv S b N s' \<and> feeds s [] s'" by (rule A) (use 2 u p RN in \<open>simp_all add: piece_def\<close>)
      thus ?thesis by (intro exI [of _ N]) (simp add: subl_def)
    next
      case 3
      have k: "unat (rcv_nxt (cf s) - (b + of_nat n)) = N - n"
        using 3 p position_dist [of n N b] unfolding R RN seq_dist_def by (simp add: piece_def)
      have "drop (N - n) (subl n l S) = subl N (n + l - N) S" using 3 False RN drop_subl [of "N - n" n l S] by (simp add: add.commute)
      hence "s' = flush_ooo (deliver_data (subl N (n + l - N) S) s)" using u 3 False RN k by simp
      moreover have "N + (n + l - N) \<le> length S" "n + l - N + 1 < 2 ^ 31" using p False RN by (auto simp: piece_def)
      ultimately show ?thesis using deliver_flush_ok [OF i nf] by simp
    qed
  qed
  thus ?thesis by (simp add: s'_def)
qed

section \<open>The payload of a segment\<close>

text \<open>The last part of \<^verbatim>\<open>handle_segment\<close>: the data and then the FIN of a segment.\<close>

definition segment_fin :: "u32 \<Rightarrow> byte list \<Rightarrow> byte \<Rightarrow> tcp_ctx \<Rightarrow> tcp_ctx" where
  "segment_fin seq data flags s =
     (if has_flag flags TCP_FIN then
        let fin_seq = seq + of_nat (length data) in
        if length data = 0 \<and> seq_gt fin_seq (rcv_nxt (cf s)) then
          let (ok, s) = ooo_append fin_seq [] True s in if ok then rx_ooo_inc s else send_ack s
        else handle_fin fin_seq s
      else s)"

definition segment_payload :: "u32 \<Rightarrow> byte list \<Rightarrow> byte \<Rightarrow> tcp_ctx \<Rightarrow> tcp_ctx" where
  "segment_payload seq data flags s =
     segment_fin seq data flags (if length data > 0 then handle_data seq data flags s else s)"

lemma handle_fin_ok:
  assumes i: "rx_inv S b N s" and p: "q = b + of_nat (length S)" "length S < N + 2 ^ 31"
  shows "rx_inv S b N (handle_fin q s) \<and> feeds s [] (handle_fin q s)"
proof (cases "fin_received (cf s)")
  case True
  hence e: "rcv_nxt (cf s) = q + 1" using rx_inv_pos [OF i] p by (simp add: ac_simps)
  hence "handle_fin q s = send_ack s" using True by (simp add: handle_fin_def)
  thus ?thesis using rx_inv_sends [OF i send_ack_sends] sends_feeds [OF send_ack_sends] by simp
next
  case False
  show ?thesis
  proof (cases "q = rcv_nxt (cf s)")
    case True
    have "length S = N" using True rx_inv_pos [OF i] False p position_order(1) [of "N" "length S" b] by simp
    note H = handle_fin_accept [OF True False]
    have "drain_inv S N (b + of_nat N) 0 (handle_fin q s)"
      using i False H \<open>length S = N\<close> unfolding rx_inv_def drain_inv_def by (auto simp: rcv_at_def feeds_def add.assoc)
    thus ?thesis using H by (simp add: rx_inv_def)
  next
    case q: False
    hence "handle_fin q s = s" using False by (simp add: handle_fin_def)
    thus ?thesis using i by simp
  qed
qed

lemma segment_fin_ok:
  assumes i: "rx_inv S b N s" and p: "n + l \<le> length S" "has_flag flags TCP_FIN \<longrightarrow> n + l = length S"
    "n + l + 1 < N + 2 ^ 31"
  shows "rx_inv S b N (segment_fin (b + of_nat n) (subl n l S) flags s) \<and> feeds s [] (segment_fin (b + of_nat n) (subl n l S) flags s)"
proof (cases "has_flag flags TCP_FIN")
  case True
  have l: "length (subl n l S) = l" using p by simp
  have e: "b + of_nat n + of_nat l = b + of_nat (length S)" using True p by (simp add: add.assoc flip: of_nat_add)
  define R where "R = N + (if fin_received (cf s) then 1 else 0)"
  have R: "rcv_nxt (cf s) = b + of_nat R" using rx_inv_pos(1) [OF i] by (simp add: R_def)
  have g: "seq_gt (b + of_nat (length S)) (rcv_nxt (cf s)) \<longleftrightarrow> R < length S"
    unfolding R by (rule position_order(2)) (use p True rx_inv_pos(2) [OF i] in \<open>auto simp: R_def\<close>)
  show ?thesis
  proof (cases "l = 0 \<and> R < length S")
    case c: True
    have nf: "\<not> fin_received (cf s)" using c rx_inv_pos(3) [OF i] by (auto simp: R_def)
    have ok: "seg_ok S (length S) \<lparr>og_data = [], og_fin = True\<rparr>" by (simp add: seg_ok_def subl_def)
    show ?thesis
      by (rule ooo_append_result_ok [OF i nf _ _ ok])
         (use p True c g e l rx_inv_pos(2) [OF i] in \<open>simp_all add: segment_fin_def\<close>)
  next
    case False
    hence "segment_fin (b + of_nat n) (subl n l S) flags s = handle_fin (b + of_nat (length S)) s"
      unfolding segment_fin_def Let_def l e g using True by auto
    thus ?thesis using handle_fin_ok [OF i refl] p True by simp
  qed
next
  case False
  thus ?thesis using i by (simp add: segment_fin_def)
qed

lemma segment_payload_ok:
  assumes i: "rx_inv S b N s" and p: "piece S N n l flags"
  shows "\<exists>N'\<ge>N. rx_inv S b N' (segment_payload (b + of_nat n) (subl n l S) flags s) \<and>
    feeds s (subl N (N' - N) S) (segment_payload (b + of_nat n) (subl n l S) flags s)"
proof -
  have l: "length (subl n l S) = l" using p by (simp add: piece_def)
  define t where "t = (if length (subl n l S) > 0 then handle_data (b + of_nat n) (subl n l S) flags s else s)"
  obtain N' where N': "N \<le> N'" "rx_inv S b N' t" "feeds s (subl N (N' - N) S) t"
  proof (cases "l = 0")
    case True
    thus ?thesis using i l that [of N] by (simp add: t_def subl_def)
  next
    case False
    thus ?thesis using handle_data_ok [OF i p] l that by (auto simp: t_def)
  qed
  have "rx_inv S b N' (segment_fin (b + of_nat n) (subl n l S) flags t) \<and>
      feeds t [] (segment_fin (b + of_nat n) (subl n l S) flags t)"
    using N' p by (intro segment_fin_ok) (auto simp: piece_def)
  moreover have "segment_payload (b + of_nat n) (subl n l S) flags s = segment_fin (b + of_nat n) (subl n l S) flags t"
    by (simp add: segment_payload_def t_def)
  ultimately show ?thesis using feeds_0trans [OF N'(3)] N'(1) by auto
qed

end
