(* ===== verification/Tcp_Conn.thy ===== *)
theory Tcp_Conn
  imports Tcp_Stream
begin

text \<open>
  Connection control of the TCP engine (\<^verbatim>\<open>src/tcp_engine.cpp\<close>): closing, aborting and
  accepting flows, FIN, acknowledgement and segment processing, packet dispatch with flow creation,
  the sweep timer and the entry points of the application
  (\<^verbatim>\<open>include/tunio/detail/tcp_engine.hpp\<close>). The operations up to \<open>handle_segment\<close> work on one
  flow; the later ones on the engine, which takes the flow out of its store, runs the operation and
  puts it back.
\<close>

section \<open>Closing\<close>

definition on_eng :: "(tcp_engine \<Rightarrow> tcp_engine) \<Rightarrow> tcp_ctx \<Rightarrow> tcp_ctx" where
  "on_eng g s = s\<lparr>ce := g (ce s)\<rparr>"

definition tcp_connections_add :: "u64 \<Rightarrow> tcp_ctx \<Rightarrow> tcp_ctx" where
  "tcp_connections_add d s =
     on_env (\<lambda>e. e\<lparr>e_stats := (e_stats e)\<lparr>tcp_connections := tcp_connections (e_stats e) + d\<rparr>\<rparr>) s"

text \<open>Discarding the receive queue and the out-of-order cache.\<close>

definition drop_rx :: "tcp_ctx \<Rightarrow> tcp_ctx" where
  "drop_rx s =
     (let s = (if rx_bytes (cf s) > 0
               then upf (\<lambda>f. f\<lparr>rx_bytes := 0\<rparr>) (account_release (rx_bytes (cf s)) s) else s);
          s = upf (\<lambda>f. f\<lparr>rx_data := [], rx_head := 0\<rparr>) s;
          s = (if ooo_bytes (cf s) > 0
               then upf (\<lambda>f. f\<lparr>ooo_bytes := 0\<rparr>) (account_release (ooo_bytes (cf s)) s) else s)
      in upf (\<lambda>f. f\<lparr>ooo_cache := [], ooo_count := 0\<rparr>) s)"

definition post_read :: "read_op option \<Rightarrow> error_code \<Rightarrow> tcp_ctx \<Rightarrow> tcp_ctx" where
  "post_read r ec s = (case r of None \<Rightarrow> s | Some op \<Rightarrow> post_ctx (Done_read (ro_handler op) ec 0 []) s)"

definition post_write :: "write_op option \<Rightarrow> error_code \<Rightarrow> tcp_ctx \<Rightarrow> tcp_ctx" where
  "post_write w ec s = (case w of None \<Rightarrow> s | Some op \<Rightarrow> post_ctx (Done_write (wo_handler op) ec 0) s)"

definition unlist_pending :: "tcp_ctx \<Rightarrow> tcp_ctx" where
  "unlist_pending s =
     (if pending_accept (cf s)
      then on_eng (\<lambda>e. e\<lparr>te_pending_flows := remove1 (fl_id (cf s)) (te_pending_flows e)\<rparr>)
             (upf (\<lambda>f. f\<lparr>pending_accept := False\<rparr>) s)
      else s)"

definition erase_flow :: "tcp_ctx \<Rightarrow> tcp_ctx" where
  "erase_flow s = on_eng (\<lambda>e. e\<lparr>te_flows := filter (\<lambda>p. fst p \<noteq> fl_key (cf s)) (te_flows e)\<rparr>) s"

definition uncount_flow :: "tcp_ctx \<Rightarrow> tcp_ctx" where
  "uncount_flow s =
     (if fl_state (cf s) \<noteq> SYN_RCVD \<and> fl_state (cf s) \<noteq> SYN_ACK_SENT then tcp_connections_add (- 1) s else s)"

definition close_flow :: "error_code \<Rightarrow> tcp_ctx \<Rightarrow> tcp_ctx" where
  "close_flow err s =
     (if fl_state (cf s) = CLOSED then s
      else
        let s = unlist_pending (upf (\<lambda>f. f\<lparr>ack_timer := None\<rparr>) s);
            read = active_read (cf s);
            write = active_write (cf s);
            s = drop_rx (upf (\<lambda>f. f\<lparr>active_read := None, active_write := None\<rparr>) s);
            s = erase_flow (upf (\<lambda>f. f\<lparr>fl_state := CLOSED\<rparr>) (uncount_flow s));
            s = close_write_ch s
        in post_write write err (post_read read err s))"

definition abort_flow :: "tcp_ctx \<Rightarrow> tcp_ctx" where
  "abort_flow s =
     (if fl_state (cf s) = CLOSED then s
      else
        let s = send_segment (snd_nxt (cf s)) (TCP_RST OR TCP_ACK) [] False s
        in close_flow EC_connection_reset (upf (\<lambda>f. f\<lparr>fl_rst := True\<rparr>) s))"

definition fin_blocked :: "tcp_flow \<Rightarrow> bool" where
  "fin_blocked f \<longleftrightarrow>
     (case active_write f of Some op \<Rightarrow> wo_offset op < wo_total op | None \<Rightarrow> False) \<or> snd_una f \<noteq> snd_nxt f"

definition emit_fin :: "tcp_state \<Rightarrow> tcp_ctx \<Rightarrow> tcp_ctx" where
  "emit_fin st s =
     (let s = upf (\<lambda>f. f\<lparr>fl_state := st, close_started_at := cnow s\<rparr>) s;
          s = send_segment (snd_nxt (cf s)) (TCP_ACK OR TCP_FIN) [] False s
      in upf (\<lambda>f. f\<lparr>snd_nxt := snd_nxt f + 1\<rparr>) s)"

definition send_fin :: "tcp_ctx \<Rightarrow> tcp_ctx" where
  "send_fin s =
     (if fin_sent (cf s) \<or> fl_state (cf s) = CLOSED then s
      else if fin_blocked (cf s) then upf (\<lambda>f. f\<lparr>fin_pending := True\<rparr>) s
      else
        let s = upf (\<lambda>f. f\<lparr>fin_sent := True\<rparr>) s in
        case fl_state (cf s) of
          ESTABLISHED \<Rightarrow> emit_fin FIN_WAIT_1 s
        | CLOSE_WAIT \<Rightarrow> emit_fin LAST_ACK s
        | SYN_RCVD \<Rightarrow> abort_flow s
        | SYN_ACK_SENT \<Rightarrow> abort_flow s
        | _ \<Rightarrow> s)"

definition accept_flow :: "tcp_ctx \<Rightarrow> tcp_ctx" where
  "accept_flow s =
     (if fl_state (cf s) \<noteq> SYN_RCVD then s
      else
        let s = send_segment (iss (cf s)) (TCP_SYN OR TCP_ACK) [] True s
        in upf (\<lambda>f. f\<lparr>snd_nxt := iss f + 1, fl_state := SYN_ACK_SENT\<rparr>) s)"

definition reject_flow :: "tcp_ctx \<Rightarrow> tcp_ctx" where
  "reject_flow s = abort_flow s"

definition notify_accept :: "tcp_ctx \<Rightarrow> tcp_ctx" where
  "notify_accept s =
     (case te_pending_accepts (ce s) of
        h # hs \<Rightarrow>
          let s = on_eng (\<lambda>e. e\<lparr>te_pending_accepts := hs\<rparr>) s;
              s = upf (\<lambda>f. f\<lparr>accepted := True\<rparr>) s
          in post_ctx (Done_tcp_accept h EC_ok (Some (fl_id (cf s)))) s
      | [] \<Rightarrow>
          let s = upf (\<lambda>f. f\<lparr>pending_accept := True\<rparr>) s
          in on_eng (\<lambda>e. e\<lparr>te_pending_flows := te_pending_flows e @ [fl_id (cf s)]\<rparr>) s)"

section \<open>Segments\<close>

definition ack_advance :: "u32 \<Rightarrow> tcp_flow \<Rightarrow> tcp_flow" where
  "ack_advance ack f =
     (if seq_gt ack (snd_una f) \<and> seq_ge (snd_nxt f) ack then f\<lparr>snd_una := ack\<rparr>
      else if probe_in_flight f \<and> ack = snd_nxt f + 1 \<and> seq_gt ack (snd_una f) then
        f\<lparr>snd_una := ack, snd_nxt := ack,
          active_write := map_option (\<lambda>op. if wo_offset op < wo_total op
            then op\<lparr>wo_offset := wo_offset op + 1, wo_buf_off := wo_buf_off op + 1\<rparr> else op) (active_write f)\<rparr>
      else f)"

definition pending_fin_due :: "tcp_flow \<Rightarrow> bool" where
  "pending_fin_due f \<longleftrightarrow> fin_pending f \<and> snd_una f = snd_nxt f \<and>
     (case active_write f of None \<Rightarrow> True | Some op \<Rightarrow> wo_offset op = wo_total op)"

text \<open>The result says whether the caller goes on: \<open>False\<close> when the flow was closed.\<close>

definition handle_ack :: "u32 \<Rightarrow> tcp_ctx \<Rightarrow> bool \<times> tcp_ctx" where
  "handle_ack ack s =
     (let s = upf (\<lambda>f. (ack_advance ack f)\<lparr>probe_in_flight := False\<rparr>) s;
          s = (if pending_fin_due (cf s) then send_fin (upf (\<lambda>f. f\<lparr>fin_pending := False\<rparr>) s) else s);
          acked = fin_sent (cf s) \<and> seq_ge ack (snd_nxt (cf s))
      in if fl_state (cf s) = FIN_WAIT_1 \<and> acked then
           (True, if fin_received (cf s)
                  then upf (\<lambda>f. f\<lparr>fl_state := TIME_WAIT, destroy_at := cnow s + tcp_time_wait_timeout (ccfg s)\<rparr>) s
                  else upf (\<lambda>f. f\<lparr>fl_state := FIN_WAIT_2\<rparr>) s)
         else if fl_state (cf s) = LAST_ACK \<and> acked then (False, close_flow EC_ok s)
         else (True, s))"

definition segment_established :: "u32 \<Rightarrow> byte list \<Rightarrow> byte \<Rightarrow> tcp_ctx \<Rightarrow> tcp_ctx" where
  "segment_established seq data flags s = signal_write (segment_payload seq data flags s)"

definition handshake_done :: "tcp_ctx \<Rightarrow> tcp_ctx" where
  "handshake_done s =
     (let s = tcp_connections_add 1 (upf (\<lambda>f. f\<lparr>fl_state := ESTABLISHED\<rparr>) s);
          s = (if \<not> accepted (cf s) then notify_accept s else s)
      in flush_reads s)"

definition segment_state :: "u32 \<Rightarrow> u32 \<Rightarrow> byte \<Rightarrow> byte list \<Rightarrow> tcp_ctx \<Rightarrow> tcp_ctx" where
  "segment_state seq ack flags data s =
     (if has_flag flags TCP_RST then
        close_flow EC_connection_reset (upf (\<lambda>f. f\<lparr>fl_rst := True\<rparr>) s)
      else if fl_state (cf s) = CLOSED \<or> fl_state (cf s) = SYN_RCVD then s
      else if fl_state (cf s) = SYN_ACK_SENT then
        if has_flag flags TCP_SYN \<and> seq = irs (cf s) then
          send_segment (iss (cf s)) (TCP_SYN OR TCP_ACK) [] True s
        else if \<not> has_flag flags TCP_ACK \<or> ack \<noteq> iss (cf s) + 1 then s
        else segment_established seq data flags (handshake_done s)
      else segment_established seq data flags s)"

definition handle_segment :: "tcp_header \<Rightarrow> byte list \<Rightarrow> tcp_ctx \<Rightarrow> tcp_ctx" where
  "handle_segment th data s =
     (let seq = ntohl (th_seq th); ack = ntohl (th_ack th); flags = th_flags th; wnd = ntohs (th_window th)
      in if has_flag flags TCP_ACK then
           let (go, s) = handle_ack ack s in
           if \<not> go then s
           else segment_state seq ack flags data
                  (upf (\<lambda>f. f\<lparr>peer_wnd := push_bit (unat (snd_wnd_scale f)) (ucast wnd)\<rparr>) s)
         else segment_state seq ack flags data s)"

section \<open>Packets\<close>

function wscale_loop :: "byte list \<Rightarrow> nat \<Rightarrow> nat \<Rightarrow> byte \<times> bool \<Rightarrow> byte \<times> bool" where
  "wscale_loop payload hlen i acc =
     (if i + 2 \<le> hlen \<and> payload ! i \<noteq> 0 then
        if payload ! i = 1 then wscale_loop payload hlen (i + 1) acc
        else
          let kind = payload ! i; olen = unat (payload ! (i + 1)) in
          if olen < 2 \<or> i + olen > hlen then acc
          else wscale_loop payload hlen (i + olen)
                 (if kind = 3 \<and> olen = 3 \<and> payload ! (i + 2) \<le> 14 then (payload ! (i + 2), True) else acc)
      else acc)"
  by pat_completeness auto
termination wscale_loop
  by (relation "measure (\<lambda>(p, hlen, i, acc). hlen - i)") auto

declare wscale_loop.simps [simp del]

definition parse_syn_wscale :: "byte list \<Rightarrow> nat \<Rightarrow> byte \<times> bool" where
  "parse_syn_wscale payload hlen = wscale_loop payload hlen 20 (0, False)"

text \<open>Running an operation on a stored flow.\<close>

definition with_flow :: "nat \<Rightarrow> (tcp_ctx \<Rightarrow> tcp_ctx) \<Rightarrow> tcp_engine \<Rightarrow> tcp_engine" where
  "with_flow i g eng =
     (let s = g \<lparr>cf = te_store eng i, ce = eng, cx = None\<rparr>
      in (ce s)\<lparr>te_store := (te_store (ce s))(i := cf s)\<rparr>)"

definition eng_drop :: "tcp_engine \<Rightarrow> tcp_engine" where
  "eng_drop eng = eng\<lparr>te_env := add_rx_dropped (te_env eng)\<rparr>"

definition syn_flow :: "u32 \<Rightarrow> five_tuple \<Rightarrow> tcp_header \<Rightarrow> byte list \<Rightarrow> nat \<Rightarrow> tcp_engine \<Rightarrow> tcp_flow" where
  "syn_flow random_iss key th payload hlen eng =
     (let (wscale, ok) = parse_syn_wscale payload hlen; irs = ntohl (th_seq th)
      in tcp_flow0\<lparr>fl_id := te_next_id eng, fl_key := key, irs := irs, iss := random_iss, rcv_nxt := irs + 1,
           snd_nxt := random_iss, snd_una := random_iss, fl_state := SYN_RCVD, wscale_ok := ok,
           snd_wnd_scale := (if ok then wscale else 0), rcv_wnd_scale := (if ok then k_rcv_wnd_scale else 0),
           peer_wnd := ucast (ntohs (th_window th)), created_at := e_now (te_env eng)\<rparr>)"

text \<open>Data carried by the SYN.\<close>

definition syn_data :: "byte list \<Rightarrow> tcp_ctx \<Rightarrow> tcp_ctx" where
  "syn_data data s =
     (if length data > 0 \<and> irs (cf s) + 1 = rcv_nxt (cf s) then
        if rx_bytes (cf s) + length data \<le> max_rx_queue_per_flow (ccfg s) then
          let (ok, s) = account_reserve (length data) s in
          if ok then upf (\<lambda>f. f\<lparr>rx_data := rx_data f @ data, rx_bytes := rx_bytes f + length data,
                             rcv_nxt := rcv_nxt f + of_nat (length data)\<rparr>) s
          else rx_dropped_inc s
        else rx_dropped_inc s
      else s)"

definition create_flow :: "u32 \<Rightarrow> five_tuple \<Rightarrow> tcp_header \<Rightarrow> byte list \<Rightarrow> nat \<Rightarrow> tcp_engine \<Rightarrow> tcp_engine" where
  "create_flow random_iss key th payload hlen eng =
     (let i = te_next_id eng; f = syn_flow random_iss key th payload hlen eng;
          eng = eng\<lparr>te_store := (te_store eng)(i := f), te_next_id := i + 1, te_flows := te_flows eng @ [(key, i)]\<rparr>
      in with_flow i (\<lambda>s. notify_accept (syn_data (drop hlen payload) s)) eng)"

definition on_packet :: "u32 \<Rightarrow> ip_packet_info \<Rightarrow> byte list \<Rightarrow> tcp_engine \<Rightarrow> tcp_engine" where
  "on_packet random_iss ip payload eng =
     (if length payload < sizeof_tcp_header then eng_drop eng
      else
        let th = load_tcp_header payload; hlen = th_header_len th in
        if tcp_udp_checksum (unat (pi_family ip)) (pi_src_ip ip) (pi_dst_ip ip) ip_protocol_tcp payload \<noteq> 0
        then eng_drop eng
        else if hlen < sizeof_tcp_header \<or> hlen > length payload then eng_drop eng
        else
          let is_syn = has_flag (th_flags th) TCP_SYN \<and> \<not> has_flag (th_flags th) TCP_ACK;
              key = make_five_tuple (pi_src_ip ip) (pi_dst_ip ip) (th_src_port th) (th_dst_port th)
                      ip_protocol_tcp (pi_family ip);
              found = map_of (te_flows eng) key;
              reuse = (case found of Some i \<Rightarrow> fl_state (te_store eng i) = TIME_WAIT \<and> is_syn | None \<Rightarrow> False);
              eng = (if reuse then with_flow (the found) (close_flow EC_ok) eng else eng)
          in case (if reuse then None else found) of
               Some i \<Rightarrow> with_flow i (handle_segment th (drop hlen payload)) eng
             | None \<Rightarrow>
                 if \<not> is_syn then eng
                 else if length (te_flows eng) \<ge> max_tcp_flows (te_cfg eng) then eng_drop eng
                 else create_flow random_iss key th payload hlen eng)"

section \<open>Timers and shutdown\<close>

definition start_sweep :: "tcp_engine \<Rightarrow> tcp_engine" where
  "start_sweep eng = eng\<lparr>te_sweep := Some (e_now (te_env eng) + 1000)\<rparr>"

definition half_open :: "tcp_flow \<Rightarrow> bool" where
  "half_open f \<longleftrightarrow> fl_state f = SYN_RCVD \<or> fl_state f = SYN_ACK_SENT"

definition sweep_victim :: "tun_config \<Rightarrow> int \<Rightarrow> tcp_flow \<Rightarrow> bool" where
  "sweep_victim cfg now f \<longleftrightarrow>
     (if half_open f \<and> now - created_at f > tcp_syn_timeout cfg then True
      else if fl_state f = ESTABLISHED \<and> \<not> accepted f \<and> now - created_at f > tcp_accept_timeout cfg then True
      else if fl_state f = TIME_WAIT \<and> now \<ge> destroy_at f then True
      else (fl_state f = FIN_WAIT_1 \<or> fl_state f = FIN_WAIT_2 \<or> fl_state f = LAST_ACK) \<and>
           now - close_started_at f > tcp_close_timeout cfg)"

definition sweep_flow :: "tcp_ctx \<Rightarrow> tcp_ctx" where
  "sweep_flow s =
     (if half_open (cf s) \<or> (fl_state (cf s) = ESTABLISHED \<and> \<not> accepted (cf s)) then abort_flow s
      else close_flow EC_operation_aborted s)"

definition on_sweep :: "error_code \<Rightarrow> tcp_engine \<Rightarrow> tcp_engine" where
  "on_sweep ec eng =
     (if ec \<noteq> EC_ok then eng
      else
        let victims = filter (\<lambda>i. sweep_victim (te_cfg eng) (e_now (te_env eng)) (te_store eng i)) (map snd (te_flows eng))
        in start_sweep (fold (\<lambda>i. with_flow i sweep_flow) victims eng))"

definition eng_post :: "completion \<Rightarrow> tcp_engine \<Rightarrow> tcp_engine" where
  "eng_post c eng = eng\<lparr>te_env := post_completion_on c (te_env eng)\<rparr>"

definition cancel_accepts :: "tcp_engine \<Rightarrow> tcp_engine" where
  "cancel_accepts eng =
     fold (\<lambda>h. eng_post (Done_tcp_accept h EC_operation_aborted None)) (te_pending_accepts eng)
       (eng\<lparr>te_pending_accepts := []\<rparr>)"

definition close_all :: "tcp_engine \<Rightarrow> tcp_engine" where
  "close_all eng =
     (let eng = eng\<lparr>te_sweep := None\<rparr>;
          eng = fold (\<lambda>i. with_flow i (close_flow EC_operation_aborted)) (map snd (te_flows eng)) eng
      in cancel_accepts (eng\<lparr>te_pending_flows := []\<rparr>))"

section \<open>Entry points of the application\<close>

text \<open>\<open>None\<close> stands for a socket without a flow, or whose engine is gone.\<close>

definition read_entry :: "nat list \<Rightarrow> nat \<Rightarrow> nat \<Rightarrow> tcp_ctx \<Rightarrow> tcp_ctx" where
  "read_entry buffers tot handler s =
     (if fl_state (cf s) = CLOSED \<or> app_closed (cf s) \<or> rx_shutdown (cf s) then
        post_ctx (Done_read handler EC_bad_descriptor 0 []) s
      else if fl_rst (cf s) then post_ctx (Done_read handler EC_connection_reset 0 []) s
      else
        let s = (if fl_state (cf s) = SYN_RCVD then accept_flow s else s) in
        if tot = 0 then post_ctx (Done_read handler EC_ok 0 []) s
        else if active_read (cf s) \<noteq> None then post_ctx (Done_read handler EC_no_buffer_space 0 []) s
        else flush_reads (upf (\<lambda>f. f\<lparr>active_read :=
               Some \<lparr>ro_buffers = buffers, ro_total = tot, ro_handler = handler\<rparr>\<rparr>) s))"

definition tcp_flow_start_read :: "nat option \<Rightarrow> nat list \<Rightarrow> nat \<Rightarrow> nat \<Rightarrow> tcp_engine \<Rightarrow> tcp_engine" where
  "tcp_flow_start_read flow buffers tot handler eng =
     (case flow of
        None \<Rightarrow> eng_post (Done_read handler EC_bad_descriptor 0 []) eng
      | Some i \<Rightarrow> with_flow i (read_entry buffers tot handler) eng)"

definition coro_start :: write_coro where
  "coro_start = \<lparr>wl_point = WL_start, wl_resume = Some R_signal, wl_deadline = 0, wl_persist_interval = 0, wl_persist_probes = 0,
     wl_rto = 0, wl_retransmits = 0, wl_last_una = 0\<rparr>"

definition write_entry :: "byte list list \<Rightarrow> nat \<Rightarrow> nat \<Rightarrow> tcp_ctx \<Rightarrow> tcp_ctx" where
  "write_entry buffers tot handler s =
     (if fl_state (cf s) = CLOSED \<or> app_closed (cf s) \<or> fin_sent (cf s) then
        post_ctx (Done_write handler EC_bad_descriptor 0) s
      else if fl_rst (cf s) then post_ctx (Done_write handler EC_connection_reset 0) s
      else
        let implicit_accept = (fl_state (cf s) = SYN_RCVD);
            s = (if implicit_accept then accept_flow s else s) in
        if tot = 0 then post_ctx (Done_write handler EC_ok 0) s
        else if active_write (cf s) \<noteq> None then post_ctx (Done_write handler EC_no_buffer_space 0) s
        else upf (\<lambda>f. f\<lparr>active_write := Some \<lparr>wo_buffers = buffers, wo_total = tot, wo_offset = 0, wo_buf_index = 0,
               wo_buf_off = 0, wo_start_seq = 0, wo_implicit_accept = implicit_accept, wo_handler = handler\<rparr>,
               fl_coro := Some coro_start\<rparr>) s)"

definition tcp_flow_start_write :: "nat option \<Rightarrow> byte list list \<Rightarrow> nat \<Rightarrow> nat \<Rightarrow> tcp_engine \<Rightarrow> tcp_engine" where
  "tcp_flow_start_write flow buffers tot handler eng =
     (case flow of
        None \<Rightarrow> eng_post (Done_write handler EC_bad_descriptor 0) eng
      | Some i \<Rightarrow> with_flow i (write_entry buffers tot handler) eng)"

fun take_pending :: "nat list \<Rightarrow> (nat \<Rightarrow> tcp_flow) \<Rightarrow> nat option \<times> nat list \<times> (nat \<Rightarrow> tcp_flow)" where
  "take_pending [] st = (None, [], st)"
| "take_pending (i # is) st =
     (let st = st(i := (st i)\<lparr>pending_accept := False\<rparr>) in
      if fl_state (st i) = CLOSED then take_pending is st
      else (Some i, is, st(i := (st i)\<lparr>accepted := True\<rparr>)))"

definition async_accept :: "nat \<Rightarrow> tcp_engine \<Rightarrow> tcp_engine" where
  "async_accept handler eng =
     (let (found, rest, st) = take_pending (te_pending_flows eng) (te_store eng);
          eng = eng\<lparr>te_pending_flows := rest, te_store := st\<rparr>
      in case found of
           Some i \<Rightarrow> eng_post (Done_tcp_accept handler EC_ok (Some i)) eng
         | None \<Rightarrow> eng\<lparr>te_pending_accepts := te_pending_accepts eng @ [handler]\<rparr>)"

definition shutdown_send_entry :: "tcp_ctx \<Rightarrow> tcp_ctx" where
  "shutdown_send_entry s = (if fl_state (cf s) = CLOSED \<or> app_closed (cf s) then s else send_fin s)"

definition shutdown_receive_entry :: "tcp_ctx \<Rightarrow> tcp_ctx" where
  "shutdown_receive_entry s =
     (if fl_state (cf s) = CLOSED then s
      else
        let s = upf (\<lambda>f. f\<lparr>rx_shutdown := True\<rparr>) s;
            read = active_read (cf s);
            s = drop_rx (upf (\<lambda>f. f\<lparr>active_read := None\<rparr>) s)
        in post_read read EC_operation_aborted s)"

definition close_entry :: "tcp_ctx \<Rightarrow> tcp_ctx" where
  "close_entry s =
     (if fl_state (cf s) = CLOSED \<or> app_closed (cf s) then s
      else
        let s = upf (\<lambda>f. f\<lparr>app_closed := True\<rparr>) s;
            read = active_read (cf s);
            write = active_write (cf s);
            s = upf (\<lambda>f. f\<lparr>active_read := None, active_write := None\<rparr>) s;
            s = drop_rx (close_write_ch s);
            s = (if snd_una (cf s) \<noteq> snd_nxt (cf s) then abort_flow s else send_fin s)
        in post_write write EC_operation_aborted (post_read read EC_operation_aborted s))"

definition reset_entry :: "tcp_ctx \<Rightarrow> tcp_ctx" where
  "reset_entry s = (if fl_state (cf s) = CLOSED \<or> app_closed (cf s) then s else abort_flow s)"

definition on_flow :: "(tcp_ctx \<Rightarrow> tcp_ctx) \<Rightarrow> nat option \<Rightarrow> tcp_engine \<Rightarrow> tcp_engine" where
  "on_flow g flow eng = (case flow of None \<Rightarrow> eng | Some i \<Rightarrow> with_flow i g eng)"

definition tcp_flow_shutdown_send :: "nat option \<Rightarrow> tcp_engine \<Rightarrow> tcp_engine" where
  "tcp_flow_shutdown_send = on_flow shutdown_send_entry"

definition tcp_flow_shutdown_receive :: "nat option \<Rightarrow> tcp_engine \<Rightarrow> tcp_engine" where
  "tcp_flow_shutdown_receive = on_flow shutdown_receive_entry"

definition tcp_flow_close :: "nat option \<Rightarrow> tcp_engine \<Rightarrow> tcp_engine" where
  "tcp_flow_close = on_flow close_entry"

definition tcp_flow_reset :: "nat option \<Rightarrow> tcp_engine \<Rightarrow> tcp_engine" where
  "tcp_flow_reset = on_flow reset_entry"

definition tcp_flow_accept :: "nat option \<Rightarrow> tcp_engine \<Rightarrow> tcp_engine" where
  "tcp_flow_accept = on_flow accept_flow"

definition tcp_flow_reject :: "nat option \<Rightarrow> tcp_engine \<Rightarrow> tcp_engine" where
  "tcp_flow_reject = on_flow reject_flow"

definition flow_is_open :: "tcp_flow \<Rightarrow> bool" where
  "flow_is_open f \<longleftrightarrow> fl_state f \<noteq> CLOSED \<and> \<not> app_closed f \<and> \<not> fl_rst f"

definition tcp_flow_is_open :: "nat option \<Rightarrow> tcp_engine \<Rightarrow> bool" where
  "tcp_flow_is_open flow eng = (case flow of None \<Rightarrow> False | Some i \<Rightarrow> flow_is_open (te_store eng i))"

definition flow_endpoint :: "five_tuple \<Rightarrow> byte list \<Rightarrow> u16 \<Rightarrow> ip_address \<times> u16" where
  "flow_endpoint key addr port = (to_address (if ft_family key = 6 then 6 else 4) addr, ntohs port)"

definition remote_endpoint :: "tcp_flow \<Rightarrow> ip_address \<times> u16" where
  "remote_endpoint f = flow_endpoint (fl_key f) (ft_src_ip (fl_key f)) (ft_src_port (fl_key f))"

definition original_destination :: "tcp_flow \<Rightarrow> ip_address \<times> u16" where
  "original_destination f = flow_endpoint (fl_key f) (ft_dst_ip (fl_key f)) (ft_dst_port (fl_key f))"

end
