(* ===== verification/Tcp_Write.thy ===== *)
theory Tcp_Write
  imports Tcp_Conn
begin

text \<open>
  The send side of the TCP engine: the coroutine \<^verbatim>\<open>tcp_engine::write_loop\<close> with segmentation
  (\<^verbatim>\<open>build_next_segment\<close>), zero-window probes (\<^verbatim>\<open>send_window_probe\<close>) and retransmission
  (\<^verbatim>\<open>retransmit_unacked\<close>). The coroutine is a step function between its suspension points: \<open>wl_head\<close>
  runs from the loop head to the next \<^verbatim>\<open>co_await\<close>, \<open>wl_resume_step\<close> from a \<^verbatim>\<open>co_await\<close> on; what wakes
  it (a signal on the write channel, a timer, the completion of a device write) is recorded first and
  taken up when the strand runs the coroutine, so other handlers may run in between, as they do.
\<close>

section \<open>Segmentation\<close>

text \<open>The incremental search for the buffer of the current send position.\<close>

function op_seek :: "write_op \<Rightarrow> write_op" where
  "op_seek op =
     (if wo_buf_index op < length (wo_buffers op) \<and> wo_buf_off op \<ge> length (wo_buffers op ! wo_buf_index op)
      then op_seek (op\<lparr>wo_buf_off := wo_buf_off op - length (wo_buffers op ! wo_buf_index op),
                       wo_buf_index := wo_buf_index op + 1\<rparr>)
      else op)"
  by pat_completeness auto
termination op_seek
  by (relation "measure (\<lambda>op. length (wo_buffers op) - wo_buf_index op)") auto

declare op_seek.simps [simp del]

subsection \<open>A write and its bytes\<close>

definition write_data :: "write_op \<Rightarrow> byte list" where
  "write_data op = concat (wo_buffers op)"

text \<open>The position of the incremental search agrees with the offset.\<close>

definition op_ok :: "write_op \<Rightarrow> bool" where
  "op_ok op \<longleftrightarrow> wo_total op = length (write_data op) \<and> wo_buf_index op \<le> length (wo_buffers op) \<and>
     wo_offset op = length (concat (take (wo_buf_index op) (wo_buffers op))) + wo_buf_off op \<and> wo_offset op \<le> wo_total op"

text \<open>The buffers from the current one on are the bytes not yet sent.\<close>

lemma op_ok_rest:
  assumes "op_ok op" shows "drop (wo_buf_off op) (concat (drop (wo_buf_index op) (wo_buffers op))) = drop (wo_offset op) (write_data op)"
proof -
  have "write_data op = concat (take (wo_buf_index op) (wo_buffers op)) @ concat (drop (wo_buf_index op) (wo_buffers op))"
    unfolding write_data_def concat_append [symmetric] by simp
  thus ?thesis using assms by (simp add: op_ok_def)
qed

lemma op_seek_cases:
  "wo_buf_index op < length (wo_buffers op) \<and> wo_buf_off op \<ge> length (wo_buffers op ! wo_buf_index op) \<Longrightarrow>
    op_seek op = op_seek (op\<lparr>wo_buf_off := wo_buf_off op - length (wo_buffers op ! wo_buf_index op), wo_buf_index := wo_buf_index op + 1\<rparr>)"
  "\<not> (wo_buf_index op < length (wo_buffers op) \<and> wo_buf_off op \<ge> length (wo_buffers op ! wo_buf_index op)) \<Longrightarrow> op_seek op = op"
  by (rule trans [OF op_seek.simps if_P], assumption) (rule trans [OF op_seek.simps if_not_P], assumption)

lemma op_seek_keeps:
  "wo_buffers (op_seek op) = wo_buffers op" "wo_total (op_seek op) = wo_total op" "wo_offset (op_seek op) = wo_offset op"
  "wo_start_seq (op_seek op) = wo_start_seq op" "wo_handler (op_seek op) = wo_handler op"
  "wo_implicit_accept (op_seek op) = wo_implicit_accept op"
  by (induction op rule: op_seek.induct) (subst op_seek.simps, simp)+

lemma op_seek_ok: "op_ok op \<Longrightarrow> op_ok (op_seek op)"
proof (induction op rule: op_seek.induct)
  case (1 op)
  show ?case
  proof (cases "wo_buf_index op < length (wo_buffers op) \<and> wo_buf_off op \<ge> length (wo_buffers op ! wo_buf_index op)")
    case True
    have "concat (take (Suc (wo_buf_index op)) (wo_buffers op)) = concat (take (wo_buf_index op) (wo_buffers op)) @ wo_buffers op ! wo_buf_index op"
      using True by (simp add: take_Suc_conv_app_nth)
    hence "op_ok (op\<lparr>wo_buf_off := wo_buf_off op - length (wo_buffers op ! wo_buf_index op), wo_buf_index := wo_buf_index op + 1\<rparr>)"
      using "1.prems" True by (simp add: op_ok_def write_data_def)
    thus ?thesis using "1.IH" [OF True] op_seek_cases(1) [OF True] by simp
  qed (use "1.prems" op_seek_cases(2) in simp)
qed

lemma op_seek_at:
  "wo_buf_index (op_seek op) < length (wo_buffers op) \<Longrightarrow>
    wo_buf_off (op_seek op) < length (wo_buffers op ! wo_buf_index (op_seek op))"
proof (induction op rule: op_seek.induct)
  case (1 op)
  show ?case
  proof (cases "wo_buf_index op < length (wo_buffers op) \<and> wo_buf_off op \<ge> length (wo_buffers op ! wo_buf_index op)")
    case True
    show ?thesis using "1.IH" [OF True] "1.prems" unfolding op_seek_cases(1) [OF True] by simp
  next
    case False
    hence "op_seek op = op" by (rule op_seek_cases(2))
    thus ?thesis using "1.prems" False by auto
  qed
qed

text \<open>The bytes the search finds are those at the offset.\<close>

lemma op_seek_bytes:
  assumes "op_ok op" "wo_buf_index (op_seek op) < length (wo_buffers op)"
    "n \<le> length (wo_buffers op ! wo_buf_index (op_seek op)) - wo_buf_off (op_seek op)"
  shows "subl (wo_buf_off (op_seek op)) n (wo_buffers op ! wo_buf_index (op_seek op)) = subl (wo_offset op) n (write_data op)"
proof -
  let ?i = "wo_buf_index (op_seek op)" and ?o = "wo_buf_off (op_seek op)"
  have "drop ?o (concat (drop ?i (wo_buffers op))) = drop (wo_offset op) (write_data op)"
    using op_ok_rest [OF op_seek_ok [OF assms(1)]] by (simp add: op_seek_keeps write_data_def)
  moreover have "drop ?i (wo_buffers op) = (wo_buffers op ! ?i) # drop (Suc ?i) (wo_buffers op)"
    using assms(2) by (simp add: Cons_nth_drop_Suc)
  ultimately have "drop ?o (wo_buffers op ! ?i) @ concat (drop (Suc ?i) (wo_buffers op)) = drop (wo_offset op) (write_data op)"
    using op_seek_at [OF assms(2)] by simp
  from this [symmetric] show ?thesis using assms(3) unfolding subl_def by simp
qed

definition write_ok :: "write_op option \<Rightarrow> bool" where
  "write_ok w \<longleftrightarrow> (\<forall>op\<in>set_option w. op_ok op)"

lemma write_ok_simps [simp]: "write_ok None" "write_ok (Some op) = op_ok op"
  by (simp_all add: write_ok_def)

subsection \<open>The next segment\<close>

definition next_chunk :: "u32 \<Rightarrow> write_op \<Rightarrow> tcp_ctx \<Rightarrow> byte list" where
  "next_chunk in_flight op s =
     (let remaining = size_sub (wo_total op) (wo_offset op);
          buf = wo_buffers op ! wo_buf_index op;
          avail = length buf - wo_buf_off op;
          chunk = min remaining (min avail (min (mss (ce s) (fl_family (cf s))) (unat (peer_wnd (cf s) - in_flight))))
      in subl (wo_buf_off op) chunk buf)"

text \<open>The result is the packet to write, or nothing when no segment can be built.\<close>

definition build_next_segment :: "u32 \<Rightarrow> write_op \<Rightarrow> tcp_ctx \<Rightarrow> (cpp_exception + packet_buffer option) \<times> tcp_ctx" where
  "build_next_segment in_flight op s =
     (let op = op_seek op; s = upf (\<lambda>f. f\<lparr>active_write := Some op\<rparr>) s in
      if wo_buf_index op = length (wo_buffers op) then (Inr None, s)
      else
        let payload = next_chunk in_flight op s; chunk = length payload in
        if chunk = 0 then (Inr None, s)
        else
          let (r, s) = build_segment (snd_nxt (cf s)) (TCP_ACK OR TCP_PSH) payload False s in
          case r of
            Inl x \<Rightarrow> (Inl x, s)
          | Inr pkt \<Rightarrow> (Inr (Some pkt),
              upf (\<lambda>f. f\<lparr>snd_nxt := snd_nxt f + of_nat chunk,
                active_write := Some (op\<lparr>wo_offset := wo_offset op + chunk, wo_buf_off := wo_buf_off op + chunk\<rparr>)\<rparr>) s))"

definition send_window_probe :: "write_op \<Rightarrow> tcp_ctx \<Rightarrow> tcp_ctx" where
  "send_window_probe op s =
     (let op = op_seek op; s = upf (\<lambda>f. f\<lparr>active_write := Some op\<rparr>) s in
      if wo_buf_index op \<ge> length (wo_buffers op) \<or> wo_offset op \<ge> wo_total op then s
      else
        let probe = wo_buffers op ! wo_buf_index op ! wo_buf_off op;
            s = send_segment (snd_nxt (cf s)) TCP_ACK [probe] False s
        in upf (\<lambda>f. f\<lparr>probe_in_flight := True\<rparr>) s)"

section \<open>Retransmission\<close>

fun retx_seek :: "byte list list \<Rightarrow> nat \<Rightarrow> nat \<Rightarrow> byte list list \<times> nat" where
  "retx_seek [] base off = ([], base)"
| "retx_seek (b # bs) base off =
     (if base + length b \<le> off then retx_seek bs (base + length b) off else (b # bs, base))"

definition retx_want :: "nat \<Rightarrow> nat \<Rightarrow> byte list \<Rightarrow> nat \<Rightarrow> nat \<Rightarrow> nat \<Rightarrow> nat" where
  "retx_want seg_mss stop b bo off left = min (stop - off) (min (length b - bo) (min left seg_mss))"

text \<open>
  The loop over the buffers from the one that holds \<open>off\<close>; \<open>base\<close> is the stream offset of its first
  byte. Every round but the last sends at least one byte.
\<close>

function retx_loop :: "u32 \<Rightarrow> nat \<Rightarrow> nat \<Rightarrow> byte list list \<Rightarrow> nat \<Rightarrow> nat \<Rightarrow> nat \<Rightarrow> tcp_ctx \<Rightarrow> tcp_ctx" where
  "retx_loop start seg_mss stop [] base off left s = s"
| "retx_loop start seg_mss stop (b # bs) base off left s =
     (if off < stop \<and> left > 0 then
        let bo = off - base; want = retx_want seg_mss stop b bo off left
        in if want = 0 then s
           else
             let s = send_segment (start + of_nat off) (TCP_ACK OR TCP_PSH) (subl bo want b) False s in
             if off + want \<ge> base + length b
             then retx_loop start seg_mss stop bs (base + length b) (off + want) (left - want) s
             else retx_loop start seg_mss stop (b # bs) base (off + want) (left - want) s
      else s)"
  by pat_completeness auto
termination retx_loop
  by (relation "measure (\<lambda>(start, m, stop, bs, base, off, left, s). stop - off)") auto

declare retx_loop.simps(2) [simp del]

definition retransmit_unacked :: "nat \<Rightarrow> tcp_ctx \<Rightarrow> tcp_ctx" where
  "retransmit_unacked max_bytes s =
     (case active_write (cf s) of
        None \<Rightarrow> s
      | Some op \<Rightarrow>
          if snd_una (cf s) = snd_nxt (cf s) then s
          else
            let begin = unat (snd_una (cf s) - wo_start_seq op);
                stop = min (unat (snd_nxt (cf s) - wo_start_seq op)) (wo_total op);
                (bs, base) = retx_seek (wo_buffers op) 0 begin
            in retx_loop (wo_start_seq op) (mss (ce s) (fl_family (cf s))) stop bs base begin max_bytes s)"

section \<open>The coroutine\<close>

definition timer_max :: int where "timer_max = 60000"

definition write_end :: "write_op \<Rightarrow> u32" where
  "write_end op = wo_start_seq op + of_nat (wo_total op)"

definition set_coro :: "write_coro option \<Rightarrow> tcp_ctx \<Rightarrow> tcp_ctx" where
  "set_coro c s = upf (\<lambda>f. f\<lparr>fl_coro := c\<rparr>) s"

definition suspend :: "wl_point \<Rightarrow> int \<Rightarrow> write_coro \<Rightarrow> tcp_ctx \<Rightarrow> tcp_ctx" where
  "suspend p deadline c s = set_coro (Some (c\<lparr>wl_point := p, wl_resume := None, wl_deadline := deadline\<rparr>)) s"

text \<open>After the loop: an unfinished write is completed with an error.\<close>

definition wl_exit :: "tcp_ctx \<Rightarrow> tcp_ctx" where
  "wl_exit s =
     (let s = set_coro None s in
      case active_write (cf s) of
        None \<Rightarrow> s
      | Some op \<Rightarrow>
          let err = (if fl_rst (cf s) then EC_connection_reset else EC_bad_descriptor);
              s = upf (\<lambda>f. f\<lparr>active_write := None\<rparr>) s
          in post_ctx (Done_write (wo_handler op) err 0) s)"

definition wl_send :: "u32 \<Rightarrow> write_op \<Rightarrow> write_coro \<Rightarrow> tcp_ctx \<Rightarrow> tcp_ctx" where
  "wl_send in_flight op c s =
     (let (r, s) = build_next_segment in_flight op s in
      case r of
        Inr (Some pkt) \<Rightarrow> suspend WL_device 0 c (on_env (async_write pkt (Cb_write_loop (fl_id (cf s)))) s)
      | _ \<Rightarrow> wl_exit s)"

definition wl_wait_ack :: "write_coro \<Rightarrow> tcp_ctx \<Rightarrow> tcp_ctx" where
  "wl_wait_ack c s = suspend WL_rto (cnow s + wl_rto c) c s"

definition wl_iter :: "(write_coro \<Rightarrow> tcp_ctx \<Rightarrow> tcp_ctx) \<Rightarrow> write_coro \<Rightarrow> tcp_ctx \<Rightarrow> tcp_ctx" where
  "wl_iter again c s =
     (case active_write (cf s) of
        None \<Rightarrow> wl_exit s
      | Some op \<Rightarrow>
          if fl_state (cf s) = CLOSED \<or> fl_rst (cf s) then wl_exit s
          else if wo_offset op = wo_total op \<and> snd_una (cf s) = write_end op then
            post_ctx (Done_write (wo_handler op) EC_ok (wo_total op))
              (upf (\<lambda>f. f\<lparr>active_write := None, fl_coro := None\<rparr>) s)
          else if fl_state (cf s) \<noteq> ESTABLISHED \<and> \<not> wo_implicit_accept op then
            suspend WL_handshake (cnow s + wl_rto c) c s
          else if peer_wnd (cf s) = 0 then suspend WL_persist (cnow s + wl_persist_interval c) c s
          else
            let in_flight = snd_nxt (cf s) - snd_una (cf s) in
            if wo_offset op < wo_total op \<and> in_flight < peer_wnd (cf s) then wl_send in_flight op c s
            else if snd_una (cf s) \<noteq> wl_last_una c then again (c\<lparr>wl_last_una := snd_una (cf s)\<rparr>) s
            else wl_wait_ack c s)"

text \<open>
  From the loop head to the next suspension. The only way back to the loop head without a suspension
  updates \<open>last_una\<close>, after which it cannot be taken again: the second round is the last.
\<close>

definition wl_head :: "write_coro \<Rightarrow> tcp_ctx \<Rightarrow> tcp_ctx" where
  "wl_head = wl_iter (wl_iter wl_wait_ack)"

definition wl_begin :: "tcp_ctx \<Rightarrow> tcp_ctx" where
  "wl_begin s =
     (case active_write (cf s) of
        None \<Rightarrow> set_coro None s
      | Some op \<Rightarrow>
          let s = (if write_ch (cf s) = None then upf (\<lambda>f. f\<lparr>write_ch := Some True\<rparr>) s else s);
              s = upf (\<lambda>f. f\<lparr>active_write := Some (op\<lparr>wo_start_seq := snd_nxt f\<rparr>)\<rparr>) s
          in wl_head \<lparr>wl_point = WL_start, wl_resume = None, wl_deadline = 0,
               wl_persist_interval = tcp_persist_timeout (ccfg s), wl_persist_probes = 0,
               wl_rto = tcp_rto_timeout (ccfg s), wl_retransmits = 0, wl_last_una = snd_una (cf s)\<rparr> s)"

definition persist_probe :: "write_op \<Rightarrow> write_coro \<Rightarrow> tcp_ctx \<Rightarrow> tcp_ctx" where
  "persist_probe op c s =
     (let s = (if wo_offset op < wo_total op then send_window_probe op s
               else if snd_una (cf s) \<noteq> write_end op then retransmit_unacked (mss (ce s) (fl_family (cf s))) s
               else s)
      in wl_head (if wl_persist_interval c < timer_max
                  then c\<lparr>wl_persist_interval := min (wl_persist_interval c * 2) timer_max\<rparr> else c) s)"

definition wl_persist :: "wl_resume \<Rightarrow> write_coro \<Rightarrow> tcp_ctx \<Rightarrow> tcp_ctx" where
  "wl_persist r c s =
     (if r = R_timer then
        let c = c\<lparr>wl_persist_probes := wl_persist_probes c + 1\<rparr> in
        if wl_persist_probes c > tcp_persist_max_probes (ccfg s) then wl_exit (abort_flow s)
        else (case active_write (cf s) of
                None \<Rightarrow> s\<lparr>cx := Some Undefined_deref\<rparr>
              | Some op \<Rightarrow> persist_probe op c s)
      else wl_head (c\<lparr>wl_persist_probes := 0, wl_persist_interval := tcp_persist_timeout (ccfg s)\<rparr>) s)"

definition wl_reset :: "tcp_ctx \<Rightarrow> write_coro \<Rightarrow> write_coro" where
  "wl_reset s c = c\<lparr>wl_rto := tcp_rto_timeout (ccfg s), wl_retransmits := 0\<rparr>"

definition rto_retransmit :: "tcp_ctx \<Rightarrow> tcp_ctx" where
  "rto_retransmit s =
     (case active_write (cf s) of
        None \<Rightarrow> s
      | Some op \<Rightarrow> if snd_una (cf s) \<noteq> write_end op then retransmit_unacked (unat (peer_wnd (cf s))) s else s)"

definition wl_ack_or_rto :: "wl_resume \<Rightarrow> write_coro \<Rightarrow> tcp_ctx \<Rightarrow> tcp_ctx" where
  "wl_ack_or_rto r c s =
     (let next = (\<lambda>c s. wl_head (c\<lparr>wl_last_una := snd_una (cf s)\<rparr>) s) in
      if r = R_timer then
        if snd_una (cf s) = wl_last_una c then
          let c = c\<lparr>wl_retransmits := wl_retransmits c + 1\<rparr> in
          if wl_retransmits c > tcp_rto_max_retransmits (ccfg s) then wl_exit (abort_flow s)
          else next (c\<lparr>wl_rto := min (wl_rto c * 2) timer_max\<rparr>) (rto_retransmit s)
        else next (wl_reset s c) s
      else if snd_una (cf s) \<noteq> wl_last_una c then next (wl_reset s c) s
      else next c s)"

definition wl_device_done :: "error_code \<Rightarrow> write_coro \<Rightarrow> tcp_ctx \<Rightarrow> tcp_ctx" where
  "wl_device_done ec c s = (if ec \<noteq> EC_ok \<or> active_write (cf s) = None then wl_exit s else wl_head c s)"

text \<open>The strand runs a coroutine that has been woken.\<close>

definition write_loop_step :: "tcp_ctx \<Rightarrow> tcp_ctx" where
  "write_loop_step s =
     (case fl_coro (cf s) of
        None \<Rightarrow> s
      | Some c \<Rightarrow>
          (case wl_resume c of
             None \<Rightarrow> s
           | Some r \<Rightarrow>
               (case wl_point c of
                  WL_start \<Rightarrow> wl_begin s
                | WL_handshake \<Rightarrow> wl_head c s
                | WL_persist \<Rightarrow> wl_persist r c s
                | WL_device \<Rightarrow> (case r of R_device ec \<Rightarrow> wl_device_done ec c s | _ \<Rightarrow> s)
                | WL_rto \<Rightarrow> wl_ack_or_rto r c s)))"

text \<open>A timer of the coroutine fires; a device write of the coroutine completes.\<close>

definition coro_timer :: "tcp_ctx \<Rightarrow> tcp_ctx" where
  "coro_timer s =
     (case fl_coro (cf s) of
        Some c \<Rightarrow> if coro_on_channel c \<and> cnow s \<ge> wl_deadline c
                  then set_coro (Some (c\<lparr>wl_resume := Some R_timer\<rparr>)) s else s
      | None \<Rightarrow> s)"

definition coro_device :: "error_code \<Rightarrow> tcp_ctx \<Rightarrow> tcp_ctx" where
  "coro_device ec s =
     (case fl_coro (cf s) of
        Some c \<Rightarrow> if wl_point c = WL_device \<and> wl_resume c = None
                  then set_coro (Some (c\<lparr>wl_resume := Some (R_device ec)\<rparr>)) s else s
      | None \<Rightarrow> s)"

end
