(* ===== verification/Tcp_Engine.thy ===== *)
theory Tcp_Engine
  imports Tcp_Write "HOL-Library.Multiset" "HOL-Library.Sublist"
begin

text \<open>
  The TCP engine as a whole: the events that reach it on its strand (packets, timers, device writes,
  calls of the application), its invariant, and the ledger of completion handlers. \<open>flow_step\<close> is the
  contract every operation on one flow keeps with the engine: the connection counter, the flow table
  and the accept queue follow the state of the flow, and no handler is lost or called twice.
\<close>

section \<open>The ledger of handlers\<close>

datatype tok = Tk_read nat | Tk_write nat | Tk_accept nat

fun tok_of :: "completion \<Rightarrow> tok multiset" where
  "tok_of (Done_read h ec n d) = {#Tk_read h#}"
| "tok_of (Done_write h ec n) = {#Tk_write h#}"
| "tok_of (Done_tcp_accept h ec f) = {#Tk_accept h#}"
| "tok_of _ = {#}"

definition posted_toks :: "env \<Rightarrow> tok multiset" where
  "posted_toks e = sum_list (map tok_of (e_posted e))"

text \<open>The connections that completed accepts have handed to the application, in order.\<close>

fun flow_of :: "completion \<Rightarrow> nat list" where
  "flow_of (Done_tcp_accept h ec (Some i)) = [i]"
| "flow_of _ = []"

abbreviation handed :: "env \<Rightarrow> nat list" where
  "handed e \<equiv> concat (map flow_of (e_posted e))"

lemma flow_of_tok: "tok_of c = {#} \<Longrightarrow> flow_of c = []"
  by (cases c) auto

text \<open>Completions are only ever added.\<close>

abbreviation posts :: "env \<Rightarrow> env \<Rightarrow> bool" where
  "posts e e' \<equiv> prefix (e_posted e) (e_posted e')"

lemma prefix_more [simp]: "prefix xs (xs @ ys)"
  by (simp add: prefix_def)

definition flow_toks :: "tcp_flow \<Rightarrow> tok multiset" where
  "flow_toks f = (case active_read f of None \<Rightarrow> {#} | Some op \<Rightarrow> {#Tk_read (ro_handler op)#}) +
                 (case active_write f of None \<Rightarrow> {#} | Some op \<Rightarrow> {#Tk_write (wo_handler op)#})"

definition accept_toks :: "tcp_engine \<Rightarrow> tok multiset" where
  "accept_toks eng = mset (map Tk_accept (te_pending_accepts eng))"

definition ctx_toks :: "tcp_ctx \<Rightarrow> tok multiset" where
  "ctx_toks s = posted_toks (cenv s) + flow_toks (cf s) + accept_toks (ce s)"

section \<open>The contract of flow operations\<close>

definition counted :: "tcp_flow \<Rightarrow> bool" where
  "counted f \<longleftrightarrow> fl_state f \<noteq> CLOSED \<and> fl_state f \<noteq> SYN_RCVD \<and> fl_state f \<noteq> SYN_ACK_SENT"

definition others_counted :: "tcp_ctx \<Rightarrow> u64" where
  "others_counted s = tcp_connections (e_stats (cenv s)) - of_bool (counted (cf s))"

text \<open>
  The pending operations of a flow: a closed flow has none, and the position of a write agrees with
  what it has sent.
\<close>

definition ops_ok :: "tcp_flow \<Rightarrow> bool" where
  "ops_ok f \<longleftrightarrow> (fl_state f = CLOSED \<longrightarrow> active_read f = None \<and> active_write f = None \<and> \<not> pending_accept f) \<and>
     write_ok (active_write f)"

text \<open>A flow leaves \<open>SYN_RCVD\<close> other than by being closed only after the application has accepted it.\<close>

definition claimed :: "tcp_flow \<Rightarrow> bool" where
  "claimed f \<longleftrightarrow> accepted f \<or> fl_state f = SYN_RCVD \<or> fl_state f = CLOSED"

text \<open>The order in which a connection passes through its states.\<close>

fun phase :: "tcp_state \<Rightarrow> nat" where
  "phase SYN_RCVD = 0"
| "phase SYN_ACK_SENT = 1"
| "phase ESTABLISHED = 2"
| "phase FIN_WAIT_1 = 3"
| "phase CLOSE_WAIT = 3"
| "phase FIN_WAIT_2 = 4"
| "phase LAST_ACK = 4"
| "phase TIME_WAIT = 5"
| "phase CLOSED = 6"

lemma phase_closed [simp]: "6 \<le> phase st \<longleftrightarrow> st = CLOSED" "phase st \<le> 6"
  by (cases st; simp)+

definition closes :: "tcp_ctx \<Rightarrow> tcp_ctx \<Rightarrow> bool" where
  "closes s s' \<longleftrightarrow> fl_state (cf s') = CLOSED \<and> fl_state (cf s) \<noteq> CLOSED"

text \<open>\<open>flow_call t s s'\<close>: an operation that is handed the handlers \<open>t\<close>; \<open>flow_step\<close> is handed none.\<close>

definition flow_call :: "tok multiset \<Rightarrow> tcp_ctx \<Rightarrow> tcp_ctx \<Rightarrow> bool" where
  "flow_call t s s' \<longleftrightarrow>
     fl_id (cf s') = fl_id (cf s) \<and> fl_key (cf s') = fl_key (cf s) \<and> accepted (cf s') = accepted (cf s) \<and>
     te_store (ce s') = te_store (ce s) \<and> te_next_id (ce s') = te_next_id (ce s) \<and> te_cfg (ce s') = te_cfg (ce s) \<and>
     te_pending_accepts (ce s') = te_pending_accepts (ce s) \<and>
     ctx_toks s' = ctx_toks s + t \<and> handed (cenv s') = handed (cenv s) \<and>
     posts (cenv s) (cenv s') \<and>
     others_counted s' = others_counted s \<and>
     phase (fl_state (cf s)) \<le> phase (fl_state (cf s')) \<and>
     te_flows (ce s') = (if closes s s' then filter (\<lambda>p. fst p \<noteq> fl_key (cf s)) (te_flows (ce s)) else te_flows (ce s)) \<and>
     te_pending_flows (ce s') = (if closes s s' \<and> pending_accept (cf s)
        then remove1 (fl_id (cf s)) (te_pending_flows (ce s)) else te_pending_flows (ce s)) \<and>
     (\<not> closes s s' \<longrightarrow> pending_accept (cf s') = pending_accept (cf s)) \<and>
     (ops_ok (cf s) \<longrightarrow> ops_ok (cf s')) \<and> (claimed (cf s) \<longrightarrow> claimed (cf s'))"

abbreviation flow_step :: "tcp_ctx \<Rightarrow> tcp_ctx \<Rightarrow> bool" where "flow_step \<equiv> flow_call {#}"

lemma flow_step_refl [simp]: "flow_step s s"
  by (simp add: flow_call_def closes_def)

lemma flow_call_trans:
  assumes "flow_call t a b" "flow_call u b c" shows "flow_call (t + u) a c"
proof -
  have "fl_state (cf a) = CLOSED \<longrightarrow> fl_state (cf b) = CLOSED" "fl_state (cf b) = CLOSED \<longrightarrow> fl_state (cf c) = CLOSED"
    using assms unfolding flow_call_def by (metis phase_closed(1) order_trans)+
  hence "closes a c \<longleftrightarrow> closes a b \<or> closes b c" unfolding closes_def by blast
  moreover have "\<not> (closes a b \<and> closes b c)" by (simp add: closes_def)
  moreover have "posts (cenv a) (cenv c)" using assms prefix_order.trans unfolding flow_call_def by blast
  ultimately show ?thesis using assms unfolding flow_call_def
    by (cases "closes a b"; cases "closes b c") (simp_all add: ac_simps)
qed

lemmas flow_step_trans = flow_call_trans [where t = "{#}" and u = "{#}", simplified]
lemmas flow_call_step = flow_call_trans [where u = "{#}", simplified]
lemmas flow_step_call = flow_call_trans [where t = "{#}", simplified]

lemma flow_stepI:
  assumes "fl_id (cf s') = fl_id (cf s)" "fl_key (cf s') = fl_key (cf s)" "accepted (cf s') = accepted (cf s)"
    "te_store (ce s') = te_store (ce s)" "te_next_id (ce s') = te_next_id (ce s)" "te_cfg (ce s') = te_cfg (ce s)"
    "te_pending_accepts (ce s') = te_pending_accepts (ce s)" "te_flows (ce s') = te_flows (ce s)"
    "te_pending_flows (ce s') = te_pending_flows (ce s)" "pending_accept (cf s') = pending_accept (cf s)"
    "tcp_connections (e_stats (cenv s')) = tcp_connections (e_stats (cenv s))" "ctx_toks s' = ctx_toks s"
    "handed (cenv s') = handed (cenv s)" "posts (cenv s) (cenv s')" "fl_state (cf s') = fl_state (cf s)"
    "fl_state (cf s) = CLOSED \<Longrightarrow> active_read (cf s) = None \<Longrightarrow> active_read (cf s') = None"
    "fl_state (cf s) = CLOSED \<Longrightarrow> active_write (cf s) = None \<Longrightarrow> active_write (cf s') = None"
    "write_ok (active_write (cf s)) \<Longrightarrow> write_ok (active_write (cf s'))"
  shows "flow_step s s'"
  using assms by (simp add: flow_call_def closes_def others_counted_def counted_def ops_ok_def claimed_def)

lemma sends_step: "sends s s' \<Longrightarrow> flow_step s s'"
  by (rule flow_stepI) (simp_all add: sends_flow sends_engine ctx_toks_def posted_toks_def flow_toks_def accept_toks_def)

lemma caches_step: assumes "caches s s'" shows "flow_step s s'"
proof -
  have f: "fl_id (cf s') = fl_id (cf s)" "fl_key (cf s') = fl_key (cf s)" "accepted (cf s') = accepted (cf s)"
    "pending_accept (cf s') = pending_accept (cf s)" "fl_state (cf s') = fl_state (cf s)"
    "active_read (cf s') = active_read (cf s)" "active_write (cf s') = active_write (cf s)"
    by (use assms in \<open>cases "cf s", cases "cf s'", simp add: caches_def\<close>)+
  have e: "te_store (ce s') = te_store (ce s)" "te_next_id (ce s') = te_next_id (ce s)" "te_cfg (ce s') = te_cfg (ce s)"
    "te_pending_accepts (ce s') = te_pending_accepts (ce s)" "te_flows (ce s') = te_flows (ce s)"
    "te_pending_flows (ce s') = te_pending_flows (ce s)" "e_posted (cenv s') = e_posted (cenv s)"
    "tcp_connections (e_stats (cenv s')) = tcp_connections (e_stats (cenv s))"
    by (use assms in \<open>cases "ce s", cases "ce s'", simp add: caches_def\<close>)+
  show ?thesis by (rule flow_stepI) (simp_all add: f e ctx_toks_def posted_toks_def flow_toks_def accept_toks_def)
qed

lemma readsD':
  assumes "reads s s'"
  shows "te_store (ce s') = te_store (ce s)" "te_next_id (ce s') = te_next_id (ce s)"
    "te_pending_accepts (ce s') = te_pending_accepts (ce s)" "te_flows (ce s') = te_flows (ce s)"
    "te_pending_flows (ce s') = te_pending_flows (ce s)"
  by (use assms in \<open>cases "ce s", cases "ce s'", simp add: reads_def\<close>)+

lemma reads_step:
  assumes r: "reads s s'" and t: "ctx_toks s' = ctx_toks s"
    and h: "handed (cenv s') = handed (cenv s)" "posts (cenv s) (cenv s')" and q: "active_read (cf s) = None \<Longrightarrow> active_read (cf s') = None"
  shows "flow_step s s'"
  by (rule flow_stepI) (use r t h q readsD [OF r] readsD' [OF r] in \<open>simp_all add: reads_def\<close>)

section \<open>The receive path\<close>

lemma flush_read_data_step: "flow_step s (flush_read_data s)"
proof (cases "active_read (cf s) = None \<or> rx_bytes (cf s) = 0")
  case True
  thus ?thesis by (auto simp: flush_read_data_def split: option.splits)
next
  case False
  then obtain op where op: "active_read (cf s) = Some op" "rx_bytes (cf s) > 0" by auto
  obtain chunks c where sc: "scatter (ro_buffers op) (min (ro_total op) (rx_bytes (cf s))) (drop (rx_head (cf s)) (rx_data (cf s))) 0 = (chunks, c)"
    by fastforce
  define s1 where "s1 = post_ctx (Done_read (ro_handler op) EC_ok c chunks) (account_release c
    (upf (\<lambda>f. f\<lparr>active_read := None, rx_head := rx_head f + c, rx_bytes := size_sub (rx_bytes f) c\<rparr>) s))"
  have s': "flush_read_data s = flush_pending_ack (notify_window_updated s1)"
    using op sc by (simp add: flush_read_data_def s1_def)
  have "flow_step s s1" using op
    by (intro flow_stepI) (simp_all add: s1_def ctx_toks_def posted_toks_def flow_toks_def accept_toks_def acct_release_def)
  thus ?thesis unfolding s'
    using flow_step_trans sends_step [OF flush_pending_ack_sends] sends_step [OF notify_window_updated_sends] by blast
qed

lemma flush_reads_step: "flow_step s (flush_reads s)"
proof -
  have "flow_step t (compact_rx t)" for t
    by (rule flow_stepI) (simp_all add: compact_rx_def ctx_toks_def flow_toks_def)
  moreover have "flow_step t (flush_eof t)" for t
    by (rule flow_stepI)
       (auto simp: flush_eof_def ctx_toks_def flow_toks_def posted_toks_def accept_toks_def split: option.splits)
  ultimately show ?thesis unfolding flush_reads_def using flush_read_data_step flow_step_trans by blast
qed

lemma note_data_ack_step: "flow_step s (note_data_ack s)"
proof -
  have "flow_step s (upf (\<lambda>f. f\<lparr>ack_pending := a, ack_timer := b\<rparr>) s)" for a b
    by (rule flow_stepI) (simp_all add: ctx_toks_def flow_toks_def)
  thus ?thesis by (simp add: note_data_ack_def sends_step send_ack_sends)
qed

lemma account_steps [simp]:
  "flow_step s (account_release n s)" "flow_step s (rx_dropped_inc s)" "flow_step s (rx_ooo_inc s)"
  "account_reserve n s = (ok, s') \<Longrightarrow> flow_step s s'"
     apply (rule flow_stepI; simp add: ctx_toks_def posted_toks_def accept_toks_def)
    apply (rule flow_stepI; simp add: ctx_toks_def posted_toks_def accept_toks_def rx_dropped_inc_def add_rx_dropped_def)
   apply (rule flow_stepI; simp add: ctx_toks_def posted_toks_def accept_toks_def rx_ooo_inc_def)
  apply (drule account_reserve_cases(2), rule flow_stepI; simp add: ctx_toks_def posted_toks_def accept_toks_def)
  done

text \<open>Updates of fields the contract does not mention.\<close>

lemma upf_step:
  assumes "\<And>f. fl_id (g f) = fl_id f \<and> fl_key (g f) = fl_key f \<and> accepted (g f) = accepted f \<and> pending_accept (g f) = pending_accept f \<and>
    fl_state (g f) = fl_state f \<and> active_read (g f) = active_read f \<and> map_option wo_handler (active_write (g f)) = map_option wo_handler (active_write f)"
    and "\<And>f. write_ok (active_write f) \<Longrightarrow> write_ok (active_write (g f))"
  shows "flow_step s (upf g s)"
proof (rule flow_stepI)
  have w: "(case active_write (g f) of None \<Rightarrow> {#} | Some op \<Rightarrow> {#Tk_write (wo_handler op)#}) =
    (case active_write f of None \<Rightarrow> {#} | Some op \<Rightarrow> {#Tk_write (wo_handler op)#})" for f
    using assms(1) [of f] by (cases "active_write f"; cases "active_write (g f)") auto
  show "ctx_toks (upf g s) = ctx_toks s" using assms(1) w by (simp add: ctx_toks_def flow_toks_def)
  show "active_write (cf s) = None \<Longrightarrow> active_write (cf (upf g s)) = None" using assms(1) [of "cf s"] by simp
qed (use assms in simp_all)

lemma deliver_data_step: "flow_step s (deliver_data data s)"
proof -
  have d: "flow_step t (direct_take op data t)" if "active_read (cf t) = Some op" for t op
  proof -
    have "ctx_toks (direct_take op data t) = ctx_toks t \<and> handed (cenv (direct_take op data t)) = handed (cenv t) \<and>
      posts (cenv t) (cenv (direct_take op data t)) \<and> active_read (cf (direct_take op data t)) = None" using that
      by (auto simp: direct_take_def Let_def ctx_toks_def posted_toks_def flow_toks_def accept_toks_def)
    thus ?thesis using reads_step [OF direct_take_reads] by blast
  qed
  have dd: "flow_step t (deliver_direct op data t)" if "active_read (cf t) = Some op" for t op
    unfolding deliver_direct_def Let_def
    using d [OF that] flow_step_trans [OF _ sends_step [OF send_ack_sends]] flow_step_trans [OF _ flush_reads_step] by auto
  have q: "flow_step t (deliver_queued data t)" for t
  proof -
    have "flow_step t (upf (\<lambda>f. f\<lparr>rx_data := rx_data f @ data, rx_bytes := rx_bytes f + length data,
                   rcv_nxt := rcv_nxt f + of_nat (length data)\<rparr>) t)" by (rule upf_step) simp_all
    thus ?thesis unfolding deliver_queued_def using flow_step_trans note_data_ack_step flush_reads_step by blast
  qed
  obtain ok s1 where r: "account_reserve (length data) s = (ok, s1)" by fastforce
  have s1: "flow_step s s1" using r by simp
  have sh: "flow_step s (send_ack (upf (\<lambda>f. f\<lparr>rcv_nxt := rcv_nxt f + of_nat (length data)\<rparr>) s))"
    by (rule flow_step_trans [OF upf_step sends_step [OF send_ack_sends]]) simp_all
  show ?thesis unfolding deliver_data_def Let_def r prod.case
    using sh flow_step_trans [OF s1 dd] flow_step_trans [OF s1 q] flow_step_trans [OF s1 account_steps(2)]
    by (auto split: list.splits option.splits)
qed

text \<open>Changes of state that neither open, count nor close the flow.\<close>

lemma upf_state_step:
  assumes "fl_id (g (cf s)) = fl_id (cf s)" "fl_key (g (cf s)) = fl_key (cf s)" "accepted (g (cf s)) = accepted (cf s)"
    "pending_accept (g (cf s)) = pending_accept (cf s)" "active_read (g (cf s)) = active_read (cf s)"
    "active_write (g (cf s)) = active_write (cf s)"
    "fl_state (cf s) \<noteq> CLOSED" "fl_state (g (cf s)) \<noteq> CLOSED" "phase (fl_state (cf s)) \<le> phase (fl_state (g (cf s)))" "counted (g (cf s)) = counted (cf s)"
    "claimed (cf s) \<longrightarrow> claimed (g (cf s))"
  shows "flow_step s (upf g s)"
  using assms by (simp add: flow_call_def closes_def others_counted_def ops_ok_def ctx_toks_def flow_toks_def)

lemma fin_state_step: "flow_step s (fin_state s)"
  unfolding fin_state_def
  by (cases "fl_state (cf s)") (auto intro!: upf_state_step simp: counted_def claimed_def)

lemma handle_fin_step: "flow_step s (handle_fin q s)"
proof -
  have "flow_step s (upf (\<lambda>f. f\<lparr>rcv_nxt := rcv_nxt f + 1, fin_received := True\<rparr>) s)" by (rule upf_step) simp_all
  hence "flow_step s (flush_reads (fin_state (send_ack (if \<not> fin_received (cf s)
       then upf (\<lambda>f. f\<lparr>rcv_nxt := rcv_nxt f + 1, fin_received := True\<rparr>) s else s))))"
    using flow_step_trans [OF flow_step_trans [OF flow_step_trans [OF _ sends_step [OF send_ack_sends]] fin_state_step] flush_reads_step]
    by simp
  thus ?thesis by (simp add: handle_fin_def sends_step send_ack_sends)
qed

lemma uncache_step: "flow_step s (uncache k len s)"
  unfolding uncache_def
  by (auto intro!: flow_step_trans [OF _ upf_step] flow_step_trans [OF _ account_steps(1)] upf_step)

lemma prune_fin_step: "flow_step s (prune_fin k g s)"
  by (simp add: prune_fin_def Let_def handle_fin_step)

lemma flush_prune_step: "flow_step s (snd (snd (flush_prune c p s)))"
proof (induction c p s rule: flush_prune.induct)
  case (2 k pruned s)
  show ?case
  proof (cases "map_of (ooo_cache (cf s)) k")
    case (Some g)
    thus ?thesis using "2.IH" [OF Some] prune_fin_step flow_step_trans uncache_step
      by (auto simp: Let_def) (meson flow_step_trans)+
  qed simp
qed simp

lemma ooo_take_step: "flow_step s (ooo_take k g s)"
proof -
  define s1 where "s1 = notify_window_updated (account_release (og_len g) (upf (\<lambda>f. f\<lparr>ooo_cache := om_erase k (ooo_cache f),
     ooo_bytes := size_sub (ooo_bytes f) (og_len g), ooo_count := size_sub (ooo_count f) 1\<rparr>) s))"
  have "flow_step s s1" unfolding s1_def
    by (rule flow_step_trans [OF flow_step_trans [OF upf_step account_steps(1)] sends_step [OF notify_window_updated_sends]]) simp_all
  thus ?thesis unfolding ooo_take_def Let_def s1_def [symmetric]
    using flow_step_trans [OF _ deliver_data_step] flow_step_trans [OF _ handle_fin_step] by auto
qed

lemma flush_drain_step: "flow_step s (snd (snd (flush_drain d s)))"
proof (induction d s rule: flush_drain.induct)
  case (1 d s)
  show ?case
  proof (cases "ooo_candidate (rcv_nxt (cf s)) (ooo_cache (cf s))")
    case (Some p)
    then obtain k g where p: "ooo_candidate (rcv_nxt (cf s)) (ooo_cache (cf s)) = Some (k, g)" by (cases p) auto
    show ?thesis using "1.IH" [OF p refl refl] ooo_take_step [of s k g] flow_step_trans [OF ooo_take_step [of s k g]] p
      by (auto simp: flush_drain.simps [of d] Let_def)
  qed (simp add: flush_drain.simps)
qed

lemma flush_ooo_step: "flow_step s (flush_ooo s)"
proof -
  obtain r p s1 where a: "flush_prune (om_begin (ooo_cache (cf s))) False s = (r, p, s1)" by (metis prod_cases3)
  define s2 where "s2 = upf (\<lambda>f. f\<lparr>ooo_count := length (ooo_cache f)\<rparr>) s1"
  obtain r' d s3 where b: "flush_drain False s2 = (r', d, s3)" by (metis prod_cases3)
  have s1: "flow_step s s1" using flush_prune_step [of s "om_begin (ooo_cache (cf s))" False] a by simp
  have "flow_step s1 s2" unfolding s2_def by (rule upf_step) simp_all
  moreover have "flow_step s2 s3" using flush_drain_step [of s2 False] b by simp
  ultimately have s3: "flow_step s s3" using s1 flow_step_trans by blast
  show ?thesis unfolding flush_ooo_def a Let_def prod.case s2_def [symmetric] b
    using s1 s3 flow_step_trans [OF s3 sends_step [OF send_ack_sends]] flow_step_trans [OF s3 sends_step [OF notify_window_updated_sends]] by simp
qed

lemma ooo_append_result_step: "flow_step s (let (ok, t) = ooo_append q d f s in if ok then rx_ooo_inc t else send_ack t)"
proof -
  obtain ok t where a: "ooo_append q d f s = (ok, t)" by fastforce
  have "flow_step s t" by (rule caches_step [OF ooo_append_caches [OF a]])
  thus ?thesis unfolding a Let_def prod.case
    using flow_step_trans [OF _ account_steps(3)] flow_step_trans [OF _ sends_step [OF send_ack_sends]] by simp
qed

lemma handle_data_step: "flow_step s (handle_data q d fl s)"
  unfolding handle_data_def Let_def
  using ooo_append_result_step [unfolded Let_def] flow_step_trans [OF deliver_data_step flush_ooo_step]
    flow_step_trans [OF account_steps(2) sends_step [OF send_ack_sends]] by simp

lemma segment_payload_step: "flow_step s (segment_payload q d fl s)"
proof -
  have "flow_step t (segment_fin q d fl t)" for t
    unfolding segment_fin_def Let_def using ooo_append_result_step [unfolded Let_def] handle_fin_step by simp
  thus ?thesis unfolding segment_payload_def using flow_step_trans [OF handle_data_step [of s q d fl]]
    by (cases "d = []") auto
qed

section \<open>Closing and aborting\<close>

lemma drop_rx_simps [simp]:
  "fl_id (cf (drop_rx s)) = fl_id (cf s)" "fl_key (cf (drop_rx s)) = fl_key (cf s)" "fl_state (cf (drop_rx s)) = fl_state (cf s)"
  "accepted (cf (drop_rx s)) = accepted (cf s)" "pending_accept (cf (drop_rx s)) = pending_accept (cf s)"
  "active_read (cf (drop_rx s)) = active_read (cf s)" "active_write (cf (drop_rx s)) = active_write (cf s)"
  "write_ch (cf (drop_rx s)) = write_ch (cf s)" "fl_coro (cf (drop_rx s)) = fl_coro (cf s)" "fl_rst (cf (drop_rx s)) = fl_rst (cf s)"
  "snd_una (cf (drop_rx s)) = snd_una (cf s)" "snd_nxt (cf (drop_rx s)) = snd_nxt (cf s)"
  "te_store (ce (drop_rx s)) = te_store (ce s)" "te_next_id (ce (drop_rx s)) = te_next_id (ce s)" "te_cfg (ce (drop_rx s)) = te_cfg (ce s)"
  "te_flows (ce (drop_rx s)) = te_flows (ce s)" "te_pending_flows (ce (drop_rx s)) = te_pending_flows (ce s)"
  "te_pending_accepts (ce (drop_rx s)) = te_pending_accepts (ce s)" "e_posted (cenv (drop_rx s)) = e_posted (cenv s)"
  "e_stats (cenv (drop_rx s)) = e_stats (cenv s)"
  by (simp_all add: drop_rx_def Let_def)

lemma wake_coro_simps [simp]:
  "fl_id (wake_coro f) = fl_id f" "fl_key (wake_coro f) = fl_key f" "fl_state (wake_coro f) = fl_state f"
  "accepted (wake_coro f) = accepted f" "pending_accept (wake_coro f) = pending_accept f"
  "active_read (wake_coro f) = active_read f" "active_write (wake_coro f) = active_write f"
  by (simp_all add: wake_coro_def split: option.splits)

lemma close_write_ch_simps [simp]:
  "fl_id (cf (close_write_ch s)) = fl_id (cf s)" "fl_key (cf (close_write_ch s)) = fl_key (cf s)"
  "fl_state (cf (close_write_ch s)) = fl_state (cf s)" "accepted (cf (close_write_ch s)) = accepted (cf s)"
  "pending_accept (cf (close_write_ch s)) = pending_accept (cf s)" "active_read (cf (close_write_ch s)) = active_read (cf s)"
  "active_write (cf (close_write_ch s)) = active_write (cf s)" "ce (close_write_ch s) = ce s"
  by (simp_all add: close_write_ch_def)

lemma post_op_simps [simp]:
  "cf (post_read r ec s) = cf s" "cf (post_write w ec s) = cf s"
  "te_store (ce (post_read r ec s)) = te_store (ce s)" "te_next_id (ce (post_read r ec s)) = te_next_id (ce s)"
  "te_cfg (ce (post_read r ec s)) = te_cfg (ce s)" "te_flows (ce (post_read r ec s)) = te_flows (ce s)"
  "te_pending_flows (ce (post_read r ec s)) = te_pending_flows (ce s)" "te_pending_accepts (ce (post_read r ec s)) = te_pending_accepts (ce s)"
  "te_store (ce (post_write w ec s)) = te_store (ce s)" "te_next_id (ce (post_write w ec s)) = te_next_id (ce s)"
  "te_cfg (ce (post_write w ec s)) = te_cfg (ce s)" "te_flows (ce (post_write w ec s)) = te_flows (ce s)"
  "te_pending_flows (ce (post_write w ec s)) = te_pending_flows (ce s)" "te_pending_accepts (ce (post_write w ec s)) = te_pending_accepts (ce s)"
  "e_stats (cenv (post_read r ec s)) = e_stats (cenv s)" "e_stats (cenv (post_write w ec s)) = e_stats (cenv s)"
  "e_account (cenv (post_read r ec s)) = e_account (cenv s)" "e_account (cenv (post_write w ec s)) = e_account (cenv s)"
  "e_posted (cenv (post_read r ec s)) = e_posted (cenv s) @ (case r of None \<Rightarrow> [] | Some op \<Rightarrow> [Done_read (ro_handler op) ec 0 []])"
  "e_posted (cenv (post_write w ec s)) = e_posted (cenv s) @ (case w of None \<Rightarrow> [] | Some op \<Rightarrow> [Done_write (wo_handler op) ec 0])"
  by (simp_all add: post_read_def post_write_def split: option.splits)

lemma on_eng_simps [simp]: "cf (on_eng g s) = cf s" "ce (on_eng g s) = g (ce s)" "cx (on_eng g s) = cx s"
  by (simp_all add: on_eng_def)

lemma close_flow_step: "flow_step s (close_flow err s)"
proof (cases "fl_state (cf s) = CLOSED")
  case False
  define t where "t = close_flow err s"
  have t: "fl_id (cf t) = fl_id (cf s)" "fl_key (cf t) = fl_key (cf s)" "accepted (cf t) = accepted (cf s)"
    "te_store (ce t) = te_store (ce s)" "te_next_id (ce t) = te_next_id (ce s)" "te_cfg (ce t) = te_cfg (ce s)"
    "te_pending_accepts (ce t) = te_pending_accepts (ce s)" "fl_state (cf t) = CLOSED"
    "active_read (cf t) = None" "active_write (cf t) = None" "\<not> pending_accept (cf t)"
    "te_flows (ce t) = filter (\<lambda>p. fst p \<noteq> fl_key (cf s)) (te_flows (ce s))"
    "te_pending_flows (ce t) = (if pending_accept (cf s) then remove1 (fl_id (cf s)) (te_pending_flows (ce s)) else te_pending_flows (ce s))"
    "e_posted (cenv t) = e_posted (cenv s) @ (case active_read (cf s) of None \<Rightarrow> [] | Some op \<Rightarrow> [Done_read (ro_handler op) err 0 []]) @
       (case active_write (cf s) of None \<Rightarrow> [] | Some op \<Rightarrow> [Done_write (wo_handler op) err 0])"
    "tcp_connections (e_stats (cenv t)) = tcp_connections (e_stats (cenv s)) - of_bool (counted (cf s))"
    using False by (simp_all add: t_def close_flow_def Let_def unlist_pending_def erase_flow_def uncount_flow_def tcp_connections_add_def counted_def)
  have "ctx_toks t = ctx_toks s"
    by (simp add: t ctx_toks_def posted_toks_def flow_toks_def accept_toks_def split: option.splits)
  moreover have "handed (cenv t) = handed (cenv s)" by (auto simp: t split: option.splits)
  ultimately show ?thesis using False t unfolding t_def [symmetric]
    by (simp add: flow_call_def closes_def others_counted_def counted_def ops_ok_def claimed_def)
qed (simp add: close_flow_def)

lemma abort_flow_step: "flow_step s (abort_flow s)"
proof -
  define s1 where "s1 = send_segment (snd_nxt (cf s)) (TCP_RST OR TCP_ACK) [] False s"
  have "flow_step s (upf (\<lambda>f. f\<lparr>fl_rst := True\<rparr>) s1)" unfolding s1_def
    by (rule flow_step_trans [OF sends_step [OF send_segment_sends] upf_step]) simp_all
  thus ?thesis unfolding abort_flow_def Let_def s1_def [symmetric] using flow_step_trans [OF _ close_flow_step] by simp
qed

lemma emit_fin_step:
  assumes "accepted (cf s)" "fl_state (cf s) = ESTABLISHED \<and> st = FIN_WAIT_1 \<or> fl_state (cf s) = CLOSE_WAIT \<and> st = LAST_ACK" shows "flow_step s (emit_fin st s)"
proof -
  have "flow_step s (upf (\<lambda>f. f\<lparr>fl_state := st, close_started_at := cnow s\<rparr>) s)"
    by (rule upf_state_step) (use assms in \<open>auto simp: counted_def claimed_def\<close>)
  thus ?thesis unfolding emit_fin_def Let_def
    using flow_step_trans [OF flow_step_trans [OF _ sends_step [OF send_segment_sends]] upf_step] by simp
qed

text \<open>\<open>send_fin\<close> emits a FIN only in states that a claimed flow reaches after being accepted.\<close>

lemma send_fin_step: assumes "claimed (cf s)" shows "flow_step s (send_fin s)"
proof -
  define s1 where "s1 = upf (\<lambda>f. f\<lparr>fin_sent := True\<rparr>) s"
  have s1: "flow_step s s1" unfolding s1_def by (rule upf_step) simp_all
  have b: "flow_step s (upf (\<lambda>f. f\<lparr>fin_pending := True\<rparr>) s)" by (rule upf_step) simp_all
  have e: "fl_state (cf s1) = ESTABLISHED \<or> fl_state (cf s1) = CLOSE_WAIT \<Longrightarrow> accepted (cf s1)"
    using assms by (auto simp: s1_def claimed_def)
  show ?thesis unfolding send_fin_def Let_def s1_def [symmetric]
    using s1 b e flow_step_trans [OF s1 emit_fin_step] flow_step_trans [OF s1 abort_flow_step] by (auto split: tcp_state.splits)
qed

lemma accept_flow_step: assumes "accepted (cf s)" shows "flow_step s (accept_flow s)"
proof -
  define s1 where "s1 = send_segment (iss (cf s)) (TCP_SYN OR TCP_ACK) [] True s"
  have s1: "flow_step s s1" unfolding s1_def by (rule sends_step [OF send_segment_sends])
  have "fl_state (cf s) = SYN_RCVD \<Longrightarrow> flow_step s1 (upf (\<lambda>f. f\<lparr>snd_nxt := iss f + 1, fl_state := SYN_ACK_SENT\<rparr>) s1)"
    by (rule upf_state_step) (use assms in \<open>auto simp: s1_def counted_def claimed_def\<close>)
  thus ?thesis unfolding accept_flow_def Let_def s1_def [symmetric] using flow_step_trans [OF s1] by simp
qed

section \<open>Segments\<close>

lemma flow_step_claimed: "flow_step s s' \<Longrightarrow> claimed (cf s) \<Longrightarrow> claimed (cf s')"
  by (simp add: flow_call_def)

lemma ack_advance_step: "flow_step s (upf (\<lambda>f. (ack_advance ack f)\<lparr>probe_in_flight := False\<rparr>) s)"
  by (rule upf_step) (auto simp: ack_advance_def option.map_comp write_ok_def op_ok_def write_data_def intro: option.map_cong)

lemma handle_ack_step:
  assumes c: "claimed (cf s)" shows "flow_step s (snd (handle_ack ack s))"
proof -
  define s1 where "s1 = upf (\<lambda>f. (ack_advance ack f)\<lparr>probe_in_flight := False\<rparr>) s"
  define s2 where "s2 = (if pending_fin_due (cf s1) then send_fin (upf (\<lambda>f. f\<lparr>fin_pending := False\<rparr>) s1) else s1)"
  have s1: "flow_step s s1" unfolding s1_def by (rule ack_advance_step)
  have u: "flow_step s1 (upf (\<lambda>f. f\<lparr>fin_pending := False\<rparr>) s1)" by (rule upf_step) simp_all
  have "flow_step s1 s2" using flow_step_trans [OF u send_fin_step] flow_step_claimed [OF u] flow_step_claimed [OF s1 c] by (simp add: s2_def)
  hence s2: "flow_step s s2" using s1 flow_step_trans by blast
  have st: "flow_step s2 (upf (\<lambda>f. f\<lparr>fl_state := TIME_WAIT, destroy_at := d\<rparr>) s2)" "flow_step s2 (upf (\<lambda>f. f\<lparr>fl_state := FIN_WAIT_2\<rparr>) s2)"
    if "fl_state (cf s2) = FIN_WAIT_1" for d
    by (rule upf_state_step; use that flow_step_claimed [OF s2 c] in \<open>auto simp: counted_def claimed_def\<close>)+
  show ?thesis unfolding handle_ack_def Let_def s1_def [symmetric] s2_def [symmetric]
    using s2 flow_step_trans [OF s2 st(1)] flow_step_trans [OF s2 st(2)] flow_step_trans [OF s2 close_flow_step] by simp
qed

lemma signal_write_step: "flow_step s (signal_write s)"
  unfolding signal_write_def by (auto intro!: upf_step)

lemma segment_established_step: "flow_step s (segment_established q d fl s)"
  unfolding segment_established_def using segment_payload_step signal_write_step flow_step_trans by blast

lemma handshake_done_step:
  assumes "claimed (cf s)" "fl_state (cf s) = SYN_ACK_SENT" shows "flow_step s (handshake_done s)"
proof -
  define s1 where "s1 = tcp_connections_add 1 (upf (\<lambda>f. f\<lparr>fl_state := ESTABLISHED\<rparr>) s)"
  have a: "accepted (cf s1)" using assms by (simp add: s1_def tcp_connections_add_def claimed_def)
  have "flow_step s s1" using assms
    by (simp add: s1_def tcp_connections_add_def flow_call_def closes_def others_counted_def counted_def ops_ok_def claimed_def
        ctx_toks_def posted_toks_def flow_toks_def accept_toks_def)
  thus ?thesis unfolding handshake_done_def Let_def s1_def [symmetric] using a flow_step_trans [OF _ flush_reads_step] by simp
qed

lemma segment_state_step:
  assumes "claimed (cf s)" shows "flow_step s (segment_state q ack fl d s)"
proof -
  have r: "flow_step s (close_flow EC_connection_reset (upf (\<lambda>f. f\<lparr>fl_rst := True\<rparr>) s))"
    by (rule flow_step_trans [OF upf_step close_flow_step]) simp_all
  show ?thesis unfolding segment_state_def
    using r segment_established_step sends_step [OF send_segment_sends]
      flow_step_trans [OF handshake_done_step segment_established_step] assms by simp
qed

lemma handle_segment_step:
  assumes c: "claimed (cf s)" shows "flow_step s (handle_segment th d s)"
proof -
  obtain go t where a: "handle_ack (ntohl (th_ack th)) s = (go, t)" by fastforce
  have t: "flow_step s t" using handle_ack_step [OF c, of "ntohl (th_ack th)"] a by simp
  define u where "u = upf (\<lambda>f. f\<lparr>peer_wnd := push_bit (unat (snd_wnd_scale f)) (ucast (ntohs (th_window th)))\<rparr>) t"
  have "flow_step t u" unfolding u_def by (rule upf_step) simp_all
  hence u: "flow_step s u" using t flow_step_trans by blast
  show ?thesis unfolding handle_segment_def Let_def a prod.case u_def [symmetric]
    using t flow_step_trans [OF u segment_state_step] flow_step_claimed [OF u c] segment_state_step [OF c] by simp
qed

section \<open>Calls of the application\<close>

lemma post_call:
  "flow_call {#Tk_read h#} s (post_ctx (Done_read h ec n d) s)" "flow_call {#Tk_write h#} s (post_ctx (Done_write h ec n) s)"
  by (simp_all add: flow_call_def closes_def others_counted_def ctx_toks_def posted_toks_def accept_toks_def)

lemma read_entry_call:
  assumes "accepted (cf s)" shows "flow_call {#Tk_read h#} s (read_entry bs n h s)"
proof -
  define s1 where "s1 = (if fl_state (cf s) = SYN_RCVD then accept_flow s else s)"
  have s1: "flow_step s s1" using accept_flow_step [OF assms] by (simp add: s1_def)
  have nc: "fl_state (cf s1) \<noteq> CLOSED" if "fl_state (cf s) \<noteq> CLOSED" using that by (simp add: s1_def accept_flow_def Let_def)
  have a: "flow_call {#Tk_read h#} t (upf (\<lambda>f. f\<lparr>active_read := Some \<lparr>ro_buffers = bs, ro_total = n, ro_handler = h\<rparr>\<rparr>) t)"
    if "active_read (cf t) = None" "fl_state (cf t) \<noteq> CLOSED" for t
    using that by (simp add: flow_call_def closes_def others_counted_def counted_def claimed_def ops_ok_def
        ctx_toks_def flow_toks_def accept_toks_def)
  show ?thesis unfolding read_entry_def Let_def s1_def [symmetric]
    using flow_step_call [OF s1 post_call(1)] flow_step_call [OF s1 flow_call_step [OF a flush_reads_step]] nc post_call(1) by simp
qed

lemma write_entry_call:
  assumes "accepted (cf s)" "n = length (concat bs)" shows "flow_call {#Tk_write h#} s (write_entry bs n h s)"
proof -
  define s1 where "s1 = (if fl_state (cf s) = SYN_RCVD then accept_flow s else s)"
  have s1: "flow_step s s1" using accept_flow_step [OF assms(1)] by (simp add: s1_def)
  have nc: "fl_state (cf s1) \<noteq> CLOSED" if "fl_state (cf s) \<noteq> CLOSED" using that by (simp add: s1_def accept_flow_def Let_def)
  have a: "flow_call {#Tk_write h#} t (upf (\<lambda>f. f\<lparr>active_write := Some op, fl_coro := c\<rparr>) t)"
    if "active_write (cf t) = None" "fl_state (cf t) \<noteq> CLOSED" "wo_handler op = h" "op_ok op" for t op c
    using that by (simp add: flow_call_def closes_def others_counted_def counted_def claimed_def ops_ok_def
        ctx_toks_def flow_toks_def accept_toks_def)
  show ?thesis unfolding write_entry_def Let_def s1_def [symmetric]
    using flow_step_call [OF s1 post_call(2)] flow_step_call [OF s1 a] nc post_call(2)
    by (simp add: op_ok_def write_data_def assms(2))
qed

lemma drop_rx_step: "flow_step s (drop_rx s)"
  by (rule flow_stepI) (simp_all add: ctx_toks_def posted_toks_def flow_toks_def accept_toks_def)

lemma close_write_ch_step: "flow_step s (close_write_ch s)"
  by (rule flow_stepI) (simp_all add: ctx_toks_def posted_toks_def flow_toks_def accept_toks_def)

lemma shutdown_send_step: "claimed (cf s) \<Longrightarrow> flow_step s (shutdown_send_entry s)"
  by (simp add: shutdown_send_entry_def send_fin_step)

lemma shutdown_receive_step: "flow_step s (shutdown_receive_entry s)"
  by (cases "fl_state (cf s) = CLOSED")
     (auto simp: shutdown_receive_entry_def Let_def flow_call_def closes_def others_counted_def counted_def claimed_def ops_ok_def
        ctx_toks_def posted_toks_def flow_toks_def accept_toks_def split: option.splits)

text \<open>
  Closing by the application takes the pending handlers out first and completes them last; in between
  they belong to the call.
\<close>

lemma post_ops_call:
  "flow_call ((case r of None \<Rightarrow> {#} | Some op \<Rightarrow> {#Tk_read (ro_handler op)#}) +
              (case w of None \<Rightarrow> {#} | Some op \<Rightarrow> {#Tk_write (wo_handler op)#})) s (post_write w ec' (post_read r ec s))"
  by (simp add: flow_call_def closes_def others_counted_def ctx_toks_def posted_toks_def accept_toks_def split: option.splits)

lemma flow_unload:
  assumes "flow_call (flow_toks (cf s)) (upf (\<lambda>f. f\<lparr>app_closed := b, active_read := None, active_write := None\<rparr>) s) s'"
  shows "flow_step s s'"
proof -
  define s1 where "s1 = upf (\<lambda>f. f\<lparr>app_closed := b, active_read := None, active_write := None\<rparr>) s"
  have "ctx_toks s1 + flow_toks (cf s) = ctx_toks s" by (simp add: s1_def ctx_toks_def flow_toks_def ac_simps)
  moreover have "closes s1 s' = closes s s'" "others_counted s1 = others_counted s" "claimed (cf s1) = claimed (cf s)"
    "ops_ok (cf s) \<Longrightarrow> ops_ok (cf s1)" "ce s1 = ce s" "fl_id (cf s1) = fl_id (cf s)" "fl_key (cf s1) = fl_key (cf s)"
    "accepted (cf s1) = accepted (cf s)" "fl_state (cf s1) = fl_state (cf s)" "pending_accept (cf s1) = pending_accept (cf s)"
    by (simp_all add: s1_def closes_def others_counted_def counted_def claimed_def ops_ok_def)
  ultimately show ?thesis using assms unfolding s1_def [symmetric] by (simp add: flow_call_def)
qed

lemma close_entry_step: assumes "claimed (cf s)" shows "flow_step s (close_entry s)"
proof (cases "fl_state (cf s) = CLOSED \<or> app_closed (cf s)")
  case False
  define s1 where "s1 = upf (\<lambda>f. f\<lparr>app_closed := True, active_read := None, active_write := None\<rparr>) s"
  define s2 where "s2 = drop_rx (close_write_ch s1)"
  define s3 where "s3 = (if snd_una (cf s2) \<noteq> snd_nxt (cf s2) then abort_flow s2 else send_fin s2)"
  have s2: "flow_step s1 s2" unfolding s2_def using close_write_ch_step drop_rx_step flow_step_trans by blast
  have "claimed (cf s1)" using assms by (simp add: s1_def claimed_def)
  hence s3: "flow_step s1 s3" using s2 flow_step_trans [OF s2 abort_flow_step] flow_step_trans [OF s2 send_fin_step] flow_step_claimed [OF s2]
    by (simp add: s3_def)
  have "close_entry s = post_write (active_write (cf s)) EC_operation_aborted (post_read (active_read (cf s)) EC_operation_aborted s3)"
    using False by (simp add: close_entry_def Let_def s1_def s2_def s3_def upf_def)
  moreover have "flow_call (flow_toks (cf s)) s3 (post_write (active_write (cf s)) EC_operation_aborted (post_read (active_read (cf s)) EC_operation_aborted s3))"
    unfolding flow_toks_def by (rule post_ops_call)
  ultimately have "flow_call (flow_toks (cf s)) s1 (close_entry s)" using flow_step_call [OF s3] by simp
  thus ?thesis unfolding s1_def by (rule flow_unload)
qed (auto simp: close_entry_def)

lemma reset_entry_step: "flow_step s (reset_entry s)"
  by (simp add: reset_entry_def abort_flow_step)

section \<open>The write coroutine\<close>

lemma set_coro_step: "flow_step s (set_coro c s)"
  unfolding set_coro_def by (rule upf_step) simp_all

lemma suspend_step: "flow_step s (suspend p d c s)"
  unfolding suspend_def by (rule set_coro_step)

lemma wl_exit_step: "flow_step s (wl_exit s)"
proof (cases "active_write (cf s)")
  case None
  hence "active_write (cf (set_coro None s)) = None" by (simp add: set_coro_def)
  thus ?thesis by (simp add: wl_exit_def set_coro_step)
next
  case (Some op)
  thus ?thesis by (simp add: wl_exit_def set_coro_def flow_call_def closes_def others_counted_def counted_def claimed_def ops_ok_def
      ctx_toks_def posted_toks_def flow_toks_def accept_toks_def)
qed

declare op_seek_keeps [simp]

lemma set_op_step:
  assumes "active_write (cf s) = Some op" "wo_handler op' = wo_handler op" "op_ok op \<Longrightarrow> op_ok op'"
    and "\<And>f. fl_id (g f) = fl_id f \<and> fl_key (g f) = fl_key f \<and> accepted (g f) = accepted f \<and> pending_accept (g f) = pending_accept f \<and>
      fl_state (g f) = fl_state f \<and> active_read (g f) = active_read f \<and> active_write (g f) = Some op'"
  shows "flow_step s (upf g s)"
  by (rule flow_stepI) (use assms in \<open>simp_all add: ctx_toks_def flow_toks_def\<close>)

lemma build_next_segment_step:
  assumes "active_write (cf s) = Some op" shows "flow_step s (snd (build_next_segment w op s))"
proof -
  define s1 where "s1 = upf (\<lambda>f. f\<lparr>active_write := Some (op_seek op)\<rparr>) s"
  have s1: "flow_step s s1" unfolding s1_def by (rule set_op_step [OF assms, of "op_seek op"]) (simp_all add: op_seek_ok)
  obtain r s2 where b: "build_segment (snd_nxt (cf s1)) (TCP_ACK OR TCP_PSH) (next_chunk w (op_seek op) s1) False s1 = (r, s2)" by fastforce
  have "sends s1 s2" using build_segment_sends [of s1 "snd_nxt (cf s1)" "TCP_ACK OR TCP_PSH" "next_chunk w (op_seek op) s1" False] b by simp
  hence s2: "flow_step s s2" "active_write (cf s2) = Some (op_seek op)"
    using flow_step_trans [OF s1] sends_step by (auto simp: sends_flow s1_def)
  have n: "length (next_chunk w (op_seek op) s1) \<le> size_sub (wo_total op) (wo_offset op)"
    by (simp add: next_chunk_def subl_def Let_def)
  have u: "flow_step s (upf (\<lambda>f. f\<lparr>snd_nxt := q f, active_write := Some ((op_seek op)\<lparr>wo_offset := wo_offset op + c,
      wo_buf_off := wo_buf_off (op_seek op) + c\<rparr>)\<rparr>) s2)" if "c \<le> size_sub (wo_total op) (wo_offset op)" for q c
    by (rule flow_step_trans [OF s2(1) set_op_step [OF s2(2), of "(op_seek op)\<lparr>wo_offset := wo_offset op + c,
        wo_buf_off := wo_buf_off (op_seek op) + c\<rparr>"]])
      (use that in \<open>auto simp: op_ok_def write_data_def\<close>)
  show ?thesis unfolding build_next_segment_def Let_def s1_def [symmetric] b prod.case
    using s1 s2 u [OF n] by (auto split: sum.splits)
qed

lemma send_window_probe_step:
  assumes "active_write (cf s) = Some op" shows "flow_step s (send_window_probe op s)"
proof -
  define s1 where "s1 = upf (\<lambda>f. f\<lparr>active_write := Some (op_seek op)\<rparr>) s"
  have s1: "flow_step s s1" unfolding s1_def by (rule set_op_step [OF assms, of "op_seek op"]) (simp_all add: op_seek_ok)
  have "flow_step s1 (upf (\<lambda>f. f\<lparr>probe_in_flight := True\<rparr>) (send_segment q fl d m s1))" for q fl d m
    by (rule flow_step_trans [OF sends_step [OF send_segment_sends] upf_step]) simp_all
  thus ?thesis unfolding send_window_probe_def Let_def s1_def [symmetric] using s1 flow_step_trans [OF s1] by simp
qed

lemma retransmit_unacked_sends: "sends s (retransmit_unacked n s)"
proof -
  have "sends s (retx_loop st m stop bs base off left s)" for st m stop bs base off left
  proof (induction st m stop bs base off left s rule: retx_loop.induct)
    case (2 st m stop b bs base off left s)
    define want where "want = retx_want m stop b (off - base) off left"
    define t where "t = send_segment (st + of_nat off) (TCP_ACK OR TCP_PSH) (subl (off - base) want b) False s"
    have u: "retx_loop st m stop (b # bs) base off left s = (if off < stop \<and> left > 0 then if want = 0 then s
        else if off + want \<ge> base + length b then retx_loop st m stop bs (base + length b) (off + want) (left - want) t
        else retx_loop st m stop (b # bs) base (off + want) (left - want) t else s)"
      by (subst retx_loop.simps(2)) (simp only: Let_def want_def t_def)
    have t: "sends s t" unfolding t_def by (rule send_segment_sends)
    show ?case
    proof (cases "off < stop \<and> left > 0 \<and> want \<noteq> 0")
      case True
      note IH = "2.IH" [OF _ refl want_def _ t_def]
      show ?thesis using True IH(1) IH(2) sends_trans [OF t] by (simp add: u)
    qed (auto simp: u)
  qed simp
  thus ?thesis by (auto simp: retransmit_unacked_def Let_def split: option.splits prod.splits)
qed

lemma async_write_step: "flow_step s (on_env (async_write p h) s)"
proof -
  have e: "env_sends (cenv s) (enqueue p h' (cenv s))" for h' by (rule enqueue_sends)
  show ?thesis
    by (rule flow_stepI) (use e [of "Some h"] in \<open>simp_all add: async_write_def env_sends_def ctx_toks_def posted_toks_def accept_toks_def
        post_completion_on_def add_tx_dropped_def\<close>)
qed

lemma wl_send_step:
  assumes "active_write (cf s) = Some op" shows "flow_step s (wl_send w op c s)"
proof -
  obtain r s1 where b: "build_next_segment w op s = (r, s1)" by fastforce
  have s1: "flow_step s s1" using build_next_segment_step [OF assms, of w] b by simp
  have "flow_step s (suspend p d c (on_env (async_write pkt h) s1))" for p d pkt h
    using flow_step_trans [OF s1 flow_step_trans [OF async_write_step suspend_step]] by blast
  thus ?thesis unfolding wl_send_def Let_def b prod.case using flow_step_trans [OF s1 wl_exit_step]
    by (auto split: sum.splits option.splits)
qed

lemma wl_iter_step:
  assumes "\<And>c s. flow_step s (again c s)" shows "flow_step s (wl_iter again c s)"
proof (cases "active_write (cf s)")
  case (Some op)
  have d: "flow_step s (post_ctx (Done_write (wo_handler op) EC_ok (wo_total op)) (upf (\<lambda>f. f\<lparr>active_write := None, fl_coro := None\<rparr>) s))"
    using Some by (simp add: flow_call_def closes_def others_counted_def counted_def claimed_def ops_ok_def
      ctx_toks_def posted_toks_def flow_toks_def accept_toks_def)
  show ?thesis unfolding wl_iter_def Some option.case Let_def wl_wait_ack_def
    using assms d wl_exit_step suspend_step wl_send_step [OF Some] by simp
qed (simp add: wl_iter_def wl_exit_step)

lemma wl_head_step: "flow_step s (wl_head c s)"
  unfolding wl_head_def by (intro wl_iter_step) (simp add: wl_wait_ack_def suspend_step)

lemma wl_begin_step: "flow_step s (wl_begin s)"
proof (cases "active_write (cf s)")
  case (Some op)
  define s1 where "s1 = (if write_ch (cf s) = None then upf (\<lambda>f. f\<lparr>write_ch := Some True\<rparr>) s else s)"
  have s1: "flow_step s s1" unfolding s1_def by (simp add: upf_step)
  define s2 where "s2 = upf (\<lambda>f. f\<lparr>active_write := Some (op\<lparr>wo_start_seq := snd_nxt f\<rparr>)\<rparr>) s1"
  have "active_write (cf s1) = Some op" using Some by (simp add: s1_def)
  hence "flow_step s1 s2" unfolding s2_def by (intro flow_stepI) (simp_all add: ctx_toks_def flow_toks_def op_ok_def write_data_def)
  thus ?thesis unfolding wl_begin_def Some option.case Let_def s1_def [symmetric] s2_def [symmetric]
    using s1 flow_step_trans wl_head_step by blast
qed (simp add: wl_begin_def set_coro_step)

lemma wl_persist_step: "flow_step s (wl_persist r c s)"
proof -
  have p: "flow_step s (persist_probe op c s)" if "active_write (cf s) = Some op" for op c
    unfolding persist_probe_def Let_def
    using flow_step_trans [OF send_window_probe_step [OF that] wl_head_step] wl_head_step
      flow_step_trans [OF sends_step [OF retransmit_unacked_sends] wl_head_step] by simp
  have x: "flow_step s (s\<lparr>cx := v\<rparr>)" for v
    by (rule flow_stepI) (simp_all add: ctx_toks_def posted_toks_def flow_toks_def accept_toks_def)
  show ?thesis unfolding wl_persist_def Let_def
    using p x wl_head_step flow_step_trans [OF abort_flow_step wl_exit_step] by (auto split: option.splits)
qed

lemma rto_retransmit_step: "flow_step s (rto_retransmit s)"
  by (auto simp: rto_retransmit_def sends_step retransmit_unacked_sends split: option.splits)

lemma write_loop_step_step: "flow_step s (write_loop_step s)"
proof -
  have a: "flow_step s (wl_ack_or_rto r c s)" for r c
    unfolding wl_ack_or_rto_def Let_def
    using wl_head_step flow_step_trans [OF abort_flow_step wl_exit_step] flow_step_trans [OF rto_retransmit_step wl_head_step] by simp
  have d: "flow_step s (wl_device_done ec c s)" for ec c
    by (simp add: wl_device_done_def wl_exit_step wl_head_step)
  show ?thesis unfolding write_loop_step_def
    using a d wl_begin_step wl_head_step wl_persist_step by (auto split: option.splits wl_point.splits wl_resume.splits)
qed

lemma coro_event_step: "flow_step s (coro_timer s)" "flow_step s (coro_device ec s)"
  by (simp_all add: coro_timer_def coro_device_def set_coro_step split: option.splits)

lemma on_ack_timer_step: "flow_step s (on_ack_timer s)"
proof -
  have "flow_step s (upf (\<lambda>f. f\<lparr>ack_timer := None\<rparr>) s)" by (rule upf_step) simp_all
  thus ?thesis unfolding on_ack_timer_def Let_def using flow_step_trans [OF _ sends_step [OF send_ack_sends]] by simp
qed

end
