(* ===== verification/Tcp_System.thy ===== *)
theory Tcp_System
  imports Tcp_Engine
begin

text \<open>
  The TCP engine under every sequence of events: packets from the device, timers, completions of
  device writes and calls of the application on flows it has been given. \<open>te_inv\<close> ties the flow table,
  the accept queue and the connection counter to the flows, \<open>queue_ok\<close> says the queue misses no flow; \<open>eng_toks\<close> is the ledger of handlers.
\<close>

section \<open>Invariant\<close>

text \<open>
  The accepted flows are those handed to the application, each handed over once. What an earlier engine
  on the same environment has handed over comes first (\<open>b\<close>).
\<close>

definition handover :: "nat list \<Rightarrow> tcp_engine \<Rightarrow> bool" where
  "handover b eng \<longleftrightarrow> (\<exists>new. handed (te_env eng) = b @ new \<and> distinct new \<and>
     (\<forall>i. i \<in> set new \<longleftrightarrow> i < te_next_id eng \<and> accepted (te_store eng i))) \<and>
     (\<forall>i<te_next_id eng. pending_accept (te_store eng i) \<longrightarrow> \<not> accepted (te_store eng i))"

lemma handover_same:
  assumes "handover b eng" "handed (te_env eng') = handed (te_env eng)" "te_next_id eng' = te_next_id eng"
    "\<And>i. i < te_next_id eng \<Longrightarrow> accepted (te_store eng' i) = accepted (te_store eng i)"
    "\<And>i. i < te_next_id eng \<Longrightarrow> pending_accept (te_store eng' i) \<Longrightarrow> pending_accept (te_store eng i)"
  shows "handover b eng'"
  using assms unfolding handover_def by metis

text \<open>Handing over a flow that was not accepted.\<close>

lemma handover_give:
  assumes "handover b eng" "i < te_next_id eng" "\<not> accepted (te_store eng i)"
    "handed (te_env eng') = handed (te_env eng) @ [i]" "te_next_id eng' = te_next_id eng"
    "\<And>j. accepted (te_store eng' j) \<longleftrightarrow> j = i \<or> accepted (te_store eng j)"
    "\<And>j. pending_accept (te_store eng' j) \<longrightarrow> j \<noteq> i \<and> pending_accept (te_store eng j)"
  shows "handover b eng'"
proof -
  obtain new where n: "handed (te_env eng) = b @ new" "distinct new"
    "\<And>j. j \<in> set new \<longleftrightarrow> j < te_next_id eng \<and> accepted (te_store eng j)"
    using assms(1) by (auto simp: handover_def)
  have "handed (te_env eng') = b @ (new @ [i]) \<and> distinct (new @ [i]) \<and>
      (\<forall>j. j \<in> set (new @ [i]) \<longleftrightarrow> j < te_next_id eng' \<and> accepted (te_store eng' j))"
    using n assms(2-6) by auto
  moreover have "\<forall>j<te_next_id eng'. pending_accept (te_store eng' j) \<longrightarrow> \<not> accepted (te_store eng' j)"
    using assms(1,5-7) by (auto simp: handover_def)
  ultimately show ?thesis unfolding handover_def by blast
qed

definition te_inv :: "nat list \<Rightarrow> tcp_engine \<Rightarrow> bool" where
  "te_inv b eng \<longleftrightarrow>
     distinct (map fst (te_flows eng)) \<and>
     (\<forall>k i. (k, i) \<in> set (te_flows eng) \<longleftrightarrow>
        i < te_next_id eng \<and> fl_state (te_store eng i) \<noteq> CLOSED \<and> fl_key (te_store eng i) = k) \<and>
     (\<forall>i<te_next_id eng. fl_id (te_store eng i) = i \<and> ops_ok (te_store eng i) \<and> claimed (te_store eng i)) \<and>
     distinct (te_pending_flows eng) \<and>
     (\<forall>i. i \<in> set (te_pending_flows eng) \<longleftrightarrow> i < te_next_id eng \<and> pending_accept (te_store eng i)) \<and>
     tcp_connections (e_stats (te_env eng)) = of_nat (card {i. i < te_next_id eng \<and> counted (te_store eng i)}) \<and>
     length (te_flows eng) \<le> max_tcp_flows (te_cfg eng) \<and>
     handover b eng"

definition eng_toks :: "tcp_engine \<Rightarrow> tok multiset" where
  "eng_toks eng = posted_toks (te_env eng) + (\<Sum>i<te_next_id eng. flow_toks (te_store eng i)) + accept_toks eng"

text \<open>
  \<open>advances\<close>: flows are never dropped from the store, each only moves on through its states, and
  completions are only added.
\<close>

definition advances :: "tcp_engine \<Rightarrow> tcp_engine \<Rightarrow> bool" where
  "advances eng eng' \<longleftrightarrow> te_next_id eng \<le> te_next_id eng' \<and> posts (te_env eng) (te_env eng') \<and>
     (\<forall>i<te_next_id eng. phase (fl_state (te_store eng i)) \<le> phase (fl_state (te_store eng' i)))"

lemma advances_same: "te_next_id eng' = te_next_id eng \<Longrightarrow> posts (te_env eng) (te_env eng') \<Longrightarrow> te_store eng' = te_store eng \<Longrightarrow> advances eng eng'"
  by (simp add: advances_def)

lemma advances_refl [simp]: "advances eng eng"
  by (simp add: advances_def)

lemma advances_trans: "advances a b \<Longrightarrow> advances b c \<Longrightarrow> advances a c"
  unfolding advances_def by (meson less_le_trans order_trans prefix_order.trans)

definition checkout :: "nat \<Rightarrow> tcp_engine \<Rightarrow> tcp_ctx" where
  "checkout i eng = \<lparr>cf = te_store eng i, ce = eng, cx = None\<rparr>"

lemma checkout_simps [simp]: "cf (checkout i eng) = te_store eng i" "ce (checkout i eng) = eng"
  by (simp_all add: checkout_def)

lemma with_flow_eq: "with_flow i g eng = (ce (g (checkout i eng)))\<lparr>te_store := (te_store (ce (g (checkout i eng))))(i := cf (g (checkout i eng)))\<rparr>"
  by (simp add: with_flow_def checkout_def Let_def)

lemma sum_update:
  fixes h :: "'b \<Rightarrow> tok multiset"
  assumes "i < (n :: nat)" shows "(\<Sum>j<n. h ((f(i := x)) j)) + h (f i) = (\<Sum>j<n. h (f j)) + h x"
proof -
  have "(\<Sum>j<n. h ((f(i := x)) j)) = h x + (\<Sum>j\<in>{..<n} - {i}. h (f j))"
    using assms by (subst sum.remove [of _ i]) (auto intro!: sum.cong)
  moreover have "(\<Sum>j<n. h (f j)) = h (f i) + (\<Sum>j\<in>{..<n} - {i}. h (f j))"
    using assms by (subst sum.remove [of _ i]) auto
  ultimately show ?thesis by (simp add: ac_simps)
qed

lemma ledger_balance:
  fixes P :: "'a multiset"
  assumes a: "P' + F' + A = P + F + A + t" and b: "S' + F = S + F'"
  shows "P' + S' + A = P + S + A + t"
proof (rule multiset_eqI)
  fix x
  show "count (P' + S' + A) x = count (P + S + A + t) x"
    using arg_cong [OF a, of "\<lambda>m. count m x"] arg_cong [OF b, of "\<lambda>m. count m x"] by simp
qed

lemma card_update:
  assumes "i < (n :: nat)"
  shows "(of_nat (card {j. j < n \<and> P ((f(i := x)) j)}) :: u64) = of_nat (card {j. j < n \<and> P (f j)}) - of_bool (P (f i)) + of_bool (P x)"
proof -
  define A where "A = {j. j < n \<and> j \<noteq> i \<and> P (f j)}"
  have fin: "finite A" "i \<notin> A" by (auto simp: A_def)
  have "{j. j < n \<and> P ((f(i := x)) j)} = (if P x then insert i A else A)" using assms by (auto simp: A_def)
  moreover have "{j. j < n \<and> P (f j)} = (if P (f i) then insert i A else A)" using assms by (auto simp: A_def)
  ultimately show ?thesis using fin by simp
qed

lemma with_flow_call:
  assumes inv: "te_inv b eng" and i: "i < te_next_id eng" and c: "flow_call t (checkout i eng) (g (checkout i eng))"
  shows "te_inv b (with_flow i g eng)" "eng_toks (with_flow i g eng) = eng_toks eng + t"
    "te_next_id (with_flow i g eng) = te_next_id eng" "te_cfg (with_flow i g eng) = te_cfg eng"
proof -
  define s' where "s' = g (checkout i eng)"
  define x where "x = te_store eng i"
  have id: "fl_id x = i" using inv i by (simp add: te_inv_def x_def)
  note C = c [folded s'_def, unfolded flow_call_def closes_def checkout_simps, folded x_def, unfolded id]
  let ?e = "with_flow i g eng"
  have e: "te_store ?e = (te_store eng)(i := cf s')" "te_next_id ?e = te_next_id eng" "te_cfg ?e = te_cfg eng"
    "te_env ?e = cenv s'" "te_pending_accepts ?e = te_pending_accepts eng" "te_flows ?e = te_flows (ce s')"
    "te_pending_flows ?e = te_pending_flows (ce s')"
    using C by (simp_all add: with_flow_eq s'_def)
  show "te_next_id ?e = te_next_id eng" "te_cfg ?e = te_cfg eng" by (rule e)+
  have "ctx_toks s' = ctx_toks (checkout i eng) + t" using C by simp
  hence "posted_toks (cenv s') + flow_toks (cf s') + accept_toks eng = posted_toks (te_env eng) + flow_toks x + accept_toks eng + t"
    using C by (simp add: ctx_toks_def accept_toks_def x_def)
  moreover have "(\<Sum>j<te_next_id eng. flow_toks (((te_store eng)(i := cf s')) j)) + flow_toks x = (\<Sum>j<te_next_id eng. flow_toks (te_store eng j)) + flow_toks (cf s')"
    unfolding x_def by (rule sum_update [OF i])
  ultimately show "eng_toks ?e = eng_toks eng + t"
    unfolding eng_toks_def e accept_toks_def by (rule ledger_balance)
  show "te_inv b ?e" unfolding te_inv_def e
  proof (intro conjI)
    have D: "distinct (map fst (te_flows eng))" and M: "\<And>k j. (k, j) \<in> set (te_flows eng) \<longleftrightarrow>
        j < te_next_id eng \<and> fl_state (te_store eng j) \<noteq> CLOSED \<and> fl_key (te_store eng j) = k"
      and Q: "\<And>j. j < te_next_id eng \<Longrightarrow> fl_id (te_store eng j) = j \<and> ops_ok (te_store eng j) \<and> claimed (te_store eng j)"
      and PD: "distinct (te_pending_flows eng)"
      and PM: "\<And>j. j \<in> set (te_pending_flows eng) \<longleftrightarrow> j < te_next_id eng \<and> pending_accept (te_store eng j)"
      and N: "tcp_connections (e_stats (te_env eng)) = of_nat (card {j. j < te_next_id eng \<and> counted (te_store eng j)})"
      and L: "length (te_flows eng) \<le> max_tcp_flows (te_cfg eng)"
      using inv unfolding te_inv_def by blast+
    define cl where "cl \<longleftrightarrow> fl_state (cf s') = CLOSED \<and> fl_state x \<noteq> CLOSED"
    have F: "te_flows (ce s') = (if cl then filter (\<lambda>p. fst p \<noteq> fl_key x) (te_flows eng) else te_flows eng)"
      and PF: "te_pending_flows (ce s') = (if cl \<and> pending_accept x then remove1 i (te_pending_flows eng) else te_pending_flows eng)"
      using C by (simp_all add: cl_def)
    have K: "fl_key (cf s') = fl_key x" "fl_id (cf s') = i" "ops_ok (cf s')" "claimed (cf s')"
      using C Q [OF i] by (simp_all add: x_def)
    show "distinct (map fst (te_flows (ce s')))" using D by (simp add: F distinct_map_filter)
    show "length (te_flows (ce s')) \<le> max_tcp_flows (te_cfg eng)"
      using L by (simp add: F) (meson le_trans length_filter_le)
    show "distinct (te_pending_flows (ce s'))" using PD by (simp add: PF)
    have ho: "handover b eng" "handed (te_env ?e) = handed (te_env eng)" using inv C by (simp_all add: te_inv_def e(4))
    have ac: "accepted (cf s') = accepted x" and pe: "pending_accept (cf s') \<Longrightarrow> pending_accept x"
      using K(3) C by (auto simp: ops_ok_def)
    show "handover b ?e" by (rule handover_same [OF ho e(2)]) (use ac pe in \<open>auto simp: e(1) x_def split: if_splits\<close>)
    show "\<forall>j<te_next_id eng. fl_id (((te_store eng)(i := cf s')) j) = j \<and> ops_ok (((te_store eng)(i := cf s')) j) \<and> claimed (((te_store eng)(i := cf s')) j)"
      using K Q by simp
    show "\<forall>j. j \<in> set (te_pending_flows (ce s')) \<longleftrightarrow> j < te_next_id eng \<and> pending_accept (((te_store eng)(i := cf s')) j)"
    proof
      fix j
      have n: "pending_accept (cf s') \<longleftrightarrow> \<not> cl \<and> pending_accept x" using K(3) C by (auto simp: cl_def ops_ok_def)
      have s: "set (te_pending_flows (ce s')) = set (te_pending_flows eng) - (if cl \<and> pending_accept x then {i} else {})"
        using PD by (simp add: PF)
      show "j \<in> set (te_pending_flows (ce s')) \<longleftrightarrow> j < te_next_id eng \<and> pending_accept (((te_store eng)(i := cf s')) j)"
        using PM [of j] i n unfolding s by (cases "j = i") (auto simp: x_def)
    qed
    show "\<forall>k j. (k, j) \<in> set (te_flows (ce s')) \<longleftrightarrow> j < te_next_id eng \<and>
        fl_state (((te_store eng)(i := cf s')) j) \<noteq> CLOSED \<and> fl_key (((te_store eng)(i := cf s')) j) = k"
    proof (intro allI)
      fix k j
      have stay: "\<not> cl \<Longrightarrow> (fl_state (cf s') = CLOSED) = (fl_state x = CLOSED)" using C phase_closed(1) [of "fl_state (cf s')"] by (auto simp: cl_def)
      have uniq: "j = i" if "cl" "(fl_key x, j) \<in> set (te_flows eng)"
        using eq_key_imp_eq_value [OF D that(2), of i] M [of "fl_key x" i] i that(1) by (auto simp: cl_def x_def)
      show "(k, j) \<in> set (te_flows (ce s')) \<longleftrightarrow> j < te_next_id eng \<and>
          fl_state (((te_store eng)(i := cf s')) j) \<noteq> CLOSED \<and> fl_key (((te_store eng)(i := cf s')) j) = k"
      proof -
        have F': "(k, j) \<in> set (te_flows (ce s')) \<longleftrightarrow> (k, j) \<in> set (te_flows eng) \<and> \<not> (cl \<and> k = fl_key x)" by (auto simp: F)
        show ?thesis
        proof (cases "j = i")
          case True
          thus ?thesis using M [of k i] K(1) stay i unfolding F' by (auto simp: x_def cl_def)
        next
          case False
          thus ?thesis using M [of k j] uniq unfolding F' by simp metis
        qed
      qed
    qed
    have "tcp_connections (e_stats (cenv s')) = tcp_connections (e_stats (te_env eng)) - of_bool (counted x) + of_bool (counted (cf s'))"
      using C by (simp add: others_counted_def x_def algebra_simps)
    thus "tcp_connections (e_stats (cenv s')) = of_nat (card {j. j < te_next_id eng \<and> counted (((te_store eng)(i := cf s')) j)})"
      unfolding card_update [OF i] N x_def .
  qed
qed

section \<open>New flows\<close>

lemma syn_data_step: "flow_step s (syn_data d s)"
proof -
  obtain ok s1 where r: "account_reserve (length d) s = (ok, s1)" by fastforce
  have s1: "flow_step s s1" using r by simp
  have "flow_step s1 (upf (\<lambda>f. f\<lparr>rx_data := rx_data f @ d, rx_bytes := rx_bytes f + length d, rcv_nxt := rcv_nxt f + of_nat (length d)\<rparr>) s1)"
    by (rule upf_step) simp_all
  thus ?thesis unfolding syn_data_def Let_def r prod.case
    using flow_step_trans [OF s1] flow_step_trans [OF s1 account_steps(2)] by simp
qed

lemma syn_data_frame:
  "fl_state (cf (syn_data d s)) = fl_state (cf s)" "pending_accept (cf (syn_data d s)) = pending_accept (cf s)"
  "accepted (cf (syn_data d s)) = accepted (cf s)"
  by (auto simp: syn_data_def Let_def account_reserve_def split: prod.splits)

lemma syn_flow_simps [simp]:
  "fl_id (syn_flow w k th p h eng) = te_next_id eng" "fl_key (syn_flow w k th p h eng) = k"
  "fl_state (syn_flow w k th p h eng) = SYN_RCVD" "active_read (syn_flow w k th p h eng) = None"
  "active_write (syn_flow w k th p h eng) = None" "\<not> pending_accept (syn_flow w k th p h eng)"
  "\<not> accepted (syn_flow w k th p h eng)"
  by (simp_all add: syn_flow_def tcp_flow0_def Let_def split: prod.splits)

definition add_flow :: "five_tuple \<Rightarrow> tcp_flow \<Rightarrow> tcp_engine \<Rightarrow> tcp_engine" where
  "add_flow key f eng = eng\<lparr>te_store := (te_store eng)(te_next_id eng := f), te_next_id := te_next_id eng + 1,
     te_flows := te_flows eng @ [(key, te_next_id eng)]\<rparr>"

lemma add_flow_inv:
  assumes inv: "te_inv b eng" and a: "\<not> accepted f" and f: "fl_id f = te_next_id eng" "fl_key f = k" "fl_state f = SYN_RCVD" "\<not> pending_accept f"
    "active_read f = None" "active_write f = None"
    and new: "map_of (te_flows eng) k = None" "length (te_flows eng) < max_tcp_flows (te_cfg eng)"
  shows "te_inv b (add_flow k f eng)" "eng_toks (add_flow k f eng) = eng_toks eng"
proof -
  have M: "\<And>k j. (k, j) \<in> set (te_flows eng) \<longleftrightarrow>
        j < te_next_id eng \<and> fl_state (te_store eng j) \<noteq> CLOSED \<and> fl_key (te_store eng j) = k"
    and P: "\<And>j. j \<in> set (te_pending_flows eng) \<longleftrightarrow> j < te_next_id eng \<and> pending_accept (te_store eng j)"
    using inv unfolding te_inv_def by blast+
  have "{j. j < Suc (te_next_id eng) \<and> counted (((te_store eng)(te_next_id eng := f)) j)} = {j. j < te_next_id eng \<and> counted (te_store eng j)}"
    using f(3) by (auto simp: counted_def less_Suc_eq)
  moreover have "k \<notin> fst ` set (te_flows eng)" using new(1) by (simp add: map_of_eq_None_iff)
  moreover have "ops_ok f" "claimed f" using f by (simp_all add: ops_ok_def claimed_def)
  moreover have "handover b (add_flow k f eng)"
  proof -
    have ho: "handover b eng" using inv by (simp add: te_inv_def)
    then obtain new where n: "handed (te_env eng) = b @ new" "distinct new"
      "\<And>j. j \<in> set new \<longleftrightarrow> j < te_next_id eng \<and> accepted (te_store eng j)" by (auto simp: handover_def)
    have "\<forall>j. j \<in> set new \<longleftrightarrow> j < Suc (te_next_id eng) \<and> accepted (((te_store eng)(te_next_id eng := f)) j)"
      using n(3) a by (auto simp: less_Suc_eq)
    moreover have "\<forall>j<Suc (te_next_id eng). pending_accept (((te_store eng)(te_next_id eng := f)) j) \<longrightarrow>
        \<not> accepted (((te_store eng)(te_next_id eng := f)) j)"
      using ho a by (auto simp: handover_def less_Suc_eq)
    ultimately show ?thesis using n(1,2) unfolding handover_def add_flow_def by auto
  qed
  ultimately show "te_inv b (add_flow k f eng)"
    using inv f new(2) M P by (auto simp: te_inv_def add_flow_def less_Suc_eq)
  have "(\<Sum>i<te_next_id eng. flow_toks (((te_store eng)(te_next_id eng := f)) i)) = (\<Sum>i<te_next_id eng. flow_toks (te_store eng i))"
    by (rule sum.cong) auto
  thus "eng_toks (add_flow k f eng) = eng_toks eng"
    using f by (simp add: eng_toks_def add_flow_def accept_toks_def flow_toks_def [of f])
qed

lemma notify_accept_inv:
  assumes inv: "te_inv b eng" and i: "i < te_next_id eng" and f: "fl_state (te_store eng i) \<noteq> CLOSED" "\<not> pending_accept (te_store eng i)"
    "\<not> accepted (te_store eng i)"
  shows "te_inv b (with_flow i notify_accept eng)" "eng_toks (with_flow i notify_accept eng) = eng_toks eng"
proof -
  let ?e = "with_flow i notify_accept eng"
  have id: "fl_id (te_store eng i) = i" using inv i by (simp add: te_inv_def)
  have np: "i \<notin> set (te_pending_flows eng)" using inv f by (simp add: te_inv_def)
  have "\<exists>g. te_store ?e = (te_store eng)(i := g (te_store eng i)) \<and> te_next_id ?e = te_next_id eng \<and> te_cfg ?e = te_cfg eng \<and>
    te_flows ?e = te_flows eng \<and> tcp_connections (e_stats (te_env ?e)) = tcp_connections (e_stats (te_env eng)) \<and>
    (\<forall>x. fl_id (g x) = fl_id x \<and> fl_key (g x) = fl_key x \<and> fl_state (g x) = fl_state x \<and> active_read (g x) = active_read x \<and>
      active_write (g x) = active_write x \<and> (accepted x \<longrightarrow> accepted (g x))) \<and>
    (if te_pending_accepts eng = [] then te_pending_flows ?e = te_pending_flows eng @ [i] \<and> pending_accept (g (te_store eng i))
     else te_pending_flows ?e = te_pending_flows eng \<and> \<not> pending_accept (g (te_store eng i)))"
    using id f(2) by (cases "te_pending_accepts eng")
      (auto simp: with_flow_eq notify_accept_def Let_def
        intro: exI [of _ "\<lambda>x. x\<lparr>pending_accept := True\<rparr>"] exI [of _ "\<lambda>x. x\<lparr>accepted := True\<rparr>"])
  then obtain g where g: "te_store ?e = (te_store eng)(i := g (te_store eng i))" "te_next_id ?e = te_next_id eng" "te_cfg ?e = te_cfg eng"
    "te_flows ?e = te_flows eng" "tcp_connections (e_stats (te_env ?e)) = tcp_connections (e_stats (te_env eng))"
    "\<And>x. fl_id (g x) = fl_id x \<and> fl_key (g x) = fl_key x \<and> fl_state (g x) = fl_state x \<and> active_read (g x) = active_read x \<and>
      active_write (g x) = active_write x \<and> (accepted x \<longrightarrow> accepted (g x))"
    "if te_pending_accepts eng = [] then te_pending_flows ?e = te_pending_flows eng @ [i] \<and> pending_accept (g (te_store eng i))
     else te_pending_flows ?e = te_pending_flows eng \<and> \<not> pending_accept (g (te_store eng i))"
    by blast
  have fl: "flow_toks (g x) = flow_toks x" "counted (g x) = counted x" "claimed x \<Longrightarrow> claimed (g x)" for x
    using g(6) [of x] by (auto simp: flow_toks_def counted_def claimed_def)
  have "posted_toks (te_env ?e) + accept_toks ?e = posted_toks (te_env eng) + accept_toks eng"
    by (cases "te_pending_accepts eng")
       (simp_all add: with_flow_eq notify_accept_def Let_def accept_toks_def posted_toks_def)
  moreover have "(\<Sum>j<te_next_id eng. flow_toks (te_store ?e j)) = (\<Sum>j<te_next_id eng. flow_toks (te_store eng j))"
    unfolding g(1) by (rule sum.cong) (auto simp: fl)
  ultimately show "eng_toks ?e = eng_toks eng" unfolding eng_toks_def g(2) by (simp add: ac_simps)
  have st: "fl_state (te_store ?e j) = fl_state (te_store eng j)" "fl_key (te_store ?e j) = fl_key (te_store eng j)"
    "fl_id (te_store ?e j) = fl_id (te_store eng j)" "counted (te_store ?e j) = counted (te_store eng j)" for j
    using g(6) by (simp_all add: g(1) fl)
  have pd: "distinct (te_pending_flows ?e)" "\<And>j. j \<in> set (te_pending_flows ?e) \<longleftrightarrow> j < te_next_id eng \<and> pending_accept (te_store ?e j)"
    using inv np i g(7) by (auto simp: te_inv_def g(1) split: if_splits)
  have q: "ops_ok (te_store ?e j) \<and> claimed (te_store ?e j)" if "j < te_next_id eng" for j
    using inv that f(1) fl(3) g(6) by (auto simp: te_inv_def g(1) ops_ok_def)
  have ho: "handover b eng" using inv by (simp add: te_inv_def)
  have "handover b ?e"
  proof (cases "te_pending_accepts eng")
    case Nil
    hence "handed (te_env ?e) = handed (te_env eng)" "te_next_id ?e = te_next_id eng" "accepted (te_store ?e j) = accepted (te_store eng j)"
      "j \<noteq> i \<Longrightarrow> pending_accept (te_store ?e j) = pending_accept (te_store eng j)" for j
      by (auto simp: with_flow_eq notify_accept_def Let_def)
    thus ?thesis using ho f(3) unfolding handover_def by metis
  next
    case (Cons h hs)
    show ?thesis
      by (rule handover_give [OF ho i f(3)])
        (use Cons id f(2) in \<open>auto simp: with_flow_eq notify_accept_def Let_def\<close>)
  qed
  thus "te_inv b ?e" using inv pd q unfolding te_inv_def g(2-5) st by blast
qed

lemma with_flow_comp:
  "with_flow i (\<lambda>s. notify_accept (h s)) eng = with_flow i notify_accept (with_flow i h eng)"
  by (cases "te_pending_accepts (ce (h (checkout i eng)))") (simp_all add: with_flow_eq notify_accept_def Let_def post_ctx_def on_env_def on_eng_def upf_def)

lemma create_flow_inv:
  assumes inv: "te_inv b eng" and new: "map_of (te_flows eng) k = None" "length (te_flows eng) < max_tcp_flows (te_cfg eng)"
  shows "te_inv b (create_flow w k th p h eng)" "eng_toks (create_flow w k th p h eng) = eng_toks eng"
proof -
  let ?i = "te_next_id eng" and ?f = "syn_flow w k th p h eng"
  define e1 where "e1 = add_flow k ?f eng"
  define e2 where "e2 = with_flow ?i (syn_data (drop h p)) e1"
  have e1: "te_inv b e1" "eng_toks e1 = eng_toks eng" "?i < te_next_id e1" "te_store e1 ?i = ?f"
    using add_flow_inv [OF inv, of ?f k] new by (simp_all add: e1_def) (simp_all add: add_flow_def)
  note C = with_flow_call [where g = "syn_data (drop h p)", OF e1(1,3) syn_data_step, folded e2_def]
  have st: "fl_state (te_store e2 ?i) = SYN_RCVD" "\<not> pending_accept (te_store e2 ?i)" "\<not> accepted (te_store e2 ?i)"
    by (simp_all add: e2_def with_flow_eq syn_data_frame e1(4))
  have eq: "create_flow w k th p h eng = with_flow ?i notify_accept e2"
    unfolding create_flow_def Let_def e2_def e1_def add_flow_def [symmetric] by (rule with_flow_comp)
  show "te_inv b (create_flow w k th p h eng)" "eng_toks (create_flow w k th p h eng) = eng_toks eng"
    using notify_accept_inv [of b e2 ?i] C e1 st unfolding eq by simp_all
qed

section \<open>Events\<close>

lemma env_only:
  assumes "tcp_connections (e_stats e) = tcp_connections (e_stats (te_env eng))" "posted_toks e = posted_toks (te_env eng)"
    "handed e = handed (te_env eng)"
  shows "te_inv b (eng\<lparr>te_env := e\<rparr>) = te_inv b eng" "eng_toks (eng\<lparr>te_env := e\<rparr>) = eng_toks eng"
  using assms by (simp_all add: te_inv_def handover_def eng_toks_def accept_toks_def)

lemma eng_drop_inv [simp]: "te_inv b (eng_drop eng) = te_inv b eng" "eng_toks (eng_drop eng) = eng_toks eng"
  using env_only [of "add_rx_dropped (te_env eng)" eng] by (simp_all add: eng_drop_def add_rx_dropped_def posted_toks_def)

lemma te_inv_flow:
  assumes "te_inv b eng" "map_of (te_flows eng) k = Some i"
  shows "i < te_next_id eng" "fl_key (te_store eng i) = k" "fl_state (te_store eng i) \<noteq> CLOSED"
  using assms map_of_SomeD [OF assms(2)] unfolding te_inv_def by blast+

lemma te_inv_store: "te_inv b eng \<Longrightarrow> i < te_next_id eng \<Longrightarrow> claimed (te_store eng i)"
  by (simp add: te_inv_def)

lemma handle_segment_inv:
  assumes "te_inv b eng" "i < te_next_id eng"
  shows "te_inv b (with_flow i (handle_segment th d) eng)" "eng_toks (with_flow i (handle_segment th d) eng) = eng_toks eng"
  using with_flow_call [OF assms, of "{#}" "handle_segment th d"] handle_segment_step te_inv_store [OF assms] by simp_all

lemma close_flow_inv:
  assumes "te_inv b eng" "i < te_next_id eng"
  shows "te_inv b (with_flow i (close_flow err) eng)" "eng_toks (with_flow i (close_flow err) eng) = eng_toks eng"
  using with_flow_call [OF assms, of "{#}" "close_flow err"] close_flow_step by simp_all

lemma close_flow_closed [simp]: "fl_state (cf (close_flow err s)) = CLOSED"
  by (simp add: close_flow_def Let_def erase_flow_def)

lemma close_flow_erases:
  "fl_state (te_store eng i) \<noteq> CLOSED \<Longrightarrow>
     te_flows (with_flow i (close_flow err) eng) = filter (\<lambda>p. fst p \<noteq> fl_key (te_store eng i)) (te_flows eng)"
  using close_flow_step [of "checkout i eng" err] by (simp add: with_flow_eq flow_call_def closes_def)

lemma on_packet_inv:
  assumes inv: "te_inv b eng"
  shows "te_inv b (on_packet w ip p eng) \<and> eng_toks (on_packet w ip p eng) = eng_toks eng"
proof -
  define th where "th = load_tcp_header p"
  define key where "key = make_five_tuple (pi_src_ip ip) (pi_dst_ip ip) (th_src_port th) (th_dst_port th) ip_protocol_tcp (pi_family ip)"
  define syn where "syn = (has_flag (th_flags th) TCP_SYN \<and> \<not> has_flag (th_flags th) TCP_ACK)"
  define reuse where "reuse = (case map_of (te_flows eng) key of Some i \<Rightarrow> fl_state (te_store eng i) = TIME_WAIT \<and> syn | None \<Rightarrow> False)"
  define e1 where "e1 = (if reuse then with_flow (the (map_of (te_flows eng) key)) (close_flow EC_ok) eng else eng)"
  have u: "on_packet w ip p eng = (if length p < sizeof_tcp_header then eng_drop eng
     else if tcp_udp_checksum (unat (pi_family ip)) (pi_src_ip ip) (pi_dst_ip ip) ip_protocol_tcp p \<noteq> 0 then eng_drop eng
     else if th_header_len th < sizeof_tcp_header \<or> th_header_len th > length p then eng_drop eng
     else case (if reuse then None else map_of (te_flows eng) key) of
          Some i \<Rightarrow> with_flow i (handle_segment th (drop (th_header_len th) p)) e1
        | None \<Rightarrow> if \<not> syn then e1 else if length (te_flows e1) \<ge> max_tcp_flows (te_cfg e1) then eng_drop e1
                  else create_flow w key th p (th_header_len th) e1)"
    unfolding on_packet_def Let_def th_def key_def syn_def reuse_def e1_def by (rule refl)
  have e1: "te_inv b e1 \<and> eng_toks e1 = eng_toks eng \<and> (reuse \<longrightarrow> map_of (te_flows e1) key = None)"
  proof (cases reuse)
    case True
    then obtain i where i: "map_of (te_flows eng) key = Some i" by (auto simp: reuse_def split: option.splits)
    note F = te_inv_flow [OF inv i]
    have "e1 = with_flow i (close_flow EC_ok) eng" using True i by (simp add: e1_def)
    thus ?thesis using close_flow_inv [OF inv F(1)] close_flow_erases [OF F(3)] F(2) by (auto simp: map_of_eq_None_iff)
  qed (simp add: e1_def inv)
  have new: "te_inv b (create_flow w key th p h e1) \<and> eng_toks (create_flow w key th p h e1) = eng_toks eng"
    if "(if reuse then None else map_of (te_flows eng) key) = None" "length (te_flows e1) < max_tcp_flows (te_cfg e1)" for h
    using create_flow_inv [of b e1 key] e1 that by (auto simp: e1_def split: if_splits)
  have old: "te_inv b (with_flow i (handle_segment th d) e1) \<and> eng_toks (with_flow i (handle_segment th d) e1) = eng_toks eng"
    if "(if reuse then None else map_of (te_flows eng) key) = Some i" for i d
    using handle_segment_inv [OF inv] te_inv_flow [OF inv, of key i] that by (auto simp: e1_def split: if_splits)
  show ?thesis unfolding u using inv e1 new old by (auto split: option.splits)
qed

lemma fold_flows_inv:
  assumes "te_inv b eng" "\<forall>i\<in>set is. i < te_next_id eng" "\<And>s. flow_step s (g s)"
  shows "te_inv b (fold (\<lambda>i. with_flow i g) is eng) \<and> eng_toks (fold (\<lambda>i. with_flow i g) is eng) = eng_toks eng \<and>
    te_next_id (fold (\<lambda>i. with_flow i g) is eng) = te_next_id eng"
  using assms
proof (induction "is" arbitrary: eng)
  case (Cons i xs)
  note C = with_flow_call [OF Cons.prems(1), of i "{#}" g]
  show ?case using Cons.IH [of "with_flow i g eng"] Cons.prems C by simp
qed simp

lemma sweep_flow_step: "flow_step s (sweep_flow s)"
  by (simp add: sweep_flow_def abort_flow_step close_flow_step)

lemma flows_ids: "te_inv b eng \<Longrightarrow> \<forall>i\<in>snd ` set (te_flows eng). i < te_next_id eng"
  unfolding te_inv_def by auto

lemma sweep_field [simp]: "te_inv b (eng\<lparr>te_sweep := x\<rparr>) = te_inv b eng" "eng_toks (eng\<lparr>te_sweep := x\<rparr>) = eng_toks eng"
  by (simp_all add: te_inv_def handover_def eng_toks_def accept_toks_def)

lemma on_sweep_inv: "te_inv b eng \<Longrightarrow> te_inv b (on_sweep ec eng) \<and> eng_toks (on_sweep ec eng) = eng_toks eng"
proof -
  assume inv: "te_inv b eng"
  let ?v = "filter (\<lambda>i. sweep_victim (te_cfg eng) (e_now (te_env eng)) (te_store eng i)) (map snd (te_flows eng))"
  have "\<forall>i\<in>set ?v. i < te_next_id eng" using flows_ids [OF inv] by auto
  from fold_flows_inv [OF inv this, of sweep_flow] sweep_flow_step inv show ?thesis
    by (simp add: on_sweep_def start_sweep_def Let_def)
qed

lemma eng_post_accept: "flow_of c = [] \<Longrightarrow> te_inv b (eng_post c eng) = te_inv b eng" "eng_toks (eng_post c eng) = eng_toks eng + tok_of c"
  by (simp_all add: eng_post_def post_completion_on_def te_inv_def handover_def eng_toks_def accept_toks_def posted_toks_def ac_simps)

lemma cancel_accepts_inv:
  "te_inv b (cancel_accepts eng) = te_inv b eng" "eng_toks (cancel_accepts eng) = eng_toks eng"
  "te_pending_accepts (cancel_accepts eng) = []"
proof -
  have f: "te_inv b (fold (\<lambda>h. eng_post (Done_tcp_accept h ec None)) hs e) = te_inv b e \<and>
    eng_toks (fold (\<lambda>h. eng_post (Done_tcp_accept h ec None)) hs e) = eng_toks e + mset (map Tk_accept hs) \<and>
    te_pending_accepts (fold (\<lambda>h. eng_post (Done_tcp_accept h ec None)) hs e) = te_pending_accepts e" for hs e ec
    by (induction hs arbitrary: e) (simp_all add: eng_post_accept, simp add: eng_post_def)
  have i: "te_inv b (eng\<lparr>te_pending_accepts := []\<rparr>) = te_inv b eng" by (simp add: te_inv_def handover_def)
  have "eng_toks (eng\<lparr>te_pending_accepts := []\<rparr>) + mset (map Tk_accept (te_pending_accepts eng)) = eng_toks eng"
    by (simp add: eng_toks_def accept_toks_def)
  thus "te_inv b (cancel_accepts eng) = te_inv b eng" "eng_toks (cancel_accepts eng) = eng_toks eng" "te_pending_accepts (cancel_accepts eng) = []"
    using f [of EC_operation_aborted "te_pending_accepts eng" "eng\<lparr>te_pending_accepts := []\<rparr>"] i by (simp_all add: cancel_accepts_def)
qed

lemma fold_close:
  assumes "te_inv b eng" "\<forall>i\<in>set is. i < te_next_id eng"
  shows "set (te_flows (fold (\<lambda>i. with_flow i (close_flow err)) is eng)) \<subseteq> {p \<in> set (te_flows eng). snd p \<notin> set is}"
  using assms
proof (induction "is" arbitrary: eng)
  case (Cons i xs)
  let ?e = "with_flow i (close_flow err) eng"
  note C = with_flow_call [OF Cons.prems(1), of i "{#}" "close_flow err", OF _ close_flow_step]
  have "set (te_flows ?e) \<subseteq> {p \<in> set (te_flows eng). snd p \<noteq> i}"
  proof (cases "fl_state (te_store eng i) = CLOSED")
    case True
    hence "te_flows ?e = te_flows eng" by (simp add: with_flow_eq close_flow_def)
    thus ?thesis using Cons.prems(1) True unfolding te_inv_def by auto
  next
    case False
    have "fl_key (te_store eng j) = k" if "(k, j) \<in> set (te_flows eng)" for k j using Cons.prems(1) that unfolding te_inv_def by blast
    thus ?thesis using close_flow_erases [OF False, of err] by auto
  qed
  thus ?case using Cons.IH [of ?e] Cons.prems C by auto
qed simp

lemma close_all_inv:
  assumes inv: "te_inv b eng"
  shows "te_inv b (close_all eng)" "eng_toks (close_all eng) = eng_toks eng" "te_flows (close_all eng) = []"
    "te_pending_flows (close_all eng) = []" "te_pending_accepts (close_all eng) = []"
proof -
  let ?is = "map snd (te_flows eng)"
  define e1 where "e1 = fold (\<lambda>i. with_flow i (close_flow EC_operation_aborted)) ?is (eng\<lparr>te_sweep := None\<rparr>)"
  have ids: "\<forall>i\<in>set ?is. i < te_next_id (eng\<lparr>te_sweep := None\<rparr>)" using flows_ids [OF inv] by auto
  have i0: "te_inv b (eng\<lparr>te_sweep := None\<rparr>)" using inv by simp
  have e1: "te_inv b e1" "eng_toks e1 = eng_toks eng" using fold_flows_inv [OF i0 ids close_flow_step] by (simp_all add: e1_def)
  have "{p \<in> set (te_flows eng). snd p \<notin> set ?is} = {}" by auto
  moreover have "set (te_flows e1) \<subseteq> {p \<in> set (te_flows eng). snd p \<notin> set ?is}"
    using fold_close [OF i0 ids, of EC_operation_aborted] by (simp add: e1_def)
  ultimately have fl: "te_flows e1 = []" by (metis set_empty subset_empty)
  hence pe: "te_pending_flows e1 = []" using e1(1)
  proof -
    have "\<not> pending_accept (te_store e1 i)" if "i < te_next_id e1" for i
    proof -
      have "fl_state (te_store e1 i) = CLOSED" using e1(1) fl that unfolding te_inv_def by force
      moreover have "ops_ok (te_store e1 i)" using e1(1) that by (simp add: te_inv_def)
      ultimately show ?thesis by (simp add: ops_ok_def)
    qed
    moreover have "i < te_next_id e1 \<and> pending_accept (te_store e1 i)" if "i \<in> set (te_pending_flows e1)" for i
      using e1(1) that by (simp add: te_inv_def)
    ultimately show ?thesis by (meson last_in_set)
  qed
  have "e1\<lparr>te_pending_flows := []\<rparr> = e1" using pe by (cases e1) simp
  hence eq: "close_all eng = cancel_accepts e1" by (simp add: close_all_def Let_def flip: e1_def)
  have "te_flows (cancel_accepts e) = te_flows e \<and> te_pending_flows (cancel_accepts e) = te_pending_flows e" for e
  proof -
    have "te_flows (fold (\<lambda>h. eng_post (Done_tcp_accept h ec None)) hs e) = te_flows e \<and>
      te_pending_flows (fold (\<lambda>h. eng_post (Done_tcp_accept h ec None)) hs e) = te_pending_flows e" for hs ec e
      by (induction hs arbitrary: e) (simp_all add: eng_post_def)
    thus ?thesis by (simp add: cancel_accepts_def)
  qed
  thus "te_inv b (close_all eng)" "eng_toks (close_all eng) = eng_toks eng" "te_flows (close_all eng) = []"
    "te_pending_flows (close_all eng) = []" "te_pending_accepts (close_all eng) = []"
    using cancel_accepts_inv [where eng = e1] e1 fl pe by (simp_all add: eq)
qed

text \<open>A connection leaves the queue and is handed to the accept in one step.\<close>

definition give :: "nat \<Rightarrow> nat option \<Rightarrow> tcp_engine \<Rightarrow> tcp_engine" where
  "give h found eng = (case found of Some i \<Rightarrow> eng_post (Done_tcp_accept h EC_ok (Some i)) eng | None \<Rightarrow> eng)"

lemma take_pending_inv:
  assumes "te_inv b eng" "take_pending (te_pending_flows eng) (te_store eng) = (found, rest, st)"
  shows "te_inv b (give h found (eng\<lparr>te_pending_flows := rest, te_store := st\<rparr>)) \<and>
    eng_toks (eng\<lparr>te_pending_flows := rest, te_store := st\<rparr>) = eng_toks eng"
proof (cases "te_pending_flows eng")
  case Nil
  hence "found = None" "eng\<lparr>te_pending_flows := rest, te_store := st\<rparr> = eng" using assms(2) by (cases eng; simp)+
  thus ?thesis using assms(1) by (simp add: give_def)
next
  case (Cons i xs)
  have i: "i < te_next_id eng" "pending_accept (te_store eng i)" "i \<notin> set xs" "ops_ok (te_store eng i)"
    using assms(1) Cons unfolding te_inv_def by (auto dest!: spec [of _ i])
  hence nc: "fl_state (te_store eng i) \<noteq> CLOSED" by (auto simp: ops_ok_def)
  define x where "x = (te_store eng i)\<lparr>pending_accept := False, accepted := True\<rparr>"
  have r: "found = Some i" "rest = xs" "st = (te_store eng)(i := x)" using assms(2) nc Cons by (auto simp: x_def)
  have "flow_toks x = flow_toks (te_store eng i)" by (simp add: x_def flow_toks_def)
  hence t: "(\<Sum>j<te_next_id eng. flow_toks (st j)) = (\<Sum>j<te_next_id eng. flow_toks (te_store eng j))"
    by (intro sum.cong) (auto simp: r)
  have c: "counted (st j) = counted (te_store eng j)" "fl_state (st j) = fl_state (te_store eng j)" "fl_key (st j) = fl_key (te_store eng j)"
    "fl_id (st j) = fl_id (te_store eng j)" "ops_ok (te_store eng j) \<Longrightarrow> ops_ok (st j)" "claimed (te_store eng j) \<Longrightarrow> claimed (st j)"
    "pending_accept (st j) \<longleftrightarrow> j \<noteq> i \<and> pending_accept (te_store eng j)" "accepted (st j) \<longleftrightarrow> j = i \<or> accepted (te_store eng j)" for j
    by (auto simp: r x_def counted_def ops_ok_def claimed_def)
  have p: "j \<in> set xs \<longleftrightarrow> j \<noteq> i \<and> j \<in> set (te_pending_flows eng)" for j using i(3) Cons by auto
  have ho: "handover b eng" "\<not> accepted (te_store eng i)" using assms(1) i(1,2) by (auto simp: te_inv_def handover_def)
  have "te_inv b (give h found (eng\<lparr>te_pending_flows := rest, te_store := st\<rparr>))"
  proof -
    have "distinct xs" using assms(1) Cons by (simp add: te_inv_def)
    moreover have "\<forall>j<te_next_id eng. fl_id (st j) = j \<and> ops_ok (st j) \<and> claimed (st j)" using assms(1) c(4-6) by (simp add: te_inv_def)
    moreover have "\<forall>j. j \<in> set xs \<longleftrightarrow> j < te_next_id eng \<and> pending_accept (st j)" using assms(1) by (simp add: te_inv_def p c(7)) blast
    moreover have "handover b (give h found (eng\<lparr>te_pending_flows := rest, te_store := st\<rparr>))"
      by (rule handover_give [OF ho(1) i(1) ho(2)]) (simp_all add: give_def r(1) eng_post_def post_completion_on_def c(7,8))
    ultimately show ?thesis using assms(1) by (simp add: te_inv_def c(1-3) r(1,2) give_def eng_post_def post_completion_on_def)
  qed
  thus ?thesis using t by (simp add: eng_toks_def accept_toks_def)
qed

lemma async_accept_inv:
  assumes "te_inv b eng" shows "te_inv b (async_accept h eng) \<and> eng_toks (async_accept h eng) = eng_toks eng + {#Tk_accept h#}"
proof -
  obtain found rest st where t: "take_pending (te_pending_flows eng) (te_store eng) = (found, rest, st)" by (metis prod_cases3)
  define e where "e = eng\<lparr>te_pending_flows := rest, te_store := st\<rparr>"
  have e: "te_inv b (give h found e)" "eng_toks e = eng_toks eng" using take_pending_inv [OF assms t] by (simp_all add: e_def)
  have p: "te_pending_accepts eng = te_pending_accepts e" by (simp add: e_def)
  have "te_inv b (e\<lparr>te_pending_accepts := te_pending_accepts e @ [h]\<rparr>) = te_inv b e"
    "eng_toks (e\<lparr>te_pending_accepts := te_pending_accepts e @ [h]\<rparr>) = eng_toks e + {#Tk_accept h#}"
    by (simp_all add: te_inv_def handover_def eng_toks_def accept_toks_def)
  thus ?thesis unfolding async_accept_def t Let_def prod.case e_def [symmetric] p
    using e by (simp add: give_def eng_post_accept(2) split: option.splits)
qed

text \<open>What reaches the engine on its strand. The application names flows that it has been given.\<close>

datatype tcp_event =
    Ev_packet u32 ip_packet_info "byte list"
  | Ev_time int
  | Ev_sweep error_code
  | Ev_ack_timer nat
  | Ev_write_timer nat
  | Ev_write_device nat error_code
  | Ev_write_run nat
  | Ev_device_done error_code nat nat
  | Ev_accept nat
  | Ev_read "nat option" "nat list" nat nat
  | Ev_write "nat option" "byte list list" nat nat
  | Ev_shutdown_send "nat option"
  | Ev_shutdown_receive "nat option"
  | Ev_close "nat option"
  | Ev_reset "nat option"
  | Ev_approve "nat option"
  | Ev_reject "nat option"
  | Ev_cancel_accepts
  | Ev_close_all

definition set_env :: "(env \<Rightarrow> env) \<Rightarrow> tcp_engine \<Rightarrow> tcp_engine" where
  "set_env g eng = eng\<lparr>te_env := g (te_env eng)\<rparr>"

fun tcp_step :: "tcp_event \<Rightarrow> tcp_engine \<Rightarrow> tcp_engine" where
  "tcp_step (Ev_packet w ip p) eng = on_packet w ip p eng"
| "tcp_step (Ev_time t) eng = set_env (\<lambda>e. e\<lparr>e_now := max t (e_now e)\<rparr>) eng"
| "tcp_step (Ev_sweep ec) eng = on_sweep ec eng"
| "tcp_step (Ev_ack_timer i) eng = with_flow i on_ack_timer eng"
| "tcp_step (Ev_write_timer i) eng = with_flow i coro_timer eng"
| "tcp_step (Ev_write_device i ec) eng = with_flow i (coro_device ec) eng"
| "tcp_step (Ev_write_run i) eng = with_flow i write_loop_step eng"
| "tcp_step (Ev_device_done ec n q) eng = set_env (on_write_done ec n q) eng"
| "tcp_step (Ev_accept h) eng = async_accept h eng"
| "tcp_step (Ev_read f bs n h) eng = tcp_flow_start_read f bs n h eng"
| "tcp_step (Ev_write f bs n h) eng = tcp_flow_start_write f bs n h eng"
| "tcp_step (Ev_shutdown_send f) eng = tcp_flow_shutdown_send f eng"
| "tcp_step (Ev_shutdown_receive f) eng = tcp_flow_shutdown_receive f eng"
| "tcp_step (Ev_close f) eng = tcp_flow_close f eng"
| "tcp_step (Ev_reset f) eng = tcp_flow_reset f eng"
| "tcp_step (Ev_approve f) eng = tcp_flow_accept f eng"
| "tcp_step (Ev_reject f) eng = tcp_flow_reject f eng"
| "tcp_step Ev_cancel_accepts eng = cancel_accepts eng"
| "tcp_step Ev_close_all eng = close_all eng"

definition known :: "nat \<Rightarrow> tcp_engine \<Rightarrow> bool" where
  "known i eng \<longleftrightarrow> i < te_next_id eng"

definition handed_out :: "nat option \<Rightarrow> tcp_engine \<Rightarrow> bool" where
  "handed_out f eng = (case f of None \<Rightarrow> True | Some i \<Rightarrow> known i eng \<and> accepted (te_store eng i))"

fun enabled :: "tcp_event \<Rightarrow> tcp_engine \<Rightarrow> bool" where
  "enabled (Ev_ack_timer i) eng = known i eng"
| "enabled (Ev_write_timer i) eng = known i eng"
| "enabled (Ev_write_device i ec) eng = known i eng"
| "enabled (Ev_write_run i) eng = known i eng"
| "enabled (Ev_read f bs n h) eng = handed_out f eng"
| "enabled (Ev_write f bs n h) eng = (handed_out f eng \<and> n = length (concat bs))"
| "enabled (Ev_shutdown_send f) eng = handed_out f eng"
| "enabled (Ev_shutdown_receive f) eng = handed_out f eng"
| "enabled (Ev_close f) eng = handed_out f eng"
| "enabled (Ev_reset f) eng = handed_out f eng"
| "enabled (Ev_approve f) eng = handed_out f eng"
| "enabled (Ev_reject f) eng = handed_out f eng"
| "enabled _ eng = True"

fun submitted :: "tcp_event \<Rightarrow> tok multiset" where
  "submitted (Ev_accept h) = {#Tk_accept h#}"
| "submitted (Ev_read f bs n h) = {#Tk_read h#}"
| "submitted (Ev_write f bs n h) = {#Tk_write h#}"
| "submitted _ = {#}"

text \<open>\<open>tcp_run cfg e subs eng\<close>: from a new engine, \<open>eng\<close> is reached and the handlers \<open>subs\<close> were submitted on the way.\<close>

inductive tcp_run :: "tun_config \<Rightarrow> env \<Rightarrow> tok multiset \<Rightarrow> tcp_engine \<Rightarrow> bool" for cfg e where
  start: "tcp_run cfg e {#} (tcp_engine_new cfg e)"
| event: "tcp_run cfg e subs eng \<Longrightarrow> enabled ev eng \<Longrightarrow> tcp_run cfg e (subs + submitted ev) (tcp_step ev eng)"

inductive_cases tcp_runE: "tcp_run cfg e subs eng"

text \<open>Flow operations as events: the contract \<open>flow_call\<close> is all the engine needs of them.\<close>

lemma on_flow_inv:
  assumes "te_inv b eng" "handed_out f eng" "\<And>s. claimed (cf s) \<Longrightarrow> accepted (cf s) \<Longrightarrow> flow_step s (g s)"
  shows "te_inv b (on_flow g f eng) \<and> eng_toks (on_flow g f eng) = eng_toks eng"
proof (cases f)
  case (Some i)
  hence i: "i < te_next_id eng" "accepted (te_store eng i)" using assms(2) by (auto simp: handed_out_def known_def)
  have "flow_step (checkout i eng) (g (checkout i eng))" by (rule assms(3)) (use i te_inv_store [OF assms(1) i(1)] in simp_all)
  from with_flow_call [where g = g, OF assms(1) i(1) this] show ?thesis by (simp add: on_flow_def Some)
qed (simp add: on_flow_def assms(1))

lemma flow_event_inv:
  assumes "te_inv b eng" "known i eng" "\<And>s. flow_step s (g s)"
  shows "te_inv b (with_flow i g eng) \<and> eng_toks (with_flow i g eng) = eng_toks eng"
  using with_flow_call [OF assms(1), of i "{#}" g] assms by (simp add: known_def)

lemma io_entry_inv:
  assumes inv: "te_inv b eng" and h: "handed_out f eng"
  shows "te_inv b (tcp_flow_start_read f bs n x eng) \<and> eng_toks (tcp_flow_start_read f bs n x eng) = eng_toks eng + {#Tk_read x#}"
    "n = length (concat ds) \<Longrightarrow> te_inv b (tcp_flow_start_write f ds n x eng) \<and> eng_toks (tcp_flow_start_write f ds n x eng) = eng_toks eng + {#Tk_write x#}"
proof -
  have "i < te_next_id eng \<and> accepted (te_store eng i)" if "f = Some i" for i using h that by (simp add: handed_out_def known_def)
  note C = this with_flow_call [OF inv]
  show "te_inv b (tcp_flow_start_read f bs n x eng) \<and> eng_toks (tcp_flow_start_read f bs n x eng) = eng_toks eng + {#Tk_read x#}"
    by (cases f) (use inv C read_entry_call [of "checkout (the f) eng" x bs n] in \<open>auto simp: tcp_flow_start_read_def eng_post_accept\<close>)
  show "te_inv b (tcp_flow_start_write f ds n x eng) \<and> eng_toks (tcp_flow_start_write f ds n x eng) = eng_toks eng + {#Tk_write x#}"
    if "n = length (concat ds)"
    by (cases f) (use that inv C write_entry_call [where s = "checkout (the f) eng" and h = x, OF _ that] in \<open>auto simp: tcp_flow_start_write_def eng_post_accept\<close>)
qed

lemma set_env_inv:
  assumes "te_inv b eng" "tcp_connections (e_stats (g (te_env eng))) = tcp_connections (e_stats (te_env eng))" "posted_toks (g (te_env eng)) = posted_toks (te_env eng)"
    "handed (g (te_env eng)) = handed (te_env eng)"
  shows "te_inv b (set_env g eng) \<and> eng_toks (set_env g eng) = eng_toks eng"
  using env_only [of "g (te_env eng)" eng] assms by (simp add: set_env_def)

lemma on_write_done_toks:
  "tcp_connections (e_stats (on_write_done ec n q e)) = tcp_connections (e_stats e)" "posted_toks (on_write_done ec n q e) = posted_toks e"
  "handed (on_write_done ec n q e) = handed e" "posts e (on_write_done ec n q e)"
proof -
  have pd: "posted_toks (post_dev h ec n e) = posted_toks e" for h ec n e
    by (simp add: post_dev_def post_completion_on_def posted_toks_def split: option.splits)
  have pu: "e_posted (pump q e) = e_posted e" "e_stats (pump q e) = e_stats e" for q e
    by (simp_all add: pump_def start_write_def set_queued_total_def set_lane_def Let_def split: option.splits list.splits)
  have x: "posted_toks e = posted_toks e'" if "e_posted e = e_posted e'" for e e' using that by (simp add: posted_toks_def)
  show "tcp_connections (e_stats (on_write_done ec n q e)) = tcp_connections (e_stats e)"
    by (simp add: on_write_done_def Let_def pu start_write_def set_lane_def recycle_def post_dev_def post_completion_on_def
        add_tx_dropped_def add_tx_packets_def split: option.splits)
  show "posted_toks (on_write_done ec n q e) = posted_toks e" "handed (on_write_done ec n q e) = handed e" "posts e (on_write_done ec n q e)"
    by (simp_all add: on_write_done_def Let_def x [OF pu(1)] posted_toks_def pu start_write_def set_lane_def recycle_def post_dev_def
        post_completion_on_def add_tx_dropped_def add_tx_packets_def split: option.splits)
qed

lemma tcp_step_inv:
  assumes inv: "te_inv b eng" and en: "enabled ev eng"
  shows "te_inv b (tcp_step ev eng) \<and> eng_toks (tcp_step ev eng) = eng_toks eng + submitted ev"
proof (cases ev)
  case (Ev_packet w ip p)
  thus ?thesis using on_packet_inv [OF inv] by simp
next
  case (Ev_time t)
  thus ?thesis using set_env_inv [OF inv, of "\<lambda>e. e\<lparr>e_now := max t (e_now e)\<rparr>"] by (simp add: posted_toks_def)
next
  case (Ev_device_done ec n q)
  thus ?thesis using set_env_inv [OF inv, of "on_write_done ec n q"] on_write_done_toks by simp
next
  case (Ev_shutdown_send f)
  thus ?thesis using on_flow_inv [OF inv, of f shutdown_send_entry] shutdown_send_step en by (simp add: tcp_flow_shutdown_send_def)
next
  case (Ev_shutdown_receive f)
  thus ?thesis using on_flow_inv [OF inv, of f shutdown_receive_entry] shutdown_receive_step en by (simp add: tcp_flow_shutdown_receive_def)
next
  case (Ev_close f)
  thus ?thesis using on_flow_inv [OF inv, of f close_entry] close_entry_step en by (simp add: tcp_flow_close_def)
next
  case (Ev_reset f)
  thus ?thesis using on_flow_inv [OF inv, of f reset_entry] reset_entry_step en by (simp add: tcp_flow_reset_def)
next
  case (Ev_approve f)
  thus ?thesis using on_flow_inv [OF inv, of f accept_flow] accept_flow_step en by (simp add: tcp_flow_accept_def)
next
  case (Ev_reject f)
  thus ?thesis using on_flow_inv [OF inv, of f reject_flow] abort_flow_step en by (simp add: tcp_flow_reject_def reject_flow_def)
qed (use inv en on_sweep_inv flow_event_inv on_ack_timer_step coro_event_step write_loop_step_step async_accept_inv io_entry_inv
    cancel_accepts_inv close_all_inv in simp_all)

text \<open>Whatever was handed over before.\<close>

definition te_ok :: "tcp_engine \<Rightarrow> bool" where
  "te_ok eng \<longleftrightarrow> (\<exists>b. te_inv b eng)"

section \<open>States only advance\<close>

lemma with_flow_advances:
  "flow_call t (checkout i eng) (g (checkout i eng)) \<Longrightarrow> advances eng (with_flow i g eng)"
  by (auto simp: advances_def with_flow_eq flow_call_def)

lemma notify_accept_advances: "advances eng (with_flow i notify_accept eng)"
  by (cases "te_pending_accepts eng") (auto simp: advances_def with_flow_eq notify_accept_def Let_def)

lemma create_flow_advances: "advances eng (create_flow w k th p h eng)"
proof -
  let ?i = "te_next_id eng"
  define e1 where "e1 = add_flow k (syn_flow w k th p h eng) eng"
  have "create_flow w k th p h eng = with_flow ?i notify_accept (with_flow ?i (syn_data (drop h p)) e1)"
    unfolding create_flow_def Let_def e1_def add_flow_def [symmetric] by (rule with_flow_comp)
  moreover have "advances eng e1" by (simp add: e1_def add_flow_def advances_def)
  ultimately show ?thesis
    using notify_accept_advances with_flow_advances [of "{#}" ?i e1 "syn_data (drop h p)", OF syn_data_step] advances_trans by metis
qed

lemma on_packet_advances:
  assumes inv: "te_inv b eng" shows "advances eng (on_packet w ip p eng)"
proof -
  have d: "advances eng e \<Longrightarrow> advances eng (eng_drop e)" for e by (simp add: advances_def eng_drop_def add_rx_dropped_def)
  have c: "advances eng (with_flow i (close_flow EC_ok) eng)" for i by (rule with_flow_advances) (rule close_flow_step)
  have h: "advances eng (with_flow i (handle_segment th x) eng)" if "map_of (te_flows eng) k = Some i" for i th x k
    by (rule with_flow_advances, rule handle_segment_step) (use te_inv_store [OF inv te_inv_flow(1) [OF inv that]] in simp)
  show ?thesis unfolding on_packet_def Let_def
    using d c h create_flow_advances advances_trans [OF c create_flow_advances] by (auto split: option.splits if_splits)
qed

lemma fold_flows_advances: "(\<And>s. flow_step s (g s)) \<Longrightarrow> advances eng (fold (\<lambda>i. with_flow i g) is eng)"
proof (induction "is" arbitrary: eng)
  case (Cons i xs)
  thus ?case using advances_trans [OF with_flow_advances [of "{#}" i eng g]] by simp
qed simp

lemma take_pending_states: "take_pending is st = (found, rest, st') \<Longrightarrow> fl_state (st' j) = fl_state (st j)"
  by (induction "is" st arbitrary: found rest st' rule: take_pending.induct) (auto simp: Let_def split: if_splits)

lemma accept_advances: "advances eng (async_accept h eng)" "advances eng (cancel_accepts eng)"
proof -
  show "advances eng (async_accept h eng)"
    using take_pending_states by (auto simp: advances_def async_accept_def Let_def eng_post_def post_completion_on_def split: prod.splits option.splits)
  have "te_next_id (fold (\<lambda>h. eng_post (Done_tcp_accept h ec None)) hs e) = te_next_id e \<and>
      te_store (fold (\<lambda>h. eng_post (Done_tcp_accept h ec None)) hs e) = te_store e \<and>
      posts (te_env e) (te_env (fold (\<lambda>h. eng_post (Done_tcp_accept h ec None)) hs e))" for ec hs e
  proof (induction hs arbitrary: e)
    case (Cons h hs)
    have "posts (te_env e) (te_env (eng_post (Done_tcp_accept h ec None) e))" by (simp add: eng_post_def post_completion_on_def)
    thus ?case using Cons.IH [of "eng_post (Done_tcp_accept h ec None) e"] prefix_order.trans by (simp add: eng_post_def) blast
  qed simp
  note f = this [of EC_operation_aborted "te_pending_accepts eng" "eng\<lparr>te_pending_accepts := []\<rparr>"]
  thus "advances eng (cancel_accepts eng)" using f by (intro advances_same) (simp_all add: cancel_accepts_def)
qed

lemma tcp_step_advances:
  assumes inv: "te_inv b eng" and en: "enabled ev eng" shows "advances eng (tcp_step ev eng)"
proof -
  have io: "advances eng (tcp_flow_start_read f bs n h eng)"
    "m = length (concat ds) \<Longrightarrow> advances eng (tcp_flow_start_write f ds m h eng)" if "handed_out f eng" for f bs ds n m h
    using that with_flow_advances [of "{#Tk_read h#}" "the f" eng "read_entry bs n h", OF read_entry_call]
      with_flow_advances [of "{#Tk_write h#}" "the f" eng "write_entry ds m h", OF write_entry_call]
    by (auto simp: tcp_flow_start_read_def tcp_flow_start_write_def handed_out_def eng_post_def post_completion_on_def advances_def split: option.splits)
  have fl: "advances eng (on_flow g f eng)" if "handed_out f eng" "\<And>s. claimed (cf s) \<Longrightarrow> accepted (cf s) \<Longrightarrow> flow_step s (g s)" for g f
  proof (cases f)
    case (Some i)
    have "flow_step (checkout i eng) (g (checkout i eng))"
      by (rule that(2)) (use that(1) te_inv_store [OF inv] Some in \<open>auto simp: handed_out_def known_def\<close>)
    thus ?thesis using with_flow_advances [of "{#}" i eng g] Some by (simp add: on_flow_def)
  qed (simp add: on_flow_def)
  have ca: "advances eng (close_all eng)"
  proof -
    define e1 where "e1 = fold (\<lambda>i. with_flow i (close_flow EC_operation_aborted)) (map snd (te_flows eng)) (eng\<lparr>te_sweep := None\<rparr>)"
    have "advances eng (eng\<lparr>te_sweep := None\<rparr>)" by (simp add: advances_same)
    moreover have "advances (eng\<lparr>te_sweep := None\<rparr>) e1" unfolding e1_def by (rule fold_flows_advances) (rule close_flow_step)
    moreover have "advances e1 (e1\<lparr>te_pending_flows := []\<rparr>)" by (simp add: advances_same)
    ultimately have "advances eng (e1\<lparr>te_pending_flows := []\<rparr>)" using advances_trans by blast
    moreover have "close_all eng = cancel_accepts (e1\<lparr>te_pending_flows := []\<rparr>)" by (simp add: close_all_def Let_def e1_def)
    ultimately show ?thesis using advances_trans [OF _ accept_advances(2)] by simp
  qed
  have sw: "advances eng (on_sweep ec eng)" for ec
    using advances_trans [OF fold_flows_advances [OF sweep_flow_step] advances_same] by (simp add: on_sweep_def start_sweep_def Let_def)
  have ev: "advances eng (with_flow i g eng)" if "\<And>s. flow_step s (g s)" for i g by (rule with_flow_advances) (rule that)
  have se: "advances eng (set_env g eng)" if "posts (te_env eng) (g (te_env eng))" for g using that by (simp add: advances_def set_env_def)
  show ?thesis using en
    by (cases ev) (simp_all add: on_packet_advances [OF inv] se sw ev io ca on_write_done_toks(4) accept_advances on_ack_timer_step coro_event_step write_loop_step_step fl
        tcp_flow_shutdown_send_def tcp_flow_shutdown_receive_def tcp_flow_close_def tcp_flow_reset_def tcp_flow_accept_def tcp_flow_reject_def
        reject_flow_def shutdown_send_step shutdown_receive_step close_entry_step reset_entry_step accept_flow_step abort_flow_step)
qed

section \<open>The accept queue\<close>

text \<open>
  The accept queue is complete: a flow that is neither closed nor handed to the application waits in it
  (except the one under construction, in \<open>A\<close>), and no flow waits while an accept waits.
\<close>

definition queue_ok :: "nat set \<Rightarrow> tcp_engine \<Rightarrow> bool" where
  "queue_ok A eng \<longleftrightarrow>
     (\<forall>i<te_next_id eng. i \<notin> A \<longrightarrow> fl_state (te_store eng i) \<noteq> CLOSED \<longrightarrow> \<not> accepted (te_store eng i) \<longrightarrow> pending_accept (te_store eng i)) \<and>
     (te_pending_flows eng = [] \<or> te_pending_accepts eng = [])"

lemma queue_ok_same:
  assumes "queue_ok A eng" "te_store eng' = te_store eng" "te_next_id eng' = te_next_id eng"
    "te_pending_flows eng' = te_pending_flows eng" "te_pending_accepts eng' = te_pending_accepts eng"
  shows "queue_ok A eng'"
  using assms by (simp add: queue_ok_def)

lemma queue_ok_with_flow:
  assumes q: "queue_ok A eng" and c: "flow_call t (checkout i eng) (g (checkout i eng))"
  shows "queue_ok A (with_flow i g eng)"
proof -
  let ?x = "te_store eng i" and ?y = "cf (g (checkout i eng))"
  note C = c [unfolded flow_call_def closes_def checkout_simps]
  have "fl_state ?y \<noteq> CLOSED \<Longrightarrow> fl_state ?x \<noteq> CLOSED" using C phase_closed(1) [of "fl_state ?y"] by auto
  hence "fl_state ?y \<noteq> CLOSED \<longrightarrow> \<not> accepted ?y \<longrightarrow> (fl_state ?x \<noteq> CLOSED \<and> \<not> accepted ?x \<and> pending_accept ?y = pending_accept ?x)"
    using C by auto
  moreover have "te_pending_flows eng = [] \<Longrightarrow> te_pending_flows (ce (g (checkout i eng))) = []" using C by simp
  ultimately show ?thesis using q C by (auto simp: queue_ok_def with_flow_eq)
qed

lemma queue_ok_create:
  assumes "queue_ok {} eng" shows "queue_ok {} (create_flow w k th p h eng)"
proof -
  let ?i = "te_next_id eng"
  define e2 where "e2 = with_flow ?i (syn_data (drop h p)) (add_flow k (syn_flow w k th p h eng) eng)"
  have "queue_ok {?i} (add_flow k (syn_flow w k th p h eng) eng)" using assms by (auto simp: queue_ok_def add_flow_def less_Suc_eq)
  hence "queue_ok {?i} e2" unfolding e2_def by (rule queue_ok_with_flow) (rule syn_data_step)
  hence "queue_ok {} (with_flow ?i notify_accept e2)"
    by (cases "te_pending_accepts e2") (auto simp: queue_ok_def with_flow_eq notify_accept_def Let_def)
  moreover have "create_flow w k th p h eng = with_flow ?i notify_accept e2"
    unfolding create_flow_def Let_def e2_def add_flow_def [symmetric] by (rule with_flow_comp)
  ultimately show ?thesis by simp
qed

lemma queue_ok_fold: "queue_ok A eng \<Longrightarrow> (\<And>s. flow_step s (g s)) \<Longrightarrow> queue_ok A (fold (\<lambda>i. with_flow i g) is eng)"
proof (induction "is" arbitrary: eng)
  case (Cons i xs)
  thus ?case using queue_ok_with_flow [of A eng "{#}" i g] by simp
qed simp

lemma queue_ok_packet:
  assumes inv: "te_inv b eng" and q: "queue_ok {} eng" shows "queue_ok {} (on_packet w ip p eng)"
proof -
  have d: "queue_ok {} e \<Longrightarrow> queue_ok {} (eng_drop e)" for e by (erule queue_ok_same) (simp_all add: eng_drop_def)
  have c: "queue_ok {} (with_flow i (close_flow EC_ok) eng)" for i by (rule queue_ok_with_flow [OF q]) (rule close_flow_step)
  have h: "queue_ok {} (with_flow i (handle_segment th x) eng)" if "map_of (te_flows eng) k = Some i" for i th x k
    by (rule queue_ok_with_flow [OF q], rule handle_segment_step) (use te_inv_store [OF inv te_inv_flow(1) [OF inv that]] in simp)
  show ?thesis unfolding on_packet_def Let_def
    using d c h q queue_ok_create by (auto split: option.splits if_splits)
qed

lemma queue_ok_accept:
  assumes inv: "te_inv b eng" and q: "queue_ok {} eng" shows "queue_ok {} (async_accept h eng)"
proof (cases "te_pending_flows eng")
  case Nil
  thus ?thesis using q by (auto simp: queue_ok_def async_accept_def)
next
  case (Cons i xs)
  have "i < te_next_id eng" "pending_accept (te_store eng i)" "ops_ok (te_store eng i)"
    using inv Cons unfolding te_inv_def by (auto dest!: spec [of _ i])
  hence "fl_state (te_store eng i) \<noteq> CLOSED" by (auto simp: ops_ok_def)
  thus ?thesis using q Cons by (auto simp: queue_ok_def async_accept_def eng_post_def)
qed

lemma queue_ok_close_all:
  assumes inv: "te_inv b eng" shows "queue_ok {} (close_all eng)"
proof -
  note C = close_all_inv [OF inv]
  have "fl_state (te_store (close_all eng) i) = CLOSED" if "i < te_next_id (close_all eng)" for i
    using C(1,3) that unfolding te_inv_def by force
  thus ?thesis using C(4) by (simp add: queue_ok_def)
qed

lemma cancel_accepts_flows:
  "te_store (cancel_accepts eng) = te_store eng" "te_next_id (cancel_accepts eng) = te_next_id eng"
proof -
  have "te_store (fold (\<lambda>h. eng_post (Done_tcp_accept h ec None)) hs e) = te_store e \<and>
      te_next_id (fold (\<lambda>h. eng_post (Done_tcp_accept h ec None)) hs e) = te_next_id e" for hs ec e
    by (induction hs arbitrary: e) (simp_all add: eng_post_def)
  thus "te_store (cancel_accepts eng) = te_store eng" "te_next_id (cancel_accepts eng) = te_next_id eng" by (simp_all add: cancel_accepts_def)
qed

lemma queue_ok_step:
  assumes inv: "te_inv b eng" and en: "enabled ev eng" and q: "queue_ok {} eng" shows "queue_ok {} (tcp_step ev eng)"
proof -
  have io: "queue_ok {} (tcp_flow_start_read f bs n h eng)"
    "m = length (concat ds) \<Longrightarrow> queue_ok {} (tcp_flow_start_write f ds m h eng)" if "handed_out f eng" for f bs ds n m h
    using that queue_ok_with_flow [of "{}" eng "{#Tk_read h#}" "the f" "read_entry bs n h", OF q read_entry_call]
      queue_ok_with_flow [of "{}" eng "{#Tk_write h#}" "the f" "write_entry ds m h", OF q write_entry_call] q
    by (auto simp: tcp_flow_start_read_def tcp_flow_start_write_def handed_out_def eng_post_def queue_ok_def split: option.splits)
  have fl: "queue_ok {} (on_flow g f eng)" if "handed_out f eng" "\<And>s. claimed (cf s) \<Longrightarrow> accepted (cf s) \<Longrightarrow> flow_step s (g s)" for g f
  proof (cases f)
    case (Some i)
    have "flow_step (checkout i eng) (g (checkout i eng))"
      by (rule that(2)) (use that(1) te_inv_store [OF inv] Some in \<open>auto simp: handed_out_def known_def\<close>)
    thus ?thesis using queue_ok_with_flow [OF q] Some by (simp add: on_flow_def)
  qed (simp add: on_flow_def q)
  have sw: "queue_ok {} (on_sweep ec eng)" for ec
    by (simp add: on_sweep_def start_sweep_def Let_def q) (intro impI queue_ok_same [OF queue_ok_fold [OF q sweep_flow_step]], simp_all)
  have ev: "queue_ok {} (with_flow i g eng)" if "\<And>s. flow_step s (g s)" for i g by (rule queue_ok_with_flow [OF q]) (rule that)
  have se: "queue_ok {} (set_env g eng)" for g using q by (simp add: queue_ok_def set_env_def)
  have ca: "queue_ok {} (cancel_accepts eng)" using q cancel_accepts_inv(3) by (simp add: queue_ok_def cancel_accepts_flows)
  show ?thesis using en
    by (cases ev) (simp_all add: queue_ok_packet [OF inv q] queue_ok_accept [OF inv q] queue_ok_close_all [OF inv] ca se sw ev io
        on_ack_timer_step coro_event_step write_loop_step_step fl
        tcp_flow_shutdown_send_def tcp_flow_shutdown_receive_def tcp_flow_close_def tcp_flow_reset_def tcp_flow_accept_def tcp_flow_reject_def
        reject_flow_def shutdown_send_step shutdown_receive_step close_entry_step reset_entry_step accept_flow_step abort_flow_step)
qed

section \<open>Runs\<close>

lemma engine_new_inv:
  assumes "tcp_connections (e_stats e) = 0"
  shows "te_inv (handed e) (tcp_engine_new cfg e)" "eng_toks (tcp_engine_new cfg e) = posted_toks e"
  using assms by (simp_all add: te_inv_def handover_def tcp_engine_new_def eng_toks_def posted_toks_def accept_toks_def)

lemma tcp_run_inv:
  assumes "tcp_run cfg e subs eng" "tcp_connections (e_stats e) = 0" "e_posted e = []"
  shows "te_inv [] eng \<and> eng_toks eng = subs"
  using assms
proof (induction rule: tcp_run.induct)
  case start
  thus ?case using engine_new_inv [of e cfg] by (simp add: posted_toks_def)
next
  case (event subs eng ev)
  thus ?case using tcp_step_inv [of "[]"] by simp
qed

section \<open>Properties\<close>

definition fresh_env :: "env \<Rightarrow> bool" where
  "fresh_env e \<longleftrightarrow> tcp_connections (e_stats e) = 0 \<and> e_posted e = []"

lemma tcp_run_fresh: "tcp_run cfg e subs eng \<Longrightarrow> fresh_env e \<Longrightarrow> te_inv [] eng \<and> eng_toks eng = subs"
  using tcp_run_inv by (simp add: fresh_env_def)

lemma tcp_run_queue_ok: "tcp_run cfg e subs eng \<Longrightarrow> fresh_env e \<Longrightarrow> queue_ok {} eng"
proof (induction rule: tcp_run.induct)
  case start
  show ?case by (simp add: queue_ok_def tcp_engine_new_def)
next
  case (event subs eng ev)
  thus ?case using queue_ok_step tcp_run_fresh by blast
qed

text \<open>
  C3. In every state the engine reaches, whatever packets, timers and calls occur: no two entries of the
  flow table have the same key, the table holds exactly the flows that are not closed, each under its
  own key, it never exceeds \<open>max_tcp_flows\<close>, and the \<open>tcp_connections\<close> statistic is the number of
  flows that have completed the handshake and are not closed. The accept queue agrees with the flows too:
  it holds, once each, exactly the flows that are neither closed nor handed to the application, these are
  exactly the flows marked as waiting in it, and no flow waits while an accept waits.
\<close>

theorem tcp_flow_table_consistent:
  assumes "tcp_run cfg e subs eng" "fresh_env e"
  shows "distinct (map fst (te_flows eng)) \<and>
    (\<forall>i<te_next_id eng. fl_state (te_store eng i) \<noteq> CLOSED \<longleftrightarrow> (fl_key (te_store eng i), i) \<in> set (te_flows eng)) \<and>
    length (te_flows eng) \<le> max_tcp_flows (te_cfg eng) \<and>
    tcp_connections (e_stats (te_env eng)) = of_nat (card {i. i < te_next_id eng \<and> counted (te_store eng i)}) \<and>
    distinct (te_pending_flows eng) \<and>
    set (te_pending_flows eng) = {i. i < te_next_id eng \<and> fl_state (te_store eng i) \<noteq> CLOSED \<and> \<not> accepted (te_store eng i)} \<and>
    {i. i < te_next_id eng \<and> pending_accept (te_store eng i)} = set (te_pending_flows eng) \<and>
    (te_pending_flows eng = [] \<or> te_pending_accepts eng = [])"
proof -
  have inv: "te_inv [] eng" and q: "queue_ok {} eng" using tcp_run_fresh tcp_run_queue_ok assms by blast+
  have P: "\<And>i. i \<in> set (te_pending_flows eng) \<longleftrightarrow> i < te_next_id eng \<and> pending_accept (te_store eng i)"
    and O: "\<And>i. i < te_next_id eng \<Longrightarrow> pending_accept (te_store eng i) \<Longrightarrow> fl_state (te_store eng i) \<noteq> CLOSED \<and> \<not> accepted (te_store eng i)"
    using inv unfolding te_inv_def handover_def ops_ok_def by blast+
  have "set (te_pending_flows eng) = {i. i < te_next_id eng \<and> fl_state (te_store eng i) \<noteq> CLOSED \<and> \<not> accepted (te_store eng i)}"
    "{i. i < te_next_id eng \<and> pending_accept (te_store eng i)} = set (te_pending_flows eng)"
    using P O q unfolding queue_ok_def by blast+
  thus ?thesis using inv q unfolding te_inv_def queue_ok_def by blast
qed

text \<open>
  C2. No completion is lost or duplicated: at any moment the handlers submitted to the engine (reads,
  writes, accepts) are, as a multiset, those already completed, those of the reads and writes pending
  on the flows, and the accepts still waiting.
\<close>

theorem tcp_handlers_conserved:
  assumes "tcp_run cfg e subs eng" "fresh_env e"
  shows "posted_toks (te_env eng) + (\<Sum>i<te_next_id eng. flow_toks (te_store eng i)) +
    mset (map Tk_accept (te_pending_accepts eng)) = subs"
  using tcp_run_fresh [OF assms] by (simp add: eng_toks_def accept_toks_def)

lemma settled_engine:
  assumes inv: "te_inv b eng" and e: "te_flows eng = []" "te_pending_accepts eng = []"
  shows "posted_toks (te_env eng) = eng_toks eng" "tcp_connections (e_stats (te_env eng)) = 0"
proof -
  have closed: "fl_state (te_store eng i) = CLOSED" if "i < te_next_id eng" for i
    using inv e(1) that unfolding te_inv_def by force
  hence "flow_toks (te_store eng i) = {#}" if "i < te_next_id eng" for i
    using inv that by (simp add: te_inv_def ops_ok_def flow_toks_def)
  hence "(\<Sum>i<te_next_id eng. flow_toks (te_store eng i)) = {#}" by (simp add: sum.neutral)
  thus "posted_toks (te_env eng) = eng_toks eng" using e(2) by (simp add: eng_toks_def accept_toks_def)
  have z: "{i. i < te_next_id eng \<and> counted (te_store eng i)} = {}"
    using closed by (auto simp: counted_def)
  show "tcp_connections (e_stats (te_env eng)) = 0" using inv unfolding te_inv_def z by simp
qed

text \<open>
  Shutting the engine down completes everything: after \<open>close_all\<close> every handler ever submitted has
  been completed exactly as often as it was submitted, no flow is left in the table and none is counted.
\<close>

theorem tcp_close_all_completes:
  assumes r: "tcp_run cfg e subs eng" and f: "fresh_env e"
  shows "posted_toks (te_env (close_all eng)) = subs \<and> te_flows (close_all eng) = [] \<and>
    tcp_connections (e_stats (te_env (close_all eng))) = 0"
  using close_all_inv [of "[]" eng] tcp_run_fresh [OF r f] settled_engine [of "[]" "close_all eng"] by simp

text \<open>
  C18. A connection only moves forward through its life: no event takes a flow back to an earlier state,
  and a closed flow is never revived.
\<close>

theorem tcp_states_advance:
  assumes "tcp_run cfg e subs eng" "fresh_env e" "enabled ev eng" "i < te_next_id eng"
  shows "phase (fl_state (te_store eng i)) \<le> phase (fl_state (te_store (tcp_step ev eng) i))"
  using tcp_step_advances [of "[]" eng ev] tcp_run_fresh [OF assms(1,2)] assms(3,4) by (simp add: advances_def)

text \<open>
  A flow that the application has not taken over with \<open>async_accept\<close> never gets past
  \<open>SYN_RCVD\<close>. So the branch of the sweep for established but unaccepted flows, and with it the
  setting \<open>tcp_accept_timeout\<close>, has no effect: such flows are covered by \<open>tcp_syn_timeout\<close>.
\<close>

theorem tcp_unaccepted_stays_half_open:
  assumes "tcp_run cfg e subs eng" "fresh_env e" "i < te_next_id eng" "\<not> accepted (te_store eng i)"
  shows "fl_state (te_store eng i) \<in> {SYN_RCVD, CLOSED} \<and>
    sweep_victim (te_cfg eng) now (te_store eng i) = sweep_victim ((te_cfg eng)\<lparr>tcp_accept_timeout := t\<rparr>) now (te_store eng i)"
  using te_inv_store [OF conjunct1 [OF tcp_run_fresh [OF assms(1,2)]] assms(3)] assms(4)
  by (auto simp: claimed_def sweep_victim_def half_open_def)

text \<open>
  C7. A connection is handed to the application once: the completed accepts have brought distinct
  connections, exactly those marked accepted, and none that still waits in the accept queue.
\<close>

theorem tcp_connection_handed_once:
  assumes "tcp_run cfg e subs eng" "fresh_env e"
  shows "distinct (handed (te_env eng)) \<and> set (handed (te_env eng)) = {i. i < te_next_id eng \<and> accepted (te_store eng i)} \<and>
    set (te_pending_flows eng) \<inter> set (handed (te_env eng)) = {}"
proof -
  have inv: "te_inv [] eng" using tcp_run_fresh [OF assms] by blast
  hence h: "distinct (handed (te_env eng))" "i \<in> set (handed (te_env eng)) \<longleftrightarrow> i < te_next_id eng \<and> accepted (te_store eng i)" for i
    unfolding te_inv_def handover_def by auto
  moreover have "i \<in> set (te_pending_flows eng) \<Longrightarrow> i < te_next_id eng \<and> \<not> accepted (te_store eng i)" for i
    using inv unfolding te_inv_def handover_def by blast
  ultimately show ?thesis by blast
qed

text \<open>
  The bookkeeping of a write never goes wrong: in every state the engine reaches, the operation
  pending on a flow has the total of its buffers, its offset does not pass that total, and buffer index
  and offset within the buffer name the same position, so that what the send loop finds from there on
  are the bytes after the offset. Window probes, which advance all three when they are acknowledged,
  are included.
\<close>

theorem tcp_write_position_consistent:
  assumes "tcp_run cfg e subs eng" "fresh_env e" "i < te_next_id eng" "active_write (te_store eng i) = Some op"
  shows "wo_total op = length (concat (wo_buffers op)) \<and> wo_offset op \<le> wo_total op \<and>
    wo_buf_index op \<le> length (wo_buffers op) \<and>
    wo_offset op = length (concat (take (wo_buf_index op) (wo_buffers op))) + wo_buf_off op \<and>
    drop (wo_buf_off op) (concat (drop (wo_buf_index op) (wo_buffers op))) = drop (wo_offset op) (concat (wo_buffers op))"
proof -
  have "te_inv [] eng" using tcp_run_fresh [OF assms(1,2)] by blast
  hence "op_ok op" using assms(3,4) by (auto simp: te_inv_def ops_ok_def)
  thus ?thesis using op_ok_rest [of op] by (simp add: op_ok_def write_data_def)
qed

section \<open>A sample run\<close>

text \<open>A client at 10.0.0.1:80 opens a connection to 10.0.0.2:443; the application accepts it and reads.\<close>

definition sample_syn :: "byte list" where
  "sample_syn = [0, 80, 1, 187, 0, 0, 0, 5, 0, 0, 0, 0, 80, 2, 255, 255, 153, 208, 0, 0]"

definition sample_info :: ip_packet_info where
  "sample_info = \<lparr>pi_family = 4, pi_protocol = 6, pi_src_ip = [10, 0, 0, 1] @ replicate 12 0, pi_dst_ip = [10, 0, 0, 2] @ replicate 12 0\<rparr>"

definition sample_engine :: tcp_engine where
  "sample_engine = on_packet 1000 sample_info sample_syn (async_accept 1 (tcp_engine_new default_config sample_env))"

definition sample_reading :: tcp_engine where
  "sample_reading = tcp_flow_start_read (Some 0) [64] 64 2 sample_engine"

lemma sample_checksum: "tcp_udp_checksum 4 (pi_src_ip sample_info) (pi_dst_ip sample_info) 6 sample_syn = 0"
  "parse_syn_wscale sample_syn 20 = (0, False)"
  by code_simp+

lemma sample_engine_simps:
  "te_next_id sample_engine = 1" "accepted (te_store sample_engine 0)" "fl_state (te_store sample_engine 0) = SYN_RCVD"
  using sample_checksum
  by (simp_all add: sample_engine_def on_packet_def Let_def async_accept_def tcp_engine_new_def sample_info_def ip_protocol_tcp_def
      load_tcp_header_def th_header_len_def ld16_def ld32_def sample_syn_def has_flag_def TCP_SYN_def TCP_ACK_def default_config_def
      create_flow_def with_flow_def syn_data_def notify_accept_def syn_flow_def tcp_flow0_def sample_env_def env_new_def post_completion_on_def)

lemma sample_engine_idle:
  "\<not> app_closed (te_store sample_engine 0)" "\<not> fin_sent (te_store sample_engine 0)" "\<not> fl_rst (te_store sample_engine 0)"
  "active_write (te_store sample_engine 0) = None"
  using sample_checksum
  by (simp_all add: sample_engine_def on_packet_def Let_def async_accept_def tcp_engine_new_def sample_info_def ip_protocol_tcp_def
      load_tcp_header_def th_header_len_def ld16_def ld32_def sample_syn_def has_flag_def TCP_SYN_def TCP_ACK_def default_config_def
      create_flow_def with_flow_def syn_data_def notify_accept_def syn_flow_def tcp_flow0_def sample_env_def env_new_def post_completion_on_def)

lemma sample_env_fresh: "fresh_env sample_env"
  by (simp add: fresh_env_def sample_env_def env_new_def)

lemma sample_engine_run: "tcp_run default_config sample_env {#Tk_accept 1#} sample_engine"
proof -
  have "tcp_run default_config sample_env {#Tk_accept 1#} (async_accept 1 (tcp_engine_new default_config sample_env))"
    using tcp_run.event [OF tcp_run.start, of "Ev_accept 1"] by simp
  from tcp_run.event [OF this, of "Ev_packet 1000 sample_info sample_syn"] show ?thesis by (simp add: sample_engine_def)
qed

lemma sample_reading_run: "tcp_run default_config sample_env {#Tk_accept 1, Tk_read 2#} sample_reading"
  using tcp_run.event [OF sample_engine_run, of "Ev_read (Some 0) [64] 64 2"] sample_engine_simps
  by (simp add: sample_reading_def handed_out_def known_def add_mset_commute)

theorem tcp_handlers_conserved_witness:
  "posted_toks (te_env sample_reading) + (\<Sum>i<te_next_id sample_reading. flow_toks (te_store sample_reading i)) +
     mset (map Tk_accept (te_pending_accepts sample_reading)) = {#Tk_accept 1, Tk_read 2#}"
  by (rule tcp_handlers_conserved [OF sample_reading_run sample_env_fresh])

theorem tcp_connection_handed_once_witness:
  "set (handed (te_env sample_reading)) = {i. i < te_next_id sample_reading \<and> accepted (te_store sample_reading i)}"
  using tcp_connection_handed_once [OF sample_reading_run sample_env_fresh] by blast

theorem tcp_close_all_completes_witness:
  "posted_toks (te_env (close_all sample_reading)) = {#Tk_accept 1, Tk_read 2#}"
  using tcp_close_all_completes [OF sample_reading_run sample_env_fresh] by blast

theorem tcp_states_advance_witness:
  "phase (fl_state (te_store sample_engine 0)) \<le> phase (fl_state (te_store (tcp_step (Ev_reset (Some 0)) sample_engine) 0))"
  by (rule tcp_states_advance [OF sample_engine_run sample_env_fresh]) (simp_all add: sample_engine_simps handed_out_def known_def)

text \<open>Without a waiting accept the same SYN leaves an unaccepted flow.\<close>

definition sample_waiting :: tcp_engine where
  "sample_waiting = on_packet 1000 sample_info sample_syn (tcp_engine_new default_config sample_env)"

lemma sample_waiting_simps: "te_next_id sample_waiting = 1" "\<not> accepted (te_store sample_waiting 0)"
  "fl_state (te_store sample_waiting 0) = SYN_RCVD"
  using sample_checksum
  by (simp_all add: sample_waiting_def on_packet_def Let_def tcp_engine_new_def sample_info_def ip_protocol_tcp_def
      load_tcp_header_def th_header_len_def ld16_def ld32_def sample_syn_def has_flag_def TCP_SYN_def TCP_ACK_def default_config_def
      create_flow_def with_flow_def syn_data_def notify_accept_def syn_flow_def tcp_flow0_def sample_env_def env_new_def on_eng_def)

lemma sample_waiting_run: "tcp_run default_config sample_env {#} sample_waiting"
  using tcp_run.event [OF tcp_run.start, of "Ev_packet 1000 sample_info sample_syn" default_config sample_env] by (simp add: sample_waiting_def)

theorem tcp_flow_table_consistent_witness:
  "length (te_flows sample_waiting) \<le> max_tcp_flows (te_cfg sample_waiting) \<and>
   tcp_connections (e_stats (te_env sample_waiting)) =
     of_nat (card {i. i < te_next_id sample_waiting \<and> counted (te_store sample_waiting i)}) \<and>
   set (te_pending_flows sample_waiting) = {0}"
proof -
  note T = tcp_flow_table_consistent [OF sample_waiting_run sample_env_fresh]
  have "{i. i < te_next_id sample_waiting \<and> fl_state (te_store sample_waiting i) \<noteq> CLOSED \<and> \<not> accepted (te_store sample_waiting i)} = {0}"
    using sample_waiting_simps by auto
  thus ?thesis using T by simp
qed

theorem tcp_unaccepted_stays_half_open_witness:
  "fl_state (te_store sample_waiting 0) \<in> {SYN_RCVD, CLOSED}"
  using tcp_unaccepted_stays_half_open [OF sample_waiting_run sample_env_fresh, of 0] sample_waiting_simps by simp

text \<open>The application writes on the accepted flow instead: the SYN-ACK leaves and the write waits for the handshake.\<close>

definition sample_writing :: tcp_engine where
  "sample_writing = tcp_flow_start_write (Some 0) [[1, 2], [3]] 3 2 sample_engine"

lemma sample_writing_run: "tcp_run default_config sample_env {#Tk_accept 1, Tk_write 2#} sample_writing"
  using tcp_run.event [OF sample_engine_run, of "Ev_write (Some 0) [[1, 2], [3]] 3 2"] sample_engine_simps
  by (simp add: sample_writing_def handed_out_def known_def add_mset_commute)

theorem tcp_write_position_consistent_witness:
  "wo_offset (the (active_write (te_store sample_writing 0))) \<le> wo_total (the (active_write (te_store sample_writing 0))) \<and>
   wo_total (the (active_write (te_store sample_writing 0))) = 3"
proof -
  obtain op where op: "active_write (te_store sample_writing 0) = Some op" "wo_total op = 3"
    using sample_engine_simps sample_engine_idle
    by (simp add: sample_writing_def tcp_flow_start_write_def with_flow_eq write_entry_def Let_def accept_flow_def sends_flow [OF send_segment_sends])
  have "0 < te_next_id sample_writing"
    using sample_engine_simps sample_engine_idle
    by (simp add: sample_writing_def tcp_flow_start_write_def with_flow_eq write_entry_def Let_def accept_flow_def sends_engine [OF send_segment_sends])
  from tcp_write_position_consistent [OF sample_writing_run sample_env_fresh this op(1)] show ?thesis using op by simp
qed

end
