(* ===== verification/Tcp_Integrity.thy ===== *)
theory Tcp_Integrity
  imports Tcp_System "HOL-Library.Sublist"
begin

text \<open>
  End-to-end integrity of a TCP stream through the engine. A peer sends a byte stream \<open>S\<close>; its segments
  reach \<^verbatim>\<open>handle_segment\<close> reordered, duplicated, overlapping or not at all, between any other steps of
  the flow (reads, writes, the send coroutine, timers, half-close) and of other flows. Whatever
  the reads have handed to the application, followed by what is still queued, is a prefix of \<open>S\<close>.
\<close>

section \<open>Steps that leave the received stream alone\<close>

definition idle :: "tcp_ctx \<Rightarrow> tcp_ctx \<Rightarrow> bool" where
  "idle s s' \<longleftrightarrow> (fl_state (cf s) = CLOSED \<longrightarrow> fl_state (cf s') = CLOSED) \<and>
     (fl_state (cf s') \<noteq> CLOSED \<longrightarrow> feeds s [] s' \<and> rcv_nxt (cf s') = rcv_nxt (cf s) \<and>
        fin_received (cf s') = fin_received (cf s) \<and> ooo_cache (cf s') = ooo_cache (cf s) \<and>
        ooo_bytes (cf s') = ooo_bytes (cf s) \<and> rx_shutdown (cf s') = rx_shutdown (cf s))"

lemma idle_refl [simp]: "idle s s"
  by (simp add: idle_def)

lemma idle_trans: "idle a b \<Longrightarrow> idle b c \<Longrightarrow> idle a c"
  unfolding idle_def using feeds_trans0 by metis

lemma idle_closed: "fl_state (cf s') = CLOSED \<Longrightarrow> idle s s'"
  by (simp add: idle_def)

lemma idle_inv: "rx_inv S b N s \<Longrightarrow> idle s s' \<Longrightarrow> fl_state (cf s') \<noteq> CLOSED \<Longrightarrow> rx_inv S b N s' \<and> feeds s [] s'"
  using rx_inv_idle [of S b N s s'] by (simp add: idle_def)

lemma sends_idle: "sends s s' \<Longrightarrow> idle s s'"
  by (simp add: idle_def sends_feeds sends_flow)

lemma upf_idle:
  assumes "\<And>f. rx_head (g f) = rx_head f \<and> rx_bytes (g f) = rx_bytes f \<and> rx_data (g f) = rx_data f \<and> active_read (g f) = active_read f \<and>
    rcv_nxt (g f) = rcv_nxt f \<and> fin_received (g f) = fin_received f \<and> ooo_cache (g f) = ooo_cache f \<and> ooo_bytes (g f) = ooo_bytes f \<and>
    rx_shutdown (g f) = rx_shutdown f \<and> (fl_state f = CLOSED \<longrightarrow> fl_state (g f) = CLOSED)"
  shows "idle s (upf g s)"
  using assms [of "cf s"] by (simp add: idle_def feeds_def rx_good_def charge_def rx_queue_def)

lemma post_idle: "read_bytes c = [] \<Longrightarrow> idle s (post_ctx c s)"
  by (simp add: idle_def feeds_def rx_good_def)

lemma env_idle: "e_posted (g (cenv s)) = e_posted (cenv s) \<Longrightarrow> e_account (g (cenv s)) = e_account (cenv s) \<Longrightarrow> idle s (on_env g s)"
  by (simp add: idle_def feeds_def rx_good_def)

lemma flush_reads_idle: "idle s (flush_reads s)"
proof -
  have "fin_received (cf (flush_reads s)) = fin_received (cf s)" by simp
  thus ?thesis by (simp add: idle_def flush_reads_feeds)
qed

lemma close_flow_idle: "idle s (close_flow err s)"
  by (rule idle_closed) simp

lemma abort_flow_idle: "idle s (abort_flow s)"
  by (rule idle_closed) (simp add: abort_flow_def Let_def)

lemma send_fin_idle: "idle s (send_fin s)"
proof -
  define s1 where "s1 = upf (\<lambda>f. f\<lparr>fin_sent := True\<rparr>) s"
  have s1: "idle s s1" unfolding s1_def by (rule upf_idle) simp
  have b: "idle s (upf (\<lambda>f. f\<lparr>fin_pending := True\<rparr>) s)" by (rule upf_idle) simp
  have e: "idle s1 (emit_fin st s1)" if "fl_state (cf s1) \<noteq> CLOSED" for st
  proof -
    have "idle s1 (upf (\<lambda>f. f\<lparr>fl_state := st, close_started_at := cnow s1\<rparr>) s1)"
      using that by (simp add: idle_def feeds_def rx_good_def charge_def rx_queue_def)
    moreover have "idle t (upf (\<lambda>f. f\<lparr>snd_nxt := snd_nxt f + 1\<rparr>) t)" for t by (rule upf_idle) simp
    ultimately show ?thesis unfolding emit_fin_def Let_def using sends_idle [OF send_segment_sends] idle_trans by blast
  qed
  show ?thesis unfolding send_fin_def Let_def s1_def [symmetric]
    using s1 b e idle_trans [OF s1] abort_flow_idle by (auto split: tcp_state.splits)
qed

lemma accept_flow_idle: "idle s (accept_flow s)"
proof -
  define s1 where "s1 = send_segment (iss (cf s)) (TCP_SYN OR TCP_ACK) [] True s"
  have s1: "idle s s1" unfolding s1_def by (rule sends_idle [OF send_segment_sends])
  have "fl_state (cf s) = SYN_RCVD \<Longrightarrow> idle s1 (upf (\<lambda>f. f\<lparr>snd_nxt := iss f + 1, fl_state := SYN_ACK_SENT\<rparr>) s1)"
    by (simp add: s1_def idle_def feeds_def rx_good_def charge_def rx_queue_def)
  thus ?thesis unfolding accept_flow_def Let_def s1_def [symmetric] using idle_trans [OF s1] by simp
qed

lemma handle_ack_idle: "idle s (snd (handle_ack ack s))"
proof -
  define s1 where "s1 = upf (\<lambda>f. (ack_advance ack f)\<lparr>probe_in_flight := False\<rparr>) s"
  define s2 where "s2 = (if pending_fin_due (cf s1) then send_fin (upf (\<lambda>f. f\<lparr>fin_pending := False\<rparr>) s1) else s1)"
  have s1: "idle s s1" unfolding s1_def by (rule upf_idle) (simp add: ack_advance_def)
  have "idle s1 (upf (\<lambda>f. f\<lparr>fin_pending := False\<rparr>) s1)" by (rule upf_idle) simp
  hence s2: "idle s s2" using idle_trans [OF s1] idle_trans send_fin_idle s1 unfolding s2_def by auto
  have "fl_state (cf s2) = FIN_WAIT_1 \<Longrightarrow> idle s2 (upf (\<lambda>f. f\<lparr>fl_state := TIME_WAIT, destroy_at := d\<rparr>) s2)"
    "fl_state (cf s2) = FIN_WAIT_1 \<Longrightarrow> idle s2 (upf (\<lambda>f. f\<lparr>fl_state := FIN_WAIT_2\<rparr>) s2)" for d
    by (simp_all add: idle_def feeds_def rx_good_def charge_def rx_queue_def)
  thus ?thesis unfolding handle_ack_def Let_def s1_def [symmetric] s2_def [symmetric]
    using s2 idle_trans [OF s2] close_flow_idle by simp
qed

lemma handshake_done_idle: "fl_state (cf s) \<noteq> CLOSED \<Longrightarrow> idle s (handshake_done s)"
proof -
  assume nc: "fl_state (cf s) \<noteq> CLOSED"
  define s1 where "s1 = tcp_connections_add 1 (upf (\<lambda>f. f\<lparr>fl_state := ESTABLISHED\<rparr>) s)"
  have s1: "idle s s1" using nc by (simp add: s1_def tcp_connections_add_def idle_def feeds_def rx_good_def charge_def rx_queue_def)
  have "idle s1 (notify_accept s1)"
    by (auto simp: notify_accept_def Let_def idle_def feeds_def rx_good_def charge_def rx_queue_def split: list.splits)
  hence "idle s (if \<not> accepted (cf s1) then notify_accept s1 else s1)" using idle_trans [OF s1] s1 by simp
  thus ?thesis unfolding handshake_done_def Let_def s1_def [symmetric] by (rule idle_trans [OF _ flush_reads_idle])
qed

section \<open>The send side\<close>

lemma set_coro_idle: "idle s (set_coro c s)"
  unfolding set_coro_def by (rule upf_idle) simp

lemma suspend_idle: "idle s (suspend p d c s)"
  unfolding suspend_def by (rule set_coro_idle)

lemma wl_exit_idle: "idle s (wl_exit s)"
proof -
  have "idle t (post_ctx (Done_write h ec n) (upf (\<lambda>f. f\<lparr>active_write := None\<rparr>) t))" for t h ec n
    by (rule idle_trans [OF upf_idle post_idle]) simp_all
  hence "idle s (post_ctx (Done_write h ec n) (upf (\<lambda>f. f\<lparr>active_write := None\<rparr>) (set_coro None s)))" for h ec n
    by (rule idle_trans [OF set_coro_idle])
  thus ?thesis unfolding wl_exit_def Let_def by (simp add: set_coro_idle split: option.split)
qed

lemma build_next_segment_idle: "idle s (snd (build_next_segment w op s))"
proof -
  define s1 where "s1 = upf (\<lambda>f. f\<lparr>active_write := Some (op_seek op)\<rparr>) s"
  have s1: "idle s s1" unfolding s1_def by (rule upf_idle) simp
  obtain r s2 where b: "build_segment (snd_nxt (cf s1)) (TCP_ACK OR TCP_PSH) (next_chunk w (op_seek op) s1) False s1 = (r, s2)" by fastforce
  have "sends s1 s2" using build_segment_sends [of s1 "snd_nxt (cf s1)" "TCP_ACK OR TCP_PSH" "next_chunk w (op_seek op) s1" False] b by simp
  hence s2: "idle s s2" using idle_trans [OF s1] sends_idle by blast
  have "idle s2 (upf (\<lambda>f. f\<lparr>snd_nxt := q f, active_write := op'\<rparr>) s2)" for q op' by (rule upf_idle) simp
  thus ?thesis unfolding build_next_segment_def Let_def s1_def [symmetric] b prod.case
    using s1 s2 idle_trans [OF s2] by (auto split: sum.splits)
qed

lemma send_window_probe_idle: "idle s (send_window_probe op s)"
proof -
  have a: "idle s (upf (\<lambda>f. f\<lparr>active_write := op'\<rparr>) s)" for op' by (rule upf_idle) simp
  have "idle s (upf (\<lambda>f. f\<lparr>probe_in_flight := True\<rparr>) (send_segment q fl d m (upf (\<lambda>f. f\<lparr>active_write := op'\<rparr>) s)))" for q fl d m op'
    by (rule idle_trans [OF idle_trans [OF a sends_idle [OF send_segment_sends]] upf_idle]) simp
  thus ?thesis unfolding send_window_probe_def Let_def using a by simp
qed

lemma wl_send_idle: "idle s (wl_send w op c s)"
proof -
  obtain r s1 where b: "build_next_segment w op s = (r, s1)" by fastforce
  have s1: "idle s s1" using build_next_segment_idle [of s w op] b by simp
  have a: "idle t (on_env (async_write pkt h) t)" for t pkt h
  proof -
    have "e_posted (enqueue pkt x e) = e_posted e \<and> e_account (enqueue pkt x e) = e_account e" for x e
      using enqueue_sends [of e pkt x] by (simp add: env_sends_def)
    thus ?thesis by (simp add: async_write_def idle_def feeds_def rx_good_def post_completion_on_def add_tx_dropped_def)
  qed
  show ?thesis unfolding wl_send_def Let_def b prod.case
    using idle_trans [OF s1 wl_exit_idle] idle_trans [OF s1 idle_trans [OF a suspend_idle]] by (auto split: sum.splits option.splits)
qed

lemma wl_iter_idle:
  assumes "\<And>c s. idle s (again c s)" shows "idle s (wl_iter again c s)"
proof (cases "active_write (cf s)")
  case (Some op)
  have "idle s (upf (\<lambda>f. f\<lparr>active_write := None, fl_coro := None\<rparr>) s)" by (rule upf_idle) simp
  hence "idle s (post_ctx (Done_write (wo_handler op) EC_ok (wo_total op)) (upf (\<lambda>f. f\<lparr>active_write := None, fl_coro := None\<rparr>) s))"
    by (rule idle_trans [OF _ post_idle]) simp
  thus ?thesis unfolding wl_iter_def Some option.case Let_def wl_wait_ack_def
    using assms wl_exit_idle suspend_idle wl_send_idle by simp
qed (simp add: wl_iter_def wl_exit_idle)

lemma wl_head_idle: "idle s (wl_head c s)"
  unfolding wl_head_def by (intro wl_iter_idle) (simp add: wl_wait_ack_def suspend_idle)

lemma write_loop_step_idle: "idle s (write_loop_step s)"
proof -
  have b: "idle s (wl_begin s)"
  proof (cases "active_write (cf s)")
    case (Some op)
    have w: "idle s (if write_ch (cf s) = None then upf (\<lambda>f. f\<lparr>write_ch := Some True\<rparr>) s else s)" by (simp add: upf_idle)
    have "idle t (upf (\<lambda>f. f\<lparr>active_write := Some (op\<lparr>wo_start_seq := snd_nxt f\<rparr>)\<rparr>) t)" for t by (rule upf_idle) simp
    from idle_trans [OF w this] show ?thesis unfolding wl_begin_def Let_def Some option.case by (rule idle_trans [OF _ wl_head_idle])
  qed (simp add: wl_begin_def set_coro_idle)
  have rt: "idle s (retransmit_unacked n s)" for n by (rule sends_idle [OF retransmit_unacked_sends])
  have p: "idle s (wl_persist r c s)" for r c
  proof -
    have "idle s (persist_probe op c s)" for op c
      unfolding persist_probe_def Let_def using idle_trans [OF send_window_probe_idle wl_head_idle] idle_trans [OF rt wl_head_idle] wl_head_idle by simp
    moreover have "idle s (s\<lparr>cx := v\<rparr>)" for v by (simp add: idle_def feeds_def rx_good_def)
    ultimately show ?thesis unfolding wl_persist_def Let_def
      using wl_head_idle idle_trans [OF abort_flow_idle wl_exit_idle] by (auto split: option.splits)
  qed
  have rr: "idle s (rto_retransmit s)" using rt by (auto simp: rto_retransmit_def split: option.splits)
  have a: "idle s (wl_ack_or_rto r c s)" for r c
    unfolding wl_ack_or_rto_def Let_def using wl_head_idle idle_trans [OF abort_flow_idle wl_exit_idle] idle_trans [OF rr wl_head_idle] by simp
  show ?thesis unfolding write_loop_step_def wl_device_done_def
    using a b p wl_head_idle wl_exit_idle by (auto split: option.splits wl_point.splits wl_resume.splits)
qed

section \<open>Segments\<close>

lemma signal_write_idle: "idle s (signal_write s)"
proof -
  have "idle s (upf wake_coro s)" by (rule upf_idle) (simp add: wake_coro_def split: option.split)
  thus ?thesis by (simp add: signal_write_def)
qed

text \<open>\<open>fed S b N s s'\<close>: the step takes in the next bytes of the stream, none or more.\<close>

definition fed :: "byte list \<Rightarrow> u32 \<Rightarrow> nat \<Rightarrow> tcp_ctx \<Rightarrow> tcp_ctx \<Rightarrow> bool" where
  "fed S b N s s' \<longleftrightarrow> (\<exists>N'\<ge>N. rx_inv S b N' s' \<and> feeds s (subl N (N' - N) S) s')"

lemma fed_idle: "rx_inv S b N s \<Longrightarrow> idle s s' \<Longrightarrow> fl_state (cf s') \<noteq> CLOSED \<Longrightarrow> fed S b N s s'"
  unfolding fed_def using idle_inv by (intro exI [of _ N]) (simp add: subl_def)

lemma idle_fed: "rx_inv S b N s \<Longrightarrow> idle s t \<Longrightarrow> fl_state (cf t) \<noteq> CLOSED \<Longrightarrow> fed S b N t s' \<Longrightarrow> fed S b N s s'"
  unfolding fed_def using idle_inv feeds_trans0 by metis

lemma fed_then_idle: "fed S b N s t \<Longrightarrow> idle t s' \<Longrightarrow> fl_state (cf s') \<noteq> CLOSED \<Longrightarrow> fed S b N s s'"
  unfolding fed_def using idle_inv feeds_0trans by metis

lemma segment_established_fed:
  assumes "rx_inv S b N s" "piece S N n l flags" "fl_state (cf (segment_established (b + of_nat n) (subl n l S) flags s)) \<noteq> CLOSED"
  shows "fed S b N s (segment_established (b + of_nat n) (subl n l S) flags s)"
proof -
  have "fed S b N s (segment_payload (b + of_nat n) (subl n l S) flags s)"
    unfolding fed_def by (rule segment_payload_ok [OF assms(1,2)])
  thus ?thesis using assms(3) fed_then_idle [OF _ signal_write_idle] unfolding segment_established_def by blast
qed

lemma closed_stays: "fl_state (cf s) = CLOSED \<Longrightarrow> fl_state (cf (segment_state q ack fl d s)) = CLOSED"
  by (simp add: segment_state_def)

lemma segment_state_fed:
  assumes i: "rx_inv S b N s" and p: "piece S N n l flags"
    and nc: "fl_state (cf (segment_state (b + of_nat n) ack flags (subl n l S) s)) \<noteq> CLOSED"
  shows "fed S b N s (segment_state (b + of_nat n) ack flags (subl n l S) s)"
proof -
  have ns: "fl_state (cf s) \<noteq> CLOSED" using i by (simp add: rx_inv_def drain_inv_def)
  have self: "fed S b N s s" using fed_idle [OF i idle_refl ns] .
  have syn: "fed S b N s (send_segment (iss (cf s)) (TCP_SYN OR TCP_ACK) [] True s)"
    by (rule fed_idle [OF i sends_idle [OF send_segment_sends]]) (simp add: ns)
  have hs: "fed S b N s (segment_established (b + of_nat n) (subl n l S) flags (handshake_done s))"
    if c: "fl_state (cf (segment_established (b + of_nat n) (subl n l S) flags (handshake_done s))) \<noteq> CLOSED"
  proof -
    have h: "idle s (handshake_done s)" by (rule handshake_done_idle [OF ns])
    have hn: "fl_state (cf (handshake_done s)) \<noteq> CLOSED"
      by (auto simp: handshake_done_def Let_def notify_accept_def tcp_connections_add_def split: list.splits)
    show ?thesis by (rule idle_fed [OF i h hn segment_established_fed [OF _ p c]]) (use idle_inv [OF i h hn] in simp)
  qed
  define q where "q = b + of_nat n"
  show ?thesis using nc hs segment_established_fed [OF i p] self syn unfolding segment_state_def q_def [symmetric]
    by (auto split: if_splits)
qed

lemma handle_segment_fed:
  assumes i: "rx_inv S b N s" and p: "piece S N n l (th_flags th)" and q: "ntohl (th_seq th) = b + of_nat n"
    and nc: "fl_state (cf (handle_segment th (subl n l S) s)) \<noteq> CLOSED"
  shows "fed S b N s (handle_segment th (subl n l S) s)"
proof (cases "has_flag (th_flags th) TCP_ACK")
  case True
  obtain go t where a: "handle_ack (ntohl (th_ack th)) s = (go, t)" by fastforce
  have t: "idle s t" using handle_ack_idle [of s "ntohl (th_ack th)"] a by simp
  define u where "u = upf (\<lambda>f. f\<lparr>peer_wnd := push_bit (unat (snd_wnd_scale f)) (ucast (ntohs (th_window th)))\<rparr>) t"
  have u: "idle s u" unfolding u_def by (rule idle_trans [OF t upf_idle]) simp
  have h: "handle_segment th (subl n l S) s = (if \<not> go then t else segment_state (b + of_nat n) (ntohl (th_ack th)) (th_flags th) (subl n l S) u)"
    using True by (simp add: handle_segment_def Let_def a q u_def)
  show ?thesis
  proof (cases go)
    case True
    have un: "fl_state (cf u) \<noteq> CLOSED" using nc closed_stays True unfolding h by auto
    show ?thesis using True nc idle_inv [OF i u un] idle_fed [OF i u un] segment_state_fed [OF _ p] unfolding h by simp
  next
    case False
    thus ?thesis using nc fed_idle [OF i t] unfolding h by simp
  qed
next
  case False
  hence h: "handle_segment th (subl n l S) s = segment_state (b + of_nat n) (ntohl (th_ack th)) (th_flags th) (subl n l S) s"
    by (simp add: handle_segment_def Let_def q)
  show ?thesis unfolding h by (rule segment_state_fed [OF i p]) (use nc h in simp)
qed

section \<open>Application calls\<close>

lemma read_entry_idle: "idle s (read_entry bs (sum_list bs) h s)"
proof -
  define s1 where "s1 = (if fl_state (cf s) = SYN_RCVD then accept_flow s else s)"
  have s1: "idle s s1" by (simp add: s1_def accept_flow_idle)
  have p: "idle t (post_ctx (Done_read h ec 0 []) t)" for t ec by (rule post_idle) simp
  have "idle s1 (upf (\<lambda>f. f\<lparr>active_read := Some \<lparr>ro_buffers = bs, ro_total = sum_list bs, ro_handler = h\<rparr>\<rparr>) s1)"
    by (simp add: idle_def feeds_def rx_good_def charge_def rx_queue_def)
  from idle_trans [OF idle_trans [OF s1 this] flush_reads_idle] show ?thesis
    unfolding read_entry_def Let_def s1_def [symmetric] using p idle_trans [OF s1 p] by simp
qed

lemma write_entry_idle: "idle s (write_entry ds n h s)"
proof -
  define s1 where "s1 = (if fl_state (cf s) = SYN_RCVD then accept_flow s else s)"
  have s1: "idle s s1" by (simp add: s1_def accept_flow_idle)
  have p: "idle t (post_ctx (Done_write h ec m) t)" for t ec m by (rule post_idle) simp
  have "idle s1 (upf (\<lambda>f. f\<lparr>active_write := w, fl_coro := c\<rparr>) s1)" for w c by (rule upf_idle) simp
  thus ?thesis unfolding write_entry_def Let_def s1_def [symmetric] using p idle_trans [OF s1 p] idle_trans [OF s1] by simp
qed

lemma timer_idle: "idle s (on_ack_timer s)" "idle s (coro_timer s)" "idle s (coro_device ec s)" "idle s (shutdown_send_entry s)"
proof -
  have "idle s (upf (\<lambda>f. f\<lparr>ack_timer := None\<rparr>) s)" by (rule upf_idle) simp
  thus "idle s (on_ack_timer s)" unfolding on_ack_timer_def Let_def using idle_trans [OF _ sends_idle [OF send_ack_sends]] by simp
  show "idle s (coro_timer s)" "idle s (coro_device ec s)" "idle s (shutdown_send_entry s)"
    by (simp_all add: coro_timer_def coro_device_def shutdown_send_entry_def set_coro_idle send_fin_idle split: option.split)
qed

section \<open>Integrity of the stream\<close>

text \<open>
  A life of one flow while it is open. \<open>out\<close> is what its reads have handed out so far; with what is
  queued it makes up what has been taken in. Segments carry pieces of the stream \<open>S\<close>, whose first byte
  has the sequence number \<open>b\<close>. \<open>Other\<close> is any step of another part of the engine, which leaves the
  flow and its charge to the accountant alone.
\<close>

definition taken :: "byte list \<Rightarrow> tcp_ctx \<Rightarrow> nat" where
  "taken out s = length out + length (rx_queue (cf s))"

definition new_reads :: "tcp_ctx \<Rightarrow> tcp_ctx \<Rightarrow> byte list" where
  "new_reads s s' = read_log (drop (length (e_posted (cenv s))) (e_posted (cenv s')))"

inductive flow_life :: "byte list \<Rightarrow> u32 \<Rightarrow> byte list \<Rightarrow> tcp_ctx \<Rightarrow> bool" for S b where
  Open: "rx_inv S b (length (rx_queue (cf s))) s \<Longrightarrow> rx_queue (cf s) = take (length (rx_queue (cf s))) S \<Longrightarrow> flow_life S b [] s"
| Segment: "flow_life S b out s \<Longrightarrow> piece S (taken out s) n l (th_flags th) \<Longrightarrow> ntohl (th_seq th) = b + of_nat n \<Longrightarrow>
    s' = handle_segment th (subl n l S) s \<Longrightarrow> fl_state (cf s') \<noteq> CLOSED \<Longrightarrow> flow_life S b (out @ new_reads s s') s'"
| Own: "flow_life S b out s \<Longrightarrow>
    s' \<in> {read_entry bs (sum_list bs) h s, write_entry ds n h s, write_loop_step s, coro_timer s, coro_device ec s,
         on_ack_timer s, shutdown_send_entry s, accept_flow s} \<Longrightarrow>
    fl_state (cf s') \<noteq> CLOSED \<Longrightarrow> flow_life S b (out @ new_reads s s') s'"
| Other: "flow_life S b out s \<Longrightarrow> cf s' = cf s \<Longrightarrow> charge (cf s) \<le> used s' \<Longrightarrow> flow_life S b out s'"

lemma fed_taken:
  assumes i: "rx_inv S b N s" and o: "out @ rx_queue (cf s) = take N S" and f: "fed S b N s s'"
  shows "rx_inv S b (taken (out @ new_reads s s') s') s' \<and>
    (out @ new_reads s s') @ rx_queue (cf s') = take (taken (out @ new_reads s s') s') S"
proof -
  obtain N' where N': "N \<le> N'" "rx_inv S b N' s'" "feeds s (subl N (N' - N) S) s'" using f by (auto simp: fed_def)
  have g: "rx_good s" using i by (simp add: rx_inv_def drain_inv_def)
  then obtain new where n: "e_posted (cenv s') = e_posted (cenv s) @ new" "rx_queue (cf s) @ subl N (N' - N) S = read_log new @ rx_queue (cf s')"
    using N'(3) by (auto simp: feeds_def)
  hence nr: "new_reads s s' = read_log new" by (simp add: new_reads_def)
  have l: "N' \<le> length S" by (rule rx_inv_pos(2) [OF N'(2)])
  have "(out @ new_reads s s') @ rx_queue (cf s') = (out @ rx_queue (cf s)) @ subl N (N' - N) S" using n(2) nr by simp
  also have "\<dots> = take N' S" unfolding o subl_def using N'(1) by (metis le_add_diff_inverse take_add)
  finally have e: "(out @ new_reads s s') @ rx_queue (cf s') = take N' S" .
  have "taken (out @ new_reads s s') s' = N'" using arg_cong [OF e, of length] l by (simp add: taken_def)
  thus ?thesis using e N'(2) by simp
qed

lemma flow_life_inv: "flow_life S b out s \<Longrightarrow> rx_inv S b (taken out s) s \<and> out @ rx_queue (cf s) = take (taken out s) S"
proof (induction rule: flow_life.induct)
  case (Open s)
  thus ?case by (simp add: taken_def)
next
  case (Segment out s n l th s')
  thus ?case using fed_taken [OF _ _ handle_segment_fed] by blast
next
  case (Own out s s' bs h ds n ec)
  have "idle s s'" using Own.hyps(2) read_entry_idle write_entry_idle write_loop_step_idle timer_idle accept_flow_idle by auto
  thus ?case using fed_taken [OF _ _ fed_idle] Own by blast
next
  case (Other out s s')
  have "taken out s' = taken out s" using Other by (simp add: taken_def)
  moreover have "rx_inv S b (taken out s) s'"
    using Other unfolding rx_inv_def drain_inv_def by (simp add: rx_good_def)
  ultimately show ?case using Other by simp
qed

text \<open>
  C1. Stream integrity: for every order, duplication, overlap, loss and re-segmentation of the peer's
  segments, interleaved with any other activity of the flow and the engine, the bytes the application
  has read followed by those still queued are a prefix of the stream the peer sent; and once the FIN
  has been taken in they are the whole stream.
\<close>

theorem tcp_stream_integrity:
  assumes "flow_life S b out s"
  shows "prefix (out @ rx_queue (cf s)) S \<and> (fin_received (cf s) \<longrightarrow> out @ rx_queue (cf s) = S)"
proof -
  note L = flow_life_inv [OF assms]
  hence "fin_received (cf s) \<Longrightarrow> taken out s = length S" using rx_inv_pos(3) by blast
  thus ?thesis using L by (auto simp: take_is_prefix)
qed

text \<open>
  The counters of an open flow: \<open>rx_bytes\<close> is the length of its receive queue, \<open>ooo_bytes\<close> the size of its
  out-of-order cache. That the accountant is charged exactly these is the subject of \<open>Tcp_Memory\<close>.
\<close>

theorem tcp_receive_counters:
  assumes "flow_life S b out s"
  shows "length (rx_queue (cf s)) = rx_bytes (cf s) \<and>
    ooo_bytes (cf s) = (\<Sum>p\<in>set (ooo_cache (cf s)). length (og_data (snd p)))"
  using flow_life_inv [OF assms] unfolding rx_inv_def drain_inv_def
  by (auto simp: rx_good_def rx_queue_def cache_bytes_def)

section \<open>A sample life\<close>

lemma segment_keeps_open:
  assumes i: "rx_inv S b N s" and p: "piece S N n l (th_flags th)" and q: "ntohl (th_seq th) = b + of_nat n"
    and st: "fl_state (cf s) = ESTABLISHED" "\<not> fin_pending (cf s)" "\<not> has_flag (th_flags th) TCP_RST"
  shows "fl_state (cf (handle_segment th (subl n l S) s)) \<noteq> CLOSED"
proof -
  define u where "u = (if has_flag (th_flags th) TCP_ACK
    then upf (\<lambda>f. f\<lparr>peer_wnd := push_bit (unat (snd_wnd_scale f)) (ucast (ntohs (th_window th)))\<rparr>)
      (upf (\<lambda>f. (ack_advance (ntohl (th_ack th)) f)\<lparr>probe_in_flight := False\<rparr>) s) else s)"
  have a: "fin_pending (ack_advance x f) = fin_pending f" "fl_state (ack_advance x f) = fl_state f" for x f by (simp_all add: ack_advance_def)
  have "idle t (upf (\<lambda>f. (ack_advance x f)\<lparr>probe_in_flight := False\<rparr>) t)" "idle t (upf (\<lambda>f. f\<lparr>peer_wnd := w f\<rparr>) t)" for t x w
    by (rule upf_idle, simp add: ack_advance_def)+
  note A = this
  have "idle s u" unfolding u_def using idle_trans [OF A(1) A(2)] by simp
  moreover have nu: "fl_state (cf u) = ESTABLISHED" using st a by (simp add: u_def)
  ultimately have "rx_inv S b N u" using idle_inv [OF i] by simp
  then obtain N' where "rx_inv S b N' (segment_payload (b + of_nat n) (subl n l S) (th_flags th) u)"
    using segment_payload_ok [OF _ p] by blast
  hence "fl_state (cf (segment_payload (b + of_nat n) (subl n l S) (th_flags th) u)) \<noteq> CLOSED" by (simp add: rx_inv_def drain_inv_def)
  moreover have "handle_segment th (subl n l S) s = signal_write (segment_payload (b + of_nat n) (subl n l S) (th_flags th) u)"
    using st nu by (simp add: handle_segment_def handle_ack_def Let_def u_def a pending_fin_due_def q segment_state_def segment_established_def)
  ultimately show ?thesis by (simp add: signal_write_def)
qed

definition sample_stream :: "byte list" where "sample_stream = [1, 2, 3, 4]"

definition sample_open :: tcp_ctx where
  "sample_open = \<lparr>cf = tcp_flow0\<lparr>fl_state := ESTABLISHED, rcv_nxt := 6\<rparr>, ce = tcp_engine_new default_config sample_env, cx = None\<rparr>"

definition sample_header :: "u32 \<Rightarrow> tcp_header" where
  "sample_header q = \<lparr>th_src_port = 0, th_dst_port = 0, th_seq = htonl q, th_ack = 0, th_data_offset = 80, th_flags = TCP_PSH,
     th_window = 0, th_checksum = 0, th_urgent = 0\<rparr>"

text \<open>The second half of the stream arrives before the first.\<close>

definition sample_gap :: tcp_ctx where
  "sample_gap = handle_segment (sample_header 8) (subl 2 2 sample_stream) sample_open"

lemma sample_open_life: "flow_life sample_stream 6 [] sample_open"
  by (rule flow_life.Open) (simp_all add: sample_open_def tcp_flow0_def rx_inv_def drain_inv_def rcv_at_def cache_ok_def cache_bytes_def rx_good_def
      charge_def rx_queue_def)

lemma sample_gap_life: "flow_life sample_stream 6 ([] @ new_reads sample_open sample_gap) sample_gap"
proof (rule flow_life.Segment [OF sample_open_life, of 2 2 "sample_header 8"])
  have t: "taken [] sample_open = 0" by (simp add: taken_def sample_open_def tcp_flow0_def rx_queue_def)
  have f: "\<not> has_flag TCP_PSH TCP_FIN" "\<not> has_flag TCP_PSH TCP_RST" by (simp_all add: has_flag_def TCP_PSH_def TCP_FIN_def TCP_RST_def)
  show p: "piece sample_stream (taken [] sample_open) 2 2 (th_flags (sample_header 8))"
    using f t by (simp add: piece_def sample_stream_def sample_header_def)
  show q: "ntohl (th_seq (sample_header 8)) = 6 + of_nat 2" by (simp add: sample_header_def)
  show "fl_state (cf sample_gap) \<noteq> CLOSED" unfolding sample_gap_def
    by (rule segment_keeps_open [OF conjunct1 [OF flow_life_inv [OF sample_open_life]] p q])
       (simp_all add: sample_open_def tcp_flow0_def sample_header_def f)
qed (simp add: sample_gap_def)

theorem tcp_stream_integrity_witness:
  "prefix (([] @ new_reads sample_open sample_gap) @ rx_queue (cf sample_gap)) sample_stream"
  using tcp_stream_integrity [OF sample_gap_life] by blast

theorem tcp_receive_counters_witness:
  "length (rx_queue (cf sample_gap)) = rx_bytes (cf sample_gap)"
  using tcp_receive_counters [OF sample_gap_life] by blast

end
