(* ===== verification/Tcp_Memory.thy ===== *)
theory Tcp_Memory
  imports Tcp_System
begin

text \<open>
  The memory of the receive side, over every run of the engine. \<^verbatim>\<open>buffer_accountant\<close> is shared by
  all flows; each flow counts in \<open>rx_bytes\<close> and \<open>ooo_bytes\<close> what it has charged. \<open>books\<close> is what remains of
  the accountant's counter without the charge of one flow: every operation of the flow leaves it alone, so
  the counter is always the sum of what the flows have charged. The counters are of type \<^verbatim>\<open>size_t\<close>, so
  the equations are between 64-bit words and need no assumption on the segments that arrive.
\<close>

section \<open>Operations that balance\<close>

definition books :: "tcp_ctx \<Rightarrow> u64" where
  "books s = of_nat (used s) - of_nat (charge (cf s))"

text \<open>The queue is what \<open>rx_bytes\<close> says, and a closed flow holds nothing.\<close>

definition rx_ok :: "tcp_flow \<Rightarrow> bool" where
  "rx_ok f \<longleftrightarrow> rx_head f + rx_bytes f = length (rx_data f) \<and>
     (fl_state f = CLOSED \<longrightarrow> rx_data f = [] \<and> ooo_cache f = [] \<and> ooo_bytes f = 0)"


text \<open>\<open>balanced\<close>: what an operation charges or releases is what the counters of its flow change by.\<close>

definition balanced :: "tcp_ctx \<Rightarrow> tcp_ctx \<Rightarrow> bool" where
  "balanced s s' \<longleftrightarrow> books s' = books s \<and> (rx_ok (cf s) \<longrightarrow> rx_ok (cf s'))"

text \<open>The same for the receive path, which runs on open flows and leaves them open.\<close>

definition receives :: "tcp_ctx \<Rightarrow> tcp_ctx \<Rightarrow> bool" where
  "receives s s' \<longleftrightarrow> (fl_state (cf s) \<noteq> CLOSED \<longrightarrow> balanced s s' \<and> fl_state (cf s') \<noteq> CLOSED)"

lemma balanced_refl [simp]: "balanced s s"
  by (simp add: balanced_def)


lemma receives_refl [simp]: "receives s s"
  by (simp add: receives_def)



lemma size_sub_word [simp]: "(of_nat (size_sub a b) :: u64) = of_nat a - of_nat b"
proof (cases "b \<le> a")
  case False
  have m: "of_nat (x mod size_max) = (of_nat x :: u64)" for x
    by (simp add: word_unat_eq_iff unat_of_nat size_max_def)
  have l: "b mod size_max \<le> a + size_max" by (simp add: size_max_def trans_le_add2)
  have "(of_nat (a + size_max - b mod size_max) :: u64) = of_nat a + of_nat size_max - of_nat b"
    using l m by (simp add: of_nat_diff)
  moreover have "(of_nat size_max :: u64) = 0" by (simp add: size_max_def)
  ultimately show ?thesis using False m [of "a + size_max - b mod size_max"] by (simp add: size_sub_def)
qed (simp add: of_nat_diff)








section \<open>The receive path\<close>







lemma handle_fin_state [simp]: "fl_state (cf (handle_fin q s)) = CLOSED \<longleftrightarrow> fl_state (cf s) = CLOSED"
  by (simp add: handle_fin_def Let_def)










section \<open>Connections\<close>














section \<open>The send side and the calls of the application\<close>













section \<open>The engine\<close>















section \<open>Property\<close>


section \<open>A sample: a SYN that carries two bytes\<close>







end
