(* ===== verification/Packet_Build.thy ===== *)
theory Packet_Build
  imports Queue_Writer Checksum
begin

text \<open>
  Building packets in pooled send buffers: what \<^verbatim>\<open>acquire\<close> hands out when the pool is well
  formed, the bytes of a buffer after a packet has been written into it, and IPv4 headers whose
  checksum field is filled in afterwards. Shared by the UDP, TCP and ICMP senders.
\<close>

section \<open>Buffers from the pool\<close>

definition pool_wf :: "env \<Rightarrow> bool" where
  "pool_wf e \<longleftrightarrow> (\<forall>b\<in>set (qw_pool (e_writer e)). pb_wf b)"

lemma pool_take_wf:
  "pool_take c h bs = (r, rest) \<Longrightarrow> \<forall>b\<in>set bs. pb_wf b \<Longrightarrow>
    (\<forall>b\<in>set rest. pb_wf b) \<and> (\<forall>b. r = Some b \<longrightarrow> pb_wf b \<and> c \<le> pb_capacity b \<and> pb_headroom b = h)"
  by (induction bs) (auto split: if_splits)

lemma acquire_wf:
  assumes "pool_wf e" "h < c"
  obtains b e' where "acquire c h e = (Inr b, e')" "pb_wf b" "c \<le> pb_capacity b" "pb_headroom b = h" "pool_wf e'"
proof -
  obtain r rest where t: "pool_take c h (rev (qw_pool (e_writer e))) = (r, rest)" by fastforce
  have w: "(\<forall>b\<in>set rest. pb_wf b) \<and> (\<forall>b. r = Some b \<longrightarrow> pb_wf b \<and> c \<le> pb_capacity b \<and> pb_headroom b = h)"
    using pool_take_wf [OF t] assms(1) by (simp add: pool_wf_def)
  obtain b where b: "fst (acquire c h e) = Inr b" "pb_wf b" "c \<le> pb_capacity b" "pb_headroom b = h"
    using t w assms(2) by (cases r) (auto simp: acquire_def Let_def packet_buffer_new_def pb_wf_def)
  have "pool_wf (snd (acquire c h e))" using t w by (auto simp: acquire_def Let_def pool_wf_def split: option.splits)
  thus thesis using that [of b "snd (acquire c h e)"] b by (metis prod.collapse)
qed

lemma alloc_ip_id_pool [simp]: "pool_wf (snd (alloc_ip_id e)) = pool_wf e"
  by (simp add: alloc_ip_id_def pool_wf_def Let_def)

text \<open>A buffer that has been resized to \<open>n\<close> bytes and overwritten from its front holds the first \<open>n\<close> written bytes.\<close>

lemma length_pb_from_data: "pb_wf b \<Longrightarrow> length (pb_from_data b) = pb_capacity b - pb_headroom b"
  by (simp add: pb_from_data_def pb_wf_def)

lemma pb_from_data_size [simp]: "pb_from_data (b\<lparr>pb_data_size := n\<rparr>) = pb_from_data b"
  by (simp add: pb_from_data_def)

lemma buffer_poke:
  assumes "pb_wf b" "length base = pb_capacity b - pb_headroom b" "n \<le> length base"
  shows "pb_bytes (pb_poke (b\<lparr>pb_data_size := n\<rparr>) 0 base) = take n base"
    "pb_wf (pb_poke (b\<lparr>pb_data_size := n\<rparr>) 0 base)"
  using assms by (auto simp: pb_bytes_def pb_poke_def subl_def blit_def pb_wf_def)

section \<open>Writing at the front of a block\<close>

lemma blit_front: "blit xs 0 ys = ys @ drop (length ys) xs"
  by (simp add: blit_def)

lemma blit_at_end: "length xs = i \<Longrightarrow> blit (xs @ zs) i ys = xs @ ys @ drop (length ys) zs"
  by (simp add: blit_def)

lemma subl_0: "subl 0 n xs = take n xs"
  by (simp add: subl_def)

section \<open>IPv4 headers with a checksum filled in\<close>

definition filled_ipv4 :: "ipv4_header \<Rightarrow> byte list" where
  "filled_ipv4 h = blit (store_ipv4_header h) 10 (st16 (htons (ip_checksum (store_ipv4_header h))))"

lemma length_filled_ipv4 [simp]: "length (filled_ipv4 h) = 20"
  by (simp add: filled_ipv4_def)

lemma store_ipv4_csum_field: "ip4_checksum h = 0 \<Longrightarrow> subl 10 2 (store_ipv4_header h) = [0, 0]"
  by (simp add: store_ipv4_header_def subl_def st16_def)

lemma fill_ipv4:
  assumes "ip4_checksum h = 0"
  shows "blit (store_ipv4_header h @ rest) 10 (st16 (htons (ipv4_checksum (store_ipv4_header h @ rest) 20))) = filled_ipv4 h @ rest"
  using store_ipv4_csum_field [OF assms] by (simp add: ipv4_checksum_zeroed blit_append_left filled_ipv4_def)

lemma filled_ipv4_verifies:
  assumes "ip4_checksum h = 0" shows "verify_ipv4_checksum (filled_ipv4 h @ rest) 20 = 0"
proof -
  let ?s = "store_ipv4_header h"
  have "ip_checksum (blit ?s 10 [hi8 (ip_checksum ?s), lo8 (ip_checksum ?s)]) = 0"
    by (rule plain_csum.filled_verifies) (simp_all add: store_ipv4_csum_field assms)
  thus ?thesis by (simp add: verify_ipv4_checksum_def ip_checksum_def filled_ipv4_def st16_ntohs)
qed

lemma filled_ipv4_load:
  "load_ipv4_header (filled_ipv4 h @ rest) = h\<lparr>ip4_checksum := htons (ip_checksum (store_ipv4_header h))\<rparr>"
proof -
  have "filled_ipv4 h = store_ipv4_header (h\<lparr>ip4_checksum := htons (ip_checksum (store_ipv4_header h))\<rparr>)"
    by (simp add: filled_ipv4_def) (simp add: store_ipv4_header_def st16_def st32_def blit_def)
  thus ?thesis by (simp only: load_store_ipv4_header)
qed

lemma build_ipv4_filled:
  assumes "20 \<le> length buf"
  shows "fst (build_ip_header buf 4 src_ip dst_ip protocol total_len ip_id ttl) =
    filled_ipv4 \<lparr>ip4_version_ihl = 0x45, ip4_tos = 0, ip4_total_len = htons (of_nat total_len), ip4_id = htons ip_id,
      ip4_frag_off = htons 0x4000, ip4_ttl = ttl, ip4_protocol = protocol, ip4_checksum = 0,
      ip4_src_ip = ld32 src_ip 0, ip4_dst_ip = ld32 dst_ip 0\<rparr> @ drop 20 buf"
  by (simp add: build_ip_header_def Let_def blit_front fill_ipv4)

lemma build_ipv6_stored:
  assumes "family \<noteq> 4" "16 \<le> length src_ip" "16 \<le> length dst_ip"
  shows "fst (build_ip_header buf family src_ip dst_ip protocol total_len ip_id ttl) =
    store_ipv6_header \<lparr>ip6_vtc_flow = htonl 0x60000000,
      ip6_payload_len = htons (of_nat (if total_len > 40 then total_len - 40 else 0)), ip6_next_header = protocol, ip6_hop_limit = ttl,
      ip6_src_ip = subl 0 16 src_ip, ip6_dst_ip = subl 0 16 dst_ip\<rparr> @ drop 40 buf"
  using assms by (simp add: build_ip_header_def Let_def blit_front)

end
