(* ===== verification/Ip_Input.thy ===== *)
theory Ip_Input
  imports Packet_Build
begin

text \<open>
  The validation of packets read from the device, the first half of
  \<^verbatim>\<open>tunio_impl::handle_packet\<close> (\<^verbatim>\<open>src/tunio.cpp\<close>): which bytes are an IP
  packet for the engines, with what addresses and transport payload, and which addresses the loopback
  guard refuses.
\<close>

section \<open>Headers\<close>

text \<open>\<^verbatim>\<open>memcpy\<close> of an address into the zeroed 16 byte arrays of \<^verbatim>\<open>ip_packet_info\<close>.\<close>

definition info_addr :: "byte list \<Rightarrow> byte list" where
  "info_addr a = a @ replicate (16 - length a) 0"

text \<open>\<open>None\<close> is a packet that is dropped; otherwise its information and the transport payload.\<close>

definition classify_v4 :: "byte list \<Rightarrow> (ip_packet_info \<times> byte list) option" where
  "classify_v4 pkt =
     (if length pkt < sizeof_ipv4_header then None
      else
        let h = load_ipv4_header pkt; ihl = ip4_header_len h in
        if ihl < sizeof_ipv4_header \<or> ihl > length pkt then None
        else
          let total_len = unat (ntohs (ip4_total_len h)) in
          if total_len < ihl \<or> total_len > length pkt then None
          else
            let frag = ntohs (ip4_frag_off h) in
            if frag AND 0x1fff \<noteq> 0 \<or> frag AND 0x2000 \<noteq> 0 then None
            else if verify_ipv4_checksum pkt ihl \<noteq> 0 then None
            else Some (\<lparr>pi_family = 4, pi_protocol = ip4_protocol h, pi_src_ip = info_addr (subl 12 4 pkt),
                        pi_dst_ip = info_addr (subl 16 4 pkt)\<rparr>, subl ihl (total_len - ihl) pkt))"

definition v6_extension :: "byte \<Rightarrow> bool" where
  "v6_extension nh \<longleftrightarrow> nh = 0 \<or> nh = 43 \<or> nh = 44 \<or> nh = 51 \<or> nh = 60"

definition classify_v6 :: "byte list \<Rightarrow> (ip_packet_info \<times> byte list) option" where
  "classify_v6 pkt =
     (if length pkt < sizeof_ipv6_header then None
      else
        let h = load_ipv6_header pkt; payload_len = unat (ntohs (ip6_payload_len h)) in
        if sizeof_ipv6_header + payload_len > length pkt then None
        else if v6_extension (ip6_next_header h) then None
        else Some (\<lparr>pi_family = 6, pi_protocol = ip6_next_header h, pi_src_ip = ip6_src_ip h, pi_dst_ip = ip6_dst_ip h\<rparr>,
                   subl sizeof_ipv6_header payload_len pkt))"

definition classify :: "byte list \<Rightarrow> (ip_packet_info \<times> byte list) option" where
  "classify pkt =
     (if length pkt < 20 then None
      else
        let version = drop_bit 4 (pkt ! 0) in
        if version = 4 then classify_v4 pkt else if version = 6 then classify_v6 pkt else None)"

section \<open>The loopback guard\<close>

definition is_reserved_local :: "byte list \<Rightarrow> byte \<Rightarrow> bool" where
  "is_reserved_local a family \<longleftrightarrow>
     (if family = 4 then a ! 0 = 0x7f \<or> a ! 0 = 0x00
      else if list_all (\<lambda>b. b = 0) (take 15 a) then a ! 15 = 0 \<or> a ! 15 = 1
      else a ! 0 = 0xfe \<and> a ! 1 AND 0xc0 = 0x80)"

definition guard_drops :: "byte list option \<Rightarrow> byte list option \<Rightarrow> ip_packet_info \<Rightarrow> bool" where
  "guard_drops local4 local6 ip \<longleftrightarrow>
     (case local4 of None \<Rightarrow> False | Some a \<Rightarrow> pi_family ip = 4 \<and> take 4 (pi_src_ip ip) = a) \<or>
     (case local6 of None \<Rightarrow> False | Some a \<Rightarrow> pi_family ip = 6 \<and> take 16 (pi_src_ip ip) = a) \<or>
     is_reserved_local (pi_src_ip ip) (pi_family ip) \<or> is_reserved_local (pi_dst_ip ip) (pi_family ip)"

section \<open>What is accepted\<close>

lemma length_info_addr [simp]: "length a \<le> 16 \<Longrightarrow> length (info_addr a) = 16"
  by (simp add: info_addr_def)

lemma classify_cases:
  assumes "classify pkt = Some (ip, payload)"
  shows "pi_family ip = 4 \<and> classify_v4 pkt = Some (ip, payload) \<or> pi_family ip = 6 \<and> classify_v6 pkt = Some (ip, payload)"
proof -
  have "pi_family ip = 4" if "classify_v4 pkt = Some (ip, payload)"
    using that by (auto simp: classify_v4_def Let_def split: if_splits)
  moreover have "pi_family ip = 6" if "classify_v6 pkt = Some (ip, payload)"
    using that by (auto simp: classify_v6_def Let_def split: if_splits)
  ultimately show ?thesis using assms by (auto simp: classify_def Let_def split: if_splits)
qed

lemma classify_addr_length:
  assumes "classify pkt = Some (ip, payload)" shows "length (pi_src_ip ip) = 16" "length (pi_dst_ip ip) = 16"
proof -
  have "length (pi_src_ip ip) = 16 \<and> length (pi_dst_ip ip) = 16"
    using classify_cases [OF assms]
    by (auto simp: classify_v4_def classify_v6_def Let_def load_ipv6_header_def split: if_splits)
  thus "length (pi_src_ip ip) = 16" "length (pi_dst_ip ip) = 16" by auto
qed

text \<open>The payload is a part of the packet that starts behind the header.\<close>

lemma classify_payload:
  assumes "classify pkt = Some (ip, payload)"
  shows "\<exists>i. 20 \<le> i \<and> i + length payload \<le> length pkt \<and> payload = subl i (length payload) pkt"
proof (cases "classify_v4 pkt = Some (ip, payload)")
  case True
  define i where "i = ip4_header_len (load_ipv4_header pkt)"
  define t where "t = unat (ntohs (ip4_total_len (load_ipv4_header pkt)))"
  have "20 \<le> i \<and> i \<le> t \<and> t \<le> length pkt \<and> payload = subl i (t - i) pkt"
    using True by (auto simp: classify_v4_def Let_def i_def t_def split: if_splits)
  thus ?thesis by (intro exI [of _ i]) auto
next
  case False
  hence "classify_v6 pkt = Some (ip, payload)" using classify_cases [OF assms] by blast
  moreover define n where "n = unat (ntohs (ip6_payload_len (load_ipv6_header pkt)))"
  ultimately have "payload = subl 40 n pkt \<and> 40 + n \<le> length pkt"
    by (auto simp: classify_v6_def Let_def split: if_splits)
  thus ?thesis by (intro exI [of _ 40]) auto
qed

section \<open>Built packets are accepted\<close>

lemma st32_ld32: "4 \<le> length a \<Longrightarrow> st32 (ld32 a 0) = take 4 a"
proof -
  assume "4 \<le> length a"
  then obtain b0 b1 b2 b3 r where "a = b0 # b1 # b2 # b3 # r"
    by (auto simp: Suc_le_length_iff eval_nat_numeral)
  thus ?thesis by (simp add: st32_def ld32_def le32_def)
qed

lemma filled_ipv4_addrs:
  "subl 12 4 (filled_ipv4 h @ rest) = st32 (ip4_src_ip h)" "subl 16 4 (filled_ipv4 h @ rest) = st32 (ip4_dst_ip h)"
  by (simp_all add: filled_ipv4_def store_ipv4_header_def blit_def subl_def st16_def st32_def)

lemma classify_built_v4:
  assumes "ip4_checksum h = 0" "ip4_version_ihl h = 0x45" "ip4_total_len h = htons (of_nat (20 + length payload))"
    "ntohs (ip4_frag_off h) AND 0x1fff = 0" "ntohs (ip4_frag_off h) AND 0x2000 = 0" "20 + length payload \<le> 65535"
  shows "classify (filled_ipv4 h @ payload) = Some (\<lparr>pi_family = 4, pi_protocol = ip4_protocol h,
    pi_src_ip = info_addr (st32 (ip4_src_ip h)), pi_dst_ip = info_addr (st32 (ip4_dst_ip h))\<rparr>, payload)"
proof -
  let ?p = "filled_ipv4 h @ payload"
  have L: "load_ipv4_header ?p = h\<lparr>ip4_checksum := htons (ip_checksum (store_ipv4_header h))\<rparr>" by (rule filled_ipv4_load)
  have hl: "ip4_header_len (load_ipv4_header ?p) = 20" unfolding L by (simp add: ip4_header_len_def ip4_ihl_def assms(2))
  have tl: "unat (ntohs (ip4_total_len (load_ipv4_header ?p))) = 20 + length payload"
    unfolding L using assms(3,6) by (simp add: unat_word_ariths unat_of_nat)
  have "?p ! 0 = 0x45" using arg_cong [OF L, of ip4_version_ihl] assms(2) by (simp add: load_ipv4_header_def)
  hence v: "drop_bit 4 (?p ! 0) = 4" by simp
  have "classify_v4 ?p = Some (\<lparr>pi_family = 4, pi_protocol = ip4_protocol h,
      pi_src_ip = info_addr (st32 (ip4_src_ip h)), pi_dst_ip = info_addr (st32 (ip4_dst_ip h))\<rparr>, payload)"
    unfolding classify_v4_def Let_def hl tl filled_ipv4_addrs filled_ipv4_verifies [OF assms(1)]
    using assms(4,5) by (simp add: L subl_def)
  thus ?thesis unfolding classify_def Let_def v by simp
qed

lemma classify_built_v6:
  assumes "ip6_vtc_flow h = htonl 0x60000000" "ip6_payload_len h = htons (of_nat (length payload))" "\<not> v6_extension (ip6_next_header h)"
    "length (ip6_src_ip h) = 16" "length (ip6_dst_ip h) = 16" "length payload \<le> 65535"
  shows "classify (store_ipv6_header h @ payload) = Some (\<lparr>pi_family = 6, pi_protocol = ip6_next_header h,
    pi_src_ip = ip6_src_ip h, pi_dst_ip = ip6_dst_ip h\<rparr>, payload)"
proof -
  let ?p = "store_ipv6_header h @ payload"
  have L: "load_ipv6_header ?p = h" by (rule load_store_ipv6_header [OF assms(4,5)])
  have len: "length ?p = 40 + length payload" using assms(4,5) by simp
  have pl: "unat (ntohs (ip6_payload_len h)) = length payload"
    using assms(2,6) by (simp add: unat_of_nat)
  have "?p ! 0 = 0x60" using assms(1) by (simp add: store_ipv6_header_def st32_def ntohl_def be32_def)
  hence v: "drop_bit 4 (?p ! 0) = 6" by simp
  have "classify_v6 ?p = Some (\<lparr>pi_family = 6, pi_protocol = ip6_next_header h, pi_src_ip = ip6_src_ip h, pi_dst_ip = ip6_dst_ip h\<rparr>, payload)"
    unfolding classify_v6_def Let_def L pl len using assms(3,4,5) by (simp add: subl_def)
  thus ?thesis unfolding classify_def Let_def v len by simp
qed

section \<open>The headers the senders write\<close>

text \<open>The bytes of an address that the family uses.\<close>

definition addr_len :: "nat \<Rightarrow> nat" where
  "addr_len family = (if family = 6 then 16 else 4)"

definition info_of :: "nat \<Rightarrow> byte list \<Rightarrow> byte list" where
  "info_of family a = info_addr (take (addr_len family) a)"

lemma checksum_padded:
  assumes "addr_len family \<le> length s" "addr_len family \<le> length d"
  shows "tcp_udp_checksum family (info_of family s) (info_of family d) = tcp_udp_checksum family s d"
proof -
  have "take (addr_len family) (info_of family s) = take (addr_len family) s"
    "take (addr_len family) (info_of family d) = take (addr_len family) d"
    using assms by (simp_all add: info_of_def info_addr_def)
  thus ?thesis by (simp add: fun_eq_iff tcp_udp_checksum_def Let_def flip: addr_len_def)
qed

text \<open>
  \<open>ip_bytes\<close> is the header \<^verbatim>\<open>build_ip_header\<close> leaves at the front of a buffer for a packet of
  \<open>total_len\<close> bytes, whatever the buffer held.
\<close>

definition ip_bytes :: "nat \<Rightarrow> byte list \<Rightarrow> byte list \<Rightarrow> byte \<Rightarrow> nat \<Rightarrow> u16 \<Rightarrow> byte list" where
  "ip_bytes family s d protocol total_len ip_id =
     (if family = 4 then
        filled_ipv4 \<lparr>ip4_version_ihl = 0x45, ip4_tos = 0, ip4_total_len = htons (of_nat total_len), ip4_id = htons ip_id,
          ip4_frag_off = htons 0x4000, ip4_ttl = 64, ip4_protocol = protocol, ip4_checksum = 0,
          ip4_src_ip = ld32 s 0, ip4_dst_ip = ld32 d 0\<rparr>
      else store_ipv6_header \<lparr>ip6_vtc_flow = htonl 0x60000000, ip6_payload_len = htons (of_nat (total_len - 40)),
          ip6_next_header = protocol, ip6_hop_limit = 64, ip6_src_ip = subl 0 16 s, ip6_dst_ip = subl 0 16 d\<rparr>)"

lemma build_ip_bytes:
  assumes "addr_len family \<le> length s" "addr_len family \<le> length d"
    and "family = 4 \<and> 20 \<le> length buf \<or> family = 6 \<and> 40 \<le> length buf \<and> 40 \<le> total_len"
  shows "fst (build_ip_header buf family s d protocol total_len ip_id 64) =
    ip_bytes family s d protocol total_len ip_id @ drop (ip_header_size family) buf"
proof (cases "family = 4")
  case True
  thus ?thesis using assms build_ipv4_filled [of buf s d protocol total_len ip_id 64] by (simp add: ip_bytes_def ip_header_size_def)
next
  case False
  hence "family = 6" "16 \<le> length s" "16 \<le> length d" "40 \<le> total_len" using assms by (auto simp: addr_len_def)
  moreover from this have "(if 40 < total_len then total_len - 40 else 0) = total_len - 40" by simp
  ultimately show ?thesis using build_ipv6_stored [of family s d buf protocol total_len ip_id 64]
    by (simp add: ip_bytes_def ip_header_size_def)
qed

lemma length_ip_bytes [simp]:
  "family = 4 \<or> family = 6 \<Longrightarrow> addr_len family \<le> length s \<Longrightarrow> addr_len family \<le> length d \<Longrightarrow>
    length (ip_bytes family s d protocol total_len ip_id) = ip_header_size family"
  by (auto simp: ip_bytes_def ip_header_size_def addr_len_def)

text \<open>A packet of which the header is \<open>ip_bytes\<close> passes the checks of the input path.\<close>

lemma classify_ip_bytes:
  assumes "family = 4 \<or> family = 6" "addr_len family \<le> length s" "addr_len family \<le> length d"
    and "ip_header_size family + length payload \<le> 65535" and "\<not> v6_extension protocol"
  shows "classify (ip_bytes family s d protocol (ip_header_size family + length payload) ip_id @ payload) =
    Some (\<lparr>pi_family = of_nat family, pi_protocol = protocol, pi_src_ip = info_of family s, pi_dst_ip = info_of family d\<rparr>, payload)"
proof (cases "family = 4")
  case True
  thus ?thesis using assms
    by (simp add: ip_bytes_def ip_header_size_def addr_len_def info_of_def classify_built_v4 st32_ld32)
next
  case False
  hence "family = 6" "16 \<le> length s" "16 \<le> length d" using assms by (auto simp: addr_len_def)
  thus ?thesis using assms
    by (simp add: ip_bytes_def ip_header_size_def addr_len_def info_of_def classify_built_v6 info_addr_def subl_def)
qed

end
