(* ===== verification/Tcp_Segments.thy ===== *)
theory Tcp_Segments
  imports Tcp_Write Ip_Input
begin

text \<open>
  Correctness of the segments the TCP engine emits: a segment that fits the MTU is one IP packet that the
  input path of an engine at the other end accepts and hands to its flow with the sequence number,
  acknowledgement, flags and payload asked for (\<^verbatim>\<open>tcp_engine::build_segment\<close>).
\<close>

section \<open>The bytes of a segment\<close>

lemma blit_append_right: "length xs \<le> i \<Longrightarrow> blit (xs @ zs) i ys = xs @ blit zs (i - length xs) ys"
  by (simp add: blit_def)

definition tcp_bytes :: "nat \<Rightarrow> byte list \<Rightarrow> byte list \<Rightarrow> tcp_header \<Rightarrow> byte list \<Rightarrow> byte list" where
  "tcp_bytes fam s d th rest =
     store_tcp_header (th\<lparr>th_checksum := htons (tcp_udp_checksum fam s d ip_protocol_tcp (store_tcp_header th @ rest))\<rparr>) @ rest"

lemma tcp_bytes_filled:
  assumes "th_checksum th = 0"
  shows "blit (store_tcp_header th @ rest) 16 (st16 (htons (tcp_udp_checksum fam s d ip_protocol_tcp (store_tcp_header th @ rest)))) =
    tcp_bytes fam s d th rest"
  using assms by (simp add: tcp_bytes_def blit_append_left) (simp add: blit_def store_tcp_header_def st16_def st32_def)

lemma tcp_bytes_verify:
  assumes "th_checksum th = 0" "20 + length rest \<le> 65535"
  shows "tcp_udp_checksum fam s d ip_protocol_tcp (tcp_bytes fam s d th rest) = 0"
proof -
  let ?raw = "store_tcp_header th @ rest" and ?c = "tcp_udp_checksum fam s d ip_protocol_tcp (store_tcp_header th @ rest)"
  have z: "subl 16 2 ?raw = [0, 0]" using assms(1) by (simp add: store_tcp_header_def st16_def st32_def subl_def)
  have "tcp_udp_checksum fam s d ip_protocol_tcp (blit ?raw 16 [hi8 ?c, lo8 ?c]) = 0"
    by (rule pseudo_csum.filled_verifies) (use assms(2) z in simp_all)
  thus ?thesis using tcp_bytes_filled [OF assms(1), of rest fam s d] by (simp add: st16_ntohs)
qed

lemma length_tcp_bytes [simp]: "length (tcp_bytes fam s d th rest) = 20 + length rest"
  by (simp add: tcp_bytes_def)

lemma tcp_bytes_load:
  "load_tcp_header (tcp_bytes fam s d th rest) =
     th\<lparr>th_checksum := htons (tcp_udp_checksum fam s d ip_protocol_tcp (store_tcp_header th @ rest))\<rparr>"
  "drop 20 (tcp_bytes fam s d th rest) = rest"
  by (simp_all only: tcp_bytes_def load_store_tcp_header) simp

text \<open>The header of the segment that \<open>build_segment\<close> makes of a flow.\<close>

definition seg_options :: "bool \<Rightarrow> tcp_ctx \<Rightarrow> byte list" where
  "seg_options with_mss s = (if with_mss then segment_options s else [])"

definition seg_scale :: "tcp_flow \<Rightarrow> nat" where
  "seg_scale f = unat (if fl_state f = SYN_ACK_SENT then 0 else rcv_wnd_scale f)"

definition seg_header :: "u32 \<Rightarrow> byte \<Rightarrow> bool \<Rightarrow> tcp_ctx \<Rightarrow> tcp_header" where
  "seg_header seq flags with_mss s =
     (let f = cf s; scaled = drop_bit (seg_scale f) (current_wnd s)
      in \<lparr>th_src_port = ft_dst_port (fl_key f), th_dst_port = ft_src_port (fl_key f), th_seq = htonl seq, th_ack = htonl (rcv_nxt f),
          th_data_offset = push_bit 4 (if with_mss then 7 else 5), th_flags = flags,
          th_window = htons (if scaled > 65535 then 65535 else ucast scaled), th_checksum = 0, th_urgent = 0\<rparr>)"

lemma length_segment_options [simp]: "length (segment_options s) = 8"
  by (simp add: segment_options_def Let_def)

lemma seg_header_len:
  "th_header_len (seg_header seq flags with_mss s) = 20 + length (seg_options with_mss s)"
  by (simp add: th_header_len_def seg_header_def seg_options_def Let_def)

text \<open>The window depends on the flow, the configuration and the budget only.\<close>

lemma current_wnd_env [simp]:
  "e_account (g (cenv s)) = e_account (cenv s) \<Longrightarrow> current_wnd (on_env g s) = current_wnd s"
  by (simp add: current_wnd_def mss_def Let_def)

lemma segment_options_env [simp]: "segment_options (on_env g s) = segment_options s" "segment_options (upf (\<lambda>f. f\<lparr>last_wnd_advertised := w\<rparr>) s) = segment_options s"
  by (simp_all add: segment_options_def mss_def Let_def)

lemma build_segment_bytes:
  assumes pool: "pool_wf (cenv s)" and fam: "family = fl_family (cf s)" "family = 4 \<or> family = 6"
    and key: "src = ft_dst_ip (fl_key (cf s))" "dst = ft_src_ip (fl_key (cf s))" "addr_len family \<le> length src" "addr_len family \<le> length dst"
    and rest: "rest = seg_options with_mss s @ payload" and fits: "ip_header_size family + 20 + length rest \<le> mtu (ccfg s)"
  obtains pkt s' ip_id where "build_segment seq flags payload with_mss s = (Inr pkt, s')" "pb_wf pkt" "pool_wf (cenv s')"
    "pb_bytes pkt = ip_bytes family src dst ip_protocol_tcp (ip_header_size family + (20 + length rest)) ip_id @
      tcp_bytes family src dst (seg_header seq flags with_mss s) rest"
proof -
  let ?m = "mtu (ccfg s)" and ?h = "ip_header_size family"
  let ?t = "?h + (20 + length rest)"
  obtain b e1 where acq: "acquire (?m + 64) 64 (cenv s) = (Inr b, e1)" and b: "pb_wf b" "?m + 64 \<le> pb_capacity b" "pb_headroom b = 64"
    and e1: "pool_wf e1"
    by (rule acquire_wf [OF pool, of 64 "?m + 64"]) (use fits in simp)
  have ac: "e_account e1 = e_account (cenv s)" using acquire_sends [of "cenv s" "?m + 64" 64] acq by (simp add: env_sends_def)
  have lt: "?h + (if with_mss then 28 else 20) + length payload = ?t" by (simp add: rest seg_options_def)
  have rs: "pb_resize ?t b = Inr (b\<lparr>pb_data_size := ?t\<rparr>)" using pb_resize_ok [OF b(1)] b fits by simp
  obtain ip_id e2 where id: "alloc_ip_id e1 = (ip_id, e2)" by fastforce
  have e2: "pool_wf e2" "e_account e2 = e_account e1" using alloc_ip_id_pool [of e1] e1 id alloc_ip_id_sends [of e1] by (simp_all add: env_sends_def)
  define s2 where "s2 = on_env (\<lambda>_. e2) (on_env (\<lambda>_. e1) s)"
  have s2: "cf s2 = cf s" "cenv s2 = e2" "current_wnd s2 = current_wnd s" "segment_options s2 = segment_options s"
    using ac e2(2) by (simp_all add: s2_def)
  let ?x = "pb_from_data b"
  have lx: "?t \<le> length ?x" using length_pb_from_data [OF b(1)] b fits by simp
  define H where "H = ip_bytes family src dst ip_protocol_tcp ?t ip_id"
  have base: "fst (build_ip_header ?x family src dst ip_protocol_tcp ?t ip_id 64) = H @ drop ?h ?x"
    unfolding H_def by (rule build_ip_bytes) (use fam key lx in \<open>auto simp: ip_header_size_def\<close>)
  have li: "length H = ?h" using fam key by (simp add: H_def)
  define th where "th = seg_header seq flags with_mss s"
  let ?all = "H @ tcp_bytes family src dst th rest @ drop ?t ?x"
  have b1: "blit (H @ drop ?h ?x) ?h (store_tcp_header th) = H @ store_tcp_header th @ drop (?h + 20) ?x"
    using li by (simp add: blit_at_end add.commute)
  have b2: "(if with_mss then blit (H @ store_tcp_header th @ drop (?h + 20) ?x) (?h + 20) (segment_options s)
      else H @ store_tcp_header th @ drop (?h + 20) ?x) =
    H @ store_tcp_header th @ seg_options with_mss s @ drop (?h + 20 + length (seg_options with_mss s)) ?x"
    using li blit_at_end [of "H @ store_tcp_header th" "?h + 20" "drop (?h + 20) ?x" "segment_options s"]
    by (simp add: seg_options_def add.commute)
  have b3: "(if length payload > 0 then blit (H @ store_tcp_header th @ seg_options with_mss s @ drop (?h + 20 + length (seg_options with_mss s)) ?x)
        (?h + (if with_mss then 28 else 20)) payload
      else H @ store_tcp_header th @ seg_options with_mss s @ drop (?h + 20 + length (seg_options with_mss s)) ?x) =
    H @ (store_tcp_header th @ rest) @ drop ?t ?x"
    using li blit_at_end [of "H @ store_tcp_header th @ seg_options with_mss s" "?h + (if with_mss then 28 else 20)"
        "drop (?h + 20 + length (seg_options with_mss s)) ?x" payload]
    by (auto simp: rest seg_options_def ac_simps)
  have c: "subl ?h ((if with_mss then 28 else 20) + length payload) (H @ (store_tcp_header th @ rest) @ drop ?t ?x) = store_tcp_header th @ rest"
    using li by (simp add: subl_def rest seg_options_def)
  have f: "blit (H @ (store_tcp_header th @ rest) @ drop ?t ?x) (?h + 16)
      (st16 (htons (tcp_udp_checksum family src dst ip_protocol_tcp (store_tcp_header th @ rest)))) = ?all"
    using li tcp_bytes_filled [of th rest family src dst] by (simp add: blit_append_left blit_append_right th_def seg_header_def Let_def)
  have la: "length ?all = pb_capacity b - pb_headroom b" using li lx length_pb_from_data [OF b(1)] by simp
  have ta: "take ?t ?all = H @ tcp_bytes family src dst th rest" using li by simp
  have env1: "cenv (on_env (\<lambda>_. e1) s) = e1" by simp
  have opt: "segment_options (upf (\<lambda>f. f\<lparr>last_wnd_advertised := current_wnd s2\<rparr>) s2) = segment_options s" by (simp add: s2)
  have th_eq: "\<lparr>th_src_port = ft_dst_port (fl_key (cf s)), th_dst_port = ft_src_port (fl_key (cf s)), th_seq = htonl seq,
      th_ack = htonl (rcv_nxt (cf s)), th_data_offset = push_bit 4 (if with_mss then 7 else 5), th_flags = flags,
      th_window = htons (if 65535 < drop_bit (unat (if fl_state (cf s) = SYN_ACK_SENT then 0 else rcv_wnd_scale (cf s))) (current_wnd s2) then 65535
        else ucast (drop_bit (unat (if fl_state (cf s) = SYN_ACK_SENT then 0 else rcv_wnd_scale (cf s))) (current_wnd s2))),
      th_checksum = 0, th_urgent = 0\<rparr> = th"
    by (simp add: th_def seg_header_def seg_scale_def s2 Let_def)
  define s' where "s' = upf (\<lambda>f. f\<lparr>last_wnd_advertised := current_wnd s2\<rparr>) s2"
  have "build_segment seq flags payload with_mss s = (Inr (pb_poke (b\<lparr>pb_data_size := ?t\<rparr>) 0 ?all), s')"
    unfolding build_segment_def Let_def acq prod.case sum.case fam(1) [symmetric] key(1,2) [symmetric] lt rs id env1
      pb_from_data_size base s2_def [symmetric] th_eq opt b1 b2 b3 c f s'_def ..
  moreover have "pb_wf (pb_poke (b\<lparr>pb_data_size := ?t\<rparr>) 0 ?all)" "pb_bytes (pb_poke (b\<lparr>pb_data_size := ?t\<rparr>) 0 ?all) = take ?t ?all"
    using buffer_poke [OF b(1) la, of ?t] la lx length_pb_from_data [OF b(1)] by auto
  moreover have "pool_wf (cenv s')" using e2(1) by (simp add: s'_def s2)
  ultimately show thesis using that ta unfolding H_def th_def by metis
qed


lemma seg_window_bound:
  "unat (ntohs (th_window (seg_header seq flags with_mss s))) * 2 ^ seg_scale (cf s) \<le> unat (current_wnd s)"
proof -
  define c where "c = (drop_bit (seg_scale (cf s)) (current_wnd s) :: u32)"
  have c: "unat c * 2 ^ seg_scale (cf s) \<le> unat (current_wnd s)"
    by (simp add: c_def unat_drop_bit_eq) (simp add: drop_bit_eq_div)
  have "unat (if c > 65535 then 65535 else ucast c :: u16) \<le> unat c"
    by (simp add: unsigned_ucast_eq word_less_nat_alt)
  hence "unat (if c > 65535 then 65535 else ucast c :: u16) * 2 ^ seg_scale (cf s) \<le> unat (current_wnd s)"
    by (rule le_trans [OF mult_le_mono1 c])
  thus ?thesis unfolding seg_header_def Let_def c_def [symmetric] by (simp split: if_splits)
qed

text \<open>
  C15. A segment reaches the flow of the other side. A segment that fits the MTU is built without an
  exception, whatever the pool of reused buffers held, as one packet of at most \<open>mtu\<close> bytes; the
  validation of an engine at the other end takes it, and if that engine has a flow between the two
  endpoints, \<^verbatim>\<open>on_packet\<close> runs \<^verbatim>\<open>handle_segment\<close> on it with exactly the payload, the sequence
  number, the acknowledgement and the flags asked for. The window it announces, scaled back, is never
  more than the window the sender has.
\<close>

theorem tcp_segment_reaches_peer:
  assumes pool: "pool_wf (cenv s)" and fam: "family = fl_family (cf s)" "family = 4 \<or> family = 6"
    and key: "src = ft_dst_ip (fl_key (cf s))" "dst = ft_src_ip (fl_key (cf s))" "addr_len family \<le> length src" "addr_len family \<le> length dst"
    and fits: "n = ip_header_size family + (if with_mss then 28 else 20) + length payload" "n \<le> mtu (ccfg s)" "n \<le> 65535"
    and peer: "map_of (te_flows eng) (make_five_tuple (info_of family src) (info_of family dst) (ft_dst_port (fl_key (cf s)))
        (ft_src_port (fl_key (cf s))) ip_protocol_tcp (of_nat family)) = Some i" "fl_state (te_store eng i) \<noteq> TIME_WAIT"
  shows "\<exists>pkt s' ip seg th. build_segment seq flags payload with_mss s = (Inr pkt, s') \<and> length (pb_bytes pkt) = n \<and>
    classify (pb_bytes pkt) = Some (ip, seg) \<and> on_packet w ip seg eng = with_flow i (handle_segment th payload) eng \<and>
    ntohl (th_seq th) = seq \<and> ntohl (th_ack th) = rcv_nxt (cf s) \<and> th_flags th = flags \<and>
    unat (ntohs (th_window th)) * 2 ^ seg_scale (cf s) \<le> unat (current_wnd s)"
proof -
  define rest where "rest = seg_options with_mss s @ payload"
  define h where "h = seg_header seq flags with_mss s"
  define u where "u = tcp_bytes family src dst h rest"
  define ip where "ip = \<lparr>pi_family = of_nat family, pi_protocol = ip_protocol_tcp, pi_src_ip = info_of family src, pi_dst_ip = info_of family dst\<rparr>"
  have lr: "length rest + 20 + ip_header_size family = n" by (simp add: rest_def seg_options_def fits(1))
  have "ip_header_size family + 20 + length rest \<le> mtu (ccfg s)" using lr fits(2) by simp
  from build_segment_bytes [OF pool fam key rest_def this] obtain pkt s' ip_id
    where b: "build_segment seq flags payload with_mss s = (Inr pkt, s')"
      and p: "pb_bytes pkt = ip_bytes family src dst ip_protocol_tcp (ip_header_size family + length u) ip_id @ u"
    unfolding u_def h_def by (metis length_tcp_bytes)
  have c: "classify (pb_bytes pkt) = Some (ip, u)" unfolding p ip_def
    by (rule classify_ip_bytes) (use fam key lr fits in \<open>simp_all add: u_def v6_extension_def ip_protocol_tcp_def\<close>)
  define th where "th = load_tcp_header u"
  have th: "th = h\<lparr>th_checksum := htons (tcp_udp_checksum family src dst ip_protocol_tcp (store_tcp_header h @ rest))\<rparr>"
    by (simp add: th_def u_def tcp_bytes_load)
  have thl: "th_header_len th = 20 + length (seg_options with_mss s)"
    using seg_header_len [of seq flags with_mss s] by (simp add: th th_header_len_def h_def)
  have un: "unat (of_nat family :: byte) = family" using fam(2) by auto
  have v: "tcp_udp_checksum family (info_of family src) (info_of family dst) ip_protocol_tcp u = 0"
    unfolding checksum_padded [OF key(3,4)] u_def
    by (rule tcp_bytes_verify) (use lr fits(3) in \<open>simp_all add: h_def seg_header_def Let_def\<close>)
  have d: "drop (th_header_len th) u = payload"
  proof -
    have "drop (th_header_len th) u = drop (length (seg_options with_mss s)) (drop 20 u)" by (simp add: thl add.commute)
    thus ?thesis by (simp add: u_def tcp_bytes_load(2) rest_def)
  qed
  have ports: "th_src_port th = ft_dst_port (fl_key (cf s))" "th_dst_port th = ft_src_port (fl_key (cf s))"
    by (simp_all add: th h_def seg_header_def Let_def)
  have lu: "length u = 20 + length rest" by (simp add: u_def)
  have o: "on_packet w ip u eng = with_flow i (handle_segment th payload) eng"
    unfolding on_packet_def Let_def th_def [symmetric] using v peer un ports
    by (simp add: lu d) (simp add: thl ip_def rest_def d [unfolded thl])
  have "length (pb_bytes pkt) = n" unfolding p using fam key lr by (simp add: lu)
  moreover have "ntohl (th_seq th) = seq" "ntohl (th_ack th) = rcv_nxt (cf s)" "th_flags th = flags" "th_window th = th_window h"
    by (simp_all add: th h_def seg_header_def Let_def)
  ultimately show ?thesis using b c o seg_window_bound [of seq flags with_mss s]
    by (intro exI [of _ pkt] exI [of _ s'] exI [of _ ip] exI [of _ u] exI [of _ th]) (simp add: h_def)
qed


text \<open>A sample: a flow with three bytes of a write in flight, and an engine at the other end.\<close>

definition sample_conn :: five_tuple where
  "sample_conn = make_five_tuple ([10, 0, 0, 1] @ replicate 12 0) ([10, 0, 0, 2] @ replicate 12 0) 5 80 ip_protocol_tcp 4"

definition sample_op :: write_op where
  "sample_op = \<lparr>wo_buffers = [[1, 2], [3]], wo_total = 3, wo_offset = 3, wo_buf_index = 1, wo_buf_off = 1, wo_start_seq = 100,
     wo_implicit_accept = False, wo_handler = 7\<rparr>"

definition sample_sender :: tcp_ctx where
  "sample_sender = \<lparr>cf = tcp_flow0\<lparr>fl_state := ESTABLISHED, fl_key := sample_conn, snd_una := 100, snd_nxt := 103, peer_wnd := 1000,
     active_write := Some sample_op\<rparr>, ce = tcp_engine_new default_config sample_env, cx = None\<rparr>"

definition sample_peer_key :: five_tuple where
  "sample_peer_key = make_five_tuple (info_of 4 (ft_dst_ip sample_conn)) (info_of 4 (ft_src_ip sample_conn)) (ft_dst_port sample_conn) (ft_src_port sample_conn)
     ip_protocol_tcp (of_nat 4)"

definition sample_peer_engine :: tcp_engine where
  "sample_peer_engine = (tcp_engine_new default_config sample_env)\<lparr>te_flows := [(sample_peer_key, 0)]\<rparr>"

lemma sample_sender_facts:
  "pool_wf (cenv sample_sender)" "fl_family (cf sample_sender) = 4" "fl_key (cf sample_sender) = sample_conn"
  "mtu (ccfg sample_sender) = 1500" "mss (ce sample_sender) 4 = 1460" "active_write (cf sample_sender) = Some sample_op"
proof -
  show "pool_wf (cenv sample_sender)"
    by (simp add: sample_sender_def tcp_engine_new_def pool_wf_def sample_env_def env_new_def tun_queue_writer_new_def)
qed (simp_all add: sample_sender_def sample_conn_def make_five_tuple_def tcp_engine_new_def default_config_def mss_def)

lemma sample_conn_addrs: "addr_len 4 \<le> length (ft_dst_ip sample_conn)" "addr_len 4 \<le> length (ft_src_ip sample_conn)"
  by (simp_all add: sample_conn_def make_five_tuple_def addr16_def addr_len_def)

theorem tcp_segment_reaches_peer_witness:
  "\<exists>pkt s' ip seg th. build_segment 103 TCP_ACK [65, 66] False sample_sender = (Inr pkt, s') \<and> length (pb_bytes pkt) = 42 \<and>
    classify (pb_bytes pkt) = Some (ip, seg) \<and> on_packet 1 ip seg sample_peer_engine = with_flow 0 (handle_segment th [65, 66]) sample_peer_engine \<and>
    ntohl (th_seq th) = 103"
proof -
  have peer: "map_of (te_flows sample_peer_engine) (make_five_tuple (info_of 4 (ft_dst_ip sample_conn)) (info_of 4 (ft_src_ip sample_conn))
      (ft_dst_port (fl_key (cf sample_sender))) (ft_src_port (fl_key (cf sample_sender))) ip_protocol_tcp (of_nat 4)) = Some 0"
    "fl_state (te_store sample_peer_engine 0) \<noteq> TIME_WAIT"
    by (simp_all add: sample_peer_engine_def sample_sender_facts tcp_engine_new_def tcp_flow0_def sample_peer_key_def)
  show ?thesis
    using tcp_segment_reaches_peer [OF sample_sender_facts(1) sample_sender_facts(2) [symmetric] _ _ _ sample_conn_addrs _ _ _ peer,
        of 42 False "[65, 66]" 103 TCP_ACK 1] sample_sender_facts
    by (auto simp: ip_header_size_def)
qed

end
