(* ===== verification/Tcp_Retransmit.thy ===== *)
theory Tcp_Retransmit
  imports Tcp_Engine Tcp_Segments
begin

text \<open>
  The send side of a flow against its specification. A write is a sequence of user buffers that is never
  copied: segmentation, window probes and retransmission find their bytes by walking the buffers. The
  specification is the concatenation \<open>write_data\<close> and offsets into it; the walk refines it. The second part
  is the end of retransmission: without an acknowledgement the coroutine gives up after a bounded number
  of timeouts.
\<close>

section \<open>Segmentation\<close>

text \<open>
  New data leaves in order and within the limits: the segment \<^verbatim>\<open>build_next_segment\<close> builds is
  numbered \<open>snd_nxt\<close> and carries the next bytes of the write at its offset, at least one and no more than
  the MSS, the peer's window less what is in flight, or what is left; the offset and \<open>snd_nxt\<close> move past
  them together, and the position in the scattered buffers stays consistent with the offset.
\<close>

theorem tcp_next_segment_in_order:
  assumes ok: "op_ok op" and built: "build_next_segment in_flight op s = (Inr (Some pkt), s')"
  shows "\<exists>n op'. 0 < n \<and> n \<le> mss (ce s) (fl_family (cf s)) \<and> n \<le> unat (peer_wnd (cf s) - in_flight) \<and> wo_offset op + n \<le> wo_total op \<and>
    fst (build_segment (snd_nxt (cf s)) (TCP_ACK OR TCP_PSH) (subl (wo_offset op) n (write_data op)) False
      (upf (\<lambda>f. f\<lparr>active_write := Some (op_seek op)\<rparr>) s)) = Inr pkt \<and>
    active_write (cf s') = Some op' \<and> op_ok op' \<and> wo_buffers op' = wo_buffers op \<and> wo_offset op' = wo_offset op + n \<and>
    snd_nxt (cf s') = snd_nxt (cf s) + of_nat n"
proof -
  define q where "q = op_seek op"
  define t where "t = upf (\<lambda>f. f\<lparr>active_write := Some q\<rparr>) s"
  define payload where "payload = next_chunk in_flight q t"
  define n where "n = length payload"
  note nx = built [unfolded build_next_segment_def Let_def, folded q_def, folded t_def, folded payload_def]
  have i: "wo_buf_index q \<noteq> length (wo_buffers q)" and p: "length payload \<noteq> 0" using nx by (auto split: if_splits)
  have q: "op_ok q" using op_seek_ok [OF ok] by (simp add: q_def)
  have lt: "wo_buf_index q < length (wo_buffers op)" using q i by (simp add: op_ok_def q_def op_seek_keeps)
  define c where "c = min (size_sub (wo_total q) (wo_offset q)) (min (length (wo_buffers q ! wo_buf_index q) - wo_buf_off q)
      (min (mss (ce t) (fl_family (cf t))) (unat (peer_wnd (cf t) - in_flight))))"
  have pl: "payload = subl (wo_buf_off q) c (wo_buffers op ! wo_buf_index q)"
    by (simp add: payload_def next_chunk_def Let_def c_def q_def op_seek_keeps)
  have cl: "c \<le> length (wo_buffers op ! wo_buf_index q) - wo_buf_off q" by (simp add: c_def q_def op_seek_keeps)
  have n: "n = c" using cl by (simp add: n_def pl subl_def)
  have bytes: "payload = subl (wo_offset op) n (write_data op)"
    using op_seek_bytes [OF ok, of c] lt cl unfolding pl n q_def by simp
  have lim: "n \<le> mss (ce s) (fl_family (cf s))" "n \<le> unat (peer_wnd (cf s) - in_flight)" "wo_offset op + n \<le> wo_total op"
    using ok unfolding n c_def by (auto simp: t_def q_def op_seek_keeps size_sub_def op_ok_def split: if_splits)
  obtain r u where b: "build_segment (snd_nxt (cf t)) (TCP_ACK OR TCP_PSH) payload False t = (r, u)" by fastforce
  have "sends t u" using build_segment_sends [of t "snd_nxt (cf t)" "TCP_ACK OR TCP_PSH" payload False] b by simp
  hence u: "snd_nxt (cf u) = snd_nxt (cf s)" by (simp add: sends_flow(3) t_def)
  have r: "r = Inr pkt" "s' = upf (\<lambda>f. f\<lparr>snd_nxt := snd_nxt f + of_nat n,
      active_write := Some (q\<lparr>wo_offset := wo_offset q + n, wo_buf_off := wo_buf_off q + n\<rparr>)\<rparr>) u"
    using nx i p by (auto simp: b n_def split: sum.splits)
  define op' where "op' = q\<lparr>wo_offset := wo_offset q + n, wo_buf_off := wo_buf_off q + n\<rparr>"
  have op': "op_ok op'" "wo_buffers op' = wo_buffers op" "wo_offset op' = wo_offset op + n"
    using q lim(3) by (simp_all add: op_ok_def write_data_def op'_def) (simp_all add: q_def op_seek_keeps)
  have snx: "snd_nxt (cf t) = snd_nxt (cf s)" by (simp add: t_def)
  have fb: "fst (build_segment (snd_nxt (cf s)) (TCP_ACK OR TCP_PSH) (subl (wo_offset op) n (write_data op)) False t) = Inr pkt"
    using b r(1) unfolding bytes snx by simp
  have s': "active_write (cf s') = Some op'" "snd_nxt (cf s') = snd_nxt (cf s) + of_nat n"
    using u by (simp_all add: r(2) op'_def)
  have "0 < n" using p by (simp add: n_def)
  thus ?thesis unfolding q_def [symmetric] t_def [symmetric] using lim fb op' s' by blast
qed


section \<open>Retransmission\<close>

text \<open>
  The specification: segments with their sequence numbers, one behind the other, none empty and none
  longer than \<open>m\<close>; \<open>send_all\<close> sends them in that order.
\<close>

fun in_sequence :: "nat \<Rightarrow> u32 \<Rightarrow> (u32 \<times> byte list) list \<Rightarrow> bool" where
  "in_sequence m q [] = True"
| "in_sequence m q ((q', p) # segs) = (q' = q \<and> p \<noteq> [] \<and> length p \<le> m \<and> in_sequence m (q + of_nat (length p)) segs)"

definition send_all :: "(u32 \<times> byte list) list \<Rightarrow> tcp_ctx \<Rightarrow> tcp_ctx" where
  "send_all segs s = fold (\<lambda>(q, p). send_segment q (TCP_ACK OR TCP_PSH) p False) segs s"

text \<open>Where the walk stands: within its first buffer, or at an empty one, where it stops.\<close>

fun walk_at :: "byte list list \<Rightarrow> nat \<Rightarrow> nat \<Rightarrow> bool" where
  "walk_at [] base off = (base \<le> off)"
| "walk_at (b # bs) base off = (base \<le> off \<and> (off < base + length b \<or> b = [] \<and> off = base))"

lemma walk_next: "walk_at bs base base"
  by (cases bs) auto

lemma retx_loop_sends:
  assumes "walk_at bs base off" "stop \<le> base + length (concat bs)" "0 < m"
  shows "\<exists>segs. retx_loop start m stop bs base off left s = send_all segs s \<and> in_sequence m (start + of_nat off) segs \<and>
    (\<exists>k\<le>min (stop - off) left. concat (map snd segs) = take k (drop (off - base) (concat bs)) \<and>
       ([] \<notin> set bs \<longrightarrow> k = min (stop - off) left) \<and> (bs \<noteq> [] \<and> hd bs \<noteq> [] \<and> off < stop \<and> 0 < left \<longrightarrow> 0 < k))"
  using assms
proof (induction start m stop bs base off left s rule: retx_loop.induct)
  case (1 start m stop base off left s)
  thus ?case by (intro exI [of _ "[]"]) (auto simp: send_all_def)
next
  case (2 start m stop b bs base off left s)
  define bo where "bo = off - base"
  define want where "want = retx_want m stop b bo off left"
  define t where "t = send_segment (start + of_nat off) (TCP_ACK OR TCP_PSH) (subl bo want b) False s"
  have w: "want \<le> stop - off" "want \<le> length b - bo" "want \<le> left" "want \<le> m" by (simp_all add: want_def retx_want_def)
  have none: ?case if e: "retx_loop start m stop (b # bs) base off left s = s" and z: "off \<ge> stop \<or> left = 0 \<or> b = []"
    using z by (intro exI [of _ "[]"]) (auto simp: e send_all_def intro!: exI [of _ 0])
  show ?case
  proof (cases "off < stop \<and> left > 0 \<and> want \<noteq> 0")
    case False
    have "retx_loop start m stop (b # bs) base off left s = s"
      using False unfolding retx_loop.simps(2) [of start m stop b bs base off left s] Let_def bo_def [symmetric] want_def [symmetric] by presburger
    moreover have "off \<ge> stop \<or> left = 0 \<or> b = []"
    proof (rule ccontr)
      assume "\<not> (off \<ge> stop \<or> left = 0 \<or> b = [])"
      hence "0 < want" using "2.prems" by (auto simp: want_def retx_want_def bo_def)
      thus False using False \<open>\<not> (off \<ge> stop \<or> left = 0 \<or> b = [])\<close> by auto
    qed
    ultimately show ?thesis by (rule none)
  next
    case True
    define bs' base' where "bs' = (if off + want \<ge> base + length b then bs else b # bs)"
      and "base' = (if off + want \<ge> base + length b then base + length b else base)"
    have e: "retx_loop start m stop (b # bs) base off left s = retx_loop start m stop bs' base' (off + want) (left - want) t"
      using True unfolding retx_loop.simps(2) [of start m stop b bs base off left s] Let_def bo_def [symmetric] want_def [symmetric] t_def [symmetric] bs'_def base'_def by simp
    have bb: "base \<le> off" "off < base + length b" using "2.prems"(1) True w(2) by (auto simp: bo_def)
    have fin: "off + want \<ge> base + length b \<Longrightarrow> off + want = base + length b" using w(2) bb by (simp add: bo_def)
    have ps: "walk_at bs' base' (off + want)" "stop \<le> base' + length (concat bs')"
      using "2.prems"(1,2) bb fin walk_next [of bs "base + length b"] by (auto simp: bs'_def base'_def)
    have d: "drop (off + want - base') (concat bs') = drop want (drop bo (concat (b # bs)))"
      using bb fin w(2) by (auto simp: bs'_def base'_def bo_def add.commute)
    have sub: "subl bo want b = take want (drop bo (concat (b # bs)))" using w(2) by (simp add: subl_def bo_def)
    have c: "off < stop \<and> 0 < left" "want \<noteq> 0" using True by auto
    have ih: "\<exists>segs. retx_loop start m stop bs' base' (off + want) (left - want) t = send_all segs t \<and> in_sequence m (start + of_nat (off + want)) segs \<and>
      (\<exists>k\<le>min (stop - (off + want)) (left - want). concat (map snd segs) = take k (drop (off + want - base') (concat bs')) \<and>
         ([] \<notin> set bs' \<longrightarrow> k = min (stop - (off + want)) (left - want)) \<and>
         (bs' \<noteq> [] \<and> hd bs' \<noteq> [] \<and> off + want < stop \<and> 0 < left - want \<longrightarrow> 0 < k))"
    proof (cases "off + want \<ge> base + length b")
      case full: True
      have bb': "bs' = bs" "base' = base + length b" using full by (simp_all add: bs'_def base'_def)
      show ?thesis using "2.IH"(1) [OF c(1) bo_def want_def c(2) t_def full] ps "2.prems"(3) unfolding bb' by blast
    next
      case False
      have bb': "bs' = b # bs" "base' = base" using False by (simp_all add: bs'_def base'_def)
      show ?thesis using "2.IH"(2) [OF c(1) bo_def want_def c(2) t_def False] ps "2.prems"(3) unfolding bb' by blast
    qed
    then obtain segs k where S: "retx_loop start m stop bs' base' (off + want) (left - want) t = send_all segs t"
        "in_sequence m (start + of_nat (off + want)) segs" "k \<le> min (stop - (off + want)) (left - want)"
        "concat (map snd segs) = take k (drop (off + want - base') (concat bs'))"
        "[] \<notin> set bs' \<longrightarrow> k = min (stop - (off + want)) (left - want)"
      by blast
    have sl: "length (subl bo want b) = want" using w(2) by (simp add: subl_def)
    let ?segs = "(start + of_nat off, subl bo want b) # segs"
    have "retx_loop start m stop (b # bs) base off left s = send_all ?segs s" using e S(1) by (simp add: send_all_def t_def)
    moreover have "in_sequence m (start + of_nat off) ?segs" using S(2) sl w(4) True by (auto simp: add.assoc)
    moreover have "concat (map snd ?segs) = take (want + k) (drop bo (concat (b # bs)))"
      unfolding take_add using S(4) d sub by simp
    moreover have "want + k \<le> min (stop - off) left" using S(3) w by linarith
    moreover have "[] \<notin> set (b # bs) \<longrightarrow> want + k = min (stop - off) left"
    proof
      assume "[] \<notin> set (b # bs)"
      hence "k = min (stop - (off + want)) (left - want)" using S(5) by (simp add: bs'_def split: if_splits)
      thus "want + k = min (stop - off) left" using w by linarith
    qed
    moreover have "0 < want + k" using True by simp
    ultimately show ?thesis unfolding bo_def by blast
  qed
qed


lemma retx_loop_done: "\<not> off < stop \<Longrightarrow> retx_loop start m stop bs base off left s = s"
  using retx_loop.simps(2) [of start m stop "hd bs" "tl bs" base off left s] by (cases bs) simp_all

lemma retx_seek_spec:
  assumes "retx_seek bs base off = (bs', base')" "base \<le> off"
  shows "walk_at bs' base' off \<and> base' + length (concat bs') = base + length (concat bs) \<and>
    drop (off - base') (concat bs') = drop (off - base) (concat bs) \<and> set bs' \<subseteq> set bs \<and> (bs' \<noteq> [] \<longrightarrow> hd bs' \<noteq> [])"
  using assms
proof (induction bs base off rule: retx_seek.induct)
  case (2 b bs base off)
  show ?case
  proof (cases "base + length b \<le> off")
    case True
    have "drop (off - (base + length b)) (concat bs) = drop (off - base) (b @ concat bs)"
      using True by (simp add: diff_add_inverse2 flip: diff_diff_left)
    thus ?thesis using 2 True by auto
  next
    case False
    thus ?thesis using 2 by auto
  qed
qed simp

text \<open>The bytes a write has in flight.\<close>

definition unacked :: "tcp_ctx \<Rightarrow> write_op \<Rightarrow> byte list" where
  "unacked s op =
     (let first = unat (snd_una (cf s) - wo_start_seq op); last = min (unat (snd_nxt (cf s) - wo_start_seq op)) (wo_total op)
      in take (last - first) (drop first (write_data op)))"

lemma retransmission_faithful:
  assumes ok: "active_write (cf s) = Some op" "wo_total op = length (write_data op)" and m: "0 < mss (ce s) (fl_family (cf s))"
    and una: "snd_una (cf s) \<noteq> snd_nxt (cf s)"
  shows "\<exists>segs k. retransmit_unacked max_bytes s = send_all segs s \<and> in_sequence (mss (ce s) (fl_family (cf s))) (snd_una (cf s)) segs \<and>
    concat (map snd segs) = take k (unacked s op) \<and> k \<le> min (length (unacked s op)) max_bytes \<and>
    ([] \<notin> set (wo_buffers op) \<longrightarrow> k = min (length (unacked s op)) max_bytes) \<and>
    (unacked s op \<noteq> [] \<and> 0 < max_bytes \<longrightarrow> 0 < k)"
proof -
  define first where "first = unat (snd_una (cf s) - wo_start_seq op)"
  define last' where "last' = min (unat (snd_nxt (cf s) - wo_start_seq op)) (wo_total op)"
  obtain bs base where seek: "retx_seek (wo_buffers op) 0 first = (bs, base)" by fastforce
  note S = retx_seek_spec [OF seek, simplified]
  have e: "retransmit_unacked max_bytes s = retx_loop (wo_start_seq op) (mss (ce s) (fl_family (cf s))) last' bs base first max_bytes s"
    using una by (simp add: retransmit_unacked_def ok(1) Let_def seek flip: first_def last'_def)
  have un: "unacked s op = take (last' - first) (drop first (write_data op))"
    by (simp add: unacked_def Let_def flip: first_def last'_def)
  have le: "last' \<le> length (write_data op)" using ok(2) by (simp add: last'_def)
  hence lu: "length (unacked s op) = last' - first" by (simp add: un)
  have st: "wo_start_seq op + of_nat first = snd_una (cf s)" by (simp add: first_def)
  have "last' \<le> base + length (concat bs)" using S le by (simp add: write_data_def)
  from retx_loop_sends [OF _ this m, of first "wo_start_seq op" max_bytes s] S
  obtain segs k where R: "retransmit_unacked max_bytes s = send_all segs s" "in_sequence (mss (ce s) (fl_family (cf s))) (snd_una (cf s)) segs"
      "k \<le> min (last' - first) max_bytes" "concat (map snd segs) = take k (drop (first - base) (concat bs))"
      "[] \<notin> set bs \<longrightarrow> k = min (last' - first) max_bytes" "bs \<noteq> [] \<and> hd bs \<noteq> [] \<and> first < last' \<and> 0 < max_bytes \<longrightarrow> 0 < k"
    unfolding e st by blast
  have "drop (first - base) (concat bs) = drop first (write_data op)" using S by (simp add: write_data_def)
  hence "concat (map snd segs) = take k (unacked s op)" using R(3,4) by (simp add: un min_absorb1)
  moreover have "[] \<notin> set (wo_buffers op) \<longrightarrow> [] \<notin> set bs" using S by auto
  moreover have "unacked s op \<noteq> [] \<Longrightarrow> bs \<noteq> [] \<and> first < last'"
  proof -
    assume "unacked s op \<noteq> []"
    hence lt: "first < last'" using lu by (metis length_greater_0_conv zero_less_diff)
    hence "base + length (concat bs) > first" using le S by (simp add: write_data_def)
    thus ?thesis using lt S by (cases bs) auto
  qed
  ultimately show ?thesis using R lu S by (intro exI [of _ segs] exI [of _ k]) auto
qed

text \<open>
  C16. Retransmission is faithful: \<^verbatim>\<open>retransmit_unacked\<close> sends the unacknowledged bytes of the write from
  \<open>snd_una\<close> on, in sequence, each byte under its own sequence number, in segments of at most one MSS, as
  far as the max_bytes allows. The walk over the scattered buffers refines the slice of the concatenation: it
  sends the whole of it if no buffer is empty, and in any case something if there is something to send.
\<close>

theorem tcp_retransmission_faithful:
  assumes ok: "active_write (cf s) = Some op" "wo_total op = length (write_data op)" and m: "0 < mss (ce s) (fl_family (cf s))"
    and una: "snd_una (cf s) \<noteq> snd_nxt (cf s)"
  shows "\<exists>segs k. retransmit_unacked max_bytes s = send_all segs s \<and> in_sequence (mss (ce s) (fl_family (cf s))) (snd_una (cf s)) segs \<and>
    concat (map snd segs) = take k (unacked s op) \<and> k \<le> min (length (unacked s op)) max_bytes \<and>
    ([] \<notin> set (wo_buffers op) \<longrightarrow> k = min (length (unacked s op)) max_bytes) \<and>
    (unacked s op \<noteq> [] \<and> 0 < max_bytes \<longrightarrow> 0 < k)"
  by (rule retransmission_faithful [OF assms])

text \<open>
  Before the handshake is acknowledged nothing is retransmitted. A write on a flow accepted
  implicitly starts sending behind the SYN-ACK, while \<open>snd_una\<close> is still the sequence number of the
  SYN-ACK itself; the offset of the first unacknowledged byte then wraps to \<open>2 ^ 32 - 1\<close>, past the end
  of every write shorter than that, and neither the data nor the SYN-ACK is sent again.
\<close>

theorem tcp_handshake_blocks_retransmission:
  assumes ok: "active_write (cf s) = Some op" and una: "snd_una (cf s) + 1 = wo_start_seq op" and len: "wo_total op < 2 ^ 32"
  shows "retransmit_unacked max_bytes s = s"
proof -
  have w: "snd_una (cf s) - wo_start_seq op = - 1" using una by (simp add: algebra_simps flip: una)
  have f: "unat (- 1 :: u32) = 2 ^ 32 - 1" by (simp add: unsigned_minus_1_eq_mask mask_eq_exp_minus_1)
  obtain bs base where seek: "retx_seek (wo_buffers op) 0 (unat (- 1 :: u32)) = (bs, base)" by fastforce
  have "min (unat (snd_nxt (cf s) - wo_start_seq op)) (wo_total op) \<le> 2 ^ 32 - 1" using len by simp
  hence "\<not> unat (- 1 :: u32) < min (unat (snd_nxt (cf s) - wo_start_seq op)) (wo_total op)" unfolding f by linarith
  thus ?thesis by (simp add: retransmit_unacked_def ok Let_def w seek retx_loop_done)
qed


section \<open>Giving up\<close>

text \<open>One timeout of the send coroutine: the time it waits for comes, the timer fires, the strand runs the coroutine.\<close>

definition timeout_round :: "tcp_ctx \<Rightarrow> tcp_ctx" where
  "timeout_round s =
     (case fl_coro (cf s) of
        None \<Rightarrow> s
      | Some c \<Rightarrow> write_loop_step (coro_timer (on_env (\<lambda>e. e\<lparr>e_now := max (e_now e) (wl_deadline c)\<rparr>) s)))"

text \<open>The coroutine waits for an acknowledgement: all that may be sent has been, and not all is acknowledged.\<close>

definition awaits_ack :: "tcp_ctx \<Rightarrow> write_coro \<Rightarrow> write_op \<Rightarrow> bool" where
  "awaits_ack s c op \<longleftrightarrow> fl_coro (cf s) = Some c \<and> wl_point c = WL_rto \<and> wl_resume c = None \<and> wl_last_una c = snd_una (cf s) \<and>
     active_write (cf s) = Some op \<and> fl_state (cf s) = ESTABLISHED \<and> \<not> fl_rst (cf s) \<and> peer_wnd (cf s) \<noteq> 0 \<and>
     \<not> (wo_offset op = wo_total op \<and> snd_una (cf s) = write_end op) \<and>
     \<not> (wo_offset op < wo_total op \<and> snd_nxt (cf s) - snd_una (cf s) < peer_wnd (cf s))"

lemma now_frames [simp]:
  "e_now (cenv (drop_rx s)) = e_now (cenv s)" "e_now (cenv (post_read r ec s)) = e_now (cenv s)" "e_now (cenv (post_write v ec s)) = e_now (cenv s)"
  by (simp_all add: drop_rx_def account_release_def post_read_def post_write_def post_ctx_def post_completion_on_def Let_def split: option.splits)

lemma close_flow_ends:
  assumes "fl_state (cf s) \<noteq> CLOSED"
  shows "fl_state (cf (close_flow err s)) = CLOSED" "active_write (cf (close_flow err s)) = None"
    "e_posted (cenv (close_flow err s)) = e_posted (cenv s) @ (case active_read (cf s) of None \<Rightarrow> [] | Some op \<Rightarrow> [Done_read (ro_handler op) err 0 []]) @
       (case active_write (cf s) of None \<Rightarrow> [] | Some op \<Rightarrow> [Done_write (wo_handler op) err 0])"
    "cnow (close_flow err s) = cnow s"
  using assms by (simp_all add: close_flow_def Let_def unlist_pending_def erase_flow_def uncount_flow_def tcp_connections_add_def)

lemma aborted_exit:
  assumes "fl_state (cf s) \<noteq> CLOSED" "active_write (cf s) = Some op"
  shows "fl_state (cf (wl_exit (abort_flow s))) = CLOSED" "active_write (cf (wl_exit (abort_flow s))) = None"
    "fl_coro (cf (wl_exit (abort_flow s))) = None"
    "Done_write (wo_handler op) EC_connection_reset 0 \<in> set (e_posted (cenv (wl_exit (abort_flow s))))" "cnow (wl_exit (abort_flow s)) = cnow s"
proof -
  define t where "t = upf (\<lambda>f. f\<lparr>fl_rst := True\<rparr>) (send_segment (snd_nxt (cf s)) (TCP_RST OR TCP_ACK) [] False s)"
  have t: "fl_state (cf t) \<noteq> CLOSED" "active_write (cf t) = Some op" "cnow t = cnow s" using assms by (simp_all add: t_def)
  have a: "abort_flow s = close_flow EC_connection_reset t" using assms(1) by (simp add: abort_flow_def t_def)
  show "fl_state (cf (wl_exit (abort_flow s))) = CLOSED" "active_write (cf (wl_exit (abort_flow s))) = None"
    "fl_coro (cf (wl_exit (abort_flow s))) = None"
    "Done_write (wo_handler op) EC_connection_reset 0 \<in> set (e_posted (cenv (wl_exit (abort_flow s))))" "cnow (wl_exit (abort_flow s)) = cnow s"
    unfolding a using close_flow_ends [OF t(1), of EC_connection_reset] t(2,3) by (simp_all add: wl_exit_def set_coro_def)
qed

lemma wl_head_waits:
  assumes "active_write (cf s) = Some op" "fl_state (cf s) = ESTABLISHED" "\<not> fl_rst (cf s)" "peer_wnd (cf s) \<noteq> 0" "wl_last_una c = snd_una (cf s)"
    "\<not> (wo_offset op = wo_total op \<and> snd_una (cf s) = write_end op)"
    "\<not> (wo_offset op < wo_total op \<and> snd_nxt (cf s) - snd_una (cf s) < peer_wnd (cf s))"
  shows "wl_head c s = suspend WL_rto (cnow s + wl_rto c) c s"
  using assms by (auto simp: wl_head_def wl_iter_def wl_wait_ack_def Let_def)

lemma rto_round:
  assumes w: "awaits_ack s c op"
  shows "tcp_rto_max_retransmits (ccfg s) < wl_retransmits c + 1 \<Longrightarrow>
      fl_state (cf (timeout_round s)) = CLOSED \<and> active_write (cf (timeout_round s)) = None \<and> fl_coro (cf (timeout_round s)) = None \<and>
      Done_write (wo_handler op) EC_connection_reset 0 \<in> set (e_posted (cenv (timeout_round s))) \<and>
      cnow (timeout_round s) = max (cnow s) (wl_deadline c)"
    and "wl_retransmits c + 1 \<le> tcp_rto_max_retransmits (ccfg s) \<Longrightarrow>
      \<exists>c'. awaits_ack (timeout_round s) c' op \<and> wl_retransmits c' = wl_retransmits c + 1 \<and> wl_rto c' = min (wl_rto c * 2) timer_max \<and>
        ccfg (timeout_round s) = ccfg s \<and> wl_deadline c' = cnow (timeout_round s) + wl_rto c' \<and>
        cnow (timeout_round s) = max (cnow s) (wl_deadline c)"
proof -
  note W = w [unfolded awaits_ack_def]
  define s1 where "s1 = on_env (\<lambda>e. e\<lparr>e_now := max (e_now e) (wl_deadline c)\<rparr>) s"
  define c1 where "c1 = c\<lparr>wl_resume := Some R_timer\<rparr>"
  define s2 where "s2 = set_coro (Some c1) s1"
  have t: "coro_timer s1 = s2" using W by (simp add: coro_timer_def s1_def s2_def c1_def coro_on_channel_def)
  define c2 where "c2 = c1\<lparr>wl_retransmits := wl_retransmits c + 1\<rparr>"
  have s2: "cf s2 = (cf s)\<lparr>fl_coro := Some c1\<rparr>" "ccfg s2 = ccfg s" "cnow s2 = max (cnow s) (wl_deadline c)"
    by (simp_all add: s2_def s1_def set_coro_def)
  have r: "timeout_round s = wl_ack_or_rto R_timer c1 s2"
    using W by (simp add: timeout_round_def t s1_def [symmetric]) (simp add: write_loop_step_def s2 c1_def)
  show "tcp_rto_max_retransmits (ccfg s) < wl_retransmits c + 1 \<Longrightarrow>
      fl_state (cf (timeout_round s)) = CLOSED \<and> active_write (cf (timeout_round s)) = None \<and> fl_coro (cf (timeout_round s)) = None \<and>
      Done_write (wo_handler op) EC_connection_reset 0 \<in> set (e_posted (cenv (timeout_round s))) \<and>
      cnow (timeout_round s) = max (cnow s) (wl_deadline c)"
  proof -
    assume "tcp_rto_max_retransmits (ccfg s) < wl_retransmits c + 1"
    hence "timeout_round s = wl_exit (abort_flow s2)" using W by (simp add: r wl_ack_or_rto_def Let_def s2 c1_def)
    thus ?thesis using aborted_exit [of s2 op] W by (simp add: s2)
  qed
  assume le: "wl_retransmits c + 1 \<le> tcp_rto_max_retransmits (ccfg s)"
  define s3 where "s3 = rto_retransmit s2"
  have "sends s2 s3" using retransmit_unacked_sends by (auto simp: s3_def rto_retransmit_def split: option.splits)
  note s3 = sends_flow [OF this] sends_engine [OF this]
  define c3 where "c3 = c2\<lparr>wl_rto := min (wl_rto c * 2) timer_max, wl_last_una := snd_una (cf s3)\<rparr>"
  have e: "timeout_round s = wl_head c3 s3"
    using W le by (simp add: r wl_ack_or_rto_def Let_def s2 c1_def c2_def c3_def s3_def)
  have f: "active_write (cf s3) = Some op" "fl_state (cf s3) = ESTABLISHED" "\<not> fl_rst (cf s3)" "peer_wnd (cf s3) = peer_wnd (cf s)"
    "snd_una (cf s3) = snd_una (cf s)" "snd_nxt (cf s3) = snd_nxt (cf s)" "ccfg s3 = ccfg s" "cnow s3 = max (cnow s) (wl_deadline c)"
    using W by (simp_all add: s3 s2)
  have h: "timeout_round s = suspend WL_rto (cnow s3 + wl_rto c3) c3 s3"
    unfolding e by (rule wl_head_waits [of s3 op]) (use W f in \<open>simp_all add: c3_def write_end_def\<close>)
  show "\<exists>c'. awaits_ack (timeout_round s) c' op \<and> wl_retransmits c' = wl_retransmits c + 1 \<and> wl_rto c' = min (wl_rto c * 2) timer_max \<and>
        ccfg (timeout_round s) = ccfg s \<and> wl_deadline c' = cnow (timeout_round s) + wl_rto c' \<and>
        cnow (timeout_round s) = max (cnow s) (wl_deadline c)"
    by (rule exI [of _ "c3\<lparr>wl_point := WL_rto, wl_resume := None, wl_deadline := cnow s3 + wl_rto c3\<rparr>"])
      (use W f in \<open>simp add: h awaits_ack_def suspend_def set_coro_def, simp add: c3_def c2_def c1_def write_end_def\<close>)
qed


text \<open>The timer of the coroutine has fired; the strand has not yet run it.\<close>

definition timer_fired :: "tcp_ctx \<Rightarrow> tcp_ctx" where
  "timer_fired s =
     (case fl_coro (cf s) of
        None \<Rightarrow> s
      | Some c \<Rightarrow> coro_timer (on_env (\<lambda>e. e\<lparr>e_now := max (e_now e) (wl_deadline c)\<rparr>) s))"

lemma timeout_round_fired: "fl_coro (cf s) = Some c \<Longrightarrow> timeout_round s = write_loop_step (timer_fired s)"
  by (simp add: timeout_round_def timer_fired_def)

text \<open>What no timeout changes while nothing is acknowledged.\<close>

definition same_send :: "tcp_ctx \<Rightarrow> tcp_ctx \<Rightarrow> bool" where
  "same_send s t \<longleftrightarrow> snd_una (cf t) = snd_una (cf s) \<and> snd_nxt (cf t) = snd_nxt (cf s) \<and> peer_wnd (cf t) = peer_wnd (cf s) \<and>
     fl_key (cf t) = fl_key (cf s) \<and> te_cfg (ce t) = te_cfg (ce s) \<and> te_mss4 (ce t) = te_mss4 (ce s) \<and> te_mss6 (ce t) = te_mss6 (ce s)"

lemma same_send_trans: "same_send a b \<Longrightarrow> same_send b c \<Longrightarrow> same_send a c"
  by (simp add: same_send_def)

lemma same_send_mss: "same_send s t \<Longrightarrow> mss (ce t) (fl_family (cf t)) = mss (ce s) (fl_family (cf s))"
  "same_send s t \<Longrightarrow> unacked t op = unacked s op"
  by (simp_all add: same_send_def mss_def unacked_def)

lemma rto_retransmit_sends: "sends s (rto_retransmit s)"
  using retransmit_unacked_sends by (auto simp: rto_retransmit_def split: option.splits)

lemma timer_fired_waiting:
  assumes "awaits_ack s c op"
  shows "cf (timer_fired s) = (cf s)\<lparr>fl_coro := Some (c\<lparr>wl_resume := Some R_timer\<rparr>)\<rparr>" "same_send s (timer_fired s)"
    "cnow (timer_fired s) = max (cnow s) (wl_deadline c)" "e_dev_writes (cenv (timer_fired s)) = e_dev_writes (cenv s)"
  using assms by (simp_all add: awaits_ack_def timer_fired_def coro_timer_def coro_on_channel_def set_coro_def same_send_def)

text \<open>A timeout that is not the last retransmits, doubles the RTO and waits on.\<close>

lemma rto_round_sends:
  assumes w: "awaits_ack s c op" and le: "wl_retransmits c + 1 \<le> tcp_rto_max_retransmits (ccfg s)"
  shows "\<exists>c'. timeout_round s = set_coro (Some c') (rto_retransmit (timer_fired s)) \<and> awaits_ack (timeout_round s) c' op \<and>
    wl_retransmits c' = wl_retransmits c + 1 \<and> wl_rto c' = min (wl_rto c * 2) timer_max \<and>
    wl_deadline c' = cnow (timeout_round s) + wl_rto c' \<and> same_send s (timeout_round s)"
proof -
  note W = w [unfolded awaits_ack_def]
  let ?t = "timer_fired s"
  note T = timer_fired_waiting [OF w]
  define s3 where "s3 = rto_retransmit ?t"
  have sn: "sends ?t s3" by (simp add: s3_def rto_retransmit_sends)
  note s3 = sends_flow [OF sn] sends_engine [OF sn]
  define c1 where "c1 = c\<lparr>wl_resume := Some R_timer\<rparr>"
  define c3 where "c3 = c1\<lparr>wl_retransmits := wl_retransmits c + 1, wl_rto := min (wl_rto c * 2) timer_max, wl_last_una := snd_una (cf s)\<rparr>"
  have cfg: "ccfg ?t = ccfg s" using T(2) by (simp add: same_send_def)
  have "timeout_round s = wl_ack_or_rto R_timer c1 ?t"
    using W timeout_round_fired [of s c] by (simp add: T(1) write_loop_step_def c1_def)
  also have "\<dots> = wl_head c3 s3" using W le by (simp add: wl_ack_or_rto_def Let_def T(1) cfg c1_def c3_def flip: s3_def) (simp add: s3 T)
  also have "\<dots> = suspend WL_rto (cnow s3 + wl_rto c3) c3 s3"
    by (rule wl_head_waits [of s3 op]) (use W in \<open>simp_all add: s3 T c3_def write_end_def\<close>)
  finally have h: "timeout_round s = suspend WL_rto (cnow s3 + wl_rto c3) c3 s3" .
  have "same_send s (timeout_round s)" using T(2) s3 by (simp add: same_send_def h suspend_def set_coro_def)
  thus ?thesis
    by (intro exI [of _ "c3\<lparr>wl_point := WL_rto, wl_resume := None, wl_deadline := cnow s3 + wl_rto c3\<rparr>"])
      (use W in \<open>simp add: h awaits_ack_def suspend_def set_coro_def s3 T write_end_def, simp add: c3_def c1_def s3_def\<close>)
qed

lemma later: "(a :: int) = x \<Longrightarrow> x \<le> m + 60000 * int j \<Longrightarrow> d = a + r \<Longrightarrow> r \<le> 60000 \<Longrightarrow> max a d \<le> m + 60000 * int (Suc j)"
  by simp

lemma rto_rounds:
  assumes "awaits_ack s c op" "int j \<le> tcp_rto_max_retransmits (ccfg s) - wl_retransmits c"
  shows "\<exists>c'. awaits_ack ((timeout_round ^^ j) s) c' op \<and> wl_retransmits c' = wl_retransmits c + int j \<and>
    wl_rto c' = ((\<lambda>r. min (r * 2) timer_max) ^^ j) (wl_rto c) \<and> same_send s ((timeout_round ^^ j) s) \<and>
    max (cnow ((timeout_round ^^ j) s)) (wl_deadline c') \<le> max (cnow s) (wl_deadline c) + 60000 * int j"
  using assms(2)
proof (induction j)
  case 0
  show ?case using assms(1) by (auto simp: same_send_def)
next
  case (Suc j)
  let ?s = "(timeout_round ^^ j) s"
  obtain c1 where c1: "awaits_ack ?s c1 op" "wl_retransmits c1 = wl_retransmits c + int j" "same_send s ?s"
      "wl_rto c1 = ((\<lambda>r. min (r * 2) timer_max) ^^ j) (wl_rto c)" "max (cnow ?s) (wl_deadline c1) \<le> max (cnow s) (wl_deadline c) + 60000 * int j"
    using Suc by force
  have le: "wl_retransmits c1 + 1 \<le> tcp_rto_max_retransmits (ccfg ?s)" using Suc.prems c1(2,3) by (simp add: same_send_def)
  obtain c2 where c2: "awaits_ack (timeout_round ?s) c2 op" "wl_retransmits c2 = wl_retransmits c1 + 1" "wl_rto c2 = min (wl_rto c1 * 2) timer_max"
      "wl_deadline c2 = cnow (timeout_round ?s) + wl_rto c2" "same_send ?s (timeout_round ?s)"
    using rto_round_sends [OF c1(1) le] by blast
  have "cnow (timeout_round ?s) = max (cnow ?s) (wl_deadline c1)" using rto_round(2) [OF c1(1) le] by blast
  moreover have "wl_rto c2 \<le> 60000" by (simp add: c2(3) timer_max_def)
  ultimately have "max (cnow (timeout_round ?s)) (wl_deadline c2) \<le> max (cnow s) (wl_deadline c) + 60000 * int (Suc j)"
    using c1(5) c2(4) using later [of "cnow (timeout_round ?s)" "max (cnow ?s) (wl_deadline c1)"] by blast
  thus ?case using c1 c2 same_send_trans by (intro exI [of _ c2]) auto
qed

text \<open>
  \<open>retransmits s op t\<close>: between \<open>s\<close> and \<open>t\<close> unacknowledged bytes of the write are sent again: segments in sequence
  from \<open>snd_una\<close> on, at least one, none empty. It is what a timeout does unless the write has nothing unacknowledged.
\<close>

definition retransmits :: "tcp_ctx \<Rightarrow> write_op \<Rightarrow> tcp_ctx \<Rightarrow> bool" where
  "retransmits s op t \<longleftrightarrow> (\<exists>segs k. t = send_all segs s \<and> segs \<noteq> [] \<and>
     in_sequence (mss (ce s) (fl_family (cf s))) (snd_una (cf s)) segs \<and> concat (map snd segs) = take k (unacked s op))"

definition has_unacked :: "tcp_ctx \<Rightarrow> write_op \<Rightarrow> bool" where
  "has_unacked s op \<longleftrightarrow> unacked s op \<noteq> [] \<and> wo_total op = length (write_data op) \<and> snd_una (cf s) \<noteq> write_end op \<and>
     0 < mss (ce s) (fl_family (cf s))"

lemma rto_retransmits:
  assumes op: "active_write (cf s) = Some op" and u: "has_unacked s op" and w: "peer_wnd (cf s) \<noteq> 0"
  shows "retransmits s op (rto_retransmit s)"
proof -
  let ?m = "unat (peer_wnd (cf s))"
  have una: "snd_una (cf s) \<noteq> snd_nxt (cf s)" using u by (auto simp: has_unacked_def unacked_def Let_def)
  have u': "wo_total op = length (write_data op)" "0 < mss (ce s) (fl_family (cf s))" using u by (simp_all add: has_unacked_def)
  obtain segs k where r: "retransmit_unacked ?m s = send_all segs s" "in_sequence (mss (ce s) (fl_family (cf s))) (snd_una (cf s)) segs"
      "concat (map snd segs) = take k (unacked s op)" "unacked s op \<noteq> [] \<and> 0 < ?m \<longrightarrow> 0 < k"
    using retransmission_faithful [OF op u' una, of ?m] by metis
  have "0 < ?m" using w by (simp add: unat_gt_0)
  hence "concat (map snd segs) \<noteq> []" using r(3,4) u by (auto simp: has_unacked_def)
  hence "segs \<noteq> []" by auto
  moreover have "rto_retransmit s = retransmit_unacked ?m s" using u op by (simp add: rto_retransmit_def has_unacked_def)
  ultimately show ?thesis unfolding retransmits_def using r by metis
qed

text \<open>
  C17. Retransmission ends, after exactly the configured number of retransmissions. While a flow waits for an
  acknowledgement that does not come, with \<open>N\<close> of \<open>tcp_rto_max_retransmits\<close> left: through the first \<open>N\<close>
  timeouts the flow stays established with its write pending; each of them counts one retransmission, sends
  unacknowledged bytes again (if there are any) and doubles the RTO up to 60 seconds; the next timeout, and
  none before, closes the connection, ends the coroutine and completes the write with
  \<^verbatim>\<open>connection_reset\<close>, at most \<open>N\<close> minutes after the first one.
\<close>

theorem tcp_rto_gives_up:
  assumes w: "awaits_ack s c op" and N: "N = nat (tcp_rto_max_retransmits (ccfg s) - wl_retransmits c)"
  shows "(\<forall>j\<le>N. \<exists>c'. awaits_ack ((timeout_round ^^ j) s) c' op \<and> wl_retransmits c' = wl_retransmits c + int j \<and>
      wl_rto c' = ((\<lambda>r. min (r * 2) timer_max) ^^ j) (wl_rto c)) \<and>
    (\<forall>j<N. let t = timer_fired ((timeout_round ^^ j) s) in
      (\<exists>c'. (timeout_round ^^ Suc j) s = set_coro (Some c') (rto_retransmit t)) \<and>
      (has_unacked s op \<longrightarrow> retransmits t op (rto_retransmit t))) \<and>
    (let s' = (timeout_round ^^ Suc N) s in
      fl_state (cf s') = CLOSED \<and> active_write (cf s') = None \<and> fl_coro (cf s') = None \<and>
      Done_write (wo_handler op) EC_connection_reset 0 \<in> set (e_posted (cenv s')) \<and>
      cnow s' \<le> max (cnow s) (wl_deadline c) + 60000 * int N)"
proof (intro conjI allI impI)
  have reach: "\<exists>c'. awaits_ack ((timeout_round ^^ j) s) c' op \<and> wl_retransmits c' = wl_retransmits c + int j \<and>
      wl_rto c' = ((\<lambda>r. min (r * 2) timer_max) ^^ j) (wl_rto c) \<and> same_send s ((timeout_round ^^ j) s) \<and>
      max (cnow ((timeout_round ^^ j) s)) (wl_deadline c') \<le> max (cnow s) (wl_deadline c) + 60000 * int j" if "j \<le> N" for j
  proof (cases "j = 0")
    case True
    thus ?thesis using w by (auto simp: same_send_def)
  next
    case False
    hence "int j \<le> tcp_rto_max_retransmits (ccfg s) - wl_retransmits c" using that N by linarith
    from rto_rounds [OF w this] show ?thesis by blast
  qed
  fix j
  show "j \<le> N \<Longrightarrow> \<exists>c'. awaits_ack ((timeout_round ^^ j) s) c' op \<and> wl_retransmits c' = wl_retransmits c + int j \<and>
      wl_rto c' = ((\<lambda>r. min (r * 2) timer_max) ^^ j) (wl_rto c)" using reach by blast
  show "let t = timer_fired ((timeout_round ^^ j) s) in
      (\<exists>c'. (timeout_round ^^ Suc j) s = set_coro (Some c') (rto_retransmit t)) \<and>
      (has_unacked s op \<longrightarrow> retransmits t op (rto_retransmit t))" if "j < N"
  proof -
    let ?s = "(timeout_round ^^ j) s"
    obtain c' where c': "awaits_ack ?s c' op" "same_send s ?s" "wl_retransmits c' = wl_retransmits c + int j" using reach [of j] \<open>j < N\<close> by auto
    have "wl_retransmits c' + 1 \<le> tcp_rto_max_retransmits (ccfg ?s)" using c'(2,3) \<open>j < N\<close> N by (simp add: same_send_def)
    from rto_round_sends [OF c'(1) this] have "\<exists>c'. (timeout_round ^^ Suc j) s = set_coro (Some c') (rto_retransmit (timer_fired ?s))" by auto
    moreover have "retransmits (timer_fired ?s) op (rto_retransmit (timer_fired ?s))" if "has_unacked s op"
    proof (rule rto_retransmits)
      note T = timer_fired_waiting [OF c'(1)]
      have ss: "same_send s (timer_fired ?s)" using same_send_trans [OF c'(2) T(2)] .
      show "active_write (cf (timer_fired ?s)) = Some op" "peer_wnd (cf (timer_fired ?s)) \<noteq> 0" using c'(1) by (simp_all add: T(1) awaits_ack_def)
      show "has_unacked (timer_fired ?s) op" using that same_send_mss [OF ss] ss by (simp add: has_unacked_def same_send_def)
    qed
    ultimately show ?thesis by (simp only: Let_def) blast
  qed
  obtain cl where cl: "awaits_ack ((timeout_round ^^ N) s) cl op" "same_send s ((timeout_round ^^ N) s)" "wl_retransmits cl = wl_retransmits c + int N"
      "max (cnow ((timeout_round ^^ N) s)) (wl_deadline cl) \<le> max (cnow s) (wl_deadline c) + 60000 * int N"
    using reach [of N] by auto
  have "tcp_rto_max_retransmits (ccfg ((timeout_round ^^ N) s)) < wl_retransmits cl + 1" using cl(2,3) N by (simp add: same_send_def)
  from rto_round(1) [OF cl(1) this] cl(4)
  show "let s' = (timeout_round ^^ Suc N) s in
      fl_state (cf s') = CLOSED \<and> active_write (cf s') = None \<and> fl_coro (cf s') = None \<and>
      Done_write (wo_handler op) EC_connection_reset 0 \<in> set (e_posted (cenv s')) \<and>
      cnow s' \<le> max (cnow s) (wl_deadline c) + 60000 * int N" by (simp add: Let_def)
qed

text \<open>The same for a peer that keeps its window closed.\<close>

definition awaits_window :: "tcp_ctx \<Rightarrow> write_coro \<Rightarrow> write_op \<Rightarrow> bool" where
  "awaits_window s c op \<longleftrightarrow> fl_coro (cf s) = Some c \<and> wl_point c = WL_persist \<and> wl_resume c = None \<and> active_write (cf s) = Some op \<and>
     fl_state (cf s) = ESTABLISHED \<and> \<not> fl_rst (cf s) \<and> peer_wnd (cf s) = 0 \<and> \<not> (wo_offset op = wo_total op \<and> snd_una (cf s) = write_end op)"

lemma send_window_probe_frame:
  assumes "active_write (cf s) = Some op"
  shows "\<exists>op'. active_write (cf (send_window_probe op s)) = Some op' \<and> wo_handler op' = wo_handler op \<and> wo_offset op' = wo_offset op \<and>
      wo_total op' = wo_total op \<and> write_end op' = write_end op"
    "fl_state (cf (send_window_probe op s)) = fl_state (cf s)" "fl_rst (cf (send_window_probe op s)) = fl_rst (cf s)"
    "peer_wnd (cf (send_window_probe op s)) = peer_wnd (cf s)" "snd_una (cf (send_window_probe op s)) = snd_una (cf s)"
    "ccfg (send_window_probe op s) = ccfg s" "cnow (send_window_probe op s) = cnow s"
  by (simp_all add: send_window_probe_def Let_def op_seek_keeps write_end_def)

lemma persist_round:
  assumes w: "awaits_window s c op"
  shows "tcp_persist_max_probes (ccfg s) < wl_persist_probes c + 1 \<Longrightarrow>
      fl_state (cf (timeout_round s)) = CLOSED \<and> active_write (cf (timeout_round s)) = None \<and> fl_coro (cf (timeout_round s)) = None \<and>
      Done_write (wo_handler op) EC_connection_reset 0 \<in> set (e_posted (cenv (timeout_round s))) \<and>
      cnow (timeout_round s) = max (cnow s) (wl_deadline c)"
    and "wl_persist_probes c + 1 \<le> tcp_persist_max_probes (ccfg s) \<Longrightarrow>
      \<exists>c' op'. awaits_window (timeout_round s) c' op' \<and> wo_handler op' = wo_handler op \<and> wl_persist_probes c' = wl_persist_probes c + 1 \<and>
        wl_persist_interval c' = (if wl_persist_interval c < timer_max then min (wl_persist_interval c * 2) timer_max else wl_persist_interval c) \<and>
        ccfg (timeout_round s) = ccfg s \<and> wl_deadline c' = cnow (timeout_round s) + wl_persist_interval c' \<and>
        cnow (timeout_round s) = max (cnow s) (wl_deadline c)"
proof -
  note W = w [unfolded awaits_window_def]
  define s1 where "s1 = on_env (\<lambda>e. e\<lparr>e_now := max (e_now e) (wl_deadline c)\<rparr>) s"
  define c1 where "c1 = c\<lparr>wl_resume := Some R_timer\<rparr>"
  define s2 where "s2 = set_coro (Some c1) s1"
  have t: "coro_timer s1 = s2" using W by (simp add: coro_timer_def s1_def s2_def c1_def coro_on_channel_def)
  have s2: "cf s2 = (cf s)\<lparr>fl_coro := Some c1\<rparr>" "ccfg s2 = ccfg s" "cnow s2 = max (cnow s) (wl_deadline c)"
    by (simp_all add: s2_def s1_def set_coro_def)
  have r: "timeout_round s = wl_persist R_timer c1 s2"
    using W by (simp add: timeout_round_def t s1_def [symmetric]) (simp add: write_loop_step_def s2 c1_def)
  show "tcp_persist_max_probes (ccfg s) < wl_persist_probes c + 1 \<Longrightarrow>
      fl_state (cf (timeout_round s)) = CLOSED \<and> active_write (cf (timeout_round s)) = None \<and> fl_coro (cf (timeout_round s)) = None \<and>
      Done_write (wo_handler op) EC_connection_reset 0 \<in> set (e_posted (cenv (timeout_round s))) \<and>
      cnow (timeout_round s) = max (cnow s) (wl_deadline c)"
  proof -
    assume "tcp_persist_max_probes (ccfg s) < wl_persist_probes c + 1"
    hence "timeout_round s = wl_exit (abort_flow s2)" by (simp add: r wl_persist_def Let_def s2 c1_def)
    thus ?thesis using aborted_exit [of s2 op] W by (simp add: s2)
  qed
  assume le: "wl_persist_probes c + 1 \<le> tcp_persist_max_probes (ccfg s)"
  define c2 where "c2 = c1\<lparr>wl_persist_probes := wl_persist_probes c + 1\<rparr>"
  define s3 where "s3 = (if wo_offset op < wo_total op then send_window_probe op s2
      else if snd_una (cf s2) \<noteq> write_end op then retransmit_unacked (mss (ce s2) (fl_family (cf s2))) s2 else s2)"
  define c3 where "c3 = (if wl_persist_interval c < timer_max then c2\<lparr>wl_persist_interval := min (wl_persist_interval c * 2) timer_max\<rparr> else c2)"
  have e: "timeout_round s = wl_head c3 s3"
    using W le by (simp add: r wl_persist_def persist_probe_def Let_def s2 c1_def c2_def c3_def s3_def)
  have aw: "active_write (cf s2) = Some op" using W by (simp add: s2)
  note R = sends_flow [OF retransmit_unacked_sends] sends_engine [OF retransmit_unacked_sends]
  have "\<exists>op'. active_write (cf s3) = Some op' \<and> wo_handler op' = wo_handler op \<and> wo_offset op' = wo_offset op \<and>
      wo_total op' = wo_total op \<and> write_end op' = write_end op"
    using send_window_probe_frame(1) [OF aw] aw by (simp add: s3_def R)
  then obtain op' where op': "active_write (cf s3) = Some op'" "wo_handler op' = wo_handler op" "wo_offset op' = wo_offset op" "wo_total op' = wo_total op"
      "write_end op' = write_end op"
    by blast
  have f: "fl_state (cf s3) = ESTABLISHED" "\<not> fl_rst (cf s3)" "peer_wnd (cf s3) = 0" "snd_una (cf s3) = snd_una (cf s)"
    "ccfg s3 = ccfg s" "cnow s3 = max (cnow s) (wl_deadline c)"
    using W send_window_probe_frame(2-) [OF aw] by (simp_all add: s3_def R s2)
  have h: "timeout_round s = suspend WL_persist (cnow s3 + wl_persist_interval c3) c3 s3"
    unfolding e wl_head_def wl_iter_def [of _ c3 s3] using op' f W by auto
  show "\<exists>c' op'. awaits_window (timeout_round s) c' op' \<and> wo_handler op' = wo_handler op \<and> wl_persist_probes c' = wl_persist_probes c + 1 \<and>
        wl_persist_interval c' = (if wl_persist_interval c < timer_max then min (wl_persist_interval c * 2) timer_max else wl_persist_interval c) \<and>
        ccfg (timeout_round s) = ccfg s \<and> wl_deadline c' = cnow (timeout_round s) + wl_persist_interval c' \<and>
        cnow (timeout_round s) = max (cnow s) (wl_deadline c)"
    by (rule exI [of _ "c3\<lparr>wl_point := WL_persist, wl_resume := None, wl_deadline := cnow s3 + wl_persist_interval c3\<rparr>"], rule exI [of _ op'])
      (use W f op' in \<open>simp add: h awaits_window_def suspend_def set_coro_def, simp add: c3_def c2_def c1_def\<close>)
qed

text \<open>
  Probing ends. A write to a peer that keeps its window at zero and sends nothing is given up after the
  configured number of probes: the connection is closed and the write completed with
  \<^verbatim>\<open>connection_reset\<close>. From the first timeout on, the timeouts come at most the larger of 60 seconds and
  the configured first interval apart.
\<close>

theorem tcp_persist_gives_up:
  assumes "awaits_window s c op" "n = Suc (nat (tcp_persist_max_probes (ccfg s) - wl_persist_probes c))" "s' = (timeout_round ^^ n) s"
    "wl_persist_interval c \<le> b" "60000 \<le> b"
  shows "fl_state (cf s') = CLOSED \<and> active_write (cf s') = None \<and> fl_coro (cf s') = None \<and>
    Done_write (wo_handler op) EC_connection_reset 0 \<in> set (e_posted (cenv s')) \<and>
    cnow s' \<le> max (cnow s) (wl_deadline c) + b * (int n - 1)"
  using assms
proof (induction "nat (tcp_persist_max_probes (ccfg s) - wl_persist_probes c)" arbitrary: s c op n)
  case 0
  thus ?case using persist_round(1) [OF 0(2)] by simp
next
  case (Suc k)
  have le: "wl_persist_probes c + 1 \<le> tcp_persist_max_probes (ccfg s)" using Suc(2) by linarith
  obtain c' op' where c': "awaits_window (timeout_round s) c' op'" "wo_handler op' = wo_handler op" "wl_persist_probes c' = wl_persist_probes c + 1"
      "wl_persist_interval c' = (if wl_persist_interval c < timer_max then min (wl_persist_interval c * 2) timer_max else wl_persist_interval c)"
      "ccfg (timeout_round s) = ccfg s" "wl_deadline c' = cnow (timeout_round s) + wl_persist_interval c'"
      "cnow (timeout_round s) = max (cnow s) (wl_deadline c)"
    using persist_round(2) [OF Suc(3) le] by blast
  have k: "k = nat (tcp_persist_max_probes (ccfg (timeout_round s)) - wl_persist_probes c')" using Suc(2) le c'(3,5) by simp
  have s': "s' = (timeout_round ^^ Suc k) (timeout_round s)" using Suc(2,4,5) by (simp only: funpow_Suc_right o_apply)
  have nk: "int n = int (Suc k) + 1" using Suc(2,4) by simp
  have i: "wl_persist_interval c' \<le> b" using Suc(6,7) c'(4) by (simp add: timer_max_def split: if_splits)
  hence "max (cnow (timeout_round s)) (wl_deadline c') \<le> max (cnow s) (wl_deadline c) + b" using c'(6,7) Suc(7) by linarith
  thus ?case using Suc(1) [OF k c'(1) _ s' i Suc(7)] k nk c'(2) by (auto simp: algebra_simps)
qed


section \<open>Writing after the peer has closed\<close>

text \<open>
  The loop sends only in \<^verbatim>\<open>ESTABLISHED\<close> (or for the write that accepted the connection); it takes
  every other state for a handshake that is not finished. \<open>half_closed_write\<close>: the peer has closed its
  side, ours is open and a write is not finished. \<open>parked\<close>: all that has changed is the clock and where the
  coroutine waits.
\<close>

definition half_closed_write :: "tcp_ctx \<Rightarrow> write_op \<Rightarrow> bool" where
  "half_closed_write s op \<longleftrightarrow> fl_state (cf s) = CLOSE_WAIT \<and> \<not> fl_rst (cf s) \<and> active_write (cf s) = Some op \<and>
     \<not> wo_implicit_accept op \<and> \<not> (wo_offset op = wo_total op \<and> snd_una (cf s) = write_end op)"

definition parked :: "int \<Rightarrow> write_coro \<Rightarrow> tcp_ctx \<Rightarrow> tcp_ctx" where
  "parked t c s = set_coro (Some c) (on_env (\<lambda>e. e\<lparr>e_now := t\<rparr>) s)"

lemma half_closed_head:
  "half_closed_write s op \<Longrightarrow> wl_head c s = suspend WL_handshake (cnow s + wl_rto c) c s"
  by (auto simp: half_closed_write_def wl_head_def wl_iter_def)

lemma half_closed_parked: "half_closed_write (parked t c s) op = half_closed_write s op"
  by (simp add: half_closed_write_def parked_def set_coro_def)

lemma parked_parked: "parked t c (parked t' c' s) = parked t c s"
  by (simp add: parked_def set_coro_def upf_def on_env_def)

lemma half_closed_begin:
  assumes h: "half_closed_write s op" "wo_offset op < wo_total op" and c: "fl_coro (cf s) = Some c" "wl_point c = WL_start" "wl_resume c \<noteq> None"
  shows "\<exists>s0 c'. write_loop_step s = parked (cnow s) c' s0 \<and> wl_point c' = WL_handshake \<and> wl_resume c' = None \<and>
    s0 = upf (\<lambda>f. f\<lparr>write_ch := (if write_ch f = None then Some True else write_ch f),
      active_write := Some (op\<lparr>wo_start_seq := snd_nxt f\<rparr>)\<rparr>) s"
proof -
  define s0 where "s0 = upf (\<lambda>f. f\<lparr>write_ch := (if write_ch f = None then Some True else write_ch f),
      active_write := Some (op\<lparr>wo_start_seq := snd_nxt f\<rparr>)\<rparr>) s"
  have h0: "half_closed_write s0 (op\<lparr>wo_start_seq := snd_nxt (cf s)\<rparr>)" using h by (simp add: half_closed_write_def s0_def)
  have a: "active_write (cf s) = Some op" using h(1) by (simp add: half_closed_write_def)
  have b: "upf (\<lambda>f. f\<lparr>active_write := Some (op\<lparr>wo_start_seq := snd_nxt f\<rparr>)\<rparr>)
      (if write_ch (cf s) = None then upf (\<lambda>f. f\<lparr>write_ch := Some True\<rparr>) s else s) = s0"
    by (simp add: s0_def upf_def)
  define c1 where "c1 = \<lparr>wl_point = WL_start, wl_resume = None, wl_deadline = 0,
    wl_persist_interval = tcp_persist_timeout (ccfg s0), wl_persist_probes = 0,
    wl_rto = tcp_rto_timeout (ccfg s0), wl_retransmits = 0, wl_last_una = snd_una (cf s0)\<rparr>"
  have k: "ccfg s0 = ccfg s" "snd_una (cf s0) = snd_una (cf s)" by (simp_all add: s0_def)
  have "write_loop_step s = wl_head c1 s0"
    using c a by (auto simp: write_loop_step_def wl_begin_def Let_def b c1_def k)
  also have "\<dots> = parked (cnow s) (c1\<lparr>wl_point := WL_handshake, wl_resume := None, wl_deadline := cnow s + wl_rto c1\<rparr>) s0"
    unfolding half_closed_head [OF h0] by (simp add: suspend_def parked_def set_coro_def upf_def on_env_def s0_def)
  finally show ?thesis unfolding s0_def by (intro exI conjI) (auto simp: upf_def)
qed

lemma half_closed_round:
  assumes h: "half_closed_write s op" and c: "fl_coro (cf s) = Some c" "wl_point c = WL_handshake" "wl_resume c = None"
  shows "\<exists>t c'. timeout_round s = parked t c' s \<and> wl_point c' = WL_handshake \<and> wl_resume c' = None"
proof -
  define t where "t = max (cnow s) (wl_deadline c)"
  define c1 where "c1 = c\<lparr>wl_resume := Some R_timer\<rparr>"
  have p: "coro_timer (on_env (\<lambda>e. e\<lparr>e_now := max (e_now e) (wl_deadline c)\<rparr>) s) = parked t c1 s"
    using c by (simp add: coro_timer_def coro_on_channel_def parked_def t_def c1_def) (simp add: on_env_def upf_def set_coro_def)
  have "write_loop_step (parked t c1 s) = wl_head c1 (parked t c1 s)"
    using c by (simp add: write_loop_step_def parked_def set_coro_def c1_def)
  also have "\<dots> = suspend WL_handshake (t + wl_rto c1) c1 (parked t c1 s)"
    using half_closed_head [of "parked t c1 s" op c1] h by (simp add: half_closed_parked) (simp add: parked_def set_coro_def on_env_def upf_def)
  also have "\<dots> = parked t (c1\<lparr>wl_point := WL_handshake, wl_resume := None, wl_deadline := t + wl_rto c1\<rparr>) s"
    by (simp add: suspend_def parked_def set_coro_def upf_def on_env_def)
  finally have "timeout_round s = parked t (c1\<lparr>wl_point := WL_handshake, wl_resume := None, wl_deadline := t + wl_rto c1\<rparr>) s"
    using c(1) p by (simp add: timeout_round_def)
  thus ?thesis
    by (intro exI [of _ t] exI [of _ "c1\<lparr>wl_point := WL_handshake, wl_resume := None, wl_deadline := t + wl_rto c1\<rparr>"]) simp
qed

lemma half_closed_rounds:
  assumes "half_closed_write s op" "wl_point c = WL_handshake" "wl_resume c = None"
  shows "\<exists>t' c'. (timeout_round ^^ n) (parked t c s) = parked t' c' s \<and> wl_point c' = WL_handshake \<and> wl_resume c' = None"
proof (induction n)
  case 0
  thus ?case using assms(2,3) by (metis funpow_0)
next
  case (Suc n)
  then obtain t' c' where i: "(timeout_round ^^ n) (parked t c s) = parked t' c' s" "wl_point c' = WL_handshake" "wl_resume c' = None" by blast
  have "\<exists>u d. timeout_round (parked t' c' s) = parked u d (parked t' c' s) \<and> wl_point d = WL_handshake \<and> wl_resume d = None"
    by (rule half_closed_round [of _ op c']) (use assms(1) i in \<open>simp_all add: half_closed_parked\<close>, simp_all add: parked_def set_coro_def)
  thus ?case by (simp add: i(1) parked_parked)
qed

text \<open>
  C40. A write on a connection whose peer has closed its side never sends anything. The connection is in
  \<^verbatim>\<open>CLOSE_WAIT\<close> and the socket accepts the write, but the loop waits for a handshake that
  was over long ago: after any number of timeouts the engine, its device queues, its posted completions and
  the flow are what they were, and the write is still waiting. No limit of retries ends this.
\<close>

theorem tcp_half_closed_write_stalls:
  assumes h: "half_closed_write s op" "wo_offset op < wo_total op" and c: "fl_coro (cf s) = Some c" "wl_point c = WL_start" "wl_resume c \<noteq> None"
  shows "\<exists>t c' ch. (timeout_round ^^ n) (write_loop_step s) =
    parked t c' (upf (\<lambda>f. f\<lparr>write_ch := ch, active_write := Some (op\<lparr>wo_start_seq := snd_nxt (cf s)\<rparr>)\<rparr>) s)"
proof -
  define s0 where "s0 = upf (\<lambda>f. f\<lparr>write_ch := (if write_ch f = None then Some True else write_ch f),
      active_write := Some (op\<lparr>wo_start_seq := snd_nxt f\<rparr>)\<rparr>) s"
  obtain c1 where w: "write_loop_step s = parked (cnow s) c1 s0" "wl_point c1 = WL_handshake" "wl_resume c1 = None"
    using half_closed_begin [OF h c] unfolding s0_def by blast
  have "half_closed_write s0 (op\<lparr>wo_start_seq := snd_nxt (cf s)\<rparr>)" using h by (simp add: half_closed_write_def s0_def)
  then obtain t c' where "(timeout_round ^^ n) (write_loop_step s) = parked t c' s0"
    using half_closed_rounds [OF _ w(2,3)] w(1) by metis
  thus ?thesis unfolding s0_def upf_def by blast
qed


section \<open>Samples\<close>

definition sample_unsent :: write_op where
  "sample_unsent = sample_op\<lparr>wo_offset := 1, wo_buf_index := 0, wo_buf_off := 1\<rparr>"

lemma sample_op_ok: "op_ok sample_op" "op_ok sample_unsent" "wo_total sample_op = length (write_data sample_op)" "wo_buffers sample_op = [[1, 2], [3]]"
  by (simp_all add: op_ok_def write_data_def sample_op_def sample_unsent_def)

theorem tcp_next_segment_in_order_witness:
  "\<exists>pkt s' op'. build_next_segment 3 sample_unsent sample_sender = (Inr (Some pkt), s') \<and> active_write (cf s') = Some op' \<and> op_ok op'"
proof -
  have q: "op_seek sample_unsent = sample_unsent" by (rule op_seek_cases(2)) (simp add: sample_unsent_def sample_op_def)
  define t where "t = upf (\<lambda>f. f\<lparr>active_write := Some sample_unsent\<rparr>) sample_sender"
  have t: "cenv t = cenv sample_sender" "fl_key (cf t) = sample_conn" "ccfg t = ccfg sample_sender" "mss (ce t) 4 = 1460" "peer_wnd (cf t) = 1000"
    using sample_sender_facts by (simp_all add: t_def) (simp add: sample_sender_def)
  have f: "unat (ft_family sample_conn) = 4" using sample_sender_facts(2,3) by simp
  have c: "next_chunk 3 sample_unsent t = [2]"
    by (simp add: next_chunk_def Let_def t f) (simp add: sample_unsent_def sample_op_def size_sub_def subl_def)
  obtain pkt u ip_id where b: "build_segment (snd_nxt (cf t)) (TCP_ACK OR TCP_PSH) [2] False t = (Inr pkt, u)"
    by (rule build_segment_bytes [of t 4 "ft_dst_ip sample_conn" "ft_src_ip sample_conn" "seg_options False t @ [2]" False "[2]" "snd_nxt (cf t)" "TCP_ACK OR TCP_PSH"])
      (use sample_sender_facts sample_conn_addrs t f in \<open>simp_all add: seg_options_def ip_header_size_def\<close>)
  have "wo_buf_index sample_unsent \<noteq> length (wo_buffers sample_unsent)" by (simp add: sample_unsent_def sample_op_def)
  then obtain s' where "build_next_segment 3 sample_unsent sample_sender = (Inr (Some pkt), s')"
    by (simp add: build_next_segment_def Let_def q c b flip: t_def)
  thus ?thesis using tcp_next_segment_in_order [OF sample_op_ok(2)] by blast
qed

lemma sample_unacked: "unacked sample_sender sample_op = [1, 2, 3]"
  by (simp add: unacked_def write_data_def) (simp add: sample_sender_def sample_op_def)

theorem tcp_retransmission_faithful_witness:
  "\<exists>segs. retransmit_unacked 1000 sample_sender = send_all segs sample_sender \<and> concat (map snd segs) = [1, 2, 3]"
proof -
  have "snd_una (cf sample_sender) \<noteq> snd_nxt (cf sample_sender)" "0 < mss (ce sample_sender) (fl_family (cf sample_sender))"
    using sample_sender_facts(2,5) by simp_all (simp add: sample_sender_def)
  from tcp_retransmission_faithful [OF sample_sender_facts(6) sample_op_ok(3) this(2,1), of 1000]
  obtain segs k where r: "retransmit_unacked 1000 sample_sender = send_all segs sample_sender" "concat (map snd segs) = take k (unacked sample_sender sample_op)"
    "[] \<notin> set (wo_buffers sample_op) \<longrightarrow> k = min (length (unacked sample_sender sample_op)) 1000"
    by blast
  hence "k = 3" by (simp add: sample_op_ok(4) sample_unacked)
  thus ?thesis using r sample_unacked by auto
qed

definition sample_implicit :: tcp_ctx where
  "sample_implicit = upf (\<lambda>f. f\<lparr>fl_state := SYN_ACK_SENT, snd_una := 99\<rparr>) sample_sender"

theorem tcp_handshake_blocks_retransmission_witness: "retransmit_unacked 1000 sample_implicit = sample_implicit"
  by (rule tcp_handshake_blocks_retransmission [of _ sample_op]) (simp_all add: sample_implicit_def sample_sender_def sample_op_def)

definition sample_waiter :: "wl_point \<Rightarrow> write_coro" where
  "sample_waiter p = \<lparr>wl_point = p, wl_resume = None, wl_deadline = 200, wl_persist_interval = 5000, wl_persist_probes = 14,
     wl_rto = 200, wl_retransmits = 7, wl_last_una = 100\<rparr>"

theorem tcp_rto_gives_up_witness:
  "fl_state (cf (timeout_round (set_coro (Some (sample_waiter WL_rto)) sample_sender))) = ESTABLISHED \<and>
   retransmits (timer_fired (set_coro (Some (sample_waiter WL_rto)) sample_sender)) sample_op
     (rto_retransmit (timer_fired (set_coro (Some (sample_waiter WL_rto)) sample_sender))) \<and>
   fl_state (cf ((timeout_round ^^ 2) (set_coro (Some (sample_waiter WL_rto)) sample_sender))) = CLOSED"
proof -
  let ?s = "set_coro (Some (sample_waiter WL_rto)) sample_sender"
  have w: "awaits_ack ?s (sample_waiter WL_rto) sample_op"
    by (simp add: awaits_ack_def set_coro_def sample_sender_def sample_waiter_def sample_op_def write_end_def tcp_flow0_def)
  have N: "1 = nat (tcp_rto_max_retransmits (ccfg ?s) - wl_retransmits (sample_waiter WL_rto))"
    by (simp add: set_coro_def sample_sender_def tcp_engine_new_def default_config_def sample_waiter_def)
  have "unacked ?s sample_op = unacked sample_sender sample_op" by (simp add: unacked_def set_coro_def)
  hence u: "has_unacked ?s sample_op"
    using sample_unacked sample_op_ok(3) sample_sender_facts by (simp add: has_unacked_def set_coro_def) (simp add: sample_sender_def sample_op_def write_end_def)
  note T = tcp_rto_gives_up [OF w N]
  have "fl_state (cf (timeout_round ?s)) = ESTABLISHED" using T by (auto simp: awaits_ack_def dest!: spec [of _ 1])
  thus ?thesis using T u by (auto simp: Let_def numeral_2_eq_2 dest!: spec [of _ "0 :: nat"])
qed

theorem tcp_persist_gives_up_witness:
  "fl_state (cf ((timeout_round ^^ 2) (set_coro (Some (sample_waiter WL_persist)) (upf (\<lambda>f. f\<lparr>peer_wnd := 0\<rparr>) sample_sender)))) = CLOSED"
proof -
  let ?s = "set_coro (Some (sample_waiter WL_persist)) (upf (\<lambda>f. f\<lparr>peer_wnd := 0\<rparr>) sample_sender)"
  have "awaits_window ?s (sample_waiter WL_persist) sample_op"
    by (simp add: awaits_window_def set_coro_def sample_sender_def sample_waiter_def sample_op_def write_end_def tcp_flow0_def)
  moreover have "tcp_persist_max_probes (ccfg ?s) = 15" by (simp add: set_coro_def sample_sender_def tcp_engine_new_def default_config_def)
  ultimately show ?thesis using tcp_persist_gives_up [of ?s "sample_waiter WL_persist" sample_op 2 "(timeout_round ^^ 2) ?s" 60000]
    by (simp add: sample_waiter_def)
qed

definition sample_half_closed :: tcp_ctx where
  "sample_half_closed = set_coro (Some ((sample_waiter WL_start)\<lparr>wl_resume := Some R_signal\<rparr>))
     (upf (\<lambda>f. f\<lparr>fl_state := CLOSE_WAIT, active_write := Some sample_unsent\<rparr>) sample_sender)"

theorem tcp_half_closed_write_stalls_witness:
  "e_posted (cenv ((timeout_round ^^ 100) (write_loop_step sample_half_closed))) = e_posted (cenv sample_half_closed) \<and>
   active_write (cf ((timeout_round ^^ 100) (write_loop_step sample_half_closed))) \<noteq> None"
proof -
  have "half_closed_write sample_half_closed sample_unsent" "wo_offset sample_unsent < wo_total sample_unsent"
    by (simp_all add: half_closed_write_def sample_half_closed_def set_coro_def sample_sender_def sample_unsent_def sample_op_def tcp_flow0_def)
  then obtain t c' ch where "(timeout_round ^^ 100) (write_loop_step sample_half_closed) = parked t c'
      (upf (\<lambda>f. f\<lparr>write_ch := ch, active_write := Some (sample_unsent\<lparr>wo_start_seq := snd_nxt (cf sample_half_closed)\<rparr>)\<rparr>) sample_half_closed)"
    using tcp_half_closed_write_stalls [of sample_half_closed sample_unsent _ 100]
    by (fastforce simp: sample_half_closed_def set_coro_def sample_waiter_def)
  thus ?thesis by (simp add: parked_def set_coro_def)
qed

end
