(* ===== verification/Udp_Engine.thy ===== *)
theory Udp_Engine
  imports Queue_Writer Ip_Packet
begin

text \<open>
  The UDP engine (\<^verbatim>\<open>include/tunio/detail/udp_engine.hpp\<close>,
  \<^verbatim>\<open>src/udp_engine.cpp\<close>): sessions keyed by the client's address and port, their
  datagram queues and pending reads, the expiry heap with its timer, and datagram transmission
  with IPv4 fragmentation. Session objects live in a store and are named by numbers, as
  \<^verbatim>\<open>shared_ptr\<close>s to them are shared by the session table, the accept queue, the heap
  and the application. The heap is the list of its entries in the order in which they leave it.
\<close>

section \<open>Sessions\<close>

record udp_read_op =
  ur_buffers :: "nat list"
  ur_total :: nat
  ur_handler :: nat

record udp_session =
  us_key :: udp_session_key
  us_closed :: bool
  us_pending_accept :: bool
  us_timeout :: int
  us_expiry :: int
  us_expiry_gen :: u64
  us_last_heap_push :: int
  us_heap_live :: bool
  us_rx_datagrams :: "(byte list \<times> udp_endpoint) list"
  us_rx_bytes :: nat
  us_pending_reads :: "udp_read_op list"

definition udp_session0 :: udp_session where
  "udp_session0 = \<lparr>us_key = make_udp_session_key (replicate 16 0) 0 4, us_closed = False, us_pending_accept = False,
     us_timeout = 30000, us_expiry = 0, us_expiry_gen = 0, us_last_heap_push = 0, us_heap_live = False,
     us_rx_datagrams = [], us_rx_bytes = 0, us_pending_reads = []\<rparr>"

record expiry_entry =
  xe_at :: int
  xe_gen :: u64
  xe_session :: nat

text \<open>The aggregator that completes a fragmented send once: \<^verbatim>\<open>state\<close> in the code.\<close>

record frag_state =
  fs_handler :: nat
  fs_total :: nat
  fs_pending :: nat
  fs_first_error :: error_code

text \<open>
  \<open>ue_wait\<close> is the wait registered with the timer (its time and the captured generation),
  \<open>ue_cancelled\<close> the generations of cancelled waits whose handlers have not run yet.
\<close>

record udp_engine =
  ue_cfg :: tun_config
  ue_mtu :: nat
  ue_sessions :: "(udp_session_key \<times> nat) list"
  ue_pending_accepts :: "nat list"
  ue_pending_new :: "nat list"
  ue_store :: "nat \<Rightarrow> udp_session"
  ue_next_id :: nat
  ue_heap :: "expiry_entry list"
  ue_timer_waiting :: bool
  ue_armed_target :: int
  ue_wait_gen :: u64
  ue_wait :: "(int \<times> u64) option"
  ue_cancelled :: "u64 list"
  ue_frags :: "nat \<Rightarrow> frag_state"
  ue_next_frag :: nat
  ue_env :: env

definition max_pending_new_sessions :: nat where "max_pending_new_sessions = 1024"
definition k_expiry_push_interval :: int where "k_expiry_push_interval = 500"

definition udp_engine_new :: "tun_config \<Rightarrow> env \<Rightarrow> udp_engine" where
  "udp_engine_new cfg e =
     \<lparr>ue_cfg = cfg, ue_mtu = mtu cfg, ue_sessions = [], ue_pending_accepts = [], ue_pending_new = [],
      ue_store = (\<lambda>_. udp_session0), ue_next_id = 0, ue_heap = [], ue_timer_waiting = False, ue_armed_target = 0,
      ue_wait_gen = 0, ue_wait = None, ue_cancelled = [],
      ue_frags = (\<lambda>_. \<lparr>fs_handler = 0, fs_total = 0, fs_pending = 0, fs_first_error = EC_ok\<rparr>),
      ue_next_frag = 0, ue_env = e\<rparr>"

definition us_upd :: "nat \<Rightarrow> (udp_session \<Rightarrow> udp_session) \<Rightarrow> udp_engine \<Rightarrow> udp_engine" where
  "us_upd i g eng = eng\<lparr>ue_store := (ue_store eng)(i := g (ue_store eng i))\<rparr>"

definition ue_on_env :: "(env \<Rightarrow> env) \<Rightarrow> udp_engine \<Rightarrow> udp_engine" where
  "ue_on_env g eng = eng\<lparr>ue_env := g (ue_env eng)\<rparr>"

abbreviation ue_post :: "completion \<Rightarrow> udp_engine \<Rightarrow> udp_engine" where
  "ue_post c \<equiv> ue_on_env (post_completion_on c)"

abbreviation ue_drop :: "udp_engine \<Rightarrow> udp_engine" where
  "ue_drop \<equiv> ue_on_env add_rx_dropped"

abbreviation ue_now :: "udp_engine \<Rightarrow> int" where
  "ue_now eng \<equiv> e_now (ue_env eng)"

definition add_udp_sessions :: "u64 \<Rightarrow> env \<Rightarrow> env" where
  "add_udp_sessions d e = e\<lparr>e_stats := (e_stats e)\<lparr>udp_sessions := udp_sessions (e_stats e) + d\<rparr>\<rparr>"

definition set_account :: "buffer_accountant \<Rightarrow> env \<Rightarrow> env" where
  "set_account a e = e\<lparr>e_account := a\<rparr>"

definition make_udp_endpoint :: "byte \<Rightarrow> byte list \<Rightarrow> u16 \<Rightarrow> udp_endpoint" where
  "make_udp_endpoint family addr port =
     (if family = 6 then \<lparr>ep_v6 = True, ep_addr = subl 0 16 addr, ep_port = ntohs port\<rparr>
      else \<lparr>ep_v6 = False, ep_addr = subl 0 4 addr, ep_port = ntohs port\<rparr>)"

definition client_endpoint :: "udp_session \<Rightarrow> udp_endpoint" where
  "client_endpoint s =
     (let key = us_key s in
      if uk_family key = 6 then \<lparr>ep_v6 = True, ep_addr = subl 0 16 (uk_src_ip key), ep_port = ntohs (uk_src_port key)\<rparr>
      else \<lparr>ep_v6 = False, ep_addr = subl 0 4 (uk_src_ip key), ep_port = ntohs (uk_src_port key)\<rparr>)"

section \<open>Expiry\<close>

text \<open>The comparator of the heap, and pushing onto it: entries leave the heap in the order of their times.\<close>

definition expiry_entry_cmp :: "expiry_entry \<Rightarrow> expiry_entry \<Rightarrow> bool" where
  "expiry_entry_cmp lhs rhs \<longleftrightarrow> xe_at lhs > xe_at rhs"

definition heap_push :: "expiry_entry \<Rightarrow> expiry_entry list \<Rightarrow> expiry_entry list" where
  "heap_push x heap =
     takeWhile (\<lambda>y. \<not> expiry_entry_cmp y x) heap @ x # dropWhile (\<lambda>y. \<not> expiry_entry_cmp y x) heap"

definition entry_live :: "(nat \<Rightarrow> udp_session) \<Rightarrow> expiry_entry \<Rightarrow> bool" where
  "entry_live st x \<longleftrightarrow> \<not> us_closed (st (xe_session x)) \<and> us_expiry_gen (st (xe_session x)) = xe_gen x"

definition cancel_wait :: "udp_engine \<Rightarrow> udp_engine" where
  "cancel_wait eng = (case ue_wait eng of
     None \<Rightarrow> eng
   | Some (t, g) \<Rightarrow> eng\<lparr>ue_wait := None, ue_cancelled := g # ue_cancelled eng\<rparr>)"

definition arm_wait :: "int \<Rightarrow> udp_engine \<Rightarrow> udp_engine" where
  "arm_wait target eng =
     (let eng = cancel_wait (eng\<lparr>ue_timer_waiting := False\<rparr>); g = ue_wait_gen eng + 1
      in eng\<lparr>ue_wait_gen := g, ue_armed_target := target, ue_timer_waiting := True, ue_wait := Some (target, g)\<rparr>)"

definition arm_expiry_timer :: "udp_engine \<Rightarrow> udp_engine" where
  "arm_expiry_timer eng =
     (let heap = dropWhile (\<lambda>x. \<not> entry_live (ue_store eng) x) (ue_heap eng); eng = eng\<lparr>ue_heap := heap\<rparr>
      in case heap of
           [] \<Rightarrow> eng
         | x # _ \<Rightarrow> if ue_timer_waiting eng \<and> xe_at x \<ge> ue_armed_target eng then eng else arm_wait (xe_at x) eng)"

definition push_expiry :: "nat \<Rightarrow> udp_engine \<Rightarrow> udp_engine" where
  "push_expiry i eng =
     (let eng = us_upd i (\<lambda>s. s\<lparr>us_expiry_gen := us_expiry_gen s + 1, us_heap_live := True, us_last_heap_push := ue_now eng\<rparr>) eng;
          s = ue_store eng i
      in eng\<lparr>ue_heap := heap_push \<lparr>xe_at = us_expiry s, xe_gen = us_expiry_gen s, xe_session = i\<rparr> (ue_heap eng)\<rparr>)"

definition refresh_expiry :: "nat \<Rightarrow> udp_engine \<Rightarrow> udp_engine" where
  "refresh_expiry i eng =
     (if us_closed (ue_store eng i) then eng
      else
        let eng = us_upd i (\<lambda>s. s\<lparr>us_expiry := ue_now eng + us_timeout s\<rparr>) eng; s = ue_store eng i
        in if us_heap_live s \<and> ue_now eng - us_last_heap_push s < k_expiry_push_interval then eng
           else arm_expiry_timer (push_expiry i eng))"

definition abort_reads :: "udp_read_op list \<Rightarrow> udp_engine \<Rightarrow> udp_engine" where
  "abort_reads ops eng = fold (\<lambda>op. ue_post (Done_recv (ur_handler op) EC_operation_aborted 0 [] None)) ops eng"

definition remove_session :: "nat \<Rightarrow> udp_engine \<Rightarrow> udp_engine" where
  "remove_session i eng =
     (let s = ue_store eng i in
      if us_closed s then eng
      else
        let eng = us_upd i (\<lambda>s. s\<lparr>us_pending_reads := [], us_closed := True\<rparr>) eng;
            eng = eng\<lparr>ue_sessions := filter (\<lambda>p. fst p \<noteq> us_key s) (ue_sessions eng)\<rparr>;
            eng = ue_on_env (add_udp_sessions (- 1)) eng;
            eng = (if us_pending_accept s
                   then us_upd i (\<lambda>s. s\<lparr>us_pending_accept := False\<rparr>) (eng\<lparr>ue_pending_new := remove1 i (ue_pending_new eng)\<rparr>)
                   else eng);
            eng = (if us_rx_bytes s > 0
                   then us_upd i (\<lambda>s. s\<lparr>us_rx_bytes := 0\<rparr>)
                          (ue_on_env (\<lambda>e. set_account (acct_release (us_rx_bytes s) (e_account e)) e) eng)
                   else eng);
            eng = us_upd i (\<lambda>s. s\<lparr>us_rx_datagrams := []\<rparr>) eng
        in abort_reads (us_pending_reads s) eng)"

text \<open>
  The loop of \<open>on_expiry_timer\<close> over the due entries; the heap is its second argument while it runs.
  The first result lists the sessions whose entry is due but which have been refreshed since.
\<close>

fun expire_loop :: "int \<Rightarrow> expiry_entry list \<Rightarrow> nat list \<Rightarrow> udp_engine \<Rightarrow> nat list \<times> udp_engine" where
  "expire_loop now [] ext eng = (ext, eng\<lparr>ue_heap := []\<rparr>)"
| "expire_loop now (x # heap) ext eng =
     (if xe_at x > now then (ext, eng\<lparr>ue_heap := x # heap\<rparr>)
      else
        let i = xe_session x; stale = (\<not> entry_live (ue_store eng) x) in
        if \<not> stale \<and> us_expiry (ue_store eng i) \<le> now then expire_loop now heap ext (remove_session i eng)
        else if \<not> stale then expire_loop now heap (ext @ [i]) (us_upd i (\<lambda>s. s\<lparr>us_heap_live := False\<rparr>) eng)
        else expire_loop now heap ext eng)"

definition on_expiry_timer :: "error_code \<Rightarrow> udp_engine \<Rightarrow> udp_engine" where
  "on_expiry_timer ec eng =
     (let eng = eng\<lparr>ue_timer_waiting := False\<rparr> in
      if ec \<noteq> EC_ok then arm_expiry_timer eng
      else
        let (extended, eng) = expire_loop (ue_now eng) (ue_heap eng) [] eng
        in arm_expiry_timer (fold refresh_expiry extended eng))"

text \<open>The handler passed to \<^verbatim>\<open>async_wait\<close>, with the generation it has captured.\<close>

definition expiry_wait_done :: "u64 \<Rightarrow> error_code \<Rightarrow> udp_engine \<Rightarrow> udp_engine" where
  "expiry_wait_done gen ec eng = (if gen \<noteq> ue_wait_gen eng then eng else on_expiry_timer ec eng)"

section \<open>Received packets\<close>

definition deliver_datagram :: "nat \<Rightarrow> byte list \<Rightarrow> udp_endpoint \<Rightarrow> udp_engine \<Rightarrow> udp_engine" where
  "deliver_datagram i data sender eng =
     (if us_closed (ue_store eng i) then eng
      else
        let eng = refresh_expiry i eng; s = ue_store eng i in
        case us_pending_reads s of
          op # ops \<Rightarrow>
            let eng = us_upd i (\<lambda>s. s\<lparr>us_pending_reads := ops\<rparr>) eng;
                copied_len = min (length data) (ur_total op);
                (chunks, copied) = scatter (ur_buffers op) copied_len data 0
            in ue_post (Done_recv (ur_handler op) EC_ok copied chunks (Some sender)) eng
        | [] \<Rightarrow>
            if us_rx_bytes s + length data > max_rx_queue_per_flow (ue_cfg eng) then ue_drop eng
            else
              let (ok, a) = acct_reserve (length data) (e_account (ue_env eng)); eng = ue_on_env (set_account a) eng
              in if \<not> ok then ue_drop eng
                 else us_upd i (\<lambda>s. s\<lparr>us_rx_datagrams := us_rx_datagrams s @ [(data, sender)],
                                  us_rx_bytes := us_rx_bytes s + length data\<rparr>) eng)"

definition new_session :: "udp_session_key \<Rightarrow> udp_engine \<Rightarrow> udp_engine" where
  "new_session key eng =
     (let i = ue_next_id eng;
          s = udp_session0\<lparr>us_key := key, us_timeout := udp_idle_timeout (ue_cfg eng),
                us_expiry := ue_now eng + udp_idle_timeout (ue_cfg eng)\<rparr>
      in ue_on_env (add_udp_sessions 1)
           (eng\<lparr>ue_store := (ue_store eng)(i := s), ue_next_id := i + 1, ue_sessions := ue_sessions eng @ [(key, i)]\<rparr>))"

definition notify_session :: "nat \<Rightarrow> udp_engine \<Rightarrow> udp_engine" where
  "notify_session i eng =
     (case ue_pending_accepts eng of
        h # hs \<Rightarrow> ue_post (Done_udp_accept h EC_ok (Some i)) (eng\<lparr>ue_pending_accepts := hs\<rparr>)
      | [] \<Rightarrow> (us_upd i (\<lambda>s. s\<lparr>us_pending_accept := True\<rparr>) eng)\<lparr>ue_pending_new := ue_pending_new eng @ [i]\<rparr>)"

definition create_session :: "udp_session_key \<Rightarrow> byte list \<Rightarrow> udp_endpoint \<Rightarrow> udp_engine \<Rightarrow> udp_engine" where
  "create_session key data sender eng =
     (let i = ue_next_id eng
      in notify_session i (refresh_expiry i (deliver_datagram i data sender (new_session key eng))))"

definition udp_dispatch :: "udp_session_key \<Rightarrow> byte list \<Rightarrow> udp_endpoint \<Rightarrow> udp_engine \<Rightarrow> udp_engine" where
  "udp_dispatch key data sender eng =
     (let found = map_of (ue_sessions eng) key;
          open_found = (case found of Some i \<Rightarrow> \<not> us_closed (ue_store eng i) | None \<Rightarrow> False)
      in if open_found then deliver_datagram (the found) data sender eng
         else
           let eng = eng\<lparr>ue_sessions := filter (\<lambda>p. fst p \<noteq> key) (ue_sessions eng)\<rparr> in
           if length (ue_sessions eng) \<ge> max_udp_flows (ue_cfg eng) then ue_drop eng
           else if ue_pending_accepts eng = [] \<and> length (ue_pending_new eng) \<ge> max_pending_new_sessions then ue_drop eng
           else create_session key data sender eng)"

definition udp_on_packet :: "ip_packet_info \<Rightarrow> byte list \<Rightarrow> udp_engine \<Rightarrow> udp_engine" where
  "udp_on_packet ip payload eng =
     (if length payload < sizeof_udp_header then ue_drop eng
      else
        let uh = load_udp_header payload; udp_len = unat (ntohs (uh_length uh)) in
        if udp_len < sizeof_udp_header \<or> udp_len > length payload then ue_drop eng
        else
          let payload = take udp_len payload; csum = ntohs (uh_checksum uh);
              v6_missing_checksum = (pi_family ip = 6 \<and> csum = 0)
          in if v6_missing_checksum \<or>
                (csum \<noteq> 0 \<and> tcp_udp_checksum (unat (pi_family ip)) (pi_src_ip ip) (pi_dst_ip ip) ip_protocol_udp payload \<noteq> 0)
             then ue_drop eng
             else udp_dispatch (make_udp_session_key (pi_src_ip ip) (uh_src_port uh) (pi_family ip))
                    (drop sizeof_udp_header payload)
                    (make_udp_endpoint (pi_family ip) (pi_dst_ip ip) (uh_dst_port uh)) eng)"

section \<open>Shutdown\<close>

definition udp_cancel_accepts :: "udp_engine \<Rightarrow> udp_engine" where
  "udp_cancel_accepts eng =
     fold (\<lambda>h. ue_post (Done_udp_accept h EC_operation_aborted None)) (ue_pending_accepts eng)
       (eng\<lparr>ue_pending_accepts := []\<rparr>)"

definition udp_close_all :: "udp_engine \<Rightarrow> udp_engine" where
  "udp_close_all eng =
     (let eng = (cancel_wait eng)\<lparr>ue_timer_waiting := False\<rparr>;
          eng = fold remove_session (map snd (ue_sessions eng)) eng;
          eng = udp_cancel_accepts (eng\<lparr>ue_pending_new := []\<rparr>)
      in eng\<lparr>ue_heap := []\<rparr>)"

section \<open>Entry points of the application\<close>

text \<open>\<open>None\<close> stands for a socket without a session, or whose engine is gone.\<close>

definition udp_session_close :: "nat option \<Rightarrow> udp_engine \<Rightarrow> udp_engine" where
  "udp_session_close session eng = (case session of None \<Rightarrow> eng | Some i \<Rightarrow> remove_session i eng)"

definition udp_session_set_timeout :: "nat option \<Rightarrow> int \<Rightarrow> udp_engine \<Rightarrow> udp_engine" where
  "udp_session_set_timeout session timeout eng =
     (case session of
        None \<Rightarrow> eng
      | Some i \<Rightarrow> if us_closed (ue_store eng i) then eng
                 else refresh_expiry i (us_upd i (\<lambda>s. s\<lparr>us_timeout := timeout\<rparr>) eng))"

definition udp_session_is_open :: "nat option \<Rightarrow> udp_engine \<Rightarrow> bool" where
  "udp_session_is_open session eng = (case session of None \<Rightarrow> False | Some i \<Rightarrow> \<not> us_closed (ue_store eng i))"

fun udp_take_pending ::
  "nat list \<Rightarrow> (nat \<Rightarrow> udp_session) \<Rightarrow> nat option \<times> nat list \<times> (nat \<Rightarrow> udp_session)" where
  "udp_take_pending [] st = (None, [], st)"
| "udp_take_pending (i # is) st =
     (let st = st(i := (st i)\<lparr>us_pending_accept := False\<rparr>)
      in if us_closed (st i) then udp_take_pending is st else (Some i, is, st))"

definition udp_async_accept :: "nat \<Rightarrow> udp_engine \<Rightarrow> udp_engine" where
  "udp_async_accept handler eng =
     (let (found, rest, st) = udp_take_pending (ue_pending_new eng) (ue_store eng);
          eng = eng\<lparr>ue_pending_new := rest, ue_store := st\<rparr>
      in case found of
           Some i \<Rightarrow> ue_post (Done_udp_accept handler EC_ok (Some i)) eng
         | None \<Rightarrow> eng\<lparr>ue_pending_accepts := ue_pending_accepts eng @ [handler]\<rparr>)"

definition udp_pop_queued_datagram :: "nat \<Rightarrow> nat list \<Rightarrow> nat \<Rightarrow> nat \<Rightarrow> udp_engine \<Rightarrow> bool \<times> udp_engine" where
  "udp_pop_queued_datagram i buffers tot handler eng =
     (case us_rx_datagrams (ue_store eng i) of
        [] \<Rightarrow> (False, eng)
      | (data, sender) # rest \<Rightarrow>
          let eng = us_upd i (\<lambda>s. s\<lparr>us_rx_datagrams := rest, us_rx_bytes := size_sub (us_rx_bytes s) (length data)\<rparr>) eng;
              eng = ue_on_env (\<lambda>e. set_account (acct_release (length data) (e_account e)) e) eng;
              (chunks, copied) = scatter buffers (min (length data) tot) data 0
          in (True, ue_post (Done_recv handler EC_ok copied chunks (Some sender)) eng))"

definition udp_session_start_receive :: "nat option \<Rightarrow> nat list \<Rightarrow> nat \<Rightarrow> nat \<Rightarrow> udp_engine \<Rightarrow> udp_engine" where
  "udp_session_start_receive session buffers tot handler eng =
     (case session of
        None \<Rightarrow> ue_post (Done_recv handler EC_bad_descriptor 0 [] None) eng
      | Some i \<Rightarrow>
          if us_closed (ue_store eng i) then ue_post (Done_recv handler EC_bad_descriptor 0 [] None) eng
          else
            let (popped, eng) = udp_pop_queued_datagram i buffers tot handler eng
            in if popped then eng
               else us_upd i (\<lambda>s. s\<lparr>us_pending_reads := us_pending_reads s @
                      [\<lparr>ur_buffers = buffers, ur_total = tot, ur_handler = handler\<rparr>]\<rparr>) eng)"

end
