(* ===== verification/Udp_Send.thy ===== *)
theory Udp_Send
  imports Udp_Engine
begin

text \<open>
  Transmission of UDP datagrams (the send helpers of
  \<^verbatim>\<open>include/tunio/detail/udp_engine.hpp\<close>): building the datagram with its checksum,
  sending it as one packet, or as IPv4 fragments whose completions are gathered into one.
\<close>

section \<open>Building the datagram\<close>

text \<open>
  \<open>Terminates\<close> is an exception that leaves a \<^verbatim>\<open>noexcept\<close> function, which ends the
  program; \<open>Raised\<close> is one that leaves the handler.
\<close>

datatype udp_fault = Raised cpp_exception | Terminates

definition is_v4_mapped :: "byte list \<Rightarrow> bool" where
  "is_v4_mapped a \<longleftrightarrow> subl 0 12 a = replicate 10 0 @ [0xff, 0xff]"

text \<open>
  The family and the address bytes of an endpoint. \<^verbatim>\<open>address::to_v4\<close> throws
  \<^verbatim>\<open>bad_address_cast\<close> for every address that is not an IPv4 address, a v4-mapped one
  included, and the function is \<^verbatim>\<open>noexcept\<close>.
\<close>

definition udp_endpoint_to_addr_bytes :: "udp_endpoint \<Rightarrow> udp_fault + nat \<times> byte list" where
  "udp_endpoint_to_addr_bytes ep =
     (if ep_v6 ep \<and> \<not> is_v4_mapped (ep_addr ep) then Inr (6, ep_addr ep)
      else if ep_v6 ep then Inl Terminates
      else Inr (4, ep_addr ep))"

text \<open>The loop that copies the user's buffers behind the header, up to \<open>n\<close> bytes.\<close>

fun gather_payload :: "byte list list \<Rightarrow> nat \<Rightarrow> nat \<Rightarrow> byte list \<Rightarrow> byte list" where
  "gather_payload [] n copied dst = dst"
| "gather_payload (b # bs) n copied dst =
     (if copied \<ge> n then dst
      else let take_n = min (length b) (n - copied)
           in gather_payload bs n (copied + take_n) (blit dst (sizeof_udp_header + copied) (take take_n b)))"

text \<open>The result is \<open>dst\<close> with the datagram at its front, and the length of the datagram.\<close>

definition udp_build_datagram ::
  "nat \<Rightarrow> byte list \<Rightarrow> byte list \<Rightarrow> u16 \<Rightarrow> u16 \<Rightarrow> byte list list \<Rightarrow> nat \<Rightarrow> byte list \<Rightarrow> byte list \<times> nat" where
  "udp_build_datagram family src_addr dst_addr src_port dst_port buffers payload_len dst =
     (let uh = \<lparr>uh_src_port = htons src_port, uh_dst_port = htons dst_port,
                uh_length = htons (of_nat (sizeof_udp_header + payload_len)), uh_checksum = 0\<rparr>;
          dst = gather_payload buffers payload_len 0 (blit dst 0 (store_udp_header uh));
          csum = tcp_udp_checksum family src_addr dst_addr ip_protocol_udp (subl 0 (sizeof_udp_header + payload_len) dst);
          csum = (if csum = 0 then 0xffff else csum)
      in (blit dst 6 (st16 (htons csum)), sizeof_udp_header + payload_len))"

section \<open>Fragments\<close>

definition max_frag_payload :: "nat \<Rightarrow> nat" where
  "max_frag_payload link_mtu = (if link_mtu > 20 then link_mtu - 20 else 0) div 8 * 8"

definition first_frag_data :: "nat \<Rightarrow> nat" where
  "first_frag_data link_mtu =
     (if max_frag_payload link_mtu > sizeof_udp_header then (max_frag_payload link_mtu - sizeof_udp_header) div 8 * 8 else 0)"

definition frag_data :: "nat \<Rightarrow> nat \<Rightarrow> byte list \<Rightarrow> nat" where
  "frag_data link_mtu off datagram =
     (let remain = length datagram - off
      in if off = 0 then min (sizeof_udp_header + first_frag_data link_mtu) remain else min (max_frag_payload link_mtu) remain)"

text \<open>One round of the slicing loop: the fragment at offset \<open>off\<close>.\<close>

definition frag_packet ::
  "nat \<Rightarrow> byte list \<Rightarrow> byte list \<Rightarrow> byte list \<Rightarrow> u16 \<Rightarrow> nat \<Rightarrow> env \<Rightarrow> (cpp_exception + packet_buffer) \<times> env" where
  "frag_packet link_mtu src_addr dst_addr datagram ip_id off e =
     (let n = frag_data link_mtu off datagram; frag_total = 20 + n; (r, e) = acquire (link_mtu + 64) 64 e
      in case r of
           Inl x \<Rightarrow> (Inl x, e)
         | Inr frag \<Rightarrow> (case pb_resize frag_total frag of
             Inl x \<Rightarrow> (Inl x, e)
           | Inr frag \<Rightarrow>
               let last_frag = (off + n \<ge> length datagram);
                   ip = \<lparr>ip4_version_ihl = 0x45, ip4_tos = 0, ip4_total_len = htons (of_nat frag_total),
                         ip4_id = htons ip_id,
                         ip4_frag_off = htons ((if last_frag then 0 else 0x2000) OR of_nat (off div 8)),
                         ip4_ttl = 64, ip4_protocol = ip_protocol_udp, ip4_checksum = 0,
                         ip4_src_ip = ld32 src_addr 0, ip4_dst_ip = ld32 dst_addr 0\<rparr>;
                   fb = blit (pb_from_data frag) 0 (store_ipv4_header ip);
                   fb = blit fb 10 (st16 (htons (ipv4_checksum fb 20)));
                   fb = blit fb 20 (subl off n datagram)
               in (Inr (pb_poke frag 0 fb), e)))"

text \<open>
  The slicing loop. Its caller has returned when not even the UDP header fits, the case in which the
  loop would not advance.
\<close>

function frag_loop ::
  "nat \<Rightarrow> byte list \<Rightarrow> byte list \<Rightarrow> byte list \<Rightarrow> u16 \<Rightarrow> nat \<Rightarrow> packet_buffer list \<Rightarrow> env \<Rightarrow>
   (cpp_exception + packet_buffer list) \<times> env" where
  "frag_loop link_mtu src_addr dst_addr datagram ip_id off frags e =
     (if off < length datagram \<and> max_frag_payload link_mtu \<ge> sizeof_udp_header then
        case frag_packet link_mtu src_addr dst_addr datagram ip_id off e of
          (Inl x, e) \<Rightarrow> (Inl x, e)
        | (Inr frag, e) \<Rightarrow>
            frag_loop link_mtu src_addr dst_addr datagram ip_id (off + frag_data link_mtu off datagram) (frags @ [frag]) e
      else (Inr frags, e))"
  by pat_completeness auto
termination frag_loop
  by (relation "measure (\<lambda>(link_mtu, s, d, datagram, ip_id, off, frags, e). length datagram - off)")
    (auto simp: frag_data_def Let_def)

declare frag_loop.simps [simp del]

definition udp_done :: "nat \<Rightarrow> nat \<Rightarrow> error_code \<Rightarrow> udp_engine \<Rightarrow> udp_engine" where
  "udp_done handler sent ec eng = ue_post (Done_send handler ec (if ec \<noteq> EC_ok then 0 else sent)) eng"

definition udp_write_ipv4_fragments ::
  "byte list \<Rightarrow> byte list \<Rightarrow> byte list \<Rightarrow> nat \<Rightarrow> nat \<Rightarrow> udp_engine \<Rightarrow> udp_fault option \<times> udp_engine" where
  "udp_write_ipv4_fragments src_addr dst_addr datagram handler sent eng =
     (if max_frag_payload (ue_mtu eng) < sizeof_udp_header then (None, udp_done handler sent EC_message_size eng)
      else
        let (ip_id, e) = alloc_ip_id (ue_env eng);
            (r, e) = frag_loop (ue_mtu eng) src_addr dst_addr datagram ip_id 0 [] e;
            eng = eng\<lparr>ue_env := e\<rparr>
        in case r of
             Inl x \<Rightarrow> (Some (Raised x), eng)
           | Inr frags \<Rightarrow>
               let k = ue_next_frag eng;
                   st = \<lparr>fs_handler = handler, fs_total = sent, fs_pending = length frags, fs_first_error = EC_ok\<rparr>;
                   eng = eng\<lparr>ue_frags := (ue_frags eng)(k := st), ue_next_frag := k + 1\<rparr>
               in (None, fold (\<lambda>b. ue_on_env (async_write b (Cb_udp_frag k))) frags eng))"

text \<open>The completion of one fragment, and the dispatch of a completed device write.\<close>

definition on_frag :: "nat \<Rightarrow> error_code \<Rightarrow> udp_engine \<Rightarrow> udp_engine" where
  "on_frag k ec eng =
     (let st = ue_frags eng k;
          st = (if ec \<noteq> EC_ok \<and> fs_first_error st = EC_ok then st\<lparr>fs_first_error := ec\<rparr> else st);
          st = st\<lparr>fs_pending := size_sub (fs_pending st) 1\<rparr>;
          eng = eng\<lparr>ue_frags := (ue_frags eng)(k := st)\<rparr>
      in if fs_pending st \<noteq> 0 then eng else udp_done (fs_handler st) (fs_total st) (fs_first_error st) eng)"

definition udp_dev_done :: "write_cb \<Rightarrow> error_code \<Rightarrow> udp_engine \<Rightarrow> udp_engine" where
  "udp_dev_done cb ec eng =
     (case cb of
        Cb_udp_single h sent \<Rightarrow> udp_done h sent ec eng
      | Cb_udp_frag k \<Rightarrow> on_frag k ec eng
      | Cb_write_loop _ \<Rightarrow> eng)"

section \<open>Sending\<close>

definition udp_single_packet ::
  "udp_session \<Rightarrow> udp_endpoint \<Rightarrow> nat \<Rightarrow> byte list \<Rightarrow> byte list list \<Rightarrow> nat \<Rightarrow> nat \<Rightarrow> env \<Rightarrow>
   (cpp_exception + packet_buffer) \<times> env" where
  "udp_single_packet session remote family src_addr buffers tot link_mtu e =
     (let ip_hdr_len = ip_header_size family; total_len = ip_hdr_len + sizeof_udp_header + tot;
          (r, e) = acquire (link_mtu + 64) 64 e
      in case r of
           Inl x \<Rightarrow> (Inl x, e)
         | Inr pkt \<Rightarrow> (case pb_resize total_len pkt of
             Inl x \<Rightarrow> (Inl x, e)
           | Inr pkt \<Rightarrow>
               let (ip_id, e) = alloc_ip_id e;
                   base = fst (build_ip_header (pb_from_data pkt) family src_addr (uk_src_ip (us_key session))
                            ip_protocol_udp total_len ip_id 64);
                   dgram = fst (udp_build_datagram family src_addr (uk_src_ip (us_key session)) (ep_port remote)
                            (ntohs (uk_src_port (us_key session))) buffers tot (drop ip_hdr_len base))
               in (Inr (pb_poke pkt 0 (take ip_hdr_len base @ dgram)), e)))"

definition udp_send_single ::
  "udp_session \<Rightarrow> udp_endpoint \<Rightarrow> nat \<Rightarrow> byte list \<Rightarrow> byte list list \<Rightarrow> nat \<Rightarrow> nat \<Rightarrow> udp_engine \<Rightarrow>
   udp_fault option \<times> udp_engine" where
  "udp_send_single session remote family src_addr buffers tot handler eng =
     (let (r, e) = udp_single_packet session remote family src_addr buffers tot (ue_mtu eng) (ue_env eng);
          eng = eng\<lparr>ue_env := e\<rparr>
      in case r of
           Inl x \<Rightarrow> (Some (Raised x), eng)
         | Inr pkt \<Rightarrow> (None, ue_on_env (async_write pkt (Cb_udp_single handler tot)) eng))"

definition udp_send_fragmented ::
  "udp_session \<Rightarrow> udp_endpoint \<Rightarrow> byte list \<Rightarrow> byte list list \<Rightarrow> nat \<Rightarrow> nat \<Rightarrow> udp_engine \<Rightarrow>
   udp_fault option \<times> udp_engine" where
  "udp_send_fragmented session remote src_addr buffers tot handler eng =
     (let datagram = fst (udp_build_datagram 4 src_addr (uk_src_ip (us_key session)) (ep_port remote)
            (ntohs (uk_src_port (us_key session))) buffers tot (replicate (sizeof_udp_header + tot) 0))
      in udp_write_ipv4_fragments src_addr (uk_src_ip (us_key session)) datagram handler tot eng)"

definition max_udp_payload :: "nat \<Rightarrow> nat \<Rightarrow> nat" where
  "max_udp_payload family link_mtu =
     (if link_mtu > ip_header_size family + sizeof_udp_header then link_mtu - ip_header_size family - sizeof_udp_header else 0)"

definition send_entry ::
  "nat \<Rightarrow> udp_endpoint \<Rightarrow> byte list list \<Rightarrow> nat \<Rightarrow> nat \<Rightarrow> udp_engine \<Rightarrow> udp_fault option \<times> udp_engine" where
  "send_entry i remote buffers tot handler eng =
     (let session = ue_store eng i; fail = (\<lambda>ec. (None, ue_post (Done_send handler ec 0) eng)) in
      if us_closed session then fail EC_bad_descriptor
      else
        let family = unat (uk_family (us_key session)) in
        case udp_endpoint_to_addr_bytes remote of
          Inl x \<Rightarrow> (Some x, eng)
        | Inr (fam, src_addr) \<Rightarrow>
            if family \<noteq> fam then fail EC_address_family_not_supported
            else if sizeof_udp_header + tot > 65535 then fail EC_message_size
            else
              let oversized = (tot > max_udp_payload family (ue_mtu eng)) in
              if oversized \<and> family \<noteq> 4 then fail EC_message_size
              else
                let eng = refresh_expiry i eng; session = ue_store eng i in
                if oversized then udp_send_fragmented session remote src_addr buffers tot handler eng
                else udp_send_single session remote family src_addr buffers tot handler eng)"

definition udp_session_start_send ::
  "nat option \<Rightarrow> udp_endpoint \<Rightarrow> byte list list \<Rightarrow> nat \<Rightarrow> nat \<Rightarrow> udp_engine \<Rightarrow> udp_fault option \<times> udp_engine" where
  "udp_session_start_send session remote buffers tot handler eng =
     (case session of
        None \<Rightarrow> (None, ue_post (Done_send handler EC_bad_descriptor 0) eng)
      | Some i \<Rightarrow> send_entry i remote buffers tot handler eng)"

end
