(* ===== verification/Udp_Session.thy ===== *)
theory Udp_Session
  imports Udp_Send "HOL-Library.Multiset"
begin

text \<open>
  Invariants of the UDP engine: \<open>core_inv\<close> ties the session table, the accept queue, the counter and
  the limits to the sessions; \<open>heap_ok\<close>, \<open>armed\<close> and \<open>covered\<close> say that every open session has a live
  entry in the expiry heap and that the timer waits for the first entry; \<open>ue_toks\<close> is the ledger of the
  handlers of receives and accepts.
\<close>

section \<open>The invariant\<close>

definition session_ok :: "tun_config \<Rightarrow> udp_session \<Rightarrow> bool" where
  "session_ok cfg s \<longleftrightarrow>
     (us_closed s \<longrightarrow> us_pending_reads s = [] \<and> us_rx_datagrams s = [] \<and> \<not> us_pending_accept s) \<and>
     (us_rx_datagrams s = [] \<or> us_pending_reads s = []) \<and>
     us_rx_bytes s = sum_list (map (length \<circ> fst) (us_rx_datagrams s)) \<and>
     us_rx_bytes s \<le> max_rx_queue_per_flow cfg"

definition core_inv :: "udp_engine \<Rightarrow> bool" where
  "core_inv eng \<longleftrightarrow>
     distinct (map fst (ue_sessions eng)) \<and>
     (\<forall>k i. (k, i) \<in> set (ue_sessions eng) \<longleftrightarrow> i < ue_next_id eng \<and> \<not> us_closed (ue_store eng i) \<and> us_key (ue_store eng i) = k) \<and>
     (\<forall>i<ue_next_id eng. session_ok (ue_cfg eng) (ue_store eng i)) \<and>
     distinct (ue_pending_new eng) \<and>
     (\<forall>i. i \<in> set (ue_pending_new eng) \<longleftrightarrow> i < ue_next_id eng \<and> us_pending_accept (ue_store eng i)) \<and>
     length (ue_pending_new eng) \<le> max_pending_new_sessions \<and>
     (ue_pending_new eng = [] \<or> ue_pending_accepts eng = []) \<and>
     udp_sessions (e_stats (ue_env eng)) = of_nat (length (ue_sessions eng)) \<and>
     length (ue_sessions eng) \<le> max_udp_flows (ue_cfg eng)"

definition heap_ok :: "udp_engine \<Rightarrow> bool" where
  "heap_ok eng \<longleftrightarrow> sorted (map xe_at (ue_heap eng)) \<and> (\<forall>x\<in>set (ue_heap eng). xe_session x < ue_next_id eng) \<and>
     (ue_timer_waiting eng \<longrightarrow> ue_wait eng = Some (ue_armed_target eng, ue_wait_gen eng))"

definition armed :: "udp_engine \<Rightarrow> bool" where
  "armed eng \<longleftrightarrow> (ue_heap eng \<noteq> [] \<longrightarrow> ue_timer_waiting eng \<and> ue_armed_target eng \<le> xe_at (hd (ue_heap eng)))"

definition covered :: "udp_engine \<Rightarrow> nat \<Rightarrow> bool" where
  "covered eng i \<longleftrightarrow> us_closed (ue_store eng i) \<or>
     us_heap_live (ue_store eng i) \<and> (\<exists>x\<in>set (ue_heap eng). xe_session x = i \<and> xe_gen x = us_expiry_gen (ue_store eng i))"

definition ue_inv :: "udp_engine \<Rightarrow> bool" where
  "ue_inv eng \<longleftrightarrow> core_inv eng \<and> heap_ok eng \<and> armed eng \<and> (\<forall>i<ue_next_id eng. covered eng i)"

datatype udp_tok = Ut_recv nat | Ut_accept nat

fun udp_tok_of :: "completion \<Rightarrow> udp_tok multiset" where
  "udp_tok_of (Done_recv h ec n d p) = {#Ut_recv h#}"
| "udp_tok_of (Done_udp_accept h ec s) = {#Ut_accept h#}"
| "udp_tok_of _ = {#}"

definition udp_posted :: "env \<Rightarrow> udp_tok multiset" where
  "udp_posted e = sum_list (map udp_tok_of (e_posted e))"

definition read_toks :: "udp_session \<Rightarrow> udp_tok multiset" where
  "read_toks s = mset (map (Ut_recv \<circ> ur_handler) (us_pending_reads s))"

definition ue_toks :: "udp_engine \<Rightarrow> udp_tok multiset" where
  "ue_toks eng = udp_posted (ue_env eng) + (\<Sum>i<ue_next_id eng. read_toks (ue_store eng i)) +
     mset (map Ut_accept (ue_pending_accepts eng))"

section \<open>Primitive steps\<close>

lemma us_upd_simps [simp]:
  "ue_cfg (us_upd i g eng) = ue_cfg eng" "ue_mtu (us_upd i g eng) = ue_mtu eng"
  "ue_sessions (us_upd i g eng) = ue_sessions eng" "ue_pending_accepts (us_upd i g eng) = ue_pending_accepts eng"
  "ue_pending_new (us_upd i g eng) = ue_pending_new eng" "ue_store (us_upd i g eng) = (ue_store eng)(i := g (ue_store eng i))"
  "ue_next_id (us_upd i g eng) = ue_next_id eng" "ue_heap (us_upd i g eng) = ue_heap eng"
  "ue_timer_waiting (us_upd i g eng) = ue_timer_waiting eng" "ue_armed_target (us_upd i g eng) = ue_armed_target eng"
  "ue_wait_gen (us_upd i g eng) = ue_wait_gen eng" "ue_wait (us_upd i g eng) = ue_wait eng"
  "ue_frags (us_upd i g eng) = ue_frags eng" "ue_next_frag (us_upd i g eng) = ue_next_frag eng" "ue_env (us_upd i g eng) = ue_env eng"
  by (simp_all add: us_upd_def)

lemma ue_on_env_simps [simp]:
  "ue_cfg (ue_on_env g eng) = ue_cfg eng" "ue_mtu (ue_on_env g eng) = ue_mtu eng"
  "ue_sessions (ue_on_env g eng) = ue_sessions eng" "ue_pending_accepts (ue_on_env g eng) = ue_pending_accepts eng"
  "ue_pending_new (ue_on_env g eng) = ue_pending_new eng" "ue_store (ue_on_env g eng) = ue_store eng"
  "ue_next_id (ue_on_env g eng) = ue_next_id eng" "ue_heap (ue_on_env g eng) = ue_heap eng"
  "ue_timer_waiting (ue_on_env g eng) = ue_timer_waiting eng" "ue_armed_target (ue_on_env g eng) = ue_armed_target eng"
  "ue_wait_gen (ue_on_env g eng) = ue_wait_gen eng" "ue_wait (ue_on_env g eng) = ue_wait eng"
  "ue_frags (ue_on_env g eng) = ue_frags eng" "ue_next_frag (ue_on_env g eng) = ue_next_frag eng" "ue_env (ue_on_env g eng) = g (ue_env eng)"
  by (simp_all add: ue_on_env_def)

lemma udp_env_simps [simp]:
  "udp_sessions (e_stats (post_completion_on c e)) = udp_sessions (e_stats e)"
  "udp_sessions (e_stats (add_rx_dropped e)) = udp_sessions (e_stats e)"
  "udp_sessions (e_stats (set_account a e)) = udp_sessions (e_stats e)"
  "udp_sessions (e_stats (add_udp_sessions d e)) = udp_sessions (e_stats e) + d"
  "udp_posted (post_completion_on c e) = udp_posted e + udp_tok_of c"
  "udp_posted (add_rx_dropped e) = udp_posted e"
  "udp_posted (set_account a e) = udp_posted e"
  "udp_posted (add_udp_sessions d e) = udp_posted e"
  "e_now (post_completion_on c e) = e_now e" "e_now (add_rx_dropped e) = e_now e"
  "e_now (set_account a e) = e_now e" "e_now (add_udp_sessions d e) = e_now e"
  by (simp_all add: post_completion_on_def add_rx_dropped_def set_account_def add_udp_sessions_def udp_posted_def)

section \<open>Expiry bookkeeping\<close>

text \<open>\<open>us_core s\<close> forgets what the expiry code writes in a session.\<close>

definition us_core :: "udp_session \<Rightarrow> udp_session" where
  "us_core s = s\<lparr>us_expiry := 0, us_expiry_gen := 0, us_last_heap_push := 0, us_heap_live := False\<rparr>"

definition same_core :: "udp_engine \<Rightarrow> udp_engine \<Rightarrow> bool" where
  "same_core eng eng' \<longleftrightarrow> ue_cfg eng' = ue_cfg eng \<and> ue_mtu eng' = ue_mtu eng \<and> ue_sessions eng' = ue_sessions eng \<and>
     ue_pending_accepts eng' = ue_pending_accepts eng \<and> ue_pending_new eng' = ue_pending_new eng \<and>
     ue_next_id eng' = ue_next_id eng \<and> ue_frags eng' = ue_frags eng \<and> ue_next_frag eng' = ue_next_frag eng \<and>
     ue_env eng' = ue_env eng \<and> (\<forall>i. us_core (ue_store eng' i) = us_core (ue_store eng i))"

lemma us_core_fields:
  assumes "us_core s = us_core t"
  shows "us_closed s = us_closed t" "us_key s = us_key t" "us_pending_accept s = us_pending_accept t"
    "us_pending_reads s = us_pending_reads t" "us_rx_datagrams s = us_rx_datagrams t" "us_rx_bytes s = us_rx_bytes t"
    "us_timeout s = us_timeout t"
  using assms by (cases s; cases t; simp add: us_core_def)+

lemma same_core_refl [simp]: "same_core eng eng"
  by (simp add: same_core_def)

lemma same_core_trans: "same_core a b \<Longrightarrow> same_core b c \<Longrightarrow> same_core a c"
  by (simp add: same_core_def)

lemma same_core_inv:
  assumes "same_core a b" shows "core_inv b = core_inv a" "ue_toks b = ue_toks a"
proof -
  have f: "us_closed (ue_store b i) = us_closed (ue_store a i)" "us_key (ue_store b i) = us_key (ue_store a i)"
    "us_pending_accept (ue_store b i) = us_pending_accept (ue_store a i)" "session_ok c (ue_store b i) = session_ok c (ue_store a i)"
    "read_toks (ue_store b i) = read_toks (ue_store a i)" for i c
    using us_core_fields [of "ue_store b i" "ue_store a i"] assms by (simp_all add: same_core_def session_ok_def read_toks_def)
  show "core_inv b = core_inv a" "ue_toks b = ue_toks a"
    using assms f by (simp_all add: core_inv_def ue_toks_def same_core_def)
qed

lemma cancel_wait_simps [simp]:
  "ue_store (cancel_wait eng) = ue_store eng" "ue_heap (cancel_wait eng) = ue_heap eng" "ue_wait (cancel_wait eng) = None"
  "ue_wait_gen (cancel_wait eng) = ue_wait_gen eng" "ue_timer_waiting (cancel_wait eng) = ue_timer_waiting eng"
  "ue_next_id (cancel_wait eng) = ue_next_id eng" "ue_env (cancel_wait eng) = ue_env eng" "ue_sessions (cancel_wait eng) = ue_sessions eng"
  "same_core e (cancel_wait eng) = same_core e eng"
  by (auto simp: cancel_wait_def same_core_def split: option.splits prod.splits)

lemma arm_expiry_timer_simps [simp]:
  "ue_store (arm_expiry_timer eng) = ue_store eng" "ue_next_id (arm_expiry_timer eng) = ue_next_id eng"
  "ue_heap (arm_expiry_timer eng) = dropWhile (\<lambda>x. \<not> entry_live (ue_store eng) x) (ue_heap eng)"
  "same_core e (arm_expiry_timer eng) = same_core e eng"
  by (auto simp: arm_expiry_timer_def arm_wait_def Let_def same_core_def cancel_wait_def split: list.splits option.splits prod.splits)

lemma sorted_dropWhile: "sorted (map g xs) \<Longrightarrow> sorted (map g (dropWhile P xs))"
  by (induction xs) auto

lemma arm_expiry_timer_ok:
  assumes "heap_ok eng" shows "heap_ok (arm_expiry_timer eng)" "armed (arm_expiry_timer eng)"
proof -
  have d: "set (dropWhile P xs) \<subseteq> set xs" for P and xs :: "expiry_entry list" by (meson set_dropWhileD subsetI)
  have "ue_timer_waiting (arm_expiry_timer eng) \<longrightarrow>
      ue_wait (arm_expiry_timer eng) = Some (ue_armed_target (arm_expiry_timer eng), ue_wait_gen (arm_expiry_timer eng))"
    using assms by (simp add: heap_ok_def arm_expiry_timer_def arm_wait_def Let_def split: list.splits)
  thus "heap_ok (arm_expiry_timer eng)"
    using assms sorted_dropWhile [of xe_at "ue_heap eng"] d unfolding heap_ok_def arm_expiry_timer_simps by blast
  show "armed (arm_expiry_timer eng)"
    unfolding armed_def arm_expiry_timer_simps
    by (auto simp: arm_expiry_timer_def arm_wait_def Let_def neq_Nil_conv split: list.splits if_splits)
qed

lemma live_kept: "x \<in> set xs \<Longrightarrow> P x \<Longrightarrow> x \<in> set (dropWhile (\<lambda>x. \<not> P x) xs)"
  by (induction xs) auto

lemma covered_arm [simp]: "covered (arm_expiry_timer eng) i = covered eng i"
proof -
  have "x \<in> set (dropWhile (\<lambda>x. \<not> entry_live (ue_store eng) x) (ue_heap eng))"
    if "\<not> us_closed (ue_store eng i)" "x \<in> set (ue_heap eng)" "xe_session x = i" "xe_gen x = us_expiry_gen (ue_store eng i)" for x
    by (rule live_kept [OF that(2)]) (use that in \<open>simp add: entry_live_def\<close>)
  thus ?thesis using set_dropWhileD [of _ "\<lambda>x. \<not> entry_live (ue_store eng) x" "ue_heap eng"]
    by (auto simp: covered_def)
qed

lemma heap_push_set [simp]: "set (heap_push x xs) = insert x (set xs)"
proof -
  have "set (takeWhile P xs) \<union> set (dropWhile P xs) = set xs" for P :: "expiry_entry \<Rightarrow> bool"
    by (metis set_append takeWhile_dropWhile_id)
  thus ?thesis by (auto simp: heap_push_def)
qed

lemma heap_push_sorted: "sorted (map xe_at xs) \<Longrightarrow> sorted (map xe_at (heap_push x xs))"
proof (induction xs)
  case (Cons y ys)
  have "heap_push x (y # ys) = (if xe_at y > xe_at x then x # y # ys else y # heap_push x ys)"
    by (simp add: heap_push_def expiry_entry_cmp_def)
  thus ?case using Cons by auto
qed (simp add: heap_push_def)

text \<open>A refresh writes expiry data only, keeps every session covered, and covers its own session.\<close>

lemma refresh_expiry_core: "same_core eng (refresh_expiry i eng)"
  by (simp add: refresh_expiry_def push_expiry_def Let_def) (simp add: same_core_def us_core_def us_upd_def)

lemma refresh_expiry_simps [simp]:
  "ue_cfg (refresh_expiry i eng) = ue_cfg eng" "ue_mtu (refresh_expiry i eng) = ue_mtu eng"
  "ue_sessions (refresh_expiry i eng) = ue_sessions eng" "ue_pending_accepts (refresh_expiry i eng) = ue_pending_accepts eng"
  "ue_pending_new (refresh_expiry i eng) = ue_pending_new eng" "ue_next_id (refresh_expiry i eng) = ue_next_id eng"
  "ue_frags (refresh_expiry i eng) = ue_frags eng" "ue_next_frag (refresh_expiry i eng) = ue_next_frag eng"
  "ue_env (refresh_expiry i eng) = ue_env eng" "us_core (ue_store (refresh_expiry i eng) j) = us_core (ue_store eng j)"
  using refresh_expiry_core [of eng i] by (simp_all add: same_core_def)

lemmas refresh_expiry_fields [simp] =
  us_core_fields [OF refresh_expiry_simps(10)]

lemma push_expiry_heap_ok: "heap_ok eng \<Longrightarrow> i < ue_next_id eng \<Longrightarrow> heap_ok (push_expiry i eng)"
  by (simp add: heap_ok_def push_expiry_def Let_def heap_push_sorted)

lemma us_upd_heap [simp]:
  "heap_ok (us_upd i g eng) = heap_ok eng" "armed (us_upd i g eng) = armed eng"
  by (simp_all add: heap_ok_def armed_def)

lemma refresh_heap_ok: "heap_ok eng \<Longrightarrow> i < ue_next_id eng \<Longrightarrow> heap_ok (refresh_expiry i eng)"
  unfolding refresh_expiry_def Let_def by (auto intro!: arm_expiry_timer_ok push_expiry_heap_ok)

lemma refresh_armed: "heap_ok eng \<Longrightarrow> i < ue_next_id eng \<Longrightarrow> armed eng \<Longrightarrow> armed (refresh_expiry i eng)"
  unfolding refresh_expiry_def Let_def by (auto intro!: arm_expiry_timer_ok push_expiry_heap_ok)

lemma refresh_covered:
  "j \<noteq> i \<Longrightarrow> covered eng j \<Longrightarrow> covered (refresh_expiry i eng) j"
  "covered eng i \<or> \<not> us_heap_live (ue_store eng i) \<Longrightarrow> covered (refresh_expiry i eng) i"
  by (auto simp: refresh_expiry_def push_expiry_def Let_def) (auto simp: covered_def)

section \<open>Operations on one session\<close>

lemma core_inv_frames [simp]:
  "core_inv (eng\<lparr>ue_heap := h\<rparr>) = core_inv eng" "core_inv (eng\<lparr>ue_timer_waiting := w\<rparr>) = core_inv eng"
  "ue_toks (eng\<lparr>ue_heap := h\<rparr>) = ue_toks eng" "ue_toks (eng\<lparr>ue_timer_waiting := w\<rparr>) = ue_toks eng"
  by (simp_all add: core_inv_def ue_toks_def)

lemma env_core: "udp_sessions (e_stats (g (ue_env eng))) = udp_sessions (e_stats (ue_env eng)) \<Longrightarrow> core_inv (ue_on_env g eng) = core_inv eng"
  by (simp add: core_inv_def)

lemma env_frames [simp]:
  "heap_ok (ue_on_env g eng) = heap_ok eng" "armed (ue_on_env g eng) = armed eng" "covered (ue_on_env g eng) i = covered eng i"
  by (simp_all add: heap_ok_def armed_def covered_def)

lemma env_toks: "udp_posted (g (ue_env eng)) = udp_posted (ue_env eng) + t \<Longrightarrow> ue_toks (ue_on_env g eng) = ue_toks eng + t"
  by (simp add: ue_toks_def)

lemma post_inv: "ue_inv (ue_post c eng) = ue_inv eng" "ue_toks (ue_post c eng) = ue_toks eng + udp_tok_of c"
  "core_inv (ue_post c eng) = core_inv eng"
  using env_core [of "post_completion_on c" eng] env_toks [of "post_completion_on c" eng] by (simp_all add: ue_inv_def)

lemma drop_inv: "ue_inv (ue_drop eng) = ue_inv eng" "ue_toks (ue_drop eng) = ue_toks eng"
  using env_core [of add_rx_dropped eng] env_toks [of add_rx_dropped eng "{#}"] by (simp_all add: ue_inv_def)

lemma account_inv: "ue_inv (ue_on_env (set_account a) eng) = ue_inv eng" "ue_toks (ue_on_env (set_account a) eng) = ue_toks eng"
  using env_core [of "set_account a" eng] env_toks [of "set_account a" eng "{#}"] by (simp_all add: ue_inv_def)

lemma read_toks_update:
  assumes "i < (n :: nat)"
  shows "(\<Sum>j<n. read_toks ((f(i := x)) j)) + read_toks (f i) = (\<Sum>j<n. read_toks (f j)) + read_toks x"
proof -
  have "(\<Sum>j<n. read_toks ((f(i := x)) j)) = read_toks x + (\<Sum>j\<in>{..<n} - {i}. read_toks (f j))"
    using assms by (subst sum.remove [of _ i]) (auto intro!: sum.cong)
  moreover have "(\<Sum>j<n. read_toks (f j)) = read_toks (f i) + (\<Sum>j\<in>{..<n} - {i}. read_toks (f j))"
    using assms by (subst sum.remove [of _ i]) auto
  ultimately show ?thesis by (simp add: ac_simps)
qed

text \<open>Changing the queues of a session.\<close>

lemma us_upd_inv:
  assumes inv: "ue_inv eng" and i: "i < ue_next_id eng" and g: "session_ok (ue_cfg eng) (g (ue_store eng i))"
    "us_closed (g (ue_store eng i)) = us_closed (ue_store eng i)" "us_key (g (ue_store eng i)) = us_key (ue_store eng i)"
    "us_pending_accept (g (ue_store eng i)) = us_pending_accept (ue_store eng i)"
    "us_heap_live (g (ue_store eng i)) = us_heap_live (ue_store eng i)" "us_expiry_gen (g (ue_store eng i)) = us_expiry_gen (ue_store eng i)"
  shows "ue_inv (us_upd i g eng)" "ue_toks (us_upd i g eng) + read_toks (ue_store eng i) = ue_toks eng + read_toks (g (ue_store eng i))"
proof -
  have "core_inv (us_upd i g eng)" using inv g by (simp add: ue_inv_def core_inv_def)
  moreover have "covered (us_upd i g eng) j = covered eng j" for j using g by (simp add: covered_def)
  ultimately show "ue_inv (us_upd i g eng)" using inv by (simp add: ue_inv_def)
  show "ue_toks (us_upd i g eng) + read_toks (ue_store eng i) = ue_toks eng + read_toks (g (ue_store eng i))"
    using read_toks_update [OF i, of "ue_store eng" "g (ue_store eng i)"] by (simp add: ue_toks_def add_ac)
qed

lemma ue_inv_session: "ue_inv eng \<Longrightarrow> i < ue_next_id eng \<Longrightarrow> session_ok (ue_cfg eng) (ue_store eng i)"
  by (simp add: ue_inv_def core_inv_def)

text \<open>\<open>almost i eng\<close>: the invariant, but session \<open>i\<close> may still lack its heap entry.\<close>

definition almost :: "nat \<Rightarrow> udp_engine \<Rightarrow> bool" where
  "almost i eng \<longleftrightarrow> core_inv eng \<and> heap_ok eng \<and> armed eng \<and> (\<forall>j<ue_next_id eng. j \<noteq> i \<longrightarrow> covered eng j) \<and>
     (covered eng i \<or> \<not> us_heap_live (ue_store eng i))"

lemma ue_inv_almost: "ue_inv eng \<Longrightarrow> i < ue_next_id eng \<Longrightarrow> almost i eng"
  by (simp add: ue_inv_def almost_def)

lemma refresh_inv:
  assumes "almost i eng" "i < ue_next_id eng"
  shows "ue_inv (refresh_expiry i eng)" "ue_toks (refresh_expiry i eng) = ue_toks eng"
proof -
  show "ue_toks (refresh_expiry i eng) = ue_toks eng" by (rule same_core_inv(2) [OF refresh_expiry_core])
  have "covered (refresh_expiry i eng) j" if "j < ue_next_id eng" for j
    using assms refresh_covered(1) [of j i eng] refresh_covered(2) [of eng i] that by (cases "j = i") (auto simp: almost_def)
  thus "ue_inv (refresh_expiry i eng)"
    using assms same_core_inv(1) [OF refresh_expiry_core] by (simp add: ue_inv_def almost_def refresh_heap_ok refresh_armed)
qed

lemma deliver_inv:
  assumes a: "almost i eng" and i: "i < ue_next_id eng" and o: "\<not> us_closed (ue_store eng i)"
  shows "ue_inv (deliver_datagram i data sender eng)" "ue_toks (deliver_datagram i data sender eng) = ue_toks eng"
proof -
  define e where "e = refresh_expiry i eng"
  define s where "s = ue_store e i"
  have e: "ue_inv e" "ue_toks e = ue_toks eng" "i < ue_next_id e" "\<not> us_closed s"
    using refresh_inv [OF a i] i o by (simp_all add: e_def s_def)
  have ok: "session_ok (ue_cfg e) s" using ue_inv_session e by (simp add: s_def)
  have "ue_inv (deliver_datagram i data sender eng) \<and> ue_toks (deliver_datagram i data sender eng) = ue_toks eng"
  proof (cases "us_pending_reads s")
    case (Cons op ops)
    obtain chunks copied where sc: "scatter (ur_buffers op) (min (length data) (ur_total op)) data 0 = (chunks, copied)" by fastforce
    define e2 where "e2 = us_upd i (\<lambda>s. s\<lparr>us_pending_reads := ops\<rparr>) e"
    have "deliver_datagram i data sender eng = ue_post (Done_recv (ur_handler op) EC_ok copied chunks (Some sender)) e2"
      using o Cons by (simp add: deliver_datagram_def Let_def sc e2_def flip: e_def s_def)
    moreover have "ue_inv e2" "ue_toks e2 + read_toks s = ue_toks e + read_toks (s\<lparr>us_pending_reads := ops\<rparr>)"
      using us_upd_inv [OF e(1,3), of "\<lambda>s. s\<lparr>us_pending_reads := ops\<rparr>"] ok Cons e(4)
      by (auto simp: e2_def session_ok_def simp flip: s_def)
    ultimately show ?thesis using e(2) Cons by (simp add: post_inv read_toks_def)
  next
    case Nil
    obtain ok' a where r: "acct_reserve (length data) (e_account (ue_env e)) = (ok', a)" by fastforce
    define e1 where "e1 = ue_on_env (set_account a) e"
    define g where "g = (\<lambda>s :: udp_session. s\<lparr>us_rx_datagrams := us_rx_datagrams s @ [(data, sender)], us_rx_bytes := us_rx_bytes s + length data\<rparr>)"
    have e1: "ue_inv e1" "ue_toks e1 = ue_toks e" using e(1) by (simp_all add: e1_def account_inv)
    have "deliver_datagram i data sender eng =
        (if us_rx_bytes s + length data > max_rx_queue_per_flow (ue_cfg e) then ue_drop e else if \<not> ok' then ue_drop e1 else us_upd i g e1)"
      using o Nil by (simp add: deliver_datagram_def Let_def r e1_def g_def flip: e_def s_def)
    moreover have "ue_inv (us_upd i g e1) \<and> ue_toks (us_upd i g e1) = ue_toks e1" if "us_rx_bytes s + length data \<le> max_rx_queue_per_flow (ue_cfg e)"
    proof -
      have "ue_store e1 i = s" "i < ue_next_id e1" "ue_cfg e1 = ue_cfg e" using e(3) by (simp_all add: e1_def s_def)
      thus ?thesis using us_upd_inv [OF e1(1), of i g] ok Nil that e(4) by (auto simp: g_def session_ok_def read_toks_def)
    qed
    ultimately show ?thesis using e e1 by (simp add: drop_inv)
  qed
  thus "ue_inv (deliver_datagram i data sender eng)" "ue_toks (deliver_datagram i data sender eng) = ue_toks eng" by auto
qed

lemma receive_inv:
  assumes inv: "ue_inv eng" and i: "\<And>i. f = Some i \<Longrightarrow> i < ue_next_id eng"
  shows "ue_inv (udp_session_start_receive f bs n h eng)"
    "ue_toks (udp_session_start_receive f bs n h eng) = ue_toks eng + {#Ut_recv h#}"
proof -
  have "ue_inv (udp_session_start_receive f bs n h eng) \<and> ue_toks (udp_session_start_receive f bs n h eng) = ue_toks eng + {#Ut_recv h#}"
  proof (cases "\<exists>i. f = Some i \<and> \<not> us_closed (ue_store eng i)")
    case False
    thus ?thesis using inv by (auto simp: udp_session_start_receive_def post_inv split: option.splits)
  next
    case True
    then obtain j where f: "f = Some j" and o: "\<not> us_closed (ue_store eng j)" by blast
    have j: "j < ue_next_id eng" using i f by simp
    note ok = ue_inv_session [OF inv j]
    show ?thesis
    proof (cases "us_rx_datagrams (ue_store eng j)")
      case Nil
      define g where "g = (\<lambda>s :: udp_session. s\<lparr>us_pending_reads := us_pending_reads s @ [\<lparr>ur_buffers = bs, ur_total = n, ur_handler = h\<rparr>]\<rparr>)"
      have "udp_session_start_receive f bs n h eng = us_upd j g eng"
        using o Nil by (simp add: udp_session_start_receive_def udp_pop_queued_datagram_def f g_def)
      moreover have "read_toks (g s) = read_toks s + {#Ut_recv h#}" for s by (simp add: g_def read_toks_def)
      ultimately show ?thesis using us_upd_inv [OF inv j, of g] ok Nil o
        by (auto simp: session_ok_def g_def simp flip: add.assoc)
    next
      case (Cons p rest)
      obtain data sender where p: "p = (data, sender)" by fastforce
      obtain chunks copied where sc: "scatter bs (min (length data) n) data 0 = (chunks, copied)" by fastforce
      define g where "g = (\<lambda>s :: udp_session. s\<lparr>us_rx_datagrams := rest, us_rx_bytes := size_sub (us_rx_bytes s) (length data)\<rparr>)"
      define e1 where "e1 = ue_on_env (\<lambda>e. set_account (acct_release (length data) (e_account e)) e) (us_upd j g eng)"
      have "udp_session_start_receive f bs n h eng = ue_post (Done_recv h EC_ok copied chunks (Some sender)) e1"
        using o Cons p by (simp add: udp_session_start_receive_def udp_pop_queued_datagram_def f g_def e1_def sc Let_def)
      moreover have "ue_inv (us_upd j g eng)" "ue_toks (us_upd j g eng) = ue_toks eng"
        using us_upd_inv [OF inv j, of g] ok Cons p o by (auto simp: session_ok_def g_def read_toks_def)
      moreover have "ue_inv e1 = ue_inv (us_upd j g eng)" "ue_toks e1 = ue_toks (us_upd j g eng)"
        using account_inv [of "acct_release (length data) (e_account (ue_env eng))" "us_upd j g eng"]
        by (simp_all add: e1_def ue_on_env_def)
      ultimately show ?thesis by (simp add: post_inv)
    qed
  qed
  thus "ue_inv (udp_session_start_receive f bs n h eng)"
    "ue_toks (udp_session_start_receive f bs n h eng) = ue_toks eng + {#Ut_recv h#}" by auto
qed

end
