(* ===== verification/Udp_System.thy ===== *)
theory Udp_System
  imports Udp_Session
begin

text \<open>
  The UDP engine under every sequence of events: packets, the expiry timer, the passage of time, and
  the calls of the application. The properties: the session table and its limits, delivery of queued
  datagrams, the ledger of handlers, and expiry, which no open session escapes.
\<close>

section \<open>Creating sessions\<close>

lemma new_session_inv:
  assumes inv: "ue_inv eng" and k: "key \<notin> fst ` set (ue_sessions eng)" and l: "length (ue_sessions eng) < max_udp_flows (ue_cfg eng)"
  shows "almost (ue_next_id eng) (new_session key eng)" "ue_toks (new_session key eng) = ue_toks eng"
proof -
  let ?i = "ue_next_id eng"
  define s where "s = udp_session0\<lparr>us_key := key, us_timeout := udp_idle_timeout (ue_cfg eng),
                us_expiry := ue_now eng + udp_idle_timeout (ue_cfg eng)\<rparr>"
  have s: "us_key s = key" "\<not> us_closed s" "\<not> us_pending_accept s" "session_ok (ue_cfg eng) s" "\<not> us_heap_live s" "read_toks s = {#}"
    by (simp_all add: s_def udp_session0_def session_ok_def read_toks_def)
  define e where "e = eng\<lparr>ue_store := (ue_store eng)(?i := s), ue_next_id := ?i + 1, ue_sessions := ue_sessions eng @ [(key, ?i)]\<rparr>"
  have n: "new_session key eng = ue_on_env (add_udp_sessions 1) e" by (simp add: new_session_def Let_def e_def s_def)
  have M: "\<And>k j. (k, j) \<in> set (ue_sessions eng) \<longleftrightarrow> j < ?i \<and> \<not> us_closed (ue_store eng j) \<and> us_key (ue_store eng j) = k"
    and P: "\<And>j. j \<in> set (ue_pending_new eng) \<longleftrightarrow> j < ?i \<and> us_pending_accept (ue_store eng j)"
    using inv unfolding ue_inv_def core_inv_def by blast+
  have sets: "\<And>k j. (k, j) \<in> set (ue_sessions e) \<longleftrightarrow> j < ue_next_id e \<and> \<not> us_closed (ue_store e j) \<and> us_key (ue_store e j) = k"
    "\<And>j. j \<in> set (ue_pending_new e) \<longleftrightarrow> j < ue_next_id e \<and> us_pending_accept (ue_store e j)"
    "\<And>j. j < ue_next_id e \<Longrightarrow> session_ok (ue_cfg e) (ue_store e j)"
    using M P s inv by (auto simp: e_def less_Suc_eq ue_inv_def core_inv_def)
  have "core_inv (ue_on_env (add_udp_sessions 1) e)"
    unfolding core_inv_def using sets inv k l by (simp add: ue_inv_def core_inv_def) (simp add: e_def add.commute)
  moreover have "heap_ok e" "armed e" using inv by (auto simp: ue_inv_def heap_ok_def armed_def e_def less_Suc_eq)
  moreover have "covered e j" if "j < ?i" for j using inv that by (simp add: ue_inv_def covered_def e_def)
  moreover have "\<not> us_heap_live (ue_store e ?i)" "ue_next_id e = Suc ?i" using s by (simp_all add: e_def)
  ultimately show "almost ?i (new_session key eng)" by (simp add: n almost_def less_Suc_eq)
  have "(\<Sum>j<?i. read_toks (((ue_store eng)(?i := s)) j)) = (\<Sum>j<?i. read_toks (ue_store eng j))" by (rule sum.cong) auto
  thus "ue_toks (new_session key eng) = ue_toks eng" using s by (simp add: n ue_toks_def) (simp add: e_def)
qed

lemma new_session_frame [simp]:
  "\<not> us_closed (ue_store (new_session key eng) (ue_next_id eng))" "\<not> us_pending_accept (ue_store (new_session key eng) (ue_next_id eng))"
  "ue_next_id (new_session key eng) = Suc (ue_next_id eng)" "ue_pending_accepts (new_session key eng) = ue_pending_accepts eng"
  "ue_pending_new (new_session key eng) = ue_pending_new eng"
  by (simp_all add: new_session_def Let_def udp_session0_def)

lemma deliver_frame [simp]:
  "us_closed (ue_store (deliver_datagram i d p eng) j) = us_closed (ue_store eng j)"
  "us_pending_accept (ue_store (deliver_datagram i d p eng) j) = us_pending_accept (ue_store eng j)"
  "ue_next_id (deliver_datagram i d p eng) = ue_next_id eng" "ue_pending_accepts (deliver_datagram i d p eng) = ue_pending_accepts eng"
  "ue_pending_new (deliver_datagram i d p eng) = ue_pending_new eng"
  by (auto simp: deliver_datagram_def Let_def split: list.splits prod.splits)

lemma notify_session_inv:
  assumes inv: "ue_inv eng" and i: "i < ue_next_id eng" "\<not> us_closed (ue_store eng i)" "\<not> us_pending_accept (ue_store eng i)"
    and l: "ue_pending_accepts eng = [] \<Longrightarrow> length (ue_pending_new eng) < max_pending_new_sessions"
  shows "ue_inv (notify_session i eng)" "ue_toks (notify_session i eng) = ue_toks eng"
proof -
  have "ue_inv (notify_session i eng) \<and> ue_toks (notify_session i eng) = ue_toks eng"
  proof (cases "ue_pending_accepts eng")
    case (Cons h hs)
    define e where "e = eng\<lparr>ue_pending_accepts := hs\<rparr>"
    have "ue_inv e" "ue_toks e + {#Ut_accept h#} = ue_toks eng"
      using inv Cons by (auto simp: e_def ue_inv_def core_inv_def heap_ok_def armed_def covered_def ue_toks_def)
    thus ?thesis using Cons by (simp add: notify_session_def post_inv flip: e_def)
  next
    case Nil
    define e where "e = (us_upd i (\<lambda>s. s\<lparr>us_pending_accept := True\<rparr>) eng)\<lparr>ue_pending_new := ue_pending_new eng @ [i]\<rparr>"
    have P: "\<And>j. j \<in> set (ue_pending_new eng) \<longleftrightarrow> j < ue_next_id eng \<and> us_pending_accept (ue_store eng j)"
      using inv unfolding ue_inv_def core_inv_def by blast
    have "core_inv e" using inv i Nil l [OF Nil] P
      by (auto simp: e_def ue_inv_def core_inv_def session_ok_def)
    moreover have "heap_ok e" "armed e" "covered e j = covered eng j" for j
      using inv by (simp_all add: e_def ue_inv_def heap_ok_def armed_def covered_def)
    ultimately have "ue_inv e" using inv by (simp add: ue_inv_def) (simp add: e_def)
    moreover have "ue_toks e = ue_toks eng"
      by (simp add: e_def ue_toks_def) (rule sum.cong, auto simp: read_toks_def)
    ultimately show ?thesis using Nil by (simp add: notify_session_def e_def)
  qed
  thus "ue_inv (notify_session i eng)" "ue_toks (notify_session i eng) = ue_toks eng" by auto
qed

lemma create_session_inv:
  assumes inv: "ue_inv eng" and k: "key \<notin> fst ` set (ue_sessions eng)" and l: "length (ue_sessions eng) < max_udp_flows (ue_cfg eng)"
    and p: "ue_pending_accepts eng = [] \<Longrightarrow> length (ue_pending_new eng) < max_pending_new_sessions"
  shows "ue_inv (create_session key d sender eng)" "ue_toks (create_session key d sender eng) = ue_toks eng"
proof -
  let ?i = "ue_next_id eng"
  define e where "e = deliver_datagram ?i d sender (new_session key eng)"
  note n = new_session_inv [OF inv k l]
  have e: "ue_inv e" "ue_toks e = ue_toks eng" using deliver_inv [OF n(1)] n(2) by (simp_all add: e_def)
  have f: "?i < ue_next_id e" by (simp add: e_def)
  define e2 where "e2 = refresh_expiry ?i e"
  have e2: "ue_inv e2" "ue_toks e2 = ue_toks eng" using refresh_inv [OF ue_inv_almost [OF e(1) f] f] e(2) by (simp_all add: e2_def)
  have "ue_inv (notify_session ?i e2)" "ue_toks (notify_session ?i e2) = ue_toks e2"
    using notify_session_inv [OF e2(1), of ?i] p by (simp_all add: e2_def e_def)
  thus "ue_inv (create_session key d sender eng)" "ue_toks (create_session key d sender eng) = ue_toks eng"
    using e2(2) by (simp_all add: create_session_def Let_def e_def e2_def)
qed

lemma udp_dispatch_inv:
  assumes inv: "ue_inv eng"
  shows "ue_inv (udp_dispatch key d sender eng) \<and> ue_toks (udp_dispatch key d sender eng) = ue_toks eng"
proof (cases "map_of (ue_sessions eng) key")
  case None
  hence k: "key \<notin> fst ` set (ue_sessions eng)" by (simp add: map_of_eq_None_iff)
  hence "filter (\<lambda>p. fst p \<noteq> key) (ue_sessions eng) = ue_sessions eng" by (auto simp: filter_id_conv)
  thus ?thesis using None create_session_inv [OF inv k] inv by (cases eng) (auto simp: udp_dispatch_def Let_def drop_inv not_le)
next
  case (Some i)
  hence "i < ue_next_id eng" "\<not> us_closed (ue_store eng i)"
    using inv map_of_SomeD [OF Some] by (auto simp: ue_inv_def core_inv_def)
  thus ?thesis using deliver_inv [OF ue_inv_almost [OF inv]] Some by (simp add: udp_dispatch_def Let_def)
qed

lemma udp_on_packet_inv:
  "ue_inv eng \<Longrightarrow> ue_inv (udp_on_packet ip p eng) \<and> ue_toks (udp_on_packet ip p eng) = ue_toks eng"
  by (simp add: udp_on_packet_def Let_def udp_dispatch_inv drop_inv)

section \<open>Removing sessions\<close>

lemma abort_reads_frame [simp]:
  "ue_cfg (abort_reads ops eng) = ue_cfg eng" "ue_mtu (abort_reads ops eng) = ue_mtu eng" "ue_sessions (abort_reads ops eng) = ue_sessions eng"
  "ue_pending_accepts (abort_reads ops eng) = ue_pending_accepts eng" "ue_pending_new (abort_reads ops eng) = ue_pending_new eng"
  "ue_store (abort_reads ops eng) = ue_store eng" "ue_next_id (abort_reads ops eng) = ue_next_id eng" "ue_heap (abort_reads ops eng) = ue_heap eng"
  "ue_timer_waiting (abort_reads ops eng) = ue_timer_waiting eng" "ue_armed_target (abort_reads ops eng) = ue_armed_target eng"
  "ue_wait_gen (abort_reads ops eng) = ue_wait_gen eng" "ue_wait (abort_reads ops eng) = ue_wait eng"
  "ue_now (abort_reads ops eng) = ue_now eng"
  "udp_sessions (e_stats (ue_env (abort_reads ops eng))) = udp_sessions (e_stats (ue_env eng))"
  "udp_posted (ue_env (abort_reads ops eng)) = udp_posted (ue_env eng) + mset (map (Ut_recv \<circ> ur_handler) ops)"
  by (induction ops arbitrary: eng) (simp_all add: abort_reads_def)

text \<open>What is left of a session once it has been removed.\<close>

definition removed :: "udp_session \<Rightarrow> udp_session" where
  "removed s = s\<lparr>us_pending_reads := [], us_closed := True, us_pending_accept := False,
     us_rx_bytes := 0, us_rx_datagrams := []\<rparr>"

lemma remove_session_frame:
  assumes "\<not> us_closed (ue_store eng i)"
  shows "ue_store (remove_session i eng) = (ue_store eng)(i := removed (ue_store eng i))"
    "ue_sessions (remove_session i eng) = filter (\<lambda>p. fst p \<noteq> us_key (ue_store eng i)) (ue_sessions eng)"
    "ue_pending_new (remove_session i eng) =
       (if us_pending_accept (ue_store eng i) then remove1 i (ue_pending_new eng) else ue_pending_new eng)"
    "udp_sessions (e_stats (ue_env (remove_session i eng))) = udp_sessions (e_stats (ue_env eng)) - 1"
    "udp_posted (ue_env (remove_session i eng)) = udp_posted (ue_env eng) + read_toks (ue_store eng i)"
  using assms by (auto simp: remove_session_def Let_def removed_def read_toks_def)

lemma remove_session_same [simp]:
  "ue_cfg (remove_session i eng) = ue_cfg eng" "ue_pending_accepts (remove_session i eng) = ue_pending_accepts eng"
  "ue_next_id (remove_session i eng) = ue_next_id eng" "ue_heap (remove_session i eng) = ue_heap eng"
  "ue_timer_waiting (remove_session i eng) = ue_timer_waiting eng" "ue_armed_target (remove_session i eng) = ue_armed_target eng"
  "ue_wait_gen (remove_session i eng) = ue_wait_gen eng" "ue_wait (remove_session i eng) = ue_wait eng"
  "ue_now (remove_session i eng) = ue_now eng"
  by (simp_all add: remove_session_def Let_def)

lemma remove_session_closed [simp]: "us_closed (ue_store eng i) \<Longrightarrow> remove_session i eng = eng"
  by (simp add: remove_session_def)

lemma filter_other_keys: "k \<notin> fst ` set xs \<Longrightarrow> filter (\<lambda>p. fst p \<noteq> k) xs = xs"
  by (induction xs) auto

lemma erase_key_length:
  "distinct (map fst xs) \<Longrightarrow> (k, v) \<in> set xs \<Longrightarrow> Suc (length (filter (\<lambda>p. fst p \<noteq> k) xs)) = length xs"
proof (induction xs)
  case (Cons p xs)
  show ?case
  proof (cases "fst p = k")
    case True
    hence "k \<notin> fst ` set xs" using Cons.prems(1) by auto
    thus ?thesis using True by (simp add: filter_other_keys)
  next
    case False
    thus ?thesis using Cons by auto
  qed
qed simp

lemma remove_session_core:
  assumes inv: "core_inv eng" and i: "i < ue_next_id eng"
  shows "core_inv (remove_session i eng)" "ue_toks (remove_session i eng) = ue_toks eng"
proof -
  have "core_inv (remove_session i eng) \<and> ue_toks (remove_session i eng) = ue_toks eng" if o: "\<not> us_closed (ue_store eng i)"
  proof
    note F = remove_session_frame [OF o]
    define s where "s = ue_store eng i"
    have D: "distinct (map fst (ue_sessions eng))"
      and M: "\<And>k j. (k, j) \<in> set (ue_sessions eng) \<longleftrightarrow> j < ue_next_id eng \<and> \<not> us_closed (ue_store eng j) \<and> us_key (ue_store eng j) = k"
      and P: "\<And>j. j \<in> set (ue_pending_new eng) \<longleftrightarrow> j < ue_next_id eng \<and> us_pending_accept (ue_store eng j)"
      and PD: "distinct (ue_pending_new eng)"
      using inv unfolding core_inv_def by blast+
    have mem: "(us_key s, i) \<in> set (ue_sessions eng)" using M i o by (simp add: s_def)
    have uniq: "j = i" if "(us_key s, j) \<in> set (ue_sessions eng)" for j
      using eq_key_imp_eq_value [OF D that mem] .
    define l where "l = filter (\<lambda>p. fst p \<noteq> us_key s) (ue_sessions eng)"
    have len: "length (ue_sessions eng) = Suc (length l)" unfolding l_def using erase_key_length [OF D mem] by simp
    have L: "ue_sessions (remove_session i eng) = l" using F(2) by (simp add: l_def s_def)
    have st: "us_closed (removed s)" "\<not> us_pending_accept (removed s)" "session_ok c (removed s)" "read_toks (removed s) = {#}" for c
      by (simp_all add: removed_def session_ok_def read_toks_def)
    have "(k, j) \<in> set l \<longleftrightarrow> j < ue_next_id eng \<and> \<not> us_closed (((ue_store eng)(i := removed s)) j) \<and> us_key (((ue_store eng)(i := removed s)) j) = k" for k j
    proof (cases "j = i")
      case True
      thus ?thesis using M [of k i] st(1) by (auto simp: l_def s_def)
    next
      case False
      thus ?thesis using M [of k j] uniq [of j] by (auto simp: l_def)
    qed
    moreover have "j \<in> set (ue_pending_new (remove_session i eng)) \<longleftrightarrow> j < ue_next_id eng \<and> us_pending_accept (((ue_store eng)(i := removed s)) j)" for j
      using P [of j] PD st(2) i by (auto simp: F(3) s_def)
    moreover have "length (ue_pending_new (remove_session i eng)) \<le> max_pending_new_sessions"
      using inv by (auto simp: F(3) core_inv_def length_remove1)
    moreover have "distinct (ue_pending_new (remove_session i eng))" using PD by (simp add: F(3))
    moreover have "ue_pending_new (remove_session i eng) = [] \<or> ue_pending_accepts eng = []"
      using inv by (auto simp: F(3) core_inv_def)
    moreover have "distinct (map fst l)" using D by (simp add: l_def distinct_map_filter)
    moreover have "session_ok (ue_cfg eng) (((ue_store eng)(i := removed s)) j)" if "j < ue_next_id eng" for j
      using inv that st(3) by (simp add: core_inv_def)
    moreover have "udp_sessions (e_stats (ue_env (remove_session i eng))) = of_nat (length l)" "length l \<le> max_udp_flows (ue_cfg eng)"
      using inv len by (simp_all add: F(4) core_inv_def)
    ultimately show "core_inv (remove_session i eng)"
      unfolding core_inv_def L F(1) [folded s_def] remove_session_same by blast
    show "ue_toks (remove_session i eng) = ue_toks eng"
      using read_toks_update [OF i, of "ue_store eng" "removed s"] st(4) by (simp add: ue_toks_def F(1,5) s_def add_ac)
  qed
  thus "core_inv (remove_session i eng)" "ue_toks (remove_session i eng) = ue_toks eng" using inv by (cases "us_closed (ue_store eng i)"; simp)+
qed

lemma remove_session_inv:
  assumes inv: "ue_inv eng" and i: "i < ue_next_id eng"
  shows "ue_inv (remove_session i eng)" "ue_toks (remove_session i eng) = ue_toks eng"
proof -
  have "covered (remove_session i eng) j" if "covered eng j" for j
    by (cases "us_closed (ue_store eng i)") (use that in \<open>auto simp: covered_def remove_session_frame(1) removed_def\<close>)
  thus "ue_inv (remove_session i eng)"
    using inv remove_session_core(1) [of eng i] i by (simp add: ue_inv_def heap_ok_def armed_def)
  show "ue_toks (remove_session i eng) = ue_toks eng" using remove_session_core(2) [of eng i] inv i by (simp add: ue_inv_def)
qed

section \<open>Expiry\<close>

text \<open>
  \<open>expiring heap ext eng\<close>: the invariant of the expiry loop, with the remaining heap and the sessions
  to be refreshed afterwards.
\<close>

definition expiring :: "expiry_entry list \<Rightarrow> nat list \<Rightarrow> udp_engine \<Rightarrow> bool" where
  "expiring heap ext eng \<longleftrightarrow> core_inv eng \<and> sorted (map xe_at heap) \<and> (\<forall>x\<in>set heap. xe_session x < ue_next_id eng) \<and>
     \<not> ue_timer_waiting eng \<and> (\<forall>j\<in>set ext. j < ue_next_id eng) \<and>
     (\<forall>j<ue_next_id eng. covered (eng\<lparr>ue_heap := heap\<rparr>) j \<or> (j \<in> set ext \<and> \<not> us_heap_live (ue_store eng j)))"

lemma expiring_remove:
  assumes "expiring (x # heap) ext eng" "xe_session x = i"
  shows "expiring heap ext (remove_session i eng)" "ue_toks (remove_session i eng) = ue_toks eng"
proof -
  have i: "i < ue_next_id eng" and c: "core_inv eng" using assms by (auto simp: expiring_def)
  note R = remove_session_core [OF c i]
  show "ue_toks (remove_session i eng) = ue_toks eng" by (rule R)
  have "covered ((remove_session i eng)\<lparr>ue_heap := heap\<rparr>) j \<or> (j \<in> set ext \<and> \<not> us_heap_live (ue_store (remove_session i eng) j))"
    if "j < ue_next_id eng" for j
  proof (cases "us_closed (ue_store eng i)")
    case True
    thus ?thesis using assms that by (auto simp: expiring_def covered_def)
  next
    case False
    note F = remove_session_frame(1) [OF False]
    show ?thesis using assms that by (cases "j = i") (auto simp: F expiring_def covered_def removed_def)
  qed
  thus "expiring heap ext (remove_session i eng)" using assms(1) R(1) by (simp add: expiring_def)
qed

lemma expiring_extend:
  assumes "expiring (x # heap) ext eng" "xe_session x = i"
  shows "expiring heap (ext @ [i]) (us_upd i (\<lambda>s. s\<lparr>us_heap_live := False\<rparr>) eng)"
    "ue_toks (us_upd i (\<lambda>s. s\<lparr>us_heap_live := False\<rparr>) eng) = ue_toks eng"
proof -
  let ?e = "us_upd i (\<lambda>s. s\<lparr>us_heap_live := False\<rparr>) eng"
  have "same_core eng ?e" by (simp add: same_core_def us_core_def)
  note S = same_core_inv [OF this]
  show "ue_toks ?e = ue_toks eng" by (rule S)
  show "expiring heap (ext @ [i]) ?e" using assms S(1) by (auto simp: expiring_def covered_def)
qed

lemma expiring_stale:
  assumes "expiring (x # heap) ext eng" "\<not> entry_live (ue_store eng) x"
  shows "expiring heap ext eng"
  using assms by (auto simp: expiring_def covered_def entry_live_def)

lemma expire_loop_inv:
  assumes "expiring heap ext eng" "expire_loop now heap ext eng = (ext', eng')"
  shows "expiring (ue_heap eng') ext' eng' \<and> ue_toks eng' = ue_toks eng"
  using assms
proof (induction now heap ext eng rule: expire_loop.induct)
  case (1 now ext eng)
  thus ?case by (auto simp: expiring_def covered_def)
next
  case (2 now x heap ext eng)
  show ?case
  proof (cases "xe_at x > now")
    case True
    thus ?thesis using 2 by (auto simp: expiring_def covered_def)
  next
    case False
    consider (stale) "\<not> entry_live (ue_store eng) x"
      | (expired) "entry_live (ue_store eng) x" "us_expiry (ue_store eng (xe_session x)) \<le> now"
      | (extended) "entry_live (ue_store eng) x" "\<not> us_expiry (ue_store eng (xe_session x)) \<le> now" by blast
    thus ?thesis
    proof cases
      case stale
      have "expire_loop now heap ext eng = (ext', eng')" using 2(5) stale False by (simp add: Let_def)
      thus ?thesis using 2(3) [OF False refl refl] expiring_stale [OF 2(4) stale] stale by simp
    next
      case expired
      have "expire_loop now heap ext (remove_session (xe_session x) eng) = (ext', eng')" using 2(5) expired False by (simp add: Let_def)
      thus ?thesis using 2(1) [OF False refl refl] expiring_remove [OF 2(4) refl] expired by simp
    next
      case extended
      have "expire_loop now heap (ext @ [xe_session x]) (us_upd (xe_session x) (\<lambda>s. s\<lparr>us_heap_live := False\<rparr>) eng) = (ext', eng')"
        using 2(5) extended False by (simp add: Let_def)
      thus ?thesis using 2(2) [OF False refl refl] expiring_extend [OF 2(4) refl] extended by simp
    qed
  qed
qed

lemma refresh_others [simp]: "j \<noteq> i \<Longrightarrow> ue_store (refresh_expiry i eng) j = ue_store eng j"
  by (simp add: refresh_expiry_def push_expiry_def Let_def)

lemma refresh_all_inv:
  assumes "core_inv eng" "heap_ok eng" "\<forall>j\<in>set is. j < ue_next_id eng"
    "\<forall>j<ue_next_id eng. covered eng j \<or> (j \<in> set is \<and> \<not> us_heap_live (ue_store eng j))"
  shows "core_inv (fold refresh_expiry is eng) \<and> heap_ok (fold refresh_expiry is eng) \<and>
    (\<forall>j<ue_next_id eng. covered (fold refresh_expiry is eng) j) \<and> ue_toks (fold refresh_expiry is eng) = ue_toks eng \<and>
    ue_next_id (fold refresh_expiry is eng) = ue_next_id eng"
  using assms
proof (induction "is" arbitrary: eng)
  case (Cons i xs)
  have i: "i < ue_next_id eng" using Cons.prems by simp
  let ?e = "refresh_expiry i eng"
  have c: "covered ?e j \<or> (j \<in> set xs \<and> \<not> us_heap_live (ue_store ?e j))" if "j < ue_next_id eng" for j
  proof (cases "j = i")
    case True
    thus ?thesis using Cons.prems(4) that refresh_covered(2) [of eng i] by auto
  next
    case False
    thus ?thesis using Cons.prems(4) that refresh_covered(1) [OF False, of eng] by auto
  qed
  have "core_inv ?e" "heap_ok ?e" "ue_toks ?e = ue_toks eng"
    using same_core_inv [OF refresh_expiry_core] refresh_heap_ok [OF Cons.prems(2) i] Cons.prems(1) by auto
  thus ?case using Cons.IH [of ?e] c Cons.prems(3) by simp
qed simp

text \<open>All of the invariant that does not concern the timer.\<close>

definition unarmed :: "udp_engine \<Rightarrow> bool" where
  "unarmed eng \<longleftrightarrow> core_inv eng \<and> sorted (map xe_at (ue_heap eng)) \<and> (\<forall>x\<in>set (ue_heap eng). xe_session x < ue_next_id eng) \<and>
     (\<forall>i<ue_next_id eng. covered eng i)"

lemma ue_inv_unarmed: "ue_inv eng \<Longrightarrow> unarmed eng"
  by (simp add: ue_inv_def unarmed_def heap_ok_def)

lemma on_expiry_timer_inv:
  assumes "unarmed eng"
  shows "ue_inv (on_expiry_timer ec eng)" "ue_toks (on_expiry_timer ec eng) = ue_toks eng"
proof -
  define e where "e = eng\<lparr>ue_timer_waiting := False\<rparr>"
  have e: "core_inv e" "heap_ok e" "ue_toks e = ue_toks eng" "\<not> ue_timer_waiting e" "\<forall>j<ue_next_id e. covered e j"
    using assms by (auto simp: e_def unarmed_def heap_ok_def covered_def)
  have fin: "ue_inv (arm_expiry_timer x) \<and> ue_toks (arm_expiry_timer x) = ue_toks x" if "core_inv x" "heap_ok x" "\<forall>j<ue_next_id x. covered x j" for x
    using that arm_expiry_timer_ok [OF that(2)] same_core_inv [of x "arm_expiry_timer x"] by (simp add: ue_inv_def)
  obtain ext e' where l: "expire_loop (ue_now e) (ue_heap e) [] e = (ext, e')" by fastforce
  have "expiring (ue_heap e) [] e" using e by (auto simp: expiring_def heap_ok_def covered_def)
  from expire_loop_inv [OF this l] have x: "expiring (ue_heap e') ext e'" "ue_toks e' = ue_toks eng" using e(3) by auto
  have "heap_ok e'" using x(1) by (auto simp: expiring_def heap_ok_def)
  hence r: "core_inv (fold refresh_expiry ext e')" "heap_ok (fold refresh_expiry ext e')"
    "\<forall>j<ue_next_id e'. covered (fold refresh_expiry ext e') j" "ue_toks (fold refresh_expiry ext e') = ue_toks eng"
    "ue_next_id (fold refresh_expiry ext e') = ue_next_id e'"
    using refresh_all_inv [of e' ext] x by (auto simp: expiring_def covered_def)
  have "on_expiry_timer ec eng = (if ec \<noteq> EC_ok then arm_expiry_timer e else arm_expiry_timer (fold refresh_expiry ext e'))"
    using l by (simp add: on_expiry_timer_def Let_def flip: e_def)
  thus "ue_inv (on_expiry_timer ec eng)" "ue_toks (on_expiry_timer ec eng) = ue_toks eng"
    using fin [OF e(1,2,5)] fin [of "fold refresh_expiry ext e'"] r e(3) by auto
qed

text \<open>The timer runs a handler: the wait has come due, or the handler of a cancelled wait is delivered.\<close>

definition fire_wait :: "udp_engine \<Rightarrow> udp_engine" where
  "fire_wait eng = (case ue_wait eng of
     None \<Rightarrow> eng
   | Some (t, g) \<Rightarrow> expiry_wait_done g EC_ok (eng\<lparr>ue_wait := None\<rparr>))"

definition deliver_cancelled :: "u64 \<Rightarrow> error_code \<Rightarrow> udp_engine \<Rightarrow> udp_engine" where
  "deliver_cancelled g ec eng = expiry_wait_done g ec (eng\<lparr>ue_cancelled := remove1 g (ue_cancelled eng)\<rparr>)"

lemma fire_wait_inv:
  assumes inv: "ue_inv eng" shows "ue_inv (fire_wait eng)" "ue_toks (fire_wait eng) = ue_toks eng"
proof -
  have "ue_inv (fire_wait eng) \<and> ue_toks (fire_wait eng) = ue_toks eng"
  proof (cases "ue_wait eng")
    case (Some w)
    obtain t g where w: "w = (t, g)" by fastforce
    let ?e = "eng\<lparr>ue_wait := None\<rparr>"
    have t: "ue_toks ?e = ue_toks eng" by (simp add: ue_toks_def)
    have u: "unarmed ?e" using ue_inv_unarmed [OF inv] by (simp add: unarmed_def core_inv_def covered_def)
    have "ue_inv ?e" if "g \<noteq> ue_wait_gen eng"
      using inv that Some w by (auto simp: ue_inv_def core_inv_def covered_def heap_ok_def armed_def)
    thus ?thesis using on_expiry_timer_inv [OF u] t Some w by (simp add: fire_wait_def expiry_wait_done_def)
  qed (simp add: fire_wait_def inv)
  thus "ue_inv (fire_wait eng)" "ue_toks (fire_wait eng) = ue_toks eng" by auto
qed

lemma deliver_cancelled_inv:
  assumes inv: "ue_inv eng" shows "ue_inv (deliver_cancelled g ec eng)" "ue_toks (deliver_cancelled g ec eng) = ue_toks eng"
proof -
  let ?e = "eng\<lparr>ue_cancelled := remove1 g (ue_cancelled eng)\<rparr>"
  have "ue_inv ?e" "ue_toks ?e = ue_toks eng"
    using inv by (simp_all add: ue_inv_def core_inv_def covered_def heap_ok_def armed_def ue_toks_def)
  thus "ue_inv (deliver_cancelled g ec eng)" "ue_toks (deliver_cancelled g ec eng) = ue_toks eng"
    using on_expiry_timer_inv [OF ue_inv_unarmed, of ?e ec] by (auto simp: deliver_cancelled_def expiry_wait_done_def)
qed

section \<open>Accepting, timeouts, shutdown\<close>

lemma udp_take_pending_closed:
  "(\<And>i. i \<in> set is \<Longrightarrow> \<not> us_closed (st i)) \<Longrightarrow> udp_take_pending is st =
     (case is of [] \<Rightarrow> (None, [], st) | i # rest \<Rightarrow> (Some i, rest, st(i := (st i)\<lparr>us_pending_accept := False\<rparr>)))"
  by (cases "is") simp_all

lemma udp_async_accept_inv:
  assumes inv: "ue_inv eng"
  shows "ue_inv (udp_async_accept h eng)" "ue_toks (udp_async_accept h eng) = ue_toks eng + {#Ut_accept h#}"
proof -
  have P: "\<And>j. j \<in> set (ue_pending_new eng) \<longleftrightarrow> j < ue_next_id eng \<and> us_pending_accept (ue_store eng j)"
    and S: "\<And>j. j < ue_next_id eng \<Longrightarrow> session_ok (ue_cfg eng) (ue_store eng j)"
    using inv unfolding ue_inv_def core_inv_def by blast+
  have o: "\<not> us_closed (ue_store eng j)" if "j \<in> set (ue_pending_new eng)" for j using P [of j] S [of j] that by (auto simp: session_ok_def)
  note T = udp_take_pending_closed [of "ue_pending_new eng" "ue_store eng", OF o]
  have "ue_inv (udp_async_accept h eng) \<and> ue_toks (udp_async_accept h eng) = ue_toks eng + {#Ut_accept h#}"
  proof (cases "ue_pending_new eng")
    case Nil
    let ?e = "eng\<lparr>ue_pending_accepts := ue_pending_accepts eng @ [h]\<rparr>"
    have "udp_async_accept h eng = ?e" using T Nil by (cases eng) (simp add: udp_async_accept_def Let_def)
    moreover have "ue_inv ?e" using inv Nil by (simp add: ue_inv_def core_inv_def covered_def heap_ok_def armed_def)
    moreover have "ue_toks ?e = ue_toks eng + {#Ut_accept h#}" by (simp add: ue_toks_def)
    ultimately show ?thesis by simp
  next
    case (Cons i rest)
    define e where "e = eng\<lparr>ue_pending_new := rest, ue_store := (ue_store eng)(i := (ue_store eng i)\<lparr>us_pending_accept := False\<rparr>)\<rparr>"
    have "udp_async_accept h eng = ue_post (Done_udp_accept h EC_ok (Some i)) e"
      using T Cons by (simp add: udp_async_accept_def Let_def e_def)
    moreover have "core_inv e" using inv P Cons unfolding ue_inv_def core_inv_def by (auto simp: e_def session_ok_def)
    moreover have "heap_ok e" "armed e" "covered e j = covered eng j" "ue_next_id e = ue_next_id eng" for j
      using inv by (simp_all add: e_def ue_inv_def heap_ok_def armed_def covered_def)
    moreover have "ue_toks e = ue_toks eng" by (simp add: e_def ue_toks_def) (rule sum.cong, auto simp: read_toks_def)
    ultimately show ?thesis using inv by (simp add: post_inv) (simp add: ue_inv_def)
  qed
  thus "ue_inv (udp_async_accept h eng)" "ue_toks (udp_async_accept h eng) = ue_toks eng + {#Ut_accept h#}" by auto
qed

lemma fold_abort_accepts:
  defines "ab \<equiv> \<lambda>hs. fold (\<lambda>h. ue_post (Done_udp_accept h EC_operation_aborted None)) hs"
  shows "ue_inv (ab hs eng) = ue_inv eng" "ue_toks (ab hs eng) = ue_toks eng + mset (map Ut_accept hs)"
    "core_inv (ab hs eng) = core_inv eng" "ue_next_id (ab hs eng) = ue_next_id eng" "ue_store (ab hs eng) = ue_store eng"
    "ue_timer_waiting (ab hs eng) = ue_timer_waiting eng" "ue_sessions (ab hs eng) = ue_sessions eng"
    "ue_pending_accepts (ab hs eng) = ue_pending_accepts eng"
  by (induction hs arbitrary: eng) (simp_all add: ab_def post_inv)

lemma udp_cancel_accepts_core:
  assumes "core_inv eng"
  shows "core_inv (udp_cancel_accepts eng)" "ue_toks (udp_cancel_accepts eng) = ue_toks eng"
proof -
  have "core_inv (eng\<lparr>ue_pending_accepts := []\<rparr>)" "ue_toks (eng\<lparr>ue_pending_accepts := []\<rparr>) + mset (map Ut_accept (ue_pending_accepts eng)) = ue_toks eng"
    using assms by (auto simp: core_inv_def ue_toks_def)
  thus "core_inv (udp_cancel_accepts eng)" "ue_toks (udp_cancel_accepts eng) = ue_toks eng"
    by (simp_all add: udp_cancel_accepts_def fold_abort_accepts)
qed

lemma udp_cancel_accepts_inv: "ue_inv eng \<Longrightarrow> ue_inv (udp_cancel_accepts eng)"
  by (simp add: udp_cancel_accepts_def fold_abort_accepts) (auto simp: ue_inv_def core_inv_def covered_def heap_ok_def armed_def)

lemma remove_all_core:
  assumes "core_inv eng" "\<forall>i\<in>set is. i < ue_next_id eng"
  shows "core_inv (fold remove_session is eng) \<and> ue_toks (fold remove_session is eng) = ue_toks eng \<and>
    ue_next_id (fold remove_session is eng) = ue_next_id eng \<and> ue_timer_waiting (fold remove_session is eng) = ue_timer_waiting eng \<and>
    (\<forall>j. us_closed (ue_store eng j) \<or> j \<in> set is \<longrightarrow> us_closed (ue_store (fold remove_session is eng) j))"
  using assms
proof (induction "is" arbitrary: eng)
  case (Cons i xs)
  have c: "us_closed (ue_store (remove_session i eng) j)" if "us_closed (ue_store eng j) \<or> j = i" for j
    by (cases "us_closed (ue_store eng i)") (use that in \<open>auto simp: remove_session_frame(1) removed_def\<close>)
  show ?case using Cons.IH [of "remove_session i eng"] Cons.prems remove_session_core [OF Cons.prems(1), of i] c by simp
qed simp

lemma udp_close_all_inv:
  assumes inv: "ue_inv eng"
  shows "ue_inv (udp_close_all eng)" "ue_toks (udp_close_all eng) = ue_toks eng" "ue_sessions (udp_close_all eng) = []"
    "ue_pending_accepts (udp_close_all eng) = []" "\<And>i. i < ue_next_id (udp_close_all eng) \<Longrightarrow> us_closed (ue_store (udp_close_all eng) i)"
proof -
  define e0 where "e0 = (cancel_wait eng)\<lparr>ue_timer_waiting := False\<rparr>"
  have "same_core eng e0" by (auto simp: e0_def same_core_def cancel_wait_def split: option.splits prod.splits)
  hence e0: "core_inv e0" "ue_toks e0 = ue_toks eng" "ue_sessions e0 = ue_sessions eng" "ue_next_id e0 = ue_next_id eng" "ue_store e0 = ue_store eng"
    "\<not> ue_timer_waiting e0"
    using same_core_inv [of eng e0] inv by (simp_all add: ue_inv_def) (simp_all add: e0_def)
  define e1 where "e1 = fold remove_session (map snd (ue_sessions e0)) e0"
  have M: "\<And>k i. (k, i) \<in> set (ue_sessions eng) \<longleftrightarrow> i < ue_next_id eng \<and> \<not> us_closed (ue_store eng i) \<and> us_key (ue_store eng i) = k"
    using inv unfolding ue_inv_def core_inv_def by blast
  have "\<forall>i\<in>set (map snd (ue_sessions e0)). i < ue_next_id e0" using M by (auto simp: e0)
  from remove_all_core [OF e0(1) this, folded e1_def]
  have e1: "core_inv e1" "ue_toks e1 = ue_toks eng" "ue_next_id e1 = ue_next_id eng" "\<not> ue_timer_waiting e1"
    and cl: "\<And>j. us_closed (ue_store eng j) \<or> j \<in> set (map snd (ue_sessions eng)) \<Longrightarrow> us_closed (ue_store e1 j)"
    using e0 by auto
  have all: "us_closed (ue_store e1 j)" if "j < ue_next_id e1" for j
  proof (cases "us_closed (ue_store eng j)")
    case False
    hence "(us_key (ue_store eng j), j) \<in> set (ue_sessions eng)" using M that e1(3) by simp
    hence "j \<in> set (map snd (ue_sessions eng))" by (metis imageI set_map snd_conv)
    thus ?thesis using cl by blast
  qed (use cl in blast)
  have "(k, i) \<notin> set (ue_sessions e1)" for k i using e1(1) all [of i] unfolding core_inv_def by blast
  hence s: "ue_sessions e1 = []" by (cases "ue_sessions e1") auto
  have "i \<notin> set (ue_pending_new e1)" for i using e1(1) all [of i] unfolding core_inv_def session_ok_def by blast
  hence "ue_pending_new e1 = []" by (cases "ue_pending_new e1") auto
  hence p: "e1\<lparr>ue_pending_new := []\<rparr> = e1" by (cases e1) simp
  define e2 where "e2 = udp_cancel_accepts e1"
  have e2: "core_inv e2" "ue_toks e2 = ue_toks eng" using udp_cancel_accepts_core [OF e1(1)] e1(2) by (simp_all add: e2_def)
  have f: "ue_next_id e2 = ue_next_id e1" "ue_store e2 = ue_store e1" "ue_timer_waiting e2 = ue_timer_waiting e1" "ue_sessions e2 = ue_sessions e1"
    "ue_pending_accepts e2 = []"
    by (simp_all add: e2_def udp_cancel_accepts_def fold_abort_accepts)
  have ca: "udp_close_all eng = e2\<lparr>ue_heap := []\<rparr>" by (simp add: udp_close_all_def Let_def e2_def p flip: e0_def e0(3)) (simp add: p flip: e1_def)
  show "ue_inv (udp_close_all eng)" "ue_toks (udp_close_all eng) = ue_toks eng" "ue_sessions (udp_close_all eng) = []"
    "ue_pending_accepts (udp_close_all eng) = []"
    using e2 f s all e1(4) by (simp_all add: ca ue_inv_def heap_ok_def armed_def covered_def)
  show "\<And>i. i < ue_next_id (udp_close_all eng) \<Longrightarrow> us_closed (ue_store (udp_close_all eng) i)" using all f by (simp add: ca)
qed

lemma settled_sessions:
  assumes inv: "ue_inv eng" and e: "ue_sessions eng = []" "ue_pending_accepts eng = []"
    and closed: "\<And>i. i < ue_next_id eng \<Longrightarrow> us_closed (ue_store eng i)"
  shows "udp_posted (ue_env eng) = ue_toks eng" "udp_sessions (e_stats (ue_env eng)) = 0"
proof -
  have "read_toks (ue_store eng i) = {#}" if "i < ue_next_id eng" for i
    using closed [OF that] ue_inv_session [OF inv that] by (simp add: session_ok_def read_toks_def)
  hence "(\<Sum>i<ue_next_id eng. read_toks (ue_store eng i)) = {#}" by (simp add: sum.neutral)
  thus "udp_posted (ue_env eng) = ue_toks eng" using e(2) by (simp add: ue_toks_def)
  show "udp_sessions (e_stats (ue_env eng)) = 0" using inv e(1) by (simp add: ue_inv_def core_inv_def)
qed

lemma set_timeout_inv:
  assumes inv: "ue_inv eng" and f: "\<And>i. f = Some i \<Longrightarrow> i < ue_next_id eng"
  shows "ue_inv (udp_session_set_timeout f t eng) \<and> ue_toks (udp_session_set_timeout f t eng) = ue_toks eng"
proof (cases f)
  case (Some i)
  let ?g = "\<lambda>s :: udp_session. s\<lparr>us_timeout := t\<rparr>"
  have i: "i < ue_next_id eng" using f Some by simp
  have "ue_inv (us_upd i ?g eng)" "ue_toks (us_upd i ?g eng) = ue_toks eng"
    using us_upd_inv [OF inv i, of ?g] ue_inv_session [OF inv i] by (simp_all add: session_ok_def read_toks_def)
  thus ?thesis using refresh_inv [OF ue_inv_almost, of "us_upd i ?g eng" i] i inv Some by (simp add: udp_session_set_timeout_def)
qed (simp add: udp_session_set_timeout_def inv)

section \<open>Sending\<close>

text \<open>\<open>quiet_env\<close>: what writing packets leaves alone.\<close>

definition quiet_env :: "env \<Rightarrow> env \<Rightarrow> bool" where
  "quiet_env e e' \<longleftrightarrow> udp_sessions (e_stats e') = udp_sessions (e_stats e) \<and> udp_posted e' = udp_posted e \<and> e_now e' = e_now e"

lemma quiet_env_refl [simp]: "quiet_env e e"
  by (simp add: quiet_env_def)

lemma quiet_env_trans: "quiet_env a b \<Longrightarrow> quiet_env b c \<Longrightarrow> quiet_env a c"
  by (simp add: quiet_env_def)

lemma quiet_prims [simp]:
  "quiet_env e (set_lane q st x) = quiet_env e x" "quiet_env e (set_queued_total n x) = quiet_env e x"
  "quiet_env e (add_tx_dropped x) = quiet_env e x" "quiet_env e (add_tx_packets x) = quiet_env e x"
  "quiet_env e (recycle b x) = quiet_env e x" "quiet_env e (start_write q x) = quiet_env e x"
  "quiet_env e (post_dev h ec n x) = quiet_env e x" "quiet_env e (snd (acquire c hr x)) = quiet_env e x"
  "quiet_env e (snd (alloc_ip_id x)) = quiet_env e x"
  by (simp_all add: quiet_env_def udp_posted_def set_lane_def set_queued_total_def add_tx_dropped_def add_tx_packets_def recycle_def
      start_write_def post_dev_def post_completion_on_def alloc_ip_id_def Let_def split: option.splits)

lemma quiet_pump [simp]: "quiet_env e (pump q x) = quiet_env e x"
  by (simp add: pump_def Let_def split: option.splits list.splits)

lemma quiet_enqueue [simp]: "quiet_env e (enqueue b h x) = quiet_env e x"
  by (simp add: enqueue_def Let_def)

lemma quiet_async_write [simp]:
  "quiet_env e (async_write b h x) = quiet_env e x" "quiet_env e (async_write_and_forget b x) = quiet_env e x"
  by (simp_all add: async_write_def async_write_and_forget_def)
    (simp add: quiet_env_def udp_posted_def post_completion_on_def add_tx_dropped_def)

lemma quiet_on_write_done [simp]: "quiet_env e (on_write_done ec n q x) = quiet_env e x"
  by (simp add: on_write_done_def Let_def split: option.splits)

lemma frag_packet_quiet: "quiet_env e (snd (frag_packet m s d dg ip_id off x)) = quiet_env e x"
proof -
  obtain r y where a: "acquire (m + 64) 64 x = (r, y)" by fastforce
  thus ?thesis using quiet_prims(8) [of e "m + 64" 64 x]
    by (auto simp: frag_packet_def a Let_def split: sum.splits)
qed

lemma frag_loop_quiet: "quiet_env e (snd (frag_loop m s d dg ip_id off fs x)) = quiet_env e x"
proof (induction m s d dg ip_id off fs x rule: frag_loop.induct)
  case (1 m s d dg ip_id off fs x)
  obtain r y where f: "frag_packet m s d dg ip_id off x = (r, y)" by fastforce
  have y: "quiet_env e y = quiet_env e x" using frag_packet_quiet [of e m s d dg ip_id off x] f by simp
  show ?case
    by (subst frag_loop.simps) (use 1 [OF _ f [symmetric]] f y in \<open>auto split: sum.splits\<close>)
qed

lemma env_frag_inv:
  assumes "ue_inv eng" "quiet_env (ue_env eng) e"
  shows "ue_inv (eng\<lparr>ue_env := e, ue_frags := f, ue_next_frag := k\<rparr>)" "ue_toks (eng\<lparr>ue_env := e, ue_frags := f, ue_next_frag := k\<rparr>) = ue_toks eng"
  using assms by (simp_all add: ue_inv_def core_inv_def covered_def heap_ok_def armed_def ue_toks_def quiet_env_def)

text \<open>\<open>only_env eng eng'\<close>: an engine step that touches the environment, as \<open>quiet_env\<close> allows, and the fragment records.\<close>

definition only_env :: "udp_engine \<Rightarrow> udp_engine \<Rightarrow> bool" where
  "only_env eng eng' \<longleftrightarrow> quiet_env (ue_env eng) (ue_env eng') \<and>
     eng' = eng\<lparr>ue_env := ue_env eng', ue_frags := ue_frags eng', ue_next_frag := ue_next_frag eng'\<rparr>"

lemma only_env_inv:
  assumes "ue_inv eng" "only_env eng eng'" shows "ue_inv eng' \<and> ue_toks eng' = ue_toks eng"
  using env_frag_inv [OF assms(1), of "ue_env eng'"] assms(2) unfolding only_env_def by metis

lemma only_env_trans: "only_env a b \<Longrightarrow> only_env b c \<Longrightarrow> only_env a c"
  by (cases a; cases b; cases c) (auto simp: only_env_def quiet_env_def)

lemma only_env_on_env: "quiet_env (ue_env eng) (g (ue_env eng)) \<Longrightarrow> only_env eng (ue_on_env g eng)"
  by (cases eng) (simp add: only_env_def ue_on_env_def)

lemma only_env_post: "udp_tok_of c = {#} \<Longrightarrow> only_env eng (ue_post c eng)"
  by (rule only_env_on_env) (simp add: quiet_env_def)

lemma udp_done_only: "only_env eng (udp_done h n ec eng)"
  by (simp add: udp_done_def only_env_post)

lemma fold_write_only: "only_env eng (fold (\<lambda>b. ue_on_env (async_write b cb)) bs eng)"
proof (induction bs arbitrary: eng)
  case Nil
  thus ?case by (cases eng) (simp add: only_env_def)
next
  case (Cons b bs)
  have "only_env eng (ue_on_env (async_write b cb) eng)" by (rule only_env_on_env) simp
  thus ?case using only_env_trans Cons.IH by simp
qed

lemma write_fragments_only: "only_env eng (snd (udp_write_ipv4_fragments s d dg h n eng))"
proof -
  obtain i e1 where a: "alloc_ip_id (ue_env eng) = (i, e1)" by fastforce
  obtain r e2 where l: "frag_loop (ue_mtu eng) s d dg i 0 [] e1 = (r, e2)" by fastforce
  have q: "quiet_env (ue_env eng) e2"
    using frag_loop_quiet [of "ue_env eng" "ue_mtu eng" s d dg i 0 "[]" e1] quiet_prims(9) [of "ue_env eng" "ue_env eng"] l a by simp
  have e: "only_env eng (eng\<lparr>ue_env := e2, ue_frags := f, ue_next_frag := k\<rparr>)" for f k
    using q by (cases eng) (simp add: only_env_def)
  have e': "only_env eng (eng\<lparr>ue_env := e2\<rparr>)" using q by (cases eng) (simp add: only_env_def)
  show ?thesis
    using udp_done_only only_env_trans [OF e fold_write_only] e'
    by (auto simp: udp_write_ipv4_fragments_def Let_def a l split: sum.splits)
qed

lemma single_packet_quiet: "quiet_env e (snd (udp_single_packet s r fam a bs n m x)) = quiet_env e x"
proof -
  obtain b y where a: "acquire (m + 64) 64 x = (b, y)" by fastforce
  obtain i z where i: "alloc_ip_id y = (i, z)" by fastforce
  show ?thesis using quiet_prims(8) [of e "m + 64" 64 x] quiet_prims(9) [of e y]
    by (auto simp: udp_single_packet_def a i Let_def split: sum.splits)
qed

lemma send_single_only: "only_env eng (snd (udp_send_single s r fam a bs n h eng))"
proof -
  obtain b e where p: "udp_single_packet s r fam a bs n (ue_mtu eng) (ue_env eng) = (b, e)" by fastforce
  have "quiet_env (ue_env eng) e" using single_packet_quiet [of "ue_env eng" s r fam a bs n "ue_mtu eng" "ue_env eng"] p by simp
  hence e: "only_env eng (eng\<lparr>ue_env := e\<rparr>)" by (cases eng) (simp add: only_env_def)
  have "only_env (eng\<lparr>ue_env := e\<rparr>) (ue_on_env (async_write pkt cb) (eng\<lparr>ue_env := e\<rparr>))" for pkt cb by (rule only_env_on_env) simp
  thus ?thesis using e only_env_trans [OF e] by (auto simp: udp_send_single_def p Let_def split: sum.splits)
qed

lemma send_inv:
  assumes inv: "ue_inv eng" and f: "\<And>i. f = Some i \<Longrightarrow> i < ue_next_id eng"
  shows "ue_inv (snd (udp_session_start_send f r bs n h eng)) \<and> ue_toks (snd (udp_session_start_send f r bs n h eng)) = ue_toks eng"
proof (cases f)
  case None
  thus ?thesis using only_env_inv [OF inv only_env_post] by (simp add: udp_session_start_send_def)
next
  case (Some i)
  have i: "i < ue_next_id eng" using f Some by simp
  define e where "e = refresh_expiry i eng"
  have e: "ue_inv e" "ue_toks e = ue_toks eng" using refresh_inv [OF ue_inv_almost [OF inv i] i] by (simp_all add: e_def)
  have fail: "ue_inv (ue_post (Done_send h ec 0) eng) \<and> ue_toks (ue_post (Done_send h ec 0) eng) = ue_toks eng" for ec
    using only_env_inv [OF inv only_env_post] by simp
  have s: "ue_inv (snd (udp_send_single x r fam a bs n h e)) \<and> ue_toks (snd (udp_send_single x r fam a bs n h e)) = ue_toks eng"
    "ue_inv (snd (udp_send_fragmented x r a bs n h e)) \<and> ue_toks (snd (udp_send_fragmented x r a bs n h e)) = ue_toks eng" for x fam a
    using only_env_inv [OF e(1) send_single_only] only_env_inv [OF e(1) write_fragments_only] e(2) by (simp_all add: udp_send_fragmented_def Let_def)
  show ?thesis
    using fail s inv unfolding udp_session_start_send_def send_entry_def Let_def Some option.case e_def [symmetric]
    by (auto split: sum.splits prod.splits)
qed

lemma udp_dev_done_only: "only_env eng (udp_dev_done cb ec eng)"
proof -
  have "only_env eng (eng\<lparr>ue_frags := f\<rparr>)" for f by (cases eng) (simp add: only_env_def)
  hence "only_env eng (on_frag k ec eng)" for k
    unfolding on_frag_def Let_def using only_env_trans [OF _ udp_done_only] by (simp split: if_splits)
  moreover have "only_env eng eng" by (cases eng) (simp add: only_env_def)
  ultimately show ?thesis by (cases cb) (simp_all add: udp_dev_done_def udp_done_only)
qed

section \<open>Runs\<close>

text \<open>What reaches the engine on its strand. The application names sessions that exist.\<close>

datatype udp_event =
    Uv_packet ip_packet_info "byte list"
  | Uv_time int
  | Uv_timer
  | Uv_cancelled u64 error_code
  | Uv_accept nat
  | Uv_cancel_accepts
  | Uv_receive "nat option" "nat list" nat nat
  | Uv_send "nat option" udp_endpoint "byte list list" nat nat
  | Uv_set_timeout "nat option" int
  | Uv_close "nat option"
  | Uv_close_all
  | Uv_device_done error_code nat nat
  | Uv_written write_cb error_code nat

fun udp_step :: "udp_event \<Rightarrow> udp_engine \<Rightarrow> udp_engine" where
  "udp_step (Uv_packet ip p) eng = udp_on_packet ip p eng"
| "udp_step (Uv_time t) eng = ue_on_env (\<lambda>e. e\<lparr>e_now := max t (e_now e)\<rparr>) eng"
| "udp_step Uv_timer eng = fire_wait eng"
| "udp_step (Uv_cancelled g ec) eng = deliver_cancelled g ec eng"
| "udp_step (Uv_accept h) eng = udp_async_accept h eng"
| "udp_step Uv_cancel_accepts eng = udp_cancel_accepts eng"
| "udp_step (Uv_receive f bs n h) eng = udp_session_start_receive f bs n h eng"
| "udp_step (Uv_send f r bs n h) eng = snd (udp_session_start_send f r bs n h eng)"
| "udp_step (Uv_set_timeout f t) eng = udp_session_set_timeout f t eng"
| "udp_step (Uv_close f) eng = udp_session_close f eng"
| "udp_step Uv_close_all eng = udp_close_all eng"
| "udp_step (Uv_device_done ec n q) eng = ue_on_env (on_write_done ec n q) eng"
| "udp_step (Uv_written cb ec n) eng = udp_dev_done cb ec eng"

definition known_session :: "nat option \<Rightarrow> udp_engine \<Rightarrow> bool" where
  "known_session f eng \<longleftrightarrow> (case f of None \<Rightarrow> True | Some i \<Rightarrow> i < ue_next_id eng)"

text \<open>The callbacks of device writes run once for each completion the writer has posted; \<open>called\<close> are those that have.\<close>

fun udp_enabled :: "completion multiset \<Rightarrow> udp_event \<Rightarrow> udp_engine \<Rightarrow> bool" where
  "udp_enabled called Uv_timer eng = (case ue_wait eng of None \<Rightarrow> False | Some (t, g) \<Rightarrow> t \<le> ue_now eng)"
| "udp_enabled called (Uv_cancelled g ec) eng = (g \<in> set (ue_cancelled eng))"
| "udp_enabled called (Uv_receive f bs n h) eng = known_session f eng"
| "udp_enabled called (Uv_send f r bs n h) eng = (known_session f eng \<and> fst (udp_session_start_send f r bs n h eng) \<noteq> Some Terminates)"
| "udp_enabled called (Uv_set_timeout f t) eng = known_session f eng"
| "udp_enabled called (Uv_close f) eng = known_session f eng"
| "udp_enabled called (Uv_device_done ec n q) eng = (q < n_lanes (ue_env eng))"
| "udp_enabled called (Uv_written cb ec n) eng = (count called (Done_dev cb ec n) < count (mset (e_posted (ue_env eng))) (Done_dev cb ec n))"
| "udp_enabled called _ eng = True"

fun udp_submitted :: "udp_event \<Rightarrow> udp_tok multiset" where
  "udp_submitted (Uv_accept h) = {#Ut_accept h#}"
| "udp_submitted (Uv_receive f bs n h) = {#Ut_recv h#}"
| "udp_submitted _ = {#}"

fun callbacks_run :: "udp_event \<Rightarrow> completion multiset" where
  "callbacks_run (Uv_written cb ec n) = {#Done_dev cb ec n#}"
| "callbacks_run _ = {#}"

text \<open>
  \<open>udp_run cfg e evs called eng\<close>: from a new engine the events \<open>evs\<close> lead to \<open>eng\<close>, and the callbacks \<open>called\<close> have run.
\<close>

inductive udp_run :: "tun_config \<Rightarrow> env \<Rightarrow> udp_event list \<Rightarrow> completion multiset \<Rightarrow> udp_engine \<Rightarrow> bool" for cfg e where
  start: "udp_run cfg e [] {#} (udp_engine_new cfg e)"
| event: "udp_run cfg e evs called eng \<Longrightarrow> udp_enabled called ev eng \<Longrightarrow>
    udp_run cfg e (evs @ [ev]) (called + callbacks_run ev) (udp_step ev eng)"

inductive_cases udp_runE: "udp_run cfg e evs called eng"

lemma udp_step_inv:
  assumes inv: "ue_inv eng" and en: "udp_enabled called ev eng"
  shows "ue_inv (udp_step ev eng) \<and> ue_toks (udp_step ev eng) = ue_toks eng + udp_submitted ev"
proof (cases ev)
  case (Uv_time t)
  let ?e = "ue_on_env (\<lambda>e. e\<lparr>e_now := max t (e_now e)\<rparr>) eng"
  have "ue_inv ?e" "ue_toks ?e = ue_toks eng"
    using inv by (simp_all add: ue_inv_def core_inv_def ue_toks_def udp_posted_def)
  thus ?thesis using Uv_time by simp
next
  case (Uv_close f)
  thus ?thesis using inv en remove_session_inv [OF inv] by (auto simp: udp_session_close_def known_session_def split: option.splits)
next
  case (Uv_receive f bs n h)
  thus ?thesis using inv en receive_inv [OF inv, of f bs n h] by (auto simp: known_session_def split: option.splits)
next
  case (Uv_send f r bs n h)
  thus ?thesis using inv en send_inv [OF inv, of f r bs n h] by (auto simp: known_session_def split: option.splits)
next
  case (Uv_set_timeout f t)
  thus ?thesis using inv en set_timeout_inv [OF inv, of f t] by (auto simp: known_session_def split: option.splits)
next
  case (Uv_device_done ec n q)
  have "only_env eng (ue_on_env (on_write_done ec n q) eng)" by (rule only_env_on_env) simp
  thus ?thesis using only_env_inv [OF inv] Uv_device_done by simp
next
  case (Uv_written cb ec n)
  thus ?thesis using only_env_inv [OF inv udp_dev_done_only] by simp
next
  case Uv_cancel_accepts
  thus ?thesis using inv udp_cancel_accepts_inv udp_cancel_accepts_core(2) [of eng] by (simp add: ue_inv_def)
qed (use inv udp_on_packet_inv fire_wait_inv deliver_cancelled_inv udp_async_accept_inv udp_close_all_inv in simp_all)

definition udp_fresh :: "env \<Rightarrow> bool" where
  "udp_fresh e \<longleftrightarrow> udp_sessions (e_stats e) = 0 \<and> e_posted e = []"

lemma udp_new_inv: "udp_fresh e \<Longrightarrow> ue_inv (udp_engine_new cfg e) \<and> ue_toks (udp_engine_new cfg e) = {#}"
  by (simp add: udp_fresh_def udp_engine_new_def ue_inv_def core_inv_def heap_ok_def armed_def ue_toks_def udp_posted_def)

lemma udp_run_inv:
  assumes "udp_run cfg e evs called eng" "udp_fresh e"
  shows "ue_inv eng \<and> ue_toks eng = sum_list (map udp_submitted evs)"
  using assms
proof (induction rule: udp_run.induct)
  case start
  thus ?case using udp_new_inv by simp
next
  case (event evs called eng ev)
  thus ?case using udp_step_inv [of eng called ev] by simp
qed

end
