(* ===== verification/Udp_Expiry.thy ===== *)
theory Udp_Expiry
  imports Udp_System
begin

text \<open>
  Properties of the UDP engine: its tables and limits, its handlers, and what the expiry timer does to
  each session.
\<close>

section \<open>What one run of the expiry timer does\<close>

text \<open>
  Session \<open>i\<close> is due when an entry of the heap that is live for it has come; the timer then either
  removes it or refreshes it.
\<close>

definition due :: "int \<Rightarrow> (nat \<Rightarrow> udp_session) \<Rightarrow> expiry_entry list \<Rightarrow> nat \<Rightarrow> bool" where
  "due now st heap i \<longleftrightarrow> (\<exists>x\<in>set heap. xe_at x \<le> now \<and> entry_live st x \<and> xe_session x = i)"

definition swept :: "int \<Rightarrow> udp_session \<Rightarrow> udp_session" where
  "swept now s = (if us_expiry s \<le> now then removed s else s\<lparr>us_heap_live := False\<rparr>)"

lemma remove_session_store:
  "\<not> us_closed (ue_store eng i) \<Longrightarrow> ue_store (remove_session i eng) = (ue_store eng)(i := removed (ue_store eng i))"
  by (rule remove_session_frame)

lemma swept_fields [simp]:
  "us_expiry (swept now s) = us_expiry s" "us_expiry_gen (swept now s) = us_expiry_gen s"
  "us_closed (swept now s) \<longleftrightarrow> us_closed s \<or> us_expiry s \<le> now" "swept now (swept now s) = swept now s"
  "us_timeout (swept now s) = us_timeout s"
  by (simp_all add: swept_def removed_def)

text \<open>One entry changes the sessions as if its session were swept, when it is live and due.\<close>

lemma due_Cons:
  "due now st (x # heap) i \<longleftrightarrow> (xe_at x \<le> now \<and> entry_live st x \<and> xe_session x = i) \<or> due now st heap i"
  by (auto simp: due_def)

lemma due_swept:
  assumes "entry_live st x" "xe_session x = j"
  shows "due now (st(j := swept now (st j))) heap i \<longleftrightarrow> due now st heap i \<and> (i = j \<longrightarrow> \<not> us_expiry (st j) \<le> now)"
  using assms by (auto simp: due_def entry_live_def split: if_splits)

lemma due_open: "due now st heap i \<Longrightarrow> \<not> us_closed (st i)"
  by (auto simp: due_def entry_live_def)

lemma expire_loop_effect:
  assumes "expire_loop now heap ext eng = (ext', eng')" "sorted (map xe_at heap)"
  shows "ue_store eng' = (\<lambda>i. if due now (ue_store eng) heap i then swept now (ue_store eng i) else ue_store eng i) \<and>
    set ext' = set ext \<union> {i. due now (ue_store eng) heap i \<and> now < us_expiry (ue_store eng i)} \<and> ue_now eng' = ue_now eng"
  using assms
proof (induction now heap ext eng rule: expire_loop.induct)
  case (1 now ext eng)
  thus ?case by (auto simp: due_def)
next
  case (2 now x heap ext eng)
  let ?i = "xe_session x" and ?st = "ue_store eng"
  note prems = 2(4,5)
  show ?case
  proof (cases "xe_at x > now")
    case True
    hence "\<not> due now ?st (x # heap) i" for i using prems(2) by (auto simp: due_def)
    thus ?thesis using prems True by auto
  next
    case False
    define e where "e = (if entry_live ?st x \<and> us_expiry (?st ?i) \<le> now then remove_session ?i eng
        else if entry_live ?st x then us_upd ?i (\<lambda>s. s\<lparr>us_heap_live := False\<rparr>) eng else eng)"
    define xt where "xt = (if entry_live ?st x \<and> \<not> us_expiry (?st ?i) \<le> now then ext @ [?i] else ext)"
    have l: "expire_loop now heap xt e = (ext', eng')" using prems(1) False by (auto simp: e_def xt_def Let_def split: if_splits)
    have st: "ue_store e = (if entry_live ?st x then ?st(?i := swept now (?st ?i)) else ?st)" "ue_now e = ue_now eng"
      using remove_session_store [of eng ?i] by (auto simp: e_def swept_def entry_live_def)
    have IH: "ue_store eng' = (\<lambda>i. if due now (ue_store e) heap i then swept now (ue_store e i) else ue_store e i) \<and>
        set ext' = set xt \<union> {i. due now (ue_store e) heap i \<and> now < us_expiry (ue_store e i)} \<and> ue_now eng' = ue_now e"
    proof -
      have so: "sorted (map xe_at heap)" using prems(2) by simp
      consider (stale) "\<not> entry_live ?st x" | (expired) "entry_live ?st x" "us_expiry (?st ?i) \<le> now"
        | (extended) "entry_live ?st x" "\<not> us_expiry (?st ?i) \<le> now" by blast
      thus ?thesis
      proof cases
        case stale
        hence ee: "e = eng" "xt = ext" by (simp_all add: e_def xt_def)
        show ?thesis unfolding ee by (rule 2(3) [OF False refl refl]) (use stale l so ee in simp_all)
      next
        case expired
        hence ee: "e = remove_session ?i eng" "xt = ext" by (simp_all add: e_def xt_def)
        show ?thesis unfolding ee by (rule 2(1) [OF False refl refl]) (use expired l so ee in simp_all)
      next
        case extended
        hence ee: "e = us_upd ?i (\<lambda>s. s\<lparr>us_heap_live := False\<rparr>) eng" "xt = ext @ [?i]" by (simp_all add: e_def xt_def)
        show ?thesis unfolding ee by (rule 2(2) [OF False refl refl]) (use extended l so ee in simp_all)
      qed
    qed
    show ?thesis
    proof (cases "entry_live ?st x")
      case False
      hence "ue_store e = ?st" using st by simp
      thus ?thesis using IH st(2) False by (simp only: due_Cons xt_def) simp
    next
      case live: True
      note ds = due_swept [OF live refl, of now heap]
      have "ue_store eng' i = (if due now ?st (x # heap) i then swept now (?st i) else ?st i)" for i
        using IH st live ds [of i] False by (cases "i = ?i") (auto simp: due_Cons)
      moreover have "set ext' = set ext \<union> {i. due now ?st (x # heap) i \<and> now < us_expiry (?st i)}"
        using IH st live ds False by (auto simp: due_Cons xt_def)
      ultimately show ?thesis using IH st(2) by auto
    qed
  qed
qed

lemma refresh_self:
  assumes "\<not> us_closed (ue_store eng i)"
  shows "us_expiry (ue_store (refresh_expiry i eng) i) = ue_now eng + us_timeout (ue_store eng i)"
  using assms by (simp add: refresh_expiry_def push_expiry_def Let_def)

lemma refresh_all_effect:
  "(i \<notin> set is \<longrightarrow> ue_store (fold refresh_expiry is eng) i = ue_store eng i) \<and>
   (i \<in> set is \<and> \<not> us_closed (ue_store eng i) \<longrightarrow>
      us_expiry (ue_store (fold refresh_expiry is eng) i) = ue_now eng + us_timeout (ue_store eng i)) \<and>
   us_core (ue_store (fold refresh_expiry is eng) i) = us_core (ue_store eng i)"
proof (induction "is" arbitrary: eng)
  case (Cons j xs)
  have c: "us_core (ue_store (refresh_expiry j eng) i) = us_core (ue_store eng i)" by simp
  note f = us_core_fields [OF c]
  show ?case
  proof (cases "i \<in> set xs")
    case True
    thus ?thesis using Cons.IH [of "refresh_expiry j eng"] f by simp
  next
    case False
    thus ?thesis using Cons.IH [of "refresh_expiry j eng"] refresh_self [of eng j] f by (cases "i = j") simp_all
  qed
qed simp

lemma on_expiry_timer_effect:
  assumes "sorted (map xe_at (ue_heap eng))"
  defines "e' \<equiv> on_expiry_timer EC_ok eng" and "d \<equiv> due (ue_now eng) (ue_store eng) (ue_heap eng)"
  shows "\<not> d i \<Longrightarrow> ue_store e' i = ue_store eng i"
    "d i \<Longrightarrow> us_expiry (ue_store eng i) \<le> ue_now eng \<Longrightarrow> ue_store e' i = removed (ue_store eng i)"
    "d i \<Longrightarrow> ue_now eng < us_expiry (ue_store eng i) \<Longrightarrow> \<not> us_closed (ue_store e' i) \<and>
       us_expiry (ue_store e' i) = ue_now eng + us_timeout (ue_store eng i)"
proof -
  define e where "e = eng\<lparr>ue_timer_waiting := False\<rparr>"
  obtain ext x where l: "expire_loop (ue_now e) (ue_heap e) [] e = (ext, x)" by fastforce
  have L: "ue_store x = (\<lambda>i. if d i then swept (ue_now eng) (ue_store eng i) else ue_store eng i)"
    "set ext = {i. d i \<and> ue_now eng < us_expiry (ue_store eng i)}" "ue_now x = ue_now eng"
    using expire_loop_effect [OF l] assms(1) by (simp_all add: e_def d_def cong: if_cong)
  have e': "ue_store e' = ue_store (fold refresh_expiry ext x)"
    using l by (simp add: e'_def on_expiry_timer_def Let_def flip: e_def)
  note R = refresh_all_effect [of i ext x]
  show "\<not> d i \<Longrightarrow> ue_store e' i = ue_store eng i" using R L by (simp add: e')
  show "d i \<Longrightarrow> us_expiry (ue_store eng i) \<le> ue_now eng \<Longrightarrow> ue_store e' i = removed (ue_store eng i)"
    using R L by (simp add: e' swept_def)
  assume di: "d i" "ue_now eng < us_expiry (ue_store eng i)"
  hence o: "\<not> us_closed (ue_store x i)" using L(1) due_open by (simp add: swept_def d_def)
  thus "\<not> us_closed (ue_store e' i) \<and> us_expiry (ue_store e' i) = ue_now eng + us_timeout (ue_store eng i)"
    using R L di us_core_fields(1) [of "ue_store e' i" "ue_store x i"] by (simp add: e')
qed

section \<open>Properties\<close>

text \<open>
  C23. In every state the UDP engine reaches: session keys are unique, the table holds exactly the open
  sessions, each under its own key, within \<open>max_udp_flows\<close>; the accept queue holds, once each, exactly
  the sessions marked as waiting to be accepted, every one of them open and in the table, at most 1024,
  and none while an accept is waiting; and the \<open>udp_sessions\<close> statistic is the size of the table.
\<close>

theorem udp_session_table_consistent:
  assumes "udp_run cfg e evs called eng" "udp_fresh e"
  shows "distinct (map fst (ue_sessions eng)) \<and>
    (\<forall>i<ue_next_id eng. \<not> us_closed (ue_store eng i) \<longleftrightarrow> (us_key (ue_store eng i), i) \<in> set (ue_sessions eng)) \<and>
    length (ue_sessions eng) \<le> max_udp_flows (ue_cfg eng) \<and>
    distinct (ue_pending_new eng) \<and>
    set (ue_pending_new eng) = {i. i < ue_next_id eng \<and> us_pending_accept (ue_store eng i)} \<and>
    (\<forall>i\<in>set (ue_pending_new eng). \<not> us_closed (ue_store eng i) \<and> (us_key (ue_store eng i), i) \<in> set (ue_sessions eng)) \<and>
    length (ue_pending_new eng) \<le> 1024 \<and> (ue_pending_new eng = [] \<or> ue_pending_accepts eng = []) \<and>
    udp_sessions (e_stats (ue_env eng)) = of_nat (length (ue_sessions eng))"
proof -
  have inv: "core_inv eng" using udp_run_inv [OF assms] unfolding ue_inv_def by blast
  have q: "set (ue_pending_new eng) = {i. i < ue_next_id eng \<and> us_pending_accept (ue_store eng i)}"
    using inv unfolding core_inv_def by blast
  moreover have "\<not> us_closed (ue_store eng i) \<and> (us_key (ue_store eng i), i) \<in> set (ue_sessions eng)" if "i \<in> set (ue_pending_new eng)" for i
    using inv that unfolding q core_inv_def session_ok_def by blast
  ultimately show ?thesis using inv unfolding core_inv_def max_pending_new_sessions_def by blast
qed

text \<open>
  C22. No receive or accept handler is lost or called twice: at any moment the handlers submitted are, as
  a multiset, those completed, those of the receives waiting on the sessions, and the accepts waiting.
\<close>

theorem udp_handlers_conserved:
  assumes "udp_run cfg e evs called eng" "udp_fresh e"
  shows "udp_posted (ue_env eng) + (\<Sum>i<ue_next_id eng. read_toks (ue_store eng i)) +
    mset (map Ut_accept (ue_pending_accepts eng)) = sum_list (map udp_submitted evs)"
  using udp_run_inv [OF assms] by (simp add: ue_toks_def)

text \<open>
  Closing the UDP engine completes every receive and accept ever submitted exactly once, empties the
  session table and brings the session count to zero.
\<close>

theorem udp_close_all_completes:
  assumes r: "udp_run cfg e evs called eng" and f: "udp_fresh e"
  shows "udp_posted (ue_env (udp_close_all eng)) = sum_list (map udp_submitted evs) \<and> ue_sessions (udp_close_all eng) = [] \<and>
    udp_sessions (e_stats (ue_env (udp_close_all eng))) = 0"
  using udp_close_all_inv [of eng] settled_sessions [of "udp_close_all eng"] udp_run_inv [OF r f] by simp

text \<open>
  No open session escapes expiry: in every reachable state, each open session has an entry in the
  expiry heap that is live for it, and the timer is waiting, under the current generation, for a time no
  later than that entry.
\<close>

theorem udp_open_sessions_watched:
  assumes r: "udp_run cfg e evs called eng" and f: "udp_fresh e" and i: "i < ue_next_id eng" "\<not> us_closed (ue_store eng i)"
  shows "\<exists>x\<in>set (ue_heap eng). xe_session x = i \<and> entry_live (ue_store eng) x \<and>
    (\<exists>t\<le>xe_at x. ue_wait eng = Some (t, ue_wait_gen eng))"
proof -
  have inv: "ue_inv eng" using udp_run_inv [OF r f] by auto
  then obtain x where x: "x \<in> set (ue_heap eng)" "xe_session x = i" "xe_gen x = us_expiry_gen (ue_store eng i)"
    using i by (auto simp: ue_inv_def covered_def)
  have "xe_at (hd (ue_heap eng)) \<le> xe_at x"
    using inv x(1) by (cases "ue_heap eng") (auto simp: ue_inv_def heap_ok_def)
  hence "ue_armed_target eng \<le> xe_at x" "ue_wait eng = Some (ue_armed_target eng, ue_wait_gen eng)"
    using inv x(1) by (auto simp: ue_inv_def heap_ok_def armed_def)
  thus ?thesis using x i(2) by (auto simp: entry_live_def)
qed

text \<open>
  What the expiry timer does, exactly: a session none of whose live entries has come due is not
  touched; a due session whose expiry has passed is removed; and a due session that was refreshed since
  its entry was pushed stays open with its expiry moved to a full timeout from now, whatever was left of
  the old one (the comment in \<^verbatim>\<open>on_expiry_timer\<close> says it is put back at its current expiry).
\<close>

theorem udp_expiry_timer_effect:
  assumes r: "udp_run cfg e evs called eng" and f: "udp_fresh e"
  shows "ue_store (on_expiry_timer EC_ok eng) i = ue_store eng i \<and> \<not> due (ue_now eng) (ue_store eng) (ue_heap eng) i \<or>
    ue_store (on_expiry_timer EC_ok eng) i = removed (ue_store eng i) \<and> due (ue_now eng) (ue_store eng) (ue_heap eng) i \<and>
      us_expiry (ue_store eng i) \<le> ue_now eng \<or>
    \<not> us_closed (ue_store (on_expiry_timer EC_ok eng) i) \<and> due (ue_now eng) (ue_store eng) (ue_heap eng) i \<and>
      ue_now eng < us_expiry (ue_store eng i) \<and>
      us_expiry (ue_store (on_expiry_timer EC_ok eng) i) = ue_now eng + us_timeout (ue_store eng i)"
proof -
  have "sorted (map xe_at (ue_heap eng))" using udp_run_inv [OF r f] by (simp add: ue_inv_def heap_ok_def)
  note E = on_expiry_timer_effect [OF this, of i]
  show ?thesis using E by (cases "due (ue_now eng) (ue_store eng) (ue_heap eng) i"; cases "us_expiry (ue_store eng i) \<le> ue_now eng") auto
qed

text \<open>
  Datagram queues are bounded and never stall a reader: in every reachable state a session holds
  queued datagrams only while no receive waits on it, \<open>rx_bytes\<close> is exactly the queued bytes, within
  \<open>max_rx_queue_per_flow\<close>, and a closed session holds neither datagrams nor receives.
\<close>

theorem udp_queue_bounded:
  assumes "udp_run cfg e evs called eng" "udp_fresh e" "i < ue_next_id eng"
  shows "(us_rx_datagrams (ue_store eng i) = [] \<or> us_pending_reads (ue_store eng i) = []) \<and>
    us_rx_bytes (ue_store eng i) = (\<Sum>d\<leftarrow>us_rx_datagrams (ue_store eng i). length (fst d)) \<and>
    us_rx_bytes (ue_store eng i) \<le> max_rx_queue_per_flow (ue_cfg eng) \<and>
    (us_closed (ue_store eng i) \<longrightarrow> us_rx_datagrams (ue_store eng i) = [] \<and> us_pending_reads (ue_store eng i) = [])"
  using ue_inv_session [OF _ assms(3)] udp_run_inv [OF assms(1,2)] by (auto simp: session_ok_def comp_def)

text \<open>
  Shortening the timeout of a session within 500 ms of its last heap entry has no effect on the heap
  or the timer, so the session is not looked at before the old timeout has passed.
\<close>

theorem udp_shorter_timeout_waits:
  assumes r: "udp_run cfg e evs called eng" and f: "udp_fresh e" and i: "i < ue_next_id eng" "\<not> us_closed (ue_store eng i)"
    and t: "ue_now eng - us_last_heap_push (ue_store eng i) < 500"
  shows "us_expiry (ue_store (udp_session_set_timeout (Some i) d eng) i) = ue_now eng + d \<and>
    ue_heap (udp_session_set_timeout (Some i) d eng) = ue_heap eng \<and>
    ue_wait (udp_session_set_timeout (Some i) d eng) = ue_wait eng"
proof -
  have "us_heap_live (ue_store eng i)" using udp_run_inv [OF r f] i by (auto simp: ue_inv_def covered_def)
  thus ?thesis using i t by (simp add: udp_session_set_timeout_def refresh_expiry_def Let_def k_expiry_push_interval_def)
qed

section \<open>Receiving\<close>

text \<open>
  A receive on a session with queued datagrams takes the oldest one and completes at once with its
  bytes, as many as fit into the buffers, and its destination, which the application sees as the peer;
  the rest of the queue stays, and the bytes of the datagram leave the session's count and the global
  budget.
\<close>

theorem udp_receive_takes_oldest:
  assumes q: "us_rx_datagrams (ue_store eng i) = (data, sender) # rest" and o: "\<not> us_closed (ue_store eng i)"
    and b: "us_rx_bytes (ue_store eng i) = length data + n" "acc_used (e_account (ue_env eng)) = length data + m"
  shows "\<exists>chunks. e_posted (ue_env (udp_session_start_receive (Some i) bufs (sum_list bufs) h eng)) =
      e_posted (ue_env eng) @ [Done_recv h EC_ok (min (length data) (sum_list bufs)) chunks (Some sender)] \<and>
    concat chunks = take (min (length data) (sum_list bufs)) data \<and>
    us_rx_datagrams (ue_store (udp_session_start_receive (Some i) bufs (sum_list bufs) h eng) i) = rest \<and>
    us_rx_bytes (ue_store (udp_session_start_receive (Some i) bufs (sum_list bufs) h eng) i) = n \<and>
    acc_used (e_account (ue_env (udp_session_start_receive (Some i) bufs (sum_list bufs) h eng))) = m"
proof -
  let ?c = "min (length data) (sum_list bufs)"
  obtain chunks copied where sc: "scatter bufs ?c data 0 = (chunks, copied)" by fastforce
  have "copied = ?c" "concat chunks = take ?c data"
    using scatter_copied [of 0 ?c bufs data] scatter_data [of 0 ?c data bufs] sc by (simp_all add: subl_def)
  thus ?thesis using q o b sc
    by (simp add: udp_session_start_receive_def udp_pop_queued_datagram_def Let_def post_completion_on_def set_account_def acct_release_def)
qed

section \<open>A sample run\<close>

text \<open>
  A client at 10.0.0.1:1000 sends the byte 65 to 10.0.0.2:53 (no checksum); the application has not asked
  for the session, accepts it later and receives.
\<close>

definition sample_datagram :: "byte list" where
  "sample_datagram = [3, 232, 0, 53, 0, 9, 0, 0, 65]"

definition sample_udp_info :: ip_packet_info where
  "sample_udp_info = \<lparr>pi_family = 4, pi_protocol = 17, pi_src_ip = [10, 0, 0, 1] @ replicate 12 0, pi_dst_ip = [10, 0, 0, 2] @ replicate 12 0\<rparr>"

definition sample_udp_events :: "udp_event list" where
  "sample_udp_events = [Uv_packet sample_udp_info sample_datagram, Uv_accept 1]"

definition sample_udp :: udp_engine where
  "sample_udp = udp_async_accept 1 (udp_on_packet sample_udp_info sample_datagram (udp_engine_new default_config sample_env))"

lemma sample_udp_run: "udp_run default_config sample_env sample_udp_events {#} sample_udp"
proof -
  have "udp_run default_config sample_env [Uv_packet sample_udp_info sample_datagram] {#}
      (udp_on_packet sample_udp_info sample_datagram (udp_engine_new default_config sample_env))"
    using udp_run.event [OF udp_run.start, of "Uv_packet sample_udp_info sample_datagram" default_config sample_env] by simp
  from udp_run.event [OF this, of "Uv_accept 1"] show ?thesis by (simp add: sample_udp_def sample_udp_events_def)
qed

lemma sample_udp_fresh: "udp_fresh sample_env"
  by (simp add: udp_fresh_def sample_env_def env_new_def)

definition sample_key :: udp_session_key where
  "sample_key = make_udp_session_key (pi_src_ip sample_udp_info) 59395 4"

definition sample_peer :: udp_endpoint where
  "sample_peer = \<lparr>ep_v6 = False, ep_addr = [10, 0, 0, 2], ep_port = 53\<rparr>"

lemma sample_parse: "udp_on_packet sample_udp_info sample_datagram eng = udp_dispatch sample_key [65] sample_peer eng"
proof -
  have "unat (ntohs (uh_length (load_udp_header sample_datagram))) = 9" "ntohs (uh_checksum (load_udp_header sample_datagram)) = 0"
    "uh_src_port (load_udp_header sample_datagram) = 59395" "ntohs (uh_dst_port (load_udp_header sample_datagram)) = 53"
    by (simp_all add: load_udp_header_def sample_datagram_def net_simps be16_def ld16_def le16_def ntohs_def)
  moreover have "length sample_datagram = 9" "drop 8 (take 9 sample_datagram) = [65]" by (simp_all add: sample_datagram_def)
  moreover have "make_udp_endpoint 4 (pi_dst_ip sample_udp_info) (uh_dst_port (load_udp_header sample_datagram)) = sample_peer"
    using calculation by (simp add: make_udp_endpoint_def sample_peer_def sample_udp_info_def subl_def)
  ultimately show ?thesis by (simp add: udp_on_packet_def Let_def sample_key_def) (simp add: sample_udp_info_def)
qed

definition sample_fresh :: udp_engine where
  "sample_fresh = new_session sample_key (udp_engine_new default_config sample_env)"

lemma sample_udp_eq: "sample_udp = udp_async_accept 1 (notify_session 0 (refresh_expiry 0 (deliver_datagram 0 [65] sample_peer sample_fresh)))"
  by (simp add: sample_udp_def sample_parse udp_dispatch_def Let_def create_session_def sample_fresh_def)
    (simp add: udp_engine_new_def default_config_def max_pending_new_sessions_def)


definition sample_session :: udp_session where
  "sample_session = udp_session0\<lparr>us_key := sample_key, us_expiry := 30000, us_expiry_gen := 1, us_heap_live := True\<rparr>"

lemma sample_fresh_simps:
  "ue_next_id sample_fresh = 1" "ue_now sample_fresh = 0" "e_account (ue_env sample_fresh) = \<lparr>acc_limit = 65536, acc_used = 0\<rparr>"
  "ue_cfg sample_fresh = default_config" "ue_pending_accepts sample_fresh = []" "ue_pending_new sample_fresh = []"
  "ue_store sample_fresh 0 = udp_session0\<lparr>us_key := sample_key, us_expiry := 30000\<rparr>"
  by (simp_all add: sample_fresh_def new_session_def Let_def udp_engine_new_def sample_env_def env_new_def add_udp_sessions_def)
    (simp add: default_config_def udp_session0_def)

lemma sample_refreshed: "ue_store (refresh_expiry 0 sample_fresh) 0 = sample_session"
  by (simp add: refresh_expiry_def push_expiry_def Let_def sample_fresh_simps sample_session_def udp_session0_def)

lemma sample_delivered:
  "ue_store (deliver_datagram 0 [65] sample_peer sample_fresh) 0 = sample_session\<lparr>us_rx_datagrams := [([65], sample_peer)], us_rx_bytes := 1\<rparr>"
  "ue_now (deliver_datagram 0 [65] sample_peer sample_fresh) = 0" "acc_used (e_account (ue_env (deliver_datagram 0 [65] sample_peer sample_fresh))) = 1"
proof -
  have s: "us_pending_reads sample_session = []" "us_rx_bytes sample_session = 0" "us_rx_datagrams sample_session = []" "\<not> us_closed (ue_store sample_fresh 0)"
    by (simp_all add: sample_session_def udp_session0_def sample_fresh_simps)
  have a: "acct_reserve 1 \<lparr>acc_limit = 65536, acc_used = 0\<rparr> = (True, \<lparr>acc_limit = 65536, acc_used = 1\<rparr>)" by (simp add: acct_reserve_def)
  have m: "1 \<le> max_rx_queue_per_flow default_config" by (simp add: default_config_def)
  show "ue_store (deliver_datagram 0 [65] sample_peer sample_fresh) 0 = sample_session\<lparr>us_rx_datagrams := [([65], sample_peer)], us_rx_bytes := 1\<rparr>"
    "ue_now (deliver_datagram 0 [65] sample_peer sample_fresh) = 0" "acc_used (e_account (ue_env (deliver_datagram 0 [65] sample_peer sample_fresh))) = 1"
    using s a m by (simp_all add: deliver_datagram_def Let_def sample_refreshed sample_fresh_simps not_less)
      (simp_all add: set_account_def)
qed

lemma sample_udp_simps:
  "ue_next_id sample_udp = 1" "\<not> us_closed (ue_store sample_udp 0)" "ue_now sample_udp = 0" "us_last_heap_push (ue_store sample_udp 0) = 0"
  "us_rx_datagrams (ue_store sample_udp 0) = [([65], sample_peer)]"
  "us_rx_bytes (ue_store sample_udp 0) = 1" "acc_used (e_account (ue_env sample_udp)) = 1" "0 < us_expiry (ue_store sample_udp 0)"
proof -
  define e where "e = refresh_expiry 0 (deliver_datagram 0 [65] sample_peer sample_fresh)"
  have "ue_store e 0 = sample_session\<lparr>us_rx_datagrams := [([65], sample_peer)], us_rx_bytes := 1\<rparr>"
    by (simp add: e_def refresh_expiry_def Let_def sample_delivered sample_session_def udp_session0_def k_expiry_push_interval_def)
  moreover have "ue_pending_accepts e = []" "ue_pending_new e = []" "ue_next_id e = 1" "ue_now e = 0" "acc_used (e_account (ue_env e)) = 1"
    by (simp_all add: e_def sample_delivered sample_fresh_simps)
  ultimately show "ue_next_id sample_udp = 1" "\<not> us_closed (ue_store sample_udp 0)" "ue_now sample_udp = 0" "us_last_heap_push (ue_store sample_udp 0) = 0"
    "us_rx_datagrams (ue_store sample_udp 0) = [([65], sample_peer)]"
    "us_rx_bytes (ue_store sample_udp 0) = 1" "acc_used (e_account (ue_env sample_udp)) = 1" "0 < us_expiry (ue_store sample_udp 0)"
    unfolding sample_udp_eq e_def [symmetric]
    by (simp_all add: notify_session_def udp_async_accept_def sample_session_def udp_session0_def) (simp_all add: post_completion_on_def)
qed

theorem udp_session_table_consistent_witness:
  "distinct (map fst (ue_sessions sample_udp)) \<and> length (ue_sessions sample_udp) \<le> max_udp_flows (ue_cfg sample_udp) \<and>
   udp_sessions (e_stats (ue_env sample_udp)) = of_nat (length (ue_sessions sample_udp))"
  using udp_session_table_consistent [OF sample_udp_run sample_udp_fresh] by blast

theorem udp_handlers_conserved_witness:
  "udp_posted (ue_env sample_udp) + (\<Sum>i<ue_next_id sample_udp. read_toks (ue_store sample_udp i)) +
     mset (map Ut_accept (ue_pending_accepts sample_udp)) = {#Ut_accept 1#}"
  using udp_handlers_conserved [OF sample_udp_run sample_udp_fresh] by (simp add: sample_udp_events_def)

theorem udp_close_all_completes_witness:
  "udp_posted (ue_env (udp_close_all sample_udp)) = {#Ut_accept 1#} \<and> udp_sessions (e_stats (ue_env (udp_close_all sample_udp))) = 0"
  using udp_close_all_completes [OF sample_udp_run sample_udp_fresh] by (simp add: sample_udp_events_def)

theorem udp_open_sessions_watched_witness:
  "ue_wait sample_udp \<noteq> None"
  using udp_open_sessions_watched [OF sample_udp_run sample_udp_fresh, of 0] sample_udp_simps by auto

theorem udp_expiry_timer_effect_witness:
  "\<not> us_closed (ue_store (on_expiry_timer EC_ok sample_udp) 0)"
  using udp_expiry_timer_effect [OF sample_udp_run sample_udp_fresh, of 0] sample_udp_simps by auto

theorem udp_queue_bounded_witness:
  "us_rx_datagrams (ue_store sample_udp 0) \<noteq> [] \<and> us_pending_reads (ue_store sample_udp 0) = []"
  using udp_queue_bounded [OF sample_udp_run sample_udp_fresh, of 0] sample_udp_simps by simp

theorem udp_shorter_timeout_waits_witness:
  "ue_wait (udp_session_set_timeout (Some 0) 1000 sample_udp) = ue_wait sample_udp"
  using udp_shorter_timeout_waits [OF sample_udp_run sample_udp_fresh, of 0 1000] sample_udp_simps by simp

theorem udp_receive_takes_oldest_witness:
  "\<exists>chunks. e_posted (ue_env (udp_session_start_receive (Some 0) [4] 4 2 sample_udp)) =
      e_posted (ue_env sample_udp) @ [Done_recv 2 EC_ok 1 chunks (Some sample_peer)] \<and>
    concat chunks = [65]"
  using udp_receive_takes_oldest [OF sample_udp_simps(5,2), of 0 0 "[4]" 2] sample_udp_simps by auto

end
