(* ===== verification/Udp_Packet.thy ===== *)
theory Udp_Packet
  imports Udp_Send Ip_Input
begin

text \<open>
  Correctness of the packets the UDP engine emits: the datagram carries the payload and a checksum that
  the receiver, in particular this engine, accepts; a packet that fits the MTU is one IP packet; and the
  fragments of a longer one reassemble to it. \<open>reassemble\<close> is the receiver's side of RFC 791.
\<close>

section \<open>The datagram\<close>

text \<open>The bytes of a datagram with the checksum field \<open>c\<close>.\<close>

definition udp_hdr :: "u16 \<Rightarrow> u16 \<Rightarrow> nat \<Rightarrow> udp_header" where
  "udp_hdr src_port dst_port n = \<lparr>uh_src_port = htons src_port, uh_dst_port = htons dst_port,
     uh_length = htons (of_nat (sizeof_udp_header + n)), uh_checksum = 0\<rparr>"

definition udp_raw :: "u16 \<Rightarrow> u16 \<Rightarrow> byte list \<Rightarrow> byte list" where
  "udp_raw src_port dst_port payload = store_udp_header (udp_hdr src_port dst_port (length payload)) @ payload"

definition udp_csum :: "nat \<Rightarrow> byte list \<Rightarrow> byte list \<Rightarrow> u16 \<Rightarrow> u16 \<Rightarrow> byte list \<Rightarrow> u16" where
  "udp_csum family src_addr dst_addr src_port dst_port payload =
     (let c = tcp_udp_checksum family src_addr dst_addr ip_protocol_udp (udp_raw src_port dst_port payload)
      in if c = 0 then 0xffff else c)"

definition udp_bytes :: "nat \<Rightarrow> byte list \<Rightarrow> byte list \<Rightarrow> u16 \<Rightarrow> u16 \<Rightarrow> byte list \<Rightarrow> byte list" where
  "udp_bytes family src_addr dst_addr src_port dst_port payload =
     blit (udp_raw src_port dst_port payload) 6 (st16 (htons (udp_csum family src_addr dst_addr src_port dst_port payload)))"

lemma length_udp_raw [simp]: "length (udp_raw sp dp payload) = 8 + length payload"
  by (simp add: udp_raw_def)

lemma length_udp_bytes [simp]: "length (udp_bytes fam s d sp dp payload) = 8 + length payload"
  by (simp add: udp_bytes_def)

lemma udp_csum_nonzero: "udp_csum fam s d sp dp payload \<noteq> 0"
  by (simp add: udp_csum_def Let_def)

lemma gather_payload_blit:
  "n = copied + length (concat bufs) \<Longrightarrow> 8 + n \<le> length dst \<Longrightarrow>
    gather_payload bufs n copied dst = blit dst (8 + copied) (concat bufs)"
proof (induction bufs arbitrary: copied dst)
  case Nil
  thus ?case by (simp add: blit_def)
next
  case (Cons b bufs)
  show ?case
  proof (cases "n \<le> copied")
    case True
    hence "concat (b # bufs) = []" using Cons.prems(1) by (simp only: length_0_conv [symmetric])
    hence "blit dst (8 + copied) (concat (b # bufs)) = dst" by (simp only: blit_def) simp
    thus ?thesis using True by (simp del: concat.simps)
  next
    case False
    have t: "take (min (length b) (n - copied)) b = b" "min (length b) (n - copied) = length b" using Cons.prems(1) by simp_all
    have "gather_payload (b # bufs) n copied dst = gather_payload bufs n (copied + length b) (blit dst (8 + copied) b)"
      using False by (simp add: Let_def t)
    also have "\<dots> = blit (blit dst (8 + copied) b) (8 + (copied + length b)) (concat bufs)"
      by (rule Cons.IH) (use Cons.prems in simp_all)
    also have "\<dots> = blit dst (8 + copied) (concat (b # bufs))"
      using Cons.prems by (simp add: blit_def ac_simps)
    finally show ?thesis .
  qed
qed

lemma udp_build_datagram_bytes:
  assumes "n = length (concat bufs)" "8 + n \<le> length dst"
  shows "fst (udp_build_datagram fam s d sp dp bufs n dst) = udp_bytes fam s d sp dp (concat bufs) @ drop (8 + n) dst"
proof -
  let ?raw = "udp_raw sp dp (concat bufs)"
  have g: "gather_payload bufs n 0 (blit dst 0 (store_udp_header (udp_hdr sp dp n))) = ?raw @ drop (8 + n) dst"
    using gather_payload_blit [of n 0 bufs "blit dst 0 (store_udp_header (udp_hdr sp dp n))"] assms
    by (simp add: blit_front blit_at_end udp_raw_def add.commute)
  have "subl 0 (8 + n) (?raw @ drop (8 + n) dst) = ?raw" using assms(1) by (simp add: subl_def)
  thus ?thesis unfolding udp_build_datagram_def Let_def udp_hdr_def [symmetric] g fst_conv
    by (simp add: udp_bytes_def udp_csum_def blit_append_left)
qed

lemma udp_bytes_verify:
  assumes "8 + length payload \<le> 65535"
  shows "tcp_udp_checksum fam s d ip_protocol_udp (udp_bytes fam s d sp dp payload) = 0"
proof -
  let ?raw = "udp_raw sp dp payload"
  have z: "subl 6 2 ?raw = [0, 0]" by (simp add: udp_raw_def udp_hdr_def store_udp_header_def st16_def subl_def)
  have "tcp_udp_checksum fam s d ip_protocol_udp (blit ?raw 6 [hi8 (udp_csum fam s d sp dp payload), lo8 (udp_csum fam s d sp dp payload)]) = 0"
    by (rule pseudo_csum.filled_verifies) (use assms z in \<open>simp_all add: udp_csum_def Let_def\<close>)
  thus ?thesis by (simp add: udp_bytes_def st16_ntohs)
qed

lemma udp_bytes_layout:
  "udp_bytes fam s d sp dp payload = store_udp_header ((udp_hdr sp dp (length payload))
     \<lparr>uh_checksum := htons (udp_csum fam s d sp dp payload)\<rparr>) @ payload"
  by (simp add: udp_bytes_def udp_raw_def) (simp add: blit_def store_udp_header_def st16_def udp_hdr_def)

lemma udp_bytes_load:
  "load_udp_header (udp_bytes fam s d sp dp payload) = (udp_hdr sp dp (length payload))
     \<lparr>uh_checksum := htons (udp_csum fam s d sp dp payload)\<rparr>"
  "drop 8 (udp_bytes fam s d sp dp payload) = payload"
  by (simp_all only: udp_bytes_layout load_store_udp_header) simp

lemma udp_bytes_accepted:
  assumes "8 + length payload \<le> 65535" "tcp_udp_checksum (unat (pi_family ip)) (pi_src_ip ip) (pi_dst_ip ip) ip_protocol_udp =
    tcp_udp_checksum (unat (pi_family ip)) s d ip_protocol_udp"
  shows "udp_on_packet ip (udp_bytes (unat (pi_family ip)) s d sp dp payload) eng =
    udp_dispatch (make_udp_session_key (pi_src_ip ip) (htons sp) (pi_family ip)) payload
      (make_udp_endpoint (pi_family ip) (pi_dst_ip ip) (htons dp)) eng"
proof -
  let ?b = "udp_bytes (unat (pi_family ip)) s d sp dp payload"
  have len: "unat (8 + of_nat (length payload) :: u16) = 8 + length payload"
    using assms(1) by (simp add: unat_word_ariths unat_of_nat)
  have "ntohs (uh_length (load_udp_header ?b)) = of_nat (8 + length payload)" "ntohs (uh_checksum (load_udp_header ?b)) \<noteq> 0"
    "uh_src_port (load_udp_header ?b) = htons sp" "uh_dst_port (load_udp_header ?b) = htons dp"
    using udp_csum_nonzero by (simp_all add: udp_bytes_load udp_hdr_def)
  moreover have "tcp_udp_checksum (unat (pi_family ip)) s d ip_protocol_udp ?b = 0"
    using udp_bytes_verify assms(1) by simp
  ultimately show ?thesis
    using assms(2) by (simp add: udp_on_packet_def Let_def len udp_bytes_load(2))
qed

text \<open>
  Round trip of a datagram: what \<^verbatim>\<open>udp_build_datagram\<close> assembles, in whatever memory and from
  however many buffers, is accepted by \<^verbatim>\<open>udp_engine::on_packet\<close> of a receiver with the same
  addresses (the checksum verifies and is never the zero that IPv6 forbids) and delivers exactly the
  user's bytes, from the sender's port to the port addressed.
\<close>

theorem udp_datagram_round_trip:
  assumes n: "n = length (concat bufs)" and fits: "8 + n \<le> 65535" and room: "8 + n \<le> length dst"
    and ip: "pi_src_ip ip = s" "pi_dst_ip ip = d"
  shows "udp_on_packet ip (take (snd (udp_build_datagram (unat (pi_family ip)) s d sp dp bufs n dst))
           (fst (udp_build_datagram (unat (pi_family ip)) s d sp dp bufs n dst))) eng =
    udp_dispatch (make_udp_session_key s (htons sp) (pi_family ip)) (concat bufs)
      (make_udp_endpoint (pi_family ip) d (htons dp)) eng"
proof -
  have "snd (udp_build_datagram (unat (pi_family ip)) s d sp dp bufs n dst) = 8 + n"
    by (simp add: udp_build_datagram_def Let_def)
  thus ?thesis using udp_build_datagram_bytes [OF n room] n fits ip udp_bytes_accepted [of "concat bufs" ip s d sp dp eng] by simp
qed

theorem udp_datagram_round_trip_witness:
  "udp_on_packet \<lparr>pi_family = 4, pi_protocol = 17, pi_src_ip = [10, 0, 0, 1], pi_dst_ip = [10, 0, 0, 2]\<rparr>
     (take (snd (udp_build_datagram 4 [10, 0, 0, 1] [10, 0, 0, 2] 53 1000 [[65], [66, 67]] 3 (replicate 11 7)))
       (fst (udp_build_datagram 4 [10, 0, 0, 1] [10, 0, 0, 2] 53 1000 [[65], [66, 67]] 3 (replicate 11 7)))) (udp_engine_new default_config sample_env) =
   udp_dispatch (make_udp_session_key [10, 0, 0, 1] (htons 53) 4) [65, 66, 67] (make_udp_endpoint 4 [10, 0, 0, 2] (htons 1000)) (udp_engine_new default_config sample_env)"
  using udp_datagram_round_trip [of 3 "[[65], [66, 67]]" "replicate 11 7"
      "\<lparr>pi_family = 4, pi_protocol = 17, pi_src_ip = [10, 0, 0, 1], pi_dst_ip = [10, 0, 0, 2]\<rparr>" "[10, 0, 0, 1]" "[10, 0, 0, 2]" 53 1000 "udp_engine_new default_config sample_env"]
  by simp

section \<open>A datagram in one packet\<close>

lemma udp_single_packet_bytes:
  assumes pool: "pool_wf e" and n: "n = length (concat bufs)" and fits: "ip_header_size family + 8 + n \<le> m"
    and fam: "family = 4 \<or> family = 6" and al: "addr_len family \<le> length a" "addr_len family \<le> length (uk_src_ip (us_key ses))"
  obtains pkt e' ip_id where "udp_single_packet ses r family a bufs n m e = (Inr pkt, e')" "pb_wf pkt" "pool_wf e'"
    "pb_bytes pkt = ip_bytes family a (uk_src_ip (us_key ses)) ip_protocol_udp (ip_header_size family + (8 + n)) ip_id @
      udp_bytes family a (uk_src_ip (us_key ses)) (ep_port r) (ntohs (uk_src_port (us_key ses))) (concat bufs)"
proof -
  obtain b e1 where acq: "acquire (m + 64) 64 e = (Inr b, e1)" and b: "pb_wf b" "m + 64 \<le> pb_capacity b" "pb_headroom b = 64"
    and e1: "pool_wf e1"
    by (rule acquire_wf [OF pool, of 64 "m + 64"]) (use fits in \<open>auto simp: ip_header_size_def split: if_splits\<close>)
  let ?h = "ip_header_size family" and ?d = "uk_src_ip (us_key ses)"
  let ?t = "?h + (8 + n)"
  have rs: "pb_resize ?t b = Inr (b\<lparr>pb_data_size := ?t\<rparr>)" using pb_resize_ok [OF b(1)] b fits by simp
  obtain ip_id e2 where id: "alloc_ip_id e1 = (ip_id, e2)" by fastforce
  have e2: "pool_wf e2" using alloc_ip_id_pool [of e1] e1 id by simp
  let ?x = "pb_from_data b"
  have lx: "?t \<le> length ?x" using length_pb_from_data [OF b(1)] b fits by simp
  have base: "fst (build_ip_header ?x family a ?d ip_protocol_udp ?t ip_id 64) =
      ip_bytes family a ?d ip_protocol_udp ?t ip_id @ drop ?h ?x"
    by (rule build_ip_bytes) (use fam al lx in \<open>auto simp: ip_header_size_def\<close>)
  have lb: "length (ip_bytes family a ?d ip_protocol_udp ?t ip_id) = ?h" using fam al by simp
  let ?u = "udp_bytes family a ?d (ep_port r) (ntohs (uk_src_port (us_key ses))) (concat bufs)"
  have dg: "fst (udp_build_datagram family a ?d (ep_port r) (ntohs (uk_src_port (us_key ses))) bufs n (drop ?h ?x)) =
      ?u @ drop (8 + n) (drop ?h ?x)"
    by (rule udp_build_datagram_bytes) (use n lx in auto)
  let ?all = "ip_bytes family a ?d ip_protocol_udp ?t ip_id @ ?u @ drop (8 + n) (drop ?h ?x)"
  have la: "length ?all = pb_capacity b - pb_headroom b" using lb lx n length_pb_from_data [OF b(1)] by simp
  have ta: "take ?t ?all = ip_bytes family a ?d ip_protocol_udp ?t ip_id @ ?u" using lb n by simp
  have "udp_single_packet ses r family a bufs n m e = (Inr (pb_poke (b\<lparr>pb_data_size := ?t\<rparr>) 0 ?all), e2)"
    by (simp add: udp_single_packet_def acq rs [unfolded add.assoc [symmetric]] rs id base [unfolded add.assoc [symmetric]] base lb dg Let_def add.assoc)
  moreover have "pb_wf (pb_poke (b\<lparr>pb_data_size := ?t\<rparr>) 0 ?all)"
    "pb_bytes (pb_poke (b\<lparr>pb_data_size := ?t\<rparr>) 0 ?all) = take ?t ?all"
    using buffer_poke [OF b(1) la, of ?t] la lx length_pb_from_data [OF b(1)] by auto
  ultimately show thesis using that e2 ta by metis
qed

lemma udp_packet_sent:
  assumes pool: "pool_wf e" and n: "n = length (concat bufs)" and fits: "n \<le> max_udp_payload family m" "0 < max_udp_payload family m"
    and small: "ip_header_size family + 8 + n \<le> 65535" and fam: "family = 4 \<or> family = 6"
    and d: "d = uk_src_ip (us_key ses)" and addrs: "addr_len family \<le> length a" "addr_len family \<le> length d"
    and ip: "ip = \<lparr>pi_family = of_nat family, pi_protocol = ip_protocol_udp, pi_src_ip = info_of family a, pi_dst_ip = info_of family d\<rparr>"
  obtains pkt e' ip_id u where "udp_single_packet ses r family a bufs n m e = (Inr pkt, e')" "length (pb_bytes pkt) \<le> m"
    "pb_bytes pkt = ip_bytes family a d ip_protocol_udp (ip_header_size family + length u) ip_id @ u"
    "u = drop (ip_header_size family) (pb_bytes pkt)" "ip_header_size family + length u \<le> 65535"
    "classify (pb_bytes pkt) = Some (ip, u)"
    "\<And>eng. udp_on_packet ip u eng = udp_dispatch (make_udp_session_key (info_of family a) (htons (ep_port r)) (of_nat family)) (concat bufs)
        (make_udp_endpoint (of_nat family) (info_of family d) (uk_src_port (us_key ses))) eng"
proof -
  have m: "ip_header_size family + 8 + n \<le> m" using fits by (auto simp: max_udp_payload_def split: if_splits)
  obtain pkt e' ip_id where p: "udp_single_packet ses r family a bufs n m e = (Inr pkt, e')"
    and b: "pb_bytes pkt = ip_bytes family a d ip_protocol_udp (ip_header_size family + (8 + n)) ip_id @
      udp_bytes family a d (ep_port r) (ntohs (uk_src_port (us_key ses))) (concat bufs)"
    using udp_single_packet_bytes [OF pool n m fam addrs(1) addrs(2) [unfolded d]] d by metis
  let ?u = "udp_bytes family a d (ep_port r) (ntohs (uk_src_port (us_key ses))) (concat bufs)"
  have lh: "length (ip_bytes family a d ip_protocol_udp (ip_header_size family + (8 + n)) ip_id) = ip_header_size family"
    using addrs fam by simp
  have lu: "length ?u = 8 + n" using n by simp
  show thesis
  proof (rule that [OF p])
    show "classify (pb_bytes pkt) = Some (ip, ?u)"
      unfolding b lu [symmetric] ip
      by (rule classify_ip_bytes) (use addrs fam small n in \<open>simp_all add: v6_extension_def ip_protocol_udp_def\<close>)
    have un: "unat (of_nat family :: byte) = family" using fam by auto
    show "udp_on_packet ip ?u eng = udp_dispatch (make_udp_session_key (info_of family a) (htons (ep_port r)) (of_nat family)) (concat bufs)
        (make_udp_endpoint (of_nat family) (info_of family d) (uk_src_port (us_key ses))) eng" for eng
      using udp_bytes_accepted [of "concat bufs" ip a d "ep_port r" "ntohs (uk_src_port (us_key ses))" eng] small n un
        checksum_padded [OF addrs] by (simp add: ip_header_size_def ip)
    show "pb_bytes pkt = ip_bytes family a d ip_protocol_udp (ip_header_size family + length ?u) ip_id @ ?u" unfolding lu by (rule b)
    show "?u = drop (ip_header_size family) (pb_bytes pkt)" using b lh by simp
  qed (use b lh lu m small in simp_all)
qed

text \<open>
  A datagram that fits the MTU leaves as one packet of at most \<open>mtu\<close> bytes that an engine at the
  other end accepts: its validation takes the IP header (checksum, length, no fragment, no extension
  header) with the session's addresses and the UDP protocol, and its UDP engine dispatches exactly the
  user's bytes. For both address families and whatever the pool of reused buffers held before.
\<close>

theorem udp_packet_accepted:
  assumes pool: "pool_wf e" and n: "n = length (concat bufs)" and fits: "n \<le> max_udp_payload family m" "0 < max_udp_payload family m"
    and small: "ip_header_size family + 8 + n \<le> 65535" and fam: "family = 4 \<or> family = 6"
    and d: "d = uk_src_ip (us_key ses)" and addrs: "addr_len family \<le> length a" "addr_len family \<le> length d"
  shows "\<exists>pkt e' ip. udp_single_packet ses r family a bufs n m e = (Inr pkt, e') \<and> length (pb_bytes pkt) \<le> m \<and>
    classify (pb_bytes pkt) = Some (ip, drop (ip_header_size family) (pb_bytes pkt)) \<and>
    pi_protocol ip = ip_protocol_udp \<and> pi_src_ip ip = info_of family a \<and> pi_dst_ip ip = info_of family d \<and>
    udp_on_packet ip (drop (ip_header_size family) (pb_bytes pkt)) eng =
      udp_dispatch (make_udp_session_key (info_of family a) (htons (ep_port r)) (of_nat family)) (concat bufs)
        (make_udp_endpoint (of_nat family) (info_of family d) (uk_src_port (us_key ses))) eng"
proof -
  define ip where "ip = \<lparr>pi_family = of_nat family, pi_protocol = ip_protocol_udp, pi_src_ip = info_of family a, pi_dst_ip = info_of family d\<rparr>"
  obtain pkt e' ip_id u where "udp_single_packet ses r family a bufs n m e = (Inr pkt, e')" "length (pb_bytes pkt) \<le> m"
    "u = drop (ip_header_size family) (pb_bytes pkt)" "classify (pb_bytes pkt) = Some (ip, u)"
    "\<And>eng. udp_on_packet ip u eng = udp_dispatch (make_udp_session_key (info_of family a) (htons (ep_port r)) (of_nat family)) (concat bufs)
        (make_udp_endpoint (of_nat family) (info_of family d) (uk_src_port (us_key ses))) eng"
    using udp_packet_sent [OF assms ip_def, of r] by metis
  thus ?thesis by (intro exI [of _ pkt] exI [of _ e'] exI [of _ ip]) (simp add: ip_def)
qed

definition sample_to :: udp_session where
  "sample_to = \<lparr>us_key = make_udp_session_key ([10, 0, 0, 1] @ replicate 12 0) 5 4, us_closed = False, us_pending_accept = False,
     us_timeout = 1, us_expiry = 1, us_expiry_gen = 0, us_last_heap_push = 0, us_heap_live = False, us_rx_datagrams = [],
     us_rx_bytes = 0, us_pending_reads = []\<rparr>"

lemma sample_env_pool [simp]: "pool_wf sample_env"
  by (simp add: pool_wf_def sample_env_def env_new_def tun_queue_writer_new_def)

theorem udp_packet_accepted_witness:
  "\<exists>pkt e'. udp_single_packet sample_to \<lparr>ep_v6 = False, ep_addr = [10, 0, 0, 2], ep_port = 53\<rparr> 4 [10, 0, 0, 2] [[65], [66, 67]] 3 1500 sample_env =
     (Inr pkt, e') \<and> length (pb_bytes pkt) \<le> 1500"
proof -
  have "addr_len 4 \<le> length (uk_src_ip (us_key sample_to))" by (simp add: sample_to_def make_udp_session_key_def addr_len_def addr16_def)
  thus ?thesis
    using udp_packet_accepted [of sample_env 3 "[[65], [66, 67]]" 4 1500 "uk_src_ip (us_key sample_to)" sample_to "[10, 0, 0, 2]"
        "\<lparr>ep_v6 = False, ep_addr = [10, 0, 0, 2], ep_port = 53\<rparr>" "udp_engine_new default_config sample_env"]
    by (auto simp: max_udp_payload_def ip_header_size_def addr_len_def)
qed

section \<open>A datagram in fragments\<close>

text \<open>
  The receiver's side of RFC 791 for fragments that arrive in order: every header verifies, belongs to
  the datagram \<open>k\<close> (identification, addresses, protocol), gives the right length and the offset
  reached so far; all but the last announce more.
\<close>

fun reassemble :: "u16 \<times> u32 \<times> u32 \<times> byte \<Rightarrow> nat \<Rightarrow> byte list list \<Rightarrow> byte list option" where
  "reassemble k pos [] = None"
| "reassemble k pos (p # ps) =
     (let h = load_ipv4_header p; fo = ntohs (ip4_frag_off h)
      in if verify_ipv4_checksum p 20 \<noteq> 0 \<or> ip4_header_len h \<noteq> 20 \<or> unat (ntohs (ip4_total_len h)) \<noteq> length p \<or>
           (ip4_id h, ip4_src_ip h, ip4_dst_ip h, ip4_protocol h) \<noteq> k \<or> unat (fo AND 0x1fff) * 8 \<noteq> pos
         then None
         else if fo AND 0x2000 = 0 then (if ps = [] then Some (drop 20 p) else None)
         else map_option (\<lambda>rest. drop 20 p @ rest) (reassemble k (pos + (length p - 20)) ps))"

definition frag_header :: "byte list \<Rightarrow> byte list \<Rightarrow> u16 \<Rightarrow> bool \<Rightarrow> nat \<Rightarrow> nat \<Rightarrow> ipv4_header" where
  "frag_header s d ip_id last_frag off n =
     \<lparr>ip4_version_ihl = 0x45, ip4_tos = 0, ip4_total_len = htons (of_nat (20 + n)), ip4_id = htons ip_id,
      ip4_frag_off = htons ((if last_frag then 0 else 0x2000) OR of_nat (off div 8)), ip4_ttl = 64,
      ip4_protocol = ip_protocol_udp, ip4_checksum = 0, ip4_src_ip = ld32 s 0, ip4_dst_ip = ld32 d 0\<rparr>"

lemma frag_field:
  fixes x :: nat assumes "x < 8192"
  shows "((if l then 0 else 0x2000) OR of_nat x :: u16) AND 0x1fff = of_nat x"
    "((if l then 0 else 0x2000) OR of_nat x :: u16) AND 0x2000 = (if l then 0 else 0x2000)"
proof -
  have x: "take_bit 13 x = x" using assms by (simp add: take_bit_nat_eq_self)
  have m: "bit (0x1fff :: u16) i \<longleftrightarrow> i < 13" for i
    using bit_mask_iff [of 13 i, where 'a = u16] by (auto simp: mask_eq_exp_minus_1)
  have t: "bit (0x2000 :: u16) i \<longleftrightarrow> i = 13" for i
    using bit_exp_iff [of 13 i, where 'a = u16] by auto
  have b: "i < 13" if "bit (of_nat x :: u16) i" for i
  proof -
    have "bit (take_bit 13 x) i" using that x by (simp add: bit_of_nat_iff)
    thus ?thesis by (simp add: bit_take_bit_iff)
  qed
  show "((if l then 0 else 0x2000) OR of_nat x :: u16) AND 0x1fff = of_nat x"
    by (rule bit_eqI) (use b m t in \<open>auto simp only: bit_and_iff bit_or_iff bit_0_eq bot_fun_def bot_bool_def split: if_splits\<close>)
  show "((if l then 0 else 0x2000) OR of_nat x :: u16) AND 0x2000 = (if l then 0 else 0x2000)"
    by (rule bit_eqI) (use b m t in \<open>auto simp only: bit_and_iff bit_or_iff bit_0_eq bot_fun_def bot_bool_def split: if_splits\<close>)
qed

lemma frag_packet_bytes:
  assumes pool: "pool_wf e" and n: "n = frag_data m off dg" and fits: "20 + n \<le> m" and off: "off + n \<le> length dg"
  obtains f e' where "frag_packet m s d dg ip_id off e = (Inr f, e')" "pool_wf e'"
    "pb_bytes f = filled_ipv4 (frag_header s d ip_id (off + n \<ge> length dg) off n) @ subl off n dg"
proof -
  obtain b e1 where acq: "acquire (m + 64) 64 e = (Inr b, e1)" and b: "pb_wf b" "m + 64 \<le> pb_capacity b" "pb_headroom b = 64"
    and e1: "pool_wf e1"
    by (rule acquire_wf [OF pool, of 64 "m + 64"]) (use fits in auto)
  let ?h = "frag_header s d ip_id (off + n \<ge> length dg) off n" and ?x = "pb_from_data b"
  have rs: "pb_resize (20 + n) b = Inr (b\<lparr>pb_data_size := 20 + n\<rparr>)" using pb_resize_ok [OF b(1)] b fits by simp
  have lx: "20 + n \<le> length ?x" "length ?x = pb_capacity b - pb_headroom b" using length_pb_from_data [OF b(1)] b fits by simp_all
  have ls: "length (subl off n dg) = n" using off by simp
  let ?all = "filled_ipv4 ?h @ subl off n dg @ drop (20 + n) ?x"
  have fb: "blit (blit (blit ?x 0 (store_ipv4_header ?h)) 10 (st16 (htons (ipv4_checksum (blit ?x 0 (store_ipv4_header ?h)) 20)))) 20
      (subl off n dg) = ?all"
    using lx ls by (simp add: blit_front fill_ipv4 frag_header_def blit_at_end add.commute)
  have "frag_packet m s d dg ip_id off e = (Inr (pb_poke (b\<lparr>pb_data_size := 20 + n\<rparr>) 0 ?all), e1)"
    unfolding frag_packet_def n [symmetric] Let_def acq prod.case sum.case rs pb_from_data_size fb [unfolded frag_header_def] frag_header_def ..
  moreover have "length ?all = pb_capacity b - pb_headroom b" using lx ls by simp
  hence "pb_bytes (pb_poke (b\<lparr>pb_data_size := 20 + n\<rparr>) 0 ?all) = take (20 + n) ?all"
    using buffer_poke(1) [OF b(1)] lx by simp
  ultimately show thesis using that e1 ls by simp
qed

lemma reassemble_frag:
  assumes "20 + n \<le> 65535" "off < 65536" "8 dvd off" "length data = n"
  shows "reassemble (htons ip_id, ld32 s 0, ld32 d 0, ip_protocol_udp) off
      ((filled_ipv4 (frag_header s d ip_id l off n) @ data) # ps) =
    (if l then if ps = [] then Some data else None
     else map_option (\<lambda>rest. data @ rest) (reassemble (htons ip_id, ld32 s 0, ld32 d 0, ip_protocol_udp) (off + n) ps))"
proof -
  let ?h = "frag_header s d ip_id l off n"
  have x: "off div 8 < 8192" using assms(2) by simp
  have u: "unat (of_nat (off div 8) :: u16) * 8 = off"
    using x assms(3) by (simp add: unat_of_nat del: of_nat_div)
  have len: "unat (20 + of_nat n :: u16) = 20 + n" using assms(1) by (simp add: unat_word_ariths unat_of_nat)
  have v: "verify_ipv4_checksum (filled_ipv4 ?h @ data) 20 = 0" by (rule filled_ipv4_verifies) (simp add: frag_header_def)
  show ?thesis unfolding reassemble.simps(2) Let_def v filled_ipv4_load
    using u assms(4) frag_field [OF x]
    by (simp add: frag_header_def len ip4_header_len_def ip4_ihl_def del: of_nat_div)
qed

lemma frag_data_step:
  assumes "8 \<le> max_frag_payload m" "off < length dg" "8 dvd off"
  shows "0 < frag_data m off dg" "off + frag_data m off dg \<le> length dg" "20 + frag_data m off dg \<le> m"
    "off + frag_data m off dg < length dg \<Longrightarrow> 8 dvd off + frag_data m off dg"
proof -
  have mm: "8 dvd max_frag_payload m" "max_frag_payload m \<le> m - 20" "20 < m" using assms(1) by (auto simp: max_frag_payload_def split: if_splits)
  have ff: "8 dvd first_frag_data m" "8 + first_frag_data m \<le> max_frag_payload m"
    using assms(1) by (auto simp: first_frag_data_def)
  show "0 < frag_data m off dg" "off + frag_data m off dg \<le> length dg" "20 + frag_data m off dg \<le> m"
    using assms mm ff by (auto simp: frag_data_def Let_def)
  show "8 dvd off + frag_data m off dg" if "off + frag_data m off dg < length dg"
    using that assms mm ff by (auto simp: frag_data_def Let_def min_def dvd_add split: if_splits)
qed

lemma frag_loop_reassembles:
  assumes "pool_wf e" "8 \<le> max_frag_payload m" "off < length dg" "8 dvd off" "length dg \<le> 65535" "m \<le> 65535"
  shows "\<exists>fs e'. frag_loop m s d dg ip_id off acc e = (Inr (acc @ fs), e') \<and> pool_wf e' \<and>
    reassemble (htons ip_id, ld32 s 0, ld32 d 0, ip_protocol_udp) off (map pb_bytes fs) = Some (drop off dg) \<and>
    (\<forall>p\<in>set fs. length (pb_bytes p) \<le> m)"
  using assms
proof (induction "length dg - off" arbitrary: off acc e rule: less_induct)
  case less
  define n where "n = frag_data m off dg"
  note st = frag_data_step [OF less.prems(2-4), folded n_def]
  obtain f e1 where f: "frag_packet m s d dg ip_id off e = (Inr f, e1)" "pool_wf e1"
    "pb_bytes f = filled_ipv4 (frag_header s d ip_id (off + n \<ge> length dg) off n) @ subl off n dg"
    using frag_packet_bytes [OF less.prems(1) n_def st(3) st(2)] by blast
  have step: "frag_loop m s d dg ip_id off acc e = frag_loop m s d dg ip_id (off + n) (acc @ [f]) e1"
    using less.prems f by (subst frag_loop.simps) (simp add: n_def)
  have ln: "length (subl off n dg) = n" using st by simp
  have r: "reassemble (htons ip_id, ld32 s 0, ld32 d 0, ip_protocol_udp) off (pb_bytes f # ps) =
    (if off + n \<ge> length dg then if ps = [] then Some (subl off n dg) else None
     else map_option (\<lambda>rest. subl off n dg @ rest) (reassemble (htons ip_id, ld32 s 0, ld32 d 0, ip_protocol_udp) (off + n) ps))" for ps
    unfolding f(3) by (rule reassemble_frag) (use less.prems st ln in auto)
  have lf: "length (pb_bytes f) \<le> m" using f(3) ln st by simp
  show ?case
  proof (cases "off + n < length dg")
    case False
    moreover from this have "subl off n dg = drop off dg" using st by (simp add: subl_def)
    moreover have "frag_loop m s d dg ip_id (off + n) (acc @ [f]) e1 = (Inr (acc @ [f]), e1)"
      using False by (subst frag_loop.simps) simp
    ultimately show ?thesis using step r [of "[]"] f(2) lf by (intro exI [of _ "[f]"] exI [of _ e1]) simp
  next
    case True
    then obtain fs e' where "frag_loop m s d dg ip_id (off + n) (acc @ [f]) e1 = (Inr ((acc @ [f]) @ fs), e')" "pool_wf e'"
      "reassemble (htons ip_id, ld32 s 0, ld32 d 0, ip_protocol_udp) (off + n) (map pb_bytes fs) = Some (drop (off + n) dg)"
      "\<forall>p\<in>set fs. length (pb_bytes p) \<le> m"
      using less.hyps [of "off + n" e1 "acc @ [f]"] f(2) st less.prems by fastforce
    moreover have "subl off n dg @ drop (off + n) dg = drop off dg"
      using append_take_drop_id [of n "drop off dg"] by (simp add: subl_def add.commute)
    ultimately show ?thesis using step r [of "map pb_bytes fs"] True lf by (intro exI [of _ "f # fs"] exI [of _ e']) simp
  qed
qed

text \<open>
  C24. A datagram too long for the MTU leaves as IPv4 fragments of at most \<open>mtu\<close> bytes that a
  receiver reassembles to exactly that datagram: the offsets are contiguous multiples of eight, every
  fragment but the last has more-fragments set and only the last has it clear, all share one
  identification, and every header checksum verifies. Holds for every MTU that can carry a fragment.
\<close>

theorem udp_fragments_reassemble:
  assumes "pool_wf e" "sizeof_udp_header \<le> max_frag_payload m" "m \<le> 65535" "sizeof_udp_header \<le> length dg" "length dg \<le> 65535"
  shows "\<exists>frags e'. frag_loop m s d dg ip_id 0 [] e = (Inr frags, e') \<and>
    reassemble (htons ip_id, ld32 s 0, ld32 d 0, ip_protocol_udp) 0 (map pb_bytes frags) = Some dg \<and>
    (\<forall>p\<in>set frags. length (pb_bytes p) \<le> m)"
  using frag_loop_reassembles [of e m 0 dg s d ip_id "[]"] assms by (cases dg) auto

theorem udp_fragments_reassemble_witness:
  "\<exists>frags e'. frag_loop 40 [10, 0, 0, 1] [10, 0, 0, 2] (replicate 50 7) 9 0 [] sample_env = (Inr frags, e') \<and>
    reassemble (htons 9, ld32 [10, 0, 0, 1] 0, ld32 [10, 0, 0, 2] 0, ip_protocol_udp) 0 (map pb_bytes frags) = Some (replicate 50 7)"
  using udp_fragments_reassemble [of sample_env 40 "replicate 50 7" "[10, 0, 0, 1]" "[10, 0, 0, 2]" 9]
  by (fastforce simp: max_frag_payload_def)

end
