(* ===== verification/Engine_Frame.thy ===== *)
theory Engine_Frame
  imports Tcp_System Udp_System
begin

text \<open>
  The TCP and the UDP engine share one environment (statistics, accountant, writer, posted
  completions). This theory shows that they do not disturb each other: no operation of the TCP engine
  touches what the UDP engine's invariant and ledger speak of (\<open>udp_side\<close>), and no operation of the
  UDP engine or of the writer touches what the TCP engine's do (\<open>tcp_side\<close>).
\<close>

section \<open>The TCP engine leaves the UDP side alone\<close>

definition udp_side :: "env \<Rightarrow> u64 \<times> udp_tok multiset \<times> int" where
  "udp_side e = (udp_sessions (e_stats e), udp_posted e, e_now e)"

lemma quiet_env_side: "quiet_env e e' \<longleftrightarrow> udp_side e' = udp_side e"
  by (auto simp: quiet_env_def udp_side_def)

lemma env_sends_side: "env_sends e e' \<Longrightarrow> udp_side e' = udp_side e"
  by (simp add: env_sends_def udp_side_def udp_posted_def)

lemma sends_side: "sends s s' \<Longrightarrow> udp_side (cenv s') = udp_side (cenv s)"
  by (simp add: sends_def env_sends_side)

lemmas side_sends [simp] =
  send_segment_sends [THEN sends_side] send_ack_sends [THEN sends_side] notify_window_updated_sends [THEN sends_side]
  flush_pending_ack_sends [THEN sends_side] retransmit_unacked_sends [THEN sends_side]
  build_segment_sends [THEN sends_side]

lemma side_prims [simp]:
  "udp_side (e\<lparr>e_account := a\<rparr>) = udp_side e" "udp_side (add_rx_dropped e) = udp_side e"
  "udp_tok_of c = {#} \<Longrightarrow> udp_side (post_completion_on c e) = udp_side e"
  "udp_tok_of c = {#} \<Longrightarrow> udp_side (e\<lparr>e_posted := e_posted e @ [c]\<rparr>) = udp_side e"
  "udp_tok_of c = {#} \<Longrightarrow> udp_side (e\<lparr>e_account := a, e_posted := e_posted e @ [c]\<rparr>) = udp_side e"
  "udp_side (e\<lparr>e_stats := (e_stats e)\<lparr>rx_ooo := n\<rparr>\<rparr>) = udp_side e"
  "udp_side (e\<lparr>e_stats := (e_stats e)\<lparr>tcp_connections := m\<rparr>\<rparr>) = udp_side e"
  by (simp_all add: udp_side_def udp_posted_def add_rx_dropped_def post_completion_on_def)

lemma side_async_write [simp]: "udp_side (async_write p h e) = udp_side e"
  using quiet_async_write(1) [of e p h e] quiet_env_refl [of e] by (simp only: quiet_env_side)

lemma side_ctx [simp]:
  "udp_side (cenv (account_release n s)) = udp_side (cenv s)" "udp_side (cenv (snd (account_reserve n s))) = udp_side (cenv s)"
  "udp_tok_of c = {#} \<Longrightarrow> udp_side (cenv (post_ctx c s)) = udp_side (cenv s)"
  "udp_side (cenv (rx_dropped_inc s)) = udp_side (cenv s)" "udp_side (cenv (rx_ooo_inc s)) = udp_side (cenv s)"
  "udp_side (cenv (tcp_connections_add d s)) = udp_side (cenv s)"
  "udp_side (cenv (signal_write s)) = udp_side (cenv s)" "udp_side (cenv (close_write_ch s)) = udp_side (cenv s)"
  "udp_side (cenv (note_data_ack s)) = udp_side (cenv s)" "udp_side (cenv (on_ack_timer s)) = udp_side (cenv s)"
  "udp_side (cenv (mark_fin q s)) = udp_side (cenv s)" "udp_side (cenv (set_coro c' s)) = udp_side (cenv s)"
  "udp_side (cenv (suspend p t c'' s)) = udp_side (cenv s)"
  by (simp_all add: account_release_def account_reserve_def post_ctx_def rx_dropped_inc_def rx_ooo_inc_def tcp_connections_add_def
      signal_write_def close_write_ch_def note_data_ack_def on_ack_timer_def mark_fin_def set_coro_def suspend_def Let_def split: prod.splits)

lemma side_reserve: "account_reserve n s = (ok, s') \<Longrightarrow> udp_side (cenv s') = udp_side (cenv s)"
  using side_ctx(2) [of n s] by simp

subsection \<open>Receiving\<close>

lemma side_read [simp]:
  "udp_side (cenv (flush_read_data s)) = udp_side (cenv s)" "udp_side (cenv (compact_rx s)) = udp_side (cenv s)"
  "udp_side (cenv (flush_eof s)) = udp_side (cenv s)"
  by (simp_all add: flush_read_data_def compact_rx_def flush_eof_def Let_def split: option.splits prod.splits)

lemma side_deliver [simp]:
  "udp_side (cenv (flush_reads s)) = udp_side (cenv s)" "udp_side (cenv (direct_take op d s)) = udp_side (cenv s)"
  "udp_side (cenv (deliver_direct op d s)) = udp_side (cenv s)" "udp_side (cenv (deliver_queued d s)) = udp_side (cenv s)"
  by (simp_all add: flush_reads_def direct_take_def deliver_direct_def deliver_queued_def Let_def)

lemma side_deliver_data [simp]: "udp_side (cenv (deliver_data d s)) = udp_side (cenv s)"
  by (simp add: deliver_data_def Let_def split: prod.splits option.splits list.splits) (auto dest: side_reserve)

lemma side_fin [simp]:
  "udp_side (cenv (fin_state s)) = udp_side (cenv s)" "udp_side (cenv (handle_fin q s)) = udp_side (cenv s)"
  by (simp_all add: fin_state_def handle_fin_def Let_def split: tcp_state.splits)

lemma side_ooo [simp]:
  "udp_side (cenv (prune_fin k g s)) = udp_side (cenv s)" "udp_side (cenv (uncache k n s)) = udp_side (cenv s)"
  "udp_side (cenv (ooo_take k g s)) = udp_side (cenv s)"
  by (simp_all add: prune_fin_def uncache_def ooo_take_def Let_def)

lemma side_flush_prune [simp]: "udp_side (cenv (snd (snd (flush_prune k p s)))) = udp_side (cenv s)"
  by (induction k p s rule: flush_prune.induct) (simp_all add: flush_prune.simps split: option.splits)

lemma side_flush_drain [simp]: "udp_side (cenv (snd (snd (flush_drain d s)))) = udp_side (cenv s)"
  by (induction d s rule: flush_drain.induct)
    (subst flush_drain.simps, auto simp: Let_def split: option.splits prod.splits)

lemma side_flush_ooo [simp]: "udp_side (cenv (flush_ooo s)) = udp_side (cenv s)"
proof -
  obtain r p s1 where a: "flush_prune (om_begin (ooo_cache (cf s))) False s = (r, p, s1)" by (metis prod_cases3)
  obtain r' d s2 where b: "flush_drain False (upf (\<lambda>f. f\<lparr>ooo_count := length (ooo_cache f)\<rparr>) s1) = (r', d, s2)" by (metis prod_cases3)
  have "udp_side (cenv s1) = udp_side (cenv s)" "udp_side (cenv s2) = udp_side (cenv s1)"
    using side_flush_prune [of "om_begin (ooo_cache (cf s))" False s] side_flush_drain [of False "upf (\<lambda>f. f\<lparr>ooo_count := length (ooo_cache f)\<rparr>) s1"] a b
    by simp_all
  thus ?thesis by (simp add: flush_ooo_def Let_def a b)
qed

lemma side_ooo_append [simp]: "udp_side (cenv (snd (ooo_append q d f s))) = udp_side (cenv s)"
proof -
  have fin: "udp_side (cenv (snd (ooo_append_fin q s))) = udp_side (cenv s)"
    by (simp add: ooo_append_fin_def Let_def split: fin_scan.splits)
  obtain ok s1 where r: "account_reserve (size_sub (length d) (sc_overlap (ooo_scan_all q (length d) (ooo_cache (cf s))))) s = (ok, s1)"
    by fastforce
  show ?thesis using side_reserve [OF r]
    by (simp add: ooo_append_def Let_def r fin del: side_ctx(2) split: option.splits)
qed

lemma side_ooo_result [simp]:
  "udp_side (cenv (case ooo_append q d fl s of (ok, s) \<Rightarrow> if ok then rx_ooo_inc s else send_ack s)) = udp_side (cenv s)"
  using side_ooo_append [of q d fl s] by (cases "ooo_append q d fl s") simp

lemma side_handle_data [simp]: "udp_side (cenv (handle_data q d f s)) = udp_side (cenv s)"
  by (simp add: handle_data_def Let_def)

lemma side_segment [simp]:
  "udp_side (cenv (segment_payload q d f s)) = udp_side (cenv s)" "udp_side (cenv (segment_established q d f s)) = udp_side (cenv s)"
  by (simp_all add: segment_payload_def segment_established_def segment_fin_def Let_def)

subsection \<open>Connection control\<close>

lemma side_close [simp]:
  "udp_side (cenv (drop_rx s)) = udp_side (cenv s)" "udp_side (cenv (post_read r ec s)) = udp_side (cenv s)"
  "udp_side (cenv (post_write w ec s)) = udp_side (cenv s)" "udp_side (cenv (unlist_pending s)) = udp_side (cenv s)"
  "udp_side (cenv (erase_flow s)) = udp_side (cenv s)" "udp_side (cenv (uncount_flow s)) = udp_side (cenv s)"
  by (simp_all add: drop_rx_def post_read_def post_write_def unlist_pending_def erase_flow_def uncount_flow_def on_eng_def Let_def split: option.splits)

lemma side_abort [simp]:
  "udp_side (cenv (close_flow ec s)) = udp_side (cenv s)" "udp_side (cenv (abort_flow s)) = udp_side (cenv s)"
  "udp_side (cenv (reject_flow s)) = udp_side (cenv s)"
  by (simp_all add: close_flow_def abort_flow_def reject_flow_def Let_def)

lemma side_conn [simp]:
  "udp_side (cenv (emit_fin st s)) = udp_side (cenv s)" "udp_side (cenv (send_fin s)) = udp_side (cenv s)"
  "udp_side (cenv (accept_flow s)) = udp_side (cenv s)" "udp_side (cenv (notify_accept s)) = udp_side (cenv s)"
  by (simp_all add: emit_fin_def send_fin_def accept_flow_def notify_accept_def on_eng_def Let_def split: tcp_state.splits list.splits)

lemma side_handle_ack [simp]: "udp_side (cenv (snd (handle_ack a s))) = udp_side (cenv s)"
  by (simp add: handle_ack_def Let_def)

lemma side_handle_segment [simp]: "udp_side (cenv (handle_segment th d s)) = udp_side (cenv s)"
proof -
  have "udp_side (cenv (handshake_done s)) = udp_side (cenv s)" for s by (simp add: handshake_done_def Let_def)
  hence st: "udp_side (cenv (segment_state q a f d s)) = udp_side (cenv s)" for q a f s by (simp add: segment_state_def)
  obtain go s1 where a: "handle_ack (ntohl (th_ack th)) s = (go, s1)" by fastforce
  have "udp_side (cenv s1) = udp_side (cenv s)" using side_handle_ack [of "ntohl (th_ack th)" s] a by simp
  thus ?thesis by (simp add: handle_segment_def Let_def a st)
qed

lemma side_entries [simp]:
  "udp_side (cenv (read_entry bs n h s)) = udp_side (cenv s)" "udp_side (cenv (write_entry ds n h s)) = udp_side (cenv s)"
  "udp_side (cenv (shutdown_send_entry s)) = udp_side (cenv s)" "udp_side (cenv (shutdown_receive_entry s)) = udp_side (cenv s)"
  "udp_side (cenv (close_entry s)) = udp_side (cenv s)" "udp_side (cenv (reset_entry s)) = udp_side (cenv s)"
  "udp_side (cenv (sweep_flow s)) = udp_side (cenv s)"
  by (simp_all add: read_entry_def write_entry_def shutdown_send_entry_def shutdown_receive_entry_def close_entry_def reset_entry_def
      sweep_flow_def Let_def)

lemma side_syn_data [simp]: "udp_side (cenv (syn_data d s)) = udp_side (cenv s)"
  by (auto simp: syn_data_def Let_def split: prod.splits dest: side_reserve)

subsection \<open>The send coroutine\<close>

lemma side_build_next: "build_next_segment w op s = (r, s') \<Longrightarrow> udp_side (cenv s') = udp_side (cenv s)"
proof -
  assume b: "build_next_segment w op s = (r, s')"
  define s1 where "s1 = upf (\<lambda>f. f\<lparr>active_write := Some (op_seek op)\<rparr>) s"
  obtain x s2 where c: "build_segment (snd_nxt (cf s1)) (TCP_ACK OR TCP_PSH) (next_chunk w (op_seek op) s1) False s1 = (x, s2)" by fastforce
  have "sends s1 s2"
    using build_segment_sends [of s1 "snd_nxt (cf s1)" "TCP_ACK OR TCP_PSH" "next_chunk w (op_seek op) s1" False] c by simp
  hence "udp_side (cenv s2) = udp_side (cenv s1)" by (rule sends_side)
  moreover have "cenv s1 = cenv s" by (simp add: s1_def)
  ultimately have "udp_side (cenv s2) = udp_side (cenv s)" "udp_side (cenv s1) = udp_side (cenv s)" by simp_all
  thus ?thesis using b unfolding build_next_segment_def Let_def s1_def [symmetric] c prod.case
    by (auto split: if_splits sum.splits)
qed

lemma side_wl [simp]:
  "udp_side (cenv (wl_exit s)) = udp_side (cenv s)" "udp_side (cenv (send_window_probe op s)) = udp_side (cenv s)"
  "udp_side (cenv (wl_wait_ack c s)) = udp_side (cenv s)" "udp_side (cenv (rto_retransmit s)) = udp_side (cenv s)"
  by (simp_all add: wl_exit_def send_window_probe_def wl_wait_ack_def rto_retransmit_def Let_def split: option.splits)

lemma side_wl_send [simp]: "udp_side (cenv (wl_send w op c s)) = udp_side (cenv s)"
  by (auto simp: wl_send_def Let_def split: prod.splits sum.splits option.splits dest: side_build_next)

lemma side_wl_iter: "(\<And>c s. udp_side (cenv (again c s)) = udp_side (cenv s)) \<Longrightarrow> udp_side (cenv (wl_iter again c s)) = udp_side (cenv s)"
  by (simp add: wl_iter_def Let_def split: option.splits)

lemma side_wl_head [simp]: "udp_side (cenv (wl_head c s)) = udp_side (cenv s)"
  unfolding wl_head_def by (intro side_wl_iter side_wl(3))

lemma side_write_loop [simp]:
  "udp_side (cenv (write_loop_step s)) = udp_side (cenv s)" "udp_side (cenv (coro_timer s)) = udp_side (cenv s)"
  "udp_side (cenv (coro_device ec s)) = udp_side (cenv s)"
  by (simp_all add: write_loop_step_def wl_begin_def wl_persist_def persist_probe_def wl_device_done_def wl_ack_or_rto_def wl_reset_def
      coro_timer_def coro_device_def Let_def split: option.splits wl_point.splits wl_resume.splits)

subsection \<open>The engine\<close>

lemma side_with_flow: "(\<And>s. udp_side (cenv (g s)) = udp_side (cenv s)) \<Longrightarrow> udp_side (te_env (with_flow i g eng)) = udp_side (te_env eng)"
  by (simp add: with_flow_def Let_def)

lemma side_fold_flows:
  "(\<And>s. udp_side (cenv (g s)) = udp_side (cenv s)) \<Longrightarrow> udp_side (te_env (fold (\<lambda>i. with_flow i g) is eng)) = udp_side (te_env eng)"
  by (induction "is" arbitrary: eng) (simp_all add: side_with_flow)

lemma side_on_packet [simp]: "udp_side (te_env (on_packet w ip p eng)) = udp_side (te_env eng)"
proof -
  have "udp_side (te_env (create_flow w k th p h e)) = udp_side (te_env e)" for k th h e
    by (simp add: create_flow_def Let_def side_with_flow)
  thus ?thesis
    by (simp add: on_packet_def Let_def eng_drop_def side_with_flow split: option.splits)
qed

lemma side_cancel_accepts [simp]: "udp_side (te_env (cancel_accepts eng)) = udp_side (te_env eng)"
proof -
  have "udp_side (te_env (fold (\<lambda>h. eng_post (Done_tcp_accept h ec None)) hs e)) = udp_side (te_env e)" for hs ec e
    by (induction hs arbitrary: e) (simp_all add: eng_post_def)
  thus ?thesis by (simp add: cancel_accepts_def)
qed

lemma side_close_all [simp]: "udp_side (te_env (close_all eng)) = udp_side (te_env eng)"
  by (simp add: close_all_def Let_def side_fold_flows)

text \<open>Every event of the TCP engine but the passing of time.\<close>

lemma side_tcp_step:
  assumes "\<And>t. ev \<noteq> Ev_time t" shows "udp_side (te_env (tcp_step ev eng)) = udp_side (te_env eng)"
proof -
  have w: "udp_side (on_write_done ec n q e) = udp_side e" for ec n q e
    using quiet_on_write_done [of e ec n q e] by (simp add: quiet_env_side)
  have f: "udp_side (te_env (on_flow g f eng)) = udp_side (te_env eng)" if "\<And>s. udp_side (cenv (g s)) = udp_side (cenv s)" for g f
    using that by (simp add: on_flow_def side_with_flow split: option.splits)
  have a: "udp_side (te_env (async_accept h eng)) = udp_side (te_env eng)" for h
    by (auto simp: async_accept_def eng_post_def Let_def split: prod.splits option.splits)
  have r: "udp_side (te_env (tcp_flow_start_read fl bs n h eng)) = udp_side (te_env eng)"
    "udp_side (te_env (tcp_flow_start_write fl ds n h eng)) = udp_side (te_env eng)" for fl bs ds n h
    by (simp_all add: tcp_flow_start_read_def tcp_flow_start_write_def eng_post_def side_with_flow split: option.splits)
  show ?thesis
    by (cases ev) (use assms in \<open>simp_all add: w f a r side_with_flow side_fold_flows set_env_def on_sweep_def start_sweep_def Let_def
      tcp_flow_shutdown_send_def tcp_flow_shutdown_receive_def tcp_flow_close_def tcp_flow_reset_def tcp_flow_accept_def tcp_flow_reject_def\<close>)
qed

section \<open>The UDP engine and the writer leave the TCP side alone\<close>

definition tcp_side :: "env \<Rightarrow> u64 \<times> tok multiset \<times> nat list" where
  "tcp_side e = (tcp_connections (e_stats e), posted_toks e, handed e)"

lemma tside_prims [simp]:
  "tcp_side (set_lane q st e) = tcp_side e" "tcp_side (set_queued_total n e) = tcp_side e"
  "tcp_side (add_tx_dropped e) = tcp_side e" "tcp_side (add_tx_packets e) = tcp_side e" "tcp_side (add_rx_dropped e) = tcp_side e"
  "tcp_side (recycle b e) = tcp_side e" "tcp_side (start_write q e) = tcp_side e" "tcp_side (post_dev h ec n e) = tcp_side e"
  "tcp_side (snd (acquire c hr e)) = tcp_side e" "tcp_side (snd (alloc_ip_id e)) = tcp_side e"
  "tok_of c' = {#} \<Longrightarrow> tcp_side (post_completion_on c' e) = tcp_side e"
  "tcp_side (set_account a e) = tcp_side e" "tcp_side (add_udp_sessions k e) = tcp_side e" "tcp_side (e\<lparr>e_now := t\<rparr>) = tcp_side e"
  "tcp_side (e\<lparr>e_account := a\<rparr>) = tcp_side e"
  by (simp_all add: tcp_side_def posted_toks_def flow_of_tok set_lane_def set_queued_total_def add_tx_dropped_def add_tx_packets_def add_rx_dropped_def recycle_def
      start_write_def post_dev_def post_completion_on_def alloc_ip_id_def set_account_def add_udp_sessions_def Let_def split: option.splits)

lemma tside_writer [simp]:
  "tcp_side (pump q e) = tcp_side e" "tcp_side (enqueue b h e) = tcp_side e"
  "tcp_side (async_write p h' e) = tcp_side e" "tcp_side (async_write_and_forget p e) = tcp_side e"
  "tcp_side (on_write_done ec n q e) = tcp_side e"
proof -
  show pump: "tcp_side (pump q e) = tcp_side e" for q e by (simp add: pump_def Let_def split: option.splits list.splits)
  show "tcp_side (enqueue b h e) = tcp_side e" by (simp add: enqueue_def Let_def pump)
  show "tcp_side (async_write p h' e) = tcp_side e" "tcp_side (async_write_and_forget p e) = tcp_side e"
    by (simp_all add: async_write_def async_write_and_forget_def enqueue_def Let_def pump)
  show "tcp_side (on_write_done ec n q e) = tcp_side e"
    by (simp add: on_write_done_def Let_def pump split: option.splits)
qed

lemma tside_cancel_all [simp]: "tcp_side (cancel_all e) = tcp_side e"
proof -
  have "tcp_side (cancel_entries xs e) = tcp_side e" for xs e by (induction xs e rule: cancel_entries.induct) simp_all
  hence "tcp_side (cancel_lanes qs e) = tcp_side e" for qs e by (induction qs e rule: cancel_lanes.induct) (simp_all add: Let_def)
  thus ?thesis by (simp add: cancel_all_def Let_def) (simp add: tcp_side_def posted_toks_def)
qed

lemma side_cancel_all [simp]: "udp_side (cancel_all e) = udp_side e"
proof -
  have p: "udp_side (post_dev h ec n e) = udp_side e" "udp_side (recycle b e) = udp_side e" "udp_side (add_tx_dropped e) = udp_side e"
    "udp_side (set_queued_total k e) = udp_side e" "udp_side (set_lane q st e) = udp_side e" for h ec n b k q st e
    using quiet_prims [of e] by (simp_all flip: quiet_env_side)
  have "udp_side (cancel_entries xs e) = udp_side e" for xs e by (induction xs e rule: cancel_entries.induct) (simp_all add: p)
  hence "udp_side (cancel_lanes qs e) = udp_side e" for qs e by (induction qs e rule: cancel_lanes.induct) (simp_all add: Let_def p)
  thus ?thesis by (simp add: cancel_all_def Let_def) (simp add: udp_side_def udp_posted_def)
qed

abbreviation ut :: "udp_engine \<Rightarrow> u64 \<times> tok multiset \<times> nat list" where
  "ut eng \<equiv> tcp_side (ue_env eng)"

lemma tside_env [simp]: "ut (ue_on_env g eng) = tcp_side (g (ue_env eng))" "ut (us_upd i h eng) = ut eng"
  by (simp_all add: ue_on_env_def us_upd_def)

lemma tside_timer [simp]:
  "ut (cancel_wait eng) = ut eng" "ut (arm_wait t eng) = ut eng" "ut (arm_expiry_timer eng) = ut eng"
  "ut (push_expiry i eng) = ut eng" "ut (refresh_expiry i eng) = ut eng"
  by (simp_all add: cancel_wait_def arm_wait_def arm_expiry_timer_def push_expiry_def refresh_expiry_def Let_def split: option.splits prod.splits list.splits)

lemma tside_abort_reads [simp]: "ut (abort_reads rs eng) = ut eng"
  unfolding abort_reads_def by (induction rs arbitrary: eng) simp_all

lemma tside_remove [simp]: "ut (remove_session i eng) = ut eng"
  by (simp add: remove_session_def Let_def)

lemma tside_expire_loop: "expire_loop now xs ks eng = (ks', eng') \<Longrightarrow> ut eng' = ut eng"
  by (induction now xs ks eng rule: expire_loop.induct) (auto simp: Let_def split: if_splits)

lemma tside_fold_refresh [simp]: "ut (fold refresh_expiry is eng) = ut eng"
  by (induction "is" arbitrary: eng) simp_all

lemma tside_on_timer [simp]: "ut (on_expiry_timer ec eng) = ut eng"
  by (auto simp: on_expiry_timer_def Let_def split: prod.splits dest!: tside_expire_loop)

lemma tside_packets [simp]:
  "ut (deliver_datagram i d p eng) = ut eng" "ut (new_session k eng) = ut eng" "ut (notify_session i eng) = ut eng"
  by (auto simp: deliver_datagram_def new_session_def notify_session_def Let_def split: list.splits prod.splits)

lemma tside_on_packet [simp]: "ut (udp_on_packet ip p eng) = ut eng"
  by (simp add: udp_on_packet_def udp_dispatch_def create_session_def Let_def split: option.splits)

lemma tside_close [simp]: "ut (udp_cancel_accepts eng) = ut eng" "ut (udp_close_all eng) = ut eng"
proof -
  have f: "ut (fold (\<lambda>h. ue_post (Done_udp_accept h ec None)) hs e) = ut e" for hs ec e by (induction hs arbitrary: e) simp_all
  have r: "ut (fold remove_session is e) = ut e" for "is" e by (induction "is" arbitrary: e) simp_all
  show c: "ut (udp_cancel_accepts eng) = ut eng" for eng by (simp add: udp_cancel_accepts_def f)
  show "ut (udp_close_all eng) = ut eng" by (simp add: udp_close_all_def Let_def c r)
qed

lemma tside_send [simp]: "ut (snd (udp_session_start_send f r bs n h eng)) = ut eng"
proof -
  have frag: "tcp_side (snd (frag_packet m s d dg ip_id off e)) = tcp_side e" for m s d dg ip_id off e
    using tside_prims(9) [of "m + 64" 64 e] by (cases "acquire (m + 64) 64 e") (auto simp: frag_packet_def Let_def split: sum.splits)
  have loop: "tcp_side (snd (frag_loop m s d dg ip_id off fs e)) = tcp_side e" for m s d dg ip_id off fs e
  proof (induction m s d dg ip_id off fs e rule: frag_loop.induct)
    case (1 m s d dg ip_id off fs e)
    obtain r y where f: "frag_packet m s d dg ip_id off e = (r, y)" by fastforce
    have y: "tcp_side y = tcp_side e" using frag [of m s d dg ip_id off e] f by simp
    show ?case by (subst frag_loop.simps) (use 1 [OF _ f [symmetric]] f y in \<open>auto split: sum.splits\<close>)
  qed
  have fold: "ut (fold (\<lambda>b. ue_on_env (async_write b cb)) bs e) = ut e" for cb bs e by (induction bs arbitrary: e) simp_all
  have frags: "ut (snd (udp_write_ipv4_fragments s d dg h n e)) = ut e" for s d dg h n e
  proof -
    obtain i e1 where a: "alloc_ip_id (ue_env e) = (i, e1)" by fastforce
    obtain r e2 where l: "frag_loop (ue_mtu e) s d dg i 0 [] e1 = (r, e2)" by fastforce
    have "tcp_side e2 = ut e" using loop [of "ue_mtu e" s d dg i 0 "[]" e1] tside_prims(10) [of "ue_env e"] l a by simp
    thus ?thesis by (auto simp: udp_write_ipv4_fragments_def Let_def a l fold udp_done_def split: sum.splits)
  qed
  have single: "ut (snd (udp_send_single x r fam a bs n h e)) = ut e" for x fam a e
  proof -
    obtain b y where acq: "acquire (ue_mtu e + 64) 64 (ue_env e) = (b, y)" by fastforce
    obtain i z where id: "alloc_ip_id y = (i, z)" by fastforce
    have "tcp_side y = ut e" "tcp_side z = tcp_side y"
      using tside_prims(9) [of "ue_mtu e + 64" 64 "ue_env e"] tside_prims(10) [of y] acq id by simp_all
    thus ?thesis by (auto simp: udp_send_single_def udp_single_packet_def acq id Let_def split: sum.splits)
  qed
  show ?thesis
    by (auto simp: udp_session_start_send_def send_entry_def udp_send_fragmented_def Let_def single frags split: option.splits sum.splits prod.splits)
qed

lemma tside_written [simp]: "ut (udp_dev_done cb ec eng) = ut eng"
  by (simp add: udp_dev_done_def on_frag_def udp_done_def Let_def split: write_cb.splits)

lemma tside_receive [simp]: "ut (udp_session_start_receive f bs n h eng) = ut eng"
proof -
  have "udp_pop_queued_datagram i bs n h eng = (b, e') \<Longrightarrow> ut e' = ut eng" for i b e'
    by (auto simp: udp_pop_queued_datagram_def Let_def split: list.splits prod.splits)
  thus ?thesis by (auto simp: udp_session_start_receive_def Let_def split: option.splits prod.splits)
qed

lemma tside_udp_step: "ut (udp_step ev eng) = ut eng"
proof -
  have "ut (udp_async_accept h eng) = ut eng" for h
    by (auto simp: udp_async_accept_def Let_def split: prod.splits option.splits)
  thus ?thesis
    by (cases ev) (simp_all add: fire_wait_def deliver_cancelled_def expiry_wait_done_def udp_session_set_timeout_def udp_session_close_def
        split: option.splits prod.splits)
qed

end
