(* ===== verification/Tunio_Core.thy ===== *)
theory Tunio_Core
  imports Engine_Frame Ip_Input
begin

text \<open>
  \<^verbatim>\<open>tunio_impl\<close> (\<^verbatim>\<open>src/tunio.cpp\<close>,
  \<^verbatim>\<open>include/tunio/detail/tunio_impl.hpp\<close>), which owns the device, the writer and the two
  engines: opening, closing and reopening with their epochs, the pump that keeps one read outstanding
  per slot, the dispatch of packets and the ICMP echo replies. The engines run in the one environment
  \<open>ti_env\<close>. The device and the address parser are outside: what opening the device answers and what a
  string parses to are arguments, reads handed to the device are listed in \<open>ti_reads\<close> until it
  completes them.
\<close>

section \<open>State\<close>

text \<open>The rest of \<^verbatim>\<open>tun_config\<close>: network settings and injected handles.\<close>

record open_config = tun_config +
  dev_name :: string
  ipv4_addr :: string
  netmask :: string
  ipv6_addr :: string
  ipv6_prefix_len :: byte
  num_queues :: nat
  external_handle :: int
  external_mtu :: nat
  external_handles :: "int list"
  utun_prefix :: bool

definition invalid_native_handle :: int where "invalid_native_handle = - 1"

datatype dev_call =
    Assign_queues "int list" nat bool
  | Assign int nat bool
  | Open_device string string string string byte nat nat

record dev_info =
  di_mtu :: nat
  di_queue_count :: nat
  di_read_size_hint :: nat

text \<open>
  Work dispatched to the strand. The engine a closure has captured is named by its generation, the
  number of engine pairs made so far.
\<close>

datatype strand_task =
    Task_close u64 "nat option"
  | Task_accept_tcp u64 nat
  | Task_accept_udp u64 nat
  | Task_cancel_tcp "nat option"
  | Task_cancel_udp "nat option"

record tunio_impl =
  ti_open :: bool
  ti_epoch :: u64
  ti_local_ip4 :: "byte list option"
  ti_local_ip6 :: "byte list option"
  ti_local_ip :: "byte list option"
  ti_mtu :: nat
  ti_dev_open :: bool
  ti_gen :: nat
  ti_tcp :: "tcp_engine option"
  ti_udp :: "udp_engine option"
  ti_env :: env
  ti_num_queues :: nat
  ti_slots_per_queue :: nat
  ti_read_bufs :: "packet_buffer list"
  ti_read_inflight :: "bool list"
  ti_reads :: "(nat \<times> nat \<times> u64) list"
  ti_tasks :: "strand_task list"

definition k_read_slots :: nat where "k_read_slots = 32"
definition k_max_queues :: nat where "k_max_queues = 256"

definition tunio_impl_new :: "env \<Rightarrow> tunio_impl" where
  "tunio_impl_new e =
     \<lparr>ti_open = False, ti_epoch = 0, ti_local_ip4 = None, ti_local_ip6 = None, ti_local_ip = None, ti_mtu = 1500,
      ti_dev_open = False, ti_gen = 0, ti_tcp = None, ti_udp = None, ti_env = e, ti_num_queues = 1,
      ti_slots_per_queue = k_read_slots, ti_read_bufs = [], ti_read_inflight = [], ti_reads = [], ti_tasks = []\<rparr>"

text \<open>Running an engine in the shared environment; a null pointer is left alone.\<close>

definition with_tcp :: "(tcp_engine \<Rightarrow> tcp_engine) \<Rightarrow> tunio_impl \<Rightarrow> tunio_impl" where
  "with_tcp g s = (case ti_tcp s of
     None \<Rightarrow> s
   | Some t \<Rightarrow> let t = g (t\<lparr>te_env := ti_env s\<rparr>) in s\<lparr>ti_tcp := Some t, ti_env := te_env t\<rparr>)"

definition with_udp :: "(udp_engine \<Rightarrow> udp_engine) \<Rightarrow> tunio_impl \<Rightarrow> tunio_impl" where
  "with_udp g s = (case ti_udp s of
     None \<Rightarrow> s
   | Some u \<Rightarrow> let u = g (u\<lparr>ue_env := ti_env s\<rparr>) in s\<lparr>ti_udp := Some u, ti_env := ue_env u\<rparr>)"

definition with_env :: "(env \<Rightarrow> env) \<Rightarrow> tunio_impl \<Rightarrow> tunio_impl" where
  "with_env g s = s\<lparr>ti_env := g (ti_env s)\<rparr>"

text \<open>The engines' generation; the pointers are set and reset together with the writer's.\<close>

definition captured :: "tunio_impl \<Rightarrow> nat option" where
  "captured s = (if ti_tcp s = None then None else Some (ti_gen s))"

section \<open>Closing\<close>

definition cleanup :: "tunio_impl \<Rightarrow> tunio_impl" where
  "cleanup s =
     (let s = with_udp udp_close_all (with_tcp close_all s);
          s = (if captured s \<noteq> None then with_env cancel_all s else s)
      in s\<lparr>ti_dev_open := False\<rparr>)"

definition reset_open_state :: "tunio_impl \<Rightarrow> tunio_impl" where
  "reset_open_state s =
     (cleanup (s\<lparr>ti_open := False\<rparr>))
       \<lparr>ti_tcp := None, ti_udp := None, ti_read_bufs := [], ti_read_inflight := [], ti_mtu := 1500,
        ti_num_queues := 1, ti_slots_per_queue := k_read_slots\<rparr>"

text \<open>What a dispatched task does when the strand runs it.\<close>

definition run_task :: "strand_task \<Rightarrow> tunio_impl \<Rightarrow> tunio_impl" where
  "run_task t s =
     (case t of
        Task_close epoch g \<Rightarrow>
          let s = (if g \<noteq> None \<and> g = captured s then with_udp udp_close_all (with_tcp close_all s) else s)
          in if epoch = ti_epoch s
             then (if captured s \<noteq> None then with_env cancel_all s else s)\<lparr>ti_dev_open := False\<rparr>
             else s
      | Task_accept_tcp epoch h \<Rightarrow>
          if \<not> ti_open s \<or> epoch \<noteq> ti_epoch s \<or> ti_tcp s = None
          then with_env (post_completion_on (Done_tcp_accept h EC_bad_descriptor None)) s
          else with_tcp (async_accept h) s
      | Task_accept_udp epoch h \<Rightarrow>
          if \<not> ti_open s \<or> epoch \<noteq> ti_epoch s \<or> ti_udp s = None
          then with_env (post_completion_on (Done_udp_accept h EC_bad_descriptor None)) s
          else with_udp (udp_async_accept h) s
      | Task_cancel_tcp g \<Rightarrow> if g \<noteq> None \<and> g = captured s then with_tcp cancel_accepts s else s
      | Task_cancel_udp g \<Rightarrow> if g \<noteq> None \<and> g = captured s then with_udp udp_cancel_accepts s else s)"

text \<open>\<^verbatim>\<open>net::dispatch\<close>: at once when the caller is on the strand, else queued behind what is there.\<close>

definition dispatch :: "bool \<Rightarrow> strand_task \<Rightarrow> tunio_impl \<Rightarrow> tunio_impl" where
  "dispatch inside t s = (if inside then run_task t s else s\<lparr>ti_tasks := ti_tasks s @ [t]\<rparr>)"

definition close_impl :: "bool \<Rightarrow> tunio_impl \<Rightarrow> tunio_impl" where
  "close_impl inside s =
     (if \<not> ti_open s then s
      else let s = s\<lparr>ti_open := False\<rparr> in dispatch inside (Task_close (ti_epoch s) (captured s)) s)"

definition async_accept_tcp :: "bool \<Rightarrow> nat \<Rightarrow> tunio_impl \<Rightarrow> tunio_impl" where
  "async_accept_tcp inside h s = dispatch inside (Task_accept_tcp (ti_epoch s) h) s"

definition async_accept_udp :: "bool \<Rightarrow> nat \<Rightarrow> tunio_impl \<Rightarrow> tunio_impl" where
  "async_accept_udp inside h s = dispatch inside (Task_accept_udp (ti_epoch s) h) s"

definition cancel_tcp_accepts :: "bool \<Rightarrow> tunio_impl \<Rightarrow> tunio_impl" where
  "cancel_tcp_accepts inside s = dispatch inside (Task_cancel_tcp (captured s)) s"

definition cancel_udp_accepts :: "bool \<Rightarrow> tunio_impl \<Rightarrow> tunio_impl" where
  "cancel_udp_accepts inside s = dispatch inside (Task_cancel_udp (captured s)) s"

definition tunio_impl_dtor :: "tunio_impl \<Rightarrow> tunio_impl" where
  "tunio_impl_dtor s = cleanup s"

section \<open>Opening\<close>

text \<open>The local addresses: the parser's answer for a non-empty string.\<close>

definition parse_local4 ::
  "(string \<Rightarrow> error_code + byte list) \<Rightarrow> open_config \<Rightarrow> error_code + byte list option" where
  "parse_local4 make_address_v4 cfg =
     (if ipv4_addr cfg = [] then Inr None
      else case make_address_v4 (ipv4_addr cfg) of Inl ec \<Rightarrow> Inl ec | Inr a \<Rightarrow> Inr (Some a))"

definition parse_local6 ::
  "(string \<Rightarrow> error_code + byte list) \<Rightarrow> open_config \<Rightarrow> error_code + byte list option" where
  "parse_local6 make_address_v6 cfg =
     (if ipv6_addr cfg = [] then Inr None
      else if ipv6_prefix_len cfg > 128 then Inl EC_invalid_argument
      else case make_address_v6 (ipv6_addr cfg) of Inl ec \<Rightarrow> Inl ec | Inr a \<Rightarrow> Inr (Some a))"

definition device_call :: "open_config \<Rightarrow> dev_call" where
  "device_call cfg =
     (if external_handles cfg \<noteq> [] then Assign_queues (external_handles cfg) (external_mtu cfg) (utun_prefix cfg)
      else if external_handle cfg \<noteq> invalid_native_handle then Assign (external_handle cfg) (external_mtu cfg) (utun_prefix cfg)
      else Open_device (dev_name cfg) (ipv4_addr cfg) (netmask cfg) (ipv6_addr cfg) (ipv6_prefix_len cfg) (mtu cfg) (num_queues cfg))"

section \<open>The read pump\<close>

definition start_read_slot :: "nat \<Rightarrow> tunio_impl \<Rightarrow> tunio_impl" where
  "start_read_slot i s =
     (if \<not> ti_open s \<or> i \<ge> length (ti_read_inflight s) \<or> ti_read_inflight s ! i then s
      else s\<lparr>ti_read_inflight := (ti_read_inflight s)[i := True],
             ti_reads := ti_reads s @ [(i, i div ti_slots_per_queue s, ti_epoch s)]\<rparr>)"

definition start_read :: "tunio_impl \<Rightarrow> tunio_impl" where
  "start_read s = (if \<not> ti_open s then s else fold start_read_slot [0..<length (ti_read_inflight s)] s)"

text \<open>The result of \<open>open\<close>: an error code, or an exception that was passed on after the cleanup.\<close>

datatype open_result = Open_ok | Open_error error_code | Open_throws cpp_exception

definition start_engines :: "open_config \<Rightarrow> dev_info \<Rightarrow> tunio_impl \<Rightarrow> open_result \<times> tunio_impl" where
  "start_engines cfg dev s =
     (let nq = max 1 (min (di_queue_count dev) k_max_queues);
          spq = max 1 (k_read_slots div nq);
          s = s\<lparr>ti_dev_open := True, ti_mtu := di_mtu dev, ti_num_queues := nq, ti_slots_per_queue := spq, ti_read_bufs := []\<rparr>
      in case packet_buffer_new (e_mem (ti_env s)) (di_read_size_hint dev + 64) 64 of
           Inl x \<Rightarrow> (Open_throws x, reset_open_state s)
         | Inr buf \<Rightarrow>
             let s = s\<lparr>ti_read_bufs := replicate (nq * spq) buf, ti_read_inflight := replicate (nq * spq) False\<rparr>;
                 tcfg = tun_config.truncate cfg;
                 e = (ti_env s)\<lparr>e_account := \<lparr>acc_limit = max_total_buffer cfg, acc_used = 0\<rparr>,
                                e_writer := tun_queue_writer_new (di_queue_count dev)\<rparr>;
                 s = s\<lparr>ti_env := e, ti_gen := ti_gen s + 1, ti_tcp := Some (start_sweep (tcp_engine_new tcfg e)),
                       ti_udp := Some (udp_engine_new tcfg e), ti_epoch := ti_epoch s + 1, ti_open := True\<rparr>
             in (Open_ok, start_read s))"

definition open_impl ::
  "(string \<Rightarrow> error_code + byte list) \<Rightarrow> (string \<Rightarrow> error_code + byte list) \<Rightarrow> (dev_call \<Rightarrow> error_code + dev_info) \<Rightarrow>
   open_config \<Rightarrow> tunio_impl \<Rightarrow> open_result \<times> tunio_impl" where
  "open_impl make_address_v4 make_address_v6 device cfg s =
     (let had_engine = (ti_open s \<or> captured s \<noteq> None \<or> ti_dev_open s);
          s = s\<lparr>ti_open := False\<rparr>;
          s = (if had_engine then cleanup s else s);
          s = s\<lparr>ti_local_ip4 := None, ti_local_ip6 := None, ti_local_ip := None\<rparr>
      in case parse_local4 make_address_v4 cfg of
           Inl ec \<Rightarrow> (Open_error ec, s)
         | Inr a4 \<Rightarrow>
             let s = s\<lparr>ti_local_ip4 := a4, ti_local_ip := a4\<rparr> in
             case parse_local6 make_address_v6 cfg of
               Inl ec \<Rightarrow> (Open_error ec, s)
             | Inr a6 \<Rightarrow>
                 let s = s\<lparr>ti_local_ip6 := a6, ti_local_ip := (if a4 = None then a6 else a4)\<rparr> in
                 case device (device_call cfg) of
                   Inl ec \<Rightarrow> (Open_error ec, reset_open_state s)
                 | Inr dev \<Rightarrow> start_engines cfg dev s)"

section \<open>Echo replies\<close>

definition add_icmp_replies :: "env \<Rightarrow> env" where
  "add_icmp_replies e = e\<lparr>e_stats := (e_stats e)\<lparr>icmp_replies := icmp_replies (e_stats e) + 1\<rparr>\<rparr>"

definition icmp_reply :: "byte list \<Rightarrow> byte list \<Rightarrow> byte list \<Rightarrow> env \<Rightarrow> (cpp_exception + packet_buffer) \<times> env" where
  "icmp_reply src dst icmp e =
     (let (r, e) = acquire (20 + length icmp + 64) 64 e
      in case r of
           Inl x \<Rightarrow> (Inl x, e)
         | Inr reply \<Rightarrow> (case pb_resize (20 + length icmp) reply of
             Inl x \<Rightarrow> (Inl x, e)
           | Inr reply \<Rightarrow>
               let (ip_id, e) = alloc_ip_id e;
                   out = fst (build_ip_header (pb_from_data reply) 4 src dst ip_protocol_icmp (20 + length icmp) ip_id 64);
                   out = blit out 20 icmp;
                   out = blit (blit out 20 [0]) 22 [0, 0];
                   csum = ip_checksum (subl 20 (length icmp) out)
               in (Inr (pb_poke reply 0 (blit out 22 [hi8 csum, lo8 csum])), e)))"

definition icmpv6_reply :: "byte list \<Rightarrow> byte list \<Rightarrow> byte list \<Rightarrow> env \<Rightarrow> (cpp_exception + packet_buffer) \<times> env" where
  "icmpv6_reply src dst icmp e =
     (let (r, e) = acquire (40 + length icmp + 64) 64 e
      in case r of
           Inl x \<Rightarrow> (Inl x, e)
         | Inr reply \<Rightarrow> (case pb_resize (40 + length icmp) reply of
             Inl x \<Rightarrow> (Inl x, e)
           | Inr reply \<Rightarrow>
               let out = fst (build_ip_header (pb_from_data reply) 6 src dst ip_protocol_icmpv6 (40 + length icmp) 0 64);
                   out = blit out 40 icmp;
                   out = blit (blit out 40 [129]) 42 [0, 0];
                   csum = tcp_udp_checksum 6 src dst ip_protocol_icmpv6 (subl 40 (length icmp) out)
               in (Inr (pb_poke reply 0 (blit out 42 [hi8 csum, lo8 csum])), e)))"

text \<open>Sending a reply; the exception that leaves the handler, if any.\<close>

definition send_reply :: "(cpp_exception + packet_buffer) \<times> env \<Rightarrow> tunio_impl \<Rightarrow> cpp_exception option \<times> tunio_impl" where
  "send_reply re s =
     (case re of
        (Inl x, e) \<Rightarrow> (Some x, s\<lparr>ti_env := e\<rparr>)
      | (Inr reply, e) \<Rightarrow> (None, s\<lparr>ti_env := add_icmp_replies (async_write_and_forget reply e)\<rparr>))"

definition handle_icmp :: "ip_packet_info \<Rightarrow> byte list \<Rightarrow> tunio_impl \<Rightarrow> cpp_exception option \<times> tunio_impl" where
  "handle_icmp ip icmp s =
     (case ti_local_ip4 s of
        None \<Rightarrow> (None, s)
      | Some l \<Rightarrow>
          if length icmp < 8 then (None, s)
          else if take 4 (pi_dst_ip ip) \<noteq> l \<or> icmp ! 0 \<noteq> 8 then (None, s)
          else if ip_checksum icmp \<noteq> 0 then (None, s)
          else send_reply (icmp_reply (pi_dst_ip ip) (pi_src_ip ip) icmp (ti_env s)) s)"

definition handle_icmpv6 :: "ip_packet_info \<Rightarrow> byte list \<Rightarrow> tunio_impl \<Rightarrow> cpp_exception option \<times> tunio_impl" where
  "handle_icmpv6 ip icmp s =
     (case ti_local_ip6 s of
        None \<Rightarrow> (None, s)
      | Some l \<Rightarrow>
          if length icmp < 8 then (None, s)
          else if take 16 (pi_dst_ip ip) \<noteq> l \<or> icmp ! 0 \<noteq> 128 then (None, s)
          else if tcp_udp_checksum 6 (pi_src_ip ip) (pi_dst_ip ip) ip_protocol_icmpv6 icmp \<noteq> 0 then (None, s)
          else send_reply (icmpv6_reply (pi_dst_ip ip) (pi_src_ip ip) icmp (ti_env s)) s)"

section \<open>Packets\<close>

definition handle_packet :: "u32 \<Rightarrow> byte list \<Rightarrow> tunio_impl \<Rightarrow> cpp_exception option \<times> tunio_impl" where
  "handle_packet random_iss pkt s =
     (case classify pkt of
        None \<Rightarrow> (None, with_env add_rx_dropped s)
      | Some (ip, payload) \<Rightarrow>
          if guard_drops (ti_local_ip4 s) (ti_local_ip6 s) ip then (None, with_env add_rx_dropped s)
          else if pi_protocol ip = ip_protocol_icmp then handle_icmp ip payload s
          else if pi_protocol ip = ip_protocol_icmpv6 then handle_icmpv6 ip payload s
          else if pi_protocol ip = ip_protocol_tcp then (None, with_tcp (on_packet random_iss ip payload) s)
          else if pi_protocol ip = ip_protocol_udp then (None, with_udp (udp_on_packet ip payload) s)
          else (None, with_env add_rx_dropped s))"

text \<open>The length a packet declares; \<open>None\<close> for a packet that is dropped.\<close>

definition declared_len :: "byte list \<Rightarrow> nat option" where
  "declared_len p =
     (if length p < sizeof_ipv4_header then None
      else if drop_bit 4 (p ! 0) = 4 then
        let total_len = unat (be16 (p ! 2) (p ! 3)) in if total_len < sizeof_ipv4_header then None else Some total_len
      else if drop_bit 4 (p ! 0) = 6 then
        let total_len = sizeof_ipv6_header + unat (be16 (p ! 4) (p ! 5)) in if total_len < sizeof_ipv6_header then None else Some total_len
      else None)"

definition restart_slot :: "nat \<Rightarrow> tunio_impl \<Rightarrow> tunio_impl" where
  "restart_slot i s = start_read_slot i (s\<lparr>ti_read_bufs := (ti_read_bufs s)[i := pb_reset (ti_read_bufs s ! i)]\<rparr>)"

definition add_rx_packets :: "env \<Rightarrow> env" where
  "add_rx_packets e = e\<lparr>e_stats := (e_stats e)\<lparr>rx_packets := rx_packets (e_stats e) + 1\<rparr>\<rparr>"

text \<open>
  The completion of a read. An exception of the packet handler is passed on after the slot has been
  restarted, as without one; that of \<open>commit\<close> leaves before.
\<close>

definition on_read :: "u32 \<Rightarrow> error_code \<Rightarrow> nat \<Rightarrow> nat \<Rightarrow> u64 \<Rightarrow> tunio_impl \<Rightarrow> cpp_exception option \<times> tunio_impl" where
  "on_read random_iss ec n i epoch s =
     (if \<not> ti_open s \<or> epoch \<noteq> ti_epoch s then (None, s)
      else
        let s = s\<lparr>ti_read_inflight := (ti_read_inflight s)[i := False]\<rparr> in
        if ec \<noteq> EC_ok then
          let s = (if ec \<noteq> EC_operation_aborted then close_impl True s else s)
          in (None, if ti_open s then start_read_slot i s else s)
        else
          case pb_commit n (ti_read_bufs s ! i) of
            Inl x \<Rightarrow> (Some x, s)
          | Inr buf \<Rightarrow>
              let s = s\<lparr>ti_read_bufs := (ti_read_bufs s)[i := buf]\<rparr>; base = pb_bytes buf;
                  drop_read = (None, restart_slot i (with_env add_rx_dropped s)) in
              case declared_len base of
                None \<Rightarrow> drop_read
              | Some total_len \<Rightarrow>
                  if total_len > length base then drop_read
                  else
                    let (x, s) = handle_packet random_iss (take total_len base) (with_env add_rx_packets s)
                    in (x, restart_slot i s))"

text \<open>The device stores what it read in the buffer of the slot, which exists as long as the engine has not been reopened.\<close>

definition device_fill :: "byte list \<Rightarrow> nat \<Rightarrow> u64 \<Rightarrow> tunio_impl \<Rightarrow> tunio_impl" where
  "device_fill data i epoch s =
     (if epoch = ti_epoch s \<and> i < length (ti_read_bufs s)
      then s\<lparr>ti_read_bufs := (ti_read_bufs s)[i := pb_poke (ti_read_bufs s ! i) 0 data]\<rparr> else s)"

end
