(* ===== verification/Tunio_System.thy ===== *)
theory Tunio_System
  imports Tunio_Core
begin

text \<open>
  The whole program under every sequence of events: opening, closing and reopening, tasks of the
  strand, packets, timers and calls of the application. \<open>engines_ok\<close> says that the invariants of both
  engines hold in the environment they share, \<open>reads_ok\<close> that the read pump has lost no slot; the
  ledgers \<open>tcp_live\<close> and \<open>udp_live\<close> extend those of the engines to the tasks that wait on the strand.
\<close>

section \<open>Both engines in one environment\<close>

text \<open>What the invariants and ledgers of the engines depend on.\<close>

definition shared :: "env \<Rightarrow> (u64 \<times> tok multiset \<times> nat list) \<times> u64 \<times> udp_tok multiset" where
  "shared e = (tcp_side e, udp_sessions (e_stats e), udp_posted e)"

definition engines_ok :: "tunio_impl \<Rightarrow> bool" where
  "engines_ok s \<longleftrightarrow>
     (case (ti_tcp s, ti_udp s) of
        (Some t, Some u) \<Rightarrow> te_ok (t\<lparr>te_env := ti_env s\<rparr>) \<and> ue_inv (u\<lparr>ue_env := ti_env s\<rparr>)
      | (None, None) \<Rightarrow> tcp_connections (e_stats (ti_env s)) = 0 \<and> udp_sessions (e_stats (ti_env s)) = 0
      | _ \<Rightarrow> False)"

definition tcp_now :: "tunio_impl \<Rightarrow> tok multiset" where
  "tcp_now s = (case ti_tcp s of None \<Rightarrow> posted_toks (ti_env s) | Some t \<Rightarrow> eng_toks (t\<lparr>te_env := ti_env s\<rparr>))"

definition udp_now :: "tunio_impl \<Rightarrow> udp_tok multiset" where
  "udp_now s = (case ti_udp s of None \<Rightarrow> udp_posted (ti_env s) | Some u \<Rightarrow> ue_toks (u\<lparr>ue_env := ti_env s\<rparr>))"

text \<open>\<open>turns s a b s'\<close>: a step that keeps the engines sound and adds the handlers \<open>a\<close> and \<open>b\<close> to their ledgers.\<close>

definition turns :: "tunio_impl \<Rightarrow> tok multiset \<Rightarrow> udp_tok multiset \<Rightarrow> tunio_impl \<Rightarrow> bool" where
  "turns s a b s' \<longleftrightarrow> engines_ok s' \<and> tcp_now s' = tcp_now s + a \<and> udp_now s' = udp_now s + b"

lemma turns_refl: "engines_ok s \<Longrightarrow> turns s {#} {#} s"
  by (simp add: turns_def)

lemma turns_trans: "turns s a b s' \<Longrightarrow> turns s' a' b' s'' \<Longrightarrow> turns s (a + a') (b + b') s''"
  by (simp add: turns_def ac_simps)

lemmas turns_then = turns_trans [where a' = "{#}" and b' = "{#}", simplified]

text \<open>Only the engines and the shared part of the environment matter.\<close>

lemma turns_frame:
  assumes "engines_ok s" "ti_tcp s' = ti_tcp s" "ti_udp s' = ti_udp s" "shared (ti_env s') = shared (ti_env s)"
  shows "turns s {#} {#} s'"
proof -
  have f: "tcp_connections (e_stats (ti_env s')) = tcp_connections (e_stats (ti_env s))" "posted_toks (ti_env s') = posted_toks (ti_env s)"
    "handed (ti_env s') = handed (ti_env s)" "udp_sessions (e_stats (ti_env s')) = udp_sessions (e_stats (ti_env s))" "udp_posted (ti_env s') = udp_posted (ti_env s)"
    using assms(4) by (simp_all add: shared_def tcp_side_def)
  have t: "te_ok (t\<lparr>te_env := ti_env s'\<rparr>) = te_ok (t\<lparr>te_env := ti_env s\<rparr>)"
    "eng_toks (t\<lparr>te_env := ti_env s'\<rparr>) = eng_toks (t\<lparr>te_env := ti_env s\<rparr>)" for t
    using f(1-3) by (simp_all add: te_ok_def te_inv_def handover_def eng_toks_def accept_toks_def)
  have u: "ue_inv (u\<lparr>ue_env := ti_env s'\<rparr>) = ue_inv (u\<lparr>ue_env := ti_env s\<rparr>)"
    "ue_toks (u\<lparr>ue_env := ti_env s'\<rparr>) = ue_toks (u\<lparr>ue_env := ti_env s\<rparr>)" for u
    using f(4,5) by (simp_all add: ue_inv_def core_inv_def covered_def heap_ok_def armed_def ue_toks_def)
  show ?thesis using assms(1-3) f t u
    by (auto simp: turns_def engines_ok_def tcp_now_def udp_now_def split: option.splits)
qed

lemma turns_env: "engines_ok s \<Longrightarrow> shared (g (ti_env s)) = shared (ti_env s) \<Longrightarrow> turns s {#} {#} (with_env g s)"
  by (rule turns_frame) (simp_all add: with_env_def)

lemma with_tcp_turns:
  assumes ok: "engines_ok s"
    and g: "\<And>t b. ti_tcp s = Some t \<Longrightarrow> te_inv b (t\<lparr>te_env := ti_env s\<rparr>) \<Longrightarrow>
      te_inv b (g (t\<lparr>te_env := ti_env s\<rparr>)) \<and> eng_toks (g (t\<lparr>te_env := ti_env s\<rparr>)) = eng_toks (t\<lparr>te_env := ti_env s\<rparr>) + a \<and>
      udp_side (te_env (g (t\<lparr>te_env := ti_env s\<rparr>))) = udp_side (ti_env s)"
    and a: "ti_tcp s = None \<Longrightarrow> a = {#}"
  shows "turns s a {#} (with_tcp g s)"
proof (cases "ti_tcp s")
  case None
  thus ?thesis using a turns_refl [OF ok] by (simp add: with_tcp_def)
next
  case (Some t)
  then obtain u where u: "ti_udp s = Some u" using ok by (auto simp: engines_ok_def split: option.splits)
  define t' where "t' = g (t\<lparr>te_env := ti_env s\<rparr>)"
  obtain b where t: "te_inv b (t\<lparr>te_env := ti_env s\<rparr>)" "ue_inv (u\<lparr>ue_env := ti_env s\<rparr>)"
    using ok Some u by (auto simp: engines_ok_def te_ok_def)
  note G = g [OF Some t(1), folded t'_def]
  hence t': "te_ok t'" by (auto simp: te_ok_def)
  have e: "t'\<lparr>te_env := te_env t'\<rparr> = t'" by simp
  have "udp_sessions (e_stats (te_env t')) = udp_sessions (e_stats (ti_env s))" "udp_posted (te_env t') = udp_posted (ti_env s)"
    using G by (simp_all add: udp_side_def)
  hence "ue_inv (u\<lparr>ue_env := te_env t'\<rparr>) = ue_inv (u\<lparr>ue_env := ti_env s\<rparr>)" "ue_toks (u\<lparr>ue_env := te_env t'\<rparr>) = ue_toks (u\<lparr>ue_env := ti_env s\<rparr>)"
    by (simp_all add: ue_inv_def core_inv_def covered_def heap_ok_def armed_def ue_toks_def)
  thus ?thesis using G t t' Some u e
    by (simp add: with_tcp_def Let_def turns_def engines_ok_def tcp_now_def udp_now_def flip: t'_def)
qed

lemma with_udp_turns:
  assumes ok: "engines_ok s"
    and g: "\<And>u. ti_udp s = Some u \<Longrightarrow> ue_inv (u\<lparr>ue_env := ti_env s\<rparr>) \<Longrightarrow>
      ue_inv (g (u\<lparr>ue_env := ti_env s\<rparr>)) \<and> ue_toks (g (u\<lparr>ue_env := ti_env s\<rparr>)) = ue_toks (u\<lparr>ue_env := ti_env s\<rparr>) + b \<and>
      tcp_side (ue_env (g (u\<lparr>ue_env := ti_env s\<rparr>))) = tcp_side (ti_env s)"
    and b: "ti_udp s = None \<Longrightarrow> b = {#}"
  shows "turns s {#} b (with_udp g s)"
proof (cases "ti_udp s")
  case None
  thus ?thesis using b turns_refl [OF ok] by (simp add: with_udp_def)
next
  case (Some u)
  then obtain t where t: "ti_tcp s = Some t" using ok by (auto simp: engines_ok_def split: option.splits)
  define u' where "u' = g (u\<lparr>ue_env := ti_env s\<rparr>)"
  have u: "te_ok (t\<lparr>te_env := ti_env s\<rparr>)" "ue_inv (u\<lparr>ue_env := ti_env s\<rparr>)" using ok Some t by (simp_all add: engines_ok_def)
  note G = g [OF Some u(2), folded u'_def]
  have "te_ok (t\<lparr>te_env := ue_env u'\<rparr>) = te_ok (t\<lparr>te_env := ti_env s\<rparr>)" "eng_toks (t\<lparr>te_env := ue_env u'\<rparr>) = eng_toks (t\<lparr>te_env := ti_env s\<rparr>)"
    using G by (simp_all add: tcp_side_def te_ok_def te_inv_def handover_def eng_toks_def accept_toks_def)
  thus ?thesis using G u Some t
    by (simp add: with_udp_def Let_def turns_def engines_ok_def tcp_now_def udp_now_def flip: u'_def)
qed

lemma with_frames [simp]:
  "ti_tcp (with_udp h s) = ti_tcp s" "ti_udp (with_tcp g s) = ti_udp s" "ti_gen (with_tcp g s) = ti_gen s" "ti_gen (with_udp h s) = ti_gen s"
  "ti_tcp (with_tcp g s) = None \<longleftrightarrow> ti_tcp s = None" "ti_udp (with_udp h s) = None \<longleftrightarrow> ti_udp s = None"
  "captured (with_tcp g s) = captured s" "captured (with_udp h s) = captured s"
  "ti_tcp (with_env k s) = ti_tcp s" "ti_udp (with_env k s) = ti_udp s" "captured (with_env k s) = captured s"
  by (simp_all add: with_tcp_def with_udp_def with_env_def captured_def Let_def split: option.splits)

lemma engines_both: "engines_ok s \<Longrightarrow> ti_tcp s = None \<longleftrightarrow> ti_udp s = None"
  by (auto simp: engines_ok_def split: option.splits)

section \<open>Operations\<close>

lemma close_engines_turns: "engines_ok s \<Longrightarrow> turns s {#} {#} (with_udp udp_close_all (with_tcp close_all s))"
proof -
  assume ok: "engines_ok s"
  have t: "turns s {#} {#} (with_tcp close_all s)"
    by (rule with_tcp_turns [OF ok]) (simp_all add: close_all_inv)
  hence ok': "engines_ok (with_tcp close_all s)" by (simp add: turns_def)
  have "turns (with_tcp close_all s) {#} {#} (with_udp udp_close_all (with_tcp close_all s))"
    by (rule with_udp_turns [OF ok']) (simp_all add: udp_close_all_inv)
  thus ?thesis using turns_then [OF t] by simp
qed

text \<open>Once both are closed, the ledgers consist of completed handlers.\<close>

definition settled :: "tunio_impl \<Rightarrow> bool" where
  "settled s \<longleftrightarrow> posted_toks (ti_env s) = tcp_now s \<and> udp_posted (ti_env s) = udp_now s \<and>
     tcp_connections (e_stats (ti_env s)) = 0 \<and> udp_sessions (e_stats (ti_env s)) = 0"

lemma settled_frame: "settled s \<Longrightarrow> turns s {#} {#} s' \<Longrightarrow> shared (ti_env s') = shared (ti_env s) \<Longrightarrow> settled s'"
  by (simp add: settled_def turns_def shared_def tcp_side_def)

lemma close_engines_settled: "engines_ok s \<Longrightarrow> settled (with_udp udp_close_all (with_tcp close_all s))"
proof -
  assume ok: "engines_ok s"
  show ?thesis
  proof (cases "ti_tcp s")
    case None
    hence "ti_udp s = None" using engines_both [OF ok] by simp
    thus ?thesis using None ok by (simp add: with_tcp_def with_udp_def settled_def engines_ok_def tcp_now_def udp_now_def)
  next
    case (Some t)
    then obtain u where u: "ti_udp s = Some u" using ok by (auto simp: engines_ok_def split: option.splits)
    define t1 where "t1 = close_all (t\<lparr>te_env := ti_env s\<rparr>)"
    define u1 where "u1 = udp_close_all (u\<lparr>ue_env := te_env t1\<rparr>)"
    have s1: "with_udp udp_close_all (with_tcp close_all s) = s\<lparr>ti_tcp := Some t1, ti_udp := Some u1, ti_env := ue_env u1\<rparr>"
      using Some u by (simp add: with_tcp_def with_udp_def Let_def t1_def u1_def)
    obtain b where it: "te_inv b (t\<lparr>te_env := ti_env s\<rparr>)" and iu: "ue_inv (u\<lparr>ue_env := ti_env s\<rparr>)"
      using ok Some u by (auto simp: engines_ok_def te_ok_def)
    have "udp_sessions (e_stats (te_env t1)) = udp_sessions (e_stats (ti_env s))"
      using side_close_all [of "t\<lparr>te_env := ti_env s\<rparr>"] by (simp add: t1_def udp_side_def)
    hence iu': "ue_inv (u\<lparr>ue_env := te_env t1\<rparr>)" using iu by (simp add: ue_inv_def core_inv_def covered_def heap_ok_def armed_def)
    note C = close_all_inv [OF it, folded t1_def] and D = udp_close_all_inv [OF iu', folded u1_def]
    note T = settled_engine [OF C(1,3,5)] and U = settled_sessions [OF D(1,3,4,5)]
    have side: "tcp_side (ue_env u1) = tcp_side (te_env t1)" using tside_close(2) [of "u\<lparr>ue_env := te_env t1\<rparr>"] by (simp add: u1_def)
    have "eng_toks (t1\<lparr>te_env := ue_env u1\<rparr>) = eng_toks t1" using side by (simp add: tcp_side_def eng_toks_def accept_toks_def)
    thus ?thesis using T U side by (simp add: s1 settled_def tcp_now_def udp_now_def tcp_side_def)
  qed
qed

lemma shared_cancel_all [simp]: "shared (cancel_all e) = shared e"
  using side_cancel_all [of e] tside_cancel_all [of e] by (simp add: shared_def udp_side_def)

lemma cleanup_turns:
  assumes ok: "engines_ok s"
  shows "turns s {#} {#} (cleanup s)" "settled (cleanup s)"
proof -
  define s1 where "s1 = with_udp udp_close_all (with_tcp close_all s)"
  have s1: "turns s {#} {#} s1" "settled s1" using close_engines_turns [OF ok] close_engines_settled [OF ok] by (simp_all add: s1_def)
  hence "engines_ok s1" by (simp add: turns_def)
  hence t: "turns s1 {#} {#} (cleanup s)" and sh: "shared (ti_env (cleanup s)) = shared (ti_env s1)"
    by (auto simp: cleanup_def Let_def with_env_def s1_def [symmetric] intro: turns_frame)
  show "turns s {#} {#} (cleanup s)" using turns_then [OF s1(1) t] by simp
  show "settled (cleanup s)" by (rule settled_frame [OF s1(2) t sh])
qed

lemma reset_turns:
  assumes ok: "engines_ok s" shows "turns s {#} {#} (reset_open_state s)" "settled (reset_open_state s)"
proof -
  define s0 where "s0 = s\<lparr>ti_open := False\<rparr>"
  have s0: "turns s {#} {#} s0" by (rule turns_frame [OF ok]) (simp_all add: s0_def)
  hence ok0: "engines_ok s0" by (simp add: turns_def)
  note c = cleanup_turns [OF ok0]
  have t: "turns (cleanup s0) {#} {#} (reset_open_state s)"
    using c(2) unfolding reset_open_state_def s0_def [symmetric]
    by (simp add: turns_def engines_ok_def settled_def tcp_now_def udp_now_def)
  show "turns s {#} {#} (reset_open_state s)" using turns_then [OF turns_then [OF s0 c(1)] t] .
  have "shared (ti_env (reset_open_state s)) = shared (ti_env (cleanup s0))" by (simp add: reset_open_state_def s0_def)
  thus "settled (reset_open_state s)" by (rule settled_frame [OF c(2) t])
qed

lemma run_task_turns:
  assumes ok: "engines_ok s" shows "turns s (case t of Task_accept_tcp ep h \<Rightarrow> {#Tk_accept h#} | _ \<Rightarrow> {#})
    (case t of Task_accept_udp ep h \<Rightarrow> {#Ut_accept h#} | _ \<Rightarrow> {#}) (run_task t s)"
proof -
  have fail: "turns s (tok_of c) (udp_tok_of c) (with_env (post_completion_on c) s)" if "flow_of c = []" for c
  proof -
    have e: "tcp_connections (e_stats (post_completion_on c e)) = tcp_connections (e_stats e)" "posted_toks (post_completion_on c e) = posted_toks e + tok_of c"
      "handed (post_completion_on c e) = handed e" for e
      using that by (simp_all add: post_completion_on_def posted_toks_def)
    have t: "te_ok (t\<lparr>te_env := post_completion_on c (ti_env s)\<rparr>) = te_ok (t\<lparr>te_env := ti_env s\<rparr>)"
      "eng_toks (t\<lparr>te_env := post_completion_on c (ti_env s)\<rparr>) = eng_toks (t\<lparr>te_env := ti_env s\<rparr>) + tok_of c" for t
      using e that by (simp_all add: te_ok_def te_inv_def handover_def eng_toks_def accept_toks_def)
    have u: "ue_inv (u\<lparr>ue_env := post_completion_on c (ti_env s)\<rparr>) = ue_inv (u\<lparr>ue_env := ti_env s\<rparr>)"
      "ue_toks (u\<lparr>ue_env := post_completion_on c (ti_env s)\<rparr>) = ue_toks (u\<lparr>ue_env := ti_env s\<rparr>) + udp_tok_of c" for u
      by (simp_all add: ue_inv_def core_inv_def covered_def heap_ok_def armed_def ue_toks_def)
    show ?thesis using ok e t u by (auto simp: turns_def with_env_def engines_ok_def tcp_now_def udp_now_def split: option.splits)
  qed
  show ?thesis
  proof (cases t)
    case (Task_close ep g)
    define s1 where "s1 = (if g \<noteq> None \<and> g = captured s then with_udp udp_close_all (with_tcp close_all s) else s)"
    have s1: "turns s {#} {#} s1" using close_engines_turns [OF ok] turns_refl [OF ok] by (simp add: s1_def)
    hence "engines_ok s1" by (simp add: turns_def)
    hence "turns s1 {#} {#} (run_task t s)"
      unfolding Task_close run_task_def Let_def strand_task.case s1_def [symmetric]
      by (auto simp: with_env_def intro: turns_frame)
    from turns_then [OF s1 this] show ?thesis using Task_close by simp
  next
    case (Task_accept_tcp ep h)
    have "turns s {#Tk_accept h#} {#} (with_tcp (async_accept h) s)" if "ti_tcp s \<noteq> None"
      by (rule with_tcp_turns [OF ok]) (use that async_accept_inv side_tcp_step [of "Ev_accept h"] in simp_all)
    thus ?thesis using fail [of "Done_tcp_accept h EC_bad_descriptor None"] Task_accept_tcp by (simp add: run_task_def)
  next
    case (Task_accept_udp ep h)
    have "turns s {#} {#Ut_accept h#} (with_udp (udp_async_accept h) s)" if "ti_udp s \<noteq> None"
      by (rule with_udp_turns [OF ok]) (use that udp_async_accept_inv tside_udp_step [of "Uv_accept h"] in simp_all)
    thus ?thesis using fail [of "Done_udp_accept h EC_bad_descriptor None"] Task_accept_udp by (simp add: run_task_def)
  next
    case (Task_cancel_tcp g)
    have "turns s {#} {#} (with_tcp cancel_accepts s)"
      by (rule with_tcp_turns [OF ok]) (simp_all add: cancel_accepts_inv)
    thus ?thesis using turns_refl [OF ok] Task_cancel_tcp by (simp add: run_task_def)
  next
    case (Task_cancel_udp g)
    have "turns s {#} {#} (with_udp udp_cancel_accepts s)"
      by (rule with_udp_turns [OF ok]) (use udp_cancel_accepts_inv udp_cancel_accepts_core(2) in \<open>auto simp: ue_inv_def\<close>)
    thus ?thesis using turns_refl [OF ok] Task_cancel_udp by (simp add: run_task_def)
  qed
qed

text \<open>Packets.\<close>

lemma shared_prims [simp]:
  "shared (add_rx_dropped e) = shared e" "shared (add_rx_packets e) = shared e" "shared (add_icmp_replies e) = shared e"
  "shared (snd (acquire c h e)) = shared e" "shared (snd (alloc_ip_id e)) = shared e" "shared (async_write_and_forget p e) = shared e"
proof -
  show "shared (add_rx_dropped e) = shared e" "shared (add_rx_packets e) = shared e" "shared (add_icmp_replies e) = shared e"
    by (simp_all add: shared_def tcp_side_def posted_toks_def udp_posted_def add_rx_dropped_def add_rx_packets_def add_icmp_replies_def)
  have q: "shared x = shared e" if "quiet_env e x" "tcp_side x = tcp_side e" for x using that by (simp add: shared_def quiet_env_def)
  show "shared (snd (acquire c h e)) = shared e" "shared (snd (alloc_ip_id e)) = shared e" "shared (async_write_and_forget p e) = shared e"
    by (rule q; simp)+
qed

lemma icmp_reply_shared: "shared (snd (icmp_reply a b d e)) = shared e" "shared (snd (icmpv6_reply a b d e)) = shared e"
proof -
  obtain r x where a: "acquire (20 + length d + 64) 64 e = (r, x)" by fastforce
  obtain i y where i: "alloc_ip_id x = (i, y)" by fastforce
  have "shared x = shared e" "shared y = shared x"
    using shared_prims(4) [of "20 + length d + 64" 64 e] shared_prims(5) [of x] unfolding a i by simp_all
  thus "shared (snd (icmp_reply a b d e)) = shared e" unfolding icmp_reply_def a prod.case Let_def by (simp add: i split: sum.splits)
  obtain r x where a: "acquire (40 + length d + 64) 64 e = (r, x)" by fastforce
  have "shared x = shared e" using shared_prims(4) [of "40 + length d + 64" 64 e] unfolding a by simp
  thus "shared (snd (icmpv6_reply a b d e)) = shared e" unfolding icmpv6_reply_def a prod.case Let_def by (simp split: sum.splits)
qed

lemma send_reply_turns:
  assumes ok: "engines_ok s" and r: "shared (snd re) = shared (ti_env s)" shows "turns s {#} {#} (snd (send_reply re s))"
  by (cases re; cases "fst re") (use r in \<open>auto simp: send_reply_def intro: turns_frame [OF ok]\<close>)

lemma handle_packet_turns:
  assumes ok: "engines_ok s" shows "turns s {#} {#} (snd (handle_packet w p s))"
proof -
  note r = turns_refl [OF ok]
  have "turns s {#} {#} (snd (handle_icmp ip d s))" "turns s {#} {#} (snd (handle_icmpv6 ip d s))" for ip d
    using send_reply_turns [OF ok icmp_reply_shared(1)] send_reply_turns [OF ok icmp_reply_shared(2)] r
    by (simp_all add: handle_icmp_def handle_icmpv6_def split: option.splits)
  moreover have "turns s {#} {#} (with_tcp (on_packet w ip d) s)" for ip d
    by (rule with_tcp_turns [OF ok]) (simp_all add: on_packet_inv)
  moreover have "turns s {#} {#} (with_udp (udp_on_packet ip d) s)" for ip d
    by (rule with_udp_turns [OF ok]) (simp_all add: udp_on_packet_inv)
  moreover have "turns s {#} {#} (with_env add_rx_dropped s)" by (rule turns_env [OF ok]) simp
  ultimately show ?thesis by (simp add: handle_packet_def split: option.splits prod.splits)
qed

lemma start_read_slot_turns: "engines_ok s \<Longrightarrow> turns s {#} {#} (start_read_slot i s)"
  by (rule turns_frame) (simp_all add: start_read_slot_def)

lemma restart_slot_turns:
  assumes "turns r a b s" shows "turns r a b (restart_slot i s)"
proof -
  have ok: "engines_ok s" using assms by (simp add: turns_def)
  have "turns s {#} {#} (restart_slot i s)"
    by (rule turns_frame [OF ok]) (simp_all add: restart_slot_def start_read_slot_def)
  thus ?thesis using turns_then [OF assms] by simp
qed

lemma on_read_turns:
  assumes ok: "engines_ok s" shows "turns s {#} {#} (snd (on_read w ec n i ep s))"
proof -
  define s1 where "s1 = s\<lparr>ti_read_inflight := (ti_read_inflight s)[i := False]\<rparr>"
  have s1: "turns s {#} {#} s1" by (rule turns_frame [OF ok]) (simp_all add: s1_def)
  have ok1: "engines_ok s1" using s1 by (simp add: turns_def)
  have cl: "turns s {#} {#} (close_impl True s1)"
  proof -
    have f: "turns s1 {#} {#} (s1\<lparr>ti_open := False\<rparr>)" by (rule turns_frame [OF ok1]) simp_all
    hence "engines_ok (s1\<lparr>ti_open := False\<rparr>)" by (simp add: turns_def)
    from turns_then [OF turns_then [OF s1 f]] run_task_turns [OF this, of "Task_close (ti_epoch s1) (captured s1)"]
    have "turns s {#} {#} (run_task (Task_close (ti_epoch s1) (captured s1)) (s1\<lparr>ti_open := False\<rparr>))" by simp
    moreover have "captured (s1\<lparr>ti_open := False\<rparr>) = captured s1" by (simp add: captured_def)
    ultimately show ?thesis using s1 by (simp add: close_impl_def dispatch_def Let_def)
  qed
  have sr: "turns s {#} {#} (start_read_slot i x)" if "turns s {#} {#} x" for x
    using turns_then [OF that start_read_slot_turns] that by (simp add: turns_def)
  have b: "turns s {#} {#} (s1\<lparr>ti_read_bufs := bs\<rparr>)" for bs
    using turns_then [OF s1] turns_frame [OF ok1, of "s1\<lparr>ti_read_bufs := bs\<rparr>"] by simp
  have e: "turns s {#} {#} (with_env g x)" if "turns s {#} {#} x" "\<And>y. shared (g y) = shared y" for g x
    using turns_then [OF that(1) turns_env] that by (simp add: turns_def)
  have h: "turns s {#} {#} (snd (handle_packet w p x))" if "turns s {#} {#} x" for p x
    using turns_then [OF that handle_packet_turns] that by (simp add: turns_def)
  have hp: "turns s {#} {#} (snd (case handle_packet w p (with_env add_rx_packets (s1\<lparr>ti_read_bufs := bs\<rparr>)) of (x, s) \<Rightarrow> (x, restart_slot i s)))" for p bs
  proof -
    have "turns s {#} {#} (snd (handle_packet w p (with_env add_rx_packets (s1\<lparr>ti_read_bufs := bs\<rparr>))))" by (intro h e b) simp
    from restart_slot_turns [OF this, of i] show ?thesis by (auto split: prod.splits)
  qed
  have d: "turns s {#} {#} (restart_slot i (with_env add_rx_dropped (s1\<lparr>ti_read_bufs := bs\<rparr>)))" for bs
    by (rule restart_slot_turns [OF e [OF b]]) simp
  show ?thesis unfolding on_read_def Let_def s1_def [symmetric]
    using turns_refl [OF ok] cl s1 sr hp d by (simp split: sum.splits option.splits)
qed

text \<open>Opening: the old engines are settled before new ones take their place, and for good if there are none.\<close>

lemma start_engines_turns:
  assumes ok: "engines_ok s" and se: "settled s"
  shows "turns s {#} {#} (snd (start_engines cfg dev s)) \<and>
    (fst (start_engines cfg dev s) \<noteq> Open_ok \<longrightarrow> settled (snd (start_engines cfg dev s)))"
proof -
  define nq where "nq = max 1 (min (di_queue_count dev) k_max_queues)"
  define spq where "spq = max 1 (k_read_slots div nq)"
  define s1 where "s1 = s\<lparr>ti_dev_open := True, ti_mtu := di_mtu dev, ti_num_queues := nq, ti_slots_per_queue := spq, ti_read_bufs := []\<rparr>"
  have s1: "turns s {#} {#} s1" by (rule turns_frame [OF ok]) (simp_all add: s1_def)
  have ok1: "engines_ok s1" using s1 by (simp add: turns_def)
  define e where "e = (ti_env s1)\<lparr>e_account := \<lparr>acc_limit = max_total_buffer cfg, acc_used = 0\<rparr>, e_writer := tun_queue_writer_new (di_queue_count dev)\<rparr>"
  have e: "tcp_connections (e_stats e) = 0" "udp_sessions (e_stats e) = 0" "posted_toks e = tcp_now s" "udp_posted e = udp_now s"
    using se by (simp_all add: settled_def e_def s1_def posted_toks_def udp_posted_def)
  have T: "te_ok (start_sweep (tcp_engine_new tc e))" "eng_toks (start_sweep (tcp_engine_new tc e)) = tcp_now s" for tc
    using e engine_new_inv [of e tc] by (auto simp: te_ok_def start_sweep_def)
  have U: "ue_inv (udp_engine_new tc e)" "ue_toks (udp_engine_new tc e) = udp_now s" for tc
    using e by (simp_all add: udp_engine_new_def ue_inv_def core_inv_def heap_ok_def armed_def ue_toks_def)
  have te: "te_env (start_sweep (tcp_engine_new tc e)) = e" "ue_env (udp_engine_new tc e) = e" for tc
    by (simp_all add: start_sweep_def tcp_engine_new_def udp_engine_new_def)
  have new: "turns s {#} {#} (start_read s')"
    if "ti_tcp s' = Some (start_sweep (tcp_engine_new tc e))" "ti_udp s' = Some (udp_engine_new tc e)" "ti_env s' = e" for s' tc
  proof -
    have "(start_sweep (tcp_engine_new tc e))\<lparr>te_env := e\<rparr> = start_sweep (tcp_engine_new tc e)" "(udp_engine_new tc e)\<lparr>ue_env := e\<rparr> = udp_engine_new tc e"
      using te by (metis tcp_engine.surjective tcp_engine.update_convs(10), metis udp_engine.surjective udp_engine.update_convs(16))
    hence t: "turns s {#} {#} s'" using T U that by (simp add: turns_def engines_ok_def tcp_now_def udp_now_def)
    have "ti_tcp (fold start_read_slot is x) = ti_tcp x \<and> ti_udp (fold start_read_slot is x) = ti_udp x \<and> ti_env (fold start_read_slot is x) = ti_env x" for "is" x
      by (induction "is" arbitrary: x) (simp_all add: start_read_slot_def)
    hence "turns s' {#} {#} (start_read s')" using t by (intro turns_frame) (simp_all add: start_read_def turns_def)
    thus ?thesis using turns_then [OF t] by simp
  qed
  have re: "turns s {#} {#} (reset_open_state s1)" using turns_then [OF s1 reset_turns(1) [OF ok1]] .
  show ?thesis unfolding start_engines_def Let_def nq_def [symmetric] spq_def [symmetric] s1_def [symmetric]
    using re reset_turns(2) [OF ok1] by (cases "packet_buffer_new (e_mem (ti_env s1)) (di_read_size_hint dev + 64) 64") (auto intro: new simp: e_def)
qed

lemma open_turns:
  assumes ok: "engines_ok s"
  shows "turns s {#} {#} (snd (open_impl p4 p6 device cfg s))"
    and "fst (open_impl p4 p6 device cfg s) \<noteq> Open_ok \<Longrightarrow> settled (snd (open_impl p4 p6 device cfg s))"
proof -
  define had where "had = (ti_open s \<or> captured s \<noteq> None \<or> ti_dev_open s)"
  define s0 where "s0 = s\<lparr>ti_open := False\<rparr>"
  define s1 where "s1 = (if had then cleanup s0 else s0)"
  have s0: "turns s {#} {#} s0" by (rule turns_frame [OF ok]) (simp_all add: s0_def)
  hence ok0: "engines_ok s0" by (simp add: turns_def)
  have s1: "turns s {#} {#} s1" using turns_then [OF s0 cleanup_turns(1) [OF ok0]] s0 by (simp add: s1_def)
  have se: "settled s1"
  proof (cases had)
    case True
    thus ?thesis using cleanup_turns(2) [OF ok0] by (simp add: s1_def)
  next
    case False
    hence n: "ti_tcp s0 = None" "s1 = s0" by (auto simp: had_def captured_def s0_def s1_def split: if_splits)
    moreover have "ti_udp s0 = None" using n(1) engines_both [OF ok0] by simp
    ultimately show ?thesis using ok0 by (simp add: settled_def tcp_now_def udp_now_def engines_ok_def)
  qed
  have ok1: "engines_ok s1" using s1 by (simp add: turns_def)
  have loc: "turns s {#} {#} x \<and> engines_ok x \<and> settled x" if "ti_tcp x = ti_tcp s1" "ti_udp x = ti_udp s1" "ti_env x = ti_env s1" for x
  proof -
    have t: "turns s1 {#} {#} x" by (rule turns_frame [OF ok1]) (use that in simp_all)
    thus ?thesis using turns_then [OF s1 t] settled_frame [OF se t] that by (simp add: turns_def)
  qed
  have r: "turns s {#} {#} (reset_open_state x)" "settled (reset_open_state x)" "turns s {#} {#} (snd (start_engines cfg dev x))"
      "fst (start_engines cfg dev x) \<noteq> Open_ok \<longrightarrow> settled (snd (start_engines cfg dev x))"
    if "ti_tcp x = ti_tcp s1" "ti_udp x = ti_udp s1" "ti_env x = ti_env s1" for x dev
    using turns_then loc [OF that] reset_turns start_engines_turns by blast+
  show "turns s {#} {#} (snd (open_impl p4 p6 device cfg s))"
    "fst (open_impl p4 p6 device cfg s) \<noteq> Open_ok \<Longrightarrow> settled (snd (open_impl p4 p6 device cfg s))"
    unfolding open_impl_def Let_def had_def [symmetric] s0_def [symmetric] s1_def [symmetric]
    by (simp add: r loc split: sum.splits) (auto simp: r(2) loc intro!: r(4) [rule_format] split: sum.splits if_splits)
qed

end
