(* ===== verification/Tunio_Run.thy ===== *)
theory Tunio_Run
  imports Tunio_System
begin

text \<open>
  Runs of the whole program: what can happen to a \<^verbatim>\<open>tunio_impl\<close>, in any order, and the
  properties that hold in every state reached. Application calls and timers of an engine are events of
  that engine; packets reach the engines only through the read pump.
\<close>

section \<open>Events\<close>

text \<open>The engine events that do not come through \<^verbatim>\<open>tunio_impl\<close>: timers and calls on flows and sessions.\<close>

fun tcp_call :: "tcp_event \<Rightarrow> bool" where
  "tcp_call (Ev_packet w ip p) = False"
| "tcp_call (Ev_time t) = False"
| "tcp_call (Ev_device_done ec n q) = False"
| "tcp_call (Ev_accept h) = False"
| "tcp_call Ev_cancel_accepts = False"
| "tcp_call Ev_close_all = False"
| "tcp_call _ = True"

fun udp_call :: "udp_event \<Rightarrow> bool" where
  "udp_call (Uv_packet ip p) = False"
| "udp_call (Uv_time t) = False"
| "udp_call (Uv_device_done ec n q) = False"
| "udp_call (Uv_accept h) = False"
| "udp_call Uv_cancel_accepts = False"
| "udp_call Uv_close_all = False"
| "udp_call _ = True"

datatype ti_event =
    Ti_open "string \<Rightarrow> error_code + byte list" "string \<Rightarrow> error_code + byte list" "dev_call \<Rightarrow> error_code + dev_info" open_config
  | Ti_close bool
  | Ti_task
  | Ti_read u32 error_code "byte list" nat nat u64
  | Ti_accept_tcp bool nat
  | Ti_accept_udp bool nat
  | Ti_cancel_tcp bool
  | Ti_cancel_udp bool
  | Ti_time int
  | Ti_write_done error_code nat nat
  | Ti_tcp tcp_event
  | Ti_udp udp_event

fun ti_step :: "ti_event \<Rightarrow> tunio_impl \<Rightarrow> tunio_impl" where
  "ti_step (Ti_open p4 p6 device cfg) s = snd (open_impl p4 p6 device cfg s)"
| "ti_step (Ti_close inside) s = close_impl inside s"
| "ti_step Ti_task s = (case ti_tasks s of [] \<Rightarrow> s | t # ts \<Rightarrow> run_task t (s\<lparr>ti_tasks := ts\<rparr>))"
| "ti_step (Ti_read w ec data i q epoch) s =
     snd (on_read w ec (length data) i epoch (device_fill data i epoch (s\<lparr>ti_reads := remove1 (i, q, epoch) (ti_reads s)\<rparr>)))"
| "ti_step (Ti_accept_tcp inside h) s = async_accept_tcp inside h s"
| "ti_step (Ti_accept_udp inside h) s = async_accept_udp inside h s"
| "ti_step (Ti_cancel_tcp inside) s = cancel_tcp_accepts inside s"
| "ti_step (Ti_cancel_udp inside) s = cancel_udp_accepts inside s"
| "ti_step (Ti_time t) s = with_env (\<lambda>e. e\<lparr>e_now := max t (e_now e)\<rparr>) s"
| "ti_step (Ti_write_done ec n q) s = with_env (on_write_done ec n q) s"
| "ti_step (Ti_tcp ev) s = with_tcp (tcp_step ev) s"
| "ti_step (Ti_udp ev) s = with_udp (udp_step ev) s"

text \<open>
  The device completes reads that are outstanding, with no more bytes than the buffer has room for.
\<close>

fun ti_enabled :: "ti_event \<Rightarrow> tunio_impl \<Rightarrow> bool" where
  "ti_enabled (Ti_read w ec data i q epoch) s =
     ((i, q, epoch) \<in> set (ti_reads s) \<and>
      (epoch = ti_epoch s \<and> i < length (ti_read_bufs s) \<longrightarrow> length data \<le> pb_writable_size (ti_read_bufs s ! i)))"
| "ti_enabled (Ti_tcp ev) s =
     (tcp_call ev \<and> (case ti_tcp s of None \<Rightarrow> False | Some t \<Rightarrow> enabled ev (t\<lparr>te_env := ti_env s\<rparr>)))"
| "ti_enabled (Ti_udp ev) s =
     (udp_call ev \<and> (case ti_udp s of None \<Rightarrow> False | Some u \<Rightarrow> udp_enabled {#} ev (u\<lparr>ue_env := ti_env s\<rparr>)))"
| "ti_enabled _ s = True"

text \<open>The handlers an event submits.\<close>

fun tcp_given :: "ti_event \<Rightarrow> tok multiset" where
  "tcp_given (Ti_accept_tcp inside h) = {#Tk_accept h#}"
| "tcp_given (Ti_tcp ev) = submitted ev"
| "tcp_given _ = {#}"

fun udp_given :: "ti_event \<Rightarrow> udp_tok multiset" where
  "udp_given (Ti_accept_udp inside h) = {#Ut_accept h#}"
| "udp_given (Ti_udp ev) = udp_submitted ev"
| "udp_given _ = {#}"

inductive ti_run :: "env \<Rightarrow> ti_event list \<Rightarrow> tunio_impl \<Rightarrow> bool" for e where
  start: "ti_run e [] (tunio_impl_new e)"
| event: "ti_run e evs s \<Longrightarrow> ti_enabled ev s \<Longrightarrow> ti_run e (evs @ [ev]) (ti_step ev s)"

inductive_cases ti_run_lastE: "ti_run e (evs @ [ev]) s"

section \<open>Ledgers\<close>

fun task_tcp :: "strand_task \<Rightarrow> tok multiset" where
  "task_tcp (Task_accept_tcp ep h) = {#Tk_accept h#}"
| "task_tcp _ = {#}"

fun task_udp :: "strand_task \<Rightarrow> udp_tok multiset" where
  "task_udp (Task_accept_udp ep h) = {#Ut_accept h#}"
| "task_udp _ = {#}"

definition tcp_live :: "tunio_impl \<Rightarrow> tok multiset" where
  "tcp_live s = tcp_now s + sum_list (map task_tcp (ti_tasks s))"

definition udp_live :: "tunio_impl \<Rightarrow> udp_tok multiset" where
  "udp_live s = udp_now s + sum_list (map task_udp (ti_tasks s))"

lemma task_toks:
  "(case t of Task_accept_tcp ep h \<Rightarrow> {#Tk_accept h#} | _ \<Rightarrow> {#}) = task_tcp t"
  "(case t of Task_accept_udp ep h \<Rightarrow> {#Ut_accept h#} | _ \<Rightarrow> {#}) = task_udp t"
  by (cases t; simp)+

lemmas run_task_toks = run_task_turns [unfolded task_toks]

text \<open>Only \<open>dispatch\<close> adds to the tasks.\<close>

lemma tasks_frames [simp]:
  "ti_tasks (with_tcp g s) = ti_tasks s" "ti_tasks (with_udp h s) = ti_tasks s" "ti_tasks (with_env k s) = ti_tasks s"
  "ti_tasks (start_read_slot i s) = ti_tasks s" "ti_tasks (restart_slot i s) = ti_tasks s" "ti_tasks (device_fill d i ep s) = ti_tasks s"
  by (simp_all add: with_tcp_def with_udp_def with_env_def start_read_slot_def restart_slot_def device_fill_def Let_def split: option.splits)

lemma tasks_ops [simp]:
  "ti_tasks (cleanup s) = ti_tasks s" "ti_tasks (reset_open_state s) = ti_tasks s" "ti_tasks (run_task t s) = ti_tasks s"
  "ti_tasks (start_read s) = ti_tasks s"
proof -
  show c: "ti_tasks (cleanup s) = ti_tasks s" for s by (simp add: cleanup_def Let_def)
  show "ti_tasks (reset_open_state s) = ti_tasks s" by (simp add: reset_open_state_def c)
  show "ti_tasks (run_task t s) = ti_tasks s" by (simp add: run_task_def Let_def split: strand_task.splits)
  have "ti_tasks (fold start_read_slot is x) = ti_tasks x" for "is" x by (induction "is" arbitrary: x) simp_all
  thus "ti_tasks (start_read s) = ti_tasks s" by (simp add: start_read_def)
qed

lemma tasks_open [simp]: "ti_tasks (snd (open_impl p4 p6 device cfg s)) = ti_tasks s"
proof -
  have st: "ti_tasks (snd (start_engines cfg dev s)) = ti_tasks s" for dev s
    by (cases "packet_buffer_new (e_mem (ti_env s)) (di_read_size_hint dev + 64) 64") (simp_all add: start_engines_def Let_def)
  define s1 where "s1 = (if ti_open s \<or> captured s \<noteq> None \<or> ti_dev_open s then cleanup (s\<lparr>ti_open := False\<rparr>) else s\<lparr>ti_open := False\<rparr>)"
  have "ti_tasks s1 = ti_tasks s" by (simp add: s1_def)
  thus ?thesis unfolding open_impl_def Let_def s1_def [symmetric] by (simp add: st split: sum.splits)
qed

lemma tasks_handle_packet [simp]: "ti_tasks (snd (handle_packet w p s)) = ti_tasks s"
proof -
  have "ti_tasks (snd (send_reply re s)) = ti_tasks s" for re by (auto simp: send_reply_def split: sum.splits prod.splits)
  thus ?thesis by (simp add: handle_packet_def handle_icmp_def handle_icmpv6_def split: option.splits prod.splits)
qed

lemma tasks_on_read [simp]: "ti_tasks (snd (on_read w ec n i ep s)) = ti_tasks s"
proof -
  have "ti_tasks (snd (case handle_packet w p x of (y, s) \<Rightarrow> (y, restart_slot i s))) = ti_tasks x" for p x
    using tasks_handle_packet [of w p x] by (cases "handle_packet w p x") simp
  thus ?thesis by (simp add: on_read_def close_impl_def dispatch_def Let_def split: sum.splits option.splits)
qed

lemma dispatch_live:
  assumes ok: "engines_ok s"
  shows "engines_ok (dispatch inside t s) \<and> tcp_live (dispatch inside t s) = tcp_live s + task_tcp t \<and>
    udp_live (dispatch inside t s) = udp_live s + task_udp t"
proof (cases inside)
  case True
  thus ?thesis using run_task_toks [OF ok, of t] by (simp add: dispatch_def turns_def tcp_live_def udp_live_def)
next
  case False
  have "turns s {#} {#} (s\<lparr>ti_tasks := ti_tasks s @ [t]\<rparr>)" by (rule turns_frame [OF ok]) simp_all
  thus ?thesis using False by (simp add: dispatch_def turns_def tcp_live_def udp_live_def)
qed

lemma turns_live: "turns s a b s' \<Longrightarrow> ti_tasks s' = ti_tasks s \<Longrightarrow>
  engines_ok s' \<and> tcp_live s' = tcp_live s + a \<and> udp_live s' = udp_live s + b"
  by (simp add: turns_def tcp_live_def udp_live_def)

lemma ti_step_live:
  assumes ok: "engines_ok s" and en: "ti_enabled ev s"
  shows "engines_ok (ti_step ev s) \<and> tcp_live (ti_step ev s) = tcp_live s + tcp_given ev \<and> udp_live (ti_step ev s) = udp_live s + udp_given ev"
proof (cases ev)
  case (Ti_open p4 p6 device cfg)
  thus ?thesis using turns_live [OF open_turns(1) [OF ok]] by simp
next
  case (Ti_close inside)
  have "turns s {#} {#} (s\<lparr>ti_open := False\<rparr>)" by (rule turns_frame [OF ok]) simp_all
  from turns_live [OF this] dispatch_live [of "s\<lparr>ti_open := False\<rparr>" inside] ok
  show ?thesis using Ti_close by (simp add: close_impl_def Let_def)
next
  case Ti_task
  show ?thesis
  proof (cases "ti_tasks s")
    case (Cons t ts)
    have "turns s {#} {#} (s\<lparr>ti_tasks := ts\<rparr>)" by (rule turns_frame [OF ok]) simp_all
    moreover from this have "engines_ok (s\<lparr>ti_tasks := ts\<rparr>)" by (simp add: turns_def)
    from run_task_toks [OF this, of t] have "turns (s\<lparr>ti_tasks := ts\<rparr>) (task_tcp t) (task_udp t) (run_task t (s\<lparr>ti_tasks := ts\<rparr>))" .
    ultimately show ?thesis using Cons Ti_task by (simp add: turns_def tcp_live_def udp_live_def ac_simps)
  qed (use Ti_task ok in simp)
next
  case (Ti_read w ec data i q ep)
  define s1 where "s1 = device_fill data i ep (s\<lparr>ti_reads := remove1 (i, q, ep) (ti_reads s)\<rparr>)"
  have s1: "turns s {#} {#} s1" by (rule turns_frame [OF ok]) (simp_all add: s1_def device_fill_def)
  hence "engines_ok s1" by (simp add: turns_def)
  from turns_then [OF s1 on_read_turns [OF this]] have "turns s {#} {#} (ti_step ev s)" by (simp add: Ti_read s1_def)
  thus ?thesis using turns_live [of s "{#}" "{#}" "ti_step ev s"] by (simp add: Ti_read)
next
  case (Ti_time t)
  have "shared (e\<lparr>e_now := max t (e_now e)\<rparr>) = shared e" for e by (simp add: shared_def udp_posted_def)
  thus ?thesis using turns_live [OF turns_env [OF ok]] Ti_time by simp
next
  case (Ti_write_done ec n q)
  have "shared (on_write_done ec n q e) = shared e" for e
    using quiet_on_write_done [of e ec n q e] by (simp add: shared_def quiet_env_def)
  thus ?thesis using turns_live [OF turns_env [OF ok]] Ti_write_done by simp
next
  case (Ti_tcp tv)
  hence c: "tcp_call tv" "ti_tcp s \<noteq> None" using en by (auto split: option.splits)
  have "\<And>t. tv \<noteq> Ev_time t" using c(1) by auto
  hence "turns s (submitted tv) {#} (with_tcp (tcp_step tv) s)"
    using tcp_step_inv side_tcp_step [of tv] en c Ti_tcp by (intro with_tcp_turns [OF ok]) auto
  thus ?thesis using turns_live Ti_tcp by simp
next
  case (Ti_udp uv)
  hence c: "udp_call uv" "ti_udp s \<noteq> None" using en by (auto split: option.splits)
  have "turns s {#} (udp_submitted uv) (with_udp (udp_step uv) s)"
    using udp_step_inv [of _ "{#}" uv] tside_udp_step [of uv] en c Ti_udp by (intro with_udp_turns [OF ok]) auto
  thus ?thesis using turns_live Ti_udp by simp
qed (use dispatch_live [OF ok] in \<open>simp_all add: async_accept_tcp_def async_accept_udp_def cancel_tcp_accepts_def cancel_udp_accepts_def\<close>)

definition ti_fresh :: "env \<Rightarrow> bool" where
  "ti_fresh e \<longleftrightarrow> tcp_connections (e_stats e) = 0 \<and> udp_sessions (e_stats e) = 0 \<and> e_posted e = []"

lemma ti_run_live:
  assumes "ti_run e evs s" "ti_fresh e"
  shows "engines_ok s \<and> tcp_live s = sum_list (map tcp_given evs) \<and> udp_live s = sum_list (map udp_given evs)"
  using assms
proof (induction rule: ti_run.induct)
  case start
  thus ?case by (simp add: ti_fresh_def engines_ok_def tunio_impl_new_def tcp_live_def udp_live_def tcp_now_def udp_now_def posted_toks_def udp_posted_def)
next
  case (event evs s ev)
  thus ?case using ti_step_live [of s ev] by simp
qed

section \<open>The read pump\<close>

text \<open>The state of the pump, which the engines and the packet handlers do not touch.\<close>

definition pump_of :: "tunio_impl \<Rightarrow> bool \<times> u64 \<times> nat \<times> nat \<times> packet_buffer list \<times> bool list \<times> (nat \<times> nat \<times> u64) list" where
  "pump_of s = (ti_open s, ti_epoch s, ti_num_queues s, ti_slots_per_queue s, ti_read_bufs s, ti_read_inflight s, ti_reads s)"

lemma pump_frames [simp]:
  "pump_of (with_tcp g s) = pump_of s" "pump_of (with_udp h s) = pump_of s" "pump_of (with_env k s) = pump_of s"
  by (simp_all add: pump_of_def with_tcp_def with_udp_def with_env_def Let_def split: option.splits)

lemma pump_cleanup [simp]: "pump_of (cleanup s) = pump_of s"
proof -
  have "pump_of (x\<lparr>ti_dev_open := b\<rparr>) = pump_of x" for x b by (simp add: pump_of_def)
  thus ?thesis by (simp add: cleanup_def Let_def)
qed

lemma pump_task [simp]: "pump_of (run_task t s) = pump_of s"
proof -
  have "pump_of (x\<lparr>ti_dev_open := b\<rparr>) = pump_of x" for x b by (simp add: pump_of_def)
  thus ?thesis by (simp add: run_task_def Let_def split: strand_task.splits)
qed

lemma pump_dispatch [simp]: "pump_of (dispatch inside t s) = pump_of s"
proof -
  have "pump_of (x\<lparr>ti_tasks := b\<rparr>) = pump_of x" for x b by (simp add: pump_of_def)
  thus ?thesis by (simp add: dispatch_def)
qed

lemma pump_handle_packet [simp]: "pump_of (snd (handle_packet w p s)) = pump_of s"
proof -
  have "pump_of (s\<lparr>ti_env := x\<rparr>) = pump_of s" for x by (simp add: pump_of_def)
  hence "pump_of (snd (send_reply re s)) = pump_of s" for re by (simp add: send_reply_def split: sum.splits prod.splits)
  thus ?thesis by (simp add: handle_packet_def handle_icmp_def handle_icmpv6_def split: option.splits prod.splits)
qed

text \<open>
  \<open>reads_ok n s\<close>: the current epoch is the number of the opens that succeeded, at most \<open>n\<close>; no outstanding
  read is of a later one; and while the engine is open, exactly one read of the current epoch is
  outstanding for every slot, on the slot's queue, into a buffer that is empty.
\<close>

definition current_reads :: "tunio_impl \<Rightarrow> (nat \<times> nat \<times> u64) list" where
  "current_reads s = filter (\<lambda>r. snd (snd r) = ti_epoch s) (ti_reads s)"

definition all_slots :: "tunio_impl \<Rightarrow> (nat \<times> nat \<times> u64) list" where
  "all_slots s = map (\<lambda>i. (i, i div ti_slots_per_queue s, ti_epoch s)) [0..<ti_num_queues s * ti_slots_per_queue s]"

definition slots_ok :: "tunio_impl \<Rightarrow> bool" where
  "slots_ok s \<longleftrightarrow> 0 < ti_num_queues s \<and> 0 < ti_slots_per_queue s \<and>
     ti_read_inflight s = replicate (ti_num_queues s * ti_slots_per_queue s) True \<and>
     length (ti_read_bufs s) = ti_num_queues s * ti_slots_per_queue s \<and>
     (\<forall>b\<in>set (ti_read_bufs s). pb_wf b \<and> pb_data_size b = 0) \<and>
     mset (current_reads s) = mset (all_slots s)"

definition reads_ok :: "nat \<Rightarrow> tunio_impl \<Rightarrow> bool" where
  "reads_ok n s \<longleftrightarrow>
     (\<exists>k\<le>n. ti_epoch s = of_nat k \<and> (\<forall>r\<in>set (ti_reads s). \<exists>j\<le>k. snd (snd r) = of_nat j)) \<and> (ti_open s \<longrightarrow> slots_ok s)"

lemma slots_pump: "pump_of s' = pump_of s \<Longrightarrow> slots_ok s' = slots_ok s"
  by (simp add: pump_of_def slots_ok_def current_reads_def all_slots_def)

lemma reads_pump: "pump_of s' = pump_of s \<Longrightarrow> reads_ok n s' = reads_ok n s"
  using slots_pump [of s' s] by (simp add: reads_ok_def pump_of_def)

lemma reads_closed: "ti_epoch s' = ti_epoch s \<Longrightarrow> ti_reads s' = ti_reads s \<Longrightarrow> \<not> ti_open s' \<Longrightarrow> reads_ok n s \<Longrightarrow> reads_ok n s'"
  by (simp add: reads_ok_def)

lemma reads_mono: "reads_ok n s \<Longrightarrow> n \<le> m \<Longrightarrow> reads_ok m s"
  unfolding reads_ok_def using order_trans by blast

text \<open>Starting the pump of a new generation, which no earlier one is mistaken for.\<close>

lemma epoch_fresh: assumes "j \<le> k" "Suc k < 2 ^ 64" shows "(of_nat j :: u64) \<noteq> of_nat (Suc k)"
proof
  assume "(of_nat j :: u64) = of_nat (Suc k)"
  hence "unat (of_nat j :: u64) = unat (of_nat (Suc k) :: u64)" by simp
  thus False using assms by (simp add: unat_of_nat del: of_nat_Suc)
qed

lemma start_reads:
  assumes "ti_open s" "ti_read_inflight s = replicate n False"
  shows "fold start_read_slot [0..<n] s = s\<lparr>ti_read_inflight := replicate n True,
    ti_reads := ti_reads s @ map (\<lambda>i. (i, i div ti_slots_per_queue s, ti_epoch s)) [0..<n]\<rparr>"
proof -
  have "m \<le> n \<Longrightarrow> fold start_read_slot [0..<m] s = s\<lparr>ti_read_inflight := replicate m True @ replicate (n - m) False,
    ti_reads := ti_reads s @ map (\<lambda>i. (i, i div ti_slots_per_queue s, ti_epoch s)) [0..<m]\<rparr>" for m
  proof (induction m)
    case 0
    thus ?case using assms(2) by (cases s) simp
  next
    case (Suc m)
    have u: "(replicate m True @ replicate (n - m) False)[m := True] = replicate (Suc m) True @ replicate (n - Suc m) False"
      using Suc.prems by (simp add: list_update_append replicate_app_Cons_same flip: Cons_replicate_eq)
        (metis Suc_diff_Suc Suc_le_lessD list_update_code(2) replicate_Suc replicate_app_Cons_same)
    show ?case using Suc assms(1) by (simp add: start_read_slot_def nth_append u)
  qed
  from this [of n] show ?thesis by simp
qed

lemma start_read_frame: "ti_epoch (start_read_slot i s) = ti_epoch s" "ti_open (start_read_slot i s) = ti_open s"
  by (simp_all add: start_read_slot_def)

lemma start_engines_reads:
  assumes r: "reads_ok n s" and c: "\<not> ti_open s" and n: "Suc n < 2 ^ 64"
  shows "reads_ok (Suc n) (snd (start_engines cfg dev s))"
proof -
  define nq where "nq = max 1 (min (di_queue_count dev) k_max_queues)"
  define spq where "spq = max 1 (k_read_slots div nq)"
  define s1 where "s1 = s\<lparr>ti_dev_open := True, ti_mtu := di_mtu dev, ti_num_queues := nq, ti_slots_per_queue := spq, ti_read_bufs := []\<rparr>"
  obtain k where k: "k \<le> n" "ti_epoch s = of_nat k" "\<forall>r\<in>set (ti_reads s). \<exists>j\<le>k. snd (snd r) = of_nat j"
    using r unfolding reads_ok_def by blast
  show ?thesis
  proof (cases "packet_buffer_new (e_mem (ti_env s1)) (di_read_size_hint dev + 64) 64")
    case (Inl x)
    have "pump_of (cleanup (s1\<lparr>ti_open := False\<rparr>)) = pump_of (s1\<lparr>ti_open := False\<rparr>)" by simp
    hence "reads_ok n (reset_open_state s1)"
      by (intro reads_closed [OF _ _ _ r]) (simp_all add: reset_open_state_def pump_of_def, simp_all add: s1_def)
    hence "reads_ok (Suc n) (reset_open_state s1)" by (rule reads_mono) simp
    thus ?thesis unfolding start_engines_def Let_def nq_def [symmetric] spq_def [symmetric] s1_def [symmetric] Inl by simp
  next
    case (Inr b)
    have b: "pb_wf b" "pb_data_size b = 0" using Inr by (auto simp: packet_buffer_new_def pb_wf_def split: if_splits)
    have old: "filter (\<lambda>r. snd (snd r) = ti_epoch s + 1) (ti_reads s) = []"
    proof -
      have "(of_nat j :: u64) \<noteq> of_nat (Suc k)" if "j \<le> k" for j
        using epoch_fresh [OF that] k(1) n by simp
      moreover have "ti_epoch s + 1 = of_nat (Suc k)" using k(2) by simp
      ultimately show ?thesis unfolding filter_empty_conv using k(3) by metis
    qed
    define s2 where "s2 = snd (start_engines cfg dev s)"
    have s2: "ti_open s2" "ti_epoch s2 = ti_epoch s + 1" "ti_num_queues s2 = nq" "ti_slots_per_queue s2 = spq"
      "ti_read_bufs s2 = replicate (nq * spq) b" "ti_read_inflight s2 = replicate (nq * spq) True"
      "ti_reads s2 = ti_reads s @ map (\<lambda>i. (i, i div spq, ti_epoch s + 1)) [0..<nq * spq]"
      unfolding s2_def start_engines_def Let_def nq_def [symmetric] spq_def [symmetric] s1_def [symmetric] Inr sum.case
      by (simp_all add: start_read_def start_reads) (simp_all add: s1_def)
    have "0 < nq" "0 < spq" by (auto simp: nq_def spq_def less_max_iff_disj)
    hence "slots_ok s2" using old b by (simp add: slots_ok_def s2 current_reads_def all_slots_def filter_map o_def)
    moreover have "\<exists>k'\<le>Suc n. ti_epoch s2 = of_nat k' \<and> (\<forall>r\<in>set (ti_reads s2). \<exists>j\<le>k'. snd (snd r) = of_nat j)"
    proof (rule exI [of _ "Suc k"], intro conjI ballI)
      show "Suc k \<le> Suc n" "ti_epoch s2 = of_nat (Suc k)" using k by (simp_all add: s2)
      fix r assume r: "r \<in> set (ti_reads s2)"
      show "\<exists>j\<le>Suc k. snd (snd r) = of_nat j"
      proof (cases "r \<in> set (ti_reads s)")
        case True
        thus ?thesis using k(3) le_SucI by blast
      next
        case False
        hence "snd (snd r) = of_nat (Suc k)" using r k(2) by (auto simp: s2)
        thus ?thesis by blast
      qed
    qed
    ultimately show ?thesis by (simp add: reads_ok_def flip: s2_def)
  qed
qed

lemma open_reads:
  assumes r: "reads_ok n s" and n: "Suc n < 2 ^ 64"
  shows "reads_ok (Suc n) (snd (open_impl p4 p6 device cfg s))"
proof -
  define s0 where "s0 = s\<lparr>ti_open := False\<rparr>"
  define s1 where "s1 = (if ti_open s \<or> captured s \<noteq> None \<or> ti_dev_open s then cleanup s0 else s0)"
  have p: "pump_of s1 = pump_of s0" by (simp add: s1_def)
  hence s1: "ti_epoch s1 = ti_epoch s" "ti_reads s1 = ti_reads s" "\<not> ti_open s1" by (simp_all add: pump_of_def s0_def)
  have loc: "reads_ok n x" "reads_ok (Suc n) x" if "ti_epoch x = ti_epoch s1" "ti_reads x = ti_reads s1" "\<not> ti_open x" for x
    using reads_closed [OF _ _ that(3) r] that(1,2) s1 reads_mono [of n x "Suc n"] by simp_all
  have se: "reads_ok (Suc n) (snd (start_engines cfg dev x))" if "ti_epoch x = ti_epoch s1" "ti_reads x = ti_reads s1" "\<not> ti_open x" for x dev
    using start_engines_reads [OF loc(1) [OF that] that(3) n] .
  have re: "reads_ok (Suc n) (reset_open_state x)" if "ti_epoch x = ti_epoch s1" "ti_reads x = ti_reads s1" for x
  proof -
    have "pump_of (cleanup (x\<lparr>ti_open := False\<rparr>)) = pump_of (x\<lparr>ti_open := False\<rparr>)" by simp
    thus ?thesis using that by (intro loc(2)) (simp_all add: reset_open_state_def pump_of_def)
  qed
  show ?thesis unfolding open_impl_def Let_def s0_def [symmetric] s1_def [symmetric]
    using s1(3) by (simp add: se re loc(2) split: sum.splits)
qed

text \<open>A completed read is taken out of the outstanding ones and its slot is restarted.\<close>

lemma mset_replace_read:
  assumes "mset (filter P xs) = M" "x \<in># M" "P x" shows "mset (filter P (remove1 x xs @ [x])) = M"
  using assms by (simp add: filter_remove1)

lemma slot_restarted:
  assumes ok: "slots_ok s" and i: "i < ti_num_queues s * ti_slots_per_queue s" and b: "pb_wf b" "pb_data_size b = 0" and op: "ti_open s'"
    and s': "ti_epoch s' = ti_epoch s" "ti_num_queues s' = ti_num_queues s" "ti_slots_per_queue s' = ti_slots_per_queue s"
      "ti_read_bufs s' = (ti_read_bufs s)[i := b]" "ti_read_inflight s' = (ti_read_inflight s)[i := False]"
      "ti_reads s' = remove1 (i, i div ti_slots_per_queue s, ti_epoch s) (ti_reads s)"
  shows "slots_ok (start_read_slot i s')"
proof -
  let ?r = "(i, i div ti_slots_per_queue s, ti_epoch s)"
  have m: "mset (filter (\<lambda>r. snd (snd r) = ti_epoch s) (ti_reads s)) = mset (all_slots s)"
    using ok by (simp add: slots_ok_def current_reads_def)
  have "?r \<in># mset (all_slots s)" using i by (auto simp: all_slots_def)
  from mset_replace_read [OF m this] have "mset (filter (\<lambda>r. snd (snd r) = ti_epoch s) (remove1 ?r (ti_reads s) @ [?r])) = mset (all_slots s)"
    by simp
  moreover have "\<forall>c\<in>set ((ti_read_bufs s)[i := b]). pb_wf c \<and> pb_data_size c = 0"
    using ok b by (auto simp: slots_ok_def dest: set_update_subset_insert [THEN subsetD])
  moreover have "start_read_slot i s' = s'\<lparr>ti_read_inflight := ti_read_inflight s, ti_reads := remove1 ?r (ti_reads s) @ [?r]\<rparr>"
    using ok i op s' by (simp add: start_read_slot_def slots_ok_def list_update_id)
      (metis length_replicate list_update_id nth_replicate)
  ultimately show ?thesis using ok s' by (simp add: slots_ok_def current_reads_def all_slots_def)
qed

lemma on_read_reads:
  assumes r: "reads_ok n s" and en: "ti_enabled (Ti_read w ec data i q ep) s"
  shows "reads_ok n (ti_step (Ti_read w ec data i q ep) s)"
proof -
  define s0 where "s0 = device_fill data i ep (s\<lparr>ti_reads := remove1 (i, q, ep) (ti_reads s)\<rparr>)"
  have f: "ti_open s0 = ti_open s" "ti_epoch s0 = ti_epoch s" "ti_num_queues s0 = ti_num_queues s" "ti_slots_per_queue s0 = ti_slots_per_queue s"
    "ti_read_inflight s0 = ti_read_inflight s" "ti_reads s0 = remove1 (i, q, ep) (ti_reads s)"
    by (simp_all add: s0_def device_fill_def)
  obtain k where k: "k \<le> n" "ti_epoch s = of_nat k" "\<forall>r\<in>set (ti_reads s). \<exists>j\<le>k. snd (snd r) = of_nat j"
    using r unfolding reads_ok_def by blast
  have early: "reads_ok n x" if "ti_epoch x = ti_epoch s" "set (ti_reads x) \<subseteq> insert (i, i div ti_slots_per_queue s, ti_epoch s) (set (ti_reads s))"
      "ti_open x \<longrightarrow> slots_ok x" for x
    unfolding reads_ok_def using k that by (intro conjI exI [of _ k]) fastforce+
  have rem: "set (remove1 (i, q, ep) (ti_reads s)) \<subseteq> set (ti_reads s)" by (rule set_remove1_subset)
  show ?thesis
  proof (cases "ti_open s \<and> ep = ti_epoch s")
    case False
    have "slots_ok s0" if op: "ti_open s"
    proof -
      have ne: "ep \<noteq> ti_epoch s" using False op by simp
      hence b: "ti_read_bufs s0 = ti_read_bufs s" by (simp add: s0_def device_fill_def)
      have "filter (\<lambda>r. snd (snd r) = ti_epoch s) (remove1 (i, q, ep) (ti_reads s)) = filter (\<lambda>r. snd (snd r) = ti_epoch s) (ti_reads s)"
        using ne by (induction "ti_reads s") (simp_all add: filter_remove1 remove1_idem)
      thus ?thesis using r op f b by (simp add: reads_ok_def slots_ok_def current_reads_def all_slots_def)
    qed
    hence "reads_ok n s0" using rem f by (intro early) auto
    moreover have "ti_step (Ti_read w ec data i q ep) s = s0"
      using False f by (simp add: on_read_def flip: s0_def)
    ultimately show ?thesis by simp
  next
    case True
    hence ep: "ep = ti_epoch s" and op: "ti_open s" by auto
    have ok: "slots_ok s" using r op by (simp add: reads_ok_def)
    have "(i, q, ep) \<in> set (current_reads s)" using en ep by (simp add: current_reads_def)
    hence "(i, q, ep) \<in># mset (all_slots s)" using ok by (metis set_mset_mset slots_ok_def)
    hence i: "i < ti_num_queues s * ti_slots_per_queue s" and q: "q = i div ti_slots_per_queue s" by (auto simp: all_slots_def)
    have il: "i < length (ti_read_bufs s)" using ok i by (simp add: slots_ok_def)
    define b where "b = pb_poke (ti_read_bufs s ! i) 0 data"
    have wf: "pb_wf (ti_read_bufs s ! i)" "pb_data_size (ti_read_bufs s ! i) = 0" using ok il by (auto simp: slots_ok_def)
    have len: "length data \<le> pb_writable_size (ti_read_bufs s ! i)" using en ep il by simp
    have b: "pb_wf b" "pb_data_size b = 0" "pb_writable_size b = pb_writable_size (ti_read_bufs s ! i)"
      using wf len pb_writable_exact [OF wf(1)] by (auto simp: b_def pb_poke_def pb_wf_def pb_writable_size_def)
    have bufs: "ti_read_bufs s0 = (ti_read_bufs s)[i := b]" using ep il by (simp add: s0_def device_fill_def b_def)
    have ix: "ti_read_bufs s0 ! i = b" using bufs il by simp
    define s1 where "s1 = s0\<lparr>ti_read_inflight := (ti_read_inflight s0)[i := False]\<rparr>"
    have reads1: "ti_reads s1 = remove1 (i, i div ti_slots_per_queue s, ti_epoch s) (ti_reads s)" using f ep q by (simp add: s1_def)
    have f1: "ti_open s1" "ti_epoch s1 = ti_epoch s" "ti_num_queues s1 = ti_num_queues s" "ti_slots_per_queue s1 = ti_slots_per_queue s"
      "ti_read_inflight s1 = (ti_read_inflight s)[i := False]" "ti_read_bufs s1 = (ti_read_bufs s)[i := b]"
      using f op bufs by (simp_all add: s1_def)
    have go: "reads_ok n (start_read_slot i x)" if "pump_of x = pump_of (s1\<lparr>ti_read_bufs := (ti_read_bufs s)[i := b']\<rparr>)" "pb_wf b'" "pb_data_size b' = 0" for x b'
    proof (rule early)
      have x: "ti_open x" "ti_epoch x = ti_epoch s" "ti_num_queues x = ti_num_queues s" "ti_slots_per_queue x = ti_slots_per_queue s"
        "ti_read_bufs x = (ti_read_bufs s)[i := b']" "ti_read_inflight x = (ti_read_inflight s)[i := False]"
        "ti_reads x = remove1 (i, i div ti_slots_per_queue s, ti_epoch s) (ti_reads s)"
        using that(1) f1 reads1 by (simp_all add: pump_of_def)
      show "ti_open (start_read_slot i x) \<longrightarrow> slots_ok (start_read_slot i x)" using slot_restarted [OF ok i that(2,3) x(1,2,3,4,5,6,7)] by simp
      show "ti_epoch (start_read_slot i x) = ti_epoch s" by (simp add: start_read_slot_def x)
      show "set (ti_reads (start_read_slot i x)) \<subseteq> insert (i, i div ti_slots_per_queue s, ti_epoch s) (set (ti_reads s))"
        using set_remove1_subset [of "(i, i div ti_slots_per_queue s, ti_epoch s)" "ti_reads s"] by (auto simp: start_read_slot_def x)
    qed
    have restart: "reads_ok n (restart_slot i x)" if "pump_of x = pump_of (s1\<lparr>ti_read_bufs := (ti_read_bufs s)[i := b']\<rparr>)" "pb_wf b'" for x b'
    proof -
      have "ti_read_bufs x = (ti_read_bufs s)[i := b']" using that(1) by (simp add: pump_of_def)
      hence "pump_of (x\<lparr>ti_read_bufs := (ti_read_bufs x)[i := pb_reset (ti_read_bufs x ! i)]\<rparr>) =
          pump_of (s1\<lparr>ti_read_bufs := (ti_read_bufs s)[i := pb_reset b']\<rparr>)"
        using that(1) il by (simp add: pump_of_def)
      thus ?thesis unfolding restart_slot_def by (rule go) (use that(2) pb_reset_wf in \<open>auto simp: pb_reset_def\<close>)
    qed
    have s1b: "pump_of (s1\<lparr>ti_read_bufs := (ti_read_bufs s)[i := b]\<rparr>) = pump_of s1" using f1 by (simp add: pump_of_def)
    have err: "reads_ok n (if ti_open x then start_read_slot i x else x)"
      if x: "x = (if ec \<noteq> EC_operation_aborted then close_impl True s1 else s1)" for x
    proof (cases "ec \<noteq> EC_operation_aborted")
      case True
      have "pump_of x = pump_of (s1\<lparr>ti_open := False\<rparr>)" using True f1 x by (simp add: close_impl_def Let_def)
      hence "ti_epoch x = ti_epoch s" "ti_reads x = ti_reads s1" "\<not> ti_open x" using f1 by (simp_all add: pump_of_def)
      thus ?thesis using rem reads1 ep q by (simp add: early subset_insertI2)
    next
      case False
      thus ?thesis using go [OF _ b(1,2), of s1] s1b f1 x by simp
    qed
    obtain b' where c: "pb_commit (length data) b = Inr b'" "pb_wf b'"
      using pb_commit_ok [OF b(1), of "length data"] pb_commit_wf [OF b(1)] len b(3) by metis
    have bufs': "(ti_read_bufs s0)[i := x] = (ti_read_bufs s)[i := x]" for x by (simp add: bufs)
    have upd: "pump_of (s1\<lparr>ti_read_bufs := (ti_read_bufs s1)[i := b']\<rparr>) = pump_of (s1\<lparr>ti_read_bufs := (ti_read_bufs s)[i := b']\<rparr>)"
      by (simp add: f1 pump_of_def)
    have hp: "reads_ok n (snd (case handle_packet w p (with_env add_rx_packets (s1\<lparr>ti_read_bufs := (ti_read_bufs s1)[i := b']\<rparr>)) of (x, s) \<Rightarrow> (x, restart_slot i s)))" for p
    proof -
      have "pump_of (snd (handle_packet w p (with_env add_rx_packets (s1\<lparr>ti_read_bufs := (ti_read_bufs s1)[i := b']\<rparr>)))) =
          pump_of (s1\<lparr>ti_read_bufs := (ti_read_bufs s)[i := b']\<rparr>)" by (simp add: upd)
      from restart [OF this c(2)] show ?thesis by (auto split: prod.splits)
    qed
    have dr: "reads_ok n (restart_slot i (with_env add_rx_dropped (s1\<lparr>ti_read_bufs := (ti_read_bufs s1)[i := b']\<rparr>)))"
      by (rule restart [OF _ c(2)]) (simp add: upd)
    have ix1: "ti_read_bufs s1 ! i = b" using ix by (simp add: s1_def)
    have "ti_step (Ti_read w ec data i q ep) s = snd (on_read w ec (length data) i ep s0)" by (simp add: s0_def)
    also have "reads_ok n \<dots>"
      unfolding on_read_def Let_def s1_def [symmetric] ix1 c(1) sum.case
      using True f err [OF refl] dr hp by (simp split: option.splits)
    finally show ?thesis .
  qed
qed

lemma ti_step_reads:
  assumes r: "reads_ok n s" and en: "ti_enabled ev s" and n: "Suc n < 2 ^ 64" shows "reads_ok (Suc n) (ti_step ev s)"
proof -
  have same: "reads_ok (Suc n) x" if "pump_of x = pump_of s" for x using reads_pump [OF that] reads_mono [OF r] by simp
  show ?thesis
  proof (cases ev)
    case (Ti_open p4 p6 device cfg)
    thus ?thesis using open_reads [OF r n] by simp
  next
    case (Ti_close inside)
    have "pump_of (close_impl inside s) = (if ti_open s then pump_of (s\<lparr>ti_open := False\<rparr>) else pump_of s)"
      by (simp add: close_impl_def Let_def)
    hence "reads_ok n (close_impl inside s)" using r by (auto simp: pump_of_def intro: reads_closed [OF _ _ _ r] split: if_splits)
    thus ?thesis using Ti_close reads_mono [of n _ "Suc n"] by simp
  next
    case Ti_task
    have "pump_of (s\<lparr>ti_tasks := ts\<rparr>) = pump_of s" for ts by (simp add: pump_of_def)
    thus ?thesis using Ti_task by (intro same) (simp split: list.splits)
  next
    case (Ti_read w ec data i q ep)
    thus ?thesis using on_read_reads [OF r, of w ec data i q ep] en reads_mono [of n _ "Suc n"] by simp
  qed (simp_all add: same async_accept_tcp_def async_accept_udp_def cancel_tcp_accepts_def cancel_udp_accepts_def)
qed

lemma ti_run_reads: "ti_run e evs s \<Longrightarrow> length evs < 2 ^ 64 \<Longrightarrow> reads_ok (length evs) s"
proof (induction rule: ti_run.induct)
  case start
  thus ?case by (simp add: reads_ok_def tunio_impl_new_def)
next
  case (event evs s ev)
  thus ?case using ti_step_reads [of "length evs" s ev] by simp
qed

end
