(* ===== verification/Tunio_Safety.thy ===== *)
theory Tunio_Safety
  imports Tunio_Run
begin

text \<open>
  What holds in every run of the program: both engines keep their invariants and account for every
  handler, the read pump loses no slot, reads and tasks of an earlier generation do not touch a later
  one, an open that fails leaves a closed program, and destruction completes every handler.
\<close>

section \<open>The result of opening\<close>

lemma epochs_kept [simp]: "ti_epoch (cleanup s) = ti_epoch s" "ti_open (cleanup s) = ti_open s" "ti_epoch (reset_open_state s) = ti_epoch s"
proof -
  have "pump_of (cleanup s) = pump_of s" "pump_of (cleanup (s\<lparr>ti_open := False\<rparr>)) = pump_of (s\<lparr>ti_open := False\<rparr>)" by simp_all
  thus "ti_epoch (cleanup s) = ti_epoch s" "ti_open (cleanup s) = ti_open s" "ti_epoch (reset_open_state s) = ti_epoch s"
    by (simp_all add: pump_of_def reset_open_state_def)
qed

lemma gen_frames [simp]:
  "ti_gen (with_tcp g s) = ti_gen s" "ti_gen (with_udp h s) = ti_gen s" "ti_gen (with_env k s) = ti_gen s"
  "ti_gen (start_read_slot i s) = ti_gen s" "ti_gen (restart_slot i s) = ti_gen s" "ti_gen (device_fill d i ep s) = ti_gen s"
  by (simp_all add: with_tcp_def with_udp_def with_env_def start_read_slot_def restart_slot_def device_fill_def Let_def split: option.splits)

lemma gen_ops [simp]:
  "ti_gen (cleanup s) = ti_gen s" "ti_gen (reset_open_state s) = ti_gen s" "ti_gen (run_task t s) = ti_gen s"
proof -
  show c: "ti_gen (cleanup s) = ti_gen s" for s by (simp add: cleanup_def Let_def)
  show "ti_gen (reset_open_state s) = ti_gen s" by (simp add: reset_open_state_def c)
  show "ti_gen (run_task t s) = ti_gen s" by (simp add: run_task_def Let_def split: strand_task.splits)
qed

lemma reset_closed [simp]: "ti_open (reset_open_state s) = False" "ti_tcp (reset_open_state s) = None" "ti_udp (reset_open_state s) = None"
  by (simp_all add: reset_open_state_def)

lemma start_read_keeps [simp]:
  "ti_open (start_read s) = ti_open s" "ti_epoch (start_read s) = ti_epoch s" "ti_gen (start_read s) = ti_gen s"
  "ti_tcp (start_read s) = ti_tcp s" "ti_read_bufs (start_read s) = ti_read_bufs s" "ti_num_queues (start_read s) = ti_num_queues s"
proof -
  have "ti_open (fold start_read_slot is x) = ti_open x \<and> ti_epoch (fold start_read_slot is x) = ti_epoch x \<and>
    ti_gen (fold start_read_slot is x) = ti_gen x \<and> ti_tcp (fold start_read_slot is x) = ti_tcp x \<and>
    ti_read_bufs (fold start_read_slot is x) = ti_read_bufs x \<and> ti_num_queues (fold start_read_slot is x) = ti_num_queues x" for "is" x
    by (induction "is" arbitrary: x) (simp_all add: start_read_slot_def)
  thus "ti_open (start_read s) = ti_open s" "ti_epoch (start_read s) = ti_epoch s" "ti_gen (start_read s) = ti_gen s"
    "ti_tcp (start_read s) = ti_tcp s" "ti_read_bufs (start_read s) = ti_read_bufs s" "ti_num_queues (start_read s) = ti_num_queues s"
    by (simp_all add: start_read_def)
qed

text \<open>\<open>opened s r s'\<close>: what an open that gave \<open>r\<close> has done to the generation.\<close>

definition opened :: "tunio_impl \<Rightarrow> open_result \<Rightarrow> tunio_impl \<Rightarrow> bool" where
  "opened s r s' \<longleftrightarrow>
     (if r = Open_ok then ti_open s' \<and> ti_epoch s' = ti_epoch s + 1 \<and> ti_gen s' = ti_gen s + 1 \<and> ti_tcp s' \<noteq> None
      else \<not> ti_open s' \<and> ti_epoch s' = ti_epoch s \<and> ti_gen s' = ti_gen s)"

lemma start_engines_opened: "start_engines cfg dev s = (r, s') \<Longrightarrow> opened s r s' \<and> (r = Open_ok \<or> r = Open_throws Invalid_argument \<and> di_read_size_hint dev = 0)"
  by (auto simp: start_engines_def Let_def opened_def packet_buffer_new_def split: if_splits)

lemma open_opened: assumes "open_impl p4 p6 device cfg s = (r, s')" shows "opened s r s'"
proof -
  define s1 where "s1 = (if ti_open s \<or> captured s \<noteq> None \<or> ti_dev_open s then cleanup (s\<lparr>ti_open := False\<rparr>) else s\<lparr>ti_open := False\<rparr>)"
  have s1: "\<not> ti_open s1" "ti_epoch s1 = ti_epoch s" "ti_gen s1 = ti_gen s" by (simp_all add: s1_def)
  have loc: "opened s (Open_error ec) x" "opened s (Open_error ec) (reset_open_state x)" "start_engines cfg dev x = (r, s') \<Longrightarrow> opened s r s'"
    if "\<not> ti_open x" "ti_epoch x = ti_epoch s1" "ti_gen x = ti_gen s1" for x ec dev
    using that s1 start_engines_opened [of cfg dev x r s'] by (auto simp: opened_def split: if_splits)
  show ?thesis using assms unfolding open_impl_def Let_def s1_def [symmetric]
    by (auto split: sum.splits intro: loc(1,2) simp: s1) (rule loc(3) [rotated -1], assumption, simp_all add: s1)
qed

lemma open_result:
  "fst (open_impl p4 p6 device cfg s) =
    (case parse_local4 p4 cfg of Inl ec \<Rightarrow> Open_error ec | Inr a4 \<Rightarrow>
     case parse_local6 p6 cfg of Inl ec \<Rightarrow> Open_error ec | Inr a6 \<Rightarrow>
     case device (device_call cfg) of Inl ec \<Rightarrow> Open_error ec | Inr dev \<Rightarrow>
       if di_read_size_hint dev = 0 then Open_throws Invalid_argument else Open_ok)"
proof -
  have "fst (start_engines cfg dev x) = (if di_read_size_hint dev = 0 then Open_throws Invalid_argument else Open_ok)" for dev x
    by (simp add: start_engines_def Let_def packet_buffer_new_def)
  thus ?thesis by (simp add: open_impl_def Let_def split: sum.splits)
qed

lemma open_ok_start:
  assumes "open_impl p4 p6 device cfg s = (Open_ok, s')"
  obtains dev x where "device (device_call cfg) = Inr dev" "start_engines cfg dev x = (Open_ok, s')"
  using assms unfolding open_impl_def Let_def by (auto split: sum.splits)


section \<open>Runs\<close>

text \<open>Samples: a device with one queue, and a run that opens it.\<close>

definition sample_open_config :: open_config where
  "sample_open_config = tun_config.extend default_config
     \<lparr>dev_name = [], ipv4_addr = [], netmask = [], ipv6_addr = [], ipv6_prefix_len = 64, num_queues = 1,
      external_handle = 5, external_mtu = 1500, external_handles = [], utun_prefix = False\<rparr>"

definition sample_device :: "dev_call \<Rightarrow> error_code + dev_info" where
  "sample_device c = Inr \<lparr>di_mtu = 1500, di_queue_count = 1, di_read_size_hint = 1500\<rparr>"

definition sample_opened :: tunio_impl where
  "sample_opened = ti_step (Ti_open (\<lambda>_. Inl EC_invalid_argument) (\<lambda>_. Inl EC_invalid_argument) sample_device sample_open_config)
     (tunio_impl_new sample_env)"

definition sample_open :: ti_event where
  "sample_open = Ti_open (\<lambda>_. Inl EC_invalid_argument) (\<lambda>_. Inl EC_invalid_argument) sample_device sample_open_config"

lemma sample_run: "ti_run sample_env [sample_open] sample_opened" "ti_fresh sample_env"
  using ti_run.event [OF ti_run.start [of sample_env], of sample_open]
  by (simp_all add: sample_opened_def sample_open_def ti_fresh_def sample_env_def env_new_def)

lemma sample_is_open:
  "open_impl (\<lambda>_. Inl EC_invalid_argument) (\<lambda>_. Inl EC_invalid_argument) sample_device sample_open_config s = (Open_ok, s') \<Longrightarrow> ti_open s'"
  "\<exists>s'. open_impl (\<lambda>_. Inl EC_invalid_argument) (\<lambda>_. Inl EC_invalid_argument) sample_device sample_open_config s = (Open_ok, s')"
  "ti_open sample_opened"
proof -
  have "fst (open_impl (\<lambda>_. Inl EC_invalid_argument) (\<lambda>_. Inl EC_invalid_argument) sample_device sample_open_config s) = Open_ok" for s
    by (simp add: open_result parse_local4_def parse_local6_def sample_device_def sample_open_config_def tun_config.defs open_config.defs)
  note r = this surjective_pairing
  show "\<exists>s'. open_impl (\<lambda>_. Inl EC_invalid_argument) (\<lambda>_. Inl EC_invalid_argument) sample_device sample_open_config s = (Open_ok, s')" for s
    using r by metis
  show "open_impl (\<lambda>_. Inl EC_invalid_argument) (\<lambda>_. Inl EC_invalid_argument) sample_device sample_open_config s = (Open_ok, s') \<Longrightarrow> ti_open s'" for s s'
    using open_opened [of _ _ _ _ s Open_ok s'] by (simp add: opened_def)
  thus "ti_open sample_opened" using r unfolding sample_opened_def ti_step.simps by metis
qed

text \<open>
  C8. The engines stay consistent and no handler is lost, however opening, closing, reopening, reads, tasks
  of the strand, timers and calls of the application interleave: after any run from a fresh state the
  invariants of both engines hold in the environment they share, and the handlers waiting in the
  engines, waiting in tasks on the strand or completed are exactly those the events submitted, each once,
  also across generations of engines.
\<close>

theorem tunio_engines_consistent:
  assumes "ti_run e evs s" "ti_fresh e"
  shows "engines_ok s \<and> tcp_now s + sum_list (map task_tcp (ti_tasks s)) = sum_list (map tcp_given evs) \<and>
    udp_now s + sum_list (map task_udp (ti_tasks s)) = sum_list (map udp_given evs)"
  using ti_run_live [OF assms] by (simp add: tcp_live_def udp_live_def)

theorem tunio_engines_consistent_witness: "engines_ok sample_opened \<and> ti_open sample_opened"
  using tunio_engines_consistent [OF sample_run] sample_is_open(3) by simp

text \<open>
  C9. The read pump loses no slot. In every state a run of fewer than 2^64 events reaches in which the
  program is open, exactly one read of the current generation is outstanding for each slot, on the queue
  the slot belongs to; every queue has at least one; and each slot's buffer is well formed and empty.
  This covers dropped packets, failed and cancelled reads and exceptions of the packet handlers, in all
  of which the slot has to be started again.
\<close>

theorem tunio_no_read_slot_lost:
  assumes "ti_run e evs s" "length evs < 2 ^ 64" "ti_open s"
  shows "mset (filter (\<lambda>(i, q, epoch). epoch = ti_epoch s) (ti_reads s)) =
      mset (map (\<lambda>i. (i, i div ti_slots_per_queue s, ti_epoch s)) [0..<ti_num_queues s * ti_slots_per_queue s]) \<and>
    (\<forall>q<ti_num_queues s. \<exists>i<length (ti_read_bufs s). (i, q, ti_epoch s) \<in> set (ti_reads s)) \<and>
    (\<forall>b\<in>set (ti_read_bufs s). pb_wf b \<and> pb_data_size b = 0)"
proof -
  have ok: "slots_ok s" using ti_run_reads [OF assms(1,2)] assms(3) by (simp add: reads_ok_def)
  have f: "filter (\<lambda>(i, q, epoch). epoch = ti_epoch s) (ti_reads s) = current_reads s"
    by (simp add: current_reads_def case_prod_unfold)
  have m: "mset (current_reads s) = mset (all_slots s)" and sz: "length (ti_read_bufs s) = ti_num_queues s * ti_slots_per_queue s"
    and p: "0 < ti_slots_per_queue s" using ok by (simp_all add: slots_ok_def)
  have "\<exists>i<length (ti_read_bufs s). (i, q, ti_epoch s) \<in> set (ti_reads s)" if "q < ti_num_queues s" for q
  proof (intro exI conjI)
    show lt: "q * ti_slots_per_queue s < length (ti_read_bufs s)" using that p by (simp add: sz)
    have "(q * ti_slots_per_queue s, q, ti_epoch s) \<in> set (all_slots s)" using lt p by (force simp: all_slots_def sz)
    hence "(q * ti_slots_per_queue s, q, ti_epoch s) \<in> set (current_reads s)" using m by (metis set_mset_mset)
    thus "(q * ti_slots_per_queue s, q, ti_epoch s) \<in> set (ti_reads s)" by (simp add: current_reads_def)
  qed
  thus ?thesis using m ok unfolding f by (simp add: all_slots_def slots_ok_def)
qed

theorem tunio_no_read_slot_lost_witness:
  "\<exists>i. (i, 0, ti_epoch sample_opened) \<in> set (ti_reads sample_opened)"
proof -
  have "0 < ti_num_queues sample_opened"
    using ti_run_reads [OF sample_run(1)] sample_is_open(3) by (simp add: reads_ok_def slots_ok_def)
  thus ?thesis using tunio_no_read_slot_lost [OF sample_run(1) _ sample_is_open(3)] by auto
qed

text \<open>
  C11. Reads of an earlier generation are ignored: a read that was outstanding when the program was
  reopened, successfully, completes without any effect on the new generation, whatever its result.
\<close>

theorem tunio_stale_reads_ignored:
  assumes run: "ti_run e evs s" "length evs < 2 ^ 64 - 1" and r: "(i, q, epoch) \<in> set (ti_reads s)"
    and opn: "open_impl p4 p6 device cfg s = (Open_ok, s')"
  shows "on_read w ec n i epoch s' = (None, s')"
proof -
  have "reads_ok (length evs) s" using ti_run_reads [OF run(1)] run(2) by simp
  then obtain k j where k: "k \<le> length evs" "ti_epoch s = of_nat k" "j \<le> k" "epoch = of_nat j"
    using r unfolding reads_ok_def by fastforce
  have "epoch \<noteq> of_nat (Suc k)" using epoch_fresh [OF k(3)] k(1,4) run(2) by simp
  moreover have "ti_epoch s' = of_nat (Suc k)" using open_opened [OF opn] k(2) by (simp add: opened_def)
  ultimately show ?thesis by (simp add: on_read_def)
qed

theorem tunio_stale_reads_ignored_witness:
  "\<exists>q s'. open_impl (\<lambda>_. Inl EC_invalid_argument) (\<lambda>_. Inl EC_invalid_argument) sample_device sample_open_config sample_opened = (Open_ok, s') \<and>
    (0, q, ti_epoch sample_opened) \<in> set (ti_reads sample_opened) \<and> on_read 1 EC_ok 40 0 (ti_epoch sample_opened) s' = (None, s')"
proof -
  have ok: "slots_ok sample_opened" using ti_run_reads [OF sample_run(1)] sample_is_open(3) by (simp add: reads_ok_def)
  hence "(0, 0, ti_epoch sample_opened) \<in> set (all_slots sample_opened)" by (force simp: all_slots_def slots_ok_def)
  hence r: "(0, 0, ti_epoch sample_opened) \<in> set (ti_reads sample_opened)"
    using ok by (metis (no_types, lifting) current_reads_def filter_is_subset set_mset_mset slots_ok_def subsetD)
  obtain s' where "open_impl (\<lambda>_. Inl EC_invalid_argument) (\<lambda>_. Inl EC_invalid_argument) sample_device sample_open_config sample_opened = (Open_ok, s')"
    using sample_is_open(2) by blast
  thus ?thesis using tunio_stale_reads_ignored [OF sample_run(1) _ r] r by auto
qed


section \<open>Tasks of an earlier generation\<close>

text \<open>A task on the strand names an epoch and engines that are not later than the current ones.\<close>

fun task_ok :: "nat \<Rightarrow> nat \<Rightarrow> strand_task \<Rightarrow> bool" where
  "task_ok k g (Task_close ep c) = (ep \<in> of_nat ` {..k} \<and> c \<in> insert None (Some ` {..g}))"
| "task_ok k g (Task_accept_tcp ep h) = (ep \<in> of_nat ` {..k})"
| "task_ok k g (Task_accept_udp ep h) = (ep \<in> of_nat ` {..k})"
| "task_ok k g (Task_cancel_tcp c) = (c \<in> insert None (Some ` {..g}))"
| "task_ok k g (Task_cancel_udp c) = (c \<in> insert None (Some ` {..g}))"

definition tasks_ok :: "nat \<Rightarrow> tunio_impl \<Rightarrow> bool" where
  "tasks_ok n s \<longleftrightarrow> (\<exists>k\<le>n. ti_epoch s = of_nat k \<and> (\<forall>t\<in>set (ti_tasks s). task_ok k (ti_gen s) t))"

lemma task_ok_mono: assumes "task_ok k g t" "k \<le> k'" "g \<le> g'" shows "task_ok k' g' t"
proof -
  have "of_nat ` {..k} \<subseteq> (of_nat ` {..k'} :: u64 set)" "insert None (Some ` {..g}) \<subseteq> insert None (Some ` {..g'})"
    using assms(2,3) by auto
  thus ?thesis using assms(1) by (cases t) (simp_all only: task_ok.simps, blast+)
qed

lemma captured_ok [simp]: "captured s \<in> insert None (Some ` {..ti_gen s})"
  by (simp add: captured_def)

lemma tasks_ok_keep:
  assumes "tasks_ok n s" "ti_epoch s' = ti_epoch s" "ti_gen s' = ti_gen s" "set (ti_tasks s') \<subseteq> insert t (set (ti_tasks s))"
    "\<And>k. ti_epoch s = of_nat k \<Longrightarrow> task_ok k (ti_gen s) t"
  shows "tasks_ok (Suc n) s'"
proof -
  obtain k where k: "k \<le> n" "ti_epoch s = of_nat k" "\<forall>t\<in>set (ti_tasks s). task_ok k (ti_gen s) t" using assms(1) unfolding tasks_ok_def by blast
  hence "\<forall>t\<in>set (ti_tasks s'). task_ok k (ti_gen s') t" using assms(3-5) by auto
  thus ?thesis using k assms(2) unfolding tasks_ok_def by (intro exI [of _ k]) simp
qed

lemma tasks_ok_same:
  "tasks_ok n s \<Longrightarrow> ti_epoch s' = ti_epoch s \<Longrightarrow> ti_gen s' = ti_gen s \<Longrightarrow> set (ti_tasks s') \<subseteq> set (ti_tasks s) \<Longrightarrow> tasks_ok (Suc n) s'"
  by (rule tasks_ok_keep [where t = "Task_cancel_tcp None"]) auto

lemma epoch_pump: "pump_of s' = pump_of s \<Longrightarrow> ti_epoch s' = ti_epoch s"
  by (simp add: pump_of_def)

lemma epoch_frames [simp]:
  "ti_epoch (with_tcp g s) = ti_epoch s" "ti_epoch (with_udp h s) = ti_epoch s" "ti_epoch (with_env k s) = ti_epoch s"
  "ti_epoch (start_read_slot i s) = ti_epoch s" "ti_epoch (restart_slot i s) = ti_epoch s"
  by (simp_all add: with_tcp_def with_udp_def with_env_def start_read_slot_def restart_slot_def Let_def split: option.splits)

lemma gen_handle_packet [simp]: "ti_gen (snd (handle_packet w p s)) = ti_gen s"
proof -
  have "ti_gen (snd (send_reply re s)) = ti_gen s" for re by (auto simp: send_reply_def split: sum.splits prod.splits)
  thus ?thesis by (simp add: handle_packet_def handle_icmp_def handle_icmpv6_def split: option.splits prod.splits)
qed

lemma gen_on_read [simp]: "ti_gen (snd (on_read w ec n i ep s)) = ti_gen s"
proof -
  have "ti_gen (snd (case handle_packet w p x of (y, s) \<Rightarrow> (y, restart_slot i s))) = ti_gen x" for p x
    using gen_handle_packet [of w p x] by (cases "handle_packet w p x") simp
  thus ?thesis by (simp add: on_read_def close_impl_def dispatch_def Let_def split: sum.splits option.splits)
qed

lemma epoch_on_read [simp]: "ti_epoch (snd (on_read w ec n i ep s)) = ti_epoch s"
proof -
  have h: "ti_epoch (snd (case handle_packet w p x of (y, s) \<Rightarrow> (y, restart_slot i s))) = ti_epoch x" for p x
    using epoch_pump [OF pump_handle_packet [of w p x]] by (cases "handle_packet w p x") simp
  have d: "ti_epoch (dispatch inside t x) = ti_epoch x" for inside t x by (rule epoch_pump) simp
  show ?thesis by (simp add: on_read_def close_impl_def d h Let_def split: sum.splits option.splits)
qed

lemma dispatch_set: "set (ti_tasks (dispatch inside t s)) \<subseteq> insert t (set (ti_tasks s))"
  by (auto simp: dispatch_def)

lemma dispatch_ids [simp]: "ti_epoch (dispatch inside t s) = ti_epoch s" "ti_gen (dispatch inside t s) = ti_gen s"
  by (simp_all add: epoch_pump [OF pump_dispatch]) (simp add: dispatch_def)

lemma ti_step_tasks: assumes "tasks_ok n s" shows "tasks_ok (Suc n) (ti_step ev s)"
proof -
  have d: "tasks_ok (Suc n) (dispatch inside t x)"
    if "\<And>k. ti_epoch s = of_nat k \<Longrightarrow> task_ok k (ti_gen s) t" "ti_epoch x = ti_epoch s" "ti_gen x = ti_gen s" "ti_tasks x = ti_tasks s" for inside t x
    by (rule tasks_ok_keep [OF assms, of _ t]) (use that dispatch_set [of inside t x] in simp_all)
  have same: "tasks_ok (Suc n) x" if "ti_epoch x = ti_epoch s" "ti_gen x = ti_gen s" "set (ti_tasks x) \<subseteq> set (ti_tasks s)" for x
    using tasks_ok_same [OF assms that] .
  show ?thesis
  proof (cases ev)
    case (Ti_open p4 p6 device cfg)
    obtain r s' where o: "open_impl p4 p6 device cfg s = (r, s')" by fastforce
    obtain k where k: "k \<le> n" "ti_epoch s = of_nat k" "\<forall>t\<in>set (ti_tasks s). task_ok k (ti_gen s) t" using assms unfolding tasks_ok_def by blast
    have t: "ti_tasks s' = ti_tasks s" using tasks_open [of p4 p6 device cfg s] o by simp
    have "tasks_ok (Suc n) s'"
    proof (cases "r = Open_ok")
      case True
      thus ?thesis unfolding tasks_ok_def using open_opened [OF o] k t
        by (intro exI [of _ "Suc k"]) (auto simp: opened_def intro: task_ok_mono)
    next
      case False
      thus ?thesis using open_opened [OF o] t by (intro same) (simp_all add: opened_def)
    qed
    thus ?thesis using Ti_open o by simp
  next
    case (Ti_close inside)
    have "tasks_ok (Suc n) (dispatch inside (Task_close (ti_epoch s) (captured (s\<lparr>ti_open := False\<rparr>))) (s\<lparr>ti_open := False\<rparr>))"
      by (rule d) (auto simp: captured_def)
    moreover have "tasks_ok (Suc n) s" by (rule same) simp_all
    ultimately show ?thesis using Ti_close by (simp add: close_impl_def Let_def)
  next
    case Ti_task
    show ?thesis
    proof (cases "ti_tasks s")
      case Nil
      thus ?thesis using Ti_task same [of s] by simp
    next
      case (Cons t ts)
      have "ti_epoch (run_task t (s\<lparr>ti_tasks := ts\<rparr>)) = ti_epoch (s\<lparr>ti_tasks := ts\<rparr>)" by (rule epoch_pump) simp
      thus ?thesis using Ti_task Cons by (auto intro!: same)
    qed
  next
    case (Ti_read w ec data i q ep)
    thus ?thesis by (intro same) (simp_all add: device_fill_def)
  qed (simp_all add: same, auto simp: async_accept_tcp_def async_accept_udp_def cancel_tcp_accepts_def cancel_udp_accepts_def captured_def intro!: d)
qed

lemma ti_run_tasks: "ti_run e evs s \<Longrightarrow> tasks_ok (length evs) s"
proof (induction rule: ti_run.induct)
  case start
  thus ?case by (simp add: tasks_ok_def tunio_impl_new_def)
next
  case (event evs s ev)
  thus ?case using ti_step_tasks [of "length evs" s ev] by simp
qed

text \<open>
  A close, accept or cancel that is still waiting on the strand when the program is reopened does not
  touch the new engines: the close and the cancels do nothing at all, in particular they neither close
  the new device nor cancel its writes, and the accepts complete with \<^verbatim>\<open>bad_descriptor\<close>.
\<close>

theorem tunio_stale_tasks_harmless:
  assumes run: "ti_run e evs s" "length evs < 2 ^ 64 - 1" and t: "t \<in> set (ti_tasks s)"
    and opn: "open_impl p4 p6 device cfg s = (Open_ok, s')"
  shows "run_task t s' = (case t of
      Task_accept_tcp ep h \<Rightarrow> with_env (post_completion_on (Done_tcp_accept h EC_bad_descriptor None)) s'
    | Task_accept_udp ep h \<Rightarrow> with_env (post_completion_on (Done_udp_accept h EC_bad_descriptor None)) s'
    | _ \<Rightarrow> s')"
proof -
  obtain k where k: "k \<le> length evs" "ti_epoch s = of_nat k" "task_ok k (ti_gen s) t"
    using ti_run_tasks [OF run(1)] t unfolding tasks_ok_def by blast
  have s': "ti_epoch s' = of_nat (Suc k)" "captured s' = Some (Suc (ti_gen s))"
    using open_opened [OF opn] k(2) by (simp_all add: opened_def captured_def)
  have e: "ep \<noteq> ti_epoch s'" if "ep \<in> of_nat ` {..k}" for ep
    using that epoch_fresh [of _ k] k(1) run(2) unfolding s'(1) by (elim imageE) simp
  have g: "c \<noteq> captured s'" if "c \<in> insert None (Some ` {..ti_gen s})" for c using that unfolding s'(2) by auto
  show ?thesis
  proof (cases t)
    case (Task_close ep c)
    have "ep \<noteq> ti_epoch s'" "c \<noteq> captured s'" by (rule e, use k(3) Task_close in simp) (rule g, use k(3) Task_close in simp)
    thus ?thesis using Task_close by (simp add: run_task_def)
  next
    case (Task_accept_tcp ep h)
    have "ep \<noteq> ti_epoch s'" by (rule e) (use k(3) Task_accept_tcp in simp)
    thus ?thesis using Task_accept_tcp by (simp add: run_task_def)
  next
    case (Task_accept_udp ep h)
    have "ep \<noteq> ti_epoch s'" by (rule e) (use k(3) Task_accept_udp in simp)
    thus ?thesis using Task_accept_udp by (simp add: run_task_def)
  next
    case (Task_cancel_tcp c)
    have "c \<noteq> captured s'" by (rule g) (use k(3) Task_cancel_tcp in simp)
    thus ?thesis using Task_cancel_tcp by (simp add: run_task_def)
  next
    case (Task_cancel_udp c)
    have "c \<noteq> captured s'" by (rule g) (use k(3) Task_cancel_udp in simp)
    thus ?thesis using Task_cancel_udp by (simp add: run_task_def)
  qed
qed


lemma sample_stale_close:
  "ti_run sample_env [sample_open, Ti_close False] (ti_step (Ti_close False) sample_opened)"
  "Task_close (ti_epoch sample_opened) (captured sample_opened) \<in> set (ti_tasks (ti_step (Ti_close False) sample_opened))"
proof -
  show "ti_run sample_env [sample_open, Ti_close False] (ti_step (Ti_close False) sample_opened)"
    using ti_run.event [OF sample_run(1), of "Ti_close False"] by simp
  show "Task_close (ti_epoch sample_opened) (captured sample_opened) \<in> set (ti_tasks (ti_step (Ti_close False) sample_opened))"
    using sample_is_open(3) by (simp add: close_impl_def dispatch_def captured_def Let_def)
qed

theorem tunio_stale_tasks_harmless_witness:
  "\<exists>s'. open_impl (\<lambda>_. Inl EC_invalid_argument) (\<lambda>_. Inl EC_invalid_argument) sample_device sample_open_config
      (ti_step (Ti_close False) sample_opened) = (Open_ok, s') \<and>
    run_task (Task_close (ti_epoch sample_opened) (captured sample_opened)) s' = s'"
proof -
  obtain s' where s': "open_impl (\<lambda>_. Inl EC_invalid_argument) (\<lambda>_. Inl EC_invalid_argument) sample_device sample_open_config
      (ti_step (Ti_close False) sample_opened) = (Open_ok, s')"
    using sample_is_open(2) by blast
  thus ?thesis using tunio_stale_tasks_harmless [OF sample_stale_close(1) _ sample_stale_close(2) s'] by simp
qed

section \<open>Opening and closing\<close>

text \<open>
  C12. The outcome of \<open>open\<close> is that of the first step that fails, in the order local IPv4 address, IPv6
  prefix length and address, device, and the engine is open afterwards only if none does; the one
  exception is a device whose read size hint is zero. After any failure, in whatever state of a run,
  every handler submitted before has been completed or still waits in a task of the strand, no
  connection or session is counted, and the generation has not changed.
\<close>

theorem tunio_failed_open_settled:
  assumes "ti_run e evs s" "ti_fresh e" "open_impl p4 p6 device cfg s = (r, s')"
  shows "r = (case parse_local4 p4 cfg of Inl ec \<Rightarrow> Open_error ec | Inr a4 \<Rightarrow>
              case parse_local6 p6 cfg of Inl ec \<Rightarrow> Open_error ec | Inr a6 \<Rightarrow>
              case device (device_call cfg) of Inl ec \<Rightarrow> Open_error ec | Inr dev \<Rightarrow>
                if di_read_size_hint dev = 0 then Open_throws Invalid_argument else Open_ok) \<and>
    (ti_open s' \<longleftrightarrow> r = Open_ok) \<and>
    (r \<noteq> Open_ok \<longrightarrow>
       posted_toks (ti_env s') + sum_list (map task_tcp (ti_tasks s')) = sum_list (map tcp_given evs) \<and>
       udp_posted (ti_env s') + sum_list (map task_udp (ti_tasks s')) = sum_list (map udp_given evs) \<and>
       tcp_connections (e_stats (ti_env s')) = 0 \<and> udp_sessions (e_stats (ti_env s')) = 0 \<and> ti_epoch s' = ti_epoch s)"
proof -
  have ok: "engines_ok s" and L: "tcp_live s = sum_list (map tcp_given evs)" "udp_live s = sum_list (map udp_given evs)"
    using ti_run_live [OF assms(1,2)] by simp_all
  have o: "opened s r s'" by (rule open_opened [OF assms(3)])
  have "tcp_live s' = tcp_live s" "udp_live s' = udp_live s" if "r \<noteq> Open_ok"
    using turns_live [OF open_turns(1) [OF ok, of p4 p6 device cfg] tasks_open] assms(3) by simp_all
  moreover have "settled s'" if "r \<noteq> Open_ok" using open_turns(2) [OF ok, of p4 p6 device cfg] assms(3) that by simp
  ultimately have "r \<noteq> Open_ok \<longrightarrow>
       posted_toks (ti_env s') + sum_list (map task_tcp (ti_tasks s')) = sum_list (map tcp_given evs) \<and>
       udp_posted (ti_env s') + sum_list (map task_udp (ti_tasks s')) = sum_list (map udp_given evs) \<and>
       tcp_connections (e_stats (ti_env s')) = 0 \<and> udp_sessions (e_stats (ti_env s')) = 0"
    using L by (simp add: settled_def tcp_live_def udp_live_def)
  moreover have "r = fst (open_impl p4 p6 device cfg s)" using assms(3) by simp
  note this [unfolded open_result]
  moreover have "ti_open s' \<longleftrightarrow> r = Open_ok" "r \<noteq> Open_ok \<longrightarrow> ti_epoch s' = ti_epoch s" using o by (simp_all add: opened_def split: if_splits)
  ultimately show ?thesis by blast
qed

theorem tunio_failed_open_settled_witness:
  "\<exists>s'. open_impl (\<lambda>_. Inl EC_invalid_argument) (\<lambda>_. Inl EC_invalid_argument) (\<lambda>_. Inl EC_bad_descriptor) sample_open_config sample_opened =
      (Open_error EC_bad_descriptor, s') \<and> \<not> ti_open s'"
proof -
  obtain r s' where o: "open_impl (\<lambda>_. Inl EC_invalid_argument) (\<lambda>_. Inl EC_invalid_argument) (\<lambda>_. Inl EC_bad_descriptor) sample_open_config sample_opened = (r, s')"
    by fastforce
  have "parse_local4 (\<lambda>_. Inl EC_invalid_argument) sample_open_config = Inr None" "parse_local6 (\<lambda>_. Inl EC_invalid_argument) sample_open_config = Inr None"
    by (simp_all add: parse_local4_def parse_local6_def sample_open_config_def tun_config.defs open_config.defs)
  thus ?thesis using tunio_failed_open_settled [OF sample_run o] o by simp
qed

text \<open>
  A successful open starts the pump over the queues of the device: their number is that of the device,
  at least 1 and at most 256, the 32 read slots are divided among them with at least one each, and every
  slot's buffer has room for exactly the device's read size hint, so that a frame of the largest size the
  device announces is read in one piece.
\<close>

theorem tunio_open_sizes_reads:
  assumes "open_impl p4 p6 device cfg s = (Open_ok, s')"
  shows "\<exists>dev. device (device_call cfg) = Inr dev \<and> ti_num_queues s' = max 1 (min (di_queue_count dev) 256) \<and>
    length (ti_read_bufs s') = ti_num_queues s' * max 1 (32 div ti_num_queues s') \<and>
    (\<forall>b\<in>set (ti_read_bufs s'). pb_writable_size b = di_read_size_hint dev)"
proof -
  obtain dev x where d: "device (device_call cfg) = Inr dev" "start_engines cfg dev x = (Open_ok, s')" by (rule open_ok_start [OF assms])
  have "ti_num_queues s' = max 1 (min (di_queue_count dev) 256) \<and>
    length (ti_read_bufs s') = ti_num_queues s' * max 1 (32 div ti_num_queues s') \<and>
    (\<forall>b\<in>set (ti_read_bufs s'). pb_writable_size b = di_read_size_hint dev)"
    using d(2) by (auto simp: start_engines_def Let_def packet_buffer_new_def pb_writable_size_def size_sub_def k_max_queues_def k_read_slots_def split: if_splits)
  thus ?thesis using d(1) by blast
qed

theorem tunio_open_sizes_reads_witness:
  "\<exists>s'. open_impl (\<lambda>_. Inl EC_invalid_argument) (\<lambda>_. Inl EC_invalid_argument) sample_device sample_open_config sample_opened = (Open_ok, s') \<and>
    length (ti_read_bufs s') = 32 \<and> map pb_writable_size (ti_read_bufs s') = replicate 32 1500"
proof -
  obtain s' where o: "open_impl (\<lambda>_. Inl EC_invalid_argument) (\<lambda>_. Inl EC_invalid_argument) sample_device sample_open_config sample_opened = (Open_ok, s')"
    using sample_is_open(2) by blast
  have n: "length (ti_read_bufs s') = 32" and b: "\<forall>b\<in>set (ti_read_bufs s'). pb_writable_size b = 1500"
    using tunio_open_sizes_reads [OF o] by (auto simp: sample_device_def)
  have "map pb_writable_size (ti_read_bufs s') = replicate 32 1500" using b n by (intro replicate_eqI) auto
  thus ?thesis using o n by blast
qed


section \<open>Shutting down\<close>

text \<open>
  Destruction completes everything: after any run, when no task is left on the strand, the destructor
  leaves every handler ever submitted completed, exactly as often as it was submitted, and no connection
  or session counted.
\<close>

theorem tunio_destructor_completes:
  assumes "ti_run e evs s" "ti_fresh e" "ti_tasks s = []"
  shows "posted_toks (ti_env (tunio_impl_dtor s)) = sum_list (map tcp_given evs) \<and>
    udp_posted (ti_env (tunio_impl_dtor s)) = sum_list (map udp_given evs) \<and>
    tcp_connections (e_stats (ti_env (tunio_impl_dtor s))) = 0 \<and> udp_sessions (e_stats (ti_env (tunio_impl_dtor s))) = 0"
proof -
  have ok: "engines_ok s" and L: "tcp_live s = sum_list (map tcp_given evs)" "udp_live s = sum_list (map udp_given evs)"
    using ti_run_live [OF assms(1,2)] by simp_all
  show ?thesis using turns_live [OF cleanup_turns(1) [OF ok]] cleanup_turns(2) [OF ok] L assms(3)
    by (simp add: tunio_impl_dtor_def settled_def tcp_live_def udp_live_def)
qed

text \<open>What is settled stays settled while the program is closed.\<close>

lemma settled_accepts: "settled s \<Longrightarrow> ti_tcp s = Some t \<Longrightarrow> te_pending_accepts t = []" "settled s \<Longrightarrow> ti_udp s = Some u \<Longrightarrow> ue_pending_accepts u = []"
  by (auto simp: settled_def tcp_now_def udp_now_def eng_toks_def ue_toks_def accept_toks_def)

lemma cancel_none: "te_pending_accepts t = [] \<Longrightarrow> cancel_accepts t = t" "ue_pending_accepts u = [] \<Longrightarrow> udp_cancel_accepts u = u"
  by (simp_all add: cancel_accepts_def udp_cancel_accepts_def)

lemma settled_same:
  "engines_ok s \<Longrightarrow> settled s \<Longrightarrow> ti_tcp s' = ti_tcp s \<Longrightarrow> ti_udp s' = ti_udp s \<Longrightarrow> shared (ti_env s') = shared (ti_env s) \<Longrightarrow> settled s'"
  by (rule settled_frame [OF _ turns_frame]) simp_all

lemma captured_frames [simp]:
  "captured (with_tcp g s) = captured s" "captured (with_udp h s) = captured s" "captured (with_env k s) = captured s"
  "captured (s\<lparr>ti_dev_open := b\<rparr>) = captured s"
  by (auto simp: captured_def with_tcp_def with_udp_def with_env_def Let_def split: option.splits)

lemma captured_task [simp]: "captured (run_task t s) = captured s"
  by (simp add: run_task_def Let_def split: strand_task.splits)

lemma close_task_settles:
  assumes ok: "engines_ok s" shows "settled s \<Longrightarrow> settled (run_task (Task_close ep g) s)"
    and "captured s \<noteq> None \<Longrightarrow> settled (run_task (Task_close ep (captured s)) s)"
proof -
  let ?s1 = "with_udp udp_close_all (with_tcp close_all s)"
  have ok1: "engines_ok ?s1" and se: "settled ?s1" using close_engines_turns [OF ok] close_engines_settled [OF ok] by (simp_all add: turns_def)
  show "settled s \<Longrightarrow> settled (run_task (Task_close ep g) s)" "captured s \<noteq> None \<Longrightarrow> settled (run_task (Task_close ep (captured s)) s)"
    using settled_same [OF ok1 se] settled_same [OF ok] by (auto simp: run_task_def Let_def with_env_def se)
qed

lemma closed_task_settled:
  assumes ok: "engines_ok s" and c: "\<not> ti_open s" and se: "settled s" shows "settled (run_task t s)"
proof -
  have post: "settled (with_env (post_completion_on d) s)" if "turns s (tok_of d) (udp_tok_of d) (with_env (post_completion_on d) s)" for d
    using that se by (simp add: turns_def settled_def with_env_def post_completion_on_def posted_toks_def udp_posted_def)
  note tt = run_task_turns [OF ok]
  show ?thesis
  proof (cases t)
    case (Task_close ep g)
    thus ?thesis using close_task_settles(1) [OF ok se] by simp
  next
    case (Task_accept_tcp ep h)
    thus ?thesis using tt [of t] c by (auto simp: run_task_def intro: post)
  next
    case (Task_accept_udp ep h)
    thus ?thesis using tt [of t] c by (auto simp: run_task_def intro: post)
  next
    case (Task_cancel_tcp g)
    thus ?thesis using se settled_accepts(1) [OF se]
      by (auto simp: run_task_def with_tcp_def cancel_none settled_def tcp_now_def udp_now_def split: option.splits)
  next
    case (Task_cancel_udp g)
    thus ?thesis using se settled_accepts(2) [OF se]
      by (auto simp: run_task_def with_udp_def cancel_none settled_def tcp_now_def udp_now_def split: option.splits)
  qed
qed


text \<open>The strand runs its tasks in order; none of them opens the program or queues another.\<close>

definition drained :: "tunio_impl \<Rightarrow> tunio_impl" where
  "drained s = ((ti_step Ti_task) ^^ length (ti_tasks s)) s"

lemma task_frames:
  "ti_open (run_task t s) = ti_open s" "ti_epoch (run_task t s) = ti_epoch s" "\<not> ti_dev_open s \<Longrightarrow> \<not> ti_dev_open (run_task t s)"
proof -
  show "ti_open (run_task t s) = ti_open s" "ti_epoch (run_task t s) = ti_epoch s" using pump_task [of t s] by (simp_all add: pump_of_def)
  have d: "ti_dev_open (with_tcp g x) = ti_dev_open x" "ti_dev_open (with_udp h x) = ti_dev_open x" "ti_dev_open (with_env k x) = ti_dev_open x" for g h k x
    by (simp_all add: with_tcp_def with_udp_def with_env_def Let_def split: option.splits)
  show "\<not> ti_dev_open s \<Longrightarrow> \<not> ti_dev_open (run_task t s)" by (simp add: run_task_def Let_def d split: strand_task.splits)
qed

text \<open>A state in which a close is certain: done, or among the tasks.\<close>

definition closing :: "tunio_impl \<Rightarrow> bool" where
  "closing s \<longleftrightarrow> engines_ok s \<and> \<not> ti_open s \<and>
     (settled s \<and> \<not> ti_dev_open s \<or> (captured s = None \<longrightarrow> settled s) \<and> Task_close (ti_epoch s) (captured s) \<in> set (ti_tasks s))"

lemma closing_task:
  assumes "closing s" "ti_tasks s = t # ts" shows "closing (run_task t (s\<lparr>ti_tasks := ts\<rparr>))"
proof -
  define s1 where "s1 = s\<lparr>ti_tasks := ts\<rparr>"
  have t1: "turns s {#} {#} s1" by (rule turns_frame) (use assms(1) in \<open>simp_all add: s1_def closing_def\<close>)
  have ok1: "engines_ok s1" using t1 by (simp add: turns_def)
  have c1: "captured s1 = captured s" "ti_open s1 = ti_open s" "ti_epoch s1 = ti_epoch s" "ti_dev_open s1 = ti_dev_open s" "ti_tasks s1 = ts"
    by (simp_all add: s1_def captured_def)
  have se: "settled s \<Longrightarrow> settled s1" by (rule settled_frame [OF _ t1]) (simp_all add: s1_def)
  have ok2: "engines_ok (run_task t s1)" using run_task_turns [OF ok1, of t] by (simp add: turns_def)
  have o: "\<not> ti_open (run_task t s1)" using assms(1) by (simp add: task_frames c1 closing_def)
  have sett: "settled s \<Longrightarrow> settled (run_task t s1)" using closed_task_settled [OF ok1 _ se, of t] assms(1) by (simp add: c1 closing_def)
  consider (before) "settled s" "\<not> ti_dev_open s" | (now) "t = Task_close (ti_epoch s) (captured s)" "captured s = None \<longrightarrow> settled s" |
      (later) "Task_close (ti_epoch s) (captured s) \<in> set ts" "captured s = None \<longrightarrow> settled s"
    using assms by (auto simp: closing_def)
  hence "closing (run_task t s1)"
  proof cases
    case before
    thus ?thesis using ok2 o sett task_frames(3) [of s1 t] by (simp add: closing_def c1)
  next
    case now
    have "\<not> ti_dev_open (run_task t s1)" unfolding now(1) by (simp add: run_task_def Let_def c1)
    moreover have "settled (run_task t s1)"
    proof (cases "captured s = None")
      case False
      thus ?thesis using close_task_settles(2) [OF ok1, of "ti_epoch s"] now(1) by (simp add: c1)
    qed (use now sett in simp)
    ultimately show ?thesis using ok2 o by (simp add: closing_def)
  next
    case later
    thus ?thesis using ok2 o sett by (simp add: closing_def task_frames c1)
  qed
  thus ?thesis by (simp add: s1_def)
qed

lemma drained_closing: "closing s \<Longrightarrow> engines_ok s \<Longrightarrow> closing (drained s) \<and> ti_tasks (drained s) = [] \<and>
  tcp_live (drained s) = tcp_live s \<and> udp_live (drained s) = udp_live s"
proof (induction "ti_tasks s" arbitrary: s)
  case Nil
  thus ?case by (simp add: drained_def flip: Nil(1))
next
  case (Cons t ts)
  define s1 where "s1 = run_task t (s\<lparr>ti_tasks := ts\<rparr>)"
  have st: "ti_step Ti_task s = s1" by (simp add: s1_def flip: Cons(2))
  have "closing s1" unfolding s1_def by (rule closing_task [OF Cons(3)]) (simp flip: Cons(2))
  moreover have "ti_tasks s1 = ts" by (simp add: s1_def)
  moreover have "engines_ok s1" "tcp_live s1 = tcp_live s" "udp_live s1 = udp_live s" using ti_step_live [OF Cons(4), of Ti_task] st by simp_all
  moreover have "drained s = drained s1" using \<open>ti_tasks s1 = ts\<close> by (simp add: drained_def st funpow_swap1 del: ti_step.simps flip: Cons(2))
  ultimately show ?case using Cons(1) [of s1] by simp
qed

lemma open_has_engines: "ti_run e evs s \<Longrightarrow> ti_fresh e \<Longrightarrow> closing (close_impl inside s) \<or> \<not> ti_open s"
proof -
  assume r: "ti_run e evs s" "ti_fresh e"
  have ok: "engines_ok s" using ti_run_live [OF r] by blast
  define s0 where "s0 = s\<lparr>ti_open := False\<rparr>"
  have t0: "turns s {#} {#} s0" by (rule turns_frame [OF ok]) (simp_all add: s0_def)
  hence ok0: "engines_ok s0" by (simp add: turns_def)
  have c0: "ti_epoch s0 = ti_epoch s" "captured s0 = captured s" by (simp_all add: s0_def captured_def)
  have none: "captured s0 = None \<longrightarrow> settled s0"
    using ok0 by (auto simp: captured_def settled_def tcp_now_def udp_now_def engines_ok_def split: option.splits if_splits)
  show ?thesis
  proof (cases "ti_open s")
    case True
    define s1 where "s1 = s0\<lparr>ti_tasks := ti_tasks s0 @ [Task_close (ti_epoch s) (captured s0)]\<rparr>"
    have t1: "turns s0 {#} {#} s1" by (rule turns_frame [OF ok0]) (simp_all add: s1_def)
    have out: "closing s1"
      using t1 none settled_frame [OF _ t1] by (auto simp: closing_def turns_def s1_def s0_def captured_def)
    define s2 where "s2 = s0\<lparr>ti_tasks := Task_close (ti_epoch s) (captured s0) # ti_tasks s0\<rparr>"
    have t2: "turns s0 {#} {#} s2" by (rule turns_frame [OF ok0]) (simp_all add: s2_def)
    have "closing s2" using t2 none settled_frame [OF _ t2] by (auto simp: closing_def turns_def s2_def s0_def captured_def)
    hence "closing (run_task (Task_close (ti_epoch s) (captured s0)) (s2\<lparr>ti_tasks := ti_tasks s0\<rparr>))" by (rule closing_task) (simp add: s2_def)
    hence "closing (run_task (Task_close (ti_epoch s) (captured s0)) s0)" by (simp add: s2_def)
    thus ?thesis using out True by (cases inside) (simp_all add: close_impl_def dispatch_def s1_def s0_def Let_def)
  qed simp
qed

text \<open>
  C10. Closing comes to an end: when an open program is closed, on or off the strand, then once the strand
  has run the tasks that are waiting, every handler submitted before is completed, exactly once, none is
  left in an engine or a task, no connection or session is counted, and the device is closed.
\<close>

theorem tunio_close_completes:
  assumes "ti_run e evs s" "ti_fresh e" "ti_open s" "s' = drained (close_impl inside s)"
  shows "posted_toks (ti_env s') = sum_list (map tcp_given evs) \<and> udp_posted (ti_env s') = sum_list (map udp_given evs) \<and>
    tcp_connections (e_stats (ti_env s')) = 0 \<and> udp_sessions (e_stats (ti_env s')) = 0 \<and>
    ti_tasks s' = [] \<and> \<not> ti_open s' \<and> \<not> ti_dev_open s'"
proof -
  have run: "ti_run e (evs @ [Ti_close inside]) (close_impl inside s)" using ti_run.event [OF assms(1), of "Ti_close inside"] by simp
  have ok: "engines_ok (close_impl inside s)" and L: "tcp_live (close_impl inside s) = sum_list (map tcp_given evs)"
      "udp_live (close_impl inside s) = sum_list (map udp_given evs)"
    using ti_run_live [OF run assms(2)] by simp_all
  have "closing (close_impl inside s)" using open_has_engines [OF assms(1,2), of inside] assms(3) by simp
  from drained_closing [OF this ok] show ?thesis using L assms(4)
    by (auto simp: closing_def settled_def tcp_live_def udp_live_def)
qed

theorem tunio_close_completes_witness:
  "ti_tasks (drained (close_impl False (ti_step (Ti_accept_tcp False 7) sample_opened))) = [] \<and>
   posted_toks (ti_env (drained (close_impl False (ti_step (Ti_accept_tcp False 7) sample_opened)))) = {#Tk_accept 7#}"
proof -
  have r: "ti_run sample_env [sample_open, Ti_accept_tcp False 7] (ti_step (Ti_accept_tcp False 7) sample_opened)"
    using ti_run.event [OF sample_run(1), of "Ti_accept_tcp False 7"] by simp
  have "ti_open (ti_step (Ti_accept_tcp False 7) sample_opened)" using sample_is_open(3) by (simp add: async_accept_tcp_def dispatch_def)
  from tunio_close_completes [OF r sample_run(2) this refl, of False] show ?thesis by (simp add: sample_open_def)
qed

theorem tunio_destructor_completes_witness:
  "posted_toks (ti_env (tunio_impl_dtor (ti_step (Ti_accept_tcp True 7) sample_opened))) = {#Tk_accept 7#}"
proof -
  have r: "ti_run sample_env [sample_open, Ti_accept_tcp True 7] (ti_step (Ti_accept_tcp True 7) sample_opened)"
    using ti_run.event [OF sample_run(1), of "Ti_accept_tcp True 7"] by simp
  have "ti_tasks sample_opened = []" by (simp add: sample_opened_def tunio_impl_new_def)
  hence "ti_tasks (ti_step (Ti_accept_tcp True 7) sample_opened) = []" by (simp add: async_accept_tcp_def dispatch_def)
  from tunio_destructor_completes [OF r sample_run(2) this] show ?thesis by (simp add: sample_open_def)
qed

end
