(* ===== verification/Tunio_Packets.thy ===== *)
theory Tunio_Packets
  imports Tunio_Core Udp_Packet
begin

text \<open>
  What \<^verbatim>\<open>tunio_impl\<close> does with single packets: the echo replies are valid packets that
  answer the request, and a datagram sent by one engine comes out of the read pump of another.
\<close>

section \<open>Echo replies\<close>

text \<open>The message of the reply: the request with the type replaced and the checksum recomputed.\<close>

definition echo_zeroed :: "byte \<Rightarrow> byte list \<Rightarrow> byte list" where
  "echo_zeroed type icmp = blit (blit icmp 0 [type]) 2 [0, 0]"

lemma length_echo_zeroed [simp]: "4 \<le> length icmp \<Longrightarrow> length (echo_zeroed t icmp) = length icmp"
  by (simp add: echo_zeroed_def)

lemma echo_zeroed_field: "4 \<le> length icmp \<Longrightarrow> subl 2 2 (echo_zeroed t icmp) = [0, 0]"
  unfolding echo_zeroed_def using subl_blit_same [of 2 "[0, 0]" "blit icmp 0 [t]"] by (simp add: eval_nat_numeral)

lemma echo_blits:
  assumes "length hdr = h" "4 \<le> length icmp" "length icmp \<le> length rest"
  shows "blit (blit (blit (hdr @ rest) h icmp) h [t]) (h + 2) [0, 0] = hdr @ echo_zeroed t icmp @ drop (length icmp) rest"
    "blit (hdr @ echo_zeroed t icmp @ drop (length icmp) rest) (h + 2) [a, b] = hdr @ blit (echo_zeroed t icmp) 2 [a, b] @ drop (length icmp) rest"
    "subl h (length icmp) (hdr @ echo_zeroed t icmp @ drop (length icmp) rest) = echo_zeroed t icmp"
proof -
  have app: "blit (hdr @ ys) (h + i) zs = hdr @ blit ys i zs" for ys i and zs :: "byte list"
    using assms(1) by (simp add: blit_def)
  have left: "blit (xs @ ys) i zs = blit xs i zs @ ys" if "i + length zs \<le> length xs" for xs ys i and zs :: "byte list"
    using that by (rule blit_append_left)
  have "blit (hdr @ rest) h icmp = hdr @ icmp @ drop (length icmp) rest"
    using assms app [of rest 0 icmp] by (simp add: blit_def)
  moreover have "blit (hdr @ icmp @ drop (length icmp) rest) h [t] = hdr @ blit icmp 0 [t] @ drop (length icmp) rest"
    using assms(2) app [of "icmp @ drop (length icmp) rest" 0 "[t]"] left [of 0 "[t]" icmp] by simp
  ultimately show "blit (blit (blit (hdr @ rest) h icmp) h [t]) (h + 2) [0, 0] = hdr @ echo_zeroed t icmp @ drop (length icmp) rest"
    using assms(2) by (simp only: app left echo_zeroed_def length_blit) (subst left, simp_all)
  show "blit (hdr @ echo_zeroed t icmp @ drop (length icmp) rest) (h + 2) [a, b] = hdr @ blit (echo_zeroed t icmp) 2 [a, b] @ drop (length icmp) rest"
    using assms(2) by (simp only: app) (subst left, simp_all)
  show "subl h (length icmp) (hdr @ echo_zeroed t icmp @ drop (length icmp) rest) = echo_zeroed t icmp"
    using assms by (simp add: subl_def)
qed

text \<open>\<open>answers t icmp reply\<close>: the reply has type \<open>t\<close> and is otherwise the request, checksum apart.\<close>

definition answers :: "byte \<Rightarrow> byte list \<Rightarrow> byte list \<Rightarrow> bool" where
  "answers t icmp reply \<longleftrightarrow> length reply = length icmp \<and> reply ! 0 = t \<and> reply ! 1 = icmp ! 1 \<and> drop 4 reply = drop 4 icmp"

lemma drop_blit: "i + length ys \<le> n \<Longrightarrow> i + length ys \<le> length xs \<Longrightarrow> drop n (blit xs i ys) = drop n xs"
  by (simp add: blit_def)

lemma echo_answers: "4 \<le> length icmp \<Longrightarrow> answers t icmp (blit (echo_zeroed t icmp) 2 [a, b])"
proof -
  assume l: "4 \<le> length icmp"
  hence "icmp \<noteq> []" by auto
  thus ?thesis using l by (simp add: answers_def echo_zeroed_def nth_blit drop_blit)
qed

lemma echo_buffer:
  assumes pool: "pool_wf e" and icmp: "4 \<le> length icmp"
  obtains b e1 where "acquire (h + length icmp + 64) 64 e = (Inr b, e1)" "pool_wf e1"
    "pb_resize (h + length icmp) b = Inr (b\<lparr>pb_data_size := h + length icmp\<rparr>)" "h + length icmp \<le> length (pb_from_data b)"
    "\<forall>base. length base = length (pb_from_data b) \<longrightarrow>
      pb_bytes (pb_poke (b\<lparr>pb_data_size := h + length icmp\<rparr>) 0 base) = take (h + length icmp) base"
proof -
  obtain b e1 where acq: "acquire (h + length icmp + 64) 64 e = (Inr b, e1)" and b: "pb_wf b" "h + length icmp + 64 \<le> pb_capacity b" "pb_headroom b = 64"
    and e1: "pool_wf e1"
    by (rule acquire_wf [OF pool, of 64 "h + length icmp + 64"]) (use icmp in auto)
  have l: "length (pb_from_data b) = pb_capacity b - pb_headroom b" by (rule length_pb_from_data [OF b(1)])
  show thesis
    by (rule that [OF acq e1]) (use b l buffer_poke(1) [OF b(1)] in \<open>simp_all add: pb_resize_ok\<close>)
qed

lemma icmp_reply_bytes:
  assumes pool: "pool_wf e" and icmp: "8 \<le> length icmp" and a: "4 \<le> length src" "4 \<le> length dst"
  obtains reply e' ip_id c where "icmp_reply src dst icmp e = (Inr reply, e')" "c = ip_checksum (echo_zeroed 0 icmp)"
    "pb_bytes reply = ip_bytes 4 src dst ip_protocol_icmp (20 + length icmp) ip_id @ blit (echo_zeroed 0 icmp) 2 [hi8 c, lo8 c]"
proof -
  have i4: "4 \<le> length icmp" using icmp by simp
  obtain b e1 where B: "acquire (20 + length icmp + 64) 64 e = (Inr b, e1)" "pool_wf e1" "pb_resize (20 + length icmp) b = Inr (b\<lparr>pb_data_size := 20 + length icmp\<rparr>)"
    "20 + length icmp \<le> length (pb_from_data b)"
    "\<forall>base. length base = length (pb_from_data b) \<longrightarrow>
      pb_bytes (pb_poke (b\<lparr>pb_data_size := 20 + length icmp\<rparr>) 0 base) = take (20 + length icmp) base"
    by (rule echo_buffer [OF pool i4, of 20])
  obtain ip_id e2 where id: "alloc_ip_id e1 = (ip_id, e2)" by fastforce
  let ?h = "ip_bytes 4 src dst ip_protocol_icmp (20 + length icmp) ip_id" and ?x = "pb_from_data b" and ?z = "echo_zeroed 0 icmp"
  have base: "fst (build_ip_header ?x 4 src dst ip_protocol_icmp (20 + length icmp) ip_id 64) = ?h @ drop 20 ?x"
    using build_ip_bytes [of 4 src dst ?x "20 + length icmp" ip_protocol_icmp ip_id] a B(4) by (simp add: addr_len_def ip_header_size_def)
  have lh: "length ?h = 20" using a by (simp add: addr_len_def ip_header_size_def)
  have lr: "length icmp \<le> length (drop 20 ?x)" using icmp B(4) by simp
  note E = echo_blits [OF lh i4 lr, of 0, unfolded numeral_plus_numeral add_num_simps]
  define c where "c = ip_checksum ?z"
  have "icmp_reply src dst icmp e =
      (Inr (pb_poke (b\<lparr>pb_data_size := 20 + length icmp\<rparr>) 0 (?h @ blit ?z 2 [hi8 c, lo8 c] @ drop (length icmp) (drop 20 ?x))), e2)"
    unfolding icmp_reply_def B(1) prod.case sum.case B(3) Let_def id pb_from_data_size base E c_def ..
  moreover have "pb_bytes (pb_poke (b\<lparr>pb_data_size := 20 + length icmp\<rparr>) 0 (?h @ blit ?z 2 [hi8 c, lo8 c] @ drop (length icmp) (drop 20 ?x))) =
      ?h @ blit ?z 2 [hi8 c, lo8 c]"
    using B(4) i4 lh by (subst B(5) [rule_format]) simp_all
  ultimately show thesis using that c_def by metis
qed

lemma icmpv6_reply_bytes:
  assumes pool: "pool_wf e" and icmp: "8 \<le> length icmp" and a: "16 \<le> length src" "16 \<le> length dst"
  obtains reply e' c where "icmpv6_reply src dst icmp e = (Inr reply, e')" "c = tcp_udp_checksum 6 src dst ip_protocol_icmpv6 (echo_zeroed 129 icmp)"
    "pb_bytes reply = ip_bytes 6 src dst ip_protocol_icmpv6 (40 + length icmp) 0 @ blit (echo_zeroed 129 icmp) 2 [hi8 c, lo8 c]"
proof -
  have i4: "4 \<le> length icmp" using icmp by simp
  obtain b e1 where B: "acquire (40 + length icmp + 64) 64 e = (Inr b, e1)" "pool_wf e1" "pb_resize (40 + length icmp) b = Inr (b\<lparr>pb_data_size := 40 + length icmp\<rparr>)"
    "40 + length icmp \<le> length (pb_from_data b)"
    "\<forall>base. length base = length (pb_from_data b) \<longrightarrow>
      pb_bytes (pb_poke (b\<lparr>pb_data_size := 40 + length icmp\<rparr>) 0 base) = take (40 + length icmp) base"
    by (rule echo_buffer [OF pool i4, of 40])
  let ?h = "ip_bytes 6 src dst ip_protocol_icmpv6 (40 + length icmp) 0" and ?x = "pb_from_data b" and ?z = "echo_zeroed 129 icmp"
  have base: "fst (build_ip_header ?x 6 src dst ip_protocol_icmpv6 (40 + length icmp) 0 64) = ?h @ drop 40 ?x"
    using build_ip_bytes [of 6 src dst ?x "40 + length icmp" ip_protocol_icmpv6 0] a B(4) by (simp add: addr_len_def ip_header_size_def)
  have lh: "length ?h = 40" using a by (simp add: addr_len_def ip_header_size_def)
  have lr: "length icmp \<le> length (drop 40 ?x)" using icmp B(4) by simp
  note E = echo_blits [OF lh i4 lr, of 129, unfolded numeral_plus_numeral add_num_simps]
  define c where "c = tcp_udp_checksum 6 src dst ip_protocol_icmpv6 ?z"
  have "icmpv6_reply src dst icmp e =
      (Inr (pb_poke (b\<lparr>pb_data_size := 40 + length icmp\<rparr>) 0 (?h @ blit ?z 2 [hi8 c, lo8 c] @ drop (length icmp) (drop 40 ?x))), e1)"
    unfolding icmpv6_reply_def B(1) prod.case sum.case B(3) Let_def pb_from_data_size base E c_def ..
  moreover have "pb_bytes (pb_poke (b\<lparr>pb_data_size := 40 + length icmp\<rparr>) 0 (?h @ blit ?z 2 [hi8 c, lo8 c] @ drop (length icmp) (drop 40 ?x))) =
      ?h @ blit ?z 2 [hi8 c, lo8 c]"
    using B(4) i4 lh by (subst B(5) [rule_format]) simp_all
  ultimately show thesis using that c_def by metis
qed

text \<open>
  C14. An ICMP echo request to the local address is answered by exactly one packet, and the answer is
  right: it passes the validation of the input path with the addresses exchanged, its ICMP checksum
  verifies, its type is echo reply, and code, identifier, sequence number and data are the request's.
\<close>

theorem icmp_echo_answered:
  assumes req: "8 \<le> length icmp" "icmp ! 0 = 8" "ip_checksum icmp = 0" "20 + length icmp \<le> 65535"
    and local: "ti_local_ip4 s = Some (take 4 (pi_dst_ip ip))" and a: "length (pi_src_ip ip) = 16" "length (pi_dst_ip ip) = 16"
    and pool: "pool_wf (ti_env s)"
  shows "\<exists>reply e' msg. handle_icmp ip icmp s = (None, s\<lparr>ti_env := add_icmp_replies (async_write_and_forget reply e')\<rparr>) \<and>
    classify (pb_bytes reply) = Some (\<lparr>pi_family = 4, pi_protocol = ip_protocol_icmp, pi_src_ip = info_of 4 (pi_dst_ip ip),
      pi_dst_ip = info_of 4 (pi_src_ip ip)\<rparr>, msg) \<and> ip_checksum msg = 0 \<and> answers 0 icmp msg"
proof -
  obtain reply e' ip_id c where r: "icmp_reply (pi_dst_ip ip) (pi_src_ip ip) icmp (ti_env s) = (Inr reply, e')" and c: "c = ip_checksum (echo_zeroed 0 icmp)"
    and b: "pb_bytes reply = ip_bytes 4 (pi_dst_ip ip) (pi_src_ip ip) ip_protocol_icmp (20 + length icmp) ip_id @ blit (echo_zeroed 0 icmp) 2 [hi8 c, lo8 c]"
    by (rule icmp_reply_bytes [OF pool req(1), of "pi_dst_ip ip" "pi_src_ip ip"]) (use a in auto)
  let ?m = "blit (echo_zeroed 0 icmp) 2 [hi8 c, lo8 c]"
  have lm: "length ?m = length icmp" using req(1) by simp
  have "classify (pb_bytes reply) = Some (\<lparr>pi_family = 4, pi_protocol = ip_protocol_icmp, pi_src_ip = info_of 4 (pi_dst_ip ip),
      pi_dst_ip = info_of 4 (pi_src_ip ip)\<rparr>, ?m)"
    using classify_ip_bytes [of 4 "pi_dst_ip ip" "pi_src_ip ip" ?m ip_protocol_icmp ip_id] a req(4)
    by (simp add: b lm addr_len_def ip_header_size_def v6_extension_def ip_protocol_icmp_def del: length_blit)
  moreover have "ip_checksum ?m = 0"
    by (rule plain_csum.filled_verifies) (use req c echo_zeroed_field [of icmp 0] in simp_all)
  moreover have "handle_icmp ip icmp s = (None, s\<lparr>ti_env := add_icmp_replies (async_write_and_forget reply e')\<rparr>)"
    using local req by (simp add: handle_icmp_def r send_reply_def)
  ultimately show ?thesis using echo_answers [of icmp 0] req(1) by fastforce
qed

text \<open>
  The same for ICMPv6 over IPv6, where the checksum covers the pseudo header of the exchanged
  addresses and a packet without a valid one is not answered.
\<close>

theorem icmpv6_echo_answered:
  assumes req: "8 \<le> length icmp" "icmp ! 0 = 128" "tcp_udp_checksum 6 (pi_src_ip ip) (pi_dst_ip ip) ip_protocol_icmpv6 icmp = 0"
      "40 + length icmp \<le> 65535"
    and local: "ti_local_ip6 s = Some (take 16 (pi_dst_ip ip))" and a: "length (pi_src_ip ip) = 16" "length (pi_dst_ip ip) = 16"
    and pool: "pool_wf (ti_env s)"
  shows "\<exists>reply e' msg. handle_icmpv6 ip icmp s = (None, s\<lparr>ti_env := add_icmp_replies (async_write_and_forget reply e')\<rparr>) \<and>
    classify (pb_bytes reply) = Some (\<lparr>pi_family = 6, pi_protocol = ip_protocol_icmpv6, pi_src_ip = pi_dst_ip ip, pi_dst_ip = pi_src_ip ip\<rparr>, msg) \<and>
    tcp_udp_checksum 6 (pi_dst_ip ip) (pi_src_ip ip) ip_protocol_icmpv6 msg = 0 \<and> answers 129 icmp msg"
proof -
  obtain reply e' c where r: "icmpv6_reply (pi_dst_ip ip) (pi_src_ip ip) icmp (ti_env s) = (Inr reply, e')"
    and c: "c = tcp_udp_checksum 6 (pi_dst_ip ip) (pi_src_ip ip) ip_protocol_icmpv6 (echo_zeroed 129 icmp)"
    and b: "pb_bytes reply = ip_bytes 6 (pi_dst_ip ip) (pi_src_ip ip) ip_protocol_icmpv6 (40 + length icmp) 0 @ blit (echo_zeroed 129 icmp) 2 [hi8 c, lo8 c]"
    by (rule icmpv6_reply_bytes [OF pool req(1), of "pi_dst_ip ip" "pi_src_ip ip"]) (use a in auto)
  let ?m = "blit (echo_zeroed 129 icmp) 2 [hi8 c, lo8 c]"
  have lm: "length ?m = length icmp" using req(1) by simp
  have "classify (pb_bytes reply) = Some (\<lparr>pi_family = 6, pi_protocol = ip_protocol_icmpv6, pi_src_ip = pi_dst_ip ip, pi_dst_ip = pi_src_ip ip\<rparr>, ?m)"
    using classify_ip_bytes [of 6 "pi_dst_ip ip" "pi_src_ip ip" ?m ip_protocol_icmpv6 0] a req(4)
    by (simp add: b lm addr_len_def ip_header_size_def v6_extension_def ip_protocol_icmpv6_def info_of_def info_addr_def del: length_blit)
  moreover have "tcp_udp_checksum 6 (pi_dst_ip ip) (pi_src_ip ip) ip_protocol_icmpv6 ?m = 0"
    by (rule pseudo_csum.filled_verifies) (use req c echo_zeroed_field [of icmp 129] in simp_all)
  moreover have "handle_icmpv6 ip icmp s = (None, s\<lparr>ti_env := add_icmp_replies (async_write_and_forget reply e')\<rparr>)"
    using local req by (simp add: handle_icmpv6_def r send_reply_def)
  ultimately show ?thesis using echo_answers [of icmp 129] req(1) by fastforce
qed

definition sample_ping :: "byte list" where
  "sample_ping = [8, 0, 0xf7, 0xff, 0, 0, 0, 0]"

definition sample_ping_info :: ip_packet_info where
  "sample_ping_info = \<lparr>pi_family = 4, pi_protocol = 1, pi_src_ip = info_addr [10, 0, 0, 9], pi_dst_ip = info_addr [10, 0, 0, 1]\<rparr>"

definition sample_v6 :: "byte \<Rightarrow> byte list" where
  "sample_v6 x = [0xfd, 0, 0, 0, 0, 0, 0, 0, 0, 0, 0, 0, 0, 0, 0, x]"

definition sample_ping6 :: "byte list" where
  "sample_ping6 = [128, 0, 0x85, 0xb1, 0, 0, 0, 0]"

definition sample_ping6_info :: ip_packet_info where
  "sample_ping6_info = \<lparr>pi_family = 6, pi_protocol = 58, pi_src_ip = sample_v6 9, pi_dst_ip = sample_v6 1\<rparr>"

definition sample_pinged :: "byte list option \<Rightarrow> byte list option \<Rightarrow> tunio_impl" where
  "sample_pinged l4 l6 = (tunio_impl_new sample_env)\<lparr>ti_local_ip4 := l4, ti_local_ip6 := l6\<rparr>"

lemma sample_pinged_simps [simp]:
  "ti_local_ip4 (sample_pinged l4 l6) = l4" "ti_local_ip6 (sample_pinged l4 l6) = l6" "ti_env (sample_pinged l4 l6) = sample_env"
  by (simp_all add: sample_pinged_def tunio_impl_new_def)

lemma sample_ping_facts:
  "8 \<le> length sample_ping" "sample_ping ! 0 = 8" "ip_checksum sample_ping = 0" "20 + length sample_ping \<le> 65535"
  "length (pi_src_ip sample_ping_info) = 16" "length (pi_dst_ip sample_ping_info) = 16"
  "take 4 (pi_dst_ip sample_ping_info) = [10, 0, 0, 1]"
  by (simp_all add: sample_ping_def sample_ping_info_def info_addr_def) code_simp

lemma sample_ping6_facts:
  "8 \<le> length sample_ping6" "sample_ping6 ! 0 = 128" "40 + length sample_ping6 \<le> 65535"
  "length (pi_src_ip sample_ping6_info) = 16" "length (pi_dst_ip sample_ping6_info) = 16"
  "take 16 (pi_dst_ip sample_ping6_info) = sample_v6 1"
  "tcp_udp_checksum 6 (pi_src_ip sample_ping6_info) (pi_dst_ip sample_ping6_info) ip_protocol_icmpv6 sample_ping6 = 0"
  by (simp_all add: sample_ping6_def sample_ping6_info_def sample_v6_def) code_simp

theorem icmp_echo_answered_witness:
  "\<exists>reply e'. handle_icmp sample_ping_info sample_ping (sample_pinged (Some [10, 0, 0, 1]) None) =
     (None, (sample_pinged (Some [10, 0, 0, 1]) None)\<lparr>ti_env := add_icmp_replies (async_write_and_forget reply e')\<rparr>)"
  using icmp_echo_answered [OF sample_ping_facts(1-4) _ sample_ping_facts(5,6), of "sample_pinged (Some [10, 0, 0, 1]) None"]
    sample_ping_facts(7) by auto

theorem icmpv6_echo_answered_witness:
  "\<exists>reply e'. handle_icmpv6 sample_ping6_info sample_ping6 (sample_pinged None (Some (sample_v6 1))) =
     (None, (sample_pinged None (Some (sample_v6 1)))\<lparr>ti_env := add_icmp_replies (async_write_and_forget reply e')\<rparr>)"
  using icmpv6_echo_answered [OF sample_ping6_facts(1,2,7,3) _ sample_ping6_facts(4,5), of "sample_pinged None (Some (sample_v6 1))"]
    sample_ping6_facts(6) by auto

section \<open>From one engine to another\<close>

lemma declared_len_header:
  assumes "20 \<le> length p" shows
  "drop_bit 4 (p ! 0) = 4 \<Longrightarrow> 20 \<le> unat (ntohs (ip4_total_len (load_ipv4_header p))) \<Longrightarrow>
    declared_len p = Some (unat (ntohs (ip4_total_len (load_ipv4_header p))))"
  "drop_bit 4 (p ! 0) = 6 \<Longrightarrow> declared_len p = Some (40 + unat (ntohs (ip6_payload_len (load_ipv6_header p))))"
  using assms by (simp_all add: declared_len_def Let_def load_ipv4_header_def load_ipv6_header_def ld16_def ntohs_le16)

lemma declared_len_ip_bytes:
  assumes fam: "family = 4 \<or> family = 6" and a: "addr_len family \<le> length s" "addr_len family \<le> length d"
    and len: "ip_header_size family + length payload \<le> 65535"
  shows "declared_len (ip_bytes family s d protocol (ip_header_size family + length payload) ip_id @ payload) =
    Some (ip_header_size family + length payload)"
proof (cases "family = 4")
  case True
  let ?h = "\<lparr>ip4_version_ihl = 0x45, ip4_tos = 0, ip4_total_len = htons (of_nat (20 + length payload)), ip4_id = htons ip_id,
    ip4_frag_off = htons 0x4000, ip4_ttl = 64, ip4_protocol = protocol, ip4_checksum = 0, ip4_src_ip = ld32 s 0, ip4_dst_ip = ld32 d 0\<rparr>"
  let ?p = "filled_ipv4 ?h @ payload"
  have L: "load_ipv4_header ?p = ?h\<lparr>ip4_checksum := htons (ip_checksum (store_ipv4_header ?h))\<rparr>" by (rule filled_ipv4_load)
  have "?p ! 0 = 0x45" using arg_cong [OF L, of ip4_version_ihl] by (simp add: load_ipv4_header_def)
  moreover have "unat (20 + of_nat (length payload) :: u16) = 20 + length payload"
    using len True by (simp add: unat_word_ariths unat_of_nat ip_header_size_def)
  moreover have "ntohs (ip4_total_len (load_ipv4_header ?p)) = 20 + of_nat (length payload)" unfolding L by simp
  ultimately have "declared_len ?p = Some (20 + length payload)" using declared_len_header(1) [of ?p] by simp
  thus ?thesis using True by (simp add: ip_bytes_def ip_header_size_def)
next
  case False
  hence f: "family = 6" "16 \<le> length s" "16 \<le> length d" using fam a by (auto simp: addr_len_def)
  let ?h = "\<lparr>ip6_vtc_flow = htonl 0x60000000, ip6_payload_len = htons (of_nat (length payload)), ip6_next_header = protocol,
    ip6_hop_limit = 64, ip6_src_ip = subl 0 16 s, ip6_dst_ip = subl 0 16 d\<rparr>"
  let ?p = "store_ipv6_header ?h @ payload"
  have L: "load_ipv6_header ?p = ?h" by (rule load_store_ipv6_header) (use f in simp_all)
  have "?p ! 0 = 0x60" by (simp add: store_ipv6_header_def st32_def ntohl_def be32_def)
  moreover have "unat (of_nat (length payload) :: u16) = length payload" using len f by (simp add: unat_of_nat ip_header_size_def)
  moreover have "ntohs (ip6_payload_len (load_ipv6_header ?p)) = of_nat (length payload)" unfolding L by simp
  moreover have "20 \<le> length ?p" using f by simp
  ultimately have "declared_len ?p = Some (40 + length payload)" using declared_len_header(2) [of ?p] by simp
  thus ?thesis using f by (simp add: ip_bytes_def ip_header_size_def)
qed

lemma filled_read_buffer:
  assumes "pb_wf b" "pb_data_size b = 0" "length data \<le> pb_writable_size b"
  obtains buf where "pb_commit (length data) (pb_poke b 0 data) = Inr buf" "pb_bytes buf = data"
proof -
  have w: "pb_writable_size b = pb_capacity b - pb_headroom b" using pb_writable_exact [OF assms(1)] assms(2) by simp
  have "pb_wf (pb_poke b 0 data)" by (rule pb_poke_wf [OF assms(1)]) (use assms w in \<open>auto simp: pb_wf_def\<close>)
  moreover have "pb_writable_size (pb_poke b 0 data) = pb_writable_size b" by (simp add: pb_poke_def pb_writable_size_def)
  ultimately have "pb_commit (length data) (pb_poke b 0 data) = Inr ((pb_poke b 0 data)\<lparr>pb_data_size := length data\<rparr>)"
    using pb_commit_ok [of "pb_poke b 0 data" "length data"] assms by (simp add: pb_poke_def)
  moreover have "pb_bytes ((pb_poke b 0 data)\<lparr>pb_data_size := length data\<rparr>) = data"
  proof -
    have "pb_headroom b + length data \<le> length (pb_storage b)" using assms(1,3) unfolding w pb_wf_def by linarith
    from subl_blit_same [OF this] show ?thesis using assms by (simp add: pb_bytes_def pb_poke_def pb_wf_def)
  qed
  ultimately show thesis by (rule that)
qed

text \<open>A read that delivers one whole packet hands exactly its bytes to \<open>handle_packet\<close>.\<close>

lemma on_read_packet:
  assumes "ti_open s" "epoch = ti_epoch s" "i < length (ti_read_bufs s)" "b = ti_read_bufs s ! i"
    and b: "pb_wf b" "pb_data_size b = 0" "length data \<le> pb_writable_size b" and d: "declared_len data = Some (length data)"
  obtains s0 where "ti_tcp s0 = ti_tcp s" "ti_udp s0 = ti_udp s" "ti_env s0 = add_rx_packets (ti_env s)" "ti_local_ip4 s0 = ti_local_ip4 s"
    "ti_local_ip6 s0 = ti_local_ip6 s"
    "on_read w EC_ok (length data) i epoch (device_fill data i epoch s) =
      (let (x, s1) = handle_packet w data s0 in (x, restart_slot i s1))"
proof -
  obtain buf where c: "pb_commit (length data) (pb_poke b 0 data) = Inr buf" "pb_bytes buf = data"
    by (rule filled_read_buffer [OF b])
  define s0 where "s0 = with_env add_rx_packets (s\<lparr>ti_read_inflight := (ti_read_inflight s)[i := False], ti_read_bufs := (ti_read_bufs s)[i := buf]\<rparr>)"
  have "on_read w EC_ok (length data) i epoch (device_fill data i epoch s) = (let (x, s1) = handle_packet w data s0 in (x, restart_slot i s1))"
    using assms(1-4) c d by (simp add: on_read_def device_fill_def Let_def s0_def)
  thus thesis by (rule that [rotated -1]) (simp_all add: s0_def with_env_def)
qed

lemma restart_slot_udp [simp]: "ti_udp (restart_slot i s) = ti_udp s"
  by (simp add: restart_slot_def start_read_slot_def)

text \<open>
  C13. End to end: the packet in which one engine sends a datagram that fits the MTU, read from the device
  by another engine whose loopback guard does not concern the addresses, raises no exception there and
  reaches its UDP engine as exactly the sender's bytes between the sender's endpoints. From the user's
  buffers on one side to the session dispatch on the other, through checksums, both headers, the read
  buffer and the validation.
\<close>

theorem udp_end_to_end:
  assumes pool: "pool_wf e" and n: "n = length (concat bufs)" and fits: "n \<le> max_udp_payload family m" "0 < max_udp_payload family m"
    and small: "ip_header_size family + 8 + n \<le> 65535" and fam: "family = 4 \<or> family = 6"
    and d: "d = uk_src_ip (us_key ses)" and addrs: "addr_len family \<le> length a" "addr_len family \<le> length d"
    and rcv: "ti_open rcv" "i < length (ti_read_bufs rcv)" "b = ti_read_bufs rcv ! i" "pb_wf b" "pb_data_size b = 0" "m \<le> pb_writable_size b"
      "ti_udp rcv = Some u"
    and guard: "\<not> guard_drops (ti_local_ip4 rcv) (ti_local_ip6 rcv)
      \<lparr>pi_family = of_nat family, pi_protocol = ip_protocol_udp, pi_src_ip = info_of family a, pi_dst_ip = info_of family d\<rparr>"
  shows "\<exists>pkt e' rcv'. udp_single_packet ses r family a bufs n m e = (Inr pkt, e') \<and>
    on_read w EC_ok (length (pb_bytes pkt)) i (ti_epoch rcv) (device_fill (pb_bytes pkt) i (ti_epoch rcv) rcv) = (None, rcv') \<and>
    ti_udp rcv' = Some (udp_dispatch (make_udp_session_key (info_of family a) (htons (ep_port r)) (of_nat family)) (concat bufs)
      (make_udp_endpoint (of_nat family) (info_of family d) (uk_src_port (us_key ses))) (u\<lparr>ue_env := add_rx_packets (ti_env rcv)\<rparr>))"
proof -
  define ip where "ip = \<lparr>pi_family = of_nat family, pi_protocol = ip_protocol_udp, pi_src_ip = info_of family a, pi_dst_ip = info_of family d\<rparr>"
  obtain pkt e' ip_id p where P: "udp_single_packet ses r family a bufs n m e = (Inr pkt, e')" "length (pb_bytes pkt) \<le> m"
    "pb_bytes pkt = ip_bytes family a d ip_protocol_udp (ip_header_size family + length p) ip_id @ p"
    "p = drop (ip_header_size family) (pb_bytes pkt)" "ip_header_size family + length p \<le> 65535" "classify (pb_bytes pkt) = Some (ip, p)"
    "\<And>eng. udp_on_packet ip p eng = udp_dispatch (make_udp_session_key (info_of family a) (htons (ep_port r)) (of_nat family)) (concat bufs)
        (make_udp_endpoint (of_nat family) (info_of family d) (uk_src_port (us_key ses))) eng"
    using udp_packet_sent [OF pool n fits small fam d addrs ip_def, of r] by metis
  have "declared_len (pb_bytes pkt) = Some (ip_header_size family + length p)"
    unfolding P(3) by (rule declared_len_ip_bytes [OF fam addrs P(5)])
  moreover have "length (pb_bytes pkt) = ip_header_size family + length p" using P(3) fam addrs by simp
  ultimately have dl: "declared_len (pb_bytes pkt) = Some (length (pb_bytes pkt))" by simp
  have fit: "length (pb_bytes pkt) \<le> pb_writable_size b" using P(2) rcv(6) by simp
  obtain s0 where S: "ti_tcp s0 = ti_tcp rcv" "ti_udp s0 = ti_udp rcv" "ti_env s0 = add_rx_packets (ti_env rcv)" "ti_local_ip4 s0 = ti_local_ip4 rcv"
    "ti_local_ip6 s0 = ti_local_ip6 rcv"
    "on_read w EC_ok (length (pb_bytes pkt)) i (ti_epoch rcv) (device_fill (pb_bytes pkt) i (ti_epoch rcv) rcv) =
      (let (x, s1) = handle_packet w (pb_bytes pkt) s0 in (x, restart_slot i s1))"
    by (rule on_read_packet [OF rcv(1) refl rcv(2-5) fit dl, of w])
  have "handle_packet w (pb_bytes pkt) s0 = (None, with_udp (udp_on_packet ip p) s0)"
    using guard P(6) S(4,5) by (simp add: handle_packet_def ip_def ip_protocol_udp_def ip_protocol_tcp_def ip_protocol_icmp_def ip_protocol_icmpv6_def)
  moreover have "ti_udp (with_udp (udp_on_packet ip p) s0) = Some (udp_on_packet ip p (u\<lparr>ue_env := add_rx_packets (ti_env rcv)\<rparr>))"
    using S(2,3) rcv(7) by (simp add: with_udp_def Let_def)
  ultimately show ?thesis using P(1,7) S(6) by (intro exI) (auto simp: Let_def)
qed

definition sample_slot :: packet_buffer where
  "sample_slot = \<lparr>pb_storage = replicate 1564 0, pb_capacity = 1564, pb_headroom = 64, pb_data_offset = 64, pb_data_size = 0\<rparr>"

definition sample_receiver :: tunio_impl where
  "sample_receiver = (tunio_impl_new sample_env)\<lparr>ti_open := True, ti_read_bufs := [sample_slot],
     ti_udp := Some (udp_engine_new default_config sample_env)\<rparr>"

lemma sample_slot_facts: "pb_wf sample_slot" "pb_data_size sample_slot = 0" "1500 \<le> pb_writable_size sample_slot"
  by (simp_all add: sample_slot_def pb_wf_def pb_writable_size_def size_sub_def)

lemma sample_receiver_facts:
  "ti_open sample_receiver" "0 < length (ti_read_bufs sample_receiver)" "sample_slot = ti_read_bufs sample_receiver ! 0"
  "ti_udp sample_receiver = Some (udp_engine_new default_config sample_env)"
  "ti_local_ip4 sample_receiver = None" "ti_local_ip6 sample_receiver = None"
  by (simp_all add: sample_receiver_def tunio_impl_new_def)

lemma sample_guard:
  "\<not> guard_drops (ti_local_ip4 sample_receiver) (ti_local_ip6 sample_receiver)
     \<lparr>pi_family = of_nat 4, pi_protocol = ip_protocol_udp, pi_src_ip = info_of 4 [10, 0, 0, 2], pi_dst_ip = info_of 4 (uk_src_ip (us_key sample_to))\<rparr>"
  by (simp add: guard_drops_def sample_receiver_facts is_reserved_local_def info_of_def info_addr_def addr_len_def sample_to_def
    make_udp_session_key_def addr16_def blit_def subl_def)

theorem udp_end_to_end_witness:
  "\<exists>pkt e' rcv'. udp_single_packet sample_to \<lparr>ep_v6 = False, ep_addr = [10, 0, 0, 2], ep_port = 53\<rparr> 4 [10, 0, 0, 2] [[65], [66, 67]] 3 1500 sample_env =
     (Inr pkt, e') \<and>
     on_read 1 EC_ok (length (pb_bytes pkt)) 0 (ti_epoch sample_receiver) (device_fill (pb_bytes pkt) 0 (ti_epoch sample_receiver) sample_receiver) = (None, rcv')"
proof -
  have "addr_len 4 \<le> length (uk_src_ip (us_key sample_to))" by (simp add: sample_to_def make_udp_session_key_def addr_len_def addr16_def)
  thus ?thesis
    using udp_end_to_end [OF sample_env_pool, of 3 "[[65], [66, 67]]" 4 1500 _ sample_to "[10, 0, 0, 2]", OF _ _ _ _ _ refl _ _
        sample_receiver_facts(1-3) sample_slot_facts sample_receiver_facts(4) sample_guard, of "\<lparr>ep_v6 = False, ep_addr = [10, 0, 0, 2], ep_port = 53\<rparr>" 1]
    by (fastforce simp: max_udp_payload_def ip_header_size_def addr_len_def)
qed

end
