(* ===== verification/Tcp_Socket.thy ===== *)
theory Tcp_Socket
  imports Tcp_System
begin

text \<open>
  The socket and acceptor of the TCP side (\<^verbatim>\<open>tun_tcp_socket\<close>, \<^verbatim>\<open>tun_tcp_acceptor\<close>): thin owners of a
  connection, which translate the calls of the application into calls of the engine. An application
  with any number of socket objects is a step relation over the engine; the specification it refines has no
  sockets, only the owner of each object and the calls the engine receives (\<open>layer_spec\<close>). The executor a socket carries
  has no state and is left out; the order in which completions run on it is arbitrary.
\<close>

section \<open>The socket\<close>

record tun_tcp_socket =
  so_flow :: "nat option"

definition do_read_some :: "tun_tcp_socket \<Rightarrow> nat list \<Rightarrow> nat \<Rightarrow> tcp_engine \<Rightarrow> tcp_engine" where
  "do_read_some so buffers handler eng =
     (let (sq, tot) = collect (\<lambda>n. n) buffers in
      case so_flow so of
        None \<Rightarrow> eng_post (Done_read handler EC_bad_descriptor 0 []) eng
      | Some i \<Rightarrow> tcp_flow_start_read (Some i) sq tot handler eng)"

definition do_write_some :: "tun_tcp_socket \<Rightarrow> byte list list \<Rightarrow> nat \<Rightarrow> tcp_engine \<Rightarrow> tcp_engine" where
  "do_write_some so buffers handler eng =
     (let (sq, tot) = collect length buffers in
      case so_flow so of
        None \<Rightarrow> eng_post (Done_write handler EC_bad_descriptor 0) eng
      | Some i \<Rightarrow> tcp_flow_start_write (Some i) sq tot handler eng)"

datatype shutdown_type = Shutdown_receive | Shutdown_send | Shutdown_both

definition socket_shutdown :: "shutdown_type \<Rightarrow> tun_tcp_socket \<Rightarrow> tcp_engine \<Rightarrow> error_code \<times> tcp_engine" where
  "socket_shutdown what so eng =
     (case so_flow so of
        None \<Rightarrow> (EC_bad_descriptor, eng)
      | Some i \<Rightarrow>
          let eng = (if what = Shutdown_send \<or> what = Shutdown_both then tcp_flow_shutdown_send (Some i) eng else eng);
              eng = (if what = Shutdown_receive \<or> what = Shutdown_both then tcp_flow_shutdown_receive (Some i) eng else eng)
          in (EC_ok, eng))"

definition socket_close :: "tun_tcp_socket \<Rightarrow> tcp_engine \<Rightarrow> tcp_engine" where
  "socket_close so eng = (if so_flow so = None then eng else tcp_flow_close (so_flow so) eng)"

definition socket_reset :: "tun_tcp_socket \<Rightarrow> tcp_engine \<Rightarrow> tcp_engine" where
  "socket_reset so eng = (if so_flow so = None then eng else tcp_flow_reset (so_flow so) eng)"

definition socket_accept :: "tun_tcp_socket \<Rightarrow> tcp_engine \<Rightarrow> tcp_engine" where
  "socket_accept so eng = (if so_flow so = None then eng else tcp_flow_accept (so_flow so) eng)"

definition socket_reject :: "tun_tcp_socket \<Rightarrow> tcp_engine \<Rightarrow> tcp_engine" where
  "socket_reject so eng = (if so_flow so = None then eng else tcp_flow_reject (so_flow so) eng)"

definition socket_is_open :: "tun_tcp_socket \<Rightarrow> tcp_engine \<Rightarrow> bool" where
  "socket_is_open so eng = tcp_flow_is_open (so_flow so) eng"

text \<open>Without a connection the endpoints are those of a default constructed endpoint: any IPv4 address, port 0.\<close>

definition socket_remote_endpoint :: "tun_tcp_socket \<Rightarrow> tcp_engine \<Rightarrow> ip_address \<times> u16" where
  "socket_remote_endpoint so eng =
     (case so_flow so of None \<Rightarrow> (Addr_v4 [0, 0, 0, 0], 0) | Some i \<Rightarrow> remote_endpoint (te_store eng i))"

definition socket_original_destination :: "tun_tcp_socket \<Rightarrow> tcp_engine \<Rightarrow> ip_address \<times> u16" where
  "socket_original_destination so eng =
     (case so_flow so of None \<Rightarrow> (Addr_v4 [0, 0, 0, 0], 0) | Some i \<Rightarrow> original_destination (te_store eng i))"

text \<open>Assignment from another object closes what was owned; the other object is left without a connection.\<close>

definition socket_move :: "tun_tcp_socket \<Rightarrow> tun_tcp_socket \<Rightarrow> tcp_engine \<Rightarrow> tun_tcp_socket \<times> tun_tcp_socket \<times> tcp_engine" where
  "socket_move so other eng = (so\<lparr>so_flow := so_flow other\<rparr>, other\<lparr>so_flow := None\<rparr>, socket_close so eng)"

text \<open>What the acceptor does with the result: the peer object takes the connection over.\<close>

definition accept_result :: "error_code \<Rightarrow> nat option \<Rightarrow> tun_tcp_socket \<Rightarrow> tun_tcp_socket" where
  "accept_result ec f peer = (if ec = EC_ok \<and> f \<noteq> None then peer\<lparr>so_flow := f\<rparr> else peer)"

section \<open>An application\<close>

text \<open>
  Socket objects are numbered; accept handlers are numbered in the order of the calls, and \<open>ap_peer\<close> is
  the object each captured. \<open>ap_ran\<close> are the positions of the completions that have run, and \<open>ap_called\<close>
  the accept handlers of the application that have been called.
\<close>

record socket_app =
  ap_engine :: tcp_engine
  ap_socket :: "nat \<Rightarrow> tun_tcp_socket"
  ap_peer :: "nat \<Rightarrow> nat"
  ap_accepts :: nat
  ap_ran :: "nat list"
  ap_called :: "(nat \<times> error_code) list"

definition socket_app_new :: "tun_config \<Rightarrow> env \<Rightarrow> socket_app" where
  "socket_app_new cfg e = \<lparr>ap_engine = tcp_engine_new cfg e, ap_socket = (\<lambda>_. \<lparr>so_flow = None\<rparr>), ap_peer = (\<lambda>_. 0),
     ap_accepts = 0, ap_ran = [], ap_called = []\<rparr>"

definition on_socket :: "(tun_tcp_socket \<Rightarrow> tcp_engine \<Rightarrow> tcp_engine) \<Rightarrow> nat \<Rightarrow> socket_app \<Rightarrow> socket_app" where
  "on_socket g k st = st\<lparr>ap_engine := g (ap_socket st k) (ap_engine st)\<rparr>"

definition do_accept :: "nat \<Rightarrow> socket_app \<Rightarrow> socket_app" where
  "do_accept k st = st\<lparr>ap_engine := async_accept (ap_accepts st) (ap_engine st),
     ap_peer := (ap_peer st)(ap_accepts st := k), ap_accepts := ap_accepts st + 1\<rparr>"

text \<open>The completion of an accept runs on the executor of the peer.\<close>

definition accept_done :: "nat \<Rightarrow> socket_app \<Rightarrow> socket_app" where
  "accept_done n st =
     (case e_posted (te_env (ap_engine st)) ! n of
        Done_tcp_accept h ec f \<Rightarrow>
          st\<lparr>ap_socket := (ap_socket st)(ap_peer st h := accept_result ec f (ap_socket st (ap_peer st h))),
             ap_ran := ap_ran st @ [n], ap_called := ap_called st @ [(h, ec)]\<rparr>
      | _ \<Rightarrow> st\<lparr>ap_ran := ap_ran st @ [n]\<rparr>)"

definition move_socket :: "nat \<Rightarrow> nat \<Rightarrow> socket_app \<Rightarrow> socket_app" where
  "move_socket k k' st =
     (if k = k' then st
      else
        let (a, b, eng) = socket_move (ap_socket st k) (ap_socket st k') (ap_engine st)
        in st\<lparr>ap_engine := eng, ap_socket := (ap_socket st)(k := a, k' := b)\<rparr>)"

definition destroy_socket :: "nat \<Rightarrow> socket_app \<Rightarrow> socket_app" where
  "destroy_socket k st = st\<lparr>ap_engine := socket_close (ap_socket st k) (ap_engine st), ap_socket := (ap_socket st)(k := \<lparr>so_flow = None\<rparr>)\<rparr>"

text \<open>What comes from elsewhere: packets, timers, the device, the closing of the engine.\<close>

fun outside :: "tcp_event \<Rightarrow> bool" where
  "outside (Ev_accept h) = False"
| "outside (Ev_read f bs n h) = False"
| "outside (Ev_write f bs n h) = False"
| "outside (Ev_shutdown_send f) = False"
| "outside (Ev_shutdown_receive f) = False"
| "outside (Ev_close f) = False"
| "outside (Ev_reset f) = False"
| "outside (Ev_approve f) = False"
| "outside (Ev_reject f) = False"
| "outside _ = True"

datatype app_event =
    Ap_engine tcp_event
  | Ap_async_accept nat
  | Ap_accept_done nat
  | Ap_read nat "nat list" nat
  | Ap_write nat "byte list list" nat
  | Ap_shutdown nat shutdown_type
  | Ap_close nat
  | Ap_reset nat
  | Ap_accept nat
  | Ap_reject nat
  | Ap_move nat nat
  | Ap_destroy nat

fun app_step :: "app_event \<Rightarrow> socket_app \<Rightarrow> socket_app" where
  "app_step (Ap_engine ev) st = st\<lparr>ap_engine := tcp_step ev (ap_engine st)\<rparr>"
| "app_step (Ap_async_accept k) st = do_accept k st"
| "app_step (Ap_accept_done n) st = accept_done n st"
| "app_step (Ap_read k bs h) st = on_socket (\<lambda>so. do_read_some so bs h) k st"
| "app_step (Ap_write k bs h) st = on_socket (\<lambda>so. do_write_some so bs h) k st"
| "app_step (Ap_shutdown k what) st = on_socket (\<lambda>so eng. snd (socket_shutdown what so eng)) k st"
| "app_step (Ap_close k) st = on_socket socket_close k st"
| "app_step (Ap_reset k) st = on_socket socket_reset k st"
| "app_step (Ap_accept k) st = on_socket socket_accept k st"
| "app_step (Ap_reject k) st = on_socket socket_reject k st"
| "app_step (Ap_move k k') st = move_socket k k' st"
| "app_step (Ap_destroy k) st = destroy_socket k st"

text \<open>A completion runs once. An object is destroyed only when no accept into it is outstanding, as its handler refers to it.\<close>

fun app_enabled :: "app_event \<Rightarrow> socket_app \<Rightarrow> bool" where
  "app_enabled (Ap_engine ev) st = (outside ev \<and> enabled ev (ap_engine st))"
| "app_enabled (Ap_accept_done n) st = (n < length (e_posted (te_env (ap_engine st))) \<and> n \<notin> set (ap_ran st))"
| "app_enabled (Ap_destroy k) st = (\<forall>h<ap_accepts st. ap_peer st h = k \<longrightarrow> h \<in> fst ` set (ap_called st))"
| "app_enabled _ st = True"

inductive app_run :: "tun_config \<Rightarrow> env \<Rightarrow> socket_app \<Rightarrow> bool" for cfg e where
  start: "app_run cfg e (socket_app_new cfg e)"
| event: "app_run cfg e st \<Longrightarrow> app_enabled ev st \<Longrightarrow> app_run cfg e (app_step ev st)"

inductive_cases app_runE: "app_run cfg e st"

section \<open>Every call keeps the engine's contract\<close>

definition accepts_of :: "tcp_engine \<Rightarrow> completion list" where
  "accepts_of eng = e_posted (te_env eng)"

text \<open>What a run maintains: the engine is in a state of its own step relation, and connections have one owner.\<close>

definition owners_ok :: "socket_app \<Rightarrow> bool" where
  "owners_ok st \<longleftrightarrow>
     (\<forall>n\<in>set (ap_ran st). n < length (accepts_of (ap_engine st))) \<and>
     (\<forall>k i. so_flow (ap_socket st k) = Some i \<longrightarrow> (\<exists>n\<in>set (ap_ran st). flow_of (accepts_of (ap_engine st) ! n) = [i])) \<and>
     (\<forall>k k' i. so_flow (ap_socket st k) = Some i \<and> so_flow (ap_socket st k') = Some i \<longrightarrow> k = k')"

definition app_inv :: "tun_config \<Rightarrow> env \<Rightarrow> socket_app \<Rightarrow> bool" where
  "app_inv cfg e st \<longleftrightarrow> (\<exists>subs. tcp_run cfg e subs (ap_engine st)) \<and> owners_ok st"

lemma app_invE:
  assumes "app_inv cfg e st" "fresh_env e"
  shows "te_inv [] (ap_engine st)"
  using assms tcp_run_fresh by (auto simp: app_inv_def)

text \<open>A flow some socket owns was handed out by the engine.\<close>

lemma handed_mem: "n < length xs \<Longrightarrow> flow_of (xs ! n) = [i] \<Longrightarrow> i \<in> set (concat (map flow_of xs))"
  by (auto intro!: bexI [of _ "xs ! n"])

lemma owned_handed:
  assumes "app_inv cfg e st" "fresh_env e" "so_flow (ap_socket st k) = Some i"
  shows "handed_out (Some i) (ap_engine st)"
proof -
  have t: "te_inv [] (ap_engine st)" using app_invE [OF assms(1,2)] .
  obtain n where "n < length (accepts_of (ap_engine st))" "flow_of (accepts_of (ap_engine st) ! n) = [i]"
    using assms(1,3) unfolding app_inv_def owners_ok_def by blast
  hence "i \<in> set (handed (te_env (ap_engine st)))" using handed_mem unfolding accepts_of_def by blast
  thus ?thesis using t by (auto simp: te_inv_def handover_def handed_out_def known_def)
qed

lemma engine_event:
  assumes inv: "app_inv cfg e st" "fresh_env e" and en: "enabled ev (ap_engine st)"
  shows "app_inv cfg e (st\<lparr>ap_engine := tcp_step ev (ap_engine st)\<rparr>)"
proof -
  obtain subs where r: "tcp_run cfg e subs (ap_engine st)" using inv(1) by (auto simp: app_inv_def)
  obtain ys where ys: "accepts_of (tcp_step ev (ap_engine st)) = accepts_of (ap_engine st) @ ys"
    using tcp_step_advances [OF app_invE [OF inv] en] by (auto simp: advances_def accepts_of_def prefix_def)
  have o: "owners_ok st" using inv(1) by (simp add: app_inv_def)
  have keep: "\<exists>n\<in>set (ap_ran st). flow_of ((accepts_of (ap_engine st) @ ys) ! n) = [i]"
    if k: "so_flow (ap_socket st k) = Some i" for k i
  proof -
    obtain n where "n \<in> set (ap_ran st)" "flow_of (accepts_of (ap_engine st) ! n) = [i]" "n < length (accepts_of (ap_engine st))"
      using o k unfolding owners_ok_def by blast
    thus ?thesis by (auto simp: nth_append intro!: bexI [of _ n])
  qed
  have "owners_ok (st\<lparr>ap_engine := tcp_step ev (ap_engine st)\<rparr>)"
    using o keep by (auto simp: owners_ok_def ys)
  thus ?thesis using tcp_run.event [OF r en] by (auto simp: app_inv_def)
qed

text \<open>A call on a socket is nothing, or an event on the connection it owns.\<close>

lemma socket_event:
  assumes inv: "app_inv cfg e st" "fresh_env e"
    and none: "so_flow (ap_socket st k) = None \<Longrightarrow> g (ap_socket st k) (ap_engine st) = ap_engine st"
    and some: "\<And>i. so_flow (ap_socket st k) = Some i \<Longrightarrow>
      \<exists>ev. g (ap_socket st k) (ap_engine st) = tcp_step ev (ap_engine st) \<and> (handed_out (Some i) (ap_engine st) \<longrightarrow> enabled ev (ap_engine st))"
  shows "app_inv cfg e (on_socket g k st)"
proof (cases "so_flow (ap_socket st k)")
  case None
  thus ?thesis using inv(1) none by (simp add: on_socket_def)
next
  case (Some i)
  then obtain ev where ev: "g (ap_socket st k) (ap_engine st) = tcp_step ev (ap_engine st)" "enabled ev (ap_engine st)"
    using some owned_handed [OF inv] by blast
  show ?thesis unfolding on_socket_def ev(1) by (rule engine_event [OF inv ev(2)])
qed

lemma close_event: "so_flow so = Some i \<Longrightarrow> socket_close so eng = tcp_step (Ev_close (Some i)) eng" "so_flow so = None \<Longrightarrow> socket_close so eng = eng"
  by (simp_all add: socket_close_def)

lemma socket_close_inv: "app_inv cfg e st \<Longrightarrow> fresh_env e \<Longrightarrow> app_inv cfg e (on_socket socket_close k st)"
  by (rule socket_event) (auto simp: close_event intro!: exI [of _ "Ev_close (Some i)" for i])

lemma socket_shutdown_inv:
  assumes inv: "app_inv cfg e st" "fresh_env e" shows "app_inv cfg e (on_socket (\<lambda>so eng. snd (socket_shutdown what so eng)) k st)"
proof -
  define a where "a = on_socket (\<lambda>so. if so_flow so \<noteq> None \<and> (what = Shutdown_send \<or> what = Shutdown_both)
      then tcp_flow_shutdown_send (so_flow so) else id) k st"
  define b where "b = on_socket (\<lambda>so. if so_flow so \<noteq> None \<and> (what = Shutdown_receive \<or> what = Shutdown_both)
      then tcp_flow_shutdown_receive (so_flow so) else id) k a"
  have a: "app_inv cfg e a"
  proof (cases "what = Shutdown_send \<or> what = Shutdown_both")
    case True
    show ?thesis unfolding a_def
      by (rule socket_event [OF inv]) (use True in \<open>auto intro!: exI [of _ "Ev_shutdown_send (Some i)" for i]\<close>)
  qed (use inv in \<open>simp add: a_def on_socket_def\<close>)
  have "app_inv cfg e b"
  proof (cases "what = Shutdown_receive \<or> what = Shutdown_both")
    case True
    show ?thesis unfolding b_def
      by (rule socket_event [OF a inv(2)]) (use True in \<open>auto intro!: exI [of _ "Ev_shutdown_receive (Some i)" for i]\<close>)
  qed (use a in \<open>simp add: b_def on_socket_def\<close>)
  moreover have "b = on_socket (\<lambda>so eng. snd (socket_shutdown what so eng)) k st"
    by (simp add: a_def b_def on_socket_def socket_shutdown_def Let_def split: option.splits)
  ultimately show ?thesis by simp
qed

lemma io_none: "eng_post (Done_read h EC_bad_descriptor 0 []) eng = tcp_step (Ev_read None bs n h) eng"
  "eng_post (Done_write h EC_bad_descriptor 0) eng = tcp_step (Ev_write None ds n h) eng"
  by (simp_all add: tcp_flow_start_read_def tcp_flow_start_write_def)

lemma socket_io_inv:
  assumes inv: "app_inv cfg e st" "fresh_env e"
  shows "app_inv cfg e (on_socket (\<lambda>so. do_read_some so bs h) k st)" "app_inv cfg e (on_socket (\<lambda>so. do_write_some so ds h) k st)"
proof -
  have h: "handed_out (so_flow (ap_socket st k)) (ap_engine st)"
    by (cases "so_flow (ap_socket st k)") (use owned_handed [OF inv] in \<open>auto simp: handed_out_def\<close>)
  have "do_read_some (ap_socket st k) bs h (ap_engine st) = tcp_step (Ev_read (so_flow (ap_socket st k)) bs (sum_list bs) h) (ap_engine st)"
    by (simp add: do_read_some_def tcp_flow_start_read_def split: option.splits)
  thus "app_inv cfg e (on_socket (\<lambda>so. do_read_some so bs h) k st)"
    unfolding on_socket_def using engine_event [OF inv, of "Ev_read (so_flow (ap_socket st k)) bs (sum_list bs) h"] h by simp
  have "do_write_some (ap_socket st k) ds h (ap_engine st) = tcp_step (Ev_write (so_flow (ap_socket st k)) ds (length (concat ds)) h) (ap_engine st)"
    by (simp add: do_write_some_def tcp_flow_start_write_def length_concat split: option.splits)
  thus "app_inv cfg e (on_socket (\<lambda>so. do_write_some so ds h) k st)"
    unfolding on_socket_def using engine_event [OF inv, of "Ev_write (so_flow (ap_socket st k)) ds (length (concat ds)) h"] h by simp
qed

section \<open>Ownership\<close>

lemma flow_nth_inj:
  assumes "distinct (concat (map flow_of xs))" "n < length xs" "m < length xs" "flow_of (xs ! n) = [i]" "flow_of (xs ! m) = [i]"
  shows "n = m"
  using assms
proof (induction xs arbitrary: n m)
  case (Cons x xs)
  have later: "i \<in> set (concat (map flow_of xs))" if "j < length xs" "flow_of (xs ! j) = [i]" for j
    using handed_mem that by blast
  show ?case
  proof (cases n)
    case 0
    thus ?thesis using Cons.prems later by (cases m) auto
  next
    case (Suc n')
    thus ?thesis using Cons later by (cases m) auto
  qed
qed simp

text \<open>Updates that only take connections from sockets, or move them.\<close>

lemma accept_done_inv:
  assumes inv: "app_inv cfg e st" "fresh_env e" and n: "n < length (accepts_of (ap_engine st))" "n \<notin> set (ap_ran st)"
  shows "app_inv cfg e (accept_done n st)"
proof -
  let ?c = "accepts_of (ap_engine st)"
  have o: "owners_ok st" using inv(1) by (simp add: app_inv_def)
  have d: "distinct (concat (map flow_of ?c))"
    using app_invE [OF inv] by (auto simp: te_inv_def handover_def accepts_of_def)
  have ran: "owners_ok (st\<lparr>ap_ran := ap_ran st @ [n], ap_called := cl\<rparr>)" for cl
    using o n(1) by (auto simp: owners_ok_def)
  have fresh: "so_flow (ap_socket st k) \<noteq> Some i" if "flow_of (?c ! n) = [i]" for k i
  proof
    assume "so_flow (ap_socket st k) = Some i"
    then obtain m where "m \<in> set (ap_ran st)" "flow_of (?c ! m) = [i]" using o unfolding owners_ok_def by blast
    moreover have "m < length ?c" using o calculation(1) unfolding owners_ok_def by blast
    ultimately show False using flow_nth_inj [OF d n(1) _ that] n(2) by blast
  qed
  have "owners_ok (accept_done n st)"
  proof (cases "?c ! n")
    case (Done_tcp_accept h ec f)
    show ?thesis
    proof (cases "ec = EC_ok \<and> f \<noteq> None")
      case True
      then obtain i where i: "f = Some i" by blast
      have fl: "flow_of (?c ! n) = [i]" using Done_tcp_accept i by simp
      have eq: "accept_done n st = st\<lparr>ap_socket := (ap_socket st)(ap_peer st h := (ap_socket st (ap_peer st h))\<lparr>so_flow := Some i\<rparr>),
          ap_ran := ap_ran st @ [n], ap_called := ap_called st @ [(h, ec)]\<rparr>"
        using Done_tcp_accept True i by (simp add: accept_done_def accepts_of_def accept_result_def)
      show ?thesis using o n(1) fl fresh [OF fl] unfolding eq by (auto simp: owners_ok_def)
    next
      case False
      hence "accept_done n st = st\<lparr>ap_socket := (ap_socket st)(ap_peer st h := ap_socket st (ap_peer st h)),
          ap_ran := ap_ran st @ [n], ap_called := ap_called st @ [(h, ec)]\<rparr>"
        using Done_tcp_accept by (auto simp: accept_done_def accepts_of_def accept_result_def)
      thus ?thesis using ran by simp
    qed
  qed (use ran [of "ap_called st"] in \<open>simp_all add: accept_done_def accepts_of_def\<close>)
  moreover have "ap_engine (accept_done n st) = ap_engine st" by (simp add: accept_done_def split: completion.splits)
  ultimately show ?thesis using inv(1) by (simp add: app_inv_def)
qed

lemma move_socket_inv:
  assumes inv: "app_inv cfg e st" "fresh_env e" shows "app_inv cfg e (move_socket k k' st)"
proof (cases "k = k'")
  case False
  define st1 where "st1 = on_socket socket_close k st"
  have i: "app_inv cfg e st1" unfolding st1_def by (rule socket_close_inv [OF inv])
  have "move_socket k k' st = st1\<lparr>ap_socket := (ap_socket st1)(k := (ap_socket st1 k)\<lparr>so_flow := so_flow (ap_socket st1 k')\<rparr>,
      k' := (ap_socket st1 k')\<lparr>so_flow := None\<rparr>)\<rparr>" (is "_ = ?m")
    using False by (simp add: move_socket_def socket_move_def st1_def on_socket_def)
  moreover have "owners_ok ?m" using i False by (auto simp: app_inv_def owners_ok_def)
  ultimately show ?thesis using i by (simp add: app_inv_def)
qed (use inv in \<open>simp add: move_socket_def\<close>)

lemma destroy_socket_inv:
  assumes inv: "app_inv cfg e st" "fresh_env e" shows "app_inv cfg e (destroy_socket k st)"
proof -
  define st1 where "st1 = on_socket socket_close k st"
  have i: "app_inv cfg e st1" unfolding st1_def by (rule socket_close_inv [OF inv])
  have "destroy_socket k st = st1\<lparr>ap_socket := (ap_socket st1)(k := \<lparr>so_flow = None\<rparr>)\<rparr>"
    by (simp add: destroy_socket_def st1_def on_socket_def)
  thus ?thesis using i by (auto simp: app_inv_def owners_ok_def)
qed

lemma do_accept_inv:
  assumes inv: "app_inv cfg e st" "fresh_env e" shows "app_inv cfg e (do_accept k st)"
proof -
  have "app_inv cfg e (st\<lparr>ap_engine := tcp_step (Ev_accept (ap_accepts st)) (ap_engine st)\<rparr>)"
    by (rule engine_event [OF inv]) simp
  thus ?thesis by (simp add: app_inv_def owners_ok_def do_accept_def)
qed

lemma app_step_inv:
  assumes inv: "app_inv cfg e st" "fresh_env e" and en: "app_enabled ev st"
  shows "app_inv cfg e (app_step ev st)"
proof (cases ev)
  case (Ap_reset k)
  show ?thesis unfolding Ap_reset app_step.simps
    by (rule socket_event [OF inv]) (auto simp: socket_reset_def intro!: exI [of _ "Ev_reset (Some i)" for i])
next
  case (Ap_accept k)
  show ?thesis unfolding Ap_accept app_step.simps
    by (rule socket_event [OF inv]) (auto simp: socket_accept_def intro!: exI [of _ "Ev_approve (Some i)" for i])
next
  case (Ap_reject k)
  show ?thesis unfolding Ap_reject app_step.simps
    by (rule socket_event [OF inv]) (auto simp: socket_reject_def intro!: exI [of _ "Ev_reject (Some i)" for i])
qed (use en engine_event [OF inv] socket_io_inv [OF inv] socket_shutdown_inv [OF inv] socket_close_inv [OF inv] accept_done_inv [OF inv]
      move_socket_inv [OF inv] destroy_socket_inv [OF inv] do_accept_inv [OF inv] in \<open>simp_all add: accepts_of_def\<close>)

lemma app_run_inv: "app_run cfg e st \<Longrightarrow> fresh_env e \<Longrightarrow> app_inv cfg e st"
proof (induction rule: app_run.induct)
  case start
  have "tcp_run cfg e {#} (tcp_engine_new cfg e)" by (rule tcp_run.start)
  thus ?case by (auto simp: app_inv_def owners_ok_def socket_app_new_def)
next
  case (event st ev)
  thus ?case using app_step_inv by blast
qed

section \<open>Properties\<close>

text \<open>
  The specification of the socket layer, with no socket in it: the connection each object owns, the
  engine, and for each event of the application the calls that the engine receives.
\<close>

record layer_spec =
  sp_engine :: tcp_engine
  sp_owner :: "nat \<Rightarrow> nat option"
  sp_peer :: "nat \<Rightarrow> nat"
  sp_accepts :: nat

fun spec_calls :: "app_event \<Rightarrow> layer_spec \<Rightarrow> tcp_event list" where
  "spec_calls (Ap_engine ev) sp = [ev]"
| "spec_calls (Ap_async_accept k) sp = [Ev_accept (sp_accepts sp)]"
| "spec_calls (Ap_accept_done n) sp = []"
| "spec_calls (Ap_read k bs h) sp = [Ev_read (sp_owner sp k) bs (sum_list bs) h]"
| "spec_calls (Ap_write k ds h) sp = [Ev_write (sp_owner sp k) ds (length (concat ds)) h]"
| "spec_calls (Ap_shutdown k Shutdown_send) sp = [Ev_shutdown_send (sp_owner sp k)]"
| "spec_calls (Ap_shutdown k Shutdown_receive) sp = [Ev_shutdown_receive (sp_owner sp k)]"
| "spec_calls (Ap_shutdown k Shutdown_both) sp = [Ev_shutdown_send (sp_owner sp k), Ev_shutdown_receive (sp_owner sp k)]"
| "spec_calls (Ap_close k) sp = [Ev_close (sp_owner sp k)]"
| "spec_calls (Ap_reset k) sp = [Ev_reset (sp_owner sp k)]"
| "spec_calls (Ap_accept k) sp = [Ev_approve (sp_owner sp k)]"
| "spec_calls (Ap_reject k) sp = [Ev_reject (sp_owner sp k)]"
| "spec_calls (Ap_move k k') sp = (if k = k' then [] else [Ev_close (sp_owner sp k)])"
| "spec_calls (Ap_destroy k) sp = [Ev_close (sp_owner sp k)]"

text \<open>Who owns what afterwards: an accept that succeeded, an assignment and a destruction change it, nothing else does.\<close>

fun spec_owner :: "app_event \<Rightarrow> layer_spec \<Rightarrow> nat \<Rightarrow> nat option" where
  "spec_owner (Ap_accept_done n) sp =
     (case e_posted (te_env (sp_engine sp)) ! n of
        Done_tcp_accept h EC_ok (Some i) \<Rightarrow> (sp_owner sp)(sp_peer sp h := Some i)
      | _ \<Rightarrow> sp_owner sp)"
| "spec_owner (Ap_move k k') sp = (if k = k' then sp_owner sp else (sp_owner sp)(k := sp_owner sp k', k' := None))"
| "spec_owner (Ap_destroy k) sp = (sp_owner sp)(k := None)"
| "spec_owner _ sp = sp_owner sp"

definition spec_step :: "app_event \<Rightarrow> layer_spec \<Rightarrow> layer_spec" where
  "spec_step ev sp =
     \<lparr>sp_engine = fold tcp_step (spec_calls ev sp) (sp_engine sp), sp_owner = spec_owner ev sp,
      sp_peer = (case ev of Ap_async_accept k \<Rightarrow> (sp_peer sp)(sp_accepts sp := k) | _ \<Rightarrow> sp_peer sp),
      sp_accepts = (case ev of Ap_async_accept k \<Rightarrow> sp_accepts sp + 1 | _ \<Rightarrow> sp_accepts sp)\<rparr>"

definition spec_new :: "tun_config \<Rightarrow> env \<Rightarrow> layer_spec" where
  "spec_new cfg e = \<lparr>sp_engine = tcp_engine_new cfg e, sp_owner = (\<lambda>_. None), sp_peer = (\<lambda>_. 0), sp_accepts = 0\<rparr>"

definition app_abs :: "socket_app \<Rightarrow> layer_spec" where
  "app_abs st = \<lparr>sp_engine = ap_engine st, sp_owner = (\<lambda>k. so_flow (ap_socket st k)), sp_peer = ap_peer st, sp_accepts = ap_accepts st\<rparr>"

lemma app_abs_simps [simp]:
  "sp_engine (app_abs st) = ap_engine st" "sp_owner (app_abs st) k = so_flow (ap_socket st k)"
  "sp_peer (app_abs st) = ap_peer st" "sp_accepts (app_abs st) = ap_accepts st"
  by (simp_all add: app_abs_def)

text \<open>A call on an object without a connection does nothing, whatever the call.\<close>

lemma no_flow_calls [simp]:
  "tcp_flow_shutdown_send None eng = eng" "tcp_flow_shutdown_receive None eng = eng" "tcp_flow_close None eng = eng"
  "tcp_flow_reset None eng = eng" "tcp_flow_accept None eng = eng" "tcp_flow_reject None eng = eng"
  by (simp_all add: tcp_flow_shutdown_send_def tcp_flow_shutdown_receive_def tcp_flow_close_def tcp_flow_reset_def
      tcp_flow_accept_def tcp_flow_reject_def on_flow_def)

lemma spec_io:
  "do_read_some so bs h eng = tcp_step (Ev_read (so_flow so) bs (sum_list bs) h) eng"
  "do_write_some so ds h eng = tcp_step (Ev_write (so_flow so) ds (length (concat ds)) h) eng"
  by (simp_all add: do_read_some_def do_write_some_def tcp_flow_start_read_def tcp_flow_start_write_def length_concat split: option.split)

lemma spec_controls:
  "snd (socket_shutdown what so eng) = fold tcp_step
     (case what of Shutdown_send \<Rightarrow> [Ev_shutdown_send (so_flow so)] | Shutdown_receive \<Rightarrow> [Ev_shutdown_receive (so_flow so)]
      | Shutdown_both \<Rightarrow> [Ev_shutdown_send (so_flow so), Ev_shutdown_receive (so_flow so)]) eng"
  "socket_close so eng = tcp_step (Ev_close (so_flow so)) eng" "socket_reset so eng = tcp_step (Ev_reset (so_flow so)) eng"
  "socket_accept so eng = tcp_step (Ev_approve (so_flow so)) eng" "socket_reject so eng = tcp_step (Ev_reject (so_flow so)) eng"
  by (simp_all add: socket_shutdown_def socket_close_def socket_reset_def socket_accept_def socket_reject_def
      split: option.split shutdown_type.split)

lemma accept_done_spec: "app_abs (accept_done n st) = spec_step (Ap_accept_done n) (app_abs st)"
  by (auto simp: accept_done_def accept_result_def spec_step_def app_abs_def split: completion.splits error_code.splits option.splits)

lemma app_step_spec: "app_abs (app_step ev st) = spec_step ev (app_abs st)"
proof (cases ev)
  case (Ap_shutdown k what)
  thus ?thesis by (cases what) (simp_all add: on_socket_def spec_controls spec_step_def app_abs_def)
next
  case (Ap_accept_done n)
  thus ?thesis using accept_done_spec by simp
qed (auto simp: on_socket_def spec_io spec_controls spec_step_def app_abs_def do_accept_def move_socket_def socket_move_def destroy_socket_def)

lemma app_fold_spec: "app_abs (fold app_step evs st) = fold spec_step evs (app_abs st)"
  by (induction evs arbitrary: st) (simp_all add: app_step_spec)

lemma spec_engine: "sp_engine (fold spec_step evs sp) = fold tcp_step (observe spec_calls spec_step evs sp) (sp_engine sp)"
  by (induction evs arbitrary: sp) (simp_all add: spec_step_def)

text \<open>A run with its events; every event is enabled when it happens.\<close>

fun app_path :: "app_event list \<Rightarrow> socket_app \<Rightarrow> bool" where
  "app_path [] st = True"
| "app_path (ev # evs) st = (app_enabled ev st \<and> app_path evs (app_step ev st))"

lemma owned_calls:
  assumes "app_inv cfg e st" "fresh_env e" shows "handed_out (so_flow (ap_socket st k)) (ap_engine st)"
  by (cases "so_flow (ap_socket st k)") (use owned_handed [OF assms] in \<open>auto simp: handed_out_def\<close>)

lemma run_calls:
  assumes r: "tcp_run cfg e subs (ap_engine st)" and inv: "app_inv cfg e st" "fresh_env e" and en: "app_enabled ev st"
  shows "tcp_run cfg e (subs + sum_list (map submitted (spec_calls ev (app_abs st)))) (fold tcp_step (spec_calls ev (app_abs st)) (ap_engine st))"
proof -
  have one: "tcp_run cfg e (subs + submitted c) (tcp_step c (ap_engine st))" if "enabled c (ap_engine st)" for c
    by (rule tcp_run.event [OF r that])
  note h = owned_calls [OF inv]
  show ?thesis
  proof (cases ev)
    case (Ap_shutdown k what)
    show ?thesis
    proof (cases what)
      case Shutdown_both
      let ?f = "so_flow (ap_socket st k)"
      let ?st = "st\<lparr>ap_engine := tcp_step (Ev_shutdown_send ?f) (ap_engine st)\<rparr>"
      have "app_inv cfg e ?st" using engine_event [OF inv, of "Ev_shutdown_send ?f"] h by simp
      hence "enabled (Ev_shutdown_receive ?f) (ap_engine ?st)" using owned_calls [OF _ inv(2), of cfg ?st k] by simp
      with tcp_run.event [OF one [of "Ev_shutdown_send ?f"], of "Ev_shutdown_receive ?f"] show ?thesis
        using h Ap_shutdown Shutdown_both by simp
    qed (use one [of "Ev_shutdown_send (so_flow (ap_socket st k))"] one [of "Ev_shutdown_receive (so_flow (ap_socket st k))"] h Ap_shutdown in simp_all)
  next
    case (Ap_engine c)
    thus ?thesis using one [of c] en by simp
  next
    case (Ap_accept_done n)
    thus ?thesis using r by simp
  next
    case (Ap_move k k')
    thus ?thesis using r one [of "Ev_close (so_flow (ap_socket st k))"] h by simp
  qed (use h one [where c = "Ev_accept (ap_accepts st)"] one [where c = "Ev_read f bs n x" for f bs n x] one [where c = "Ev_write f ds n x" for f ds n x]
      one [where c = "Ev_close f" for f] one [where c = "Ev_reset f" for f] one [where c = "Ev_approve f" for f] one [where c = "Ev_reject f" for f] in simp_all)
qed

lemma app_path_run:
  assumes "app_path evs st" "app_inv cfg e st" "fresh_env e" "tcp_run cfg e subs (ap_engine st)"
  shows "tcp_run cfg e (subs + sum_list (map submitted (observe spec_calls spec_step evs (app_abs st)))) (ap_engine (fold app_step evs st))"
  using assms(1,2,4)
proof (induction evs arbitrary: st subs)
  case (Cons ev evs)
  have en: "app_enabled ev st" using Cons.prems(1) by simp
  have "ap_engine (app_step ev st) = fold tcp_step (spec_calls ev (app_abs st)) (ap_engine st)"
    using arg_cong [OF app_step_spec [of ev st], of sp_engine] by (simp add: spec_step_def)
  hence "tcp_run cfg e (subs + sum_list (map submitted (spec_calls ev (app_abs st)))) (ap_engine (app_step ev st))"
    using run_calls [OF Cons.prems(3,2) assms(3) en] by simp
  from Cons.IH [OF _ app_step_inv [OF Cons.prems(2) assms(3) en] this] Cons.prems(1) show ?case
    by (simp add: app_step_spec add.assoc)
qed simp

text \<open>
  C20. The socket layer implements its specification: for every sequence of events of the application (reads,
  writes, shutdowns, closing, resetting, accepting, moving and destroying socket objects) and of the outside,
  every object owns the connection the specification says, and the engine has received exactly the calls the
  specification lists, in that order: each on the connection owned at that moment, with the size of its
  buffers, a shutdown of both directions as one of each, an assignment and a destruction as a close of what was
  owned. All these calls are allowed, so the engine goes through one of its own runs, with the handlers of
  these calls, and the guarantees proved of the engine's runs hold under the socket layer.
\<close>

theorem socket_layer_refines_engine:
  assumes "app_path evs (socket_app_new cfg e)" "fresh_env e"
    and "st = fold app_step evs (socket_app_new cfg e)" "calls = observe spec_calls spec_step evs (spec_new cfg e)"
  shows "(\<forall>k. so_flow (ap_socket st k) = sp_owner (fold spec_step evs (spec_new cfg e)) k) \<and>
    ap_engine st = fold tcp_step calls (tcp_engine_new cfg e) \<and>
    tcp_run cfg e (sum_list (map submitted calls)) (ap_engine st)"
proof -
  have new: "app_abs (socket_app_new cfg e) = spec_new cfg e" by (simp add: app_abs_def spec_new_def socket_app_new_def)
  have a: "app_abs st = fold spec_step evs (spec_new cfg e)" using app_fold_spec [of evs "socket_app_new cfg e"] assms(3) new by simp
  have "tcp_run cfg e {#} (ap_engine (socket_app_new cfg e))" using tcp_run.start by (simp add: socket_app_new_def)
  moreover have "app_inv cfg e (socket_app_new cfg e)" by (rule app_run_inv [OF app_run.start assms(2)])
  ultimately have "tcp_run cfg e (sum_list (map submitted calls)) (ap_engine st)"
    using app_path_run [OF assms(1) _ assms(2)] assms(3,4) new by fastforce
  moreover have "ap_engine st = fold tcp_step calls (tcp_engine_new cfg e)"
    using arg_cong [OF a, of sp_engine] spec_engine [of evs "spec_new cfg e"] assms(4) by (simp add: spec_new_def)
  moreover have "so_flow (ap_socket st k) = sp_owner (fold spec_step evs (spec_new cfg e)) k" for k
    using arg_cong [OF a, of "\<lambda>sp. sp_owner sp k"] by simp
  ultimately show ?thesis by blast
qed

text \<open>
  C21. A connection has one owner: no two sockets ever hold the same connection, and a socket holds only
  connections that a completed accept has brought it. Each accepted connection is brought by one accept,
  so neither a duplicate delivery nor moving sockets about can share it.
\<close>

theorem socket_owns_alone:
  assumes "app_run cfg e st" "fresh_env e" "so_flow (ap_socket st k) = Some i"
  shows "(so_flow (ap_socket st k') = Some i \<longleftrightarrow> k' = k) \<and>
    accepted (te_store (ap_engine st) i) \<and> count (mset (handed (te_env (ap_engine st)))) i = 1"
proof -
  have inv: "app_inv cfg e st" by (rule app_run_inv [OF assms(1,2)])
  hence "so_flow (ap_socket st k') = Some i \<longleftrightarrow> k' = k"
    using assms(3) unfolding app_inv_def owners_ok_def by blast
  moreover have "accepted (te_store (ap_engine st) i)" "i < te_next_id (ap_engine st)"
    using owned_handed [OF inv assms(2,3)] by (auto simp: handed_out_def known_def)
  moreover have "handover [] (ap_engine st)" using app_invE [OF inv assms(2)] by (simp add: te_inv_def)
  ultimately show ?thesis by (auto simp: handover_def distinct_count_atmost_1)
qed

text \<open>
  Accepting into a socket that still has a connection drops that connection without closing it: no
  socket owns it any more, and the engine keeps it as it was. (Assigning one socket to another closes
  the connection replaced, see \<open>move_closes\<close>.)
\<close>

theorem accept_abandons_connection:
  assumes "app_run cfg e st" "fresh_env e" "app_enabled (Ap_accept_done n) st"
    and "e_posted (te_env (ap_engine st)) ! n = Done_tcp_accept h EC_ok (Some j)" "so_flow (ap_socket st (ap_peer st h)) = Some i"
  shows "so_flow (ap_socket (app_step (Ap_accept_done n) st) (ap_peer st h)) = Some j \<and> i \<noteq> j \<and>
    so_flow (ap_socket (app_step (Ap_accept_done n) st) k) \<noteq> Some i \<and>
    te_store (ap_engine (app_step (Ap_accept_done n) st)) i = te_store (ap_engine st) i"
proof -
  have r: "app_run cfg e (app_step (Ap_accept_done n) st)" by (rule app_run.event [OF assms(1,3)])
  have inv: "app_inv cfg e st" "app_inv cfg e (app_step (Ap_accept_done n) st)"
    using app_run_inv [OF assms(1,2)] app_run_inv [OF r assms(2)] by simp_all
  have eq: "app_step (Ap_accept_done n) st = st\<lparr>ap_socket := (ap_socket st)(ap_peer st h := (ap_socket st (ap_peer st h))\<lparr>so_flow := Some j\<rparr>),
      ap_ran := ap_ran st @ [n], ap_called := ap_called st @ [(h, EC_ok)]\<rparr>"
    by (simp add: accept_done_def accept_result_def assms(4))
  have "i \<noteq> j"
  proof
    assume "i = j"
    moreover obtain m where "m \<in> set (ap_ran st)" "flow_of (accepts_of (ap_engine st) ! m) = [i]"
      using inv(1) assms(5) unfolding app_inv_def owners_ok_def by blast
    moreover have "m < length (accepts_of (ap_engine st))" using inv(1) calculation(2) unfolding app_inv_def owners_ok_def by blast
    moreover have "distinct (concat (map flow_of (accepts_of (ap_engine st))))"
      using app_invE [OF inv(1) assms(2)] by (auto simp: te_inv_def handover_def accepts_of_def)
    ultimately have "m = n" using flow_nth_inj [of "accepts_of (ap_engine st)" m n i] assms(3,4) by (simp add: accepts_of_def)
    thus False using \<open>m \<in> set (ap_ran st)\<close> assms(3) by simp
  qed
  moreover have "so_flow (ap_socket st k) = Some i \<Longrightarrow> k = ap_peer st h" using inv(1) assms(5) unfolding app_inv_def owners_ok_def by blast
  ultimately show ?thesis unfolding eq by auto
qed

lemma move_closes:
  assumes "k \<noteq> k'"
  shows "ap_engine (app_step (Ap_move k k') st) = socket_close (ap_socket st k) (ap_engine st)"
    "so_flow (ap_socket (app_step (Ap_move k k') st) k) = so_flow (ap_socket st k')"
    "so_flow (ap_socket (app_step (Ap_move k k') st) k') = None"
  using assms by (simp_all add: move_socket_def socket_move_def)

lemma socket_shutdown_closed: "fst (socket_shutdown what \<lparr>so_flow = None\<rparr> eng) = EC_bad_descriptor"
  by (simp add: socket_shutdown_def)

section \<open>A sample run\<close>

text \<open>The application accepts twice into socket 5, and a client connects; then a second one does.\<close>

definition sample_app0 :: socket_app where
  "sample_app0 = do_accept 5 (do_accept 5 (socket_app_new default_config sample_env))"

definition sample_app1 :: socket_app where
  "sample_app1 = app_step (Ap_engine (Ev_packet 1000 sample_info sample_syn)) sample_app0"

definition sample_syn2 :: "byte list" where
  "sample_syn2 = [0, 81, 1, 187, 0, 0, 0, 5, 0, 0, 0, 0, 80, 2, 255, 255, 153, 207, 0, 0]"

definition sample_app2 :: socket_app where
  "sample_app2 = app_step (Ap_engine (Ev_packet 2000 sample_info sample_syn2)) (app_step (Ap_accept_done 0) sample_app1)"

lemma sample_checksum2: "tcp_udp_checksum 4 (pi_src_ip sample_info) (pi_dst_ip sample_info) 6 sample_syn2 = 0"
  "parse_syn_wscale sample_syn2 20 = (0, False)"
  by code_simp+

lemmas sample_app_simps = on_packet_def Let_def async_accept_def tcp_engine_new_def sample_info_def ip_protocol_tcp_def
  load_tcp_header_def th_header_len_def ld16_def ld32_def has_flag_def TCP_SYN_def TCP_ACK_def default_config_def
  create_flow_def with_flow_def syn_data_def notify_accept_def syn_flow_def tcp_flow0_def sample_env_def env_new_def post_completion_on_def
  do_accept_def socket_app_new_def

lemma sample_app1_facts:
  "e_posted (te_env (ap_engine sample_app1)) = [Done_tcp_accept 0 EC_ok (Some 0)]" "ap_ran sample_app1 = []" "ap_peer sample_app1 0 = 5"
  "ap_socket sample_app1 = (\<lambda>_. \<lparr>so_flow = None\<rparr>)"
  using sample_checksum by (simp_all add: sample_app1_def sample_app0_def sample_syn_def sample_app_simps)

lemma sample_app1_run: "app_run default_config sample_env sample_app1"
proof -
  have "app_run default_config sample_env (do_accept 5 (socket_app_new default_config sample_env))"
    using app_run.event [OF app_run.start, of "Ap_async_accept 5"] by simp
  from app_run.event [OF this, of "Ap_async_accept 5"] have "app_run default_config sample_env sample_app0" by (simp add: sample_app0_def)
  from app_run.event [OF this, of "Ap_engine (Ev_packet 1000 sample_info sample_syn)"] show ?thesis by (simp add: sample_app1_def)
qed

lemma sample_accepted_run: "app_run default_config sample_env (app_step (Ap_accept_done 0) sample_app1)"
  by (rule app_run.event [OF sample_app1_run]) (simp add: sample_app1_facts)

lemma sample_accepted_owner: "so_flow (ap_socket (app_step (Ap_accept_done 0) sample_app1) 5) = Some 0"
  by (simp add: accept_done_def accept_result_def sample_app1_facts)

definition sample_calls :: "app_event list" where
  "sample_calls = [Ap_async_accept 5, Ap_async_accept 5, Ap_engine (Ev_packet 1000 sample_info sample_syn), Ap_accept_done 0,
     Ap_shutdown 5 Shutdown_both, Ap_move 6 5, Ap_destroy 6]"

lemma sample_calls_path: "app_path sample_calls (socket_app_new default_config sample_env)"
proof -
  have "app_step (Ap_engine (Ev_packet 1000 sample_info sample_syn)) (do_accept 5 (do_accept 5 (socket_app_new default_config sample_env))) = sample_app1"
    by (simp add: sample_app1_def sample_app0_def)
  moreover have "\<forall>h. ap_peer sample_app1 h \<noteq> 6" by (simp add: sample_app1_def sample_app0_def do_accept_def socket_app_new_def)
  ultimately show ?thesis
    by (simp add: sample_calls_def sample_app1_facts on_socket_def move_socket_def socket_move_def accept_done_def)
qed

theorem socket_layer_refines_engine_witness:
  "so_flow (ap_socket (fold app_step sample_calls (socket_app_new default_config sample_env)) 6) = None \<and>
   ap_engine (fold app_step sample_calls (socket_app_new default_config sample_env)) =
     fold tcp_step (observe spec_calls spec_step sample_calls (spec_new default_config sample_env)) (tcp_engine_new default_config sample_env)"
  using socket_layer_refines_engine [OF sample_calls_path sample_env_fresh refl refl]
  by (simp add: sample_calls_def spec_step_def [of "Ap_destroy 6"])

theorem socket_owns_alone_witness:
  "so_flow (ap_socket (app_step (Ap_accept_done 0) sample_app1) 6) \<noteq> Some 0 \<and>
   accepted (te_store (ap_engine (app_step (Ap_accept_done 0) sample_app1)) 0)"
  using socket_owns_alone [OF sample_accepted_run sample_env_fresh sample_accepted_owner, of 6] by simp

lemma sample_app2_run: "app_run default_config sample_env sample_app2"
  using app_run.event [OF sample_accepted_run, of "Ap_engine (Ev_packet 2000 sample_info sample_syn2)"] by (simp add: sample_app2_def)

lemma sample_ports: "le16 0 81 \<noteq> le16 0 80"
  by code_simp

lemma sample_app2_facts:
  "e_posted (te_env (ap_engine sample_app2)) = [Done_tcp_accept 0 EC_ok (Some 0), Done_tcp_accept 1 EC_ok (Some 1)]"
  "ap_ran sample_app2 = [0]" "ap_peer sample_app2 1 = 5" "so_flow (ap_socket sample_app2 5) = Some 0"
  using sample_checksum sample_checksum2 sample_app1_facts sample_ports
  by (simp_all add: sample_app2_def accept_done_def accept_result_def sample_app1_def sample_app0_def sample_syn_def sample_syn2_def make_five_tuple_def sample_app_simps)

theorem accept_abandons_connection_witness:
  "so_flow (ap_socket (app_step (Ap_accept_done 1) sample_app2) 5) = Some 1 \<and>
   te_store (ap_engine (app_step (Ap_accept_done 1) sample_app2)) 0 = te_store (ap_engine sample_app2) 0"
  using accept_abandons_connection [OF sample_app2_run sample_env_fresh, where n = 1 and h = 1 and j = 1 and i = 0 and k = 5]
  unfolding sample_app2_facts(3) by (simp add: sample_app2_facts)

end
