(* ===== verification/Udp_Socket.thy ===== *)
theory Udp_Socket
  imports Udp_System
begin

text \<open>
  The socket and acceptor of the UDP side (\<^verbatim>\<open>tun_udp_socket\<close>, \<^verbatim>\<open>tun_udp_acceptor\<close>): owners of a
  session. As on the TCP side the executor is left out. A timeout is given in seconds; the engine
  counts in milliseconds.
\<close>

section \<open>The socket\<close>

record tun_udp_socket =
  uso_session :: "nat option"

definition do_receive_from :: "tun_udp_socket \<Rightarrow> nat list \<Rightarrow> nat \<Rightarrow> udp_engine \<Rightarrow> udp_engine" where
  "do_receive_from so buffers handler eng =
     (let (sq, tot) = collect (\<lambda>n. n) buffers in
      case uso_session so of
        None \<Rightarrow> ue_post (Done_recv handler EC_bad_descriptor 0 [] None) eng
      | Some i \<Rightarrow> udp_session_start_receive (Some i) sq tot handler eng)"

definition do_send_to ::
  "tun_udp_socket \<Rightarrow> udp_endpoint \<Rightarrow> byte list list \<Rightarrow> nat \<Rightarrow> udp_engine \<Rightarrow> udp_fault option \<times> udp_engine" where
  "do_send_to so remote buffers handler eng =
     (let (sq, tot) = collect length buffers in
      case uso_session so of
        None \<Rightarrow> (None, ue_post (Done_send handler EC_bad_descriptor 0) eng)
      | Some i \<Rightarrow> udp_session_start_send (Some i) remote sq tot handler eng)"

definition udp_socket_client_endpoint :: "tun_udp_socket \<Rightarrow> udp_engine \<Rightarrow> udp_endpoint" where
  "udp_socket_client_endpoint so eng =
     (case uso_session so of
        None \<Rightarrow> \<lparr>ep_v6 = False, ep_addr = [0, 0, 0, 0], ep_port = 0\<rparr>
      | Some i \<Rightarrow> client_endpoint (ue_store eng i))"

definition udp_socket_set_timeout :: "tun_udp_socket \<Rightarrow> int \<Rightarrow> udp_engine \<Rightarrow> udp_engine" where
  "udp_socket_set_timeout so secs eng =
     (if uso_session so = None then eng else udp_session_set_timeout (uso_session so) (1000 * secs) eng)"

definition udp_socket_close :: "tun_udp_socket \<Rightarrow> udp_engine \<Rightarrow> udp_engine" where
  "udp_socket_close so eng = (if uso_session so = None then eng else udp_session_close (uso_session so) eng)"

definition udp_socket_is_open :: "tun_udp_socket \<Rightarrow> udp_engine \<Rightarrow> bool" where
  "udp_socket_is_open so eng = udp_session_is_open (uso_session so) eng"

definition udp_socket_move :: "tun_udp_socket \<Rightarrow> tun_udp_socket \<Rightarrow> udp_engine \<Rightarrow> tun_udp_socket \<times> tun_udp_socket \<times> udp_engine" where
  "udp_socket_move so other eng = (so\<lparr>uso_session := uso_session other\<rparr>, other\<lparr>uso_session := None\<rparr>, udp_socket_close so eng)"

definition udp_accept_result :: "error_code \<Rightarrow> nat option \<Rightarrow> tun_udp_socket \<Rightarrow> tun_udp_socket" where
  "udp_accept_result ec s peer = (if ec = EC_ok \<and> s \<noteq> None then peer\<lparr>uso_session := s\<rparr> else peer)"

section \<open>What the socket asks of the engine\<close>

text \<open>
  Each call is one event of the engine, for a datagram of exactly the bytes of the buffers; on a socket
  without a session, receiving and sending complete with \<open>bad_descriptor\<close> and the rest does nothing.
\<close>

lemma udp_socket_calls:
  "do_receive_from so bs h eng = udp_step (Uv_receive (uso_session so) bs (sum_list bs) h) eng"
  "snd (do_send_to so r ds h eng) = udp_step (Uv_send (uso_session so) r ds (length (concat ds)) h) eng"
  "udp_socket_set_timeout so t eng = udp_step (Uv_set_timeout (uso_session so) (1000 * t)) eng"
  "udp_socket_close so eng = udp_step (Uv_close (uso_session so)) eng"
  by (simp_all add: do_receive_from_def do_send_to_def udp_session_start_receive_def udp_session_start_send_def
      udp_socket_set_timeout_def udp_session_set_timeout_def udp_socket_close_def udp_session_close_def length_concat split: option.splits)

text \<open>The call keeps the engine's invariant and adds exactly its own handler to the ledger.\<close>

lemma udp_socket_calls_inv:
  assumes "ue_inv eng" "known_session (uso_session so) eng"
  shows "ue_inv (do_receive_from so bs h eng) \<and> ue_toks (do_receive_from so bs h eng) = ue_toks eng + {#Ut_recv h#}"
    "fst (do_send_to so r ds h eng) \<noteq> Some Terminates \<Longrightarrow>
      ue_inv (snd (do_send_to so r ds h eng)) \<and> ue_toks (snd (do_send_to so r ds h eng)) = ue_toks eng"
    "ue_inv (udp_socket_close so eng) \<and> ue_toks (udp_socket_close so eng) = ue_toks eng"
proof -
  have "fst (do_send_to so r ds h eng) = fst (udp_session_start_send (uso_session so) r ds (length (concat ds)) h eng)"
    by (simp add: do_send_to_def udp_session_start_send_def length_concat split: option.splits)
  thus "fst (do_send_to so r ds h eng) \<noteq> Some Terminates \<Longrightarrow>
      ue_inv (snd (do_send_to so r ds h eng)) \<and> ue_toks (snd (do_send_to so r ds h eng)) = ue_toks eng"
    using assms udp_step_inv [OF assms(1), of "{#}" "Uv_send (uso_session so) r ds (length (concat ds)) h"]
    unfolding udp_socket_calls(2) by simp
  show "ue_inv (do_receive_from so bs h eng) \<and> ue_toks (do_receive_from so bs h eng) = ue_toks eng + {#Ut_recv h#}"
    "ue_inv (udp_socket_close so eng) \<and> ue_toks (udp_socket_close so eng) = ue_toks eng"
    using assms udp_step_inv [OF assms(1), of "{#}" "Uv_receive (uso_session so) bs (sum_list bs) h"]
      udp_step_inv [OF assms(1), of "{#}" "Uv_close (uso_session so)"] unfolding udp_socket_calls by simp_all
qed

lemma udp_move_closes:
  "udp_socket_move so other eng = (a, b, eng') \<Longrightarrow>
    uso_session a = uso_session other \<and> uso_session b = None \<and> eng' = udp_socket_close so eng"
  by (auto simp: udp_socket_move_def)

end
