(* ===== verification/Posix_Device.thy ===== *)
theory Posix_Device
  imports Packet_Buffer
begin

text \<open>
  The TUN device on POSIX systems (\<^verbatim>\<open>src/tun_device_posix.cpp\<close>,
  \<^verbatim>\<open>include/tunio/detail/impl/tun_device_posix.hpp\<close>): opening a device on Linux and on macOS,
  taking over descriptors of the application, closing, and the frame prefix of macOS. The kernel is a
  parameter: whether a system call fails, and what it returns, may depend on all calls made before. What
  the theory is about is the ownership of file descriptors on the many error paths.
\<close>

section \<open>The kernel and the process\<close>

datatype ioctl_request =
    Set_txqlen string nat | Set_addr string string | Set_dstaddr string string | Set_netmask string string
  | Set_mtu string int | Get_mtu string | Get_flags string | Set_flags string u16 | Get_index string
  | Add_addr6 string string nat | Get_ctl_info | Get_iff

datatype syscall =
    Open_tun | Inet_socket | Inet6_socket | Netlink_socket | Control_socket
  | Tunsetiff nat string bool | Ioctl nat ioctl_request | Send_newaddr nat string nat
  | Connect_unit nat "32 word" | Get_ifname nat | Get_fl nat | Set_nonblock nat | Set_cloexec nat
  | Register nat | Close nat

text \<open>What a netlink socket says while the answer is awaited: an interrupted or failed receive, or the messages read (only errors count).\<close>

datatype nl_event = Nl_timeout | Nl_failed int | Nl_messages "int option list"

text \<open>
  The kernel and the address parser of the C library: the error of a call, the name, the MTU and
  the flags an interface has, the netlink messages up to the time limit, and which strings are addresses.
\<close>

record kernel =
  k_error :: "syscall list \<Rightarrow> syscall \<Rightarrow> int option"
  k_ifname :: "syscall list \<Rightarrow> string"
  k_mtu :: "syscall list \<Rightarrow> int"
  k_flags :: "syscall list \<Rightarrow> u16"
  k_netlink :: "syscall list \<Rightarrow> nl_event list"
  k_pton4 :: "string \<Rightarrow> bool"
  k_pton6 :: "string \<Rightarrow> bool"

definition EINVAL :: int where "EINVAL = 22"
definition EINTR :: int where "EINTR = 4"
definition EEXIST :: int where "EEXIST = 17"
definition ETIMEDOUT :: int where "ETIMEDOUT = 110"
definition EOPNOTSUPP :: int where "EOPNOTSUPP = 95"

text \<open>The open descriptors of the process, and whether one was closed that was not open.\<close>

record os =
  os_fds :: "nat set"
  os_next :: nat
  os_bad_close :: bool
  os_trace :: "syscall list"

type_synonym 'a sys = "os \<Rightarrow> (int + 'a) \<times> os"

definition ok :: "'a \<Rightarrow> 'a sys" where "ok x = (\<lambda>os. (Inr x, os))"
definition fail :: "int \<Rightarrow> 'a sys" where "fail e = (\<lambda>os. (Inl e, os))"

definition then_do :: "'a sys \<Rightarrow> ('a \<Rightarrow> 'b sys) \<Rightarrow> 'b sys" where
  "then_do m f = (\<lambda>os. case m os of (Inl e, os) \<Rightarrow> (Inl e, os) | (Inr x, os) \<Rightarrow> f x os)"

text \<open>An early return: the clean-up written at that point, then the error.\<close>

definition on_fail :: "(os \<Rightarrow> os) \<Rightarrow> 'a sys \<Rightarrow> 'a sys" where
  "on_fail cleanup m = (\<lambda>os. case m os of (Inl e, os) \<Rightarrow> (Inl e, cleanup os) | (Inr x, os) \<Rightarrow> (Inr x, os))"

definition do_call :: "kernel \<Rightarrow> syscall \<Rightarrow> unit sys" where
  "do_call k c = (\<lambda>os. (case k_error k (os_trace os) c of None \<Rightarrow> Inr () | Some e \<Rightarrow> Inl e, os\<lparr>os_trace := os_trace os @ [c]\<rparr>))"

definition new_fd :: "kernel \<Rightarrow> syscall \<Rightarrow> nat sys" where
  "new_fd k c = (\<lambda>os.
     case k_error k (os_trace os) c of
       Some e \<Rightarrow> (Inl e, os\<lparr>os_trace := os_trace os @ [c]\<rparr>)
     | None \<Rightarrow> (Inr (os_next os), os\<lparr>os_fds := insert (os_next os) (os_fds os), os_next := os_next os + 1, os_trace := os_trace os @ [c]\<rparr>))"

definition close_fd :: "nat \<Rightarrow> os \<Rightarrow> os" where
  "close_fd fd os = os\<lparr>os_fds := os_fds os - {fd}, os_bad_close := (os_bad_close os \<or> fd \<notin> os_fds os),
     os_trace := os_trace os @ [Close fd]\<rparr>"

definition close_fds :: "nat list \<Rightarrow> os \<Rightarrow> os" where
  "close_fds fds os = fold close_fd fds os"

definition and_close :: "nat \<Rightarrow> 'a sys \<Rightarrow> 'a sys" where
  "and_close fd m = (\<lambda>os. m (close_fd fd os))"

text \<open>C strings end at the first NUL; an interface name has room for 15 characters. \<open>size_t\<close> and \<open>int\<close> convert with wrap-around.\<close>

definition c_str :: "string \<Rightarrow> string" where
  "c_str s = takeWhile (\<lambda>c. c \<noteq> CHR 0x00) s"

definition ifr_name :: "string \<Rightarrow> string" where
  "ifr_name s = take 15 (c_str s)"

definition c_int :: "nat \<Rightarrow> int" where
  "c_int n = sint (of_nat n :: 32 word)"

definition c_size :: "int \<Rightarrow> nat" where
  "c_size i = nat (i mod 2 ^ 64)"

text \<open>
  The members \<^verbatim>\<open>ifr_flags\<close> and \<^verbatim>\<open>ifr_mtu\<close> of a \<^verbatim>\<open>struct ifreq\<close> are one union: the flags are the low half of
  the MTU (on a little-endian host). Reading the flags of an interface stores into that union.
\<close>

definition IFF_UP :: u16 where "IFF_UP = 1"
definition IFF_RUNNING :: u16 where "IFF_RUNNING = 64"

definition ifr_flags :: "u32 \<Rightarrow> u16" where
  "ifr_flags ifr = ucast ifr"

definition ifr_set_flags :: "u32 \<Rightarrow> u16 \<Rightarrow> u32" where
  "ifr_set_flags ifr flags = push_bit 16 (drop_bit 16 ifr) OR ucast flags"

definition get_flags :: "kernel \<Rightarrow> nat \<Rightarrow> string \<Rightarrow> u32 \<Rightarrow> u32 sys" where
  "get_flags k s ifname ifr =
     then_do (do_call k (Ioctl s (Get_flags (ifr_name ifname)))) (\<lambda>_ os. ok (ifr_set_flags ifr (k_flags k (os_trace os))) os)"

section \<open>Opening on Linux\<close>

record device_config =
  dc_name :: string
  dc_ipv4 :: string
  dc_netmask :: string
  dc_ipv6 :: string
  dc_ipv6_prefix_len :: byte
  dc_mtu :: nat
  dc_num_queues :: nat
  dc_utun_prefix :: bool

definition max_multi_queues :: nat where "max_multi_queues = 256"

fun nl_find :: "int option list \<Rightarrow> int option" where
  "nl_find [] = None"
| "nl_find (None # ms) = nl_find ms"
| "nl_find (Some err # ms) = Some err"

text \<open>The loop that waits for the answer; silence ends in the time limit of the poll.\<close>

fun nl_wait :: "nat \<Rightarrow> nl_event list \<Rightarrow> unit sys" where
  "nl_wait nl [] = (\<lambda>os. (Inl ETIMEDOUT, close_fd nl os))"
| "nl_wait nl (Nl_timeout # es) = (\<lambda>os. (Inl ETIMEDOUT, close_fd nl os))"
| "nl_wait nl (Nl_failed e # es) = (if e = EINTR then nl_wait nl es else (\<lambda>os. (Inl e, close_fd nl os)))"
| "nl_wait nl (Nl_messages ms # es) =
     (case nl_find ms of
        None \<Rightarrow> nl_wait nl es
      | Some err \<Rightarrow> if err = 0 \<or> err = - EEXIST then (\<lambda>os. (Inr (), close_fd nl os))
                    else (\<lambda>os. (Inl (- err), close_fd nl os)))"

definition linux_add_ipv6_address :: "kernel \<Rightarrow> nat \<Rightarrow> string \<Rightarrow> string \<Rightarrow> byte \<Rightarrow> unit sys" where
  "linux_add_ipv6_address k ioctl_sock ifname addr prefix_len =
     (if unat prefix_len > 128 then fail EINVAL
      else if \<not> k_pton6 k (c_str addr) then fail EINVAL
      else then_do (do_call k (Ioctl ioctl_sock (Get_index (ifr_name ifname)))) (\<lambda>_.
           then_do (new_fd k Netlink_socket) (\<lambda>nl.
           then_do (on_fail (close_fd nl) (do_call k (Send_newaddr nl (c_str addr) (unat prefix_len)))) (\<lambda>_ os.
             nl_wait nl (k_netlink k (os_trace os)) os))))"

text \<open>Not fatal: the error is ignored.\<close>

definition set_tx_queue_len :: "kernel \<Rightarrow> nat \<Rightarrow> string \<Rightarrow> nat \<Rightarrow> os \<Rightarrow> os" where
  "set_tx_queue_len k s ifname qlen os = snd (do_call k (Ioctl s (Set_txqlen (ifr_name ifname) qlen)) os)"

definition set_ifr :: "kernel \<Rightarrow> nat \<Rightarrow> (string \<Rightarrow> string \<Rightarrow> ioctl_request) \<Rightarrow> string \<Rightarrow> string \<Rightarrow> unit sys" where
  "set_ifr k s cmd ifname addr =
     (if \<not> k_pton4 k (c_str addr) then fail EINVAL else do_call k (Ioctl s (cmd (ifr_name ifname) (c_str addr))))"

text \<open>The remaining queues; a failure closes those already opened.\<close>

fun open_queues :: "kernel \<Rightarrow> string \<Rightarrow> nat \<Rightarrow> nat list \<Rightarrow> nat list sys" where
  "open_queues k dev 0 fds = ok fds"
| "open_queues k dev (Suc n) fds =
     then_do (on_fail (close_fds fds) (new_fd k Open_tun)) (\<lambda>qfd.
     then_do (on_fail (\<lambda>os. close_fds fds (close_fd qfd os)) (do_call k (Tunsetiff qfd (ifr_name dev) True))) (\<lambda>_.
     open_queues k dev n (fds @ [qfd])))"

definition linux_configure :: "kernel \<Rightarrow> device_config \<Rightarrow> string \<Rightarrow> nat \<Rightarrow> nat list \<Rightarrow> (nat list \<times> nat) sys" where
  "linux_configure k cfg dev s fds =
     (let undo = (\<lambda>os. close_fds fds (close_fd s os)); m = (of_nat (max (dc_mtu cfg) 576) :: u32) in
      if dc_ipv4 cfg = [] then
        then_do (on_fail undo (do_call k (Ioctl s (Set_mtu (ifr_name dev) (sint m))))) (\<lambda>_.
        and_close s (ok (fds, c_size (sint m))))
      else
        then_do (on_fail undo (set_ifr k s Set_addr dev (dc_ipv4 cfg))) (\<lambda>_.
        then_do (on_fail undo (set_ifr k s Set_netmask dev (dc_netmask cfg))) (\<lambda>_.
        then_do (if dc_ipv6 cfg = [] then ok ()
                 else on_fail undo (linux_add_ipv6_address k s dev (dc_ipv6 cfg) (dc_ipv6_prefix_len cfg))) (\<lambda>_.
        then_do (on_fail undo (do_call k (Ioctl s (Set_mtu (ifr_name dev) (sint m))))) (\<lambda>_.
        then_do (on_fail undo (get_flags k s dev m)) (\<lambda>ifr.
        let ifr = ifr_set_flags ifr (ifr_flags ifr OR IFF_UP OR IFF_RUNNING) in
        then_do (on_fail undo (do_call k (Ioctl s (Set_flags (ifr_name dev) (ifr_flags ifr))))) (\<lambda>_.
        and_close s (ok (fds, c_size (sint ifr))))))))))"

definition linux_open_fds :: "kernel \<Rightarrow> device_config \<Rightarrow> (nat list \<times> nat) sys" where
  "linux_open_fds k cfg =
     (if dc_num_queues cfg < 1 \<or> dc_num_queues cfg > max_multi_queues then fail EINVAL
      else
        let multi = (dc_num_queues cfg > 1) in
        then_do (new_fd k Open_tun) (\<lambda>fd.
        then_do (on_fail (close_fd fd) (do_call k (Tunsetiff fd (ifr_name (dc_name cfg)) multi))) (\<lambda>_ os.
        let given = c_str (k_ifname k (os_trace os)); dev = (if given \<noteq> [] then given else dc_name cfg) in
        then_do (open_queues k dev (dc_num_queues cfg - 1) [fd]) (\<lambda>fds.
        then_do (on_fail (close_fds fds) (new_fd k Inet_socket)) (\<lambda>s os.
        linux_configure k cfg dev s fds (set_tx_queue_len k s dev 4096 os))) os)))"

section \<open>Opening on macOS\<close>

definition is_digit :: "char \<Rightarrow> bool" where
  "is_digit c \<longleftrightarrow> 48 \<le> (of_char c :: nat) \<and> (of_char c :: nat) \<le> 57"

text \<open>\<^verbatim>\<open>strtol\<close> on digits, which stops at the largest \<^verbatim>\<open>long\<close>; the unit number is then cut to an \<^verbatim>\<open>int\<close>.\<close>

definition strtol_digits :: "string \<Rightarrow> int" where
  "strtol_digits s = min (fold (\<lambda>c n. 10 * n + (of_char c - 48)) s 0) (2 ^ 63 - 1)"

definition utun_unit :: "string \<Rightarrow> int option" where
  "utun_unit name =
     (if name = [] \<or> name = ''utun'' then Some (- 1)
      else if take 4 name \<noteq> ''utun'' \<or> \<not> (4 < length name \<and> is_digit (name ! 4)) then None
      else
        let rest = c_str (drop 4 name); digits = takeWhile is_digit rest in
        if rest \<noteq> digits then None
        else Some (sint (of_int (strtol_digits digits) :: 32 word)))"

definition open_utun :: "kernel \<Rightarrow> string \<Rightarrow> (nat \<times> string) sys" where
  "open_utun k name =
     (case utun_unit name of
        None \<Rightarrow> fail EINVAL
      | Some unit_no \<Rightarrow>
          then_do (new_fd k Control_socket) (\<lambda>fd.
          then_do (on_fail (close_fd fd) (do_call k (Ioctl fd Get_ctl_info))) (\<lambda>_.
          then_do (on_fail (close_fd fd) (do_call k (Connect_unit fd (of_int (unit_no + 1))))) (\<lambda>_.
          then_do (on_fail (close_fd fd) (do_call k (Get_ifname fd))) (\<lambda>_ os.
          let ifname = c_str (k_ifname k (os_trace os)) in
          then_do (on_fail (close_fd fd) (do_call k (Get_fl fd))) (\<lambda>_.
          then_do (on_fail (close_fd fd) (do_call k (Set_nonblock fd))) (\<lambda>_.
          then_do (on_fail (close_fd fd) (do_call k (Set_cloexec fd))) (\<lambda>_.
          ok (fd, ifname)))) os)))))"

text \<open>The MTU set is read back; when that fails the configured one is used.\<close>

definition set_ioctl_mtu :: "kernel \<Rightarrow> nat \<Rightarrow> string \<Rightarrow> nat \<Rightarrow> nat sys" where
  "set_ioctl_mtu k s ifname mtu =
     then_do (do_call k (Ioctl s (Set_mtu (ifr_name ifname) (c_int (max mtu 576))))) (\<lambda>_ os.
       case do_call k (Ioctl s (Get_mtu (ifr_name ifname))) os of
         (Inr _, os) \<Rightarrow> (Inr (c_size (k_mtu k (os_trace os))), os)
       | (Inl _, os) \<Rightarrow> (Inr mtu, os))"

definition set_if_up :: "kernel \<Rightarrow> nat \<Rightarrow> string \<Rightarrow> unit sys" where
  "set_if_up k s ifname =
     then_do (get_flags k s ifname 0) (\<lambda>ifr.
     let ifr = ifr_set_flags ifr (ifr_flags ifr OR IFF_UP) in
     do_call k (Ioctl s (Set_flags (ifr_name ifname) (ifr_flags ifr))))"

text \<open>An address that is already there counts as added.\<close>

definition apple_add_ipv6_address :: "kernel \<Rightarrow> string \<Rightarrow> string \<Rightarrow> byte \<Rightarrow> unit sys" where
  "apple_add_ipv6_address k ifname addr prefix_len =
     (if unat prefix_len > 128 then fail EINVAL
      else if \<not> k_pton6 k (c_str addr) then fail EINVAL
      else then_do (new_fd k Inet6_socket) (\<lambda>s6 os.
        case do_call k (Ioctl s6 (Add_addr6 (ifr_name ifname) (c_str addr) (unat prefix_len))) os of
          (Inl e, os) \<Rightarrow> if e \<noteq> EEXIST then (Inl e, close_fd s6 os) else (Inr (), close_fd s6 os)
        | (Inr _, os) \<Rightarrow> (Inr (), close_fd s6 os)))"

definition apple_open_fds :: "kernel \<Rightarrow> device_config \<Rightarrow> (nat list \<times> nat) sys" where
  "apple_open_fds k cfg =
     then_do (open_utun k (dc_name cfg)) (\<lambda>(fd, ifname).
     then_do (on_fail (close_fd fd) (new_fd k Inet_socket)) (\<lambda>s.
     let undo = (\<lambda>os. close_fd fd (close_fd s os));
         need_config = (dc_ipv4 cfg \<noteq> [] \<or> dc_ipv6 cfg \<noteq> []) in
     then_do (on_fail undo (set_ioctl_mtu k s ifname (dc_mtu cfg))) (\<lambda>mtu.
     then_do (if dc_ipv4 cfg = [] then ok ()
              else on_fail undo
                (then_do (set_ifr k s Set_addr ifname (dc_ipv4 cfg)) (\<lambda>_.
                 then_do (set_ifr k s Set_dstaddr ifname (dc_ipv4 cfg)) (\<lambda>_.
                 set_ifr k s Set_netmask ifname (if dc_netmask cfg = [] then ''255.255.255.0'' else dc_netmask cfg))))) (\<lambda>_.
     then_do (if dc_ipv6 cfg = [] then ok ()
              else on_fail undo (apple_add_ipv6_address k ifname (dc_ipv6 cfg) (dc_ipv6_prefix_len cfg))) (\<lambda>_.
     then_do (if need_config then on_fail undo (set_if_up k s ifname) else ok ()) (\<lambda>_.
     and_close s (ok ([fd], mtu))))))))"

section \<open>The device\<close>

record posix_tun_device =
  pd_descs :: "nat list"
  pd_mtu :: nat
  pd_open :: bool
  pd_utun_prefix :: bool

definition posix_tun_device_new :: posix_tun_device where
  "posix_tun_device_new = \<lparr>pd_descs = [], pd_mtu = 1500, pd_open = False, pd_utun_prefix = False\<rparr>"

definition pd_close :: "posix_tun_device \<Rightarrow> os \<Rightarrow> posix_tun_device \<times> os" where
  "pd_close dev os =
     (if pd_open dev then (dev\<lparr>pd_descs := [], pd_open := False\<rparr>, close_fds (pd_descs dev) os) else (dev, os))"

text \<open>Descriptors opened by the device itself: a failure closes those taken over and those left.\<close>

fun register_all :: "kernel \<Rightarrow> nat list \<Rightarrow> nat list \<Rightarrow> unit sys" where
  "register_all k taken [] = ok ()"
| "register_all k taken (fd # fds) =
     then_do (on_fail (\<lambda>os. close_fds (fd # fds) (close_fds taken os)) (do_call k (Register fd))) (\<lambda>_.
     register_all k (taken @ [fd]) fds)"

text \<open>Replacing the descriptors destroys, and so closes, the old ones.\<close>

definition adopt_fds :: "kernel \<Rightarrow> nat list \<Rightarrow> nat \<Rightarrow> bool \<Rightarrow> posix_tun_device \<Rightarrow> os \<Rightarrow> (int + unit) \<times> posix_tun_device \<times> os" where
  "adopt_fds k fds mtu prefix dev os =
     (case register_all k [] fds os of
        (Inl e, os) \<Rightarrow> (Inl e, dev, os)
      | (Inr _, os) \<Rightarrow> (Inr (), \<lparr>pd_descs = fds, pd_mtu = mtu, pd_open = True, pd_utun_prefix = prefix\<rparr>, close_fds (pd_descs dev) os))"

datatype platform = Linux | Apple | Other_posix

definition pd_open_device ::
  "platform \<Rightarrow> kernel \<Rightarrow> device_config \<Rightarrow> posix_tun_device \<Rightarrow> os \<Rightarrow> (int + unit) \<times> posix_tun_device \<times> os" where
  "pd_open_device p k cfg dev os =
     (case p of
        Linux \<Rightarrow>
          let (dev, os) = pd_close dev os in
          (case linux_open_fds k cfg os of
             (Inl e, os) \<Rightarrow> (Inl e, dev, os)
           | (Inr (fds, mtu), os) \<Rightarrow> adopt_fds k fds mtu False dev os)
      | Apple \<Rightarrow>
          let (dev, os) = pd_close dev os in
          (case apple_open_fds k cfg os of
             (Inl e, os) \<Rightarrow> (Inl e, dev, os)
           | (Inr (fds, mtu), os) \<Rightarrow> adopt_fds k fds mtu True dev os)
      | Other_posix \<Rightarrow> (Inl EOPNOTSUPP, dev, os))"

definition apply_default_tx_queue_len :: "platform \<Rightarrow> kernel \<Rightarrow> nat \<Rightarrow> os \<Rightarrow> os" where
  "apply_default_tx_queue_len p k handle os =
     (if p \<noteq> Linux then os
      else case do_call k (Ioctl handle Get_iff) os of
             (Inl _, os) \<Rightarrow> os
           | (Inr _, os) \<Rightarrow>
               (case new_fd k Inet_socket os of
                  (Inl _, os) \<Rightarrow> os
                | (Inr s, os) \<Rightarrow> close_fd s (set_tx_queue_len k s (k_ifname k (os_trace os)) 4096 os)))"

text \<open>Descriptors of the application: on failure those taken over are released again, none is closed.\<close>

fun take_handles :: "platform \<Rightarrow> kernel \<Rightarrow> nat list \<Rightarrow> unit sys" where
  "take_handles p k [] = ok ()"
| "take_handles p k (h # hs) =
     (\<lambda>os. then_do (do_call k (Register h)) (\<lambda>_. take_handles p k hs) (apply_default_tx_queue_len p k h os))"

definition assign_queues ::
  "platform \<Rightarrow> kernel \<Rightarrow> nat list \<Rightarrow> nat \<Rightarrow> bool \<Rightarrow> posix_tun_device \<Rightarrow> os \<Rightarrow> (int + unit) \<times> posix_tun_device \<times> os" where
  "assign_queues p k handles mtu prefix dev os =
     (if handles = [] then (Inl EINVAL, dev, os)
      else if length handles > max_multi_queues then (Inl EINVAL, dev, os)
      else case take_handles p k handles os of
             (Inl e, os) \<Rightarrow> (Inl e, dev, os)
           | (Inr _, os) \<Rightarrow> (Inr (), \<lparr>pd_descs = handles, pd_mtu = mtu, pd_open = True, pd_utun_prefix = prefix\<rparr>,
               close_fds (pd_descs dev) os))"

definition pd_queue_count :: "posix_tun_device \<Rightarrow> nat" where
  "pd_queue_count dev = length (pd_descs dev)"

definition pd_read_size_hint :: "posix_tun_device \<Rightarrow> nat" where
  "pd_read_size_hint dev = pd_mtu dev + (if pd_utun_prefix dev then 4 else 0)"

end
