(* ===== verification/Posix_Ownership.thy ===== *)
theory Posix_Ownership
  imports Posix_Device
begin

text \<open>
  Ownership of file descriptors. \<open>gives C m P R\<close>: a computation that is handed the descriptors \<open>C\<close> either
  fails having closed exactly those, or returns an \<open>x\<close> with \<open>P x\<close> having turned them into \<open>R x\<close>; no other descriptor is
  touched, and none is closed twice. The rules follow the way the code is written: an early return is a
  failing step with the clean-up that closes what is held at that point.
\<close>

section \<open>The rules\<close>

definition sane :: "os \<Rightarrow> bool" where
  "sane os \<longleftrightarrow> \<not> os_bad_close os \<and> (\<forall>fd\<in>os_fds os. fd < os_next os)"

definition gives :: "nat set \<Rightarrow> 'a sys \<Rightarrow> ('a \<Rightarrow> bool) \<Rightarrow> ('a \<Rightarrow> nat set) \<Rightarrow> bool" where
  "gives C m P R \<longleftrightarrow> (\<forall>os. sane os \<and> C \<subseteq> os_fds os \<longrightarrow>
     (case m os of
        (Inl e, os') \<Rightarrow> sane os' \<and> os_fds os' = os_fds os - C
      | (Inr x, os') \<Rightarrow> sane os' \<and> P x \<and> R x \<inter> (os_fds os - C) = {} \<and> os_fds os' = (os_fds os - C) \<union> R x))"

lemma givesI:
  assumes "\<And>os e os'. sane os \<Longrightarrow> C \<subseteq> os_fds os \<Longrightarrow> m os = (Inl e, os') \<Longrightarrow> sane os' \<and> os_fds os' = os_fds os - C"
    "\<And>os x os'. sane os \<Longrightarrow> C \<subseteq> os_fds os \<Longrightarrow> m os = (Inr x, os') \<Longrightarrow>
      sane os' \<and> P x \<and> R x \<inter> (os_fds os - C) = {} \<and> os_fds os' = (os_fds os - C) \<union> R x"
  shows "gives C m P R"
  unfolding gives_def
proof (intro allI impI)
  fix os assume s: "sane os \<and> C \<subseteq> os_fds os"
  obtain r os' where r: "m os = (r, os')" by fastforce
  show "case m os of (Inl e, os') \<Rightarrow> sane os' \<and> os_fds os' = os_fds os - C
      | (Inr x, os') \<Rightarrow> sane os' \<and> P x \<and> R x \<inter> (os_fds os - C) = {} \<and> os_fds os' = (os_fds os - C) \<union> R x"
    using assms(1) [of os _ os'] assms(2) [of os _ os'] s r by (cases r) simp_all
qed

lemma givesD:
  assumes "gives C m P R" "sane os" "C \<subseteq> os_fds os"
  shows "m os = (Inl e, os') \<Longrightarrow> sane os' \<and> os_fds os' = os_fds os - C"
    "m os = (Inr x, os') \<Longrightarrow> sane os' \<and> P x \<and> R x \<inter> (os_fds os - C) = {} \<and> os_fds os' = (os_fds os - C) \<union> R x"
  using assms spec [OF assms(1) [unfolded gives_def], of os] by simp_all

lemma gives_ok [intro]: "P x \<Longrightarrow> C = R x \<Longrightarrow> gives C (ok x) P R"
  by (rule givesI) (auto simp: ok_def)

lemma gives_fail [intro]: "C = {} \<Longrightarrow> gives C (fail e) P R"
  by (rule givesI) (auto simp: fail_def)

lemma gives_bind:
  assumes m: "gives C m P R" and f: "\<And>x. P x \<Longrightarrow> gives (R x) (f x) Q S"
  shows "gives C (then_do m f) Q S"
proof (rule givesI)
  fix os e os' assume s: "sane os" "C \<subseteq> os_fds os" and r: "then_do m f os = (Inl e, os')"
  obtain a os1 where a: "m os = (a, os1)" by fastforce
  show "sane os' \<and> os_fds os' = os_fds os - C"
  proof (cases a)
    case (Inl e')
    thus ?thesis using givesD(1) [OF m s] a r by (simp add: then_do_def)
  next
    case (Inr x)
    hence 1: "sane os1" "P x" "R x \<inter> (os_fds os - C) = {}" "os_fds os1 = (os_fds os - C) \<union> R x" using givesD(2) [OF m s] a by blast+
    moreover have "f x os1 = (Inl e, os')" using a r Inr by (simp add: then_do_def)
    ultimately show ?thesis using givesD(1) [OF f [OF 1(2)], of os1 e os'] by auto
  qed
next
  fix os y os' assume s: "sane os" "C \<subseteq> os_fds os" and r: "then_do m f os = (Inr y, os')"
  obtain x os1 where a: "m os = (Inr x, os1)" "f x os1 = (Inr y, os')"
    using r by (auto simp: then_do_def split: prod.splits sum.splits)
  have 1: "sane os1" "P x" "R x \<inter> (os_fds os - C) = {}" "os_fds os1 = (os_fds os - C) \<union> R x" using givesD(2) [OF m s a(1)] by blast+
  hence "sane os' \<and> Q y \<and> S y \<inter> (os_fds os1 - R x) = {} \<and> os_fds os' = (os_fds os1 - R x) \<union> S y"
    using givesD(2) [OF f [OF 1(2)], of os1 y os'] a(2) by blast
  moreover have "os_fds os1 - R x = os_fds os - C" using 1 by auto
  ultimately show "sane os' \<and> Q y \<and> S y \<inter> (os_fds os - C) = {} \<and> os_fds os' = (os_fds os - C) \<union> S y" by simp
qed

text \<open>A step that holds more than it uses, and cleans up the rest when it fails.\<close>

definition closes_all :: "(os \<Rightarrow> os) \<Rightarrow> nat set \<Rightarrow> bool" where
  "closes_all g F \<longleftrightarrow> (\<forall>os. sane os \<and> F \<subseteq> os_fds os \<longrightarrow> sane (g os) \<and> os_fds (g os) = os_fds os - F)"

lemma gives_undo:
  assumes m: "gives C m P R" and g: "closes_all g F" and d: "C \<inter> F = {}"
  shows "gives (C \<union> F) (on_fail g m) (\<lambda>x. P x \<and> R x \<inter> F = {}) (\<lambda>x. R x \<union> F)"
proof (rule givesI)
  fix os e os' assume s: "sane os" "C \<union> F \<subseteq> os_fds os" and r: "on_fail g m os = (Inl e, os')"
  obtain os1 where a: "m os = (Inl e, os1)" "os' = g os1" using r by (auto simp: on_fail_def split: prod.splits sum.splits)
  have "sane os1 \<and> os_fds os1 = os_fds os - C" using givesD(1) [OF m s(1) _ a(1)] s(2) by blast
  moreover have "F \<subseteq> os_fds os - C" using s(2) d by blast
  ultimately show "sane os' \<and> os_fds os' = os_fds os - (C \<union> F)" using g unfolding closes_all_def a(2) by (auto simp: Diff_Un)
next
  fix os x os' assume s: "sane os" "C \<union> F \<subseteq> os_fds os" and r: "on_fail g m os = (Inr x, os')"
  have a: "m os = (Inr x, os')" using r by (auto simp: on_fail_def split: prod.splits sum.splits)
  have "sane os' \<and> P x \<and> R x \<inter> (os_fds os - C) = {} \<and> os_fds os' = (os_fds os - C) \<union> R x" using givesD(2) [OF m s(1) _ a] s(2) by blast
  thus "sane os' \<and> (P x \<and> R x \<inter> F = {}) \<and> (R x \<union> F) \<inter> (os_fds os - (C \<union> F)) = {} \<and> os_fds os' = (os_fds os - (C \<union> F)) \<union> (R x \<union> F)"
    using s(2) d by auto
qed

lemma close_fd_closes: "closes_all (close_fd fd) {fd}"
  by (auto simp: closes_all_def close_fd_def sane_def)

lemma closes_all_comp:
  assumes g: "closes_all g F" and h: "closes_all h G" and d: "F \<inter> G = {}" shows "closes_all (\<lambda>os. g (h os)) (F \<union> G)"
proof (unfold closes_all_def, intro allI impI)
  fix os assume s: "sane os \<and> F \<union> G \<subseteq> os_fds os"
  have 1: "sane (h os) \<and> os_fds (h os) = os_fds os - G" using h s unfolding closes_all_def by simp
  have "F \<subseteq> os_fds (h os)" using 1 d s by auto
  hence "sane (g (h os)) \<and> os_fds (g (h os)) = os_fds (h os) - F" using g 1 unfolding closes_all_def by simp
  thus "sane (g (h os)) \<and> os_fds (g (h os)) = os_fds os - (F \<union> G)" using 1 by auto
qed

lemma close_fds_closes: "distinct fds \<Longrightarrow> closes_all (close_fds fds) (set fds)"
proof (induction fds)
  case (Cons fd fds)
  show ?case unfolding closes_all_def
  proof (intro allI impI)
    fix os assume s: "sane os \<and> set (fd # fds) \<subseteq> os_fds os"
    have 1: "sane (close_fd fd os) \<and> os_fds (close_fd fd os) = os_fds os - {fd}"
      using close_fd_closes s unfolding closes_all_def by (metis insert_subset list.simps(15) empty_subsetI)
    moreover have "set fds \<subseteq> os_fds (close_fd fd os)" using 1 s Cons.prems by auto
    ultimately show "sane (close_fds (fd # fds) os) \<and> os_fds (close_fds (fd # fds) os) = os_fds os - set (fd # fds)"
      using Cons unfolding closes_all_def by (auto simp: close_fds_def)
  qed
qed (simp add: closes_all_def close_fds_def)

section \<open>The calls\<close>

lemma gives_call [intro]: "gives {} (do_call k c) (\<lambda>_. True) (\<lambda>_. {})"
  by (rule givesI) (auto simp: do_call_def sane_def split: option.splits)

lemma gives_new_fd [intro]: "gives {} (new_fd k c) (\<lambda>_. True) (\<lambda>fd. {fd})"
  by (rule givesI) (auto simp: new_fd_def sane_def split: option.splits)

lemma gives_and_close:
  assumes m: "gives C m P R" "fd \<notin> C" shows "gives (insert fd C) (and_close fd m) P R"
proof (rule givesI)
  fix os e os' assume s: "sane os" "insert fd C \<subseteq> os_fds os" and r: "and_close fd m os = (Inl e, os')"
  have 1: "sane (close_fd fd os)" "os_fds (close_fd fd os) = os_fds os - {fd}" using s by (auto simp: close_fd_def sane_def)
  moreover have "C \<subseteq> os_fds (close_fd fd os)" using 1 s m(2) by auto
  ultimately have "sane os' \<and> os_fds os' = os_fds (close_fd fd os) - C" using givesD(1) [OF m(1)] r unfolding and_close_def by blast
  thus "sane os' \<and> os_fds os' = os_fds os - insert fd C" using 1 by auto
next
  fix os x os' assume s: "sane os" "insert fd C \<subseteq> os_fds os" and r: "and_close fd m os = (Inr x, os')"
  have 1: "sane (close_fd fd os)" "os_fds (close_fd fd os) = os_fds os - {fd}" using s by (auto simp: close_fd_def sane_def)
  moreover have "C \<subseteq> os_fds (close_fd fd os)" using 1 s m(2) by auto
  ultimately have "sane os' \<and> P x \<and> R x \<inter> (os_fds (close_fd fd os) - C) = {} \<and> os_fds os' = (os_fds (close_fd fd os) - C) \<union> R x"
    using givesD(2) [OF m(1)] r unfolding and_close_def by blast
  moreover have "os_fds (close_fd fd os) - C = os_fds os - insert fd C" using 1 by auto
  ultimately show "sane os' \<and> P x \<and> R x \<inter> (os_fds os - insert fd C) = {} \<and> os_fds os' = (os_fds os - insert fd C) \<union> R x" by simp
qed

lemmas undo_fd = gives_undo [OF _ close_fd_closes]

text \<open>Steps that use no descriptor of their own; and the rules for the shapes the code has.\<close>

abbreviation plain :: "'a sys \<Rightarrow> bool" where
  "plain m \<equiv> gives {} m (\<lambda>_. True) (\<lambda>_. {})"

lemma plain_ok [simp]: "plain (ok x)" "plain (fail e)" "plain (do_call k c)"
  by (auto intro: gives_ok gives_fail gives_call)

lemma plain_bind [simp]: "plain m \<Longrightarrow> (\<And>x. plain (f x)) \<Longrightarrow> plain (then_do m f)"
  by (rule gives_bind)

lemma plain_step: "plain m \<Longrightarrow> closes_all g F \<Longrightarrow> gives F (on_fail g m) (\<lambda>_. True) (\<lambda>_. F)"
  using gives_undo [of "{}" m "\<lambda>_. True" "\<lambda>_. {}" g F] by simp

lemma fd_step: "closes_all g F \<Longrightarrow> gives F (on_fail g (new_fd k c)) (\<lambda>fd. fd \<notin> F) (\<lambda>fd. insert fd F)"
  using gives_undo [OF gives_new_fd, of g F] by simp

lemma step_then:
  assumes "plain m" "closes_all g F" "\<And>x. gives F (f x) Q S" shows "gives F (then_do (on_fail g m) f) Q S"
  by (rule gives_bind [OF plain_step]) (use assms in auto)

lemma gives_trace: "(\<And>tr. gives C (f tr) P R) \<Longrightarrow> gives C (\<lambda>os. f (os_trace os) os) P R"
  unfolding gives_def by simp

lemma gives_pure:
  assumes "gives C m P R" "\<And>os. sane os \<Longrightarrow> sane (g os) \<and> os_fds (g os) = os_fds os" shows "gives C (\<lambda>os. m (g os)) P R"
  unfolding gives_def
proof (intro allI impI)
  fix os assume "sane os \<and> C \<subseteq> os_fds os"
  thus "case m (g os) of (Inl e, os') \<Rightarrow> sane os' \<and> os_fds os' = os_fds os - C
      | (Inr x, os') \<Rightarrow> sane os' \<and> P x \<and> R x \<inter> (os_fds os - C) = {} \<and> os_fds os' = (os_fds os - C) \<union> R x"
    using spec [OF assms(1) [unfolded gives_def], of "g os"] assms(2) [of os] by (simp split: prod.splits sum.splits)
qed

lemma gives_post:
  assumes "gives C m P R" "\<And>x. P x \<Longrightarrow> Q x" shows "gives C m Q R"
  by (rule givesI) (use givesD [OF assms(1)] assms(2) in blast)+

lemma then_do_ok [simp]: "then_do (ok x) f = f x"
  by (simp add: then_do_def ok_def)

section \<open>Linux\<close>

lemma nl_wait_gives: "gives {nl} (nl_wait nl es) (\<lambda>_. True) (\<lambda>_. {})"
proof -
  have c: "sane os \<Longrightarrow> {nl} \<subseteq> os_fds os \<Longrightarrow> sane (close_fd nl os) \<and> os_fds (close_fd nl os) = os_fds os - {nl}" for os
    by (auto simp: close_fd_def sane_def)
  show ?thesis
  proof (induction nl es rule: nl_wait.induct)
    case (4 nl ms es)
    thus ?case by (cases "nl_find ms") (auto intro!: givesI simp: close_fd_def sane_def)
  qed (auto intro!: givesI simp: close_fd_def sane_def)
qed

lemma linux_add_ipv6_plain [simp]: "plain (linux_add_ipv6_address k s ifname addr plen)"
proof -
  have "gives {nl} (then_do (on_fail (close_fd nl) (do_call k c)) (\<lambda>_ os. nl_wait nl (k_netlink k (os_trace os)) os)) (\<lambda>_. True) (\<lambda>_. {})"
    for nl c by (rule step_then [OF _ close_fd_closes]) (auto intro: gives_trace nl_wait_gives)
  hence "plain (then_do (new_fd k Netlink_socket) (\<lambda>nl. then_do (on_fail (close_fd nl) (do_call k (c nl)))
      (\<lambda>_ os. nl_wait nl (k_netlink k (os_trace os)) os)))" for c
    by (intro gives_bind [OF gives_new_fd]) auto
  thus ?thesis by (simp add: linux_add_ipv6_address_def)
qed

lemma get_flags_plain [simp]: "plain (get_flags k s ifname ifr)"
proof -
  have "plain (\<lambda>os. ok (ifr_set_flags ifr (k_flags k (os_trace os))) os)" by (rule gives_trace) simp
  thus ?thesis by (simp add: get_flags_def)
qed

lemma set_ifr_plain [simp]: "plain (set_ifr k s cmd ifname addr)"
  by (simp add: set_ifr_def)

lemma open_queues_gives:
  "distinct fds \<Longrightarrow> gives (set fds) (open_queues k dev n fds) (\<lambda>fds'. distinct fds' \<and> length fds' = length fds + n) set"
proof (induction n arbitrary: fds)
  case 0
  thus ?case by (auto intro: gives_ok)
next
  case (Suc n)
  show ?case unfolding open_queues.simps
  proof (rule gives_bind [OF fd_step [OF close_fds_closes [OF Suc.prems]]])
    fix qfd assume q: "qfd \<notin> set fds"
    have c: "closes_all (\<lambda>os. close_fds fds (close_fd qfd os)) (insert qfd (set fds))"
      using closes_all_comp [OF close_fds_closes [OF Suc.prems] close_fd_closes [of qfd]] q by simp
    have "gives (insert qfd (set fds)) (open_queues k dev n (fds @ [qfd])) (\<lambda>fds'. distinct fds' \<and> length fds' = length fds + Suc n) set"
      using Suc.IH [of "fds @ [qfd]"] Suc.prems q by simp
    thus "gives (insert qfd (set fds)) (then_do (on_fail (\<lambda>os. close_fds fds (close_fd qfd os)) (do_call k (Tunsetiff qfd (ifr_name dev) True)))
        (\<lambda>_. open_queues k dev n (fds @ [qfd]))) (\<lambda>fds'. distinct fds' \<and> length fds' = length fds + Suc n) set"
      by (intro step_then [OF _ c]) simp_all
  qed
qed

lemma linux_configure_gives:
  assumes "distinct fds" "s \<notin> set fds"
  shows "gives (insert s (set fds)) (linux_configure k cfg dev s fds) (\<lambda>(fds', m). fds' = fds) (\<lambda>(fds', m). set fds')"
proof -
  have u: "closes_all (\<lambda>os. close_fds fds (close_fd s os)) (insert s (set fds))"
    using closes_all_comp [OF close_fds_closes [OF assms(1)] close_fd_closes [of s]] assms(2) by simp
  have e: "gives (insert s (set fds)) (and_close s (ok (fds, m))) (\<lambda>(fds', m). fds' = fds) (\<lambda>(fds', m). set fds')" for m
    by (rule gives_and_close [OF gives_ok]) (use assms in auto)
  show ?thesis unfolding linux_configure_def Let_def
    by (auto intro!: step_then [OF _ u] e)
qed

lemma linux_open_gives: "gives {} (linux_open_fds k cfg) (\<lambda>(fds, m). distinct fds \<and> length fds = dc_num_queues cfg) (\<lambda>(fds, m). set fds)"
proof -
  have q: "sane os \<Longrightarrow> sane (set_tx_queue_len k s d n os) \<and> os_fds (set_tx_queue_len k s d n os) = os_fds os" for s d n os
    by (simp add: set_tx_queue_len_def do_call_def sane_def)
  have conf: "gives (insert s (set fds)) (\<lambda>os. linux_configure k cfg dev s fds (set_tx_queue_len k s dev 4096 os))
      (\<lambda>(fds, m). distinct fds \<and> length fds = dc_num_queues cfg) (\<lambda>(fds, m). set fds)"
    if "distinct fds" "s \<notin> set fds" "length fds = dc_num_queues cfg" for fds s dev
  proof (rule gives_pure [OF _ q])
    have "gives (insert s (set fds)) (linux_configure k cfg dev s fds) (\<lambda>(fds', m). fds' = fds) (\<lambda>(fds', m). set fds')"
      by (rule linux_configure_gives [OF that(1,2)])
    thus "gives (insert s (set fds)) (linux_configure k cfg dev s fds)
        (\<lambda>(fds, m). distinct fds \<and> length fds = dc_num_queues cfg) (\<lambda>(fds, m). set fds)"
      by (rule gives_post) (use that in auto)
  qed
  have rest: "gives {fd} (then_do (open_queues k dev (dc_num_queues cfg - 1) [fd]) (\<lambda>fds.
        then_do (on_fail (close_fds fds) (new_fd k Inet_socket)) (\<lambda>s os.
        linux_configure k cfg dev s fds (set_tx_queue_len k s dev 4096 os))))
      (\<lambda>(fds, m). distinct fds \<and> length fds = dc_num_queues cfg) (\<lambda>(fds, m). set fds)"
    if n: "0 < dc_num_queues cfg" for fd dev
    by (rule gives_bind [OF open_queues_gives [of "[fd]", simplified]])
      (use n in \<open>auto intro!: gives_bind [OF fd_step [OF close_fds_closes]] conf\<close>)
  define dev where "dev = (\<lambda>tr. if c_str (k_ifname k tr) \<noteq> [] then c_str (k_ifname k tr) else dc_name cfg)"
  have named: "gives {fd} (\<lambda>os. then_do (open_queues k (dev (os_trace os)) (dc_num_queues cfg - 1) [fd]) (\<lambda>fds.
        then_do (on_fail (close_fds fds) (new_fd k Inet_socket)) (\<lambda>s os'.
        linux_configure k cfg (dev (os_trace os)) s fds (set_tx_queue_len k s (dev (os_trace os)) 4096 os'))) os)
      (\<lambda>(fds, m). distinct fds \<and> length fds = dc_num_queues cfg) (\<lambda>(fds, m). set fds)"
    if n: "0 < dc_num_queues cfg" for fd
    by (rule gives_trace) (rule rest [OF n])
  have "gives {fd} (then_do (on_fail (close_fd fd) (do_call k c)) (\<lambda>_ os. then_do (open_queues k (dev (os_trace os)) (dc_num_queues cfg - 1) [fd]) (\<lambda>fds.
        then_do (on_fail (close_fds fds) (new_fd k Inet_socket)) (\<lambda>s os'.
        linux_configure k cfg (dev (os_trace os)) s fds (set_tx_queue_len k s (dev (os_trace os)) 4096 os'))) os))
      (\<lambda>(fds, m). distinct fds \<and> length fds = dc_num_queues cfg) (\<lambda>(fds, m). set fds)"
    if "0 < dc_num_queues cfg" for fd c
    by (rule step_then [OF _ close_fd_closes]) (simp, rule named [OF that])
  thus ?thesis unfolding linux_open_fds_def Let_def dev_def
    by (auto intro!: gives_fail gives_bind [OF gives_new_fd])
qed

section \<open>macOS\<close>

lemma open_utun_gives: "gives {} (open_utun k name) (\<lambda>_. True) (\<lambda>(fd, ifname). {fd})"
proof -
  have last: "gives {fd} (\<lambda>os. then_do (on_fail (close_fd fd) (do_call k a)) (\<lambda>_. then_do (on_fail (close_fd fd) (do_call k b)) (\<lambda>_.
      then_do (on_fail (close_fd fd) (do_call k c)) (\<lambda>_. ok (fd, nm (os_trace os))))) os) (\<lambda>_. True) (\<lambda>(fd, ifname). {fd})"
    for fd a b c and nm :: "syscall list \<Rightarrow> string"
    by (rule gives_trace) (auto intro!: step_then [OF _ close_fd_closes] gives_ok)
  have "gives {fd} (then_do (on_fail (close_fd fd) (do_call k c)) (\<lambda>_. then_do (on_fail (close_fd fd) (do_call k d)) (\<lambda>_.
      then_do (on_fail (close_fd fd) (do_call k e)) (\<lambda>_ os.
      then_do (on_fail (close_fd fd) (do_call k (Get_fl fd))) (\<lambda>_. then_do (on_fail (close_fd fd) (do_call k (Set_nonblock fd))) (\<lambda>_.
      then_do (on_fail (close_fd fd) (do_call k (Set_cloexec fd))) (\<lambda>_. ok (fd, c_str (k_ifname k (os_trace os)))))) os))))
      (\<lambda>_. True) (\<lambda>(fd, ifname). {fd})" for fd c d e
    by (intro step_then [OF _ close_fd_closes] plain_ok(3)) (rule last)
  thus ?thesis unfolding open_utun_def Let_def
    by (auto intro!: gives_fail gives_bind [OF gives_new_fd] split: option.splits)
qed

lemma set_ioctl_mtu_plain [simp]: "plain (set_ioctl_mtu k s ifname mtu)"
proof -
  have "plain (\<lambda>os. case do_call k c os of (Inr _, os) \<Rightarrow> (Inr (c_size (k_mtu k (os_trace os))), os) | (Inl _, os) \<Rightarrow> (Inr mtu, os))" for c
    by (rule givesI) (auto simp: do_call_def sane_def split: option.splits)
  thus ?thesis by (simp add: set_ioctl_mtu_def)
qed

lemma apple_add_ipv6_plain [simp]: "plain (apple_add_ipv6_address k ifname addr plen)"
proof -
  have "gives {s} (\<lambda>os. case do_call k c os of
          (Inl e, os) \<Rightarrow> if e \<noteq> EEXIST then (Inl e, close_fd s os) else (Inr (), close_fd s os)
        | (Inr _, os) \<Rightarrow> (Inr (), close_fd s os)) (\<lambda>_. True) (\<lambda>_. {})" for s c
    by (rule givesI) (auto simp: do_call_def sane_def close_fd_def split: option.splits if_splits)
  thus ?thesis unfolding apple_add_ipv6_address_def by (auto intro!: gives_bind [OF gives_new_fd] gives_fail)
qed

lemma apple_open_gives: "gives {} (apple_open_fds k cfg) (\<lambda>(fds, m). distinct fds \<and> length fds = Suc 0) (\<lambda>(fds, m). set fds)"
proof -
  have u: "closes_all (\<lambda>os. close_fd fd (close_fd s os)) (insert s {fd})" if "s \<noteq> fd" for s fd
    using closes_all_comp [OF close_fd_closes [of fd] close_fd_closes [of s]] that by (simp add: insert_commute)
  have e: "gives (insert s {fd}) (and_close s (ok ([fd], m))) (\<lambda>(fds, m). distinct fds \<and> length fds = Suc 0) (\<lambda>(fds, m). set fds)"
    if "s \<noteq> fd" for s fd and m :: nat
    by (rule gives_and_close [OF gives_ok]) (use that in auto)
  have sock: "gives {fd} (then_do (on_fail (close_fd fd) (new_fd k Inet_socket)) f) Q S"
    if "\<And>s. s \<noteq> fd \<Longrightarrow> gives (insert s {fd}) (f s) Q S" for fd f Q and S :: "nat list \<times> nat \<Rightarrow> nat set"
    by (rule gives_bind [OF fd_step [OF close_fd_closes]]) (use that in auto)
  show ?thesis unfolding apple_open_fds_def Let_def
    by (auto intro!: gives_bind [OF open_utun_gives] sock step_then [OF _ u] e simp: set_if_up_def Let_def)
qed

section \<open>The device\<close>

lemma register_gives:
  "distinct (taken @ fds) \<Longrightarrow> gives (set (taken @ fds)) (register_all k taken fds) (\<lambda>_. True) (\<lambda>_. set (taken @ fds))"
proof (induction fds arbitrary: taken)
  case (Cons fd fds)
  have "closes_all (\<lambda>os. close_fds (fd # fds) (close_fds taken os)) (set (taken @ fd # fds))"
    using closes_all_comp [OF close_fds_closes [of "fd # fds"] close_fds_closes [of taken]] Cons.prems by (auto simp: Un_commute)
  thus ?case using Cons.IH [of "taken @ [fd]"] Cons.prems by (auto intro!: step_then)
qed (auto intro: gives_ok)

text \<open>The device owns its descriptors, and they are open.\<close>

definition device_ok :: "posix_tun_device \<Rightarrow> os \<Rightarrow> bool" where
  "device_ok dev os \<longleftrightarrow> sane os \<and> distinct (pd_descs dev) \<and> set (pd_descs dev) \<subseteq> os_fds os \<and> (pd_open dev \<longleftrightarrow> pd_descs dev \<noteq> [])"

definition foreign :: "posix_tun_device \<Rightarrow> os \<Rightarrow> nat set" where
  "foreign dev os = os_fds os - set (pd_descs dev)"

lemma pd_close_ok:
  assumes "device_ok dev os" "pd_close dev os = (dev', os')"
  shows "device_ok dev' os' \<and> foreign dev' os' = foreign dev os \<and> pd_descs dev' = [] \<and> \<not> pd_open dev' \<and> os_fds os' = foreign dev os"
proof (cases "pd_open dev")
  case True
  have "sane (close_fds (pd_descs dev) os) \<and> os_fds (close_fds (pd_descs dev) os) = os_fds os - set (pd_descs dev)"
    using close_fds_closes [of "pd_descs dev"] assms(1) unfolding device_ok_def closes_all_def by blast
  thus ?thesis using assms True by (auto simp: pd_close_def device_ok_def foreign_def)
qed (use assms in \<open>auto simp: pd_close_def device_ok_def foreign_def\<close>)

lemma adopt_ok:
  assumes fds: "distinct fds" "fds \<noteq> []" "set fds \<subseteq> os_fds os" and s: "sane os" and d: "pd_descs dev = []" "\<not> pd_open dev"
    and r: "adopt_fds k fds mtu prefix dev os = (res, dev', os')"
  shows "device_ok dev' os' \<and> foreign dev' os' = os_fds os - set fds \<and>
    (case res of Inl e \<Rightarrow> dev' = dev | Inr _ \<Rightarrow> pd_descs dev' = fds)"
proof -
  obtain a os1 where a: "register_all k [] fds os = (a, os1)" by fastforce
  have g: "gives (set fds) (register_all k [] fds) (\<lambda>_. True) (\<lambda>_. set fds)" using register_gives [of "[]" fds] fds(1) by simp
  show ?thesis
  proof (cases a)
    case (Inl e)
    thus ?thesis using givesD(1) [OF g s fds(3), of e os1] a r d by (auto simp: adopt_fds_def device_ok_def foreign_def)
  next
    case (Inr x)
    have "sane os1 \<and> os_fds os1 = (os_fds os - set fds) \<union> set fds" using givesD(2) [OF g s fds(3), of x os1] a Inr by blast
    thus ?thesis using a r d Inr fds by (auto simp: adopt_fds_def device_ok_def foreign_def close_fds_def)
  qed
qed

lemma open_with_ok:
  assumes d: "device_ok dev os" and g: "gives {} m (\<lambda>(fds, mtu). distinct fds \<and> length fds = n) (\<lambda>(fds, mtu). set fds)" "0 < n"
    and c: "pd_close dev os = (dev0, os0)"
    and r: "(case m os0 of (Inl e, os) \<Rightarrow> (Inl e, dev0, os) | (Inr (fds, mtu), os) \<Rightarrow> adopt_fds k fds mtu prefix dev0 os) = (res, dev', os')"
  shows "device_ok dev' os' \<and> foreign dev' os' = foreign dev os \<and>
    (case res of Inl e \<Rightarrow> \<not> pd_open dev' \<and> pd_descs dev' = [] | Inr _ \<Rightarrow> pd_open dev' \<and> length (pd_descs dev') = n)"
proof -
  have 0: "device_ok dev0 os0" "foreign dev0 os0 = foreign dev os" "pd_descs dev0 = []" "\<not> pd_open dev0" "os_fds os0 = foreign dev os" "sane os0"
    using pd_close_ok [OF d c] by (auto simp: device_ok_def)
  obtain a os1 where a: "m os0 = (a, os1)" by fastforce
  show ?thesis
  proof (cases a)
    case (Inl e)
    have "sane os1 \<and> os_fds os1 = os_fds os0" using givesD(1) [OF g(1) 0(6), of e os1] a Inl by simp
    thus ?thesis using 0 a r Inl by (auto simp: device_ok_def foreign_def)
  next
    case (Inr x)
    obtain fds mtu where x: "x = (fds, mtu)" by (cases x)
    have 1: "sane os1" "distinct fds" "length fds = n" "set fds \<inter> os_fds os0 = {}" "os_fds os1 = os_fds os0 \<union> set fds"
      using givesD(2) [OF g(1) 0(6), of x os1] a Inr x by auto
    have n: "fds \<noteq> []" using 1(3) g(2) by auto
    have "adopt_fds k fds mtu prefix dev0 os1 = (res, dev', os')" using r a Inr x by simp
    note A = adopt_ok [OF 1(2) n _ 1(1) 0(3,4) this]
    have "device_ok dev' os' \<and> foreign dev' os' = os_fds os1 - set fds \<and>
        (case res of Inl e \<Rightarrow> dev' = dev0 | Inr _ \<Rightarrow> pd_descs dev' = fds)" using A 1(5) by simp
    moreover have "os_fds os1 - set fds = foreign dev os" using 1(4,5) 0(5) by auto
    ultimately show ?thesis using 0 1(3) n by (cases res) (auto simp: device_ok_def)
  qed
qed

section \<open>What a computation returns\<close>

definition returns :: "'a sys \<Rightarrow> ('a \<Rightarrow> bool) \<Rightarrow> bool" where
  "returns m P \<longleftrightarrow> (\<forall>os x os'. m os = (Inr x, os') \<longrightarrow> P x)"

lemma returnsI: "(\<And>os x os'. m os = (Inr x, os') \<Longrightarrow> P x) \<Longrightarrow> returns m P"
  by (simp add: returns_def)

lemma returnsD: "returns m P \<Longrightarrow> m os = (Inr x, os') \<Longrightarrow> P x"
  by (auto simp: returns_def)

lemma returns_ok: "P x \<Longrightarrow> returns (ok x) P"
  by (simp add: returns_def ok_def)

lemma returns_fail: "returns (fail e) P"
  by (simp add: returns_def fail_def)

lemma returns_bind: "returns m Q \<Longrightarrow> (\<And>x. Q x \<Longrightarrow> returns (f x) P) \<Longrightarrow> returns (then_do m f) P"
  by (fastforce simp: returns_def then_do_def split: prod.splits sum.splits)

lemma returns_then: "(\<And>x. returns (f x) P) \<Longrightarrow> returns (then_do m f) P"
  by (rule returns_bind [of _ "\<lambda>_. True"]) (simp_all add: returns_def)

lemma returns_on_fail: "returns m P \<Longrightarrow> returns (on_fail g m) P"
  by (fastforce simp: returns_def on_fail_def split: prod.splits sum.splits)

lemma returns_and_close: "returns m P \<Longrightarrow> returns (and_close fd m) P"
  by (simp add: returns_def and_close_def)

lemma returns_trace: "(\<And>tr. returns (f tr) P) \<Longrightarrow> returns (\<lambda>os. f (os_trace os) os) P"
  by (simp add: returns_def)

lemma returns_after: "returns m P \<Longrightarrow> returns (\<lambda>os. m (g os)) P"
  by (simp add: returns_def)

lemma get_flags_returns:
  assumes "\<And>tr. k_flags k tr = f" shows "returns (get_flags k s ifname ifr) (\<lambda>x. x = ifr_set_flags ifr f)"
  unfolding get_flags_def by (rule returns_then, rule returns_trace) (simp add: assms returns_ok)

lemma linux_configure_mtu:
  assumes "\<And>tr. k_flags k tr = f"
  shows "returns (linux_configure k cfg d s fds) (\<lambda>(fds', m). m = c_size (sint
    (let m = of_nat (max (dc_mtu cfg) 576) :: u32 in
     if dc_ipv4 cfg = [] then m
     else let ifr = ifr_set_flags m f in ifr_set_flags ifr (ifr_flags ifr OR IFF_UP OR IFF_RUNNING))))"
  unfolding linux_configure_def Let_def
  by (auto intro!: returns_then returns_and_close returns_ok returns_bind [OF returns_on_fail [OF get_flags_returns [OF assms]]])

lemma linux_open_fds_mtu:
  assumes "\<And>d s fds. returns (linux_configure k cfg d s fds) P"
  shows "returns (linux_open_fds k cfg) P"
proof -
  define dev where "dev = (\<lambda>tr. if c_str (k_ifname k tr) \<noteq> [] then c_str (k_ifname k tr) else dc_name cfg)"
  have "returns (\<lambda>os. linux_configure k cfg d s fds (set_tx_queue_len k s d 4096 os)) P" for d s fds
    by (rule returns_after [OF assms])
  hence "returns (then_do (open_queues k d n l) (\<lambda>fds. then_do (on_fail (close_fds fds) (new_fd k Inet_socket))
      (\<lambda>s os. linux_configure k cfg d s fds (set_tx_queue_len k s d 4096 os)))) P" for d n l
    by (intro returns_then)
  hence "returns (\<lambda>os. then_do (open_queues k (dev (os_trace os)) n l) (\<lambda>fds. then_do (on_fail (close_fds fds) (new_fd k Inet_socket))
      (\<lambda>s os'. linux_configure k cfg (dev (os_trace os)) s fds (set_tx_queue_len k s (dev (os_trace os)) 4096 os'))) os) P" for n l
    by (rule returns_trace)
  thus ?thesis unfolding linux_open_fds_def Let_def dev_def by (simp add: returns_fail returns_then)
qed

section \<open>Runs in which the calls succeed\<close>

lemma then_do_Inr: "m os = (Inr x, os1) \<Longrightarrow> then_do m f os = f x os1"
  by (simp add: then_do_def)

lemma on_fail_Inr: "m os = (Inr x, os1) \<Longrightarrow> on_fail g m os = (Inr x, os1)"
  by (simp add: on_fail_def)

lemma do_call_Inr: "k_error k (os_trace os) c = None \<Longrightarrow> do_call k c os = (Inr (), os\<lparr>os_trace := os_trace os @ [c]\<rparr>)"
  by (simp add: do_call_def)

lemma new_fd_Inr:
  "k_error k (os_trace os) c = None \<Longrightarrow>
   new_fd k c os = (Inr (os_next os), os\<lparr>os_fds := insert (os_next os) (os_fds os), os_next := os_next os + 1, os_trace := os_trace os @ [c]\<rparr>)"
  by (simp add: new_fd_def)

lemma ok_Inr: "ok x os = (Inr x, os)"
  by (simp add: ok_def)

lemmas run_simps = then_do_Inr on_fail_Inr do_call_Inr new_fd_Inr ok_Inr and_close_def

end
