(* ===== verification/Tun_Device.thy ===== *)
theory Tun_Device
  imports Posix_Ownership Ip_Packet
begin

text \<open>
  The device as its users see it (\<^verbatim>\<open>include/tunio/tun_device.hpp\<close>): what opening, taking over and closing
  leave behind, reading and writing frames, and the reading of a parsed packet. The backend is the POSIX
  one. The descriptor and the kernel behind it are outside: a write hands bytes to a descriptor, a read is
  completed with bytes that have been put at the write position of the buffer.
\<close>

section \<open>Opening and closing\<close>

text \<open>
  C26. Opening a device never leaks or steals a descriptor: whichever system call fails, on Linux and on
  macOS, every descriptor opened on the way is closed exactly once and no other descriptor of the process
  is touched. A failed open leaves the device closed, a successful one owns one open descriptor per queue.
\<close>

theorem posix_open_owns:
  assumes "device_ok dev os" "pd_open_device p k cfg dev os = (res, dev', os')"
  shows "device_ok dev' os' \<and> foreign dev' os' = foreign dev os \<and>
    (case res of
       Inl e \<Rightarrow> p = Other_posix \<or> \<not> pd_open dev'
     | Inr _ \<Rightarrow> pd_open dev' \<and> pd_queue_count dev' = (if p = Linux then dc_num_queues cfg else 1))"
proof (cases p)
  case Linux
  obtain dev0 os0 where c: "pd_close dev os = (dev0, os0)" by fastforce
  show ?thesis
  proof (cases "dc_num_queues cfg = 0")
    case True
    hence "res = Inl EINVAL" "dev' = dev0" "os' = os0" using assms(2) c Linux by (simp_all add: pd_open_device_def linux_open_fds_def fail_def)
    thus ?thesis using pd_close_ok [OF assms(1) c] by simp
  next
    case False
    thus ?thesis using open_with_ok [OF assms(1) linux_open_gives [of k cfg] _ c, where k = k and prefix = False and res = res and dev' = dev' and os' = os'] assms(2) c Linux
      by (auto simp: pd_open_device_def pd_queue_count_def split: sum.splits)
  qed
next
  case Apple
  obtain dev0 os0 where c: "pd_close dev os = (dev0, os0)" by fastforce
  show ?thesis using open_with_ok [OF assms(1) apple_open_gives [of k cfg] _ c, where k = k and prefix = True and res = res and dev' = dev' and os' = os'] assms(2) c Apple
    by (auto simp: pd_open_device_def pd_queue_count_def split: sum.splits)
next
  case Other_posix
  thus ?thesis using assms by (auto simp: pd_open_device_def)
qed

lemma apply_txqlen_ok: "sane os \<Longrightarrow> sane (apply_default_tx_queue_len p k h os) \<and> os_fds (apply_default_tx_queue_len p k h os) = os_fds os"
  by (auto simp: apply_default_tx_queue_len_def do_call_def new_fd_def close_fd_def set_tx_queue_len_def sane_def split: option.splits)

lemma take_handles_ok: "sane os \<Longrightarrow> take_handles p k hs os = (r, os') \<Longrightarrow> sane os' \<and> os_fds os' = os_fds os"
proof (induction hs arbitrary: os)
  case (Cons h hs)
  define os1 where "os1 = apply_default_tx_queue_len p k h os"
  have 1: "sane os1" "os_fds os1 = os_fds os" using apply_txqlen_ok [OF Cons.prems(1)] by (simp_all add: os1_def)
  obtain a os2 where a: "do_call k (Register h) os1 = (a, os2)" by fastforce
  have 2: "sane os2" "os_fds os2 = os_fds os1" using a 1 by (auto simp: do_call_def sane_def)
  show ?case using Cons.IH [OF 2(1)] Cons.prems(2) a 1 2 by (cases a) (auto simp: then_do_def os1_def [symmetric])
qed (simp add: ok_def)

text \<open>
  Taking over descriptors of the application: a failure closes none of them and leaves the device as
  it was; success makes them the device's queues, in order, and closes those it had before.
\<close>

theorem posix_assign_owns:
  assumes "device_ok dev os" "distinct handles" "set handles \<subseteq> foreign dev os" "assign_queues p k handles mtu prefix dev os = (res, dev', os')"
  shows "device_ok dev' os' \<and>
    (case res of
       Inl e \<Rightarrow> dev' = dev \<and> os_fds os' = os_fds os
     | Inr _ \<Rightarrow> pd_descs dev' = handles \<and> 0 < pd_queue_count dev' \<and> pd_queue_count dev' \<le> max_multi_queues \<and>
         foreign dev' os' = foreign dev os - set handles)"
proof (cases "handles = [] \<or> length handles > max_multi_queues")
  case True
  hence "res = Inl EINVAL \<and> dev' = dev \<and> os' = os" using assms(4) by (auto simp: assign_queues_def split: if_splits)
  thus ?thesis using assms(1) by simp
next
  case False
  obtain r os1 where r: "take_handles p k handles os = (r, os1)" by fastforce
  have s: "sane os" using assms(1) by (simp add: device_ok_def)
  have 1: "sane os1" "os_fds os1 = os_fds os" using take_handles_ok [OF s r] by simp_all
  show ?thesis
  proof (cases r)
    case (Inl e)
    thus ?thesis using assms(1,4) False r 1 by (auto simp: assign_queues_def device_ok_def)
  next
    case (Inr x)
    have "sane (close_fds (pd_descs dev) os1) \<and> os_fds (close_fds (pd_descs dev) os1) = os_fds os1 - set (pd_descs dev)"
      using close_fds_closes [of "pd_descs dev"] assms(1) 1 unfolding device_ok_def closes_all_def by auto
    thus ?thesis using assms False r 1 Inr by (auto simp: assign_queues_def device_ok_def foreign_def pd_queue_count_def)
  qed
qed

section \<open>The MTU of an opened device\<close>

lemma ifr_flags_set [simp]: "ifr_flags (ifr_set_flags ifr f) = f"
  by (rule bit_word_eqI) (auto simp: ifr_flags_def ifr_set_flags_def bit_simps)

lemma ifr_set_flags_twice [simp]: "ifr_set_flags (ifr_set_flags ifr f) g = ifr_set_flags ifr g"
  by (rule bit_word_eqI) (auto simp: ifr_set_flags_def bit_simps dest: bit_imp_le_length)

lemma ifr_set_flags_small: "n < 65536 \<Longrightarrow> ifr_set_flags (of_nat n) f = ucast f"
proof -
  assume "n < 65536"
  hence "unat (drop_bit 16 (of_nat n :: u32)) = 0"
    by (simp add: drop_bit_eq_div unat_div_distrib unat_of_nat)
  hence "drop_bit 16 (of_nat n :: u32) = 0" by (simp only: unsigned_eq_0_iff)
  thus ?thesis by (simp add: ifr_set_flags_def)
qed

lemma c_size_sint: "unat (w :: u32) < 2 ^ 31 \<Longrightarrow> c_size (sint w) = unat w"
proof -
  assume w: "unat w < 2 ^ 31"
  have u: "uint w = int (unat w)" by simp
  have "int (unat w) < 2 ^ 31" using w [folded of_nat_less_iff [where 'a = int]] by (simp only: of_nat_power of_nat_numeral)
  hence lt: "uint w < 2 ^ 31" using u by (simp only:)
  have "sint w = uint w" by (subst sint_u32) (rule if_P [OF lt])
  moreover have "uint w mod 2 ^ 64 = uint w" using lt by (intro mod_pos_pos_trivial) simp_all
  ultimately show ?thesis by (simp add: c_size_def)
qed

text \<open>
  C27. The MTU a device has after it was opened on Linux. Without an IPv4 address it is the configured one,
  at least 576. With an IPv4 address the union that holds the MTU has meanwhile been filled with the
  flags of the interface: the recorded MTU is that bit pattern, whatever was configured.
\<close>

theorem linux_open_mtu:
  assumes "pd_open_device Linux k cfg dev os = (Inr (), dev', os')" "dc_mtu cfg < 65536" "\<And>tr. k_flags k tr = flags"
  shows "pd_mtu dev' = (if dc_ipv4 cfg = [] then max (dc_mtu cfg) 576 else unat (flags OR IFF_UP OR IFF_RUNNING))"
proof -
  obtain dev0 os0 where c: "pd_close dev os = (dev0, os0)" by fastforce
  obtain fds m os1 where o1: "linux_open_fds k cfg os0 = (Inr (fds, m), os1)" and a: "adopt_fds k fds m False dev0 os1 = (Inr (), dev', os')"
    using assms(1) c by (auto simp: pd_open_device_def split: prod.splits sum.splits)
  have "m = c_size (sint (let m = of_nat (max (dc_mtu cfg) 576) :: u32 in
     if dc_ipv4 cfg = [] then m else let ifr = ifr_set_flags m flags in ifr_set_flags ifr (ifr_flags ifr OR IFF_UP OR IFF_RUNNING)))"
    using returnsD [OF linux_open_fds_mtu [OF linux_configure_mtu [OF assms(3)]] o1] by simp
  moreover have "unat (of_nat (max (dc_mtu cfg) 576) :: u32) = max (dc_mtu cfg) 576" using assms(2) by (simp add: unat_of_nat max_def)
  moreover have "max (dc_mtu cfg) 576 < 65536" using assms(2) by simp
  moreover have "unat (ucast w :: u32) = unat (w :: u16)" for w by (simp add: unsigned_ucast_eq take_bit_nat_eq_self unsigned_less [THEN less_trans])
  moreover have "unat (w :: u16) < 65536" for w using unsigned_less [where w = w and 'a = nat] by simp
  moreover have "(let ifr = ifr_set_flags x f in ifr_set_flags ifr (ifr_flags ifr OR IFF_UP OR IFF_RUNNING)) =
      ifr_set_flags x (f OR IFF_UP OR IFF_RUNNING)" for x f by (simp add: Let_def)
  ultimately have "m = (if dc_ipv4 cfg = [] then max (dc_mtu cfg) 576 else unat (flags OR IFF_UP OR IFF_RUNNING))"
    by (simp only: Let_def [of "of_nat _"] ifr_set_flags_small split: if_split) (simp add: c_size_sint less_trans [of _ 65536])
  moreover have "pd_mtu dev' = m" using a by (auto simp: adopt_fds_def split: prod.splits sum.splits)
  ultimately show ?thesis by simp
qed

section \<open>Frames\<close>

definition EBADF :: int where "EBADF = 9"
definition EMSGSIZE :: int where "EMSGSIZE = 90"

definition AF_INET :: u32 where "AF_INET = 2"
definition AF_INET6 :: u32 where "AF_INET6 = 30"

definition family_prefix :: "packet_buffer \<Rightarrow> byte list" where
  "family_prefix buf =
     (let family = (if drop_bit 4 (pb_from_data buf ! 0) = 6 then AF_INET6 else AF_INET)
      in [ucast (drop_bit 24 family), ucast (drop_bit 16 family), ucast (drop_bit 8 family), ucast family])"

text \<open>
  Starting a write: the error it completes with at once, or the descriptor and the bytes handed to it. The
  prefix of macOS is stored in front of the packet.
\<close>

definition pd_async_write :: "posix_tun_device \<Rightarrow> packet_buffer \<Rightarrow> nat \<Rightarrow> (int + nat \<times> byte list) \<times> packet_buffer" where
  "pd_async_write dev buf queue =
     (if queue \<ge> length (pd_descs dev) then (Inl EBADF, buf)
      else if pd_utun_prefix dev then
        if pb_headroom buf < 4 then (Inl EINVAL, buf)
        else
          let buf = buf\<lparr>pb_storage := blit (pb_storage buf) (pb_data_offset buf - 4) (family_prefix buf)\<rparr>
          in (Inr (pd_descs dev ! queue, subl (pb_data_offset buf - 4) (pb_data_size buf + 4) (pb_storage buf)), buf)
      else (Inr (pd_descs dev ! queue, pb_bytes buf), buf))"

text \<open>A read: the room it offers, and its completion with \<open>n\<close> bytes at the write position.\<close>

definition pd_async_read :: "posix_tun_device \<Rightarrow> packet_buffer \<Rightarrow> nat \<Rightarrow> int + nat \<times> nat" where
  "pd_async_read dev buf queue =
     (if queue \<ge> length (pd_descs dev) then Inl EBADF else Inr (pd_descs dev ! queue, pb_writable_size buf))"

definition pb_write_pos :: "packet_buffer \<Rightarrow> nat" where
  "pb_write_pos buf = pb_data_offset buf + pb_data_size buf"

definition pd_read_done :: "posix_tun_device \<Rightarrow> bool \<Rightarrow> nat \<Rightarrow> packet_buffer \<Rightarrow> nat \<times> packet_buffer" where
  "pd_read_done dev okay n buf =
     (if pd_utun_prefix dev \<and> okay \<and> n > 4
      then (n - 4, buf\<lparr>pb_storage := blit (pb_storage buf) (pb_write_pos buf) (subl (pb_write_pos buf + 4) (n - 4) (pb_storage buf))\<rparr>)
      else (n, buf))"

text \<open>What the kernel does to the buffer.\<close>

definition kernel_fill :: "byte list \<Rightarrow> packet_buffer \<Rightarrow> packet_buffer" where
  "kernel_fill frame buf = buf\<lparr>pb_storage := blit (pb_storage buf) (pb_write_pos buf) frame\<rparr>"

text \<open>
  C28. The frame prefix is transparent: a packet written to one device and read, as the frame it became,
  from another arrives with its bytes and its length, with or without the prefix on both sides. The
  prefix is written inside the buffer's storage and leaves the packet in it unchanged.
\<close>

theorem utun_frame_round_trip:
  assumes w: "pb_wf buf" "4 \<le> pb_headroom buf" "0 < pb_data_size buf" "queue < pd_queue_count dev"
    and r: "pb_wf rbuf" "pb_data_size buf + 4 \<le> pb_writable_size rbuf" "pd_utun_prefix dev' = pd_utun_prefix dev"
    and wr: "pd_async_write dev buf queue = (Inr (fd, frame), buf')"
    and rd: "pd_read_done dev' True (length frame) (kernel_fill frame rbuf) = (n, rbuf')"
  shows "fd = pd_descs dev ! queue \<and> n = pb_data_size buf \<and> subl (pb_write_pos rbuf) n (pb_storage rbuf') = pb_bytes buf \<and>
    pb_wf buf' \<and> pb_bytes buf' = pb_bytes buf"
proof -
  let ?p = "pb_write_pos rbuf"
  have room: "?p + (pb_data_size buf + 4) \<le> length (pb_storage rbuf)"
    using r(1,2) pb_writable_exact [OF r(1)] by (auto simp: pb_wf_def pb_write_pos_def)
  have q: "\<not> length (pd_descs dev) \<le> queue" using w(4) by (simp add: pd_queue_count_def)
  show ?thesis
  proof (cases "pd_utun_prefix dev")
    case False
    have f: "fd = pd_descs dev ! queue" "frame = pb_bytes buf" "buf' = buf" using wr q False by (auto simp: pd_async_write_def)
    have "subl ?p (pb_data_size buf) (blit (pb_storage rbuf) ?p (pb_bytes buf)) = pb_bytes buf"
      using room w(1) subl_blit_same [of ?p "pb_bytes buf" "pb_storage rbuf"] by simp
    thus ?thesis using f rd False r(3) w(1) by (auto simp: pd_read_done_def kernel_fill_def)
  next
    case True
    define o4 where "o4 = pb_data_offset buf - 4"
    have o: "pb_data_offset buf = o4 + 4" "o4 + 4 + pb_data_size buf \<le> length (pb_storage buf)" using w(1,2) by (auto simp: pb_wf_def o4_def)
    define pre where "pre = family_prefix buf"
    have pre: "length pre = 4" "fd = pd_descs dev ! queue" "buf' = buf\<lparr>pb_storage := blit (pb_storage buf) o4 pre\<rparr>"
      "frame = subl o4 (pb_data_size buf + 4) (blit (pb_storage buf) o4 pre)"
      using wr q True w(2) by (auto simp: pd_async_write_def Let_def o4_def pre_def family_prefix_def [of buf, THEN arg_cong [where f = length]])
    have keep: "subl (o4 + 4) (pb_data_size buf) (blit (pb_storage buf) o4 pre) = subl (o4 + 4) (pb_data_size buf) (pb_storage buf)"
      using o pre(1) by (intro subl_blit_outside) auto
    have len: "length frame = pb_data_size buf + 4" using pre(1,4) o by simp
    have "frame = subl o4 4 (blit (pb_storage buf) o4 pre) @ subl (o4 + 4) (pb_data_size buf) (blit (pb_storage buf) o4 pre)"
      unfolding pre(4) by (simp add: subl_append add.commute)
    hence tail: "drop 4 frame = pb_bytes buf" using keep o pre(1) by (simp add: pb_bytes_def)
    have "subl (?p + 4) (pb_data_size buf) (blit (pb_storage rbuf) ?p frame) = drop 4 frame"
      using room len by (intro nth_equalityI) (auto simp: nth_blit)
    hence d: "subl (?p + 4) (length frame - 4) (pb_storage (kernel_fill frame rbuf)) = pb_bytes buf"
      using tail len by (simp add: kernel_fill_def)
    have "length (pb_storage (kernel_fill frame rbuf)) = length (pb_storage rbuf)" using room len by (simp add: kernel_fill_def)
    hence "subl ?p (pb_data_size buf) (blit (pb_storage (kernel_fill frame rbuf)) ?p (pb_bytes buf)) = pb_bytes buf"
      using room subl_blit_same [of ?p "pb_bytes buf" "pb_storage (kernel_fill frame rbuf)"] w(1) by simp
    moreover have "pb_write_pos (kernel_fill frame rbuf) = ?p" by (simp add: kernel_fill_def pb_write_pos_def)
    moreover have "4 < length frame" using len w(3) by simp
    ultimately have "n = pb_data_size buf \<and> subl ?p n (pb_storage rbuf') = pb_bytes buf"
      using rd True r(3) d len by (auto simp: pd_read_done_def)
    moreover have "pb_wf buf' \<and> pb_bytes buf' = pb_bytes buf"
      using w(1) o pre(1,3) keep by (auto simp: pb_wf_def pb_bytes_def)
    ultimately show ?thesis using pre(2) by auto
  qed
qed

section \<open>Reading a packet\<close>

text \<open>A parsed read needs room for a whole frame; it parses what has arrived, unless the read failed.\<close>

definition async_read_ip :: "posix_tun_device \<Rightarrow> nat \<Rightarrow> ip_packet \<Rightarrow> (int + nat \<times> nat) \<times> ip_packet" where
  "async_read_ip dev queue pk =
     (let pk = pk\<lparr>pk_buf := pb_reset (pk_buf pk)\<rparr> in
      if pd_read_size_hint dev \<noteq> 0 \<and> pb_writable_size (pk_buf pk) < pd_read_size_hint dev then (Inl EMSGSIZE, pk)
      else (pd_async_read dev (pk_buf pk) queue, pk))"

definition read_ip_done :: "posix_tun_device \<Rightarrow> bool \<Rightarrow> nat \<Rightarrow> ip_packet \<Rightarrow> cpp_exception option \<times> nat \<times> ip_packet" where
  "read_ip_done dev okay n pk =
     (let (n, buf) = pd_read_done dev okay n (pk_buf pk); pk = pk\<lparr>pk_buf := buf\<rparr> in
      if okay then let (x, pk) = parse_buffer buf n pk in (x, n, pk) else (None, n, pk))"

lemma async_read_ip_room:
  "async_read_ip dev queue pk = (Inr (fd, room), pk') \<Longrightarrow> pd_read_size_hint dev \<le> room"
  by (auto simp: async_read_ip_def pd_async_read_def Let_def split: if_splits)

section \<open>Samples\<close>

text \<open>A process with one descriptor of its own; a kernel that refuses the second queue.\<close>

definition sample_os :: os where
  "sample_os = \<lparr>os_fds = {7}, os_next = 8, os_bad_close = False, os_trace = []\<rparr>"

definition sample_kernel :: kernel where
  "sample_kernel = \<lparr>k_error = (\<lambda>tr c. if c = Tunsetiff 9 ''tun0'' True then Some 5 else None), k_ifname = (\<lambda>tr. ''tun0''),
     k_mtu = (\<lambda>tr. 1500), k_flags = (\<lambda>tr. 0x1090), k_netlink = (\<lambda>tr. []), k_pton4 = (\<lambda>s. True), k_pton6 = (\<lambda>s. True)\<rparr>"

definition sample_config :: device_config where
  "sample_config = \<lparr>dc_name = ''tun0'', dc_ipv4 = ''10.0.0.1'', dc_netmask = ''255.0.0.0'', dc_ipv6 = [], dc_ipv6_prefix_len = 64,
     dc_mtu = 1500, dc_num_queues = 2, dc_utun_prefix = False\<rparr>"

lemma sample_device_ok: "device_ok posix_tun_device_new sample_os"
  by (simp add: device_ok_def posix_tun_device_new_def sample_os_def sane_def)

theorem posix_open_owns_witness:
  "foreign (fst (snd (pd_open_device Linux sample_kernel sample_config posix_tun_device_new sample_os)))
     (snd (snd (pd_open_device Linux sample_kernel sample_config posix_tun_device_new sample_os))) = {7}"
  using posix_open_owns [OF sample_device_ok, of Linux sample_kernel sample_config
      "fst (pd_open_device Linux sample_kernel sample_config posix_tun_device_new sample_os)"
      "fst (snd (pd_open_device Linux sample_kernel sample_config posix_tun_device_new sample_os))"
      "snd (snd (pd_open_device Linux sample_kernel sample_config posix_tun_device_new sample_os))"]
  by (simp add: foreign_def [of posix_tun_device_new]) (simp add: posix_tun_device_new_def sample_os_def)

text \<open>One queue, configured for an MTU of 1500; the kernel's flags of a TUN interface.\<close>

lemma sample_kernel_fields:
  "k_error sample_kernel tr c = (if c = Tunsetiff 9 ''tun0'' True then Some 5 else None)" "k_ifname sample_kernel tr = ''tun0''"
  "k_pton4 sample_kernel s" "k_flags sample_kernel tr = 0x1090"
  by (simp_all add: sample_kernel_def)

lemma sample_config_fields:
  "dc_num_queues sample_config = 2" "dc_name sample_config = ''tun0''" "dc_ipv4 sample_config = ''10.0.0.1''" "dc_ipv6 sample_config = []"
  "dc_mtu sample_config = 1500"
  by (simp_all add: sample_config_def)

lemma sample_name: "ifr_name ''tun0'' = ''tun0''" "c_str ''tun0'' = ''tun0''"
  by code_simp+

lemma sample_configure: "\<exists>m os1. linux_configure sample_kernel (sample_config\<lparr>dc_num_queues := Suc 0\<rparr>) d s fds os = (Inr (fds, m), os1)"
  by (simp add: linux_configure_def Let_def sample_kernel_fields sample_config_fields set_ifr_def get_flags_def run_simps)

lemma sample_open: "\<exists>dev' os'. pd_open_device Linux sample_kernel (sample_config\<lparr>dc_num_queues := 1\<rparr>) posix_tun_device_new sample_os = (Inr (), dev', os')"
proof -
  have "\<exists>m os1. linux_open_fds sample_kernel (sample_config\<lparr>dc_num_queues := 1\<rparr>) sample_os = (Inr ([os_next sample_os], m), os1)"
    by (simp add: linux_open_fds_def Let_def sample_configure max_multi_queues_def sample_kernel_fields sample_config_fields sample_name run_simps)
  thus ?thesis
    by (auto simp add: pd_open_device_def pd_close_def posix_tun_device_new_def adopt_fds_def sample_kernel_fields run_simps)
qed

theorem linux_open_mtu_witness:
  "pd_mtu (fst (snd (pd_open_device Linux sample_kernel (sample_config\<lparr>dc_num_queues := 1\<rparr>) posix_tun_device_new sample_os))) = 4305"
proof -
  obtain dev' os' where r: "pd_open_device Linux sample_kernel (sample_config\<lparr>dc_num_queues := 1\<rparr>) posix_tun_device_new sample_os = (Inr (), dev', os')"
    using sample_open by blast
  show ?thesis using linux_open_mtu [OF r, where flags = "0x1090"]
    by (simp only: r fst_conv snd_conv) (simp add: sample_config_fields sample_kernel_fields IFF_UP_def IFF_RUNNING_def)
qed

theorem posix_assign_owns_witness:
  "device_ok (fst (snd (assign_queues Linux sample_kernel [7] 1500 False posix_tun_device_new sample_os)))
     (snd (snd (assign_queues Linux sample_kernel [7] 1500 False posix_tun_device_new sample_os)))"
  using posix_assign_owns [OF sample_device_ok, of "[7]" Linux sample_kernel 1500 False
      "fst (assign_queues Linux sample_kernel [7] 1500 False posix_tun_device_new sample_os)"
      "fst (snd (assign_queues Linux sample_kernel [7] 1500 False posix_tun_device_new sample_os))"
      "snd (snd (assign_queues Linux sample_kernel [7] 1500 False posix_tun_device_new sample_os))"]
  by (simp add: foreign_def [of posix_tun_device_new]) (simp add: posix_tun_device_new_def sample_os_def)

definition sample_out :: packet_buffer where
  "sample_out = \<lparr>pb_storage = [0, 0, 0, 0, 69, 9, 0, 0], pb_capacity = 8, pb_headroom = 4, pb_data_offset = 4, pb_data_size = 2\<rparr>"

definition sample_in :: packet_buffer where
  "sample_in = \<lparr>pb_storage = replicate 10 0, pb_capacity = 10, pb_headroom = 2, pb_data_offset = 2, pb_data_size = 0\<rparr>"

definition sample_utun :: posix_tun_device where
  "sample_utun = \<lparr>pd_descs = [5], pd_mtu = 1500, pd_open = True, pd_utun_prefix = True\<rparr>"

lemma sample_frame: "pd_async_write sample_utun sample_out 0 = (Inr (5, [0, 0, 0, 2, 69, 9]), sample_out\<lparr>pb_storage := [0, 0, 0, 2, 69, 9, 0, 0]\<rparr>)"
  by code_simp

theorem utun_frame_round_trip_witness:
  "fst (pd_read_done sample_utun True (length [0, 0, 0, 2, 69, 9 :: byte]) (kernel_fill [0, 0, 0, 2, 69, 9] sample_in)) = 2"
proof -
  have w: "pb_wf sample_out" "4 \<le> pb_headroom sample_out" "0 < pb_data_size sample_out" "0 < pd_queue_count sample_utun"
    by (simp_all add: pb_wf_def sample_out_def sample_utun_def pd_queue_count_def)
  have r: "pb_wf sample_in" "pb_data_size sample_out + 4 \<le> pb_writable_size sample_in"
    by (simp_all add: pb_wf_def sample_out_def sample_in_def pb_writable_size_def)
  show ?thesis
    using utun_frame_round_trip [OF w r refl sample_frame surjective_pairing] by (simp add: sample_out_def)
qed

text \<open>The number in a \<^verbatim>\<open>utun\<close> name is cut to an \<^verbatim>\<open>int\<close>: a name with a large number asks for another unit.\<close>

lemma utun_unit_wraps: "utun_unit ''utun3'' = Some 3" "utun_unit ''utun4294967296'' = Some 0" "utun_unit ''tun0'' = None"
  by code_simp+

text \<open>On Linux an IPv6 address without an IPv4 address is not configured: the calls made do not depend on it.\<close>

lemma linux_ipv6_only_ignored:
  assumes "dc_ipv4 cfg = []"
  shows "pd_open_device Linux k (cfg\<lparr>dc_ipv6 := a, dc_ipv6_prefix_len := l\<rparr>) dev os = pd_open_device Linux k cfg dev os"
proof -
  have "linux_configure k (cfg\<lparr>dc_ipv6 := a, dc_ipv6_prefix_len := l\<rparr>) d s fds = linux_configure k cfg d s fds" for d s fds
    using assms by (simp add: linux_configure_def)
  hence "linux_open_fds k (cfg\<lparr>dc_ipv6 := a, dc_ipv6_prefix_len := l\<rparr>) = linux_open_fds k cfg"
    by (simp add: linux_open_fds_def Let_def cong: if_cong)
  thus ?thesis by (simp add: pd_open_device_def)
qed

end
