(* ===== verification/Wintun_Ring.thy ===== *)
theory Wintun_Ring
  imports Queue_Writer
begin

text \<open>
  The ring buffers shared with the Wintun driver (\<^verbatim>\<open>src/tun_device_wintun.cpp\<close>,
  \<^verbatim>\<open>include/tunio/detail/impl/tun_device_wintun.hpp\<close>): taking a packet out of the receive ring and putting
  one into the send ring. The driver shares the memory and may write into it at any time: \<open>take_packet_at\<close>
  reads the ring as it is found at each access, while \<open>take_packet\<close> is the call during which nothing
  changes. The memory barriers are not modelled. Shown are which accesses stay inside the data array and the buffer,
  what happens when the size of the packet changes during the call, and that a ring used by both ends as the code
  does it is a bounded queue, which passes packets in order.
\<close>

section \<open>Taking and putting\<close>

definition WINTUN_RING_CAPACITY :: u32 where "WINTUN_RING_CAPACITY = 0x800000"
definition WINTUN_MAX_IP_PACKET_SIZE :: nat where "WINTUN_MAX_IP_PACKET_SIZE = 0xffff"
definition ring_data_size :: nat where "ring_data_size = 0x800000 + 0x10000"

record tun_ring =
  tr_head :: u32
  tr_tail :: u32
  tr_alertable :: u32
  tr_data :: "nat \<Rightarrow> byte"

text \<open>The rings of a device while it is open (a ring not mapped is \<open>None\<close>), and the events set on the send ring.\<close>

record wintun_rings =
  wd_opened :: bool
  wd_send_ring :: "tun_ring option"
  wd_recv_ring :: "tun_ring option"
  wd_send_signals :: nat

definition wintun_ring_wrap :: "u32 \<Rightarrow> u32" where
  "wintun_ring_wrap v = v AND (WINTUN_RING_CAPACITY - 1)"

definition wintun_ring_packet_align :: "u32 \<Rightarrow> u32" where
  "wintun_ring_packet_align n = (n + 3) AND NOT 3"

definition ring_bytes :: "(nat \<Rightarrow> byte) \<Rightarrow> nat \<Rightarrow> nat \<Rightarrow> byte list" where
  "ring_bytes d i n = map d [i..<i + n]"

definition ring_store :: "(nat \<Rightarrow> byte) \<Rightarrow> nat \<Rightarrow> byte list \<Rightarrow> nat \<Rightarrow> byte" where
  "ring_store d i xs = (\<lambda>j. if i \<le> j \<and> j < i + length xs then xs ! (j - i) else d j)"

definition packet_size :: "(nat \<Rightarrow> byte) \<Rightarrow> nat \<Rightarrow> u32" where
  "packet_size d i = le32 (d i) (d (i + 1)) (d (i + 2)) (d (i + 3))"

text \<open>
  Taking a packet while the driver may write: \<open>m k\<close> is the data array at the \<open>k\<close>-th access. The size of the
  packet is read in four places before the copy (the check of the maximum, the aligned length, the check
  of the buffer, the length of the copy), the bytes follow one after the other, and the size is read once more for the
  return value. The result is the bytes copied into the buffer and the value returned.
\<close>

definition take_packet_at :: "(nat \<Rightarrow> nat \<Rightarrow> byte) \<Rightarrow> nat \<Rightarrow> tun_ring \<Rightarrow> (error_code + byte list \<times> nat) \<times> tun_ring" where
  "take_packet_at m bufsize r =
     (let head = tr_head r; tail = tr_tail r in
      if head \<ge> WINTUN_RING_CAPACITY \<or> tail \<ge> WINTUN_RING_CAPACITY then (Inl EC_invalid_argument, r)
      else if head = tail then (Inr ([], 0), r)
      else
        let content_len = wintun_ring_wrap (tail - head) in
        if content_len < 4 then (Inl EC_invalid_argument, r)
        else
          let psize = (\<lambda>k. packet_size (m k) (unat head)) in
          if unat (psize 0) > WINTUN_MAX_IP_PACKET_SIZE then (Inl EC_message_size, r)
          else
            let aligned = wintun_ring_packet_align (4 + psize 1) in
            if aligned > content_len then (Inl EC_invalid_argument, r)
            else if unat (head + aligned) > ring_data_size then (Inl EC_invalid_argument, r)
            else if bufsize < unat (psize 2) then (Inl EC_message_size, r)
            else
              let n = unat (psize 3); copied = map (\<lambda>j. m (4 + j) (unat head + 4 + j)) [0..<n] in
              (Inr (copied, unat (psize (4 + n))), r\<lparr>tr_head := wintun_ring_wrap (head + aligned)\<rparr>))"

text \<open>The call during which the ring does not change; the value returned is then the number of the bytes.\<close>

definition take_packet :: "nat \<Rightarrow> tun_ring \<Rightarrow> (error_code + byte list) \<times> tun_ring" where
  "take_packet bufsize r =
     (case take_packet_at (\<lambda>k. tr_data r) bufsize r of
        (Inl ec, r) \<Rightarrow> (Inl ec, r)
      | (Inr (copied, n), r) \<Rightarrow> (Inr copied, r))"

text \<open>\<open>Inr\<close> carries the packet; an empty one stands for the return value 0, be the ring empty or the packet.\<close>

definition recv_one :: "nat \<Rightarrow> 'a wintun_rings_scheme \<Rightarrow> (error_code + byte list) \<times> 'a wintun_rings_scheme" where
  "recv_one bufsize dev =
     (if \<not> wd_opened dev then (Inl EC_operation_aborted, dev)
      else case wd_recv_ring dev of
        None \<Rightarrow> (Inl EC_bad_descriptor, dev)
      | Some r \<Rightarrow> let (res, r) = take_packet bufsize r in (res, dev\<lparr>wd_recv_ring := Some r\<rparr>))"

text \<open>The ring is \<open>None\<close> where it is left alone.\<close>

definition put_packet :: "byte list \<Rightarrow> tun_ring \<Rightarrow> (error_code + nat) \<times> tun_ring option" where
  "put_packet buf r =
     (if length buf > WINTUN_MAX_IP_PACKET_SIZE then (Inl EC_message_size, None)
      else
        let head = tr_head r; tail = tr_tail r in
        if head \<ge> WINTUN_RING_CAPACITY \<or> tail \<ge> WINTUN_RING_CAPACITY then (Inl EC_invalid_argument, None)
        else
          let aligned = wintun_ring_packet_align (4 + of_nat (length buf)) in
          if unat (tail + aligned) > ring_data_size then (Inl EC_invalid_argument, None)
          else
            let avail = wintun_ring_wrap (head - tail - 4) in
            if aligned > avail then (Inr 0, None)
            else (Inr (length buf), Some
              (r\<lparr>tr_data := ring_store (ring_store (tr_data r) (unat tail) (st32 (of_nat (length buf)))) (unat tail + 4) buf,
                 tr_tail := wintun_ring_wrap (tail + aligned)\<rparr>)))"

definition send_try :: "byte list \<Rightarrow> 'a wintun_rings_scheme \<Rightarrow> (error_code + nat) \<times> 'a wintun_rings_scheme" where
  "send_try buf dev =
     (if \<not> wd_opened dev then (Inl EC_operation_aborted, dev)
      else case wd_send_ring dev of
        None \<Rightarrow> (Inl EC_bad_descriptor, dev)
      | Some r \<Rightarrow>
          (case put_packet buf r of
             (res, None) \<Rightarrow> (res, dev)
           | (res, Some r) \<Rightarrow>
               (res, dev\<lparr>wd_send_ring := Some r, wd_send_signals := wd_send_signals dev + (if tr_alertable r \<noteq> 0 then 1 else 0)\<rparr>)))"

section \<open>Positions\<close>

definition cap :: nat where "cap = 0x800000"

text \<open>The room a packet takes: its size, its bytes, and what aligns the next one.\<close>

definition plen :: "byte list \<Rightarrow> nat" where
  "plen p = (length p + 7) div 4 * 4"

lemma capacity_unat: "(w \<ge> WINTUN_RING_CAPACITY) = (unat w \<ge> cap)"
  by (simp add: WINTUN_RING_CAPACITY_def cap_def word_le_nat_alt)

lemma wrap_unat [simp]: "unat (wintun_ring_wrap v) = unat v mod cap"
proof -
  have "wintun_ring_wrap v = take_bit 23 v"
    by (simp add: wintun_ring_wrap_def WINTUN_RING_CAPACITY_def take_bit_eq_mask mask_eq_exp_minus_1)
  thus ?thesis by (simp add: take_bit_eq_mod unat_mod_distrib cap_def)
qed

lemma and_not_3: "unat (w AND NOT 3 :: u32) = unat w div 4 * 4"
proof -
  have "w AND NOT 3 = w AND NOT (mask 2)" by (simp add: mask_eq_exp_minus_1)
  also have "\<dots> = push_bit 2 (drop_bit 2 w)"
  proof (rule bit_word_eqI)
    fix n
    have "Suc (Suc (n - 2)) = n" if "2 \<le> n" using that by simp
    thus "bit (w AND NOT (mask 2)) n = bit (push_bit 2 (drop_bit 2 w)) n" if "n < LENGTH(32)"
      by (auto simp: bit_simps not_less)
  qed
  finally have "w AND NOT 3 = drop_bit 2 w * 4" by (simp add: push_bit_eq_mult)
  moreover have "unat (drop_bit 2 w) = unat w div 4" by (simp add: drop_bit_eq_div unat_div_distrib)
  moreover have "unat w div 4 * 4 < 2 ^ 32" using unat_u32_less [of w] by simp
  ultimately show ?thesis by (simp add: unat_word_ariths)
qed

lemma align_unat: "n \<le> 0xffff \<Longrightarrow> unat (wintun_ring_packet_align (4 + of_nat n)) = (n + 7) div 4 * 4"
proof -
  assume "n \<le> 0xffff"
  hence "unat (4 + of_nat n + 3 :: u32) = n + 7" by (simp add: unat_word_ariths unat_of_nat)
  thus ?thesis by (simp only: wintun_ring_packet_align_def and_not_3)
qed

lemma diff_wrap:
  assumes "unat (b :: u32) \<le> cap" shows "unat (a - b) mod cap = (unat a + (cap - unat b)) mod cap"
proof -
  have "a - b = of_nat (unat a + (2 ^ 32 - unat b))"
    using unat_u32_less [of b] by (simp add: of_nat_diff)
  hence "unat (a - b) = (unat a + (2 ^ 32 - unat b)) mod 2 ^ 32" by (simp only: unat_of_nat) simp
  hence "unat (a - b) mod cap = (unat a + (2 ^ 32 - unat b)) mod cap" by (simp add: mod_mod_cancel cap_def)
  also have "unat a + (2 ^ 32 - unat b) = unat a + (cap - unat b) + 511 * cap" using assms by (simp add: cap_def)
  finally show ?thesis by simp
qed

lemma plen_bounds: "length p + 4 \<le> plen p" "4 \<le> plen p" "length p \<le> 0xffff \<Longrightarrow> plen p \<le> 0x10004" "plen p mod 4 = 0"
  unfolding plen_def by (simp_all add: mult.commute)

lemma length_ring_bytes [simp]: "length (ring_bytes d i n) = n"
  by (simp add: ring_bytes_def)

lemma ring_bytes_cong: "(\<And>j. i \<le> j \<Longrightarrow> j < i + n \<Longrightarrow> d j = d' j) \<Longrightarrow> ring_bytes d i n = ring_bytes d' i n"
  by (simp add: ring_bytes_def)

lemma ring_bytes_store: "ring_bytes (ring_store d i xs) i (length xs) = xs"
  by (rule nth_equalityI) (simp_all add: ring_bytes_def ring_store_def)

lemma ring_store_outside: "j < i \<or> i + length xs \<le> j \<Longrightarrow> ring_store d i xs j = d j"
  by (auto simp: ring_store_def)

lemma packet_size_cong: "(\<And>j. i \<le> j \<Longrightarrow> j < i + 4 \<Longrightarrow> d j = d' j) \<Longrightarrow> packet_size d i = packet_size d' i"
  by (simp add: packet_size_def)

lemma packet_size_store: "packet_size (ring_store d i (st32 x)) i = x"
  by (simp add: packet_size_def ring_store_def st32_def le32_def)

section \<open>No access leaves the data array\<close>

lemma copied_bytes: "map (\<lambda>j. d (i + j)) [0..<n] = ring_bytes d i n"
  by (rule nth_equalityI) (simp_all add: ring_bytes_def)

text \<open>\<open>take_packet\<close>, written out.\<close>

lemma take_packet_unfold:
  "take_packet bufsize r =
     (let head = tr_head r; tail = tr_tail r in
      if head \<ge> WINTUN_RING_CAPACITY \<or> tail \<ge> WINTUN_RING_CAPACITY then (Inl EC_invalid_argument, r)
      else if head = tail then (Inr [], r)
      else
        let content_len = wintun_ring_wrap (tail - head) in
        if content_len < 4 then (Inl EC_invalid_argument, r)
        else
          let psize = packet_size (tr_data r) (unat head) in
          if unat psize > WINTUN_MAX_IP_PACKET_SIZE then (Inl EC_message_size, r)
          else
            let aligned = wintun_ring_packet_align (4 + psize) in
            if aligned > content_len then (Inl EC_invalid_argument, r)
            else if unat (head + aligned) > ring_data_size then (Inl EC_invalid_argument, r)
            else if bufsize < unat psize then (Inl EC_message_size, r)
            else (Inr (ring_bytes (tr_data r) (unat head + 4) (unat psize)), r\<lparr>tr_head := wintun_ring_wrap (head + aligned)\<rparr>))"
  by (simp add: take_packet_def take_packet_at_def Let_def copied_bytes)

text \<open>The driver leaves the size of the packet that is taken alone during the call.\<close>

definition size_stable :: "(nat \<Rightarrow> nat \<Rightarrow> byte) \<Rightarrow> tun_ring \<Rightarrow> bool" where
  "size_stable m r \<longleftrightarrow> (\<forall>k. packet_size (m k) (unat (tr_head r)) = packet_size (m 0) (unat (tr_head r)))"

lemma aligned_room:
  assumes "unat (tr_head r) < cap" "unat N \<le> 0xffff" "unat (tr_head r + wintun_ring_packet_align (4 + N)) \<le> ring_data_size"
  shows "unat (tr_head r) + 4 + unat N \<le> ring_data_size"
proof -
  have "unat (tr_head r + wintun_ring_packet_align (4 + N)) = unat (tr_head r) + (unat N + 7) div 4 * 4"
    using assms(1,2) align_unat [OF assms(2)] by (simp add: unat_word_ariths cap_def)
  thus ?thesis using assms(3) by simp
qed

text \<open>What \<open>take_packet_at\<close> has checked when it copies a packet.\<close>

lemma take_packet_at_room:
  assumes "size_stable m r" "take_packet_at m n r = (Inr (bs, sz), r')" "(bs, sz) \<noteq> ([], 0)"
  shows "unat (tr_head r) < cap" "sz = length bs" "length bs \<le> n" "unat (tr_head r) + 4 + length bs \<le> ring_data_size"
    "bs = map (\<lambda>j. m (4 + j) (unat (tr_head r) + 4 + j)) [0..<length bs]"
proof -
  let ?h = "unat (tr_head r)"
  obtain N where e: "packet_size (m k) ?h = N" for k using assms(1) unfolding size_stable_def by blast
  have c: "?h < cap" "unat N \<le> 0xffff" "unat (tr_head r + wintun_ring_packet_align (4 + N)) \<le> ring_data_size"
      "unat N \<le> n" "bs = map (\<lambda>j. m (4 + j) (?h + 4 + j)) [0..<unat N]" "sz = unat N"
    using assms(2,3) unfolding take_packet_at_def Let_def e
    by (auto simp: Let_def capacity_unat WINTUN_MAX_IP_PACKET_SIZE_def split: if_splits)
  have l: "length bs = unat N" by (simp add: c(5))
  thus "?h + 4 + length bs \<le> ring_data_size" using aligned_room [OF c(1-3)] by simp
  show "?h < cap" "sz = length bs" "length bs \<le> n" "bs = map (\<lambda>j. m (4 + j) (?h + 4 + j)) [0..<length bs]" using c l by simp_all
qed

lemma take_packet_at_local:
  assumes m: "size_stable m r" and d: "\<And>k j. j < ring_data_size \<Longrightarrow> m' k j = m k j"
  shows "take_packet_at m' n r = take_packet_at m n r"
proof (cases "unat (tr_head r) < cap")
  case True
  let ?h = "unat (tr_head r)"
  obtain N where e: "packet_size (m k) ?h = N" for k using m unfolding size_stable_def by blast
  have e': "packet_size (m' k) ?h = N" for k
    unfolding e [of k, symmetric] by (rule packet_size_cong) (use True in \<open>simp add: d cap_def ring_data_size_def\<close>)
  have copy: "map (\<lambda>j. m' (4 + j) (?h + 4 + j)) [0..<unat N] = map (\<lambda>j. m (4 + j) (?h + 4 + j)) [0..<unat N]"
    if "\<not> unat N > WINTUN_MAX_IP_PACKET_SIZE" "\<not> unat (tr_head r + wintun_ring_packet_align (4 + N)) > ring_data_size"
    using aligned_room [of r N] that True by (auto simp: WINTUN_MAX_IP_PACKET_SIZE_def intro!: d)
  show ?thesis unfolding take_packet_at_def Let_def e e' by (intro if_cong refl) (simp add: copy)
qed (simp add: take_packet_at_def capacity_unat)

lemma put_packet_local:
  assumes p: "put_packet buf r = (x, Some r')" and j: "ring_data_size \<le> j" shows "tr_data r' j = tr_data r j"
proof -
  have c: "length buf \<le> 0xffff" "unat (tr_tail r) < cap" "unat (tr_tail r + wintun_ring_packet_align (4 + of_nat (length buf))) \<le> ring_data_size"
    "tr_data r' = ring_store (ring_store (tr_data r) (unat (tr_tail r)) (st32 (of_nat (length buf)))) (unat (tr_tail r) + 4) buf"
    using p by (auto simp: put_packet_def Let_def capacity_unat WINTUN_MAX_IP_PACKET_SIZE_def split: if_splits)
  have "unat (tr_tail r + wintun_ring_packet_align (4 + of_nat (length buf))) = unat (tr_tail r) + plen buf"
    using c(1,2) align_unat [OF c(1)] by (simp add: unat_word_ariths cap_def plen_def)
  hence "unat (tr_tail r) + 4 + length buf \<le> j" using c(3) j plen_bounds(1) [of buf] by linarith
  thus ?thesis unfolding c(4) by (simp add: ring_store_outside)
qed

text \<open>
  C35. The accesses to the rings stay in bounds, whatever the rings hold. Taking a packet depends on the bytes of the
  data array only, never copies more than the caller's buffer holds and returns the number of bytes copied,
  while the driver changes the ring at any time and in any way but one: the four bytes of the size of the packet
  being taken must keep their value during the call, because the code reads them again after checking them. Putting a
  packet changes bytes of the data array only.
\<close>

theorem wintun_ring_in_bounds:
  assumes "size_stable m r" "\<And>k j. j < ring_data_size \<Longrightarrow> m' k j = m k j"
  shows "take_packet_at m' n r = take_packet_at m n r \<and>
    (\<forall>bs sz. fst (take_packet_at m n r) = Inr (bs, sz) \<longrightarrow> length bs \<le> n \<and> sz = length bs) \<and>
    (\<forall>r' j. snd (put_packet buf r) = Some r' \<and> ring_data_size \<le> j \<longrightarrow> tr_data r' j = tr_data r j)"
proof (intro conjI allI impI)
  show "take_packet_at m' n r = take_packet_at m n r" by (rule take_packet_at_local [OF assms])
  fix bs sz assume t: "fst (take_packet_at m n r) = Inr (bs, sz)"
  hence e: "take_packet_at m n r = (Inr (bs, sz), snd (take_packet_at m n r))" by (simp add: prod_eq_iff)
  show "length bs \<le> n" by (cases "(bs, sz) = ([], 0)") (use take_packet_at_room(3) [OF assms(1) e] in auto)
  show "sz = length bs" by (cases "(bs, sz) = ([], 0)") (use take_packet_at_room(2) [OF assms(1) e] in auto)
next
  fix r' j assume "snd (put_packet buf r) = Some r' \<and> ring_data_size \<le> j"
  thus "tr_data r' j = tr_data r j" using put_packet_local [of buf r "fst (put_packet buf r)" r' j] by (simp add: prod_eq_iff)
qed

text \<open>
  That condition is needed. Whenever there is a packet the code would take, a driver that changes only
  the four bytes of its size, only after the last check, makes the code copy more bytes than
  the buffer holds, and more than the data array has.
\<close>

theorem wintun_ring_size_race:
  assumes "take_packet n r = (Inr bs, r')" "tr_head r \<noteq> tr_tail r" "n < 2 ^ 32 - 1"
  shows "\<exists>m. (\<forall>k < 3. m k = tr_data r) \<and> (\<forall>k j. j < unat (tr_head r) \<or> unat (tr_head r) + 4 \<le> j \<longrightarrow> m k j = tr_data r j) \<and>
    (\<exists>copied sz. fst (take_packet_at m n r) = Inr (copied, sz) \<and> n < length copied \<and> ring_data_size < length copied)"
proof -
  let ?h = "unat (tr_head r)"
  define d where "d = ring_store (tr_data r) ?h (st32 0xffffffff)"
  define m where "m = (\<lambda>k :: nat. if k < 3 then tr_data r else d)"
  have p: "packet_size (m 0) ?h = packet_size (tr_data r) ?h" "packet_size (m (Suc 0)) ?h = packet_size (tr_data r) ?h"
    "packet_size (m 2) ?h = packet_size (tr_data r) ?h" "unat (packet_size (m 3) ?h) = 2 ^ 32 - 1"
    by (simp_all add: m_def d_def packet_size_store)
  have "\<exists>copied sz. fst (take_packet_at m n r) = Inr (copied, sz) \<and> length copied = 2 ^ 32 - 1"
    using assms(1,2) by (auto simp: take_packet_unfold take_packet_at_def Let_def p split: if_splits)
  moreover have "\<forall>k j. j < ?h \<or> ?h + 4 \<le> j \<longrightarrow> m k j = tr_data r j"
    by (auto simp: m_def d_def ring_store_outside)
  moreover have "\<forall>k < 3. m k = tr_data r" by (simp add: m_def)
  ultimately show ?thesis using assms(3) by (intro exI [of _ m]) (auto simp: ring_data_size_def)
qed

section \<open>A ring is a bounded queue\<close>

text \<open>The packets laid out from one position to another, each followed by the next at an aligned position.\<close>

fun holds :: "(nat \<Rightarrow> byte) \<Rightarrow> nat \<Rightarrow> nat \<Rightarrow> byte list list \<Rightarrow> bool" where
  "holds d h t [] \<longleftrightarrow> h = t"
| "holds d h t (p # ps) \<longleftrightarrow>
     length p \<le> 0xffff \<and> packet_size d h = of_nat (length p) \<and> ring_bytes d (h + 4) (length p) = p \<and> holds d ((h + plen p) mod cap) t ps"

definition used :: "byte list list \<Rightarrow> nat" where
  "used ps = sum_list (map plen ps)"

definition ring_ok :: "tun_ring \<Rightarrow> byte list list \<Rightarrow> bool" where
  "ring_ok r ps \<longleftrightarrow> unat (tr_head r) < cap \<and> unat (tr_head r) mod 4 = 0 \<and> used ps + 4 \<le> cap \<and>
     holds (tr_data r) (unat (tr_head r)) (unat (tr_tail r)) ps"

lemma used_simps [simp]: "used [] = 0" "used (p # ps) = plen p + used ps" "used (ps @ qs) = used ps + used qs"
  by (simp_all add: used_def)

lemma mod_cap_4: "n mod 4 = 0 \<Longrightarrow> (n mod cap) mod 4 = 0"
  by (simp add: mod_mod_cancel cap_def)

lemma cap_pos [simp]: "0 < cap" "n mod cap < cap"
  by (simp_all add: cap_def)

lemma holds_end: "holds d h t ps \<Longrightarrow> h < cap \<Longrightarrow> t = (h + used ps) mod cap"
proof (induction ps arbitrary: h)
  case (Cons p ps)
  have "t = ((h + plen p) mod cap + used ps) mod cap" using Cons by simp
  thus ?case by (simp add: mod_simps add.assoc)
qed simp

lemma used_mod_4 [simp]: "used ps mod 4 = 0"
  by (induction ps) (simp_all add: mod_add_eq [symmetric] plen_bounds)

lemma add_mod_inj:
  assumes "(h + x) mod c = (h + y) mod c" "x < c" "y < c" shows "x = (y :: nat)"
proof -
  have le: "u = v" if "u \<le> v" "v < c" "(h + v) mod c = (h + u) mod c" for u v
    using that mod_eq_dvd_iff_nat [of "h + u" "h + v" c] by (auto dest: dvd_imp_le)
  show ?thesis using le [of x y] le [of y x] assms by (cases "x \<le> y") auto
qed

text \<open>Bytes written behind the packets do not touch them: the positions differ modulo the capacity.\<close>

lemma holds_store:
  assumes "holds d h t ps" "h < cap" "used ps + k \<le> cap" "\<And>j. j < t \<or> t + k \<le> j \<Longrightarrow> d' j = d j"
  shows "holds d' h t ps"
  using assms(1-3)
proof (induction ps arbitrary: h)
  case (Cons p ps)
  have t: "t = (h + used (p # ps)) mod cap" using holds_end Cons.prems(1,2) by blast
  have same: "d j = d' j" if j: "h \<le> j" "j < h + plen p" for j
  proof (rule ccontr)
    assume "d j \<noteq> d' j"
    then obtain b where b: "j = t + b" "b < k" using assms(4) [of j] by (metis le_Suc_ex not_le nat_add_left_cancel_less)
    define a where "a = j - h"
    have "(h + a) mod cap = (h + (used (p # ps) + b)) mod cap" using b(1) j t by (simp add: a_def mod_simps add.assoc)
    hence "a = used (p # ps) + b"
      by (rule add_mod_inj) (use Cons.prems(3) b(2) j in \<open>auto simp: a_def\<close>)
    thus False using j by (simp add: a_def)
  qed
  have "packet_size d h = packet_size d' h" by (rule packet_size_cong, rule same) (use plen_bounds(2) [of p] in auto)
  moreover have "ring_bytes d (h + 4) (length p) = ring_bytes d' (h + 4) (length p)"
    by (rule ring_bytes_cong, rule same) (use plen_bounds(1) [of p] in auto)
  moreover have "holds d' ((h + plen p) mod cap) t ps" using Cons by simp
  ultimately show ?case using Cons.prems by simp
qed simp

lemma holds_append:
  "holds d h t ps \<Longrightarrow> length p \<le> 0xffff \<Longrightarrow> packet_size d t = of_nat (length p) \<Longrightarrow> ring_bytes d (t + 4) (length p) = p \<Longrightarrow>
   holds d h ((t + plen p) mod cap) (ps @ [p])"
  by (induction ps arbitrary: h) auto

lemma ring_ok_tail:
  assumes "ring_ok r ps"
  shows "unat (tr_tail r) = (unat (tr_head r) + used ps) mod cap" "unat (tr_tail r) < cap" "unat (tr_tail r) mod 4 = 0"
proof -
  show t: "unat (tr_tail r) = (unat (tr_head r) + used ps) mod cap" using assms holds_end unfolding ring_ok_def by blast
  have "unat (tr_head r) mod 4 = 0" using assms by (simp add: ring_ok_def)
  hence "(unat (tr_head r) + used ps) mod 4 = 0" using used_mod_4 [of ps] by presburger
  thus "unat (tr_tail r) < cap" "unat (tr_tail r) mod 4 = 0" by (simp_all add: t mod_cap_4)
qed

lemma ring_gap:
  assumes "h < cap" "n + 4 \<le> cap" "(h + n) mod cap + 4 \<le> cap"
  shows "(h + (cap - ((h + n) mod cap + 4))) mod cap = cap - 4 - n"
proof (cases "h + n < cap")
  case True
  hence "h + (cap - ((h + n) mod cap + 4)) = cap - 4 - n" using assms(2,3) by simp
  thus ?thesis by simp
next
  case False
  hence "(h + n) mod cap = h + n - cap" using assms(1,2) by (simp add: mod_if)
  hence "h + (cap - ((h + n) mod cap + 4)) = cap + (cap - 4 - n)" using False assms(2,3) by simp
  thus ?thesis by simp
qed

lemma ring_fill:
  assumes "h < cap" "n < cap" shows "((h + n) mod cap + (cap - h)) mod cap = n"
proof -
  have "((h + n) mod cap + (cap - h)) mod cap = (h + n + (cap - h)) mod cap" by (simp only: mod_add_left_eq)
  also have "h + n + (cap - h) = n + cap" using assms(1) by simp
  finally show ?thesis using assms(2) by simp
qed

lemma put_packet_queue:
  assumes r: "ring_ok r ps" and l: "length buf \<le> 0xffff"
  shows "if used ps + plen buf + 4 \<le> cap
    then \<exists>r'. put_packet buf r = (Inr (length buf), Some r') \<and> ring_ok r' (ps @ [buf]) \<and> tr_alertable r' = tr_alertable r
    else put_packet buf r = (Inr 0, None)"
proof -
  let ?h = "unat (tr_head r)" and ?t = "unat (tr_tail r)"
  note t = ring_ok_tail [OF r]
  have h: "?h < cap" "?h mod 4 = 0" "used ps + 4 \<le> cap" "holds (tr_data r) ?h ?t ps" using r by (simp_all add: ring_ok_def)
  have t4: "?t + 4 \<le> cap" using t(2,3) by (simp add: cap_def) presburger
  hence room: "?t + plen buf \<le> ring_data_size" using plen_bounds(3) [OF l] by (simp add: cap_def ring_data_size_def)
  have al: "unat (wintun_ring_packet_align (4 + of_nat (length buf))) = plen buf" using align_unat [OF l] by (simp add: plen_def)
  have sum: "unat (tr_tail r + wintun_ring_packet_align (4 + of_nat (length buf))) = ?t + plen buf"
    using al room by (simp add: unat_word_ariths ring_data_size_def)
  have "unat (tr_tail r + 4) = ?t + 4" using t4 by (simp add: unat_word_ariths cap_def)
  hence "unat (tr_head r - (tr_tail r + 4)) mod cap = (?h + (cap - (?t + 4))) mod cap" using diff_wrap [of "tr_tail r + 4" "tr_head r"] t4 by simp
  also have "\<dots> = cap - 4 - used ps" using t(1) h(1,3) t4 ring_gap [of ?h "used ps"] by simp
  finally have avail: "unat (wintun_ring_wrap (tr_head r - tr_tail r - 4)) = cap - 4 - used ps" by (simp add: diff_diff_eq)
  show ?thesis
  proof (cases "used ps + plen buf + 4 \<le> cap")
    case True
    define d' where "d' = ring_store (ring_store (tr_data r) ?t (st32 (of_nat (length buf)))) (?t + 4) buf"
    have out: "d' j = tr_data r j" if "j < ?t \<or> ?t + plen buf \<le> j" for j
      using that plen_bounds(1) [of buf] by (auto simp: d'_def ring_store_outside)
    have "holds d' ?h ?t ps" by (rule holds_store [OF h(4,1), where k = "plen buf"]) (use True out in auto)
    moreover have "packet_size d' ?t = of_nat (length buf)"
      unfolding d'_def by (subst packet_size_cong [where d' = "ring_store (tr_data r) ?t (st32 (of_nat (length buf)))"])
        (simp_all add: ring_store_outside packet_size_store)
    moreover have "ring_bytes d' (?t + 4) (length buf) = buf" by (simp add: d'_def ring_bytes_store)
    ultimately have "holds d' ?h ((?t + plen buf) mod cap) (ps @ [buf])" using l by (intro holds_append)
    hence "ring_ok (r\<lparr>tr_data := d', tr_tail := wintun_ring_wrap (tr_tail r + wintun_ring_packet_align (4 + of_nat (length buf)))\<rparr>) (ps @ [buf])"
      using h True sum by (simp add: ring_ok_def)
    moreover have "put_packet buf r = (Inr (length buf),
        Some (r\<lparr>tr_data := d', tr_tail := wintun_ring_wrap (tr_tail r + wintun_ring_packet_align (4 + of_nat (length buf)))\<rparr>))"
      using l h t True room sum al avail
      by (simp add: put_packet_def Let_def capacity_unat WINTUN_MAX_IP_PACKET_SIZE_def d'_def not_le not_less word_less_nat_alt)
    ultimately show ?thesis using True by auto
  next
    case False
    thus ?thesis using l h t room sum al avail
      by (simp add: put_packet_def Let_def capacity_unat WINTUN_MAX_IP_PACKET_SIZE_def not_le not_less word_less_nat_alt)
  qed
qed

lemma take_packet_queue:
  assumes r: "ring_ok r ps"
  shows "case ps of
      [] \<Rightarrow> take_packet n r = (Inr [], r)
    | p # ps' \<Rightarrow> if length p \<le> n then \<exists>r'. take_packet n r = (Inr p, r') \<and> ring_ok r' ps' else take_packet n r = (Inl EC_message_size, r)"
proof -
  let ?h = "unat (tr_head r)" and ?t = "unat (tr_tail r)"
  note t = ring_ok_tail [OF r]
  have h: "?h < cap" "?h mod 4 = 0" "used ps + 4 \<le> cap" "holds (tr_data r) ?h ?t ps" using r by (simp_all add: ring_ok_def)
  have "unat (tr_tail r - tr_head r) mod cap = (?t + (cap - ?h)) mod cap" using diff_wrap [of "tr_head r" "tr_tail r"] h(1) by simp
  also have "\<dots> = used ps" unfolding t(1) by (rule ring_fill) (use h in auto)
  finally have content: "unat (wintun_ring_wrap (tr_tail r - tr_head r)) = used ps" by simp
  have ne: "tr_head r = tr_tail r \<longleftrightarrow> used ps = 0"
  proof
    assume "tr_head r = tr_tail r"
    hence "unat (wintun_ring_wrap (tr_tail r - tr_head r)) = 0" by (simp del: wrap_unat) (simp add: wintun_ring_wrap_def)
    thus "used ps = 0" using content by simp
  next
    assume "used ps = 0"
    thus "tr_head r = tr_tail r" using t(1) h(1) by (simp add: word_unat_eq_iff)
  qed
  show ?thesis
  proof (cases ps)
    case Nil
    hence "tr_head r = tr_tail r" using ne by simp
    thus ?thesis using Nil h(1) by (simp add: take_packet_unfold capacity_unat not_le)
  next
    case (Cons p ps')
    have p: "length p \<le> 0xffff" "packet_size (tr_data r) ?h = of_nat (length p)" "ring_bytes (tr_data r) (?h + 4) (length p) = p"
        "holds (tr_data r) ((?h + plen p) mod cap) ?t ps'" "used ps = plen p + used ps'"
      using h(4) Cons by simp_all
    have al: "unat (wintun_ring_packet_align (4 + of_nat (length p))) = plen p" using align_unat [OF p(1)] by (simp add: plen_def)
    have "?h + 4 \<le> cap" using h(1,2) by (simp add: cap_def) presburger
    hence room: "?h + plen p \<le> ring_data_size" using plen_bounds(3) [OF p(1)] by (simp add: cap_def ring_data_size_def)
    have sum: "unat (tr_head r + wintun_ring_packet_align (4 + of_nat (length p))) = ?h + plen p"
      using al room by (simp add: unat_word_ariths ring_data_size_def)
    have sz: "unat (of_nat (length p) :: u32) = length p" using p(1) by (simp add: unat_of_nat)
    have "take_packet n r = (if length p \<le> n then (Inr p, r\<lparr>tr_head := wintun_ring_wrap (tr_head r + wintun_ring_packet_align (4 + of_nat (length p)))\<rparr>)
        else (Inl EC_message_size, r))"
      using h(1,2,3) t(2,3) p sz al sum room ne content plen_bounds(2) [of p]
      by (simp add: take_packet_unfold Let_def capacity_unat WINTUN_MAX_IP_PACKET_SIZE_def not_le not_less word_less_nat_alt)
    moreover have "ring_ok (r\<lparr>tr_head := wintun_ring_wrap (tr_head r + wintun_ring_packet_align (4 + of_nat (length p)))\<rparr>) ps'"
    proof -
      have "(?h + plen p) mod 4 = 0" using h(2) plen_bounds(4) [of p] by presburger
      thus ?thesis using h(3) p sum by (simp add: ring_ok_def mod_cap_4)
    qed
    ultimately show ?thesis using Cons by simp
  qed
qed

text \<open>
  C34. The rings implement bounded queues of packets. Sending appends the packet, exactly, if its aligned
  length fits the free space less four bytes; otherwise it returns 0 and changes nothing. Receiving
  removes the oldest packet, exactly, and returns 0 when there is none; a packet too long for the buffer
  stays where it is and is reported. In particular packets keep their order, their bytes and their
  boundaries, also those that run past the end of the ring into the trailing bytes.
\<close>

theorem wintun_ring_refines_queue:
  assumes "ring_ok r ps" "ring_ok r2 ps2" "wd_opened dev" "wd_send_ring dev = Some r" "wd_recv_ring dev = Some r2"
  shows "(if length buf > 0xffff then send_try buf dev = (Inl EC_message_size, dev)
      else if used ps + plen buf + 4 \<le> cap
      then \<exists>r'. fst (send_try buf dev) = Inr (length buf) \<and> wd_send_ring (snd (send_try buf dev)) = Some r' \<and> ring_ok r' (ps @ [buf])
      else send_try buf dev = (Inr 0, dev)) \<and>
    (case ps2 of
       [] \<Rightarrow> fst (recv_one n dev) = Inr [] \<and> wd_recv_ring (snd (recv_one n dev)) = Some r2
     | p # ps' \<Rightarrow>
         if length p \<le> n then \<exists>r'. fst (recv_one n dev) = Inr p \<and> wd_recv_ring (snd (recv_one n dev)) = Some r' \<and> ring_ok r' ps'
         else fst (recv_one n dev) = Inl EC_message_size \<and> wd_recv_ring (snd (recv_one n dev)) = Some r2)"
proof (rule conjI)
  show "if length buf > 0xffff then send_try buf dev = (Inl EC_message_size, dev)
      else if used ps + plen buf + 4 \<le> cap
      then \<exists>r'. fst (send_try buf dev) = Inr (length buf) \<and> wd_send_ring (snd (send_try buf dev)) = Some r' \<and> ring_ok r' (ps @ [buf])
      else send_try buf dev = (Inr 0, dev)"
  proof (cases "length buf \<le> 0xffff")
    case True
    thus ?thesis using put_packet_queue [OF assms(1) True] assms(3,4) by (auto simp: send_try_def split: if_splits)
  next
    case False
    thus ?thesis using assms(3,4) by (simp add: send_try_def put_packet_def WINTUN_MAX_IP_PACKET_SIZE_def)
  qed
  show "case ps2 of
       [] \<Rightarrow> fst (recv_one n dev) = Inr [] \<and> wd_recv_ring (snd (recv_one n dev)) = Some r2
     | p # ps' \<Rightarrow>
         if length p \<le> n then \<exists>r'. fst (recv_one n dev) = Inr p \<and> wd_recv_ring (snd (recv_one n dev)) = Some r' \<and> ring_ok r' ps'
         else fst (recv_one n dev) = Inl EC_message_size \<and> wd_recv_ring (snd (recv_one n dev)) = Some r2"
    using take_packet_queue [OF assms(2), of n] assms(3,5) by (cases ps2) (auto simp: recv_one_def)
qed

text \<open>A pair of empty rings whose positions are four bytes before the end: the next packet runs past it.\<close>

definition sample_ring :: tun_ring where
  "sample_ring = \<lparr>tr_head = 0x7ffffc, tr_tail = 0x7ffffc, tr_alertable = 1, tr_data = (\<lambda>_. 0)\<rparr>"

definition sample_rings :: wintun_rings where
  "sample_rings = \<lparr>wd_opened = True, wd_send_ring = Some sample_ring, wd_recv_ring = Some sample_ring, wd_send_signals = 0\<rparr>"

lemma sample_ring_ok: "ring_ok sample_ring []"
  by (simp add: ring_ok_def sample_ring_def cap_def)

theorem wintun_ring_refines_queue_witness:
  "fst (send_try [1, 2, 3] sample_rings) = Inr 3 \<and> fst (recv_one 10 sample_rings) = Inr []"
  using wintun_ring_refines_queue [OF sample_ring_ok sample_ring_ok, of sample_rings "[1, 2, 3]" 10]
  by (auto simp: sample_rings_def plen_def cap_def)

text \<open>A ring that holds one packet of one byte; the driver turns its bytes over from one access to the next.\<close>

definition sample_filled :: tun_ring where
  "sample_filled = \<lparr>tr_head = 0, tr_tail = 8, tr_alertable = 0, tr_data = (\<lambda>j. if j = 0 then 1 else 0)\<rparr>"

definition sample_memory :: "nat \<Rightarrow> nat \<Rightarrow> byte" where
  "sample_memory k j = (if j < 4 then tr_data sample_filled j else of_nat (k + j))"

lemma sample_size: "le32 1 0 0 0 = 1"
  by (simp add: le32_def be32_def)

theorem wintun_ring_in_bounds_witness:
  "fst (take_packet_at (\<lambda>k j. if j < ring_data_size then sample_memory k j else 7) 10 sample_filled) = Inr ([8], 1)"
proof -
  have s: "size_stable sample_memory sample_filled"
    by (simp add: size_stable_def sample_memory_def packet_size_def sample_filled_def)
  have "unat (wintun_ring_packet_align (4 + 1)) = 8" using align_unat [of 1] by simp
  hence a: "wintun_ring_packet_align 5 = 8" by (simp add: word_unat_eq_iff)
  have w: "wintun_ring_wrap 8 = 8" by (simp add: word_unat_eq_iff cap_def)
  have "fst (take_packet_at sample_memory 10 sample_filled) = Inr ([8], 1)"
    by (simp add: take_packet_at_def Let_def sample_memory_def sample_filled_def packet_size_def sample_size a w capacity_unat cap_def
        WINTUN_MAX_IP_PACKET_SIZE_def ring_data_size_def)
  thus ?thesis
    using wintun_ring_in_bounds [OF s, of "\<lambda>k j. if j < ring_data_size then sample_memory k j else 7" 10 "[]"] by simp
qed

theorem wintun_ring_size_race_witness:
  "\<exists>m. (\<exists>copied sz. fst (take_packet_at m 10 sample_filled) = Inr (copied, sz) \<and> 10 < length copied)"
proof -
  have "ring_ok sample_filled [[0]]"
    by (simp add: ring_ok_def sample_filled_def cap_def plen_def packet_size_def sample_size ring_bytes_def)
  then obtain r' where "take_packet 10 sample_filled = (Inr [0], r')" using take_packet_queue [of sample_filled "[[0]]" 10] by auto
  moreover have "tr_head sample_filled \<noteq> tr_tail sample_filled" by (simp add: sample_filled_def)
  ultimately show ?thesis using wintun_ring_size_race [of 10 sample_filled "[0]" r'] by auto
qed

section \<open>Packets in order\<close>

text \<open>
  A ring that one side writes as \<^verbatim>\<open>send_try\<close> does and the other reads as \<^verbatim>\<open>recv_one\<close> does:
  \<open>rr_put\<close> lists the packets accepted, \<open>rr_taken\<close> those read.
\<close>

datatype ring_event = Ring_put "byte list" | Ring_take nat

record ring_run =
  rr_ring :: tun_ring
  rr_put :: "byte list list"
  rr_taken :: "byte list list"

fun ring_step :: "ring_event \<Rightarrow> ring_run \<Rightarrow> ring_run" where
  "ring_step (Ring_put p) s =
     (case put_packet p (rr_ring s) of
        (Inr n, Some r) \<Rightarrow> s\<lparr>rr_ring := r, rr_put := rr_put s @ [p]\<rparr>
      | _ \<Rightarrow> s)"
| "ring_step (Ring_take n) s =
     (if tr_head (rr_ring s) = tr_tail (rr_ring s) then s
      else case take_packet n (rr_ring s) of
        (Inr p, r) \<Rightarrow> s\<lparr>rr_ring := r, rr_taken := rr_taken s @ [p]\<rparr>
      | _ \<Rightarrow> s)"

definition ring_waiting :: "ring_run \<Rightarrow> byte list list" where
  "ring_waiting s = drop (length (rr_taken s)) (rr_put s)"

definition ring_run_inv :: "ring_run \<Rightarrow> bool" where
  "ring_run_inv s \<longleftrightarrow> ring_ok (rr_ring s) (ring_waiting s) \<and> rr_taken s = take (length (rr_taken s)) (rr_put s)"

fun ring_arrives :: "ring_event \<Rightarrow> ring_run \<Rightarrow> byte list list" where
  "ring_arrives (Ring_put p) s = (case put_packet p (rr_ring s) of (Inr n, Some r) \<Rightarrow> [p] | _ \<Rightarrow> [])"
| "ring_arrives (Ring_take n) s = []"

lemma ring_empty: "ring_ok r ps \<Longrightarrow> tr_head r = tr_tail r \<longleftrightarrow> ps = []"
proof -
  assume r: "ring_ok r ps"
  hence e: "unat (tr_tail r) = (unat (tr_head r) + used ps) mod cap" and u: "used ps < cap" "unat (tr_head r) < cap"
    using holds_end by (auto simp: ring_ok_def)
  have "used ps = 0 \<longleftrightarrow> ps = []" using plen_bounds(2) [of "hd ps"] by (cases ps) auto
  moreover have "(unat (tr_head r) + used ps) mod cap = unat (tr_head r) \<longleftrightarrow> used ps = 0"
    using u by (auto simp: mod_if)
  ultimately show ?thesis using e by (metis word_unat_eq_iff)
qed

lemma ring_put_cases:
  assumes "ring_ok r ps"
  obtains r' where "put_packet p r = (Inr (length p), Some r')" "ring_ok r' (ps @ [p])" | x where "put_packet p r = (x, None)"
proof (cases "length p \<le> 0xffff")
  case True
  thus ?thesis using put_packet_queue [OF assms True] that by (auto split: if_splits)
next
  case False
  thus ?thesis using that(2) by (simp add: put_packet_def WINTUN_MAX_IP_PACKET_SIZE_def)
qed

lemma ring_step_law:
  assumes "ring_run_inv s"
  shows "ring_run_inv (ring_step ev s) \<and>
    rr_taken (ring_step ev s) @ ring_waiting (ring_step ev s) = rr_taken s @ ring_waiting s @ ring_arrives ev s"
proof (cases ev)
  case (Ring_put p)
  have le: "length (rr_taken s) \<le> length (rr_put s)" using assms unfolding ring_run_inv_def by (metis length_take min.cobounded1)
  from assms have "ring_ok (rr_ring s) (ring_waiting s)" by (simp add: ring_run_inv_def)
  thus ?thesis
  proof (cases rule: ring_put_cases [where p = p])
    case (1 r')
    thus ?thesis using assms le Ring_put by (simp add: ring_run_inv_def ring_waiting_def)
  next
    case (2 x)
    thus ?thesis using assms Ring_put by (cases x) simp_all
  qed
next
  case (Ring_take n)
  show ?thesis
  proof (cases "ring_waiting s")
    case Nil
    thus ?thesis using assms Ring_take ring_empty [of "rr_ring s" "[]"] by (simp add: ring_run_inv_def)
  next
    case (Cons p ps)
    hence r: "ring_ok (rr_ring s) (p # ps)" using assms by (simp add: ring_run_inv_def)
    hence ne: "tr_head (rr_ring s) \<noteq> tr_tail (rr_ring s)" using ring_empty by blast
    have k: "drop (Suc (length (rr_taken s))) (rr_put s) = ps" "take (Suc (length (rr_taken s))) (rr_put s) = rr_taken s @ [p]"
      using Cons assms unfolding ring_waiting_def ring_run_inv_def
      by (metis drop_Suc list.sel(3) tl_drop, metis drop_eq_Nil hd_drop_conv_nth leI list.distinct(1) list.sel(1) take_Suc_conv_app_nth)
    show ?thesis using take_packet_queue [OF r, of n] ne k Ring_take assms Cons
      by (auto simp: ring_run_inv_def ring_waiting_def split: if_splits)
  qed
qed

interpretation ring_chain: in_order_channel ring_run_inv ring_step "\<lambda>_. True" ring_arrives rr_taken ring_waiting
  by unfold_locales (simp_all add: ring_step_law)

text \<open>
  Packets pass a ring in order. From an empty ring, wherever its head stands, after any sequence of writes
  and reads, the packets read, followed by those still in the ring, are exactly the packets accepted, in order.
\<close>

theorem wintun_packets_in_order:
  assumes "ring_ok r []" "s = fold ring_step evs \<lparr>rr_ring = r, rr_put = [], rr_taken = []\<rparr>"
  shows "rr_taken s @ ring_waiting s = observe ring_arrives ring_step evs \<lparr>rr_ring = r, rr_put = [], rr_taken = []\<rparr> \<and>
    ring_ok (rr_ring s) (ring_waiting s)"
proof -
  have i: "ring_run_inv \<lparr>rr_ring = r, rr_put = [], rr_taken = []\<rparr>" using assms(1) by (simp add: ring_run_inv_def ring_waiting_def)
  have "ring_run_inv (fold ring_step evs x)" if "ring_run_inv x" for x
    using that by (induction evs arbitrary: x) (simp_all add: ring_step_law)
  thus ?thesis using ring_chain.run_order [OF i, of evs] i assms(2) by (simp add: list_all_iff ring_run_inv_def) (simp add: ring_waiting_def)
qed

theorem wintun_packets_in_order_witness:
  "\<exists>r. ring_ok r [] \<and> rr_taken (fold ring_step [Ring_put [1, 2], Ring_put [3], Ring_take 9] \<lparr>rr_ring = r, rr_put = [], rr_taken = []\<rparr>) @
      ring_waiting (fold ring_step [Ring_put [1, 2], Ring_put [3], Ring_take 9] \<lparr>rr_ring = r, rr_put = [], rr_taken = []\<rparr>) =
    observe ring_arrives ring_step [Ring_put [1, 2], Ring_put [3], Ring_take 9] \<lparr>rr_ring = r, rr_put = [], rr_taken = []\<rparr>"
  using wintun_packets_in_order [OF sample_ring_ok refl] sample_ring_ok by blast

end
