(* ===== verification/Windows_Api.thy ===== *)
theory Windows_Api
  imports Queue_Writer "HOL-Library.Multiset"
begin

text \<open>
  The Windows interface the two Windows backends call, as a parameter: whether a call succeeds may depend
  on all calls made before. The handles, views and adapters of the process are counted, so that a handle
  that is leaked, given back twice or taken from its owner shows.
\<close>

section \<open>Calls\<close>

datatype tap_request =
    Tap_get_version | Tap_config_tun "32 word" "32 word" "32 word" | Tap_get_mtu
  | Tap_dhcp_masq "32 word" "32 word" "32 word" "32 word" | Tap_media_status bool

datatype win_call =
    Create_file string | Tap_ioctl nat tap_request | Assign_handle nat | Adapter_index string
  | Create_adapter | Open_adapter | Open_wintun_device | Create_mapping | Map_view | Create_event
  | Register_rings | Luid_to_index | Get_interface bool | Set_interface bool nat | Close_adapter nat | Close_handle nat | Unmap_view nat

text \<open>
  What the registry says of network adapters: per adapter its identifiers, where they can be read, and per
  connection the name (strings already converted to UTF-8).
\<close>

record reg_unit =
  ru_component_id :: "string option"
  ru_matching_id :: "string option"
  ru_instance_id :: "string option"
  ru_desc :: "string option"

record registry =
  rg_units :: "reg_unit option list option"
  rg_conns :: "(string \<times> string option option) list option"

text \<open>Which calls fail, the error then, the drivers' answers, the parser of addresses, and the registry.\<close>

record windows =
  w_fails :: "win_call list \<Rightarrow> win_call \<Rightarrow> bool"
  w_last_error :: "win_call list \<Rightarrow> nat"
  w_load_error :: nat
  w_wide_empty :: "string \<Rightarrow> bool"
  w_driver_mtu :: "win_call list \<Rightarrow> nat"
  w_pton4 :: "string \<Rightarrow> 32 word option"
  w_registry :: registry

text \<open>The handles, views and adapters the process holds, and whether one was given back that was not held.\<close>

record win_os =
  wo_open :: "nat multiset"
  wo_next :: nat
  wo_bad_close :: bool
  wo_trace :: "win_call list"

definition win_new :: "windows \<Rightarrow> win_call \<Rightarrow> win_os \<Rightarrow> nat option \<times> win_os" where
  "win_new w c os =
     (if w_fails w (wo_trace os) c then (None, os\<lparr>wo_trace := wo_trace os @ [c]\<rparr>)
      else (Some (wo_next os), os\<lparr>wo_open := add_mset (wo_next os) (wo_open os), wo_next := wo_next os + 1, wo_trace := wo_trace os @ [c]\<rparr>))"

definition win_do :: "windows \<Rightarrow> win_call \<Rightarrow> win_os \<Rightarrow> bool \<times> win_os" where
  "win_do w c os = (\<not> w_fails w (wo_trace os) c, os\<lparr>wo_trace := wo_trace os @ [c]\<rparr>)"

definition win_release :: "(nat \<Rightarrow> win_call) \<Rightarrow> nat option \<Rightarrow> win_os \<Rightarrow> win_os" where
  "win_release c h os =
     (case h of
        None \<Rightarrow> os
      | Some n \<Rightarrow> os\<lparr>wo_open := wo_open os - {#n#}, wo_bad_close := (wo_bad_close os \<or> n \<notin># wo_open os), wo_trace := wo_trace os @ [c n]\<rparr>)"

definition win_last_error :: "windows \<Rightarrow> win_os \<Rightarrow> error_code" where
  "win_last_error w os = EC_other (w_last_error w (wo_trace os))"

text \<open>Best effort: the interface of each family is read and written back with the new value (IPv6 needs 1280).\<close>

definition set_mtu_for_family :: "windows \<Rightarrow> bool \<Rightarrow> nat \<Rightarrow> win_os \<Rightarrow> win_os" where
  "set_mtu_for_family w v6 v os =
     (let (okay, os) = win_do w (Get_interface v6) os in if okay then snd (win_do w (Set_interface v6 v) os) else os)"

section \<open>Ownership\<close>

definition opt :: "nat option \<Rightarrow> nat multiset" where
  "opt h = (case h of None \<Rightarrow> {#} | Some n \<Rightarrow> {#n#})"

text \<open>All that is open is either held (\<open>H\<close>, by a device) or somebody else's (\<open>F\<close>); nothing is in two hands.\<close>

definition win_sane :: "win_os \<Rightarrow> bool" where
  "win_sane os \<longleftrightarrow> \<not> wo_bad_close os \<and> (\<forall>h\<in>#wo_open os. h < wo_next os) \<and> (\<forall>h. count (wo_open os) h \<le> 1)"

definition owns :: "nat multiset \<Rightarrow> nat multiset \<Rightarrow> win_os \<Rightarrow> bool" where
  "owns H F os \<longleftrightarrow> win_sane os \<and> wo_open os = H + F"

lemma opt_simps [simp]: "opt None = {#}" "opt (Some n) = {#n#}"
  by (simp_all add: opt_def)

lemma owns_new: "owns H F os \<Longrightarrow> win_new w c os = (a, os') \<Longrightarrow> owns (H + opt a) F os'"
proof -
  assume o: "owns H F os" and n: "win_new w c os = (a, os')"
  have "count (wo_open os) (wo_next os) = 0" using o by (auto simp: owns_def win_sane_def count_eq_zero_iff)
  thus ?thesis using o n by (auto simp: owns_def win_sane_def win_new_def less_Suc_eq split: if_splits)
qed

lemma owns_do: "owns H F os \<Longrightarrow> win_do w c os = (b, os') \<Longrightarrow> owns H F os'"
  by (auto simp: owns_def win_sane_def win_do_def)

lemma owns_release: "owns (opt h + H) F os \<Longrightarrow> owns H F (win_release c h os)"
proof (cases h)
  case (Some n)
  assume o: "owns (opt h + H) F os"
  hence e: "wo_open os = add_mset n (H + F)" and s: "win_sane os" by (simp_all add: owns_def Some)
  have "count (H + F) m \<le> 1" for m using s e by (metis win_sane_def count_add_mset le_SucI le_trans nat_le_linear not_less_eq_eq)
  thus ?thesis using e s by (auto simp: owns_def win_sane_def win_release_def Some)
qed (simp add: owns_def win_release_def)

lemma release_None [simp]: "win_release c None os = os"
  by (simp add: win_release_def)

lemma owns_pair:
  assumes "owns H F os" "win_new w c os = (a, os1)" "win_new w c' os1 = (b, os2)" shows "owns (H + opt a + opt b) F os2"
  using owns_new [OF owns_new [OF assms(1,2)] assms(3)] by simp

end
