(* ===== verification/Wintun_Device.thy ===== *)
theory Wintun_Device
  imports Wintun_Ring Windows_Api
begin

text \<open>
  The device on top of the Wintun driver (\<^verbatim>\<open>src/tun_device_wintun.cpp\<close>,
  \<^verbatim>\<open>include/tunio/detail/impl/tun_device_wintun.hpp\<close>): opening an adapter, taking over a device handle,
  closing, and reading and writing by polling the rings on a strand with one timer for each direction.
  What is read back from the registry to find the device of an adapter is the outcome of one call of the
  Windows interface.
\<close>

section \<open>The device\<close>

text \<open>Work queued on the strand: a poll, or the end of a wait on a timer.\<close>

datatype wt_task =
    Task_recv nat nat
  | Task_recv_waited error_code nat nat
  | Task_send nat "byte list"
  | Task_send_waited error_code nat "byte list"

datatype wt_done = Read_done nat error_code "byte list" | Write_done nat error_code nat

record wintun_tun_device = wintun_rings +
  wt_adapter :: "nat option"
  wt_dev_handle :: "nat option"
  wt_send_ring_fh :: "nat option"
  wt_recv_ring_fh :: "nat option"
  wt_send_evt :: "nat option"
  wt_recv_evt :: "nat option"
  wt_send_view :: "nat option"
  wt_recv_view :: "nat option"
  wt_mtu :: nat
  wt_tasks :: "wt_task list"
  wt_recv_timer :: "(nat \<times> nat) list"
  wt_send_timer :: "(nat \<times> byte list) list"
  wt_done :: "wt_done list"

definition wintun_tun_device_new :: wintun_tun_device where
  "wintun_tun_device_new =
     \<lparr>wd_opened = False, wd_send_ring = None, wd_recv_ring = None, wd_send_signals = 0,
      wt_adapter = None, wt_dev_handle = None, wt_send_ring_fh = None, wt_recv_ring_fh = None, wt_send_evt = None, wt_recv_evt = None,
      wt_send_view = None, wt_recv_view = None, wt_mtu = 1500, wt_tasks = [], wt_recv_timer = [], wt_send_timer = [], wt_done = []\<rparr>"

text \<open>Cancelling a timer, or giving it a new expiry, ends the waits on it with an error.\<close>

definition cancel_recv_timer :: "wintun_tun_device \<Rightarrow> wintun_tun_device" where
  "cancel_recv_timer d = d\<lparr>wt_tasks := wt_tasks d @ map (\<lambda>(h, n). Task_recv_waited EC_operation_aborted h n) (wt_recv_timer d), wt_recv_timer := []\<rparr>"

definition cancel_send_timer :: "wintun_tun_device \<Rightarrow> wintun_tun_device" where
  "cancel_send_timer d = d\<lparr>wt_tasks := wt_tasks d @ map (\<lambda>(h, b). Task_send_waited EC_operation_aborted h b) (wt_send_timer d), wt_send_timer := []\<rparr>"

definition cleanup_rings :: "wintun_tun_device \<Rightarrow> win_os \<Rightarrow> wintun_tun_device \<times> win_os" where
  "cleanup_rings d os =
     (let os = win_release Unmap_view (wt_send_view d) os;
          os = win_release Unmap_view (wt_recv_view d) os;
          os = win_release Close_handle (wt_send_evt d) os;
          os = win_release Close_handle (wt_recv_evt d) os;
          os = win_release Close_handle (wt_send_ring_fh d) os;
          os = win_release Close_handle (wt_recv_ring_fh d) os
      in (d\<lparr>wd_send_ring := None, wd_recv_ring := None, wt_send_view := None, wt_recv_view := None, wt_send_evt := None, wt_recv_evt := None,
            wt_send_ring_fh := None, wt_recv_ring_fh := None\<rparr>, os))"

definition wt_close :: "wintun_tun_device \<Rightarrow> win_os \<Rightarrow> wintun_tun_device \<times> win_os" where
  "wt_close d os =
     (if \<not> wd_opened d then (d, os)
      else
        let d = cancel_send_timer (cancel_recv_timer (d\<lparr>wd_opened := False\<rparr>));
            os = win_release Close_handle (wt_dev_handle d) os; d = d\<lparr>wt_dev_handle := None\<rparr>;
            (d, os) = cleanup_rings d os
        in (d\<lparr>wt_adapter := None\<rparr>, win_release Close_adapter (wt_adapter d) os))"

section \<open>Opening\<close>

text \<open>Mapping the rings, creating the events and registering them with the driver; both of a pair are tried.\<close>

definition wt_map_rings :: "windows \<Rightarrow> wintun_tun_device \<Rightarrow> win_os \<Rightarrow> bool \<times> wintun_tun_device \<times> win_os" where
  "wt_map_rings w d os =
     (let (a, os) = win_new w Create_mapping os; (b, os) = win_new w Create_mapping os;
          d = d\<lparr>wt_send_ring_fh := a, wt_recv_ring_fh := b\<rparr>
      in if a = None \<or> b = None then (False, d, os)
         else
           let (a, os) = win_new w Map_view os; (b, os) = win_new w Map_view os;
               d = d\<lparr>wt_send_view := a, wt_recv_view := b\<rparr>
           in if a = None \<or> b = None then (False, d, os)
              else
                let (a, os) = win_new w Create_event os; (b, os) = win_new w Create_event os;
                    d = d\<lparr>wt_send_evt := a, wt_recv_evt := b\<rparr>
                in if a = None \<or> b = None then (False, d, os)
                   else let (okay, os) = win_do w Register_rings os in (okay, d, os))"

definition fresh_ring :: "tun_ring" where
  "fresh_ring = \<lparr>tr_head = 0, tr_tail = 0, tr_alertable = 1, tr_data = (\<lambda>_. 0)\<rparr>"

definition wt_start :: "nat \<Rightarrow> wintun_tun_device \<Rightarrow> wintun_tun_device" where
  "wt_start m d = d\<lparr>wd_send_ring := Some fresh_ring, wd_recv_ring := Some fresh_ring, wd_opened := True, wt_mtu := m\<rparr>"

fun wt_try_adapter :: "windows \<Rightarrow> nat \<Rightarrow> win_os \<Rightarrow> nat option \<times> win_os" where
  "wt_try_adapter w 0 os = (None, os)"
| "wt_try_adapter w (Suc n) os =
     (let (a, os) = win_new w Create_adapter os in
      if a \<noteq> None then (a, os)
      else
        let (a, os) = win_new w Open_adapter os in
        if a \<noteq> None then (a, os) else wt_try_adapter w n os)"

definition setup_mtu :: "windows \<Rightarrow> int \<Rightarrow> win_os \<Rightarrow> win_os" where
  "setup_mtu w m os =
     (let v = (if m > 0 then nat m else 1500); (okay, os) = win_do w Luid_to_index os
      in if okay then set_mtu_for_family w True (max v 1280) (set_mtu_for_family w False v os) else os)"

definition wt_open :: "windows \<Rightarrow> string \<Rightarrow> nat \<Rightarrow> wintun_tun_device \<Rightarrow> win_os \<Rightarrow> error_code option \<times> wintun_tun_device \<times> win_os" where
  "wt_open w name cfg_mtu d os =
     (let (d, os) = wt_close d os; adapter_name = (if name = [] then ''tunio'' else name) in
      if w_load_error w \<noteq> 0 then (Some (EC_other (w_load_error w)), d, os)
      else if w_wide_empty w adapter_name then (Some EC_invalid_argument, d, os)
      else
        let (a, os) = wt_try_adapter w 5 os; d = d\<lparr>wt_adapter := a\<rparr> in
        if a = None then
          let ec = win_last_error w os; (d, os) = cleanup_rings d os in (Some ec, d, os)
        else
          let (h, os) = win_new w Open_wintun_device os; d = d\<lparr>wt_dev_handle := h\<rparr> in
          if h = None then
            let ec = win_last_error w os; (d, os) = cleanup_rings d os
            in (Some ec, d\<lparr>wt_adapter := None\<rparr>, win_release Close_adapter (wt_adapter d) os)
          else
            let (okay, d, os) = wt_map_rings w d os in
            if \<not> okay then
              let ec = win_last_error w os; (d, os) = cleanup_rings d os;
                  os = win_release Close_handle (wt_dev_handle d) os
              in (Some ec, d\<lparr>wt_dev_handle := None, wt_adapter := None\<rparr>, win_release Close_adapter (wt_adapter d) os)
            else (None, wt_start (if cfg_mtu > 0 then cfg_mtu else 1500) d, setup_mtu w (sint (of_nat cfg_mtu :: u32)) os))"

text \<open>Taking over a handle of the application; \<open>None\<close> is the invalid one.\<close>

definition wt_assign :: "windows \<Rightarrow> nat option \<Rightarrow> nat \<Rightarrow> wintun_tun_device \<Rightarrow> win_os \<Rightarrow> error_code option \<times> wintun_tun_device \<times> win_os" where
  "wt_assign w handle m d os =
     (let (d, os) = wt_close d os; d = d\<lparr>wt_dev_handle := handle\<rparr> in
      if handle = None then (Some (win_last_error w os), d, os)
      else
        let (okay, d, os) = wt_map_rings w d os in
        if \<not> okay then
          let ec = win_last_error w os; (d, os) = cleanup_rings d os in (Some ec, d\<lparr>wt_dev_handle := None\<rparr>, os)
        else (None, wt_start m d, os))"

definition wt_assign_queues :: "nat list \<Rightarrow> wintun_tun_device \<Rightarrow> error_code option \<times> wintun_tun_device" where
  "wt_assign_queues handles d = (Some (EC_other 95), d)"

definition wt_read_size_hint :: "wintun_tun_device \<Rightarrow> nat" where
  "wt_read_size_hint d = wt_mtu d"

section \<open>Reading and writing\<close>

definition wt_complete :: "wt_done \<Rightarrow> wintun_tun_device \<Rightarrow> wintun_tun_device" where
  "wt_complete r d = d\<lparr>wt_done := wt_done d @ [r]\<rparr>"

text \<open>Nothing to read: the timer gets a new expiry, which ends a wait already on it, and the read waits.\<close>

definition recv_poll_loop :: "nat \<Rightarrow> nat \<Rightarrow> wintun_tun_device \<Rightarrow> wintun_tun_device" where
  "recv_poll_loop h n d =
     (case recv_one n d of
        (Inl ec, d) \<Rightarrow> wt_complete (Read_done h ec []) d
      | (Inr bs, d) \<Rightarrow>
          if bs \<noteq> [] then wt_complete (Read_done h EC_ok bs) d
          else (cancel_recv_timer d)\<lparr>wt_recv_timer := [(h, n)]\<rparr>)"

definition send_try_and_maybe_retry :: "nat \<Rightarrow> byte list \<Rightarrow> wintun_tun_device \<Rightarrow> wintun_tun_device" where
  "send_try_and_maybe_retry h b d =
     (case send_try b d of
        (Inl ec, d) \<Rightarrow> wt_complete (Write_done h ec 0) d
      | (Inr n, d) \<Rightarrow>
          if n > 0 then wt_complete (Write_done h EC_ok n) d
          else (cancel_send_timer d)\<lparr>wt_send_timer := [(h, b)]\<rparr>)"

fun wt_run_task :: "wt_task \<Rightarrow> wintun_tun_device \<Rightarrow> wintun_tun_device" where
  "wt_run_task (Task_recv h n) d = recv_poll_loop h n d"
| "wt_run_task (Task_recv_waited ec h n) d =
     (if ec \<noteq> EC_ok then wt_complete (Read_done h ec []) d
      else if \<not> wd_opened d then wt_complete (Read_done h EC_operation_aborted []) d
      else recv_poll_loop h n d)"
| "wt_run_task (Task_send h b) d = send_try_and_maybe_retry h b d"
| "wt_run_task (Task_send_waited ec h b) d =
     (if ec \<noteq> EC_ok then wt_complete (Write_done h ec 0) d
      else case send_try b d of
             (Inl ec, d) \<Rightarrow> wt_complete (Write_done h ec 0) d
           | (Inr n, d) \<Rightarrow> if n = 0 then send_try_and_maybe_retry h b d else wt_complete (Write_done h EC_ok n) d)"

definition wt_async_read :: "nat \<Rightarrow> nat \<Rightarrow> wintun_tun_device \<Rightarrow> wintun_tun_device" where
  "wt_async_read h n d = d\<lparr>wt_tasks := wt_tasks d @ [Task_recv h n]\<rparr>"

definition wt_async_write :: "nat \<Rightarrow> byte list \<Rightarrow> wintun_tun_device \<Rightarrow> wintun_tun_device" where
  "wt_async_write h b d = d\<lparr>wt_tasks := wt_tasks d @ [Task_send h b]\<rparr>"

definition wt_run_next :: "wintun_tun_device \<Rightarrow> wintun_tun_device" where
  "wt_run_next d = (case wt_tasks d of [] \<Rightarrow> d | t # ts \<Rightarrow> wt_run_task t (d\<lparr>wt_tasks := ts\<rparr>))"

definition wt_recv_timer_fires :: "wintun_tun_device \<Rightarrow> wintun_tun_device" where
  "wt_recv_timer_fires d = d\<lparr>wt_tasks := wt_tasks d @ map (\<lambda>(h, n). Task_recv_waited EC_ok h n) (wt_recv_timer d), wt_recv_timer := []\<rparr>"

definition wt_send_timer_fires :: "wintun_tun_device \<Rightarrow> wintun_tun_device" where
  "wt_send_timer_fires d = d\<lparr>wt_tasks := wt_tasks d @ map (\<lambda>(h, b). Task_send_waited EC_ok h b) (wt_send_timer d), wt_send_timer := []\<rparr>"

text \<open>The driver may do anything to the rings while they are mapped.\<close>

datatype wt_event =
    Wt_open string nat
  | Wt_assign "nat option" nat
  | Wt_close
  | Wt_read nat nat
  | Wt_write nat "byte list"
  | Wt_run
  | Wt_recv_timer
  | Wt_send_timer
  | Wt_driver tun_ring tun_ring

fun wt_step :: "windows \<Rightarrow> wt_event \<Rightarrow> wintun_tun_device \<times> win_os \<Rightarrow> wintun_tun_device \<times> win_os" where
  "wt_step w (Wt_open name m) (d, os) = snd (wt_open w name m d os)"
| "wt_step w (Wt_assign h m) (d, os) = snd (wt_assign w h m d os)"
| "wt_step w Wt_close (d, os) = wt_close d os"
| "wt_step w (Wt_read h n) (d, os) = (wt_async_read h n d, os)"
| "wt_step w (Wt_write h b) (d, os) = (wt_async_write h b d, os)"
| "wt_step w Wt_run (d, os) = (wt_run_next d, os)"
| "wt_step w Wt_recv_timer (d, os) = (wt_recv_timer_fires d, os)"
| "wt_step w Wt_send_timer (d, os) = (wt_send_timer_fires d, os)"
| "wt_step w (Wt_driver r r') (d, os) =
     (d\<lparr>wd_send_ring := map_option (\<lambda>_. r) (wd_send_ring d), wd_recv_ring := map_option (\<lambda>_. r') (wd_recv_ring d)\<rparr>, os)"

text \<open>The handlers submitted along a run: reads are marked \<open>True\<close>.\<close>

fun wt_submits :: "wt_event \<Rightarrow> (bool \<times> nat) multiset" where
  "wt_submits (Wt_read h n) = {#(True, h)#}"
| "wt_submits (Wt_write h b) = {#(False, h)#}"
| "wt_submits _ = {#}"

inductive wt_run :: "windows \<Rightarrow> win_os \<Rightarrow> (bool \<times> nat) multiset \<Rightarrow> wintun_tun_device \<Rightarrow> win_os \<Rightarrow> bool" for w os0 where
  start: "wt_run w os0 {#} wintun_tun_device_new os0"
| event: "wt_run w os0 subs d os \<Longrightarrow> wt_step w ev (d, os) = (d', os') \<Longrightarrow> wt_run w os0 (subs + wt_submits ev) d' os'"

inductive_cases wt_runE: "wt_run w os0 subs d os"

end
