(* ===== verification/Wintun_Runs.thy ===== *)
theory Wintun_Runs
  imports Wintun_Device
begin

text \<open>
  What the runs of the Wintun device guarantee: who owns the handles on every path through opening, taking
  over and closing; that every read and write completes once; and how reads share the one timer they wait on.
\<close>

section \<open>Handles\<close>

definition held :: "wintun_tun_device \<Rightarrow> nat multiset" where
  "held d = opt (wt_adapter d) + opt (wt_dev_handle d) + opt (wt_send_ring_fh d) + opt (wt_recv_ring_fh d) + opt (wt_send_evt d) +
     opt (wt_recv_evt d) + opt (wt_send_view d) + opt (wt_recv_view d)"

text \<open>The clean-up gives back the six resources of the rings.\<close>

lemma cleanup_rings_owns:
  assumes "owns (held d) F os" "cleanup_rings d os = (d', os')"
  shows "owns (opt (wt_adapter d) + opt (wt_dev_handle d)) F os' \<and> wt_adapter d' = wt_adapter d \<and> wt_dev_handle d' = wt_dev_handle d \<and>
    wd_send_ring d' = None \<and> wd_recv_ring d' = None \<and> held d' = opt (wt_adapter d) + opt (wt_dev_handle d)"
proof -
  let ?r = "opt (wt_adapter d) + opt (wt_dev_handle d)"
  have "owns (opt (wt_send_view d) + (opt (wt_recv_view d) + (opt (wt_send_evt d) + (opt (wt_recv_evt d) +
      (opt (wt_send_ring_fh d) + (opt (wt_recv_ring_fh d) + ?r)))))) F os"
    using assms(1) by (simp add: held_def ac_simps)
  hence "owns ?r F os'" using assms(2) by (auto simp: cleanup_rings_def Let_def intro!: owns_release)
  thus ?thesis using assms(2) by (auto simp: cleanup_rings_def Let_def held_def)
qed

definition wt_ok :: "wintun_tun_device \<Rightarrow> win_os \<Rightarrow> nat multiset \<Rightarrow> bool" where
  "wt_ok d os F \<longleftrightarrow> owns (held d) F os \<and> (\<not> wd_opened d \<longrightarrow> held d = {#} \<and> wd_send_ring d = None \<and> wd_recv_ring d = None)"

lemma cancel_fields [simp]:
  "held (cancel_recv_timer d) = held d" "held (cancel_send_timer d) = held d" "held (d\<lparr>wd_opened := b\<rparr>) = held d"
  "wt_adapter (cancel_recv_timer d) = wt_adapter d" "wt_adapter (cancel_send_timer d) = wt_adapter d"
  "wt_dev_handle (cancel_recv_timer d) = wt_dev_handle d" "wt_dev_handle (cancel_send_timer d) = wt_dev_handle d"
  "wd_opened (cancel_recv_timer d) = wd_opened d" "wd_opened (cancel_send_timer d) = wd_opened d"
  by (simp_all add: cancel_recv_timer_def cancel_send_timer_def held_def)

lemma cleanup_opened [simp]: "wd_opened (fst (cleanup_rings d os)) = wd_opened d"
  by (simp add: cleanup_rings_def Let_def)

lemma wt_close_owns:
  assumes "wt_ok d os F" "wt_close d os = (d', os')"
  shows "wt_ok d' os' F \<and> \<not> wd_opened d' \<and> held d' = {#}"
proof (cases "wd_opened d")
  case True
  define d1 where "d1 = cancel_send_timer (cancel_recv_timer (d\<lparr>wd_opened := False\<rparr>))"
  define os1 where "os1 = win_release Close_handle (wt_dev_handle d1) os"
  define d2 where "d2 = d1\<lparr>wt_dev_handle := None\<rparr>"
  obtain d3 os3 where c: "cleanup_rings d2 os1 = (d3, os3)" by fastforce
  have "owns (held d1) F os" using assms(1) by (simp add: wt_ok_def d1_def)
  hence "owns (opt (wt_dev_handle d1) + held d2) F os" by (simp add: held_def d2_def ac_simps)
  hence "owns (held d2) F os1" unfolding os1_def by (rule owns_release)
  from cleanup_rings_owns [OF this c] have 3: "owns (opt (wt_adapter d2)) F os3" "wt_adapter d3 = wt_adapter d2" "wt_dev_handle d3 = None"
      "wd_send_ring d3 = None" "wd_recv_ring d3 = None" "held d3 = opt (wt_adapter d2)"
    by (simp_all add: d2_def)
  have o: "wd_opened d3 = False" using cleanup_opened [of d2 os1] unfolding c by (simp add: d2_def d1_def)
  have e: "d' = d3\<lparr>wt_adapter := None\<rparr>" "os' = win_release Close_adapter (wt_adapter d3) os3"
    using assms(2) True c by (auto simp: wt_close_def Let_def d1_def d2_def os1_def)
  have "owns {#} F os'" using owns_release [of "wt_adapter d3" "{#}"] 3(1,2) by (simp add: e(2))
  moreover have "held d' = {#}" using 3(2,3,6) by (simp add: e(1) held_def)
  ultimately show ?thesis using 3 o by (simp add: wt_ok_def e(1))
next
  case False
  thus ?thesis using assms by (auto simp: wt_close_def wt_ok_def)
qed

definition no_rings :: "wintun_tun_device \<Rightarrow> bool" where
  "no_rings d \<longleftrightarrow> wt_send_ring_fh d = None \<and> wt_recv_ring_fh d = None \<and> wt_send_evt d = None \<and> wt_recv_evt d = None \<and>
     wt_send_view d = None \<and> wt_recv_view d = None"

lemma held_empty: "held d = {#} \<longleftrightarrow> no_rings d \<and> wt_adapter d = None \<and> wt_dev_handle d = None"
  by (auto simp: held_def no_rings_def opt_def split: option.splits)

lemma wt_map_rings_owns:
  assumes "owns (held d) F os" "no_rings d" "wt_map_rings w d os = (okay, d', os')"
  shows "owns (held d') F os' \<and> wt_adapter d' = wt_adapter d \<and> wt_dev_handle d' = wt_dev_handle d \<and> wd_opened d' = wd_opened d"
proof -
  obtain a1 os1 b1 os2 where 1: "win_new w Create_mapping os = (a1, os1)" "win_new w Create_mapping os1 = (b1, os2)" by fastforce
  obtain a2 os3 b2 os4 where 2: "win_new w Map_view os2 = (a2, os3)" "win_new w Map_view os3 = (b2, os4)" by fastforce
  obtain a3 os5 b3 os6 where 3: "win_new w Create_event os4 = (a3, os5)" "win_new w Create_event os5 = (b3, os6)" by fastforce
  obtain r os7 where 4: "win_do w Register_rings os6 = (r, os7)" by fastforce
  note o1 = owns_pair [OF assms(1) 1] note o2 = owns_pair [OF o1 2] note o3 = owns_pair [OF o2 3] note o4 = owns_do [OF o3 4]
  show ?thesis
  proof (cases "a1 = None \<or> b1 = None")
    case True
    hence "d' = d\<lparr>wt_send_ring_fh := a1, wt_recv_ring_fh := b1\<rparr>" "os' = os2" using assms(3) by (simp_all add: wt_map_rings_def 1)
    thus ?thesis using assms(2) o1 by (simp add: held_def no_rings_def ac_simps)
  next
    case m: False
    show ?thesis
    proof (cases "a2 = None \<or> b2 = None")
      case True
      hence "d' = d\<lparr>wt_send_ring_fh := a1, wt_recv_ring_fh := b1, wt_send_view := a2, wt_recv_view := b2\<rparr>" "os' = os4"
        using assms(3) m by (simp_all add: wt_map_rings_def 1 2)
      thus ?thesis using assms(2) o2 by (simp add: held_def no_rings_def ac_simps)
    next
      case v: False
      have "d' = d\<lparr>wt_send_ring_fh := a1, wt_recv_ring_fh := b1, wt_send_view := a2, wt_recv_view := b2, wt_send_evt := a3, wt_recv_evt := b3\<rparr>"
          "os' = (if a3 = None \<or> b3 = None then os6 else os7)"
        using assms(3) m v by (auto simp: wt_map_rings_def Let_def 1 2 3 4 split: if_splits)
      thus ?thesis using assms(2) o3 o4 by (simp add: held_def no_rings_def ac_simps)
    qed
  qed
qed

lemma wt_try_adapter_owns: "owns H F os \<Longrightarrow> wt_try_adapter w n os = (a, os') \<Longrightarrow> owns (H + opt a) F os'"
proof (induction n arbitrary: os)
  case (Suc n)
  obtain a1 os1 where 1: "win_new w Create_adapter os = (a1, os1)" by fastforce
  obtain a2 os2 where 2: "win_new w Open_adapter os1 = (a2, os2)" by fastforce
  have o1: "owns (H + opt a1) F os1" by (rule owns_new [OF Suc.prems(1) 1])
  have o2: "a1 = None \<Longrightarrow> owns (H + opt a2) F os2" using owns_new [OF o1 2] by simp
  show ?case
  proof (cases "a1 = None \<and> a2 = None")
    case True
    thus ?thesis using Suc.IH [of os2] Suc.prems(2) 1 2 o2 by simp
  next
    case False
    thus ?thesis using Suc.prems(2) 1 2 o1 o2 by (auto split: if_splits)
  qed
qed simp

lemma setup_mtu_owns: "owns H F os \<Longrightarrow> owns H F (setup_mtu w m os)"
  by (auto simp: setup_mtu_def set_mtu_for_family_def win_do_def owns_def win_sane_def Let_def)

lemma wt_start_ok: "owns (held d) F os \<Longrightarrow> wt_ok (wt_start m d) os F"
  by (simp add: wt_ok_def wt_start_def held_def)

lemma same_dev_handle: "wt_dev_handle d = None \<Longrightarrow> d\<lparr>wt_dev_handle := None, wt_adapter := x\<rparr> = d\<lparr>wt_adapter := x\<rparr>"
  by (cases d) simp

text \<open>Giving up: the clean-up, then the device handle and the adapter.\<close>

lemma give_up:
  assumes "owns (held d) F os" "cleanup_rings d os = (d1, os1)" "\<not> wd_opened d"
  shows "wt_ok (d1\<lparr>wt_dev_handle := None, wt_adapter := None\<rparr>)
      (win_release Close_adapter (wt_adapter d1) (win_release Close_handle (wt_dev_handle d1) os1)) F"
    "held (d1\<lparr>wt_dev_handle := None, wt_adapter := None\<rparr>) = {#}" "\<not> wd_opened d1"
    "wt_dev_handle d1 = wt_dev_handle d" "wt_adapter d1 = wt_adapter d" "held d1 = opt (wt_adapter d) + opt (wt_dev_handle d)"
    "wd_send_ring d1 = None" "wd_recv_ring d1 = None" "owns (held d1) F os1"
proof -
  note c = cleanup_rings_owns [OF assms(1,2)]
  show 1: "wt_dev_handle d1 = wt_dev_handle d" "wt_adapter d1 = wt_adapter d" "held d1 = opt (wt_adapter d) + opt (wt_dev_handle d)"
    "wd_send_ring d1 = None" "wd_recv_ring d1 = None" "owns (held d1) F os1" using c by simp_all
  show o: "\<not> wd_opened d1" using cleanup_opened [of d os] assms(2,3) by simp
  have "no_rings d1" using assms(2) by (auto simp: cleanup_rings_def Let_def no_rings_def)
  thus h: "held (d1\<lparr>wt_dev_handle := None, wt_adapter := None\<rparr>) = {#}" by (simp add: held_def no_rings_def)
  have "owns (opt (wt_dev_handle d1) + (opt (wt_adapter d1) + {#})) F os1" using 1 by (simp add: ac_simps)
  hence "owns {#} F (win_release Close_adapter (wt_adapter d1) (win_release Close_handle (wt_dev_handle d1) os1))"
    by (intro owns_release)
  thus "wt_ok (d1\<lparr>wt_dev_handle := None, wt_adapter := None\<rparr>)
      (win_release Close_adapter (wt_adapter d1) (win_release Close_handle (wt_dev_handle d1) os1)) F"
    using 1 o h by (simp add: wt_ok_def)
qed

text \<open>
  C36. Opening a Wintun device never leaks a handle and never closes one that is not its own: whichever
  call fails, everything acquired on the way is given back exactly once and the device is left closed,
  without rings; on success it holds all it acquired and nothing else has changed hands.
\<close>

theorem wintun_open_owns:
  assumes "wt_ok d os F" "wt_open w name m d os = (res, d', os')"
  shows "wt_ok d' os' F \<and> (wd_opened d' \<longleftrightarrow> res = None) \<and> (res \<noteq> None \<longrightarrow> held d' = {#})"
proof -
  obtain d0 os0 where c: "wt_close d os = (d0, os0)" by fastforce
  have 0: "wt_ok d0 os0 F" "\<not> wd_opened d0" "held d0 = {#}" using wt_close_owns [OF assms(1) c] by simp_all
  define nm where "nm = (if name = [] then ''tunio'' else name)"
  obtain a os1 where a: "wt_try_adapter w 5 os0 = (a, os1)" by fastforce
  define d1 where "d1 = d0\<lparr>wt_adapter := a\<rparr>"
  have n0: "no_rings d0" "wt_adapter d0 = None" "wt_dev_handle d0 = None" using 0(3) by (simp_all add: held_empty)
  have h1: "held d1 = opt a" using n0 by (simp add: d1_def held_def no_rings_def)
  have o1: "owns (held d1) F os1" using wt_try_adapter_owns [OF _ a, of "{#}" F] 0 by (simp add: h1 wt_ok_def)
  obtain h os2 where h: "win_new w Open_wintun_device os1 = (h, os2)" by fastforce
  define d2 where "d2 = d1\<lparr>wt_dev_handle := h\<rparr>"
  have f2: "wt_adapter d2 = a" "wt_dev_handle d2 = h" "no_rings d2" "held d2 = opt a + opt h" "wd_opened d2 = False"
    using n0 0(2) by (simp_all add: d2_def d1_def held_def no_rings_def)
  have o2: "owns (held d2) F os2" using owns_new [OF o1 h] by (simp add: f2 h1)
  obtain okay d3 os3 where r: "wt_map_rings w d2 os2 = (okay, d3, os3)" by (metis prod_cases3)
  note m3 = wt_map_rings_owns [OF o2 f2(3) r]
  have open_eq: "wt_open w name m d os =
      (if w_load_error w \<noteq> 0 then (Some (EC_other (w_load_error w)), d0, os0)
       else if w_wide_empty w nm then (Some EC_invalid_argument, d0, os0)
       else if a = None then case cleanup_rings d1 os1 of (d, os) \<Rightarrow> (Some (win_last_error w os1), d, os)
       else if h = None then case cleanup_rings d2 os2 of (d, os) \<Rightarrow>
         (Some (win_last_error w os2), d\<lparr>wt_adapter := None\<rparr>, win_release Close_adapter (wt_adapter d) os)
       else if \<not> okay then case cleanup_rings d3 os3 of (d, os) \<Rightarrow>
         (Some (win_last_error w os3), d\<lparr>wt_dev_handle := None, wt_adapter := None\<rparr>,
          win_release Close_adapter (wt_adapter d) (win_release Close_handle (wt_dev_handle d) os))
       else (None, wt_start (if m > 0 then m else 1500) d3, setup_mtu w (sint (of_nat m :: u32)) os3))"
    by (simp add: wt_open_def c a h r [unfolded d2_def d1_def] nm_def d1_def d2_def Let_def)
  obtain e1 w1 where e1: "cleanup_rings d1 os1 = (e1, w1)" by fastforce
  obtain e2 w2 where e2: "cleanup_rings d2 os2 = (e2, w2)" by fastforce
  obtain e3 w3 where e3: "cleanup_rings d3 os3 = (e3, w3)" by fastforce
  consider (load) "res \<noteq> None" "d' = d0" "os' = os0"
    | (adapter) "res \<noteq> None" "a = None" "d' = e1" "os' = w1"
    | (device) "res \<noteq> None" "h = None" "d' = e2\<lparr>wt_adapter := None\<rparr>" "os' = win_release Close_adapter (wt_adapter e2) w2"
    | (rings) "res \<noteq> None" "d' = e3\<lparr>wt_dev_handle := None, wt_adapter := None\<rparr>"
        "os' = win_release Close_adapter (wt_adapter e3) (win_release Close_handle (wt_dev_handle e3) w3)"
    | (opened) "res = None" "d' = wt_start (if m > 0 then m else 1500) d3" "os' = setup_mtu w (sint (of_nat m :: u32)) os3"
    using assms(2) unfolding open_eq e1 e2 e3 by (auto split: if_splits)
  thus ?thesis
  proof cases
    case load
    thus ?thesis using 0 by simp
  next
    case adapter
    have "\<not> wd_opened d1" using 0(2) by (simp add: d1_def)
    note g = give_up [OF o1 e1 this]
    have "held e1 = {#}" using g(6) adapter n0 by (simp add: d1_def)
    thus ?thesis using g adapter by (simp add: wt_ok_def)
  next
    case device
    have "\<not> wd_opened d2" by (simp add: f2(5))
    note g = give_up [OF o2 e2 this]
    have "wt_dev_handle e2 = None" using g(4) f2(2) device(2) by simp
    thus ?thesis using g(1,2,3) device by (simp add: same_dev_handle)
  next
    case rings
    thus ?thesis using give_up [OF _ e3, of F] m3 f2(5) by simp
  next
    case opened
    thus ?thesis using wt_start_ok [OF setup_mtu_owns] m3 by (simp add: wt_start_def)
  qed
qed

text \<open>
  Taking over a handle of the application: the device owns it afterwards if the call succeeds; if it
  fails, the handle is still open and still the application's, and the device is left closed.
\<close>

theorem wintun_assign_owns:
  assumes "wt_ok d os (F + opt handle)" "wt_assign w handle m d os = (res, d', os')"
  shows "case res of
      None \<Rightarrow> wt_ok d' os' F \<and> wd_opened d' \<and> wt_dev_handle d' = handle \<and> handle \<noteq> None
    | Some ec \<Rightarrow> wt_ok d' os' (F + opt handle) \<and> \<not> wd_opened d' \<and> held d' = {#}"
proof -
  obtain d0 os0 where c: "wt_close d os = (d0, os0)" by fastforce
  have 0: "wt_ok d0 os0 (F + opt handle)" "\<not> wd_opened d0" "held d0 = {#}" using wt_close_owns [OF assms(1) c] by simp_all
  have n0: "no_rings d0" "wt_adapter d0 = None" "wt_dev_handle d0 = None" using 0(3) by (simp_all add: held_empty)
  define d1 where "d1 = d0\<lparr>wt_dev_handle := handle\<rparr>"
  have h1: "held d1 = opt handle" "no_rings d1" "\<not> wd_opened d1" using n0 0(2) by (simp_all add: d1_def held_def no_rings_def)
  have o1: "owns (held d1) F os0" using 0(1,3) by (simp add: wt_ok_def owns_def h1(1) add.commute)
  obtain okay d2 os2 where r: "wt_map_rings w d1 os0 = (okay, d2, os2)" by (metis prod_cases3)
  note m2 = wt_map_rings_owns [OF o1 h1(2) r]
  obtain e w2 where e: "cleanup_rings d2 os2 = (e, w2)" by fastforce
  have "\<not> wd_opened d2" "owns (held d2) F os2" using m2 h1(3) by simp_all
  note g = give_up [OF this(2) e this(1)]
  have eq: "wt_assign w handle m d os =
      (if handle = None then (Some (win_last_error w os0), d1, os0)
       else if \<not> okay then (Some (win_last_error w os2), e\<lparr>wt_dev_handle := None\<rparr>, w2)
       else (None, wt_start m d2, os2))"
    by (simp add: wt_assign_def c r [unfolded d1_def] d1_def e Let_def)
  show ?thesis
  proof (cases "handle = None")
    case True
    thus ?thesis using assms(2) 0 n0 eq by (auto simp: d1_def wt_ok_def h1(1) [unfolded d1_def] held_def no_rings_def)
  next
    case False
    have f: "wt_adapter e = None" "wt_dev_handle e = handle" "held e = opt handle" using g(4,5,6) m2 n0 by (simp_all add: d1_def)
    have he: "held (e\<lparr>wt_dev_handle := None\<rparr>) = {#}"
    proof -
      have "held e = opt handle + held (e\<lparr>wt_dev_handle := None\<rparr>)" using f(1,2) by (simp add: held_def ac_simps)
      thus ?thesis using f(3) by simp
    qed
    have "owns {#} (F + opt handle) w2" using g(9) f(3) by (simp add: owns_def ac_simps)
    hence "wt_ok (e\<lparr>wt_dev_handle := None\<rparr>) w2 (F + opt handle)" using he g(3,7,8) by (simp add: wt_ok_def)
    thus ?thesis using assms(2) eq False g(3) he m2 wt_start_ok [of d2 F os2 m] by (auto simp: wt_start_def d1_def split: if_splits)
  qed
qed

section \<open>Reads and writes\<close>

text \<open>The handlers waiting (reads are marked \<open>True\<close>), on the strand or on a timer, and those completed.\<close>

fun task_tok :: "wt_task \<Rightarrow> bool \<times> nat" where
  "task_tok (Task_recv h n) = (True, h)"
| "task_tok (Task_recv_waited ec h n) = (True, h)"
| "task_tok (Task_send h b) = (False, h)"
| "task_tok (Task_send_waited ec h b) = (False, h)"

fun done_tok :: "wt_done \<Rightarrow> bool \<times> nat" where
  "done_tok (Read_done h ec b) = (True, h)"
| "done_tok (Write_done h ec n) = (False, h)"

definition queued :: "wintun_tun_device \<Rightarrow> (bool \<times> nat) multiset" where
  "queued d = mset (map task_tok (wt_tasks d))"

definition waiting :: "wintun_tun_device \<Rightarrow> (bool \<times> nat) multiset" where
  "waiting d = mset (map (\<lambda>(h, n). (True, h)) (wt_recv_timer d)) + mset (map (\<lambda>(h, b). (False, h)) (wt_send_timer d))"

definition completed :: "wintun_tun_device \<Rightarrow> (bool \<times> nat) multiset" where
  "completed d = mset (map done_tok (wt_done d))"

text \<open>At most one read and one write wait on a timer, and none while the device is closed.\<close>

definition poll_ok :: "wintun_tun_device \<Rightarrow> bool" where
  "poll_ok d \<longleftrightarrow> length (wt_recv_timer d) \<le> 1 \<and> length (wt_send_timer d) \<le> 1 \<and>
     (\<not> wd_opened d \<longrightarrow> wt_recv_timer d = [] \<and> wt_send_timer d = [])"

lemmas poll_defs = queued_def waiting_def completed_def poll_ok_def

text \<open>What polling does not depend on.\<close>

definition polls :: "wintun_tun_device \<Rightarrow> wt_task list \<times> (nat \<times> nat) list \<times> (nat \<times> byte list) list \<times> wt_done list" where
  "polls d = (wt_tasks d, wt_recv_timer d, wt_send_timer d, wt_done d)"

lemma polls_eq: "polls d' = polls d \<Longrightarrow> queued d' = queued d \<and> waiting d' = waiting d \<and> completed d' = completed d"
  by (simp add: polls_def queued_def waiting_def completed_def)

lemma recv_one_polls: "recv_one n d = (r, d') \<Longrightarrow> polls d' = polls d \<and> wd_opened d' = wd_opened d \<and> (r = Inr [] \<longrightarrow> wd_opened d)"
  by (auto simp: recv_one_def polls_def Let_def split: option.splits prod.splits if_splits)

lemma send_try_polls: "send_try b d = (r, d') \<Longrightarrow> polls d' = polls d \<and> wd_opened d' = wd_opened d \<and> (r = Inr n \<longrightarrow> wd_opened d)"
  by (auto simp: send_try_def polls_def Let_def split: option.splits prod.splits if_splits)

lemma cleanup_polls: "cleanup_rings d os = (d', os') \<Longrightarrow> polls d' = polls d"
  by (auto simp: cleanup_rings_def polls_def Let_def)

lemma map_rings_polls: "wt_map_rings w d os = (okay, d', os') \<Longrightarrow> polls d' = polls d"
  by (auto simp: wt_map_rings_def polls_def Let_def split: prod.splits if_splits)

lemma cancel_timers:
  "queued (cancel_recv_timer d) + waiting (cancel_recv_timer d) = queued d + waiting d"
  "queued (cancel_send_timer d) + waiting (cancel_send_timer d) = queued d + waiting d"
  "completed (cancel_recv_timer d) = completed d" "completed (cancel_send_timer d) = completed d"
  "wt_recv_timer (cancel_recv_timer d) = []" "wt_send_timer (cancel_recv_timer d) = wt_send_timer d"
  "wt_send_timer (cancel_send_timer d) = []" "wt_recv_timer (cancel_send_timer d) = wt_recv_timer d"
  by (simp_all add: cancel_recv_timer_def cancel_send_timer_def queued_def waiting_def completed_def comp_def case_prod_unfold ac_simps)

definition all_toks :: "wintun_tun_device \<Rightarrow> (bool \<times> nat) multiset" where
  "all_toks d = queued d + waiting d + completed d"

lemma wt_complete_toks:
  "all_toks (wt_complete r d) = add_mset (done_tok r) (all_toks d)" "poll_ok (wt_complete r d) = poll_ok d" "wd_opened (wt_complete r d) = wd_opened d"
  "wt_tasks (wt_complete r d) = wt_tasks d"
  by (simp_all add: wt_complete_def all_toks_def poll_defs)

lemma polls_toks: "polls d' = polls d \<Longrightarrow> all_toks d' = all_toks d"
  using polls_eq [of d' d] by (simp add: all_toks_def)

lemma polls_ok: "polls d' = polls d \<Longrightarrow> wd_opened d' = wd_opened d \<Longrightarrow> poll_ok d' = poll_ok d"
  by (simp add: polls_def poll_ok_def)

lemma recv_poll_loop_toks:
  assumes "poll_ok d" shows "all_toks (recv_poll_loop h n d) = add_mset (True, h) (all_toks d) \<and> poll_ok (recv_poll_loop h n d)"
proof -
  obtain r d1 where r: "recv_one n d = (r, d1)" by fastforce
  note p = recv_one_polls [OF r]
  have 1: "poll_ok d1" "all_toks d1 = all_toks d" using p assms polls_ok polls_toks by blast+
  show ?thesis
  proof (cases "r = Inr []")
    case True
    hence "recv_poll_loop h n d = (cancel_recv_timer d1)\<lparr>wt_recv_timer := [(h, n)]\<rparr>" by (simp add: recv_poll_loop_def r)
    thus ?thesis using 1 p True by (auto simp: all_toks_def cancel_recv_timer_def poll_defs case_prod_unfold comp_def ac_simps)
  next
    case False
    thus ?thesis using 1 by (cases r) (auto simp: recv_poll_loop_def r wt_complete_toks)
  qed
qed

lemma send_retry_toks:
  assumes "poll_ok d"
  shows "all_toks (send_try_and_maybe_retry h b d) = add_mset (False, h) (all_toks d) \<and> poll_ok (send_try_and_maybe_retry h b d)"
proof -
  obtain r d1 where r: "send_try b d = (r, d1)" by fastforce
  note p = send_try_polls [OF r, of 0]
  have 1: "poll_ok d1" "all_toks d1 = all_toks d" using p assms polls_ok polls_toks by blast+
  show ?thesis
  proof (cases "r = Inr 0")
    case True
    hence "send_try_and_maybe_retry h b d = (cancel_send_timer d1)\<lparr>wt_send_timer := [(h, b)]\<rparr>" by (simp add: send_try_and_maybe_retry_def r)
    thus ?thesis using 1 p True by (auto simp: all_toks_def cancel_send_timer_def poll_defs case_prod_unfold comp_def ac_simps)
  next
    case False
    thus ?thesis using 1 by (cases r) (auto simp: send_try_and_maybe_retry_def r wt_complete_toks)
  qed
qed

lemma wt_run_task_toks: "poll_ok d \<Longrightarrow> all_toks (wt_run_task t d) = add_mset (task_tok t) (all_toks d) \<and> poll_ok (wt_run_task t d)"
proof (cases t)
  case (Task_send_waited ec h b)
  assume d: "poll_ok d"
  obtain r d1 where r: "send_try b d = (r, d1)" by fastforce
  note p = send_try_polls [OF r, of 0]
  have 1: "poll_ok d1" "all_toks d1 = all_toks d" using p d polls_ok polls_toks by blast+
  show ?thesis using d 1 send_retry_toks [OF 1(1), of h b] by (cases r) (auto simp: Task_send_waited r wt_complete_toks)
qed (auto simp: wt_complete_toks recv_poll_loop_toks send_retry_toks)

lemma cancel_toks [simp]:
  "all_toks (cancel_recv_timer d) = all_toks d" "all_toks (cancel_send_timer d) = all_toks d" "all_toks (d\<lparr>wd_opened := b\<rparr>) = all_toks d"
  using cancel_timers(1,2) [of d] by (simp_all add: all_toks_def cancel_timers(3,4)) (simp add: poll_defs)

lemma cleanup_toks:
  assumes "cleanup_rings d os = (d', os')"
  shows "all_toks d' = all_toks d" "poll_ok d' = poll_ok d"
proof -
  have p: "polls d' = polls d" by (rule cleanup_polls [OF assms])
  have "wd_opened (fst (cleanup_rings d os)) = wd_opened d" by (rule cleanup_opened)
  hence o: "wd_opened d' = wd_opened d" unfolding assms by (simp only: fst_conv)
  show "all_toks d' = all_toks d" by (rule polls_toks [OF p])
  show "poll_ok d' = poll_ok d" by (rule polls_ok [OF p o])
qed

text \<open>Fields that do not matter here.\<close>

lemma handle_fields [simp]:
  "all_toks (d\<lparr>wt_adapter := x\<rparr>) = all_toks d" "all_toks (d\<lparr>wt_dev_handle := x\<rparr>) = all_toks d"
  "poll_ok (d\<lparr>wt_adapter := x\<rparr>) = poll_ok d" "poll_ok (d\<lparr>wt_dev_handle := x\<rparr>) = poll_ok d"
  "polls (d\<lparr>wt_adapter := x\<rparr>) = polls d" "polls (d\<lparr>wt_dev_handle := x\<rparr>) = polls d"
  by (simp_all add: all_toks_def poll_defs polls_def)

lemma wt_close_toks:
  assumes "poll_ok d" "wt_close d os = (d', os')"
  shows "all_toks d' = all_toks d \<and> poll_ok d' \<and> waiting d' = {#} \<and> \<not> wd_opened d'"
proof (cases "wd_opened d")
  case True
  define d1 where "d1 = cancel_send_timer (cancel_recv_timer (d\<lparr>wd_opened := False\<rparr>))"
  have 1: "all_toks d1 = all_toks d" "poll_ok d1" "wt_recv_timer d1 = []" "wt_send_timer d1 = []" "wd_opened d1 = False"
    by (simp_all add: d1_def cancel_timers poll_ok_def)
  obtain d2 os2 where c: "cleanup_rings (d1\<lparr>wt_dev_handle := None\<rparr>) (win_release Close_handle (wt_dev_handle d1) os) = (d2, os2)" by fastforce
  have 2: "polls d2 = polls d1" "all_toks d2 = all_toks d1" "poll_ok d2 = poll_ok d1" using cleanup_polls [OF c] cleanup_toks [OF c] by simp_all
  have "wd_opened d2 = False" using cleanup_opened [of "d1\<lparr>wt_dev_handle := None\<rparr>" "win_release Close_handle (wt_dev_handle d1) os"] 1(5)
    unfolding c by simp
  moreover have "d' = d2\<lparr>wt_adapter := None\<rparr>" using assms(2) True c by (auto simp: wt_close_def Let_def d1_def)
  moreover have "waiting d2 = {#}" using 2(1) 1(3,4) by (simp add: polls_def waiting_def)
  ultimately show ?thesis using 1 2 by (simp add: waiting_def)
next
  case False
  thus ?thesis using assms by (auto simp: wt_close_def poll_defs)
qed

lemma map_rings_toks:
  assumes "wt_map_rings w d os = (okay, d', os')" "\<not> wd_opened d" "poll_ok d"
  shows "all_toks d' = all_toks d \<and> poll_ok d' \<and> \<not> wd_opened d'"
proof -
  have o: "wd_opened d' = wd_opened d" using assms(1) by (auto simp: wt_map_rings_def Let_def split: prod.splits if_splits)
  have p: "polls d' = polls d" by (rule map_rings_polls [OF assms(1)])
  show ?thesis using polls_toks [OF p] polls_ok [OF p o] o assms(2,3) by (simp only: simp_thms)
qed

lemma wt_start_toks: "poll_ok d \<Longrightarrow> all_toks (wt_start m d) = all_toks d \<and> poll_ok (wt_start m d)"
  by (simp add: wt_start_def all_toks_def poll_defs)

lemma cleanup_toks_pair: "all_toks (fst (cleanup_rings d os)) = all_toks d" "poll_ok (fst (cleanup_rings d os)) = poll_ok d"
  using cleanup_toks [of d os] by (cases "cleanup_rings d os"; simp)+

lemma map_rings_toks_pair:
  assumes "\<not> wd_opened d" "poll_ok d"
  shows "all_toks (fst (snd (wt_map_rings w d os))) = all_toks d" "poll_ok (fst (snd (wt_map_rings w d os)))"
  using map_rings_toks [of w d os _ _ _, OF _ assms] by (cases "wt_map_rings w d os"; simp)+

lemma wt_open_toks:
  assumes "poll_ok d" shows "all_toks (fst (snd (wt_open w name m d os))) = all_toks d \<and> poll_ok (fst (snd (wt_open w name m d os)))"
proof -
  obtain d0 os0 where c: "wt_close d os = (d0, os0)" by fastforce
  note c0 = wt_close_toks [OF assms c]
  have 0: "poll_ok (d0\<lparr>wt_adapter := x, wt_dev_handle := y\<rparr>)" "\<not> wd_opened (d0\<lparr>wt_adapter := x, wt_dev_handle := y\<rparr>)"
    "all_toks (d0\<lparr>wt_adapter := x, wt_dev_handle := y\<rparr>) = all_toks d" for x y
    using c0 by simp_all
  note m = map_rings_toks_pair [OF 0(2,1)]
  show ?thesis unfolding wt_open_def c
    by (simp add: Let_def case_prod_unfold c0 m 0 cleanup_toks_pair wt_start_toks)
qed

lemma wt_assign_toks:
  assumes "poll_ok d" shows "all_toks (fst (snd (wt_assign w h m d os))) = all_toks d \<and> poll_ok (fst (snd (wt_assign w h m d os)))"
proof -
  obtain d0 os0 where c: "wt_close d os = (d0, os0)" by fastforce
  note c0 = wt_close_toks [OF assms c]
  have 0: "poll_ok (d0\<lparr>wt_dev_handle := y\<rparr>)" "\<not> wd_opened (d0\<lparr>wt_dev_handle := y\<rparr>)" for y
    using c0 by simp_all
  note m = map_rings_toks_pair [OF 0(2,1)]
  show ?thesis unfolding wt_assign_def c
    by (simp add: Let_def case_prod_unfold c0 m 0 cleanup_toks_pair wt_start_toks)
qed

lemma timer_fires_toks [simp]:
  "all_toks (wt_recv_timer_fires d) = all_toks d" "all_toks (wt_send_timer_fires d) = all_toks d"
  "poll_ok d \<Longrightarrow> poll_ok (wt_recv_timer_fires d)" "poll_ok d \<Longrightarrow> poll_ok (wt_send_timer_fires d)"
  by (simp_all add: wt_recv_timer_fires_def wt_send_timer_fires_def all_toks_def poll_defs comp_def case_prod_unfold ac_simps)

lemma wt_run_next_toks: "poll_ok d \<Longrightarrow> all_toks (wt_run_next d) = all_toks d \<and> poll_ok (wt_run_next d)"
proof (cases "wt_tasks d")
  case (Cons t ts)
  assume d: "poll_ok d"
  have 1: "poll_ok (d\<lparr>wt_tasks := ts\<rparr>)" "all_toks d = add_mset (task_tok t) (all_toks (d\<lparr>wt_tasks := ts\<rparr>))"
    using d Cons by (simp_all add: all_toks_def poll_defs)
  thus ?thesis using wt_run_task_toks [OF 1(1), of t] by (simp add: wt_run_next_def Cons)
qed (simp add: wt_run_next_def)

lemma wt_step_toks:
  assumes "poll_ok d" "wt_step w ev (d, os) = (d', os')" shows "all_toks d' = all_toks d + wt_submits ev \<and> poll_ok d'"
proof (cases ev)
  case (Wt_open name m)
  thus ?thesis using wt_open_toks [OF assms(1), of w name m os] assms(2) by simp
next
  case (Wt_assign h m)
  thus ?thesis using wt_assign_toks [OF assms(1), of w h m os] assms(2) by simp
next
  case Wt_close
  thus ?thesis using wt_close_toks [OF assms(1)] assms(2) by simp
next
  case Wt_run
  thus ?thesis using wt_run_next_toks [OF assms(1)] assms(2) by auto
next
  case Wt_recv_timer
  thus ?thesis using assms by auto
next
  case Wt_send_timer
  thus ?thesis using assms by auto
qed (use assms in \<open>auto simp: wt_async_read_def wt_async_write_def all_toks_def poll_defs\<close>)

lemma wt_run_inv: "wt_run w os0 subs d os \<Longrightarrow> all_toks d = subs \<and> poll_ok d"
proof (induction rule: wt_run.induct)
  case start
  show ?case by (simp add: wintun_tun_device_new_def all_toks_def poll_defs)
next
  case (event subs d os ev d' os')
  thus ?case using wt_step_toks by blast
qed

section \<open>Properties of the runs\<close>

text \<open>A poll that finds the ring empty takes the timer over: the read that waited on it ends with an error.\<close>

lemma wintun_reads_share_timer:
  assumes "wt_recv_timer d = [(h, n)]" "wt_tasks d = Task_recv h' n' # ts" "fst (recv_one n' (d\<lparr>wt_tasks := ts\<rparr>)) = Inr []"
  shows "wt_recv_timer (wt_run_next d) = [(h', n')] \<and> wt_tasks (wt_run_next d) = ts @ [Task_recv_waited EC_operation_aborted h n]"
proof -
  obtain d1 where r: "recv_one n' (d\<lparr>wt_tasks := ts\<rparr>) = (Inr [], d1)" using assms(3) by (cases "recv_one n' (d\<lparr>wt_tasks := ts\<rparr>)") auto
  have "wt_tasks d1 = ts" "wt_recv_timer d1 = [(h, n)]" using recv_one_polls [OF r] assms(1) by (simp_all add: polls_def)
  thus ?thesis by (simp add: wt_run_next_def assms(2) recv_poll_loop_def r cancel_recv_timer_def)
qed

lemma filter_reads: "filter_mset fst (mset (map (\<lambda>(h, n). (True, h)) xs)) = mset (map (\<lambda>(h, n). (True, h)) xs)"
  by (induction xs) auto

lemma filter_writes: "filter_mset fst (mset (map (\<lambda>(h, b). (False, h)) xs)) = {#}"
  by (induction xs) auto

text \<open>
  C38. Only one read can wait for a packet: while two or more reads are outstanding, the strand always has
  work queued, whether or not a packet has arrived. (A poll that finds nothing ends the wait of the read
  before it with \<open>EC_operation_aborted\<close>, see \<open>wintun_reads_share_timer\<close>; the engine keeps 32 reads outstanding
  and starts an aborted one again.)
\<close>

theorem wintun_strand_never_idle:
  assumes "wt_run w os0 subs d os" "2 \<le> size (filter_mset fst (queued d + waiting d))"
  shows "wt_tasks d \<noteq> []"
proof
  assume e: "wt_tasks d = []"
  have "length (wt_recv_timer d) \<le> 1" using wt_run_inv [OF assms(1)] by (simp add: poll_ok_def)
  moreover have "filter_mset fst (queued d + waiting d) = mset (map (\<lambda>(h, n). (True, h)) (wt_recv_timer d))"
    by (simp add: queued_def waiting_def e filter_reads filter_writes del: mset_map)
  ultimately show False using assms(2) by simp
qed

text \<open>On a closed device every task completes its operation and none starts another.\<close>

lemma closed_task:
  assumes "\<not> wd_opened d" shows "wt_tasks (wt_run_task t d) = wt_tasks d \<and> wd_opened (wt_run_task t d) = wd_opened d"
  using assms by (cases t) (auto simp: recv_poll_loop_def send_try_and_maybe_retry_def recv_one_def send_try_def wt_complete_def)

lemma closed_drains: "\<not> wd_opened d \<Longrightarrow> poll_ok d \<Longrightarrow> wt_tasks ((wt_run_next ^^ length (wt_tasks d)) d) = [] \<and>
   poll_ok ((wt_run_next ^^ length (wt_tasks d)) d) \<and> \<not> wd_opened ((wt_run_next ^^ length (wt_tasks d)) d) \<and>
   all_toks ((wt_run_next ^^ length (wt_tasks d)) d) = all_toks d"
proof (induction "length (wt_tasks d)" arbitrary: d)
  case (Suc n)
  obtain t ts where t: "wt_tasks d = t # ts" "length ts = n" using Suc.hyps(2) by (cases "wt_tasks d") auto
  have r: "wt_run_next d = wt_run_task t (d\<lparr>wt_tasks := ts\<rparr>)" by (simp add: wt_run_next_def t)
  have c: "wt_tasks (wt_run_next d) = ts" "\<not> wd_opened (wt_run_next d)" using closed_task [of "d\<lparr>wt_tasks := ts\<rparr>" t] Suc.prems(1) by (simp_all add: r)
  have k: "poll_ok (wt_run_next d)" "all_toks (wt_run_next d) = all_toks d" using wt_run_next_toks [OF Suc.prems(2)] by simp_all
  have "(wt_run_next ^^ length (wt_tasks d)) d = (wt_run_next ^^ length (wt_tasks (wt_run_next d))) (wt_run_next d)"
    by (simp add: t c(1) funpow_swap1)
  thus ?case using Suc.hyps(1) [of "wt_run_next d"] c k t by simp
qed simp

text \<open>
  C37. Closing completes every read and write: after it, running the tasks queued on the strand completes
  each operation ever submitted, once, and leaves nothing waiting on a timer.
\<close>

theorem wintun_close_completes:
  assumes "wt_run w os0 subs d os" "wt_close d os = (d', os')"
  shows "completed ((wt_run_next ^^ length (wt_tasks d')) d') = subs \<and> waiting ((wt_run_next ^^ length (wt_tasks d')) d') = {#}"
proof -
  have i: "all_toks d = subs" "poll_ok d" using wt_run_inv [OF assms(1)] by simp_all
  have c: "all_toks d' = subs" "poll_ok d'" "\<not> wd_opened d'" using wt_close_toks [OF i(2) assms(2)] i(1) by simp_all
  let ?e = "(wt_run_next ^^ length (wt_tasks d')) d'"
  have e: "wt_tasks ?e = []" "poll_ok ?e" "\<not> wd_opened ?e" "all_toks ?e = subs" using closed_drains [OF c(3,2)] c(1) by simp_all
  thus ?thesis by (simp add: all_toks_def poll_defs)
qed

text \<open>An empty write is put into the ring each time it is tried, but counts as not yet done.\<close>

lemma wintun_empty_write_repeats:
  assumes "wd_opened d" "wd_send_ring d = Some r" "ring_ok r ps" "used ps + 8 \<le> cap"
  shows "\<exists>r'. wd_send_ring (send_try_and_maybe_retry h [] d) = Some r' \<and> ring_ok r' (ps @ [[]]) \<and>
    wt_send_timer (send_try_and_maybe_retry h [] d) = [(h, [])] \<and> wt_done (send_try_and_maybe_retry h [] d) = wt_done d"
proof -
  have "plen [] = 4" by (simp add: plen_def)
  then obtain r' where "put_packet [] r = (Inr 0, Some r')" "ring_ok r' (ps @ [[]])"
    using put_packet_queue [OF assms(3), of "[]"] assms(4) by auto
  thus ?thesis using assms(1,2) by (auto simp: send_try_and_maybe_retry_def send_try_def cancel_send_timer_def)
qed

section \<open>Samples\<close>

text \<open>A system on which every call succeeds, and one on which mapping the second ring fails.\<close>

definition sample_windows :: windows where
  "sample_windows = \<lparr>w_fails = (\<lambda>tr c. False), w_last_error = (\<lambda>tr. 5), w_load_error = 0, w_wide_empty = (\<lambda>s. s = []),
     w_driver_mtu = (\<lambda>tr. 1500), w_pton4 = (\<lambda>s. None), w_registry = \<lparr>rg_units = None, rg_conns = None\<rparr>\<rparr>"

definition sample_windows_full :: windows where
  "sample_windows_full = sample_windows\<lparr>w_fails := (\<lambda>tr c. c = Map_view \<and> c \<in> set tr)\<rparr>"

definition sample_win_os :: win_os where
  "sample_win_os = \<lparr>wo_open = {#3#}, wo_next = 4, wo_bad_close = False, wo_trace = []\<rparr>"

lemma sample_wt_ok: "wt_ok wintun_tun_device_new sample_win_os {#3#}"
  by (simp add: wt_ok_def wintun_tun_device_new_def held_def owns_def win_sane_def sample_win_os_def)

theorem wintun_open_owns_witness:
  "wt_ok (fst (snd (wt_open sample_windows_full [] 1500 wintun_tun_device_new sample_win_os)))
     (snd (snd (wt_open sample_windows_full [] 1500 wintun_tun_device_new sample_win_os))) {#3#}"
  using wintun_open_owns [OF sample_wt_ok, of sample_windows_full "[]" 1500] by (metis prod.collapse)

theorem wintun_assign_owns_witness:
  "case fst (wt_assign sample_windows_full (Some 3) 1500 wintun_tun_device_new sample_win_os) of
     None \<Rightarrow> True
   | Some ec \<Rightarrow> \<not> wd_opened (fst (snd (wt_assign sample_windows_full (Some 3) 1500 wintun_tun_device_new sample_win_os)))"
proof -
  have "wt_ok wintun_tun_device_new sample_win_os ({#} + opt (Some 3))" using sample_wt_ok by simp
  from wintun_assign_owns [OF this, of sample_windows_full 1500] show ?thesis
    by (cases "wt_assign sample_windows_full (Some 3) 1500 wintun_tun_device_new sample_win_os") (auto split: option.splits)
qed

definition sample_reads :: wintun_tun_device where
  "sample_reads = wt_async_read 2 1500 (wt_async_read 1 1500 wintun_tun_device_new)"

lemma sample_reads_run: "wt_run sample_windows sample_win_os {#(True, 1), (True, 2)#} sample_reads sample_win_os"
proof -
  have "wt_run sample_windows sample_win_os ({#} + wt_submits (Wt_read 1 1500)) (wt_async_read 1 1500 wintun_tun_device_new) sample_win_os"
    by (rule wt_run.event [OF wt_run.start]) simp
  hence "wt_run sample_windows sample_win_os ({#} + wt_submits (Wt_read 1 1500) + wt_submits (Wt_read 2 1500)) sample_reads sample_win_os"
    by (rule wt_run.event) (simp add: sample_reads_def)
  thus ?thesis by (simp add: add_mset_commute)
qed

theorem wintun_strand_never_idle_witness: "wt_tasks sample_reads \<noteq> []"
  by (rule wintun_strand_never_idle [OF sample_reads_run])
    (simp add: sample_reads_def wt_async_read_def wintun_tun_device_new_def queued_def waiting_def)

theorem wintun_close_completes_witness:
  "completed ((wt_run_next ^^ length (wt_tasks (fst (wt_close sample_reads sample_win_os)))) (fst (wt_close sample_reads sample_win_os))) = {#(True, 1), (True, 2)#}"
  using wintun_close_completes [OF sample_reads_run prod.collapse [symmetric]] by simp

end
