(* ===== verification/Windows_Tap.thy ===== *)
theory Windows_Tap
  imports Windows_Api
begin

text \<open>
  The device on top of the TAP-Windows driver (\<^verbatim>\<open>src/tun_device_windows.cpp\<close>,
  \<^verbatim>\<open>include/tunio/detail/impl/tun_device_windows.hpp\<close>): which adapters of the registry are TAP adapters,
  which of them a configured name means, opening and closing the device.
\<close>

section \<open>Strings\<close>

text \<open>\<^verbatim>\<open>std::tolower\<close> on bytes in the C locale.\<close>

definition to_lower :: "char \<Rightarrow> char" where
  "to_lower c = (let n = of_char c :: nat in if 65 \<le> n \<and> n \<le> 90 then char_of (n + 32) else c)"

definition ascii_lower :: "string \<Rightarrow> string" where
  "ascii_lower s = map to_lower s"

definition iequals :: "string \<Rightarrow> string \<Rightarrow> bool" where
  "iequals lhs rhs \<longleftrightarrow> length lhs = length rhs \<and> list_all2 (\<lambda>a b. to_lower a = to_lower b) lhs rhs"

definition strip_braces :: "string \<Rightarrow> string" where
  "strip_braces s = filter (\<lambda>c. c \<noteq> CHR ''{'' \<and> c \<noteq> CHR ''}'') s"

definition starts_with :: "string \<Rightarrow> string \<Rightarrow> bool" where
  "starts_with p s \<longleftrightarrow> take (length p) s = p"

fun contains :: "string \<Rightarrow> string \<Rightarrow> bool" where
  "contains p [] = (p = [])"
| "contains p (c # s) = (starts_with p (c # s) \<or> contains p s)"

text \<open>\<^verbatim>\<open>std::string::find\<close> of a character from a position; \<^verbatim>\<open>npos\<close> is \<open>None\<close>.\<close>

definition find_from :: "char \<Rightarrow> nat \<Rightarrow> string \<Rightarrow> nat option" where
  "find_from c i s = (let n = length (takeWhile (\<lambda>x. x \<noteq> c) (drop i s)) in if i + n < length s then Some (i + n) else None)"

text \<open>The beginning of device paths, and the path of a TAP adapter.\<close>

definition backslash :: char where "backslash = CHR 0x5C"

definition device_prefix :: string where
  "device_prefix = [backslash, backslash, CHR ''.'', backslash]"

definition tap_path :: "string \<Rightarrow> string" where
  "tap_path guid = device_prefix @ ''Global'' @ [backslash] @ guid @ ''.tap''"

section \<open>Which adapters there are\<close>

record tap_device_info =
  td_component_id :: string
  td_guid :: string
  td_name :: string
  td_driver_desc :: string

definition normalize_component_id :: "string \<Rightarrow> string" where
  "normalize_component_id s = (let s = ascii_lower s in if starts_with (''root'' @ [backslash]) s then drop 5 s else s)"

definition is_tap_component :: "string \<Rightarrow> bool" where
  "is_tap_component s \<longleftrightarrow> s \<in> set [''tap0901'', ''tapnordvpn'', ''tap-tb-0901''] \<or> starts_with ''tap'' s"

definition tap_unit :: "reg_unit \<Rightarrow> tap_device_info option" where
  "tap_unit u =
     (case ru_instance_id u of
        None \<Rightarrow> None
      | Some inst \<Rightarrow>
          let component = (case ru_component_id u of Some s \<Rightarrow> normalize_component_id s
                | None \<Rightarrow> (case ru_matching_id u of Some s \<Rightarrow> normalize_component_id s | None \<Rightarrow> []));
              is_tap = (is_tap_component component \<or> (case ru_desc u of None \<Rightarrow> False | Some s \<Rightarrow> contains ''tap'' (ascii_lower s)))
          in if is_tap
             then Some \<lparr>td_component_id = component, td_guid = inst, td_name = [], td_driver_desc = (case ru_desc u of None \<Rightarrow> [] | Some s \<Rightarrow> s)\<rparr>
             else None)"

definition name_connection :: "string \<times> string option option \<Rightarrow> tap_device_info list \<Rightarrow> tap_device_info list" where
  "name_connection c devs =
     (case c of
        (guid, Some (Some name)) \<Rightarrow> map (\<lambda>dev. if iequals (td_guid dev) guid then dev\<lparr>td_name := name\<rparr> else dev) devs
      | _ \<Rightarrow> devs)"

text \<open>Without the branch of the connections the names stay empty.\<close>

definition enum_tap_devices :: "registry \<Rightarrow> tap_device_info list" where
  "enum_tap_devices rg =
     (case rg_units rg of
        None \<Rightarrow> []
      | Some units \<Rightarrow>
          let devs = concat (map (\<lambda>u. case u of None \<Rightarrow> [] | Some u \<Rightarrow> (case tap_unit u of None \<Rightarrow> [] | Some dev \<Rightarrow> [dev])) units)
          in case rg_conns rg of
               None \<Rightarrow> devs
             | Some conns \<Rightarrow>
                 map (\<lambda>dev. if td_name dev = [] then dev\<lparr>td_name := td_driver_desc dev\<rparr> else dev) (fold name_connection conns devs))"

section \<open>Which adapter a name means\<close>

fun first_guid :: "(tap_device_info \<Rightarrow> bool) \<Rightarrow> tap_device_info list \<Rightarrow> string option" where
  "first_guid P [] = None"
| "first_guid P (dev # devs) = (if P dev then Some (td_guid dev) else first_guid P devs)"

definition resolve_tap_guid :: "tap_device_info list \<Rightarrow> string \<Rightarrow> string" where
  "resolve_tap_guid devs name =
     (if devs = [] then []
      else if name = [] then td_guid (hd devs)
      else if length name > 4 \<and> starts_with device_prefix name then
        (case find_from (CHR ''{'') 0 name of
           None \<Rightarrow> []
         | Some open_at \<Rightarrow>
             (case find_from (CHR ''}'') open_at name of
                None \<Rightarrow> []
              | Some close_at \<Rightarrow>
                  (case first_guid (\<lambda>dev. iequals (td_guid dev) (take (close_at - open_at + 1) (drop open_at name))) devs of
                     Some g \<Rightarrow> g
                   | None \<Rightarrow> [])))
      else
        let bare = strip_braces name in
        case first_guid (\<lambda>dev. iequals (td_guid dev) name \<or> iequals (strip_braces (td_guid dev)) bare) devs of
          Some g \<Rightarrow> g
        | None \<Rightarrow>
            let norm_name = normalize_component_id name in
            case first_guid (\<lambda>dev. iequals (td_name dev) name \<or> iequals (td_component_id dev) norm_name) devs of
              Some g \<Rightarrow> g
            | None \<Rightarrow> [])"

section \<open>The device\<close>

record windows_tun_device =
  tap_handle :: "nat option"
  tap_mtu :: nat
  tap_open :: bool

definition windows_tun_device_new :: windows_tun_device where
  "windows_tun_device_new = \<lparr>tap_handle = None, tap_mtu = 1500, tap_open = False\<rparr>"

definition set_interface_mtu :: "windows \<Rightarrow> string \<Rightarrow> int \<Rightarrow> win_os \<Rightarrow> win_os" where
  "set_interface_mtu w guid m os =
     (if m \<le> 0 then os
      else
        let (okay, os) = win_do w (Adapter_index guid) os
        in if okay then set_mtu_for_family w True (nat (max m 1280)) (set_mtu_for_family w False (nat m) os) else os)"

text \<open>asio takes a handle over only when it has none; a failure leaves the handle to the caller.\<close>

definition tap_assign :: "windows \<Rightarrow> nat \<Rightarrow> nat \<Rightarrow> windows_tun_device \<Rightarrow> win_os \<Rightarrow> error_code option \<times> windows_tun_device \<times> win_os" where
  "tap_assign w handle m d os =
     (if tap_handle d \<noteq> None then (Some (EC_other 1), d, os)
      else
        let (okay, os) = win_do w (Assign_handle handle) os
        in if okay then (None, d\<lparr>tap_handle := Some handle, tap_open := True, tap_mtu := m\<rparr>, os) else (Some (win_last_error w os), d, os))"

definition tap_assign_queues :: "nat list \<Rightarrow> windows_tun_device \<Rightarrow> error_code option \<times> windows_tun_device" where
  "tap_assign_queues handles d = (Some (EC_other 95), d)"

definition tap_close :: "windows \<Rightarrow> windows_tun_device \<Rightarrow> win_os \<Rightarrow> windows_tun_device \<times> win_os" where
  "tap_close w d os =
     (if \<not> tap_open d then (d, os)
      else
        let os = (case tap_handle d of None \<Rightarrow> os | Some h \<Rightarrow> snd (win_do w (Tap_ioctl h (Tap_media_status False)) os))
        in (d\<lparr>tap_open := False, tap_handle := None\<rparr>, win_release Close_handle (tap_handle d) os))"

text \<open>The addresses for the driver: local address, network and mask, in network byte order.\<close>

definition tun_addrs :: "windows \<Rightarrow> string \<Rightarrow> string \<Rightarrow> (32 word \<times> 32 word \<times> 32 word) option" where
  "tun_addrs w ipv4 netmask =
     (if ipv4 = [] then Some (0, 0, 0)
      else case (w_pton4 w ipv4, w_pton4 w (if netmask = [] then ''255.255.255.0'' else netmask)) of
             (Some a, Some m) \<Rightarrow> Some (a, m AND a, m)
           | _ \<Rightarrow> None)"

definition tap_open_device ::
  "windows \<Rightarrow> string \<Rightarrow> string \<Rightarrow> string \<Rightarrow> nat \<Rightarrow> windows_tun_device \<Rightarrow> win_os \<Rightarrow> error_code option \<times> windows_tun_device \<times> win_os" where
  "tap_open_device w name ipv4 netmask cfg_mtu d os =
     (let (d, os) = tap_close w d os; guid = resolve_tap_guid (enum_tap_devices (w_registry w)) name in
      if guid = [] then (Some (EC_other 2), d, os)
      else
        let (h, os) = win_new w (Create_file (tap_path guid)) os in
        case h of
          None \<Rightarrow> (Some (win_last_error w os), d, os)
        | Some handle \<Rightarrow>
            let give_up = (\<lambda>ec os. (Some ec, d, win_release Close_handle (Some handle) os));
                (okay, os) = win_do w (Tap_ioctl handle Tap_get_version) os
            in if \<not> okay then give_up (win_last_error w os) os
               else case tun_addrs w ipv4 netmask of
                 None \<Rightarrow> give_up (EC_other 10022) os
               | Some (a0, a1, a2) \<Rightarrow>
                   let (okay, os) = win_do w (Tap_ioctl handle (Tap_config_tun a0 a1 a2)) os in
                   if \<not> okay then give_up (win_last_error w os) os
                   else
                     let (okay, os) = win_do w (Tap_ioctl handle Tap_get_mtu) os;
                         driver = (if \<not> okay \<or> w_driver_mtu w (wo_trace os) = 0 then 1500 else w_driver_mtu w (wo_trace os));
                         m = max (if cfg_mtu > 0 then cfg_mtu else driver) 576;
                         os = (if ipv4 = [] then os else snd (win_do w (Tap_ioctl handle (Tap_dhcp_masq a0 a2 a1 86400)) os));
                         (okay, os) = win_do w (Tap_ioctl handle (Tap_media_status True)) os
                     in if \<not> okay then give_up (win_last_error w os) os
                        else
                          let os = set_interface_mtu w guid (sint (of_nat m :: 32 word)) os;
                              (okay, os) = win_do w (Assign_handle handle) os
                          in if \<not> okay then give_up (win_last_error w os) os
                             else (None, d\<lparr>tap_handle := Some handle, tap_open := True, tap_mtu := m\<rparr>, os))"

definition tap_read_size_hint :: "windows_tun_device \<Rightarrow> nat" where
  "tap_read_size_hint d = tap_mtu d"

section \<open>Names\<close>

lemma iequals_lower: "iequals a b \<longleftrightarrow> ascii_lower a = ascii_lower b"
  by (auto simp: iequals_def ascii_lower_def list_all2_conv_all_nth list_eq_iff_nth_eq)

lemma to_lower_brace: "to_lower c = CHR ''{'' \<longleftrightarrow> c = CHR ''{''" "to_lower c = CHR ''}'' \<longleftrightarrow> c = CHR ''}''"
proof -
  have "of_char (to_lower c) = (let n = of_char c :: nat in if 65 \<le> n \<and> n \<le> 90 then n + 32 else n)"
    by (simp add: to_lower_def Let_def)
  moreover have "of_char (CHR ''{'') = (123 :: nat)" "of_char (CHR ''}'') = (125 :: nat)" by code_simp+
  ultimately have "(of_char (to_lower c) = (123 :: nat) \<longleftrightarrow> of_char c = (123 :: nat)) \<and> (of_char (to_lower c) = (125 :: nat) \<longleftrightarrow> of_char c = (125 :: nat))"
    by (auto simp: Let_def)
  thus "to_lower c = CHR ''{'' \<longleftrightarrow> c = CHR ''{''" "to_lower c = CHR ''}'' \<longleftrightarrow> c = CHR ''}''"
    unfolding of_char_eq_iff [where 'a = nat, symmetric] by simp_all
qed

lemma lower_strip: "ascii_lower (strip_braces s) = strip_braces (ascii_lower s)"
  by (simp add: ascii_lower_def strip_braces_def filter_map comp_def to_lower_brace)

lemma first_guid_unique:
  assumes "dev \<in> set devs" "P dev" "\<And>e. e \<in> set devs \<Longrightarrow> P e \<Longrightarrow> td_guid e = g" shows "first_guid P devs = Some g"
  using assms by (induction devs) auto

lemma find_from_here: "find_from c (length a) (a @ b @ [c] @ d) = Some (length a + length b)" if "c \<notin> set b"
proof -
  have "takeWhile (\<lambda>x. x \<noteq> c) (b @ [c] @ d) = b" using that by (simp add: takeWhile_append)
  thus ?thesis by (simp add: find_from_def Let_def)
qed

text \<open>
  An adapter is found by its identifier in every form: with braces, without them, and as the device
  path that opening it uses, each in any case of letters, whatever other adapters there are. The result
  is the identifier as the registry has it.
\<close>

theorem tap_guid_forms:
  assumes "dev \<in> set devs" "td_guid dev = ''{'' @ x @ ''}''" "\<forall>c\<in>set x. c \<noteq> CHR ''{'' \<and> c \<noteq> CHR ''}''" "x \<noteq> []"
    and uniq: "\<And>e. e \<in> set devs \<Longrightarrow> ascii_lower (strip_braces (td_guid e)) = ascii_lower x \<Longrightarrow> td_guid e = td_guid dev"
    and x': "ascii_lower x' = ascii_lower x" "\<not> starts_with device_prefix x'"
  shows "resolve_tap_guid devs (''{'' @ x' @ ''}'') = td_guid dev \<and> resolve_tap_guid devs x' = td_guid dev \<and>
    resolve_tap_guid devs (tap_path (''{'' @ x' @ ''}'')) = td_guid dev"
proof -
  have nb: "strip_braces x = x" using assms(3) by (simp add: strip_braces_def)
  have lx: "strip_braces x' = x'" "\<forall>c\<in>set x'. c \<noteq> CHR ''{'' \<and> c \<noteq> CHR ''}''" "x' \<noteq> []"
  proof -
    have "length x' = length x" using arg_cong [OF x'(1), of length] by (simp add: ascii_lower_def)
    thus "x' \<noteq> []" using assms(4) by auto
    have "to_lower c \<in> to_lower ` set x" if "c \<in> set x'" for c
      using arg_cong [OF x'(1), of set] that by (auto simp: ascii_lower_def)
    thus "\<forall>c\<in>set x'. c \<noteq> CHR ''{'' \<and> c \<noteq> CHR ''}''" using assms(3) to_lower_brace by (metis imageE)
    thus "strip_braces x' = x'" by (simp add: strip_braces_def)
  qed
  have g: "strip_braces (td_guid dev) = x" using nb by (simp add: assms(2) strip_braces_def)
  have strip: "ascii_lower a = ascii_lower b \<Longrightarrow> ascii_lower (strip_braces a) = ascii_lower (strip_braces b)" for a b by (simp add: lower_strip)
  define br where "br = ''{'' @ x' @ ''}''"
  have braced: "strip_braces br = x'" using lx(1) by (simp add: br_def strip_braces_def)
  have by_guid: "ascii_lower (strip_braces a) = ascii_lower x'" if "iequals a br \<or> iequals (strip_braces a) x'" for a
    using that strip [of a br] unfolding iequals_lower braced by blast
  have found: "first_guid P devs = Some (td_guid dev)"
    if "P dev" "\<And>e. P e \<Longrightarrow> ascii_lower (strip_braces (td_guid e)) = ascii_lower x'" for P
    by (rule first_guid_unique [where P = P and dev = dev and devs = devs]) (use assms(1) that uniq x'(1) in auto)
  have dl: "ascii_lower (td_guid dev) = ascii_lower br" using x'(1) by (simp add: assms(2) br_def ascii_lower_def)
  have ne: "devs \<noteq> []" using assms(1) by auto
  have 1: "resolve_tap_guid devs br = td_guid dev"
  proof -
    have "first_guid (\<lambda>e. iequals (td_guid e) br \<or> iequals (strip_braces (td_guid e)) (strip_braces br)) devs = Some (td_guid dev)"
      unfolding braced by (rule found) (use dl by_guid in \<open>simp_all add: iequals_lower [of "td_guid dev"]\<close>)
    moreover have "\<not> starts_with device_prefix br" by (simp add: br_def starts_with_def device_prefix_def backslash_def)
    moreover have "br \<noteq> []" by (simp add: br_def)
    ultimately show ?thesis using ne by (simp add: resolve_tap_guid_def Let_def)
  qed
  have 2: "resolve_tap_guid devs x' = td_guid dev"
  proof -
    have "first_guid (\<lambda>e. iequals (td_guid e) x' \<or> iequals (strip_braces (td_guid e)) (strip_braces x')) devs = Some (td_guid dev)"
      unfolding lx(1)
    proof (rule found)
      show "iequals (td_guid dev) x' \<or> iequals (strip_braces (td_guid dev)) x'" using g x'(1) by (simp add: iequals_lower)
      show "ascii_lower (strip_braces (td_guid e)) = ascii_lower x'" if "iequals (td_guid e) x' \<or> iequals (strip_braces (td_guid e)) x'" for e
        using that strip [of "td_guid e" x'] unfolding iequals_lower lx(1) by blast
    qed
    thus ?thesis using ne lx(3) x'(2) by (simp add: resolve_tap_guid_def Let_def)
  qed
  have 3: "resolve_tap_guid devs (tap_path br) = td_guid dev"
  proof -
    let ?p = "device_prefix @ ''Global'' @ [backslash]"
    have e: "tap_path br = ?p @ [CHR ''{''] @ x' @ [CHR ''}''] @ ''.tap''" by (simp add: tap_path_def br_def)
    have l: "length ?p = 11" by (simp add: device_prefix_def)
    have "CHR ''{'' \<notin> set ?p" by (simp add: device_prefix_def backslash_def)
    hence o: "find_from (CHR ''{'') 0 (tap_path br) = Some 11"
      using find_from_here [where c = "CHR ''{''" and b = ?p and a = "[]" and d = "x' @ [CHR ''}''] @ ''.tap''"] l by (simp add: e)
    have "CHR ''}'' \<notin> set (CHR ''{'' # x')" using lx(2) by auto
    hence c: "find_from (CHR ''}'') 11 (tap_path br) = Some (12 + length x')"
      using find_from_here [where c = "CHR ''}''" and b = "CHR ''{'' # x'" and a = ?p and d = "''.tap''"] l by (simp add: e)
    have s: "take (Suc (Suc (length x'))) (drop 11 (tap_path br)) = br"
      unfolding e by (simp add: device_prefix_def br_def)
    have "first_guid (\<lambda>e. iequals (td_guid e) br) devs = Some (td_guid dev)"
      by (rule found) (use dl by_guid in \<open>simp_all add: iequals_lower [of "td_guid dev"]\<close>)
    moreover have "starts_with device_prefix (tap_path br)" "4 < length (tap_path br)"
      by (simp_all add: starts_with_def tap_path_def device_prefix_def)
    moreover have "tap_path br \<noteq> []" by (simp add: tap_path_def device_prefix_def)
    ultimately show ?thesis using ne o c s by (simp add: resolve_tap_guid_def)
  qed
  show ?thesis using 1 2 3 by (simp add: br_def)
qed

section \<open>Handles\<close>

text \<open>The device holds what asio holds for it, and that exactly while it is open.\<close>

definition tap_ok :: "windows_tun_device \<Rightarrow> win_os \<Rightarrow> nat multiset \<Rightarrow> bool" where
  "tap_ok d os F \<longleftrightarrow> owns (opt (tap_handle d)) F os \<and> (tap_open d \<longleftrightarrow> tap_handle d \<noteq> None)"

lemma owns_did: "owns H F os \<Longrightarrow> owns H F (snd (win_do w c os))"
  using owns_do [of H F os w c, OF _ surjective_pairing] .

lemma set_mtu_owns: "owns H F os \<Longrightarrow> owns H F (set_mtu_for_family w v6 v os)"
  by (simp add: set_mtu_for_family_def Let_def case_prod_unfold owns_did)

lemma set_interface_mtu_owns: "owns H F os \<Longrightarrow> owns H F (set_interface_mtu w guid m os)"
  by (simp add: set_interface_mtu_def Let_def case_prod_unfold owns_did set_mtu_owns)

lemma owns_give_back: "owns {#h#} F os \<Longrightarrow> owns {#} F (win_release Close_handle (Some h) os)"
  by (rule owns_release) simp

lemma tap_close_ok:
  assumes "tap_ok d os F" "tap_close w d os = (d', os')"
  shows "tap_ok d' os' F \<and> \<not> tap_open d' \<and> tap_handle d' = None \<and> owns {#} F os'"
proof (cases "tap_open d")
  case True
  then obtain h where h: "tap_handle d = Some h" "owns {#h#} F os" using assms(1) by (auto simp: tap_ok_def)
  have "owns {#} F (win_release Close_handle (Some h) (snd (win_do w (Tap_ioctl h (Tap_media_status False)) os)))"
    by (intro owns_give_back owns_did h(2))
  thus ?thesis using assms(2) True h(1) by (auto simp: tap_close_def tap_ok_def)
next
  case False
  thus ?thesis using assms by (auto simp: tap_close_def tap_ok_def)
qed

text \<open>
  Opening a TAP device never leaks a handle and never closes another's: whichever request to the
  driver fails, and also when an address of the configuration does not parse, the handle of the adapter is
  closed once and the device is left closed. A device that is open has an MTU of at least 576.
\<close>

theorem tap_open_owns:
  assumes "tap_ok d os F" "tap_open_device w name ipv4 netmask m d os = (res, d', os')"
  shows "tap_ok d' os' F \<and> (tap_open d' \<longleftrightarrow> res = None) \<and> (res = None \<longrightarrow> max m 576 \<le> tap_mtu d')"
proof -
  obtain d0 os0 where c: "tap_close w d os = (d0, os0)" by fastforce
  have 0: "tap_ok d0 os0 F" "\<not> tap_open d0" "tap_handle d0 = None" "owns {#} F os0" using tap_close_ok [OF assms(1) c] by simp_all
  show ?thesis
  proof (cases "resolve_tap_guid (enum_tap_devices (w_registry w)) name = []")
    case True
    thus ?thesis using assms(2) 0 by (auto simp: tap_open_device_def c)
  next
    case False
    define path where "path = tap_path (resolve_tap_guid (enum_tap_devices (w_registry w)) name)"
    obtain h os1 where h: "win_new w (Create_file path) os0 = (h, os1)" by fastforce
    have o1: "owns (opt h) F os1" using owns_new [OF 0(4) h] by simp
    show ?thesis
    proof (cases h)
      case None
      hence "d' = d0" "os' = os1" "res \<noteq> None" using assms(2) False h by (auto simp: tap_open_device_def c path_def [symmetric] Let_def)
      thus ?thesis using 0 o1 None by (auto simp: tap_ok_def)
    next
      case (Some n)
      have o: "owns {#n#} F os1" using o1 Some by simp
      have closed: "tap_ok d0 (win_release Close_handle (Some n) os2) F" if "owns {#n#} F os2" for os2
        using owns_give_back [OF that] 0(2,3) by (simp add: tap_ok_def)
      have opened: "tap_ok (d0\<lparr>tap_handle := Some n, tap_open := True, tap_mtu := k\<rparr>) os2 F" if "owns {#n#} F os2" for os2 k
        using that by (simp add: tap_ok_def)
      note steps = closed opened owns_did set_interface_mtu_owns o
      have "tap_ok (fst (snd (tap_open_device w name ipv4 netmask m d os))) (snd (snd (tap_open_device w name ipv4 netmask m d os))) F \<and>
          (tap_open (fst (snd (tap_open_device w name ipv4 netmask m d os))) \<longleftrightarrow> fst (tap_open_device w name ipv4 netmask m d os) = None) \<and>
          (fst (tap_open_device w name ipv4 netmask m d os) = None \<longrightarrow> max m 576 \<le> tap_mtu (fst (snd (tap_open_device w name ipv4 netmask m d os))))"
        unfolding tap_open_device_def c
        by (simp add: False path_def [symmetric] h Some Let_def case_prod_unfold steps 0(2) split: option.split)
      thus ?thesis by (simp add: assms(2))
    qed
  qed
qed

section \<open>Samples\<close>

text \<open>One adapter, found by its display name, whose driver refuses the TUN mode.\<close>

definition sample_registry :: registry where
  "sample_registry = \<lparr>rg_units = Some [None, Some \<lparr>ru_component_id = Some ''TAP0901'', ru_matching_id = None, ru_instance_id = Some ''{A1}'', ru_desc = Some ''TAP V9''\<rparr>],
     rg_conns = Some [(''{a1}'', Some (Some ''Office''))]\<rparr>"

definition sample_tap_windows :: windows where
  "sample_tap_windows = \<lparr>w_fails = (\<lambda>tr c. c = Tap_ioctl 4 (Tap_config_tun 0 0 0)), w_last_error = (\<lambda>tr. 5), w_load_error = 0,
     w_wide_empty = (\<lambda>s. s = []), w_driver_mtu = (\<lambda>tr. 1500), w_pton4 = (\<lambda>s. None), w_registry = sample_registry\<rparr>"

definition sample_tap_os :: win_os where
  "sample_tap_os = \<lparr>wo_open = {#3#}, wo_next = 4, wo_bad_close = False, wo_trace = []\<rparr>"

lemma sample_resolve: "resolve_tap_guid (enum_tap_devices sample_registry) ''office'' = ''{A1}''"
  by code_simp

lemma sample_tap_ok: "tap_ok windows_tun_device_new sample_tap_os {#3#}"
  by (simp add: tap_ok_def windows_tun_device_new_def owns_def win_sane_def sample_tap_os_def)

theorem tap_open_owns_witness:
  "tap_ok (fst (snd (tap_open_device sample_tap_windows ''office'' [] [] 1500 windows_tun_device_new sample_tap_os)))
     (snd (snd (tap_open_device sample_tap_windows ''office'' [] [] 1500 windows_tun_device_new sample_tap_os))) {#3#}"
  using tap_open_owns [OF sample_tap_ok, of sample_tap_windows "''office''" "[]" "[]" 1500] by (metis prod.collapse)

definition sample_adapter :: tap_device_info where
  "sample_adapter = \<lparr>td_component_id = ''tap0901'', td_guid = ''{A1}'', td_name = ''Office'', td_driver_desc = ''TAP V9''\<rparr>"

theorem tap_guid_forms_witness:
  "resolve_tap_guid [sample_adapter] (tap_path ''{a1}'') = ''{A1}''"
proof -
  have l: "ascii_lower ''a1'' = ascii_lower ''A1''" "\<not> starts_with device_prefix ''a1''" by code_simp+
  show ?thesis using tap_guid_forms [of sample_adapter "[sample_adapter]" "''A1''" "''a1''"] l
    by (simp add: sample_adapter_def)
qed

end
