(* ===== verification/C_Api.thy ===== *)
theory C_Api
  imports Tunio_Core
begin

text \<open>
  The C binding (\<^verbatim>\<open>bindings/c/src/c_api.cpp\<close>, \<^verbatim>\<open>bindings/c/include/tunio/c_api.h\<close>): the
  conversion of the configuration, the error codes a C caller sees, socket addresses, and what the blocking
  calls return for each outcome of the operation they wait for. The texts of error messages are left out; the
  thread's last error code is passed along.
\<close>

section \<open>Codes\<close>

definition tunio_ok :: int where "tunio_ok = 0"
definition tunio_efail :: int where "tunio_efail = - 1"
definition tunio_eclosed :: int where "tunio_eclosed = - 2"
definition tunio_econnreset :: int where "tunio_econnreset = - 3"
definition tunio_eparam :: int where "tunio_eparam = - 4"

lemmas c_codes = tunio_ok_def tunio_efail_def tunio_eclosed_def tunio_econnreset_def tunio_eparam_def

text \<open>\<^verbatim>\<open>static_cast<int>\<close> of a size and of a 64-bit integer.\<close>

definition int_of_size :: "nat \<Rightarrow> int" where
  "int_of_size n = sint (of_nat n :: 32 word)"

lemma int_of_size: "n < 2 ^ 31 \<Longrightarrow> int_of_size n = int n"
  unfolding int_of_size_def by (subst signed_of_nat) (simp add: signed_take_bit_int_eq_self)

text \<open>
  A function returns a code and leaves the thread's last error (\<^verbatim>\<open>g_last_error\<close>): \<open>fails\<close> returns the
  code it sets.
\<close>

type_synonym c_result = "int \<times> int"

definition fails :: "int \<Rightarrow> c_result" where "fails code = (code, code)"

definition error_from_ec :: "error_code \<Rightarrow> int \<Rightarrow> c_result" where
  "error_from_ec ec last_error =
     (if ec = EC_ok then (tunio_ok, last_error)
      else if ec = EC_eof then (tunio_ok, tunio_ok)
      else if ec = EC_operation_aborted \<or> ec = EC_bad_descriptor then fails tunio_eclosed
      else if ec = EC_connection_reset then fails tunio_econnreset
      else fails tunio_efail)"

definition async_err_code :: "error_code \<Rightarrow> int" where
  "async_err_code ec =
     (if ec = EC_ok then tunio_ok
      else if ec = EC_eof then tunio_ok
      else if ec = EC_operation_aborted \<or> ec = EC_bad_descriptor then tunio_eclosed
      else if ec = EC_connection_reset then tunio_econnreset
      else tunio_efail)"

lemma error_from_ec_code: "fst (error_from_ec ec le) = async_err_code ec"
  by (simp add: error_from_ec_def async_err_code_def fails_def)

section \<open>Configuration\<close>

record tunio_config =
  c_dev_name :: string
  c_ipv4_addr :: string
  c_netmask :: string
  c_ipv6_addr :: string
  c_ipv6_prefix_len :: byte
  c_mtu :: u32
  c_num_queues :: u32
  c_external_handle :: "64 word"
  c_external_mtu :: u32
  c_utun_prefix :: byte
  c_num_external_handles :: u32
  c_external_handles :: "64 word list"
  c_max_tcp_flows :: u32
  c_max_udp_flows :: u32
  c_max_rx_queue_per_flow :: u64
  c_tcp_ooo_max_segments :: u32
  c_max_total_buffer :: u64
  c_udp_idle_timeout_sec :: u32
  c_tcp_time_wait_timeout_sec :: u32
  c_tcp_accept_timeout_sec :: u32
  c_tcp_syn_timeout_sec :: u32
  c_tcp_close_timeout_sec :: u32
  c_tcp_persist_timeout_ms :: u32
  c_tcp_persist_max_probes :: "32 word"
  c_tcp_rto_timeout_ms :: u32
  c_tcp_rto_max_retransmits :: "32 word"

definition nul :: char where "nul = CHR 0x00"

text \<open>The character arrays have 64 elements, the array of handles 256.\<close>

definition tunio_config_init :: tunio_config where
  "tunio_config_init = \<lparr>c_dev_name = replicate 64 nul, c_ipv4_addr = replicate 64 nul, c_netmask = replicate 64 nul,
     c_ipv6_addr = replicate 64 nul, c_ipv6_prefix_len = 64, c_mtu = 1500, c_num_queues = 1, c_external_handle = - 1,
     c_external_mtu = 1500, c_utun_prefix = 0, c_num_external_handles = 0, c_external_handles = replicate 256 0,
     c_max_tcp_flows = 65536, c_max_udp_flows = 65536, c_max_rx_queue_per_flow = 8 * 1024 * 1024,
     c_tcp_ooo_max_segments = 4096, c_max_total_buffer = 512 * 1024 * 1024, c_udp_idle_timeout_sec = 30,
     c_tcp_time_wait_timeout_sec = 10, c_tcp_accept_timeout_sec = 30, c_tcp_syn_timeout_sec = 30, c_tcp_close_timeout_sec = 30,
     c_tcp_persist_timeout_ms = 5000, c_tcp_persist_max_probes = 15, c_tcp_rto_timeout_ms = 200, c_tcp_rto_max_retransmits = 8\<rparr>"

definition config_string :: "string \<Rightarrow> string" where
  "config_string buf = takeWhile (\<lambda>c. c \<noteq> nul) buf"

text \<open>A native handle is an \<^verbatim>\<open>int\<close> (POSIX).\<close>

definition handle_from_int64 :: "64 word \<Rightarrow> int" where
  "handle_from_int64 v = sint (ucast v :: 32 word)"

text \<open>The defaults of \<^verbatim>\<open>tun_config\<close> for what is not among the limits of the engines.\<close>

definition default_open_config :: open_config where
  "default_open_config = tun_config.extend default_config
     \<lparr>dev_name = [], ipv4_addr = [], netmask = [], ipv6_addr = [], ipv6_prefix_len = 64, num_queues = 1,
      external_handle = invalid_native_handle, external_mtu = 1500, external_handles = [], utun_prefix = False\<rparr>"

definition tunio_max_multi_queues :: nat where "tunio_max_multi_queues = 256"

definition config_to_tun :: "tunio_config \<Rightarrow> open_config \<Rightarrow> open_config option" where
  "config_to_tun c cfg =
     (let cfg = cfg\<lparr>dev_name := config_string (c_dev_name c), ipv4_addr := config_string (c_ipv4_addr c),
            netmask := config_string (c_netmask c), ipv6_addr := config_string (c_ipv6_addr c),
            ipv6_prefix_len := c_ipv6_prefix_len c, mtu := unat (c_mtu c), num_queues := unat (c_num_queues c),
            external_mtu := unat (c_external_mtu c), utun_prefix := c_utun_prefix c \<noteq> 0,
            max_tcp_flows := unat (c_max_tcp_flows c), max_udp_flows := unat (c_max_udp_flows c),
            max_rx_queue_per_flow := unat (c_max_rx_queue_per_flow c), tcp_ooo_max_segments := unat (c_tcp_ooo_max_segments c),
            max_total_buffer := unat (c_max_total_buffer c), udp_idle_timeout := 1000 * uint (c_udp_idle_timeout_sec c),
            tcp_time_wait_timeout := 1000 * uint (c_tcp_time_wait_timeout_sec c),
            tcp_accept_timeout := 1000 * uint (c_tcp_accept_timeout_sec c), tcp_syn_timeout := 1000 * uint (c_tcp_syn_timeout_sec c),
            tcp_close_timeout := 1000 * uint (c_tcp_close_timeout_sec c), tcp_persist_timeout := uint (c_tcp_persist_timeout_ms c),
            tcp_persist_max_probes := sint (c_tcp_persist_max_probes c), tcp_rto_timeout := uint (c_tcp_rto_timeout_ms c),
            tcp_rto_max_retransmits := sint (c_tcp_rto_max_retransmits c)\<rparr>;
          n = unat (c_num_external_handles c)
      in if n > 0 then
           if n > tunio_max_multi_queues then None
           else Some (cfg\<lparr>external_handles := external_handles cfg @ map handle_from_int64 (take n (c_external_handles c))\<rparr>)
         else if sint (c_external_handle c) \<ge> 0
         then Some (cfg\<lparr>external_handle := handle_from_int64 (c_external_handle c)\<rparr>)
         else Some cfg)"

lemma config_string_nul [simp]: "config_string (replicate n nul) = []"
  by (cases n) (simp_all add: config_string_def)

lemma config_string_text: "nul \<notin> set s \<Longrightarrow> config_string (s @ nul # r) = s"
  unfolding config_string_def by (subst takeWhile_append2) auto

section \<open>Socket addresses\<close>

text \<open>
  \<^verbatim>\<open>sockaddr_storage\<close> is 128 bytes: the family, the port in network order, then the IPv4 address at
  offset 4 or the IPv6 address at offset 8 (Linux).
\<close>

definition AF_INET :: u16 where "AF_INET = 2"
definition AF_INET6 :: u16 where "AF_INET6 = 10"

definition sockaddr_size :: nat where "sockaddr_size = 128"

definition endpoint_to_sockaddr :: "udp_endpoint \<Rightarrow> byte list" where
  "endpoint_to_sockaddr ep =
     (let ss = replicate sockaddr_size 0 in
      if \<not> ep_v6 ep then blit (blit (blit ss 0 (st16 AF_INET)) 2 (st16 (htons (ep_port ep)))) 4 (ep_addr ep)
      else blit (blit (blit ss 0 (st16 AF_INET6)) 2 (st16 (htons (ep_port ep)))) 8 (ep_addr ep))"

definition sockaddr_to_address :: "byte list \<Rightarrow> udp_endpoint option" where
  "sockaddr_to_address ss =
     (let family = le16 (ss ! 0) (ss ! 1); port = ntohs (le16 (ss ! 2) (ss ! 3)) in
      if family = AF_INET then Some \<lparr>ep_v6 = False, ep_addr = subl 4 4 ss, ep_port = port\<rparr>
      else if family = AF_INET6 then Some \<lparr>ep_v6 = True, ep_addr = subl 8 16 ss, ep_port = port\<rparr>
      else None)"

text \<open>An endpoint has an address of its family's length.\<close>

definition endpoint_ok :: "udp_endpoint \<Rightarrow> bool" where
  "endpoint_ok ep \<longleftrightarrow> length (ep_addr ep) = (if ep_v6 ep then 16 else 4)"

text \<open>
  Endpoints survive the trip through the socket addresses of the C interface: what a receive callback
  is given, passed back to a send, names the same address and port.
\<close>

theorem c_endpoint_round_trip:
  assumes "endpoint_ok ep"
  shows "length (endpoint_to_sockaddr ep) = 128 \<and> sockaddr_to_address (endpoint_to_sockaddr ep) = Some ep"
proof -
  define off where "off = (if ep_v6 ep then 8 else 4 :: nat)"
  define fam where "fam = (if ep_v6 ep then AF_INET6 else AF_INET)"
  define ss where "ss = blit (blit (replicate 128 0) 0 (st16 fam)) 2 (st16 (htons (ep_port ep)))"
  have e: "endpoint_to_sockaddr ep = blit ss off (ep_addr ep)"
    by (simp add: endpoint_to_sockaddr_def ss_def off_def fam_def sockaddr_size_def Let_def)
  have l: "length ss = 128" "off + length (ep_addr ep) \<le> 128" "4 \<le> off"
    using assms by (simp_all add: ss_def endpoint_ok_def off_def)
  have b: "blit ss off (ep_addr ep) ! k = ss ! k" if "k < 4" for k using that l by (simp add: nth_blit)
  have f: "le16 (ss ! 0) (ss ! 1) = fam" "ntohs (le16 (ss ! 2) (ss ! 3)) = ep_port ep"
    by (simp_all add: ss_def nth_blit net_simps) (simp_all add: st16_def le16_def)
  define t where "t = blit ss off (ep_addr ep)"
  have h: "le16 (t ! 0) (t ! 1) = fam" "ntohs (le16 (t ! 2) (t ! 3)) = ep_port ep"
    unfolding t_def using b [of 0] b [of 1] b [of 2] b [of 3] f by (simp_all del: One_nat_def)
  have a: "subl off (length (ep_addr ep)) t = ep_addr ep" "length t = 128" using l by (simp_all add: t_def)
  have "sockaddr_to_address t = Some ep"
    using a(1) assms unfolding sockaddr_to_address_def Let_def h
    by (cases "ep_v6 ep") (simp_all add: off_def fam_def AF_INET_def AF_INET6_def endpoint_ok_def)
  thus ?thesis using a(2) by (simp add: e t_def)
qed

section \<open>Blocking calls\<close>

text \<open>
  What a blocking call meets: whether the engine is closed when it looks first and when it registers the
  operation (\<^verbatim>\<open>begin_op\<close>), whether starting the operation throws, and how the operation ends.
\<close>

record call_env =
  cl_closed :: bool
  cl_closed_later :: bool
  cl_throws :: bool
  cl_ec :: error_code
  cl_n :: nat
  cl_sender :: udp_endpoint

definition begin_op :: "call_env \<Rightarrow> int" where
  "begin_op w = (if cl_closed_later w then tunio_eclosed else if cl_throws w then tunio_efail else tunio_ok)"

text \<open>
  The arguments are given by whether the pointers are set and by the size of the buffer; \<open>done\<close> computes the
  result from the end of the operation and the last error, which is clear by then.
\<close>

definition blocking_call :: "bool \<Rightarrow> (error_code \<Rightarrow> nat \<Rightarrow> int \<Rightarrow> c_result) \<Rightarrow> call_env \<Rightarrow> c_result" where
  "blocking_call args_ok finish w =
     (if \<not> args_ok then fails tunio_eparam
      else if cl_closed w then fails tunio_eclosed
      else let rc = begin_op w in
        if rc \<noteq> tunio_ok then fails rc else finish (cl_ec w) (cl_n w) tunio_ok)"

text \<open>What a read and a write report when the wait is over.\<close>

definition recv_done :: "error_code \<Rightarrow> nat \<Rightarrow> int \<Rightarrow> c_result" where
  "recv_done ec n last_error =
     (if ec = EC_ok then (int_of_size n, last_error)
      else if ec = EC_eof then (if n = 0 then 0 else int_of_size n, tunio_ok)
      else error_from_ec ec last_error)"

definition transfer_done :: "error_code \<Rightarrow> nat \<Rightarrow> int \<Rightarrow> c_result" where
  "transfer_done ec n last_error = (if ec \<noteq> EC_ok then error_from_ec ec last_error else (int_of_size n, last_error))"

definition tunio_tcp_recv :: "bool \<Rightarrow> bool \<Rightarrow> nat \<Rightarrow> call_env \<Rightarrow> c_result" where
  "tunio_tcp_recv conn buf len w = blocking_call (conn \<and> buf \<and> len \<noteq> 0)
     recv_done w"

definition tunio_tcp_send :: "bool \<Rightarrow> bool \<Rightarrow> nat \<Rightarrow> call_env \<Rightarrow> c_result" where
  "tunio_tcp_send conn data len w = blocking_call (conn \<and> data \<and> len \<noteq> 0)
     transfer_done w"

text \<open>
  Writing an endpoint as text: \<open>text\<close> is its address as asio prints it; the buffer needs room for it and
  the terminator. The result is the text and the port the caller finds, or the error.
\<close>

definition write_endpoint :: "(udp_endpoint \<Rightarrow> string) \<Rightarrow> udp_endpoint \<Rightarrow> bool \<Rightarrow> nat \<Rightarrow> bool \<Rightarrow> int + string \<times> u16 option" where
  "write_endpoint text ep ip ip_size port =
     (if \<not> ip \<or> ip_size = 0 then Inl tunio_eparam
      else if length (text ep) \<ge> ip_size then Inl tunio_eparam
      else Inr (text ep, if port then Some (ep_port ep) else None))"

definition tunio_udp_recvfrom ::
  "(udp_endpoint \<Rightarrow> string) \<Rightarrow> bool \<Rightarrow> bool \<Rightarrow> nat \<Rightarrow> bool \<Rightarrow> nat \<Rightarrow> bool \<Rightarrow> call_env \<Rightarrow> c_result" where
  "tunio_udp_recvfrom text session buf len ip ip_size port w = blocking_call (session \<and> buf \<and> len \<noteq> 0)
     (\<lambda>ec n le. if ec = EC_ok \<and> ip \<and> ip_size > 0 then
          (case write_endpoint text (cl_sender w) ip ip_size port of
             Inl e \<Rightarrow> fails e | Inr out \<Rightarrow> transfer_done ec n le)
        else transfer_done ec n le) w"

definition tunio_udp_sendto ::
  "(string \<Rightarrow> (bool \<times> byte list) option) \<Rightarrow> bool \<Rightarrow> string option \<Rightarrow> bool \<Rightarrow> nat \<Rightarrow> call_env \<Rightarrow> c_result" where
  "tunio_udp_sendto make_address session remote_ip data len w =
     (if \<not> session \<or> remote_ip = None \<or> \<not> data \<or> len = 0 then fails tunio_eparam
      else if cl_closed w then fails tunio_eclosed
      else if make_address (the remote_ip) = None then fails tunio_eparam
      else blocking_call True transfer_done w)"

text \<open>The calls that do not wait for the network: closing, and the timeout of a session.\<close>

definition tunio_close_call :: "bool \<Rightarrow> bool \<Rightarrow> c_result \<times> bool" where
  "tunio_close_call handle closed =
     (if \<not> handle then (fails tunio_eparam, False) else ((tunio_ok, tunio_ok), \<not> closed))"

definition tunio_udp_set_timeout :: "bool \<Rightarrow> int \<Rightarrow> bool \<Rightarrow> c_result \<times> int option" where
  "tunio_udp_set_timeout session seconds closed =
     (if \<not> session then (fails tunio_eparam, None)
      else if seconds < 0 then (fails tunio_eparam, None)
      else if closed then ((tunio_ok, tunio_ok), None)
      else ((tunio_ok, tunio_ok), Some (if seconds = 0 then 30 else seconds)))"

section \<open>Properties\<close>

text \<open>
  The two sets of defaults agree: a C configuration as \<^verbatim>\<open>tunio_config_init\<close> leaves it is converted
  into the default configuration of the C++ interface, field by field.
\<close>

theorem c_config_defaults: "config_to_tun tunio_config_init default_open_config = Some default_open_config"
  by (simp add: config_to_tun_def tunio_config_init_def default_open_config_def default_config_def tun_config.defs open_config.defs Let_def)

text \<open>
  What a blocking receive returns tells its outcome. With valid arguments, an open engine and a buffer
  of less than 2 GB: a positive result is the number of bytes read and the operation succeeded or ended the
  stream with them; zero means the stream ended or nothing was read; a negative result is one of the codes
  and is also the thread's last error, which is clear otherwise.
\<close>

theorem c_recv_result:
  assumes "tunio_tcp_recv conn buf len w = (r, e)" "cl_n w \<le> len" "len < 2 ^ 31"
  shows "(r > 0 \<longrightarrow> r = int (cl_n w) \<and> cl_ec w \<in> {EC_ok, EC_eof} \<and> e = tunio_ok) \<and>
    (r = 0 \<longrightarrow> cl_n w = 0 \<and> cl_ec w \<in> {EC_ok, EC_eof} \<and> e = tunio_ok) \<and>
    (r < 0 \<longrightarrow> e = r \<and> r \<in> {tunio_eparam, tunio_eclosed, tunio_efail, tunio_econnreset})"
proof -
  have n: "int_of_size (cl_n w) = int (cl_n w)" using assms(2,3) by (simp add: int_of_size)
  have p: "r > 0 \<or> r = 0 \<or> r < 0" by linarith
  show ?thesis using assms(1)
    by (auto simp: tunio_tcp_recv_def recv_done_def blocking_call_def begin_op_def error_from_ec_def fails_def n c_codes Let_def split: if_splits)
qed

text \<open>A send of 2 GB that succeeds is reported as a failure: the count does not fit the result.\<close>

lemma c_send_wraps: "tunio_tcp_send True True (2 ^ 31) w = (- (2 ^ 31), tunio_ok)"
  if "\<not> cl_closed w" "\<not> cl_closed_later w" "\<not> cl_throws w" "cl_ec w = EC_ok" "cl_n w = 2 ^ 31"
  using that by (simp add: tunio_tcp_send_def transfer_done_def blocking_call_def begin_op_def c_codes int_of_size_def Let_def)

text \<open>A datagram whose sender's address does not fit the caller's buffer is consumed and reported as a bad parameter.\<close>

lemma c_recvfrom_loses: "tunio_udp_recvfrom text True True len True ip_size port w = fails tunio_eparam"
  if "\<not> cl_closed w" "\<not> cl_closed_later w" "\<not> cl_throws w" "cl_ec w = EC_ok" "0 < len" "0 < ip_size" "ip_size \<le> length (text (cl_sender w))"
  using that by (simp add: tunio_udp_recvfrom_def blocking_call_def begin_op_def c_codes write_endpoint_def Let_def)

definition sample_call :: call_env where
  "sample_call = \<lparr>cl_closed = False, cl_closed_later = False, cl_throws = False, cl_ec = EC_ok, cl_n = 3,
     cl_sender = \<lparr>ep_v6 = False, ep_addr = [10, 0, 0, 1], ep_port = 53\<rparr>\<rparr>"

theorem c_recv_result_witness: "tunio_tcp_recv True True 8 sample_call = (3, tunio_ok)"
proof -
  obtain r e where r: "tunio_tcp_recv True True 8 sample_call = (r, e)" by fastforce
  have "r = int_of_size 3"
    using r by (simp add: tunio_tcp_recv_def recv_done_def blocking_call_def begin_op_def sample_call_def c_codes Let_def)
  hence "r = 3" by (simp add: int_of_size)
  thus ?thesis using c_recv_result [OF r] r by (simp add: sample_call_def)
qed

theorem c_endpoint_round_trip_witness:
  "sockaddr_to_address (endpoint_to_sockaddr (cl_sender sample_call)) = Some (cl_sender sample_call)"
  using c_endpoint_round_trip [of "cl_sender sample_call"] by (simp add: sample_call_def endpoint_ok_def)

end
