(* ===== verification/C_Engine.thy ===== *)
theory C_Engine
  imports C_Api Tunio_Safety
begin

text \<open>
  How the blocking calls of the C binding and the closing of an engine are kept apart
  (\<^verbatim>\<open>engine_core\<close> in \<^verbatim>\<open>bindings/c/src/c_api.cpp\<close>). Any number of threads make calls; a
  call registers itself under a lock unless the engine is closed (\<^verbatim>\<open>begin_op\<close>), starts its operation,
  takes itself off the register and waits for its slot. Closing sets a flag, waits until no call is
  registered and runs the engine's close on its executor. The engine is the model of \<^verbatim>\<open>tunio_impl\<close>.
  The calls also look at the flag before they register, with the same outcome; that look is left out here
  (\<open>C_Api\<close> has it).
\<close>

section \<open>Calls and threads\<close>

text \<open>
  A call on a socket carries the generation of the engine that made the socket. The sizes of the buffers are
  all that receiving depends on.
\<close>

datatype c_call =
    Call_accept_tcp
  | Call_accept_udp
  | Call_recv nat "nat option" nat
  | Call_send nat "nat option" "byte list"
  | Call_recvfrom nat "nat option" nat

text \<open>What a call submits to the engine, with the number of its wait slot as the handler.\<close>

fun call_event :: "nat \<Rightarrow> c_call \<Rightarrow> ti_event" where
  "call_event h Call_accept_tcp = Ti_accept_tcp False h"
| "call_event h Call_accept_udp = Ti_accept_udp False h"
| "call_event h (Call_recv g f len) = Ti_tcp (Ev_read f [len] len h)"
| "call_event h (Call_send g f data) = Ti_tcp (Ev_write f [data] (length data) h)"
| "call_event h (Call_recvfrom g f len) = Ti_udp (Uv_receive f [len] len h)"

datatype call_pc =
    Pc_idle
  | Pc_initiate c_call nat
  | Pc_release c_call nat
  | Pc_wait c_call nat
  | Pc_drain
  | Pc_close
  | Pc_return int

record engine_core =
  core_closed :: bool
  core_active :: nat
  core_ti :: tunio_impl
  core_jobs :: "(c_call \<times> nat) list"
  core_dead :: "nat list"
  core_threads :: "call_pc list"
  core_next :: nat

definition engine_core_new :: "env \<Rightarrow> nat \<Rightarrow> engine_core" where
  "engine_core_new e n = \<lparr>core_closed = True, core_active = 0, core_ti = tunio_impl_new e, core_jobs = [], core_dead = [],
     core_threads = replicate n Pc_idle, core_next = 0\<rparr>"

definition set_pc :: "nat \<Rightarrow> call_pc \<Rightarrow> engine_core \<Rightarrow> engine_core" where
  "set_pc t p s = s\<lparr>core_threads := (core_threads s)[t := p]\<rparr>"

section \<open>Operations\<close>

text \<open>
  Starting an operation. An acceptor goes to the engine, which queues the accept; reads and writes are
  dispatched to the executor of the socket's engine. There they find that engine gone, which ends them with
  \<^verbatim>\<open>bad_descriptor\<close>, or take effect.
\<close>

definition initiate :: "c_call \<Rightarrow> nat \<Rightarrow> engine_core \<Rightarrow> engine_core" where
  "initiate c h s =
     (case c of
        Call_accept_tcp \<Rightarrow> s\<lparr>core_ti := ti_step (call_event h c) (core_ti s)\<rparr>
      | Call_accept_udp \<Rightarrow> s\<lparr>core_ti := ti_step (call_event h c) (core_ti s)\<rparr>
      | _ \<Rightarrow> s\<lparr>core_jobs := core_jobs s @ [(c, h)]\<rparr>)"

fun call_gen :: "c_call \<Rightarrow> nat option" where
  "call_gen (Call_recv g f len) = Some g"
| "call_gen (Call_send g f data) = Some g"
| "call_gen (Call_recvfrom g f len) = Some g"
| "call_gen _ = None"

definition run_job :: "c_call \<times> nat \<Rightarrow> engine_core \<Rightarrow> engine_core" where
  "run_job j s =
     (case j of (c, h) \<Rightarrow>
        if call_gen c = Some (ti_gen (core_ti s)) \<and> ti_enabled (call_event h c) (core_ti s)
        then s\<lparr>core_ti := ti_step (call_event h c) (core_ti s)\<rparr>
        else s\<lparr>core_dead := h # core_dead s\<rparr>)"

definition run_jobs :: "engine_core \<Rightarrow> engine_core" where
  "run_jobs s = fold run_job (core_jobs s) (s\<lparr>core_jobs := []\<rparr>)"

text \<open>
  \<^verbatim>\<open>on_io\<close> with \<^verbatim>\<open>engine.close()\<close>: what was dispatched before runs first, then the close, on the
  executor; the caller waits until it has run.
\<close>

definition close_on_io :: "engine_core \<Rightarrow> engine_core" where
  "close_on_io s = (let s = run_jobs s in s\<lparr>core_ti := close_impl True (drained (core_ti s))\<rparr>)"

text \<open>The slot of a call: the outcome, once the handler has run.\<close>

fun slot_of :: "c_call \<Rightarrow> nat \<Rightarrow> completion \<Rightarrow> (error_code \<times> nat) option" where
  "slot_of Call_accept_tcp h (Done_tcp_accept h' ec f) = (if h' = h then Some (ec, 0) else None)"
| "slot_of Call_accept_udp h (Done_udp_accept h' ec f) = (if h' = h then Some (ec, 0) else None)"
| "slot_of (Call_recv g f len) h (Done_read h' ec n d) = (if h' = h then Some (ec, n) else None)"
| "slot_of (Call_send g f data) h (Done_write h' ec n) = (if h' = h then Some (ec, n) else None)"
| "slot_of (Call_recvfrom g f len) h (Done_recv h' ec n d p) = (if h' = h then Some (ec, n) else None)"
| "slot_of _ _ _ = None"

definition slot :: "c_call \<Rightarrow> nat \<Rightarrow> engine_core \<Rightarrow> (error_code \<times> nat) option" where
  "slot c h s =
     (if h \<in> set (core_dead s) then Some (EC_bad_descriptor, 0)
      else case List.map_filter (slot_of c h) (e_posted (ti_env (core_ti s))) of [] \<Rightarrow> None | r # rs \<Rightarrow> Some r)"

text \<open>What the call returns (an accept returns a pointer; its code is the one it records).\<close>

definition slot_result :: "c_call \<Rightarrow> error_code \<times> nat \<Rightarrow> int" where
  "slot_result c r =
     (case r of (ec, n) \<Rightarrow>
        fst (case c of
               Call_recv g f len \<Rightarrow> recv_done ec n tunio_ok
             | Call_send g f data \<Rightarrow> transfer_done ec n tunio_ok
             | Call_recvfrom g f len \<Rightarrow> transfer_done ec n tunio_ok
             | _ \<Rightarrow> error_from_ec ec tunio_ok))"

text \<open>
  One step of a thread, of the executor or of the engine; \<open>None\<close> where the step is not possible. What the
  engine does by itself submits no handlers.
\<close>

datatype core_action =
    A_begin nat c_call
  | A_initiate nat
  | A_throw nat
  | A_release nat
  | A_wake nat
  | A_close nat
  | A_drained nat
  | A_shut nat
  | A_open "string \<Rightarrow> error_code + byte list" "string \<Rightarrow> error_code + byte list" "dev_call \<Rightarrow> error_code + dev_info" open_config
  | A_job
  | A_engine ti_event

fun internal :: "ti_event \<Rightarrow> bool" where
  "internal (Ti_open p4 p6 device cfg) = False"
| "internal (Ti_close inside) = False"
| "internal ev = (tcp_given ev = {#} \<and> udp_given ev = {#})"

fun resting :: "call_pc \<Rightarrow> bool" where
  "resting Pc_idle = True"
| "resting (Pc_return r) = True"
| "resting _ = False"

fun registered :: "call_pc \<Rightarrow> bool" where
  "registered (Pc_initiate c h) = True"
| "registered (Pc_release c h) = True"
| "registered _ = False"

fun core_step :: "core_action \<Rightarrow> engine_core \<Rightarrow> engine_core option" where
  "core_step (A_begin t c) s =
     (if t < length (core_threads s) \<and> resting (core_threads s ! t) then
        if core_closed s then Some (set_pc t (Pc_return tunio_eclosed) s)
        else Some (set_pc t (Pc_initiate c (core_next s)) (s\<lparr>core_active := core_active s + 1, core_next := core_next s + 1\<rparr>))
      else None)"
| "core_step (A_initiate t) s =
     (if t < length (core_threads s) then
        case core_threads s ! t of Pc_initiate c h \<Rightarrow> Some (set_pc t (Pc_release c h) (initiate c h s)) | _ \<Rightarrow> None
      else None)"
| "core_step (A_throw t) s =
     (if t < length (core_threads s) then
        case core_threads s ! t of
          Pc_initiate c h \<Rightarrow> Some (set_pc t (Pc_return tunio_efail) (s\<lparr>core_active := size_sub (core_active s) 1\<rparr>))
        | _ \<Rightarrow> None
      else None)"
| "core_step (A_release t) s =
     (if t < length (core_threads s) then
        case core_threads s ! t of
          Pc_release c h \<Rightarrow> Some (set_pc t (Pc_wait c h) (s\<lparr>core_active := size_sub (core_active s) 1\<rparr>))
        | _ \<Rightarrow> None
      else None)"
| "core_step (A_wake t) s =
     (if t < length (core_threads s) then
        case core_threads s ! t of
          Pc_wait c h \<Rightarrow> map_option (\<lambda>r. set_pc t (Pc_return (slot_result c r)) s) (slot c h s)
        | _ \<Rightarrow> None
      else None)"
| "core_step (A_close t) s =
     (if t < length (core_threads s) \<and> resting (core_threads s ! t) then
        if core_closed s then Some (set_pc t (Pc_return tunio_ok) s)
        else Some (set_pc t Pc_drain (s\<lparr>core_closed := True\<rparr>))
      else None)"
| "core_step (A_drained t) s =
     (if t < length (core_threads s) \<and> core_threads s ! t = Pc_drain \<and> core_active s = 0 then Some (set_pc t Pc_close s) else None)"
| "core_step (A_shut t) s =
     (if t < length (core_threads s) \<and> core_threads s ! t = Pc_close
      then Some (set_pc t (Pc_return tunio_ok) (if ti_open (core_ti s) then close_on_io s else s)) else None)"
| "core_step (A_open p4 p6 device cfg) s =
     (if Pc_drain \<in> set (core_threads s) \<or> Pc_close \<in> set (core_threads s) then None
      else if ti_open (core_ti s) then Some s
      else case open_impl p4 p6 device cfg (core_ti s) of
             (Open_ok, ti) \<Rightarrow> Some (s\<lparr>core_ti := ti, core_closed := False\<rparr>)
           | (_, ti) \<Rightarrow> Some (s\<lparr>core_ti := ti\<rparr>))"
| "core_step A_job s = (case core_jobs s of [] \<Rightarrow> None | j # js \<Rightarrow> Some (run_job j (s\<lparr>core_jobs := js\<rparr>)))"
| "core_step (A_engine ev) s =
     (if internal ev \<and> ti_enabled ev (core_ti s) then Some (s\<lparr>core_ti := ti_step ev (core_ti s)\<rparr>) else None)"

text \<open>
  The runs of \<open>n\<close> threads, in every interleaving. An engine is not opened while a thread is closing it.
\<close>

inductive core_run :: "env \<Rightarrow> nat \<Rightarrow> engine_core \<Rightarrow> bool" for e n where
  start: "core_run e n (engine_core_new e n)"
| step: "core_run e n s \<Longrightarrow> core_step a s = Some s' \<Longrightarrow> core_run e n s'"

section \<open>What the engine is given\<close>

text \<open>A submitted handler is that of an event of the run, and a handler that has run fills the slot.\<close>

fun given_to :: "c_call \<Rightarrow> nat \<Rightarrow> env \<Rightarrow> bool" where
  "given_to Call_accept_tcp h e = (Tk_accept h \<in># posted_toks e)"
| "given_to Call_accept_udp h e = (Ut_accept h \<in># udp_posted e)"
| "given_to (Call_recv g f len) h e = (Tk_read h \<in># posted_toks e)"
| "given_to (Call_send g f data) h e = (Tk_write h \<in># posted_toks e)"
| "given_to (Call_recvfrom g f len) h e = (Ut_recv h \<in># udp_posted e)"

lemma posted_in: "t \<in># posted_toks e \<longleftrightarrow> (\<exists>d\<in>set (e_posted e). t \<in># tok_of d)"
  by (simp add: posted_toks_def set_mset_sum_list)

lemma udp_posted_in: "t \<in># udp_posted e \<longleftrightarrow> (\<exists>d\<in>set (e_posted e). t \<in># udp_tok_of d)"
  by (simp add: udp_posted_def set_mset_sum_list)

lemma slot_of_tok:
  "Tk_accept h \<in># tok_of d \<Longrightarrow> slot_of Call_accept_tcp h d \<noteq> None"
  "Ut_accept h \<in># udp_tok_of d \<Longrightarrow> slot_of Call_accept_udp h d \<noteq> None"
  "Tk_read h \<in># tok_of d \<Longrightarrow> slot_of (Call_recv g f len) h d \<noteq> None"
  "Tk_write h \<in># tok_of d \<Longrightarrow> slot_of (Call_send g f data) h d \<noteq> None"
  "Ut_recv h \<in># udp_tok_of d \<Longrightarrow> slot_of (Call_recvfrom g f len) h d \<noteq> None"
  by (cases d; simp)+

lemma slot_filled:
  assumes "given_to c h (ti_env (core_ti s))" shows "slot c h s \<noteq> None"
proof -
  have "\<exists>d\<in>set (e_posted (ti_env (core_ti s))). slot_of c h d \<noteq> None"
    using assms slot_of_tok by (cases c) (fastforce simp: posted_in udp_posted_in)+
  hence "List.map_filter (slot_of c h) (e_posted (ti_env (core_ti s))) \<noteq> []"
    by (auto simp: List.map_filter_def filter_empty_conv)
  thus ?thesis by (auto simp: slot_def split: list.splits)
qed

lemma submitted_given:
  assumes "call_event h c \<in> set evs" "posted_toks e = sum_list (map tcp_given evs)" "udp_posted e = sum_list (map udp_given evs)"
  shows "given_to c h e"
  using assms by (cases c) (force simp: set_mset_sum_list)+

section \<open>The invariant\<close>

text \<open>
  \<open>handed_over evs s c h\<close>: the operation of the call is an event of the engine's run, waits on the executor, or
  has ended because the engine of its socket is gone.
\<close>

definition handed_over :: "ti_event list \<Rightarrow> engine_core \<Rightarrow> c_call \<Rightarrow> nat \<Rightarrow> bool" where
  "handed_over evs s c h \<longleftrightarrow> call_event h c \<in> set evs \<or> (c, h) \<in> set (core_jobs s) \<or> h \<in> set (core_dead s)"

fun started :: "call_pc \<Rightarrow> (c_call \<times> nat) option" where
  "started (Pc_release c h) = Some (c, h)"
| "started (Pc_wait c h) = Some (c, h)"
| "started _ = None"

definition counts :: "engine_core \<Rightarrow> bool" where
  "counts s \<longleftrightarrow> core_active s = length (filter registered (core_threads s)) \<and>
     (Pc_drain \<in> set (core_threads s) \<or> Pc_close \<in> set (core_threads s) \<longrightarrow> core_closed s) \<and>
     (Pc_close \<in> set (core_threads s) \<longrightarrow> core_active s = 0)"

definition tracked :: "env \<Rightarrow> ti_event list \<Rightarrow> engine_core \<Rightarrow> bool" where
  "tracked e evs s \<longleftrightarrow> ti_run e evs (core_ti s) \<and>
     (\<forall>p\<in>set (core_threads s). \<forall>c h. started p = Some (c, h) \<longrightarrow> handed_over evs s c h)"

lemma set_pc_frames [simp]:
  "core_closed (set_pc t p s) = core_closed s" "core_active (set_pc t p s) = core_active s" "core_ti (set_pc t p s) = core_ti s"
  "core_jobs (set_pc t p s) = core_jobs s" "core_dead (set_pc t p s) = core_dead s" "core_threads (set_pc t p s) = (core_threads s)[t := p]"
  by (simp_all add: set_pc_def)

lemma initiate_frames [simp]:
  "core_closed (initiate c h s) = core_closed s" "core_active (initiate c h s) = core_active s" "core_threads (initiate c h s) = core_threads s"
  "core_dead (initiate c h s) = core_dead s"
  by (simp_all add: initiate_def split: c_call.splits)

lemma run_job_frames [simp]:
  "core_closed (run_job j s) = core_closed s" "core_active (run_job j s) = core_active s" "core_threads (run_job j s) = core_threads s"
  "core_jobs (run_job j s) = core_jobs s"
  by (simp_all add: run_job_def split: prod.splits)

lemma run_jobs_frames [simp]:
  "core_closed (run_jobs s) = core_closed s" "core_active (run_jobs s) = core_active s" "core_threads (run_jobs s) = core_threads s"
  "core_jobs (run_jobs s) = []"
proof -
  have "core_closed (fold run_job js s) = core_closed s \<and> core_active (fold run_job js s) = core_active s \<and>
      core_threads (fold run_job js s) = core_threads s \<and> core_jobs (fold run_job js s) = core_jobs s" for js s
    by (induction js arbitrary: s) simp_all
  thus "core_closed (run_jobs s) = core_closed s" "core_active (run_jobs s) = core_active s" "core_threads (run_jobs s) = core_threads s"
      "core_jobs (run_jobs s) = []"
    by (simp_all add: run_jobs_def)
qed

lemma close_on_io_frames [simp]:
  "core_closed (close_on_io s) = core_closed s" "core_active (close_on_io s) = core_active s" "core_threads (close_on_io s) = core_threads s"
  by (simp_all add: close_on_io_def Let_def)

lemma count_update:
  "t < length xs \<Longrightarrow> length (filter P (xs[t := p])) + (if P (xs ! t) then 1 else 0) = length (filter P xs) + (if P p then 1 else 0)"
proof (induction xs arbitrary: t)
  case (Cons x xs)
  thus ?case by (cases t) fastforce+
qed simp

lemma in_update: "x \<in> set (xs[t := p]) \<Longrightarrow> x \<noteq> p \<Longrightarrow> x \<in> set xs"
  using set_update_subset_insert by fastforce

lemma counts_move:
  assumes "counts s" "t < length (core_threads s)" "core_threads x = core_threads s"
    "core_active x + (if registered (core_threads s ! t) then 1 else 0) = core_active s + (if registered p then 1 else 0)"
    and "core_closed s \<longrightarrow> core_closed x"
    and "p = Pc_drain \<or> p = Pc_close \<longrightarrow> core_closed x" "p = Pc_close \<longrightarrow> core_active x = 0"
    and "Pc_close \<in> set (core_threads s) \<longrightarrow> core_active x \<le> core_active s"
  shows "counts (set_pc t p x)"
  using assms(1) assms(3-) count_update [OF assms(2), of registered p] in_update [of Pc_drain "core_threads s" t p] in_update [of Pc_close "core_threads s" t p]
  unfolding counts_def by (auto split: if_splits)

lemma counts_same:
  "counts s \<Longrightarrow> core_closed s' = core_closed s \<Longrightarrow> core_active s' = core_active s \<Longrightarrow> core_threads s' = core_threads s \<Longrightarrow> counts s'"
  by (auto simp: counts_def)

lemma registered_counted: "counts s \<Longrightarrow> t < length (core_threads s) \<Longrightarrow> registered (core_threads s ! t) \<Longrightarrow> 0 < core_active s"
  by (auto simp: counts_def filter_empty_conv intro!: bexI [of _ "core_threads s ! t"])

lemma counts_step:
  assumes c: "counts s" and a: "core_step a s = Some s'"
  shows "counts s'"
proof (cases a)
  case (A_begin t d)
  hence t: "t < length (core_threads s)" "\<not> registered (core_threads s ! t)"
    using a by (auto split: if_splits elim!: resting.elims)
  moreover have "Pc_close \<notin> set (core_threads s)" if "\<not> core_closed s" using c that by (auto simp: counts_def)
  ultimately show ?thesis using a A_begin by (auto intro!: counts_move [OF c t(1)] split: if_splits)
next
  case (A_initiate t)
  thus ?thesis using a by (auto intro!: counts_move [OF c] split: if_splits call_pc.splits)
next
  case (A_throw t)
  thus ?thesis using a registered_counted [OF c, of t]
    by (auto intro!: counts_move [OF c, of t] simp: size_sub_def split: if_splits call_pc.splits)
next
  case (A_release t)
  thus ?thesis using a registered_counted [OF c, of t]
    by (auto intro!: counts_move [OF c, of t] simp: size_sub_def split: if_splits call_pc.splits)
next
  case (A_wake t)
  thus ?thesis using a by (auto intro!: counts_move [OF c, of t] split: if_splits call_pc.splits)
next
  case (A_close t)
  hence t: "t < length (core_threads s)" "\<not> registered (core_threads s ! t)"
    using a by (auto split: if_splits elim!: resting.elims)
  thus ?thesis using a A_close by (auto intro!: counts_move [OF c t(1)] split: if_splits)
next
  case (A_drained t)
  hence t: "t < length (core_threads s)" "core_threads s ! t = Pc_drain" "core_active s = 0" "s' = set_pc t Pc_close s"
    using a by (auto split: if_splits)
  hence "core_closed s" using c nth_mem [OF t(1)] by (simp add: counts_def)
  thus ?thesis unfolding t(4) using t by (intro counts_move [OF c t(1)]) simp_all
next
  case (A_shut t)
  thus ?thesis using a by (auto intro!: counts_move [OF c, of t] split: if_splits)
next
  case (A_open p4 p6 device cfg)
  thus ?thesis using a c by (auto simp: counts_def split: if_splits open_result.splits prod.splits)
qed (use a c in \<open>auto intro!: counts_same [OF c] split: if_splits list.splits\<close>)

section \<open>The run of the engine\<close>

definition extends :: "ti_event list \<Rightarrow> engine_core \<Rightarrow> ti_event list \<Rightarrow> engine_core \<Rightarrow> bool" where
  "extends evs s evs' s' \<longleftrightarrow> set evs \<subseteq> set evs' \<and> set (core_dead s) \<subseteq> set (core_dead s')"

lemma extends_trans: "extends a s b t \<Longrightarrow> extends b t c u \<Longrightarrow> extends a s c u"
  by (auto simp: extends_def)

text \<open>The operation has left the executor.\<close>

definition settled_job :: "ti_event list \<Rightarrow> engine_core \<Rightarrow> c_call \<times> nat \<Rightarrow> bool" where
  "settled_job evs s j \<longleftrightarrow> call_event (snd j) (fst j) \<in> set evs \<or> snd j \<in> set (core_dead s)"

lemma settled_extends: "settled_job evs s j \<Longrightarrow> extends evs s evs' s' \<Longrightarrow> settled_job evs' s' j"
  by (auto simp: settled_job_def extends_def)

lemma run_job_run:
  assumes "ti_run e evs (core_ti s)"
  obtains evs' where "ti_run e evs' (core_ti (run_job j s))" "extends evs s evs' (run_job j s)" "settled_job evs' (run_job j s) j"
    "ti_open (core_ti (run_job j s)) = ti_open (core_ti s)"
proof -
  obtain c h where j: "j = (c, h)" by fastforce
  show ?thesis
  proof (cases "call_gen c = Some (ti_gen (core_ti s)) \<and> ti_enabled (call_event h c) (core_ti s)")
    case True
    have "pump_of (with_tcp g x) = pump_of x" "pump_of (with_udp g' x) = pump_of x" for g g' x by simp_all
    hence "ti_open (with_tcp g x) = ti_open x" "ti_open (with_udp g' x) = ti_open x" for g g' x by (simp_all add: pump_of_def)
    hence "ti_open (ti_step (call_event h c) (core_ti s)) = ti_open (core_ti s)" using True by (cases c) simp_all
    thus ?thesis using ti_run.event [OF assms conjunct2 [OF True]] True
      by (intro that [of "evs @ [call_event h c]"]) (auto simp: run_job_def extends_def settled_job_def j)
  next
    case False
    thus ?thesis using assms by (intro that [of evs]) (auto simp: run_job_def extends_def settled_job_def j)
  qed
qed

lemma run_jobs_run:
  assumes "ti_run e evs (core_ti s)"
  obtains evs' where "ti_run e evs' (core_ti (run_jobs s))" "extends evs s evs' (run_jobs s)"
    "\<forall>j\<in>set (core_jobs s). settled_job evs' (run_jobs s) j" "ti_open (core_ti (run_jobs s)) = ti_open (core_ti s)"
proof -
  have "\<exists>evs'. ti_run e evs' (core_ti (fold run_job js x)) \<and> extends evs x evs' (fold run_job js x) \<and>
      (\<forall>j\<in>set js. settled_job evs' (fold run_job js x) j) \<and> ti_open (core_ti (fold run_job js x)) = ti_open (core_ti x)"
    if "ti_run e evs (core_ti x)" for js x
    using that
  proof (induction js arbitrary: evs x)
    case Nil
    thus ?case by (auto simp: extends_def)
  next
    case (Cons j js)
    obtain evs1 where 1: "ti_run e evs1 (core_ti (run_job j x))" "extends evs x evs1 (run_job j x)" "settled_job evs1 (run_job j x) j"
      "ti_open (core_ti (run_job j x)) = ti_open (core_ti x)"
      using run_job_run [OF Cons(2), of j] by blast
    obtain evs2 where "ti_run e evs2 (core_ti (fold run_job js (run_job j x)))"
      "extends evs1 (run_job j x) evs2 (fold run_job js (run_job j x))"
      "\<forall>i\<in>set js. settled_job evs2 (fold run_job js (run_job j x)) i"
      "ti_open (core_ti (fold run_job js (run_job j x))) = ti_open (core_ti (run_job j x))"
      using Cons(1) [OF 1(1)] by blast
    thus ?case using 1 by (auto intro: extends_trans settled_extends)
  qed
  from this [of "s\<lparr>core_jobs := []\<rparr>" "core_jobs s"] show ?thesis
    using assms that by (auto simp: run_jobs_def extends_def)
qed

lemma tasks_run:
  "ti_run e evs x \<Longrightarrow> ti_run e (evs @ replicate k Ti_task) ((ti_step Ti_task ^^ k) x)"
proof (induction k)
  case (Suc k)
  from ti_run.event [OF Suc(1) [OF Suc(2)], of Ti_task] show ?case by (simp add: replicate_append_same)
qed simp

lemma tasks_left: "ti_tasks ((ti_step Ti_task ^^ k) x) = drop k (ti_tasks x) \<and> ti_open ((ti_step Ti_task ^^ k) x) = ti_open x"
proof (induction k)
  case (Suc k)
  have "ti_tasks (ti_step Ti_task y) = tl (ti_tasks y) \<and> ti_open (ti_step Ti_task y) = ti_open y" for y
    by (simp add: task_frames split: list.splits)
  thus ?case using Suc by (simp add: drop_Suc tl_drop del: ti_step.simps)
qed simp

text \<open>Closing on the executor: every operation that was there is submitted, and nothing waits afterwards.\<close>

lemma close_on_io_run:
  assumes r: "ti_run e evs (core_ti s)"
  obtains evs' where "ti_run e evs' (core_ti (close_on_io s))" "extends evs s evs' (close_on_io s)"
    "\<forall>j\<in>set (core_jobs s). settled_job evs' (close_on_io s) j"
    "ti_fresh e \<Longrightarrow> ti_open (core_ti s) \<Longrightarrow> posted_toks (ti_env (core_ti (close_on_io s))) = sum_list (map tcp_given evs') \<and>
       udp_posted (ti_env (core_ti (close_on_io s))) = sum_list (map udp_given evs')"
proof -
  obtain evs1 where 1: "ti_run e evs1 (core_ti (run_jobs s))" "extends evs s evs1 (run_jobs s)"
    "\<forall>j\<in>set (core_jobs s). settled_job evs1 (run_jobs s) j" "ti_open (core_ti (run_jobs s)) = ti_open (core_ti s)"
    using run_jobs_run [OF r] by blast
  define x where "x = drained (core_ti (run_jobs s))"
  define evs2 where "evs2 = evs1 @ replicate (length (ti_tasks (core_ti (run_jobs s)))) Ti_task"
  have x: "ti_run e evs2 x" "ti_tasks x = []" "ti_open x = ti_open (core_ti s)"
    using tasks_run [OF 1(1)] tasks_left 1(4) by (simp_all add: x_def evs2_def drained_def)
  have run: "ti_run e (evs2 @ [Ti_close True]) (close_impl True x)" using ti_run.event [OF x(1), of "Ti_close True"] by simp
  have c: "core_ti (close_on_io s) = close_impl True x" "core_dead (close_on_io s) = core_dead (run_jobs s)"
    by (simp_all add: close_on_io_def Let_def x_def)
  have "posted_toks (ti_env (close_impl True x)) = sum_list (map tcp_given (evs2 @ [Ti_close True])) \<and>
       udp_posted (ti_env (close_impl True x)) = sum_list (map udp_given (evs2 @ [Ti_close True]))"
    if f: "ti_fresh e" and o: "ti_open (core_ti s)"
  proof -
    have "closing (close_impl True x)" using open_has_engines [OF x(1) f, of True] x(3) o by simp
    moreover have t: "ti_tasks (close_impl True x) = []" using x(2) by (simp add: close_impl_def dispatch_def Let_def)
    ultimately have "settled (close_impl True x)" by (simp add: closing_def)
    thus ?thesis using ti_run_live [OF run f] t by (simp add: settled_def tcp_live_def udp_live_def)
  qed
  moreover have "set evs1 \<subseteq> set (evs2 @ [Ti_close True])" by (auto simp: evs2_def)
  ultimately show ?thesis using that [of "evs2 @ [Ti_close True]"] run 1(2,3)
    unfolding c extends_def settled_job_def by (metis (no_types, lifting) c(2) subset_trans in_mono)
qed

text \<open>No step forgets an operation.\<close>

lemma handed_over_same: "handed_over evs s c h \<Longrightarrow> set evs \<subseteq> set evs' \<Longrightarrow> core_jobs s' = core_jobs s \<Longrightarrow> core_dead s' = core_dead s \<Longrightarrow> handed_over evs' s' c h"
  by (auto simp: handed_over_def)

lemma handed_over_settled:
  assumes "handed_over evs s c h" "extends evs s evs' s'" "\<forall>j\<in>set (core_jobs s) - set (core_jobs s'). settled_job evs' s' j"
  shows "handed_over evs' s' c h"
proof (cases "(c, h) \<in> set (core_jobs s) - set (core_jobs s')")
  case True
  hence "settled_job evs' s' (c, h)" using assms(3) by blast
  thus ?thesis by (auto simp: handed_over_def settled_job_def)
next
  case False
  thus ?thesis using assms(1,2) by (auto simp: handed_over_def extends_def)
qed

lemma tracked_move:
  assumes "tracked e evs s" "ti_run e evs' (core_ti x)" "core_threads x = core_threads s" "\<And>c h. handed_over evs s c h \<Longrightarrow> handed_over evs' x c h"
    "\<And>c h. started p = Some (c, h) \<Longrightarrow> handed_over evs' x c h"
  shows "tracked e evs' (set_pc t p x)"
proof -
  have "handed_over evs' (set_pc t p x) c h = handed_over evs' x c h" for c h by (simp add: handed_over_def)
  moreover have "handed_over evs' x c h" if "q \<in> set ((core_threads s)[t := p])" "started q = Some (c, h)" for q c h
    using in_update [OF that(1)] that(2) assms(1,4,5) unfolding tracked_def by blast
  ultimately show ?thesis using assms(2,3) unfolding tracked_def by simp
qed

lemma tracked_same:
  assumes "tracked e evs s" "ti_run e evs' (core_ti x)" "core_threads x = core_threads s" "\<And>c h. handed_over evs s c h \<Longrightarrow> handed_over evs' x c h"
  shows "tracked e evs' x"
  using assms unfolding tracked_def by auto

lemma tracked_keep:
  assumes "tracked e evs s" "core_threads x = core_threads s" "core_ti x = core_ti s" "core_jobs x = core_jobs s" "core_dead x = core_dead s"
    "t < length (core_threads s)" "started p = None \<or> started p = started (core_threads s ! t)"
  shows "tracked e evs (set_pc t p x)"
proof (rule tracked_move [OF assms(1)])
  have k: "handed_over evs x c h = handed_over evs s c h" for c h by (simp add: handed_over_def assms(4,5))
  show "ti_run e evs (core_ti x)" using assms(1,3) by (simp add: tracked_def)
  show "handed_over evs s c h \<Longrightarrow> handed_over evs x c h" for c h by (simp add: k)
  show "started p = Some (c, h) \<Longrightarrow> handed_over evs x c h" for c h
    using assms(1,6,7) nth_mem [OF assms(6)] unfolding tracked_def k by fastforce
qed (rule assms(2))

lemma initiate_run:
  assumes "ti_run e evs (core_ti s)"
  obtains evs' where "ti_run e evs' (core_ti (initiate c h s))" "set evs \<subseteq> set evs'" "handed_over evs' (initiate c h s) c h"
    "\<forall>d k. handed_over evs s d k \<longrightarrow> handed_over evs' (initiate c h s) d k"
proof (cases "call_gen c")
  case None
  hence i: "initiate c h s = s\<lparr>core_ti := ti_step (call_event h c) (core_ti s)\<rparr>" and en: "ti_enabled (call_event h c) (core_ti s)"
    by (cases c; simp add: initiate_def)+
  show ?thesis using ti_run.event [OF assms en]
    by (intro that [of "evs @ [call_event h c]"]) (auto simp: i handed_over_def)
next
  case (Some g)
  hence "initiate c h s = s\<lparr>core_jobs := core_jobs s @ [(c, h)]\<rparr>" by (cases c) (simp_all add: initiate_def)
  thus ?thesis using assms by (intro that [of evs]) (auto simp: handed_over_def)
qed

lemma tracked_step:
  assumes T: "tracked e evs s" and a: "core_step a s = Some s'"
  shows "\<exists>evs'. tracked e evs' s'"
proof -
  have r: "ti_run e evs (core_ti s)" using T by (simp add: tracked_def)
  show ?thesis
  proof (cases a)
    case (A_initiate t)
    then obtain c h where t: "t < length (core_threads s)" "core_threads s ! t = Pc_initiate c h" "s' = set_pc t (Pc_release c h) (initiate c h s)"
      using a by (auto split: if_splits call_pc.splits)
    obtain evs' where "ti_run e evs' (core_ti (initiate c h s))" "set evs \<subseteq> set evs'" "handed_over evs' (initiate c h s) c h"
      "\<forall>d k. handed_over evs s d k \<longrightarrow> handed_over evs' (initiate c h s) d k"
      by (rule initiate_run [OF r, of c h])
    hence "tracked e evs' s'" unfolding t(3) by (intro tracked_move [OF T]) auto
    thus ?thesis by blast
  next
    case (A_shut t)
    hence t: "s' = set_pc t (Pc_return tunio_ok) (if ti_open (core_ti s) then close_on_io s else s)" using a by (auto split: if_splits)
    obtain evs' where "ti_run e evs' (core_ti (close_on_io s))" "extends evs s evs' (close_on_io s)"
      "\<forall>j\<in>set (core_jobs s). settled_job evs' (close_on_io s) j"
      using close_on_io_run [OF r] by metis
    hence "tracked e evs' (set_pc t (Pc_return tunio_ok) (close_on_io s))"
      by (intro tracked_move [OF T]) (auto intro: handed_over_settled)
    moreover have "tracked e evs (set_pc t (Pc_return tunio_ok) s)" by (rule tracked_move [OF T r]) auto
    ultimately show ?thesis unfolding t by auto
  next
    case (A_open p4 p6 device cfg)
    have "ti_run e (evs @ [Ti_open p4 p6 device cfg]) (snd (open_impl p4 p6 device cfg (core_ti s)))"
      using ti_run.event [OF r, of "Ti_open p4 p6 device cfg"] by simp
    hence "tracked e (evs @ [Ti_open p4 p6 device cfg]) x"
      if "core_ti x = snd (open_impl p4 p6 device cfg (core_ti s))" "core_threads x = core_threads s" "core_jobs x = core_jobs s" "core_dead x = core_dead s" for x
      using that by (intro tracked_same [OF T]) (auto intro: handed_over_same)
    from this [of s'] show ?thesis using a A_open T by (auto split: if_splits open_result.splits prod.splits)
  next
    case A_job
    then obtain j js where j: "core_jobs s = j # js" "s' = run_job j (s\<lparr>core_jobs := js\<rparr>)" using a by (auto split: list.splits)
    have "ti_run e evs (core_ti (s\<lparr>core_jobs := js\<rparr>))" using r by simp
    then obtain evs' where "ti_run e evs' (core_ti s')" "extends evs (s\<lparr>core_jobs := js\<rparr>) evs' s'" "settled_job evs' s' j"
      using run_job_run [of e evs "s\<lparr>core_jobs := js\<rparr>" j] unfolding j(2) by metis
    moreover have "core_threads s' = core_threads s" "core_jobs s' = js" by (simp_all add: j(2))
    ultimately have "tracked e evs' s'" by (intro tracked_same [OF T]) (auto simp: j(1) extends_def intro: handed_over_settled)
    thus ?thesis by blast
  next
    case (A_engine ev)
    hence s': "s' = s\<lparr>core_ti := ti_step ev (core_ti s)\<rparr>" "ti_enabled ev (core_ti s)" using a by (auto split: if_splits)
    show ?thesis unfolding s'(1)
      by (rule exI [of _ "evs @ [ev]"], rule tracked_same [OF T]) (use ti_run.event [OF r s'(2)] in \<open>auto intro: handed_over_same\<close>)
  next
    case (A_begin t c)
    then obtain p x where "s' = set_pc t p x" "t < length (core_threads s)" "started p = None" "core_threads x = core_threads s" "core_ti x = core_ti s"
      "core_jobs x = core_jobs s" "core_dead x = core_dead s"
      using a by (cases "core_closed s") (auto split: if_splits)
    thus ?thesis using tracked_keep [OF T, of x t p] by blast
  next
    case (A_throw t)
    then obtain p x where "s' = set_pc t p x" "t < length (core_threads s)" "started p = None" "core_threads x = core_threads s" "core_ti x = core_ti s"
      "core_jobs x = core_jobs s" "core_dead x = core_dead s"
      using a by (cases "core_threads s ! t") (auto split: if_splits)
    thus ?thesis using tracked_keep [OF T, of x t p] by blast
  next
    case (A_release t)
    then obtain p x where "s' = set_pc t p x" "t < length (core_threads s)" "started p = started (core_threads s ! t)" "core_threads x = core_threads s"
      "core_ti x = core_ti s" "core_jobs x = core_jobs s" "core_dead x = core_dead s"
      using a by (cases "core_threads s ! t") (auto split: if_splits)
    thus ?thesis using tracked_keep [OF T, of x t p] by blast
  next
    case (A_wake t)
    then obtain r where "s' = set_pc t (Pc_return r) s" "t < length (core_threads s)"
      using a by (cases "core_threads s ! t") (auto split: if_splits)
    thus ?thesis using tracked_keep [OF T, of s t "Pc_return r"] by auto
  next
    case (A_close t)
    then obtain p x where "s' = set_pc t p x" "t < length (core_threads s)" "started p = None" "core_threads x = core_threads s" "core_ti x = core_ti s"
      "core_jobs x = core_jobs s" "core_dead x = core_dead s"
      using a by (cases "core_closed s") (auto split: if_splits)
    thus ?thesis using tracked_keep [OF T, of x t p] by blast
  next
    case (A_drained t)
    hence "s' = set_pc t Pc_close s" "t < length (core_threads s)" using a by (auto split: if_splits)
    thus ?thesis using tracked_keep [OF T, of s t Pc_close] by auto
  qed
qed

lemma core_run_inv: "core_run e n s \<Longrightarrow> counts s \<and> (\<exists>evs. tracked e evs s)"
proof (induction rule: core_run.induct)
  case start
  have "filter registered (replicate n Pc_idle) = []" by (induction n) simp_all
  moreover have "p \<in> set (replicate n Pc_idle) \<Longrightarrow> p = Pc_idle" for p by (simp split: if_splits)
  ultimately show ?case by (auto simp: engine_core_new_def counts_def tracked_def intro: ti_run.start)
next
  case (step s a s')
  thus ?case using counts_step tracked_step by blast
qed

section \<open>Properties\<close>

text \<open>
  Closing does not overlap with starting. In every interleaving of calls, closings, openings and steps of
  the engine: the count of registered calls is exact; and while a thread is about to close the engine, the
  engine is marked closed and no thread is between registering its call and having started it.
\<close>

theorem c_close_excludes_calls:
  assumes "core_run e n s"
  shows "core_active s = length (filter registered (core_threads s)) \<and>
    (Pc_close \<in> set (core_threads s) \<longrightarrow> core_closed s \<and> (\<forall>p\<in>set (core_threads s). \<not> registered p))"
  using core_run_inv [OF assms] by (auto simp: counts_def filter_empty_conv)

text \<open>
  C29. Closing wakes every blocked call. In every interleaving: when a thread that closes an open engine has
  run the close on the executor, the engine is closed, and the slot of every thread that waits, for a
  connection, a session, data, a datagram or the acknowledgement of a write, is filled, so the thread can
  return.
\<close>

theorem c_close_wakes_calls:
  assumes "core_run e n s" "ti_fresh e" "ti_open (core_ti s)" "core_step (A_shut t) s = Some s'"
  shows "\<not> ti_open (core_ti s') \<and>
    (\<forall>u c h. u < length (core_threads s') \<longrightarrow> core_threads s' ! u = Pc_wait c h \<longrightarrow> slot c h s' \<noteq> None \<and> core_step (A_wake u) s' \<noteq> None)"
proof -
  have t: "s' = set_pc t (Pc_return tunio_ok) (close_on_io s)" using assms(3,4) by (auto split: if_splits)
  obtain evs where T: "tracked e evs s" using core_run_inv [OF assms(1)] by blast
  hence "ti_run e evs (core_ti s)" by (simp add: tracked_def)
  then obtain evs' where E: "extends evs s evs' (close_on_io s)" "\<forall>j\<in>set (core_jobs s). settled_job evs' (close_on_io s) j"
    "posted_toks (ti_env (core_ti (close_on_io s))) = sum_list (map tcp_given evs')"
    "udp_posted (ti_env (core_ti (close_on_io s))) = sum_list (map udp_given evs')"
    using close_on_io_run assms(2,3) by metis
  have "slot c h s' \<noteq> None" if u: "u < length (core_threads s')" "core_threads s' ! u = Pc_wait c h" for u c h
  proof -
    have "Pc_wait c h \<in> set ((core_threads s)[t := Pc_return tunio_ok])" using u nth_mem [OF u(1)] by (simp add: t)
    hence "Pc_wait c h \<in> set (core_threads s)" using in_update by fast
    hence "handed_over evs s c h" using T by (auto simp: tracked_def)
    hence "call_event h c \<in> set evs' \<or> h \<in> set (core_dead (close_on_io s))"
      using E(1,2) by (auto simp: handed_over_def extends_def settled_job_def)
    moreover have "slot c h s' = slot c h (close_on_io s)" by (simp add: slot_def t)
    moreover have "h \<in> set (core_dead (close_on_io s)) \<Longrightarrow> slot c h (close_on_io s) \<noteq> None" by (simp add: slot_def)
    ultimately show ?thesis using slot_filled [OF submitted_given [OF _ E(3,4)]] by auto
  qed
  moreover have "\<not> ti_open (core_ti s')" by (simp add: t close_on_io_def Let_def close_impl_def dispatch_def task_frames)
  ultimately show ?thesis by auto
qed

section \<open>Samples\<close>

text \<open>An engine that has been opened; one thread accepts and waits, another is about to close.\<close>

definition sample_core :: engine_core where
  "sample_core = (engine_core_new sample_env 2)\<lparr>core_ti := sample_opened, core_closed := False\<rparr>"

definition sample_waiting_core :: engine_core where
  "sample_waiting_core = sample_core\<lparr>core_closed := True, core_active := 0, core_next := 1,
     core_ti := ti_step (Ti_accept_tcp False 0) sample_opened, core_threads := [Pc_wait Call_accept_tcp 0, Pc_close]\<rparr>"

lemma sample_core_run: "core_run sample_env 2 sample_core"
proof -
  obtain ti where o: "open_impl (\<lambda>_. Inl EC_invalid_argument) (\<lambda>_. Inl EC_invalid_argument) sample_device sample_open_config (tunio_impl_new sample_env) = (Open_ok, ti)"
    using sample_is_open(2) by blast
  hence ti: "ti = sample_opened" by (simp add: sample_opened_def)
  have "core_step (A_open (\<lambda>_. Inl EC_invalid_argument) (\<lambda>_. Inl EC_invalid_argument) sample_device sample_open_config) (engine_core_new sample_env 2) = Some sample_core"
    using o by (simp add: engine_core_new_def sample_core_def ti tunio_impl_new_def)
  from core_run.step [OF core_run.start this] show ?thesis .
qed

lemma sample_waiting_core_run: "core_run sample_env 2 sample_waiting_core"
proof -
  define steps where "steps = [A_begin 0 Call_accept_tcp, A_initiate 0, A_release 0, A_close 1, A_drained 1]"
  have more: "core_run sample_env 2 x \<Longrightarrow> foldr (\<lambda>a r. Option.bind r (core_step a)) rs (Some x) = Some y \<Longrightarrow> core_run sample_env 2 y" for rs x y
    by (induction rs arbitrary: y) (auto simp: Option.bind_eq_Some_conv intro: core_run.step)
  have "foldr (\<lambda>a r. Option.bind r (core_step a)) (rev steps) (Some sample_core) = Some sample_waiting_core"
    by (simp add: steps_def sample_waiting_core_def sample_core_def engine_core_new_def set_pc_def initiate_def size_sub_def numeral_2_eq_2)
  from more [OF sample_core_run this] show ?thesis .
qed

lemma sample_waiting_core_open: "ti_open (core_ti sample_waiting_core)"
  using sample_is_open(3) by (simp add: sample_waiting_core_def async_accept_tcp_def dispatch_def)

theorem c_close_excludes_calls_witness: "core_active sample_waiting_core = 0 \<and> \<not> registered (Pc_wait Call_accept_tcp 0)"
  using c_close_excludes_calls [OF sample_waiting_core_run] by (simp add: sample_waiting_core_def)

theorem c_close_wakes_calls_witness:
  "\<exists>s'. core_step (A_shut 1) sample_waiting_core = Some s' \<and> slot Call_accept_tcp 0 s' \<noteq> None"
proof -
  obtain s' where s': "core_step (A_shut 1) sample_waiting_core = Some s'" by (simp add: sample_waiting_core_def)
  hence "core_threads s' = (core_threads sample_waiting_core)[1 := Pc_return tunio_ok]"
    using sample_waiting_core_open by (auto split: if_splits)
  hence "core_threads s' = [Pc_wait Call_accept_tcp 0, Pc_return tunio_ok]" by (simp add: sample_waiting_core_def)
  hence "0 < length (core_threads s')" "core_threads s' ! 0 = Pc_wait Call_accept_tcp 0" by simp_all
  hence "slot Call_accept_tcp 0 s' \<noteq> None"
    using c_close_wakes_calls [OF sample_waiting_core_run sample_run(2) sample_waiting_core_open s'] by blast
  thus ?thesis using s' by blast
qed

end
