(* ===== verification/C_Async.thy ===== *)
theory C_Async
  imports C_Api "HOL-Library.Multiset"
begin

text \<open>
  The callbacks of the C binding (\<^verbatim>\<open>bindings/c/src/c_api.cpp\<close>, second half): accepting connections
  continuously (\<^verbatim>\<open>tunio_tcp_async_accept\<close>, \<^verbatim>\<open>arm_tcp_accept\<close>; the UDP twins are the same code
  over their own fields), and reads and writes with a callback (\<^verbatim>\<open>tunio_tcp_async_recv\<close> and the like).
\<close>

section \<open>Accepting\<close>

text \<open>
  The state of one family: the flags of \<^verbatim>\<open>engine_core\<close>; the threads that have set \<^verbatim>\<open>tcp_accepting\<close>
  and are about to call \<^verbatim>\<open>arm_tcp_accept\<close>, and those about to post a cancellation; the tasks on the
  executor; the accepts waiting in the engine and the results that are posted; and the handler that runs. Callbacks
  are numbers; \<open>ac_calls\<close> is the list of the calls made.
\<close>

datatype accept_task = T_arm | T_cancel

datatype accept_pc = H_lookup | H_call nat | H_rearm

record accept_state =
  ac_closed :: bool
  ac_gone :: bool
  ac_cb :: "nat option"
  ac_accepting :: bool
  ac_arming :: nat
  ac_cancelling :: nat
  ac_tasks :: "accept_task list"
  ac_pending :: nat
  ac_results :: "error_code list"
  ac_running :: "accept_pc option"
  ac_calls :: "nat list"

definition accept_state_new :: accept_state where
  "accept_state_new = \<lparr>ac_closed = True, ac_gone = False, ac_cb = None, ac_accepting = False, ac_arming = 0, ac_cancelling = 0,
     ac_tasks = [], ac_pending = 0, ac_results = [], ac_running = None, ac_calls = []\<rparr>"

text \<open>
  \<^verbatim>\<open>tunio_tcp_async_accept\<close>, up to the release of the lock: the part under the lock, and the whole, in which
  the test of \<^verbatim>\<open>closed\<close> comes first, before the lock is taken.
\<close>

definition async_accept_locked :: "nat option \<Rightarrow> accept_state \<Rightarrow> accept_state" where
  "async_accept_locked cb s =
     (let s = s\<lparr>ac_cb := cb\<rparr> in
      if cb \<noteq> None \<and> \<not> ac_accepting s then s\<lparr>ac_accepting := True, ac_arming := ac_arming s + 1\<rparr>
      else if cb = None \<and> ac_accepting s then s\<lparr>ac_cancelling := ac_cancelling s + 1\<rparr>
      else s)"

definition async_accept_register :: "nat option \<Rightarrow> accept_state \<Rightarrow> int \<times> accept_state" where
  "async_accept_register cb s = (if ac_closed s then (tunio_eclosed, s) else (tunio_ok, async_accept_locked cb s))"

text \<open>\<^verbatim>\<open>arm_tcp_accept\<close>, and the two tasks.\<close>

definition arm_accept :: "accept_state \<Rightarrow> accept_state" where
  "arm_accept s = (if ac_closed s then s else s\<lparr>ac_tasks := ac_tasks s @ [T_arm]\<rparr>)"

definition accept_task_run :: "accept_task \<Rightarrow> accept_state \<Rightarrow> accept_state" where
  "accept_task_run t s =
     (case t of
        T_arm \<Rightarrow> if ac_closed s then s\<lparr>ac_accepting := False\<rparr> else s\<lparr>ac_pending := ac_pending s + 1\<rparr>
      | T_cancel \<Rightarrow>
          if ac_closed s then s
          else s\<lparr>ac_results := ac_results s @ replicate (ac_pending s) EC_operation_aborted, ac_pending := 0\<rparr>)"

text \<open>
  The handler of an accept: it clears \<^verbatim>\<open>tcp_accepting\<close> and ends if the accept failed; looks the callback up;
  calls it; and starts the next accept.
\<close>

definition accept_handler :: "error_code \<Rightarrow> accept_state \<Rightarrow> accept_state" where
  "accept_handler ec s = s\<lparr>ac_accepting := False, ac_running := (if ec \<noteq> EC_ok then None else Some H_lookup)\<rparr>"

definition accept_handler_step :: "accept_pc \<Rightarrow> accept_state \<Rightarrow> accept_state" where
  "accept_handler_step p s =
     (case p of
        H_lookup \<Rightarrow>
          (case ac_cb s of
             Some f \<Rightarrow> if ac_closed s \<or> ac_gone s then s\<lparr>ac_running := None\<rparr> else s\<lparr>ac_running := Some (H_call f)\<rparr>
           | None \<Rightarrow> s\<lparr>ac_running := None\<rparr>)
      | H_call f \<Rightarrow> s\<lparr>ac_calls := ac_calls s @ [f], ac_running := Some H_rearm\<rparr>
      | H_rearm \<Rightarrow>
          let s = s\<lparr>ac_running := None\<rparr> in
          if \<not> ac_accepting s \<and> \<not> ac_gone s \<and> \<not> ac_closed s \<and> ac_cb s \<noteq> None
          then s\<lparr>ac_accepting := True, ac_arming := ac_arming s + 1\<rparr> else s)"

text \<open>
  What can happen, in any order: calls from any thread (also from inside the callback); the steps those threads
  still owe; the executor, which runs one thing at a time; and the engine, in which an accept succeeds or all
  of them fail. \<open>C_register_late\<close> is the locked part of a registration that found the engine open a while ago:
  between its test and its lock anything may have happened, a close included.
\<close>

datatype accept_action =
    C_register "nat option"
  | C_register_late "nat option"
  | C_arm
  | C_cancel
  | C_close
  | C_open
  | C_free
  | X_task
  | X_handler
  | X_handler_step
  | E_connection
  | E_fail error_code

fun accept_step :: "accept_action \<Rightarrow> accept_state \<Rightarrow> accept_state" where
  "accept_step (C_register cb) s = snd (async_accept_register cb s)"
| "accept_step (C_register_late cb) s = async_accept_locked cb s"
| "accept_step C_arm s = (if ac_arming s = 0 then s else arm_accept (s\<lparr>ac_arming := ac_arming s - 1\<rparr>))"
| "accept_step C_cancel s =
     (if ac_cancelling s = 0 then s else s\<lparr>ac_cancelling := ac_cancelling s - 1, ac_tasks := ac_tasks s @ [T_cancel]\<rparr>)"
| "accept_step C_close s = s\<lparr>ac_closed := True\<rparr>"
| "accept_step C_open s = s\<lparr>ac_closed := False\<rparr>"
| "accept_step C_free s = s\<lparr>ac_gone := True\<rparr>"
| "accept_step X_task s =
     (case (ac_running s, ac_tasks s) of (None, t # ts) \<Rightarrow> accept_task_run t (s\<lparr>ac_tasks := ts\<rparr>) | _ \<Rightarrow> s)"
| "accept_step X_handler s =
     (case (ac_running s, ac_results s) of (None, ec # rs) \<Rightarrow> accept_handler ec (s\<lparr>ac_results := rs\<rparr>) | _ \<Rightarrow> s)"
| "accept_step X_handler_step s = (case ac_running s of Some p \<Rightarrow> accept_handler_step p s | None \<Rightarrow> s)"
| "accept_step E_connection s =
     (if ac_pending s = 0 then s else s\<lparr>ac_pending := ac_pending s - 1, ac_results := ac_results s @ [EC_ok]\<rparr>)"
| "accept_step (E_fail ec) s =
     (if ec = EC_ok then s else s\<lparr>ac_results := ac_results s @ replicate (ac_pending s) ec, ac_pending := 0\<rparr>)"

definition accept_steps :: "accept_action list \<Rightarrow> accept_state \<Rightarrow> accept_state" where
  "accept_steps acts s = fold accept_step acts s"

lemmas accept_defs = async_accept_register_def async_accept_locked_def arm_accept_def accept_task_run_def accept_handler_def accept_handler_step_def Let_def

text \<open>The accepts under way, from the decision to start one to its handler.\<close>

definition in_flight :: "accept_state \<Rightarrow> nat" where
  "in_flight s = ac_arming s + length (filter (\<lambda>t. t = T_arm) (ac_tasks s)) + ac_pending s + length (ac_results s)"

definition accept_inv :: "accept_state \<Rightarrow> bool" where
  "accept_inv s \<longleftrightarrow> in_flight s \<le> (if ac_accepting s then 1 else 0)"

lemma in_flight_simps [simp]:
  "in_flight (s\<lparr>ac_cb := x\<rparr>) = in_flight s" "in_flight (s\<lparr>ac_accepting := b\<rparr>) = in_flight s" "in_flight (s\<lparr>ac_closed := b\<rparr>) = in_flight s"
  "in_flight (s\<lparr>ac_gone := b\<rparr>) = in_flight s" "in_flight (s\<lparr>ac_cancelling := n\<rparr>) = in_flight s" "in_flight (s\<lparr>ac_running := r\<rparr>) = in_flight s"
  "in_flight (s\<lparr>ac_calls := l\<rparr>) = in_flight s"
  by (simp_all add: in_flight_def)

text \<open>How many accepts are under way after each step.\<close>

lemma in_flight_moves:
  "in_flight (async_accept_locked cb s) = in_flight s + (if cb \<noteq> None \<and> \<not> ac_accepting s then 1 else 0)"
  "in_flight (snd (async_accept_register cb s)) = in_flight s + (if \<not> ac_closed s \<and> cb \<noteq> None \<and> \<not> ac_accepting s then 1 else 0)"
  "0 < ac_arming s \<Longrightarrow> in_flight (arm_accept (s\<lparr>ac_arming := ac_arming s - Suc 0\<rparr>)) = in_flight s - (if ac_closed s then 1 else 0)"
  "in_flight (s\<lparr>ac_cancelling := n, ac_tasks := ac_tasks s @ [T_cancel]\<rparr>) = in_flight s"
  "ac_tasks s = t # ts \<Longrightarrow> in_flight (accept_task_run t (s\<lparr>ac_tasks := ts\<rparr>)) = in_flight s - (if t = T_arm \<and> ac_closed s then 1 else 0)"
  "ac_results s = ec # es \<Longrightarrow> in_flight (accept_handler ec (s\<lparr>ac_results := es\<rparr>)) = in_flight s - 1"
  "in_flight (accept_handler_step p s) = in_flight s + (if p = H_rearm \<and> \<not> ac_accepting s \<and> \<not> ac_gone s \<and> \<not> ac_closed s \<and> ac_cb s \<noteq> None then 1 else 0)"
  "0 < ac_pending s \<Longrightarrow> in_flight (s\<lparr>ac_pending := ac_pending s - Suc 0, ac_results := ac_results s @ [EC_ok]\<rparr>) = in_flight s"
  "in_flight (s\<lparr>ac_results := ac_results s @ replicate (ac_pending s) ec, ac_pending := 0\<rparr>) = in_flight s"
         apply (simp_all add: async_accept_register_def async_accept_locked_def Let_def in_flight_def)
     apply (simp_all add: arm_accept_def accept_handler_def)
   apply (cases t; simp add: accept_task_run_def)
  apply (cases p; simp add: accept_handler_step_def Let_def split: option.splits)
  done

lemma accepting_moves:
  "ac_accepting (async_accept_locked cb s) = (ac_accepting s \<or> cb \<noteq> None)"
  "ac_accepting (snd (async_accept_register cb s)) = (ac_accepting s \<or> \<not> ac_closed s \<and> cb \<noteq> None)"
  "ac_accepting (arm_accept s) = ac_accepting s"
  "ac_accepting (accept_task_run t s) = (ac_accepting s \<and> \<not> (t = T_arm \<and> ac_closed s))"
  "\<not> ac_accepting (accept_handler ec s)"
  "ac_accepting (accept_handler_step p s) = (ac_accepting s \<or> p = H_rearm \<and> \<not> ac_gone s \<and> \<not> ac_closed s \<and> ac_cb s \<noteq> None)"
  by (auto simp: accept_defs split: accept_task.splits accept_pc.splits option.splits)

lemma tasks_in_flight: "ac_tasks s = T_arm # ts \<Longrightarrow> 0 < in_flight s" "ac_results s = ec # es \<Longrightarrow> 0 < in_flight s" "0 < ac_arming s \<Longrightarrow> 0 < in_flight s"
  by (simp_all add: in_flight_def)

lemma accept_inv_step: "accept_inv s \<Longrightarrow> accept_inv (accept_step a s)"
  unfolding accept_inv_def
  by (cases a) (auto simp: in_flight_moves accepting_moves tasks_in_flight split: list.splits option.splits if_splits)

lemma accept_inv_steps: "accept_inv s \<Longrightarrow> accept_inv (accept_steps acts s)"
  unfolding accept_steps_def by (induction acts arbitrary: s) (simp_all add: accept_inv_step del: accept_step.simps)

lemma accept_inv_new: "accept_inv accept_state_new"
  by (simp add: accept_inv_def in_flight_def accept_state_new_def)

text \<open>
  C30. At most one accept is under way, whatever threads register, pause, close, open and free, and in
  whatever order their steps and those of the executor come: so connections reach the callback one at a time,
  and \<^verbatim>\<open>tcp_accepting\<close> is set while one is.
\<close>

theorem c_accept_one_in_flight:
  "in_flight (accept_steps acts accept_state_new) \<le> (if ac_accepting (accept_steps acts accept_state_new) then 1 else 0)"
  using accept_inv_steps [OF accept_inv_new, of acts] by (simp add: accept_inv_def)

text \<open>
  The engine listens: it is open, a callback is registered, and an accept is under way or a handler runs that
  will start one. \<open>friendly\<close> steps are all but a pause, a close, a free and a failure of the accepts.
\<close>

definition listening :: "accept_state \<Rightarrow> bool" where
  "listening s \<longleftrightarrow> \<not> ac_closed s \<and> \<not> ac_gone s \<and> ac_cb s \<noteq> None \<and> ac_cancelling s = 0 \<and> T_cancel \<notin> set (ac_tasks s) \<and>
     set (ac_results s) \<subseteq> {EC_ok} \<and> in_flight s = (if ac_accepting s then 1 else 0) \<and> (ac_accepting s \<or> ac_running s \<noteq> None)"

fun friendly :: "accept_action \<Rightarrow> bool" where
  "friendly (C_register cb) = (cb \<noteq> None)"
| "friendly (C_register_late cb) = (cb \<noteq> None)"
| "friendly C_close = False"
| "friendly C_free = False"
| "friendly (E_fail ec) = False"
| "friendly _ = True"

lemma listening_step:
  assumes l: "listening s" and f: "friendly a" shows "listening (accept_step a s)"
proof -
  note L = l [unfolded listening_def]
  have no: "t \<noteq> T_cancel" if "ac_tasks s = t # ts" for t ts using L that by auto
  show ?thesis
  proof (cases a)
    case (C_register cb)
    then obtain g where "cb = Some g" using f by auto
    thus ?thesis using L C_register by (auto simp: listening_def async_accept_register_def async_accept_locked_def Let_def in_flight_def)
  next
    case (C_register_late cb)
    then obtain g where "cb = Some g" using f by auto
    thus ?thesis using L C_register_late by (auto simp: listening_def async_accept_locked_def Let_def in_flight_def)
  next
    case C_arm
    thus ?thesis using L by (auto simp: listening_def arm_accept_def in_flight_def split: if_splits)
  next
    case X_task
    show ?thesis
    proof (cases "ac_running s = None \<and> ac_tasks s \<noteq> []")
      case True
      then obtain t ts where t: "ac_tasks s = t # ts" by (auto simp: neq_Nil_conv)
      hence "t = T_arm" using no [OF t] by (cases t) simp_all
      thus ?thesis using X_task True L t by (auto simp: listening_def accept_task_run_def in_flight_def split: if_splits)
    qed (use X_task l in \<open>auto split: option.splits list.splits\<close>)
  next
    case X_handler
    show ?thesis
    proof (cases "ac_running s = None \<and> ac_results s \<noteq> []")
      case True
      then obtain ec rs where t: "ac_results s = ec # rs" by (auto simp: neq_Nil_conv)
      thus ?thesis using X_handler True L by (auto simp: listening_def accept_handler_def in_flight_def split: if_splits)
    qed (use X_handler l in \<open>auto split: option.splits list.splits\<close>)
  next
    case X_handler_step
    show ?thesis
    proof (cases "ac_running s")
      case (Some p)
      thus ?thesis using X_handler_step L by (cases p) (auto simp: listening_def accept_handler_step_def Let_def in_flight_def)
    qed (use X_handler_step l in simp)
  next
    case E_connection
    thus ?thesis using L by (auto simp: listening_def in_flight_def split: if_splits)
  qed (use L f in \<open>auto simp: listening_def\<close>)
qed

lemma listening_steps: "listening s \<Longrightarrow> \<forall>a\<in>set acts. friendly a \<Longrightarrow> listening (accept_steps acts s)"
  unfolding accept_steps_def by (induction acts arbitrary: s) (simp_all add: listening_step del: accept_step.simps)

text \<open>A listening engine with an accept waiting hands the next connection over and waits for another.\<close>

lemma accept_round:
  assumes "ac_pending s = 1" "ac_tasks s = []" "ac_results s = []" "ac_running s = None" "ac_arming s = 0"
    "\<not> ac_closed s" "\<not> ac_gone s" "ac_cb s = Some f" "ac_accepting s"
  shows "accept_steps [E_connection, X_handler, X_handler_step, X_handler_step, X_handler_step, C_arm, X_task] s = s\<lparr>ac_calls := ac_calls s @ [f]\<rparr>"
  using assms by (cases s) (simp add: accept_steps_def accept_defs)

text \<open>
  Two ways to lose the listener. \<open>stuck\<close>: \<^verbatim>\<open>tcp_accepting\<close> is set and no accept is under way.
  \<open>deaf\<close>: a callback is registered, the engine is open, but nothing is under way.
\<close>

definition stuck :: "accept_state \<Rightarrow> bool" where
  "stuck s \<longleftrightarrow> ac_accepting s \<and> in_flight s = 0 \<and> ac_running s = None"

fun registers :: "accept_action \<Rightarrow> bool" where
  "registers (C_register cb) = (cb \<noteq> None)"
| "registers (C_register_late cb) = (cb \<noteq> None)"
| "registers _ = False"

definition deaf :: "accept_state \<Rightarrow> bool" where
  "deaf s \<longleftrightarrow> in_flight s = 0 \<and> ac_running s = None"

lemma stuck_step: "stuck s \<Longrightarrow> stuck (accept_step a s) \<and> ac_calls (accept_step a s) = ac_calls s"
  by (cases a) (auto simp: stuck_def in_flight_def accept_defs split: option.splits list.splits accept_task.splits if_splits)

lemma deaf_step: "deaf s \<Longrightarrow> \<not> registers a \<Longrightarrow> deaf (accept_step a s) \<and> ac_calls (accept_step a s) = ac_calls s"
  by (cases a) (auto simp: deaf_def in_flight_def accept_defs split: option.splits list.splits accept_task.splits if_splits)

lemma deaf_steps: "deaf s \<Longrightarrow> \<forall>a\<in>set acts. \<not> registers a \<Longrightarrow> ac_calls (accept_steps acts s) = ac_calls s"
  unfolding accept_steps_def by (induction acts arbitrary: s) (simp_all add: deaf_step del: accept_step.simps)

text \<open>A listening engine whose accept waits has nothing else under way, and what a failure of that accept leaves.\<close>

lemma listening_pending:
  assumes "listening s" "ac_pending s = 1"
  shows "ac_arming s = 0" "ac_results s = []" "ac_accepting s" "ac_tasks s = []"
proof -
  have i: "in_flight s = (if ac_accepting s then 1 else 0)" and c: "T_cancel \<notin> set (ac_tasks s)"
    using assms(1) by (simp_all add: listening_def)
  hence z: "ac_arming s = 0 \<and> ac_results s = [] \<and> ac_accepting s \<and> filter (\<lambda>t. t = T_arm) (ac_tasks s) = []"
    using assms(2) by (simp add: in_flight_def split: if_splits)
  thus "ac_arming s = 0" "ac_results s = []" "ac_accepting s" by simp_all
  show "ac_tasks s = []"
  proof (cases "ac_tasks s")
    case (Cons t ts)
    thus ?thesis using z c by (cases t) simp_all
  qed
qed

lemma accept_failed:
  assumes "listening s" "ac_pending s = 1" "ac_running s = None" "ec \<noteq> EC_ok"
  shows "accept_steps [E_fail ec, X_handler] s = s\<lparr>ac_pending := 0, ac_accepting := False\<rparr>" "deaf (s\<lparr>ac_pending := 0, ac_accepting := False\<rparr>)"
    "listening (accept_step (C_register (Some f)) (s\<lparr>ac_pending := 0, ac_accepting := False\<rparr>))"
  using assms listening_pending [OF assms(1,2)]
  by (cases s; simp add: accept_steps_def accept_defs deaf_def listening_def in_flight_def)+

text \<open>
  C31. Accepting goes on as long as it succeeds. From a state in which the engine listens, after any further
  registrations, connections and steps of the executor, it listens still, provided that nobody pauses, closes or
  frees and that the engine's accepts do not fail. The last condition is needed, and the engine breaks it on its own: a
  read error of the device closes the engine below and aborts its accepts, while the C engine stays open. When the
  waiting accept fails, its handler starts no other: the callback stays registered and the C engine open, but
  whatever happens then, until somebody registers again, no connection is handed over and the application is not
  told. A new registration starts an accept again.
\<close>

theorem c_accept_keeps_listening:
  assumes "listening s" "\<forall>a\<in>set acts. friendly a" "s' = accept_steps acts s"
  shows "listening s' \<and>
    (if ac_pending s' = 1 \<and> ac_running s' = None \<and> ec \<noteq> EC_ok
     then let t = accept_steps [E_fail ec, X_handler] s' in
       ac_cb t = ac_cb s' \<and> ac_cb t \<noteq> None \<and> \<not> ac_closed t \<and> \<not> ac_gone t \<and> \<not> listening t \<and>
       (if \<forall>a\<in>set later. \<not> registers a then ac_calls (accept_steps later t) = ac_calls s' else True) \<and>
       listening (accept_step (C_register (Some f)) t)
     else True)"
proof (cases "ac_pending s' = 1 \<and> ac_running s' = None \<and> ec \<noteq> EC_ok")
  case True
  define t where "t = s'\<lparr>ac_pending := 0, ac_accepting := False\<rparr>"
  have l: "listening s'" using listening_steps assms by simp
  note a = accept_failed [OF l, of ec, folded t_def]
  have "deaf t" using a(2) True by simp
  hence "ac_calls (accept_steps later t) = ac_calls s'" if "\<forall>a\<in>set later. \<not> registers a"
    using deaf_steps [of t later] that by (simp add: t_def)
  moreover have "ac_cb t = ac_cb s' \<and> ac_cb t \<noteq> None \<and> \<not> ac_closed t \<and> \<not> ac_gone t \<and> \<not> listening t"
    using l True by (auto simp: t_def listening_def)
  moreover have "ac_cb s' \<noteq> None" using l by (simp add: listening_def)
  ultimately show ?thesis using l True a(1,3) by (simp del: accept_step.simps)
qed (use listening_steps assms in auto)

text \<open>
  C32. A close that comes between a registration and its \<^verbatim>\<open>arm_tcp_accept\<close> is final:
  \<^verbatim>\<open>arm_tcp_accept\<close> returns without clearing \<^verbatim>\<open>tcp_accepting\<close>, and from then on, whatever the
  application does, opening the engine and registering again included, no callback is called.
\<close>

theorem c_accept_stuck_forever:
  assumes "listening s" "ac_arming s = 1" "ac_running s = None"
  shows "ac_calls (accept_steps (C_close # C_arm # acts) s) = ac_calls s"
proof -
  have "stuck (accept_step C_arm (accept_step C_close s))"
    using assms by (auto simp: stuck_def listening_def in_flight_def accept_defs split: if_splits)
  moreover have "stuck x \<Longrightarrow> ac_calls (fold accept_step acts x) = ac_calls x" for x
    by (induction acts arbitrary: x) (simp_all add: stuck_step del: accept_step.simps)
  moreover have "ac_calls (accept_step C_arm (accept_step C_close s)) = ac_calls s"
    using assms(2) by (simp add: arm_accept_def)
  ultimately show ?thesis by (simp add: accept_steps_def del: accept_step.simps)
qed

text \<open>
  Pausing and registering again can lose the registration: when the new callback is registered before the
  cancelled accept has ended, no accept is started for it, and none when the cancelled one ends. The engine is
  open and the callback registered, but no connection reaches it before the next registration.
\<close>

theorem c_accept_registration_lost:
  assumes "listening s" "ac_pending s = 1" "ac_running s = None" "\<forall>a\<in>set acts. \<not> registers a"
    "s' = accept_steps [C_register None, C_register (Some f), C_cancel, X_task, X_handler] s"
  shows "ac_cb s' = Some f \<and> \<not> ac_closed s' \<and> ac_calls (accept_steps acts s') = ac_calls s"
proof -
  note z = listening_pending [OF assms(1,2)]
  have o: "ac_cancelling s = 0" "\<not> ac_closed s" using assms(1) by (simp_all add: listening_def)
  have s': "s' = s\<lparr>ac_cb := Some f, ac_accepting := False, ac_pending := 0\<rparr>"
    using assms(2,3) z o unfolding assms(5) by (cases s) (simp add: accept_steps_def accept_defs)
  have "deaf s'" using assms(3) z by (simp add: s' deaf_def in_flight_def)
  hence "ac_calls (accept_steps acts s') = ac_calls s'" using deaf_steps assms(4) by simp
  thus ?thesis using o by (simp add: s')
qed

section \<open>Reads and writes with a callback\<close>

text \<open>
  One direction of a connection or session that was accepted with a callback: the flags its state shares with
  the engine, the operation in progress, and the calls made. \<open>single\<close> tells whether the direction
  admits one operation at a time (reads, TCP writes and receives do, UDP sends do not). For the record,
  \<open>io_accepted\<close> lists the operations started, \<open>io_calls\<close> the callbacks called with code and size, and
  \<open>io_dropped\<close> the operations that ended without a call.
\<close>

record async_io =
  io_alive :: bool
  io_gone :: bool
  io_closed :: bool
  io_pending :: bool
  io_waiting :: "nat list"
  io_accepted :: "nat list"
  io_calls :: "(nat \<times> int \<times> nat) list"
  io_dropped :: "nat list"

definition async_io_new :: async_io where
  "async_io_new = \<lparr>io_alive = True, io_gone = False, io_closed = False, io_pending = False, io_waiting = [], io_accepted = [], io_calls = [], io_dropped = []\<rparr>"

text \<open>
  Starting an operation with the callback \<open>cb\<close>: \<open>args_ok\<close> are the checks of the arguments,
  \<open>addr_ok\<close> that the address of a UDP send is one (true otherwise), \<open>throws\<close> whether starting it throws. The test and setting of the flag is one
  atomic step. The result is the code; the thread's last error is the same.
\<close>

definition async_start :: "bool \<Rightarrow> bool \<Rightarrow> bool \<Rightarrow> bool \<Rightarrow> nat \<Rightarrow> async_io \<Rightarrow> int \<times> async_io" where
  "async_start single args_ok addr_ok throws cb s =
     (if \<not> args_ok then (tunio_eparam, s)
      else if \<not> io_alive s then (tunio_eclosed, s)
      else if io_gone s \<or> io_closed s then (tunio_eclosed, s)
      else if single \<and> io_pending s then (tunio_eparam, s)
      else if \<not> addr_ok then (tunio_eparam, s)
      else if throws then (tunio_efail, s)
      else (tunio_ok, s\<lparr>io_pending := single, io_waiting := io_waiting s @ [cb], io_accepted := io_accepted s @ [cb]\<rparr>))"

text \<open>
  The handler of the operation that ends, the \<open>k\<close>-th of those in progress. Looking at the flags and calling
  back is one step: handles are freed in callbacks or while none runs.
\<close>

definition async_finish :: "nat \<Rightarrow> error_code \<Rightarrow> nat \<Rightarrow> async_io \<Rightarrow> async_io" where
  "async_finish k ec n s =
     (if k \<ge> length (io_waiting s) then s
      else let cb = io_waiting s ! k;
               s = s\<lparr>io_pending := False, io_waiting := take k (io_waiting s) @ drop (Suc k) (io_waiting s)\<rparr> in
        if \<not> io_alive s \<or> io_gone s then s\<lparr>io_dropped := io_dropped s @ [cb]\<rparr>
        else s\<lparr>io_calls := io_calls s @ [(cb, async_err_code ec, n)]\<rparr>)"

datatype io_action =
    Io_start bool bool bool nat
  | Io_finish nat error_code nat
  | Io_free
  | Io_engine_free
  | Io_close
  | Io_open

fun io_step :: "bool \<Rightarrow> io_action \<Rightarrow> async_io \<Rightarrow> async_io" where
  "io_step single (Io_start args_ok addr_ok throws cb) s = snd (async_start single args_ok addr_ok throws cb s)"
| "io_step single (Io_finish k ec n) s = async_finish k ec n s"
| "io_step single Io_free s = s\<lparr>io_alive := False\<rparr>"
| "io_step single Io_engine_free s = s\<lparr>io_gone := True, io_closed := True\<rparr>"
| "io_step single Io_close s = s\<lparr>io_closed := True\<rparr>"
| "io_step single Io_open s = (if io_gone s then s else s\<lparr>io_closed := False\<rparr>)"

definition io_steps :: "bool \<Rightarrow> io_action list \<Rightarrow> async_io \<Rightarrow> async_io" where
  "io_steps single acts s = fold (io_step single) acts s"

definition io_inv :: "bool \<Rightarrow> async_io \<Rightarrow> bool" where
  "io_inv single s \<longleftrightarrow>
     (if single then length (io_waiting s) = (if io_pending s then 1 else 0) else \<not> io_pending s) \<and>
     mset (map fst (io_calls s)) + mset (io_dropped s) + mset (io_waiting s) = mset (io_accepted s) \<and>
     (io_alive s \<and> \<not> io_gone s \<longrightarrow> io_dropped s = [])"

lemma io_finish_waiting:
  assumes "k < length ws" shows "mset ws = {#ws ! k#} + mset (take k ws @ drop (Suc k) ws)"
  using arg_cong [where f = mset, OF id_take_nth_drop [OF assms]] by simp

lemma io_inv_step:
  assumes i: "io_inv single s" shows "io_inv single (io_step single a s)"
proof (cases a)
  case (Io_finish k ec n)
  show ?thesis
  proof (cases "k < length (io_waiting s)")
    case True
    define r where "r = take k (io_waiting s) @ drop (Suc k) (io_waiting s)"
    have m: "mset (io_waiting s) = {#io_waiting s ! k#} + mset r" using io_finish_waiting [OF True] by (simp add: r_def)
    have "single \<longrightarrow> r = []" using i True by (auto simp: io_inv_def r_def split: if_splits)
    thus ?thesis using Io_finish True i m
      by (auto simp: io_inv_def async_finish_def Let_def r_def [symmetric])
  qed (use Io_finish i in \<open>simp add: async_finish_def\<close>)
qed (use i in \<open>auto simp: io_inv_def async_start_def split: if_splits\<close>)

lemma io_inv_steps: "io_inv single s \<Longrightarrow> io_inv single (io_steps single acts s)"
  unfolding io_steps_def by (induction acts arbitrary: s) (simp_all add: io_inv_step del: io_step.simps)

lemma io_inv_new: "io_inv single async_io_new"
  by (simp add: io_inv_def async_io_new_def)

text \<open>Letting the operations in progress end, with the results \<open>rs\<close>, oldest first.\<close>

definition io_end_all :: "bool \<Rightarrow> (error_code \<times> nat) list \<Rightarrow> async_io \<Rightarrow> async_io" where
  "io_end_all single rs s = io_steps single (map (\<lambda>(ec, n). Io_finish 0 ec n) rs) s"

lemma io_end_all_simps:
  "io_end_all single [] s = s" "io_end_all single (r # rs) s = io_end_all single rs (async_finish 0 (fst r) (snd r) s)"
  by (cases r; simp add: io_end_all_def io_steps_def)+

lemma async_finish_simps:
  assumes "k < length (io_waiting s)"
  shows "io_waiting (async_finish k ec n s) = take k (io_waiting s) @ drop (Suc k) (io_waiting s)"
    "io_calls (async_finish k ec n s) = io_calls s @ (if io_alive s \<and> \<not> io_gone s then [(io_waiting s ! k, async_err_code ec, n)] else [])"
    "io_alive (async_finish k ec n s) = io_alive s" "io_gone (async_finish k ec n s) = io_gone s"
    "io_closed (async_finish k ec n s) = io_closed s" "\<not> io_pending (async_finish k ec n s)"
    "io_accepted (async_finish k ec n s) = io_accepted s"
  using assms by (simp_all add: async_finish_def Let_def)

lemma io_end_all_result:
  "length rs = length (io_waiting s) \<Longrightarrow>
   io_waiting (io_end_all single rs s) = [] \<and> io_alive (io_end_all single rs s) = io_alive s \<and>
   io_gone (io_end_all single rs s) = io_gone s \<and> io_closed (io_end_all single rs s) = io_closed s \<and>
   io_accepted (io_end_all single rs s) = io_accepted s \<and> (io_pending (io_end_all single rs s) \<longrightarrow> rs = [] \<and> io_pending s) \<and>
   (io_alive s \<and> \<not> io_gone s \<longrightarrow>
      io_calls (io_end_all single rs s) = io_calls s @ map2 (\<lambda>cb (ec, n). (cb, async_err_code ec, n)) (io_waiting s) rs)"
proof (induction rs arbitrary: s)
  case (Cons r rs)
  then obtain w ws where w: "io_waiting s = w # ws" by (cases "io_waiting s") auto
  have k: "0 < length (io_waiting s)" by (simp add: w)
  show ?case using Cons.IH [of "async_finish 0 (fst r) (snd r) s"] Cons.prems w
    by (cases r) (simp add: io_end_all_simps async_finish_simps [OF k])
qed (simp add: io_end_all_simps)

lemma async_start_ok:
  "(fst (async_start single args_ok addr_ok throws cb s) = tunio_ok) =
     (args_ok \<and> addr_ok \<and> \<not> throws \<and> io_alive s \<and> \<not> io_gone s \<and> \<not> io_closed s \<and> \<not> (single \<and> io_pending s))"
  by (simp add: async_start_def tunio_ok_def tunio_eparam_def tunio_eclosed_def tunio_efail_def)

lemma async_start_accepts:
  "io_accepted (snd (async_start single args_ok addr_ok throws cb s)) =
     io_accepted s @ (if fst (async_start single args_ok addr_ok throws cb s) = tunio_ok then [cb] else [])"
  by (simp add: async_start_def tunio_ok_def tunio_eparam_def tunio_eclosed_def tunio_efail_def)

lemma io_silent:
  assumes "\<not> io_alive s \<or> io_gone s" shows "io_calls (io_steps single acts s) = io_calls s"
proof -
  have "\<not> io_alive s \<or> io_gone s \<Longrightarrow> (\<not> io_alive (io_step single a s) \<or> io_gone (io_step single a s)) \<and> io_calls (io_step single a s) = io_calls s" for a s
    by (cases a) (auto simp: async_start_def async_finish_def Let_def)
  thus ?thesis using assms unfolding io_steps_def by (induction acts arbitrary: s) (simp_all del: io_step.simps)
qed

text \<open>
  C33. Every operation that was started calls back once, if it ends and nothing was freed before. After any
  sequence of starts, completions, frees, closings and openings: the operations started, which are those whose call
  returned \<^verbatim>\<open>TUNIO_OK\<close>, are those called back, those in progress and those that ended silently,
  each once. A call succeeds exactly if its arguments are good, it does not throw, the handle is alive, the engine
  open, and, where one operation is admitted at a time, none is in progress: the flag is reset by every end. When the
  \<open>k\<close>-th operation in progress ends, exactly its callback is called, with its code and size. When all in
  progress have ended, every operation ever started has been called back, none silently, if the handle and the
  engine live; if one of them was freed, no callback is called any more, whatever follows. That the engine lets every
  operation end is not part of this model: the engines' theorems on handlers say it.
\<close>

theorem c_async_calls_back_once:
  assumes "s = io_steps single acts async_io_new" "length rs = length (io_waiting s)" "ended = io_end_all single rs s"
  shows "mset (map fst (io_calls s)) + mset (io_dropped s) + mset (io_waiting s) = mset (io_accepted s) \<and>
    io_accepted (snd (async_start single args_ok addr_ok throws cb s)) =
      io_accepted s @ (if fst (async_start single args_ok addr_ok throws cb s) = tunio_ok then [cb] else []) \<and>
    (fst (async_start single args_ok addr_ok throws cb s) = tunio_ok) =
      (args_ok \<and> addr_ok \<and> \<not> throws \<and> io_alive s \<and> \<not> io_gone s \<and> \<not> io_closed s \<and> \<not> (single \<and> io_waiting s \<noteq> [])) \<and>
    (if k < length (io_waiting s)
     then io_calls (async_finish k ec n s) =
         io_calls s @ (if io_alive s \<and> \<not> io_gone s then [(io_waiting s ! k, async_err_code ec, n)] else []) \<and>
       mset (io_waiting (async_finish k ec n s)) = mset (io_waiting s) - {#io_waiting s ! k#}
     else True) \<and>
    io_waiting ended = [] \<and>
    (if io_alive s \<and> \<not> io_gone s
     then io_dropped ended = [] \<and> mset (map fst (io_calls ended)) = mset (io_accepted s) \<and>
       io_calls ended = io_calls s @ map2 (\<lambda>cb (ec, n). (cb, async_err_code ec, n)) (io_waiting s) rs \<and>
       (fst (async_start single True True False cb ended) = tunio_ok) = (\<not> io_closed s)
     else io_calls (io_steps single later s) = io_calls s)"
proof -
  have i: "io_inv single s" "io_inv single ended"
    using io_inv_steps [OF io_inv_steps [OF io_inv_new]] io_inv_steps [OF io_inv_new] assms(1,3) by (simp_all add: io_end_all_def)
  note e = io_end_all_result [OF assms(2), of single, folded assms(3)]
  have p: "(single \<and> io_pending s) = (single \<and> io_waiting s \<noteq> [])" using i(1) by (auto simp: io_inv_def split: if_splits)
  have "\<not> io_pending ended" using i(2) e by (auto simp: io_inv_def split: if_splits)
  moreover have "mset (io_waiting (async_finish k ec n s)) = mset (io_waiting s) - {#io_waiting s ! k#}" if "k < length (io_waiting s)"
    using io_finish_waiting [OF that] unfolding async_finish_simps(1) [OF that] by simp
  moreover have "mset (map fst (io_calls s @ map2 (\<lambda>cb (ec, n). (cb, async_err_code ec, n)) (io_waiting s) rs)) = mset (io_accepted s)"
    if "io_alive s \<and> \<not> io_gone s"
  proof -
    have q: "io_calls ended = io_calls s @ map2 (\<lambda>cb (ec, n). (cb, async_err_code ec, n)) (io_waiting s) rs"
      "io_waiting ended = []" "io_accepted ended = io_accepted s" using e that by simp_all
    have "io_dropped ended = []" using i(2) e that unfolding io_inv_def by blast
    moreover have "mset (map fst (io_calls ended)) + mset (io_dropped ended) + mset (io_waiting ended) = mset (io_accepted ended)"
      using i(2) unfolding io_inv_def by blast
    ultimately show ?thesis unfolding q by simp
  qed
  ultimately show ?thesis
    using i e p io_silent [of s single later] by (simp add: io_inv_def async_start_ok async_start_accepts async_finish_simps)
qed

text \<open>
  Freeing silences. Once a connection or its engine has been freed, no callback is called any more, for
  operations in progress either; so freeing an engine does not report its pending operations as closed.
\<close>

theorem c_async_silent_after_free:
  assumes "\<not> io_alive s \<or> io_gone s"
  shows "io_calls (io_steps single acts s) = io_calls s"
  using io_silent assms .

section \<open>Samples\<close>

definition sample_listening :: accept_state where
  "sample_listening = accept_steps [C_open, C_register (Some 7)] accept_state_new"

text \<open>The device's read fails while an accept waits; a later registration listens again.\<close>

theorem c_accept_keeps_listening_witness:
  "listening (accept_steps [C_arm, X_task, E_connection, X_handler] sample_listening) \<and>
   (let t = accept_steps [E_fail EC_operation_aborted, X_handler] (accept_steps [C_arm, X_task] sample_listening) in
      ac_cb t = Some 7 \<and> \<not> ac_closed t \<and> ac_calls (accept_steps [C_arm, X_task, E_connection, X_handler, X_handler_step] t) = [] \<and>
      listening (accept_step (C_register (Some 8)) t))"
proof -
  have l: "listening sample_listening"
    by (simp add: sample_listening_def accept_steps_def accept_state_new_def accept_defs listening_def in_flight_def)
  define s where "s = accept_steps [C_arm, X_task] sample_listening"
  have s: "ac_pending s = 1" "ac_running s = None" "ac_cb s = Some 7" "ac_calls s = []"
    by (simp_all add: s_def sample_listening_def accept_steps_def accept_state_new_def accept_defs)
  show ?thesis
    using c_accept_keeps_listening [OF l _ refl, of "[C_arm, X_task, E_connection, X_handler]"]
      c_accept_keeps_listening [OF l _ s_def, of EC_operation_aborted "[C_arm, X_task, E_connection, X_handler, X_handler_step]" 8] s
    by (simp add: Let_def s_def [symmetric] del: accept_step.simps)
qed

theorem c_accept_stuck_forever_witness:
  "ac_calls (accept_steps [C_close, C_arm, C_open, C_register None, C_cancel, X_task, C_register (Some 8), C_arm, X_task, E_connection, X_handler] sample_listening) = []"
proof -
  have s: "listening sample_listening" "ac_arming sample_listening = 1" "ac_running sample_listening = None" "ac_calls sample_listening = []"
    by (simp_all add: sample_listening_def accept_steps_def accept_state_new_def accept_defs listening_def in_flight_def)
  show ?thesis using c_accept_stuck_forever [OF s(1-3)] s(4) by simp
qed

theorem c_accept_registration_lost_witness:
  "\<exists>s'. ac_cb s' = Some 9 \<and> \<not> ac_closed s' \<and> ac_calls (accept_steps [E_connection, X_handler, X_handler_step] s') = []"
proof -
  define s where "s = accept_steps [C_arm, X_task] sample_listening"
  have s: "listening s" "ac_pending s = 1" "ac_running s = None" "ac_calls s = []"
    by (simp_all add: s_def sample_listening_def accept_steps_def accept_state_new_def accept_defs listening_def in_flight_def)
  show ?thesis using c_accept_registration_lost [OF s(1-3), of "[E_connection, X_handler, X_handler_step]" _ 9] s(4) by auto
qed

text \<open>A second read is refused while the first is in progress and accepted after it has ended, with its callback called.\<close>

theorem c_async_calls_back_once_witness:
  "(let s = io_steps True [Io_start True True False 5] async_io_new; ended = io_end_all True [(EC_eof, 0)] s in
     fst (async_start True True True False 6 s) \<noteq> tunio_ok \<and> io_calls ended = [(5, async_err_code EC_eof, 0)] \<and>
     fst (async_start True True True False 6 ended) = tunio_ok)"
proof -
  define s where "s = io_steps True [Io_start True True False 5] async_io_new"
  have s: "io_waiting s = [5]" "io_alive s" "\<not> io_gone s" "\<not> io_closed s" "io_calls s = []"
    by (simp_all add: s_def io_steps_def async_start_def async_io_new_def)
  note c = c_async_calls_back_once [OF s_def, of "[(EC_eof, 0)]" _ True True False 6, OF _ refl]
  have "fst (async_start True True True False 6 s) \<noteq> tunio_ok" using c s by simp
  moreover have "io_calls (io_end_all True [(EC_eof, 0)] s) = [(5, async_err_code EC_eof, 0)]" using c s by simp
  moreover have "fst (async_start True True True False 6 (io_end_all True [(EC_eof, 0)] s)) = tunio_ok" using c s by simp
  ultimately show ?thesis unfolding s_def [symmetric] Let_def by blast
qed

theorem c_async_silent_after_free_witness:
  "io_calls (io_steps True [Io_finish 0 EC_operation_aborted 0] (io_steps True [Io_start True True False 5, Io_engine_free] async_io_new)) = []"
proof -
  have "io_gone (io_steps True [Io_start True True False 5, Io_engine_free] async_io_new)"
    "io_calls (io_steps True [Io_start True True False 5, Io_engine_free] async_io_new) = []"
    by (simp_all add: io_steps_def async_start_def async_io_new_def)
  thus ?thesis using c_async_silent_after_free by simp
qed

end
