(* ===== verification/Spec2Isabelle.thy ===== *)
theory Spec2Isabelle
  imports Checksum Packet_Buffer Engine_Config Queue_Writer Ip_Packet Tcp_Integrity Tcp_Memory Tcp_Segments Tcp_Retransmit Udp_Expiry Udp_Packet Tunio_Safety Tunio_Packets Tcp_Socket Udp_Socket Tun_Device Wintun_Runs Windows_Tap C_Engine C_Async
begin

text \<open>
  \<^bold>\<open>Verification of tunio.\<close> tunio is a C++ library that ends the TCP connections and UDP sessions
  arriving on a TUN device in user space and hands them to the application as sockets. This development
  models the library under \<^verbatim>\<open>src/src\<close>, \<^verbatim>\<open>src/include/tunio\<close> and its C binding in executable
  definitions and proves what makes each part correct. Paths below are relative to \<^verbatim>\<open>src\<close>.

  \<^bold>\<open>The program.\<close> A packet read from the device (one of several queues, each with its own file
  descriptor) is validated by \<^verbatim>\<open>tunio_impl::handle_packet\<close> and goes to the TCP engine, to the UDP
  engine or to the echo responder. The TCP engine keeps a table of flows under their five-tuples; a flow is a
  control block with a receive queue, an out-of-order cache, at most one pending read, at most one pending write
  and the coroutine that sends it. The UDP engine keeps sessions under the client's address and port, with a
  heap of expiry times. Both engines send through one queue writer, which keeps one device write in
  flight per queue. Everything runs on one strand; calls of the application are dispatched to it, completions are
  posted from it. Sockets and acceptors are thin owners of flows and sessions. The device has a POSIX backend
  (Linux and macOS) and two Windows backends.

  \<^bold>\<open>Theories and sources.\<close> In the order of dependence:

  \<^item> \<open>Tunio_Prelude\<close>: bytes, words and their byte order, slices and overwriting of byte lists,
    \<^verbatim>\<open>size_t\<close> subtraction, ordered maps as sorted association lists, the locale
    \<open>in_order_channel\<close>.
  \<^item> \<open>Ip_Headers\<close>, \<open>Checksum\<close>: \<^verbatim>\<open>include/tunio/ip_packet.hpp\<close>,
    \<^verbatim>\<open>include/tunio/detail/ip_headers.hpp\<close> and the checksums of \<^verbatim>\<open>src/ip_packet.cpp\<close>,
    scalar and SSE2; the locale \<open>ones_checksum\<close> is interpreted by the plain and the pseudo-header sum.
  \<^item> \<open>Packet_Buffer\<close>, \<open>Ip_Packet\<close>: \<^verbatim>\<open>include/tunio/packet_buffer.hpp\<close>, the
    parser and the builder of \<^verbatim>\<open>src/ip_packet.cpp\<close>.
  \<^item> \<open>Engine_Config\<close>: \<^verbatim>\<open>include/tunio/tun_config.hpp\<close>, keys and hashes, and
    the accountant of buffered bytes with its locale \<open>budget\<close>.
  \<^item> \<open>Queue_Writer\<close>: \<^verbatim>\<open>include/tunio/detail/tun_queue_writer.hpp\<close>, with the environment
    record \<open>env\<close> that both engines share (statistics, accountant, writer, clock, posted completions).
  \<^item> \<open>Tcp_Flow\<close> (data and segments), \<open>Tcp_Ooo\<close> (out-of-order cache), \<open>Tcp_Receive\<close>,
    \<open>Tcp_Stream\<close> (receive path), \<open>Tcp_Conn\<close> (states, closing, accepting), \<open>Tcp_Write\<close>
    (the send coroutine), \<open>Tcp_Engine\<close>, \<open>Tcp_System\<close> (all events, invariant, ledger of handlers),
    \<open>Tcp_Integrity\<close>, \<open>Tcp_Memory\<close>, \<open>Tcp_Segments\<close>, \<open>Tcp_Retransmit\<close>: \<^verbatim>\<open>src/tcp_engine.cpp\<close>,
    \<^verbatim>\<open>include/tunio/detail/tcp_engine.hpp\<close>.
  \<^item> \<open>Udp_Engine\<close>, \<open>Udp_Send\<close>, \<open>Udp_Session\<close>, \<open>Udp_System\<close>, \<open>Udp_Expiry\<close>,
    \<open>Udp_Packet\<close>: \<^verbatim>\<open>src/udp_engine.cpp\<close>, \<^verbatim>\<open>include/tunio/detail/udp_engine.hpp\<close>.
  \<^item> \<open>Tcp_Socket\<close>, \<open>Udp_Socket\<close>: the socket and acceptor classes and their operations
    (\<^verbatim>\<open>tun_tcp_socket\<close>, \<^verbatim>\<open>tun_tcp_acceptor\<close>, \<^verbatim>\<open>tun_udp_socket\<close>, \<^verbatim>\<open>tun_udp_acceptor\<close>).
  \<^item> \<open>Packet_Build\<close>, \<open>Ip_Input\<close>, \<open>Engine_Frame\<close>, \<open>Tunio_Core\<close>, \<open>Tunio_System\<close>,
    \<open>Tunio_Run\<close>, \<open>Tunio_Safety\<close>, \<open>Tunio_Packets\<close>: \<^verbatim>\<open>src/tunio.cpp\<close>,
    \<^verbatim>\<open>include/tunio/detail/tunio_impl.hpp\<close>: opening, closing and reopening, the read pump, packet
    validation, echo replies.
  \<^item> \<open>Posix_Device\<close>, \<open>Posix_Ownership\<close>, \<open>Tun_Device\<close>: \<^verbatim>\<open>src/tun_device_posix.cpp\<close>
    and its header, \<^verbatim>\<open>include/tunio/tun_device.hpp\<close>.
  \<^item> \<open>Windows_Api\<close>, \<open>Windows_Tap\<close>: \<^verbatim>\<open>src/tun_device_windows.cpp\<close>; \<open>Wintun_Ring\<close>,
    \<open>Wintun_Device\<close>, \<open>Wintun_Runs\<close>: \<^verbatim>\<open>src/tun_device_wintun.cpp\<close> and its header.
  \<^item> \<open>C_Api\<close>, \<open>C_Engine\<close>, \<open>C_Async\<close>: the C binding, \<^verbatim>\<open>bindings/c/src/c_api.cpp\<close> and
    \<^verbatim>\<open>bindings/c/include/tunio/c_api.h\<close>: configuration, codes and results; blocking calls against
    closing, over the model of \<^verbatim>\<open>tunio_impl\<close>; accepting, reading and writing with callbacks.

  \<^bold>\<open>What is proved.\<close>

  \<^item> TCP: what the application reads is the beginning of what the peer sent, whatever order, duplication,
    overlap or loss the segments arrive in (\<open>Tcp_Stream\<close>, \<open>Tcp_Integrity\<close>); in every
    reachable state the accountant is charged exactly what the flows hold, and closing gives all of it back
    (\<open>Tcp_Memory\<close>); every read, write and accept handler is completed or still pending, none lost, none run
    twice; table, accept queue and counters agree with the flows; states only move forward (\<open>Tcp_System\<close>).
    A segment the engine emits is accepted by the input path of an engine at the other end (\<open>Tcp_Segments\<close>);
    segmentation and retransmission read the right bytes of the user's buffers, and a write nobody acknowledges
    is retransmitted in each of the configured rounds and given up in the next (\<open>Tcp_Retransmit\<close>), with the two situations in which
    it does not: after the peer has closed its side, and before the handshake is acknowledged.
  \<^item> UDP: the same accounting of handlers and sessions; what the expiry timer does; fragments reassemble
    to the datagram; a datagram one engine sends is the datagram the other delivers.
  \<^item> Writer: its invariant in every reachable state, conservation of packets, order per queue with
    retries and cancellations.
  \<^item> Program: both engines keep their invariants through opening, closing and reopening; read slots are never
    lost; reads and tasks of an earlier generation do not touch a later one; a failing open leaves a closed
    program; closing completes every handler.
  \<^item> Sockets: the objects own the connections their specification says, the engine receives exactly the calls the
    specification lists for the application's events, and no two objects own one connection.
  \<^item> Devices: whichever system call fails, no descriptor, handle, view or adapter is leaked, given back
    twice or taken from its owner; packets survive the frame prefix; the Wintun rings are bounded queues and no
    access leaves them, whatever the driver writes, as long as the size of the packet being taken stays what it was
    when it was checked; closing completes every read and write.
  \<^item> C binding: its defaults are those of the C++ interface; in every interleaving of threads no call is being
    started while the engine is closed, and closing wakes every blocked call; at most one accept is under way and
    accepting goes on until it is paused or fails, with the failure and the two orders of events after which nobody
    listens although the callback is registered; every operation with a callback calls back once when it ends, and
    never after a free.

  \<^bold>\<open>How the code is rendered.\<close>

  \<^item> Classes are records, enumerations datatypes, sequence numbers and header fields words of their width;
    \<^verbatim>\<open>size_t\<close> is \<open>nat\<close>, its subtraction written with the wrap-around (\<open>size_sub\<close>) where it can
    go below zero. The host is little-endian. Times are integers in milliseconds.
  \<^item> Flows and sessions live in stores indexed by identifiers; a shared pointer is an identifier, a null or
    expired one is \<open>None\<close>. Handlers are numbers; running one is an entry of the list of posted completions.
  \<^item> Exceptions and undefined behaviour are recorded in the field \<open>cx\<close> of the context; the
    remaining steps of the handler still run, which matters only for an MTU below 68 or a pool whose buffers
    have been exchanged.
  \<^item> A coroutine is a step function between its suspension points (\<open>write_loop_step\<close>); there is one
    per flow. Timers, completions of device writes and dispatched tasks are events, and the step relations
    \<open>tcp_run\<close>, \<open>udp_run\<close>, \<open>ti_run\<close>, \<open>app_run\<close>, \<open>wt_run\<close>, \<open>core_run\<close> contain every order of them.
    \<^verbatim>\<open>net::dispatch\<close> runs at once or is queued, which a flag of the event decides.
  \<^item> The expiry heap is a sorted list: only its least element is observable.
  \<^item> Loops are structural recursion on the list they walk, on the bytes left, or, for the chain walked
    by the send loop between two suspensions, unrolled: the only way back to its head without waiting cannot be
    taken twice (\<open>wl_head\<close>). There is no fuel but the number of bytes or entries a loop consumes.
  \<^item> The operating systems are parameters: a system call answers by a function of all calls made before,
    so a theorem holds for every pattern of failures. Parsing an address text, and what the registry holds, are
    parameters as well.

  \<^bold>\<open>Not modelled.\<close> Exhaustion of memory. The executors of asio beyond the order of the strand. Engines of an
  earlier generation after a reopen, and the sockets that still hold their flows. The byte layout of netlink and
  ioctl requests. Loading the Wintun library and the search of its adapters in the registry, the barriers that order the
  accesses to the rings shared with the driver (what it writes between two reads of a packet is modelled), overlapped input and output. The Python
  binding, the examples and the tests; of the C binding the texts of messages, its threads and its getters.
\<close>

end
